(* ===== verification/Prelude.thy ===== *)
theory Prelude
  imports Main "HOL-Library.Word"
begin

text \<open>
  Shared vocabulary of the development: Unicode scalar values and the text of atoms, the
  state-and-error computations in which the reader is written (a Rust method
  \<open>fn f(&mut self, ...) -> Result<T, E>\<close> is a function from the state to a result and the
  new state, the state being kept on the error path too), the integer parsers of the Rust
  standard library, and the generic lemmas on lists and digits the components share.
\<close>

named_theorems lex_progress \<open>how far a lexer operation moves the reader\<close>
named_theorems run_simps \<open>evaluation of state-and-error computations\<close>

section \<open>Characters and text\<close>

text \<open>A Rust \<open>char\<close> is a Unicode scalar value; atoms and strings are sequences of them.\<close>

type_synonym uchar = nat
type_synonym atom = "uchar list"

abbreviation ch :: "char \<Rightarrow> uchar" where
  "ch c \<equiv> of_char c"

definition atm :: "string \<Rightarrow> atom" where
  "atm s = map of_char s"

lemma atm_simps [simp]:
  "atm [] = []"
  "atm (c # s) = ch c # atm s"
  by (simp_all add: atm_def)

definition valid_char :: "nat \<Rightarrow> bool" where
  "valid_char n \<longleftrightarrow> n < 0xD800 \<or> 0xE000 \<le> n \<and> n \<le> 0x10FFFF"

definition len_utf8 :: "uchar \<Rightarrow> nat" where
  "len_utf8 c = (if c < 0x80 then 1 else if c < 0x800 then 2 else if c < 0x10000 then 3 else 4)"

lemma len_utf8_pos [simp]: "0 < len_utf8 c"
  by (simp add: len_utf8_def)

lemma len_utf8_neq_0 [simp]: "len_utf8 c \<noteq> 0"
  by (simp add: len_utf8_def)

section \<open>State-and-error computations\<close>

type_synonym ('s, 'e, 'a) comp = "'s \<Rightarrow> ('e + 'a) \<times> 's"

definition ret :: "'a \<Rightarrow> ('s, 'e, 'a) comp" where
  "ret a = (\<lambda>s. (Inr a, s))"

definition raise :: "'e \<Rightarrow> ('s, 'e, 'a) comp" where
  "raise e = (\<lambda>s. (Inl e, s))"

text \<open>\<open>andThen m f\<close> is \<open>let x = m?; f(x)\<close>.\<close>

definition andThen :: "('s, 'e, 'a) comp \<Rightarrow> ('a \<Rightarrow> ('s, 'e, 'b) comp) \<Rightarrow> ('s, 'e, 'b) comp" where
  "andThen m f = (\<lambda>s. case m s of (Inl e, s') \<Rightarrow> (Inl e, s') | (Inr a, s') \<Rightarrow> f a s')"

text \<open>\<open>modify f\<close> is a statement that changes the state and cannot fail.\<close>

definition modify :: "('s \<Rightarrow> 's) \<Rightarrow> ('s, 'e, unit) comp" where
  "modify f = (\<lambda>s. (Inr (), f s))"

text \<open>\<open>orElse m h\<close> is \<open>m.or_else(h)\<close>; the handler sees the state the failed call left.\<close>

definition orElse :: "('s, 'e, 'a) comp \<Rightarrow> ('e \<Rightarrow> ('s, 'e, 'a) comp) \<Rightarrow> ('s, 'e, 'a) comp" where
  "orElse m h = (\<lambda>s. case m s of (Inl e, s') \<Rightarrow> h e s' | (Inr a, s') \<Rightarrow> (Inr a, s'))"

lemma ret_run [run_simps]: "ret a s = (Inr a, s)"
  by (simp add: ret_def)

lemma raise_run [run_simps]: "raise e s = (Inl e, s)"
  by (simp add: raise_def)

lemma modify_run [run_simps]: "modify f s = (Inr (), f s)"
  by (simp add: modify_def)

lemma andThen_run [run_simps]:
  "andThen m f s = (case m s of (Inl e, s') \<Rightarrow> (Inl e, s') | (Inr a, s') \<Rightarrow> f a s')"
  by (simp add: andThen_def)

lemma orElse_run [run_simps]:
  "orElse m h s = (case m s of (Inl e, s') \<Rightarrow> h e s' | (Inr a, s') \<Rightarrow> (Inr a, s'))"
  by (simp add: orElse_def)

lemma andThen_Inr_iff:
  "andThen m f s = (Inr b, t) \<longleftrightarrow> (\<exists>a s'. m s = (Inr a, s') \<and> f a s' = (Inr b, t))"
  by (auto simp: andThen_def split: prod.splits sum.splits)

lemma andThen_Inl_iff:
  "andThen m f s = (Inl e, t) \<longleftrightarrow>
     m s = (Inl e, t) \<or> (\<exists>a s'. m s = (Inr a, s') \<and> f a s' = (Inl e, t))"
  by (auto simp: andThen_def split: prod.splits sum.splits)

section \<open>Integer parsing in the Rust standard library\<close>

definition to_digit :: "nat \<Rightarrow> uchar \<Rightarrow> nat option" where
  "to_digit radix c =
     (let d = (if 48 \<le> c \<and> c \<le> 57 then Some (c - 48)
               else if 97 \<le> c \<and> c \<le> 122 then Some (c - 87)
               else if 65 \<le> c \<and> c \<le> 90 then Some (c - 55) else None)
      in case d of None \<Rightarrow> None | Some n \<Rightarrow> if n < radix then Some n else None)"

fun digits_value :: "nat \<Rightarrow> nat \<Rightarrow> uchar list \<Rightarrow> nat option" where
  "digits_value radix acc [] = Some acc"
| "digits_value radix acc (c # cs) =
     (case to_digit radix c of None \<Rightarrow> None | Some d \<Rightarrow> digits_value radix (acc * radix + d) cs)"

text \<open>\<open>u32::from_str_radix\<close>: an optional plus sign, at least one digit, no overflow.\<close>

definition u32_from_str_radix :: "nat \<Rightarrow> uchar list \<Rightarrow> nat option" where
  "u32_from_str_radix radix src =
     (let ds = (case src of c # d # cs \<Rightarrow> if c = 43 then d # cs else src | _ \<Rightarrow> src)
      in if ds = [] then None
         else case digits_value radix 0 ds of
                None \<Rightarrow> None | Some n \<Rightarrow> if n < 2 ^ 32 then Some n else None)"

text \<open>\<open>i64::from_str_radix\<close>: an optional sign, at least one digit, no overflow.\<close>

definition i64_from_str_radix :: "nat \<Rightarrow> uchar list \<Rightarrow> int option" where
  "i64_from_str_radix radix src =
     (let (neg, ds) = (case src of
                         c # d # cs \<Rightarrow> if c = 43 then (False, d # cs)
                                       else if c = 45 then (True, d # cs) else (False, src)
                       | _ \<Rightarrow> (False, src))
      in if ds = [] then None
         else case digits_value radix 0 ds of
                None \<Rightarrow> None
              | Some n \<Rightarrow> (let v = (if neg then - int n else int n)
                          in if - (2 ^ 63) \<le> v \<and> v < 2 ^ 63 then Some v else None))"

text \<open>\<open>char::try_from(u32)\<close>.\<close>

definition char_try_from :: "nat \<Rightarrow> uchar option" where
  "char_try_from n = (if valid_char n then Some n else None)"

section \<open>Lists and digits\<close>

lemma digits_value_append:
  "digits_value r acc (xs @ ys) =
     (case digits_value r acc xs of None \<Rightarrow> None | Some a \<Rightarrow> digits_value r a ys)"
  by (induction xs arbitrary: acc) (auto split: option.splits)

lemma to_digit_decimal: "to_digit 10 c = (if 48 \<le> c \<and> c \<le> 57 then Some (c - 48) else None)"
  by (auto simp: to_digit_def)

lemma takeWhile_dropWhile_split:
  assumes "\<forall>x\<in>set xs. P x" and "ys = [] \<or> \<not> P (hd ys)"
  shows "takeWhile P (xs @ ys) = xs" and "dropWhile P (xs @ ys) = ys"
  using assms by (induction xs) (cases ys; auto)+

end
