(* ===== verification/CharClass.thy ===== *)
theory CharClass
  imports Prelude
begin

text \<open>
  The character classes of \<open>src/src/parser/macros.rs\<close>. The general-category questions the
  code asks of the standard library (\<open>char::is_numeric\<close>, \<open>is_uppercase\<close>,
  \<open>is_alphabetic\<close>) are answered from the ASCII table below U+0080 and from the tables of the
  environment above it; \<open>is_whitespace\<close> and \<open>is_control\<close> have a short closed form. The same
  environment carries the two third-party parsers the lexer calls: \<open>dashu\<close>'s
  \<open>Integer::from_str_radix\<close> and \<open>lexical\<close>'s float parser. A float is its 64-bit pattern.
\<close>

type_synonym f64 = "64 word"

record lex_env =
  numeric_ext :: "uchar \<Rightarrow> bool"
  uppercase_ext :: "uchar \<Rightarrow> bool"
  alphabetic_ext :: "uchar \<Rightarrow> bool"
  integer_from_str_radix :: "uchar list \<Rightarrow> nat \<Rightarrow> int option"
  lexical_parse :: "uchar list \<Rightarrow> f64 option"

text \<open>
  What the code relies on in \<open>Integer::from_str_radix\<close>: a non-empty string of digits of the
  radix is read as their positional value.
\<close>

definition integer_parser_ok :: "lex_env \<Rightarrow> bool" where
  "integer_parser_ok E \<longleftrightarrow>
     (\<forall>src radix n. src \<noteq> [] \<and> digits_value radix 0 src = Some n \<longrightarrow>
        integer_from_str_radix E src radix = Some (int n))"

section \<open>Standard-library classes\<close>

definition is_ascii_digit :: "uchar \<Rightarrow> bool" where
  "is_ascii_digit c \<longleftrightarrow> 48 \<le> c \<and> c \<le> 57"

definition is_numeric :: "lex_env \<Rightarrow> uchar \<Rightarrow> bool" where
  "is_numeric E c \<longleftrightarrow> (if c < 0x80 then is_ascii_digit c else numeric_ext E c)"

definition is_uppercase :: "lex_env \<Rightarrow> uchar \<Rightarrow> bool" where
  "is_uppercase E c \<longleftrightarrow> (if c < 0x80 then 65 \<le> c \<and> c \<le> 90 else uppercase_ext E c)"

definition is_alphabetic :: "lex_env \<Rightarrow> uchar \<Rightarrow> bool" where
  "is_alphabetic E c \<longleftrightarrow>
     (if c < 0x80 then 65 \<le> c \<and> c \<le> 90 \<or> 97 \<le> c \<and> c \<le> 122 else alphabetic_ext E c)"

definition is_whitespace :: "uchar \<Rightarrow> bool" where
  "is_whitespace c \<longleftrightarrow>
     9 \<le> c \<and> c \<le> 13 \<or> c = 32 \<or> c = 0x85 \<or> c = 0xA0 \<or> c = 0x1680 \<or>
     0x2000 \<le> c \<and> c \<le> 0x200A \<or> c = 0x2028 \<or> c = 0x2029 \<or> c = 0x202F \<or> c = 0x205F \<or> c = 0x3000"

definition is_control :: "uchar \<Rightarrow> bool" where
  "is_control c \<longleftrightarrow> c < 0x20 \<or> 0x7F \<le> c \<and> c \<le> 0x9F"

section \<open>The classes of the reader\<close>

definition backslash_char :: "uchar \<Rightarrow> bool" where
  "backslash_char c \<longleftrightarrow> c = ch CHR 0x5C"

definition graphic_char :: "uchar \<Rightarrow> bool" where
  "graphic_char c \<longleftrightarrow> c \<in> set (atm ''#$&*+-./:<=>?@^~'')"

definition graphic_token_char :: "uchar \<Rightarrow> bool" where
  "graphic_token_char c \<longleftrightarrow> graphic_char c \<or> backslash_char c"

definition layout_char :: "uchar \<Rightarrow> bool" where
  "layout_char c \<longleftrightarrow> c \<in> {32, 13, 10, 9, 0x0B, 0x0C}"

definition single_quote_char :: "uchar \<Rightarrow> bool" where
  "single_quote_char c \<longleftrightarrow> c = 39"

definition double_quote_char :: "uchar \<Rightarrow> bool" where
  "double_quote_char c \<longleftrightarrow> c = 34"

definition back_quote_char :: "uchar \<Rightarrow> bool" where
  "back_quote_char c \<longleftrightarrow> c = 96"

definition meta_char :: "uchar \<Rightarrow> bool" where
  "meta_char c \<longleftrightarrow> c \<in> {92, 39, 34, 96}"

definition solo_char :: "uchar \<Rightarrow> bool" where
  "solo_char c \<longleftrightarrow> c \<in> set (atm ''!(),;[]{}|%'')"

definition alpha_char :: "lex_env \<Rightarrow> uchar \<Rightarrow> bool" where
  "alpha_char E c \<longleftrightarrow>
     \<not> is_numeric E c \<and> \<not> is_whitespace c \<and> \<not> is_control c \<and> \<not> graphic_token_char c \<and>
     \<not> layout_char c \<and> \<not> meta_char c \<and> \<not> solo_char c \<or> c = ch CHR ''_''"

definition alpha_numeric_char :: "lex_env \<Rightarrow> uchar \<Rightarrow> bool" where
  "alpha_numeric_char E c \<longleftrightarrow> alpha_char E c \<or> is_numeric E c"

definition capital_letter_char :: "lex_env \<Rightarrow> uchar \<Rightarrow> bool" where
  "capital_letter_char E c \<longleftrightarrow> is_uppercase E c"

definition small_letter_char :: "lex_env \<Rightarrow> uchar \<Rightarrow> bool" where
  "small_letter_char E c \<longleftrightarrow> is_alphabetic E c \<and> \<not> is_uppercase E c"

definition variable_indicator_char :: "uchar \<Rightarrow> bool" where
  "variable_indicator_char c \<longleftrightarrow> c = ch CHR ''_''"

definition comment_1_char :: "uchar \<Rightarrow> bool" where
  "comment_1_char c \<longleftrightarrow> c = ch CHR ''/''"

definition comment_2_char :: "uchar \<Rightarrow> bool" where
  "comment_2_char c \<longleftrightarrow> c = ch CHR ''*''"

definition cut_char :: "uchar \<Rightarrow> bool" where
  "cut_char c \<longleftrightarrow> c = ch CHR ''!''"

definition semicolon_char :: "uchar \<Rightarrow> bool" where
  "semicolon_char c \<longleftrightarrow> c = ch CHR '';''"

definition decimal_digit_char :: "uchar \<Rightarrow> bool" where
  "decimal_digit_char c \<longleftrightarrow> is_ascii_digit c"

definition decimal_point_char :: "uchar \<Rightarrow> bool" where
  "decimal_point_char c \<longleftrightarrow> c = ch CHR ''.''"

definition end_line_comment_char :: "uchar \<Rightarrow> bool" where
  "end_line_comment_char c \<longleftrightarrow> c = ch CHR ''%''"

definition exponent_char :: "uchar \<Rightarrow> bool" where
  "exponent_char c \<longleftrightarrow> c = ch CHR ''e'' \<or> c = ch CHR ''E''"

definition sign_char :: "uchar \<Rightarrow> bool" where
  "sign_char c \<longleftrightarrow> c = ch CHR ''-'' \<or> c = ch CHR ''+''"

definition hexadecimal_digit_char :: "uchar \<Rightarrow> bool" where
  "hexadecimal_digit_char c \<longleftrightarrow> is_ascii_digit c \<or> 65 \<le> c \<and> c \<le> 70 \<or> 97 \<le> c \<and> c \<le> 102"

definition octal_digit_char :: "uchar \<Rightarrow> bool" where
  "octal_digit_char c \<longleftrightarrow> 48 \<le> c \<and> c \<le> 55"

definition binary_digit_char :: "uchar \<Rightarrow> bool" where
  "binary_digit_char c \<longleftrightarrow> c = ch CHR ''0'' \<or> c = ch CHR ''1''"

definition new_line_char :: "uchar \<Rightarrow> bool" where
  "new_line_char c \<longleftrightarrow> c = 10"

definition space_char :: "uchar \<Rightarrow> bool" where
  "space_char c \<longleftrightarrow> c = 32"

definition symbolic_hexadecimal_char :: "uchar \<Rightarrow> bool" where
  "symbolic_hexadecimal_char c \<longleftrightarrow> c = ch CHR ''x''"

definition prolog_char :: "lex_env \<Rightarrow> uchar \<Rightarrow> bool" where
  "prolog_char E c \<longleftrightarrow>
     graphic_char c \<or> alpha_numeric_char E c \<or> solo_char c \<or> layout_char c \<or> meta_char c"

lemmas fixed_class_defs =
  backslash_char_def graphic_char_def graphic_token_char_def layout_char_def
  single_quote_char_def double_quote_char_def back_quote_char_def meta_char_def solo_char_def
  variable_indicator_char_def comment_1_char_def comment_2_char_def cut_char_def
  semicolon_char_def decimal_digit_char_def decimal_point_char_def end_line_comment_char_def
  exponent_char_def sign_char_def hexadecimal_digit_char_def octal_digit_char_def
  binary_digit_char_def new_line_char_def space_char_def symbolic_hexadecimal_char_def
  is_ascii_digit_def

lemmas std_class_defs =
  is_numeric_def is_uppercase_def is_alphabetic_def is_whitespace_def is_control_def

lemmas class_defs = fixed_class_defs std_class_defs alpha_char_def alpha_numeric_char_def
  capital_letter_char_def small_letter_char_def prolog_char_def

text \<open>
  The first character of a token decides which branch of \<open>next_token\<close> reads it; the classes
  that open different tokens do not overlap, whatever the Unicode tables say of the
  characters beyond ASCII.
\<close>

lemma digit_not_graphic: "decimal_digit_char c \<Longrightarrow> \<not> graphic_token_char c"
  by (auto simp: fixed_class_defs)

lemma digit_alpha_numeric: "decimal_digit_char c \<Longrightarrow> alpha_numeric_char E c"
  by (auto simp: alpha_numeric_char_def is_numeric_def fixed_class_defs)

lemma layout_not_alpha_numeric: "layout_char c \<Longrightarrow> \<not> alpha_numeric_char E c"
  by (auto simp: class_defs)

lemma graphic_token_not_alpha_numeric: "graphic_token_char c \<Longrightarrow> \<not> alpha_numeric_char E c"
  by (auto simp: class_defs)

lemma solo_not_alpha_numeric: "solo_char c \<Longrightarrow> \<not> alpha_numeric_char E c"
  by (auto simp: class_defs)

lemma meta_not_alpha_numeric: "meta_char c \<Longrightarrow> \<not> alpha_numeric_char E c"
  by (auto simp: class_defs)

lemma ascii_letter_alpha_numeric:
  "65 \<le> c \<and> c \<le> 90 \<or> 97 \<le> c \<and> c \<le> 122 \<Longrightarrow> alpha_numeric_char E c"
  by (auto simp: class_defs)

end
