(* ===== verification/Ast.thy ===== *)
theory Ast
  imports CharClass
begin

text \<open>
  The data of \<open>src/src/parser/ast.rs\<close>: operator declarations and their bit encodings, operator
  tables, parser errors, the 56-bit small integers \<open>Fixnum\<close>, literals and the terms the
  parser builds. Arena pointers are the values they point to: a \<open>TypedArenaPtr<Integer>\<close>
  is the integer, a pair \<open>(F64Offset, OrderedFloat<f64>)\<close> the float; the \<open>Cell<RegType>\<close>
  annotations of terms, which the parser always fills with the default, are left out.
\<close>

unbundle bit_operations_syntax

section \<open>Operator declarations\<close>

datatype OpDeclSpec = XFX | XFY | YFX | XF | YF | FX | FY

datatype Fixity = FixIn | FixPost | FixPre

type_synonym spec = "32 word"

primrec op_value :: "OpDeclSpec \<Rightarrow> spec" where
  "op_value XFX = 0x0001"
| "op_value XFY = 0x0002"
| "op_value YFX = 0x0004"
| "op_value XF = 0x0010"
| "op_value YF = 0x0020"
| "op_value FX = 0x0040"
| "op_value FY = 0x0080"

primrec op_get_spec :: "OpDeclSpec \<Rightarrow> atom" where
  "op_get_spec XFX = atm ''xfx''"
| "op_get_spec XFY = atm ''xfy''"
| "op_get_spec YFX = atm ''yfx''"
| "op_get_spec FX = atm ''fx''"
| "op_get_spec FY = atm ''fy''"
| "op_get_spec XF = atm ''xf''"
| "op_get_spec YF = atm ''yf''"

definition op_is_prefix :: "OpDeclSpec \<Rightarrow> bool" where
  "op_is_prefix s \<longleftrightarrow> s = FX \<or> s = FY"

definition op_is_postfix :: "OpDeclSpec \<Rightarrow> bool" where
  "op_is_postfix s \<longleftrightarrow> s = XF \<or> s = YF"

definition op_is_infix :: "OpDeclSpec \<Rightarrow> bool" where
  "op_is_infix s \<longleftrightarrow> s = XFX \<or> s = XFY \<or> s = YFX"

definition is_strict_left :: "OpDeclSpec \<Rightarrow> bool" where
  "is_strict_left s \<longleftrightarrow> s = XFX \<or> s = XFY \<or> s = XF"

definition is_strict_right :: "OpDeclSpec \<Rightarrow> bool" where
  "is_strict_right s \<longleftrightarrow> s = XFX \<or> s = YFX \<or> s = FX"

primrec op_fixity :: "OpDeclSpec \<Rightarrow> Fixity" where
  "op_fixity XFY = FixIn"
| "op_fixity XFX = FixIn"
| "op_fixity YFX = FixIn"
| "op_fixity XF = FixPost"
| "op_fixity YF = FixPost"
| "op_fixity FX = FixPre"
| "op_fixity FY = FixPre"

definition op_try_from_u8 :: "8 word \<Rightarrow> OpDeclSpec option" where
  "op_try_from_u8 v =
     (if v = 0x01 then Some XFX else if v = 0x02 then Some XFY else if v = 0x04 then Some YFX
      else if v = 0x10 then Some XF else if v = 0x20 then Some YF
      else if v = 0x40 then Some FX else if v = 0x80 then Some FY else None)"

definition op_try_from_atom :: "atom \<Rightarrow> OpDeclSpec option" where
  "op_try_from_atom a =
     (if a = atm ''xfx'' then Some XFX else if a = atm ''xfy'' then Some XFY
      else if a = atm ''yfx'' then Some YFX else if a = atm ''fx'' then Some FX
      else if a = atm ''fy'' then Some FY else if a = atm ''xf'' then Some XF
      else if a = atm ''yf'' then Some YF else None)"

lemma op_try_from_u8_value: "op_try_from_u8 (ucast (op_value s)) = Some s"
  by (cases s) (simp_all add: op_try_from_u8_def)

lemma op_try_from_atom_get_spec: "op_try_from_atom (op_get_spec s) = Some s"
  by (cases s) (simp_all add: op_try_from_atom_def)

section \<open>Specifiers on the parser's stack\<close>

definition DELIMITER :: spec where "DELIMITER = 0x0100"
definition TERM' :: spec where "TERM' = 0x1000"
definition LTERM :: spec where "LTERM = 0x3000"
definition BTERM :: spec where "BTERM = 0x11000"
definition NEGATIVE_SIGN :: spec where "NEGATIVE_SIGN = 0x0200"

definition is_negate :: "spec \<Rightarrow> bool" where
  "is_negate x \<longleftrightarrow> x AND NEGATIVE_SIGN \<noteq> 0"

definition is_term :: "spec \<Rightarrow> bool" where
  "is_term x \<longleftrightarrow> x AND TERM' \<noteq> 0 \<or> is_negate x"

definition is_lterm :: "spec \<Rightarrow> bool" where
  "is_lterm x \<longleftrightarrow> x AND LTERM \<noteq> 0 \<or> is_negate x"

definition is_op :: "spec \<Rightarrow> bool" where
  "is_op x \<longleftrightarrow>
     x AND (op_value XF OR op_value YF OR op_value FX OR op_value FY OR
            op_value XFX OR op_value XFY OR op_value YFX) \<noteq> 0"

definition is_prefix :: "spec \<Rightarrow> bool" where
  "is_prefix x \<longleftrightarrow> x AND (op_value FX OR op_value FY) \<noteq> 0"

definition is_infix :: "spec \<Rightarrow> bool" where
  "is_infix x \<longleftrightarrow> x AND (op_value XFX OR op_value XFY OR op_value YFX) \<noteq> 0"

text \<open>The macros \<open>is_xfx!\<close>, ..., \<open>is_fy!\<close> test one bit each.\<close>

definition is_kind :: "OpDeclSpec \<Rightarrow> spec \<Rightarrow> bool" where
  "is_kind k x \<longleftrightarrow> x AND op_value k \<noteq> 0"

section \<open>Operator tables\<close>

text \<open>\<open>OpDesc\<close> packs a priority of 11 bits with the specifier.\<close>

record OpDesc =
  prec :: "11 word"
  dspec :: OpDeclSpec

definition op_build_with :: "nat \<Rightarrow> OpDeclSpec \<Rightarrow> OpDesc" where
  "op_build_with p s = \<lparr>prec = of_nat p, dspec = s\<rparr>"

definition get_prec :: "OpDesc \<Rightarrow> nat" where
  "get_prec d = unat (prec d)"

definition op_arity :: "OpDesc \<Rightarrow> nat" where
  "op_arity d = (if \<not> op_is_infix (dspec d) then 1 else 2)"

type_synonym OpDir = "atom \<times> Fixity \<rightharpoonup> OpDesc"

definition default_op_dir :: OpDir where
  "default_op_dir =
     Map.empty((atm '':-'', FixIn) \<mapsto> op_build_with 1200 XFX,
               (atm '':-'', FixPre) \<mapsto> op_build_with 1200 FX,
               (atm ''?-'', FixPre) \<mapsto> op_build_with 1200 FX,
               (atm '','', FixIn) \<mapsto> op_build_with 1000 XFY)"

record CompositeOpDir =
  primary_op_dir :: "OpDir option"
  secondary_op_dir :: OpDir

definition op_dir_get :: "CompositeOpDir \<Rightarrow> atom \<Rightarrow> Fixity \<Rightarrow> OpDesc option" where
  "op_dir_get d name fixity =
     (let entry = (case primary_op_dir d of Some p \<Rightarrow> p (name, fixity) | None \<Rightarrow> None)
      in case entry of Some e \<Rightarrow> Some e | None \<Rightarrow> secondary_op_dir d (name, fixity))"

section \<open>Errors\<close>

datatype ErrorKind = UnexpectedEof | InvalidData | Interrupted | OtherKind

datatype ParserError =
    BackQuotedString nat nat
  | IO ErrorKind
  | IncompleteReduction nat nat
  | InfiniteFloat nat nat
  | InvalidSingleQuotedCharacter uchar
  | LexicalError
  | MissingQuote nat nat
  | NonPrologChar nat nat
  | ParseBigInt nat nat
  | UnexpectedChar uchar nat nat
  | Utf8Error nat nat

fun line_and_col_num :: "ParserError \<Rightarrow> (nat \<times> nat) option" where
  "line_and_col_num (BackQuotedString l c) = Some (l, c)"
| "line_and_col_num (IncompleteReduction l c) = Some (l, c)"
| "line_and_col_num (InfiniteFloat l c) = Some (l, c)"
| "line_and_col_num (MissingQuote l c) = Some (l, c)"
| "line_and_col_num (NonPrologChar l c) = Some (l, c)"
| "line_and_col_num (ParseBigInt l c) = Some (l, c)"
| "line_and_col_num (UnexpectedChar _ l c) = Some (l, c)"
| "line_and_col_num (Utf8Error l c) = Some (l, c)"
| "line_and_col_num _ = None"

primrec error_as_atom :: "ParserError \<Rightarrow> atom" where
  "error_as_atom (BackQuotedString _ _) = atm ''back_quoted_string''"
| "error_as_atom (IncompleteReduction _ _) = atm ''incomplete_reduction''"
| "error_as_atom (InvalidSingleQuotedCharacter _) = atm ''invalid_single_quoted_character''"
| "error_as_atom (InfiniteFloat _ _) = atm ''infinite_float''"
| "error_as_atom (IO k) =
     (if k = UnexpectedEof then atm ''unexpected_end_of_file''
      else if k = InvalidData then atm ''invalid_data'' else atm ''input_output_error'')"
| "error_as_atom LexicalError = atm ''lexical_error''"
| "error_as_atom (MissingQuote _ _) = atm ''missing_quote''"
| "error_as_atom (NonPrologChar _ _) = atm ''non_prolog_character''"
| "error_as_atom (ParseBigInt _ _) = atm ''cannot_parse_big_int''"
| "error_as_atom (UnexpectedChar _ _ _) = atm ''unexpected_char''"
| "error_as_atom (Utf8Error _ _) = atm ''utf8_conversion_error''"

definition unexpected_eof :: ParserError where
  "unexpected_eof = IO UnexpectedEof"

definition is_unexpected_eof :: "ParserError \<Rightarrow> bool" where
  "is_unexpected_eof e \<longleftrightarrow> (case e of IO k \<Rightarrow> k = UnexpectedEof | _ \<Rightarrow> False)"

lemma is_unexpected_eof_simps [simp]:
  "is_unexpected_eof unexpected_eof"
  "is_unexpected_eof e \<longleftrightarrow> e = unexpected_eof"
  by (auto simp: is_unexpected_eof_def unexpected_eof_def split: ParserError.splits)

section \<open>Small integers\<close>

text \<open>
  A \<open>Fixnum\<close> stores the low 56 bits of an \<open>i64\<close> and \<open>get_num\<close> sign-extends them. The
  tag tells a small integer from a cut point, which is the only other value packed this way.
\<close>

datatype fixnum_tag = TagFixnum | TagCutPoint

record Fixnum =
  num :: "56 word"
  ftag :: fixnum_tag

definition Fixnum_MIN :: int where "Fixnum_MIN = - (2 ^ 55)"
definition Fixnum_MAX :: int where "Fixnum_MAX = 2 ^ 55 - 1"

definition build_with_unchecked :: "int \<Rightarrow> Fixnum" where
  "build_with_unchecked n = \<lparr>num = word_of_int n, ftag = TagFixnum\<rparr>"

definition as_cutpoint :: "Fixnum \<Rightarrow> Fixnum" where
  "as_cutpoint f = f\<lparr>ftag := TagCutPoint\<rparr>"

definition try_into_i56 :: "int \<Rightarrow> int option" where
  "try_into_i56 n = (if Fixnum_MIN \<le> n \<and> n \<le> Fixnum_MAX then Some n else None)"

definition build_with_checked :: "int \<Rightarrow> Fixnum option" where
  "build_with_checked n = map_option build_with_unchecked (try_into_i56 n)"

definition get_num :: "Fixnum \<Rightarrow> int" where
  "get_num f = sint (num f)"

definition checked_abs :: "Fixnum \<Rightarrow> Fixnum option" where
  "checked_abs f = build_with_checked \<bar>get_num f\<bar>"

definition fixnum_neg :: "Fixnum \<Rightarrow> Fixnum" where
  "fixnum_neg f = build_with_unchecked (- get_num f)"

definition fixnum_not :: "Fixnum \<Rightarrow> Fixnum" where
  "fixnum_not f = build_with_unchecked (- get_num f - 1)"

section \<open>Literals, terms\<close>

datatype GInteger = GInt int | GFixnum Fixnum

datatype Literal =
    Atom atom
  | CodeIndexOffset nat
  | LFixnum Fixnum
  | Integer int
  | Rational int int
  | F64 f64

primrec to_literal :: "GInteger \<Rightarrow> Literal" where
  "to_literal (GInt i) = Integer i"
| "to_literal (GFixnum f) = LFixnum f"

datatype Term =
    AnonVar
  | Clause atom "Term list"
  | Cons Term Term
  | Literal Literal
  | PartialString "uchar list" Term
  | CompleteString "uchar list"
  | Var "uchar list"

definition first_arg :: "Term \<Rightarrow> Term option" where
  "first_arg t = (case t of Clause _ (x # _) \<Rightarrow> Some x | _ \<Rightarrow> None)"

definition term_name :: "Term \<Rightarrow> atom option" where
  "term_name t = (case t of Literal (Atom a) \<Rightarrow> Some a | Clause a _ \<Rightarrow> Some a | _ \<Rightarrow> None)"

definition term_arity :: "Term \<Rightarrow> nat" where
  "term_arity t = (case t of Clause _ ts \<Rightarrow> length ts | _ \<Rightarrow> 0)"

text \<open>
  \<open>unfold_by_str_once\<close> takes a binary clause apart; a trailing code index is dropped first,
  and is gone from the term even when the function returns \<open>None\<close>.
\<close>

definition drop_code_index :: "Term list \<Rightarrow> Term list" where
  "drop_code_index ts =
     (if ts \<noteq> [] \<and> (case last ts of Literal (CodeIndexOffset _) \<Rightarrow> True | _ \<Rightarrow> False)
      then butlast ts else ts)"

definition unfold_by_str_once :: "Term \<Rightarrow> atom \<Rightarrow> (Term \<times> Term) option \<times> Term" where
  "unfold_by_str_once t s =
     (case t of
        Clause name ts \<Rightarrow>
          (let ts' = drop_code_index ts
           in if name = s \<and> length ts' = 2 then (Some (ts' ! 0, ts' ! 1), Clause name [])
              else (None, Clause name ts'))
      | _ \<Rightarrow> (None, t))"

lemma drop_code_index_length: "length (drop_code_index ts) \<le> length ts"
  by (simp add: drop_code_index_def)

lemma drop_code_index_subset: "set (drop_code_index ts) \<subseteq> set ts"
  by (auto simp: drop_code_index_def dest: in_set_butlastD)

lemma unfold_by_str_once_size:
  assumes "unfold_by_str_once t s = (Some (a, b), t')"
  shows "size b < size t"
proof -
  from assms obtain ts where t: "t = Clause s ts" and l: "length (drop_code_index ts) = 2"
    and b: "b = drop_code_index ts ! 1"
    by (auto simp: unfold_by_str_once_def Let_def split: Term.splits if_splits)
  have "b \<in> set ts" using drop_code_index_subset [of ts] l b nth_mem by fastforce
  then have "size b \<le> size_list size ts" by (simp add: size_list_estimation')
  then show ?thesis by (simp add: t)
qed

function unfold_by_str_from :: "Term \<Rightarrow> atom \<Rightarrow> Term list \<Rightarrow> Term list" where
  "unfold_by_str_from t s acc =
     (case unfold_by_str_once t s of
        (Some (x, y), _) \<Rightarrow> unfold_by_str_from y s (acc @ [x])
      | (None, t') \<Rightarrow> acc @ [t'])"
  by pat_completeness auto
termination
  by (relation "measure (\<lambda>(t, s, acc). size t)")
     (auto dest: unfold_by_str_once_size [OF sym])

declare unfold_by_str_from.simps [simp del]

definition unfold_by_str :: "Term \<Rightarrow> atom \<Rightarrow> Term list" where
  "unfold_by_str t s = unfold_by_str_from t s []"

section \<open>Facts on small integers\<close>

lemma get_num_range: "Fixnum_MIN \<le> get_num f \<and> get_num f \<le> Fixnum_MAX"
  using sint_greater_eq [of "num f"] sint_less [of "num f"]
  by (simp add: get_num_def Fixnum_MIN_def Fixnum_MAX_def)

lemma get_num_build_with_unchecked:
  assumes "Fixnum_MIN \<le> n" and "n \<le> Fixnum_MAX"
  shows "get_num (build_with_unchecked n) = n"
  using assms
  by (simp add: get_num_def build_with_unchecked_def Fixnum_MIN_def Fixnum_MAX_def
        sint_sbintrunc' signed_take_bit_int_eq_self)

lemma build_with_checked_Some:
  "build_with_checked n = Some f \<longleftrightarrow>
     Fixnum_MIN \<le> n \<and> n \<le> Fixnum_MAX \<and> f = build_with_unchecked n"
  by (auto simp: build_with_checked_def try_into_i56_def)

lemma build_with_checked_None:
  "build_with_checked n = None \<longleftrightarrow> n < Fixnum_MIN \<or> Fixnum_MAX < n"
  by (auto simp: build_with_checked_def try_into_i56_def)

end
