(* ===== verification/Lexer.thy ===== *)
theory Lexer
  imports Ast
begin

text \<open>
  The tokenizer of \<open>src/src/parser/lexer.rs\<close>. The reader behind \<open>CharRead\<close> is the list of
  characters still to come and what follows them: the end of the input, or an error that
  \<open>peek_char\<close> keeps reporting. Each method is a computation over the lexer's state, with the
  state kept on the error path; each loop is a recursive function whose termination is proved
  from the number of characters left.
\<close>

section \<open>State\<close>

datatype reader_end = AtEof | AtError

datatype DoubleQuotes = DQAtom | DQChars | DQCodes

record lexer =
  chars :: "uchar list"
  rd_end :: reader_end
  line_num :: nat
  col_num :: nat
  double_quotes :: DoubleQuotes

type_synonym 'a lex = "(lexer, ParserError, 'a) comp"

definition Lexer_new :: "uchar list \<Rightarrow> reader_end \<Rightarrow> DoubleQuotes \<Rightarrow> lexer" where
  "Lexer_new src e dq =
     \<lparr>chars = src, rd_end = e, line_num = 0, col_num = 0, double_quotes = dq\<rparr>"

datatype Token =
    TLiteral Literal
  | TVar "uchar list"
  | TString "uchar list"
  | Open
  | OpenCT
  | Close
  | OpenList
  | CloseList
  | OpenCurly
  | CloseCurly
  | HeadTailSeparator
  | Comma
  | End

definition token_is_end :: "Token \<Rightarrow> bool" where
  "token_is_end t \<longleftrightarrow> t = End"

datatype NumberToken = NTInteger GInteger | NTFloat f64 | NTPartial "uchar list"

primrec to_token :: "NumberToken \<Rightarrow> Token option" where
  "to_token (NTFloat x) = Some (TLiteral (F64 x))"
| "to_token (NTInteger g) =
     (case g of GInt n \<Rightarrow> Some (TLiteral (Integer n))
              | GFixnum n \<Rightarrow> Some (TLiteral (LFixnum n)))"
| "to_token (NTPartial _) = None"

section \<open>Reading characters\<close>

text \<open>
  \<open>consume(n)\<close> moves the reader over \<open>n\<close> bytes. The lexer only ever consumes the length of
  the character it has just looked at.
\<close>

fun consume_bytes :: "nat \<Rightarrow> uchar list \<Rightarrow> uchar list" where
  "consume_bytes n [] = []"
| "consume_bytes n (c # cs) = (if n = 0 then c # cs else consume_bytes (n - len_utf8 c) cs)"

definition peek_char :: "lexer \<Rightarrow> (ErrorKind + uchar) option" where
  "peek_char s =
     (case chars s of
        c # _ \<Rightarrow> Some (Inr c)
      | [] \<Rightarrow> (case rd_end s of AtEof \<Rightarrow> None | AtError \<Rightarrow> Some (Inl InvalidData)))"

definition put_back_char :: "uchar \<Rightarrow> lexer \<Rightarrow> lexer" where
  "put_back_char c s = s\<lparr>chars := c # chars s\<rparr>"

definition lookahead_char :: "uchar lex" where
  "lookahead_char s =
     (case peek_char s of Some (Inr c) \<Rightarrow> (Inr c, s) | _ \<Rightarrow> (Inl unexpected_eof, s))"

definition read_char :: "uchar lex" where
  "read_char s =
     (case peek_char s of
        Some (Inr c) \<Rightarrow> (Inr c, s\<lparr>chars := consume_bytes (len_utf8 c) (chars s)\<rparr>)
      | _ \<Rightarrow> (Inl unexpected_eof, s))"

definition return_char :: "uchar \<Rightarrow> unit lex" where
  "return_char c = modify (put_back_char c)"

definition advance :: "uchar \<Rightarrow> lexer \<Rightarrow> lexer" where
  "advance c s =
     (let s = s\<lparr>chars := consume_bytes (len_utf8 c) (chars s)\<rparr>
      in if new_line_char c then s\<lparr>line_num := line_num s + 1, col_num := 0\<rparr>
         else s\<lparr>col_num := col_num s + 1\<rparr>)"

definition skip_char :: "uchar \<Rightarrow> unit lex" where
  "skip_char c = modify (advance c)"

text \<open>An error that carries the current position.\<close>

definition raise_at :: "(nat \<Rightarrow> nat \<Rightarrow> ParserError) \<Rightarrow> 'a lex" where
  "raise_at f s = (Inl (f (line_num s) (col_num s)), s)"

lemma consume_bytes_0 [simp]: "consume_bytes 0 cs = cs"
  by (cases cs) auto

lemma consume_bytes_len [simp]: "consume_bytes (len_utf8 c) (c # cs) = cs"
  by simp

lemma consume_bytes_length: "length (consume_bytes n cs) \<le> length cs"
proof (induction n cs rule: consume_bytes.induct)
  case (2 n c cs)
  then show ?case by (cases "n = 0") auto
qed simp

lemma consume_bytes_less: "cs \<noteq> [] \<Longrightarrow> 0 < n \<Longrightarrow> length (consume_bytes n cs) < length cs"
  using consume_bytes_length by (cases cs) (auto simp: less_Suc_eq_le)

lemma lookahead_char_Cons [run_simps]: "chars s = c # cs \<Longrightarrow> lookahead_char s = (Inr c, s)"
  by (simp add: lookahead_char_def peek_char_def)

lemma lookahead_char_Nil [run_simps]: "chars s = [] \<Longrightarrow> lookahead_char s = (Inl unexpected_eof, s)"
  by (auto simp: lookahead_char_def peek_char_def split: reader_end.splits)

lemma lookahead_char_Inr_iff:
  "lookahead_char s = (Inr c, t) \<longleftrightarrow> t = s \<and> chars s \<noteq> [] \<and> c = hd (chars s)"
  by (cases "chars s") (auto simp: run_simps)

lemma lookahead_char_Inl_iff:
  "lookahead_char s = (Inl e, t) \<longleftrightarrow> t = s \<and> chars s = [] \<and> e = unexpected_eof"
  by (cases "chars s") (auto simp: run_simps)

lemma read_char_Cons [run_simps]: "chars s = c # cs \<Longrightarrow> read_char s = (Inr c, s\<lparr>chars := cs\<rparr>)"
  by (simp add: read_char_def peek_char_def)

lemma read_char_Inr_iff:
  "read_char s = (Inr c, t) \<longleftrightarrow> (\<exists>cs. chars s = c # cs \<and> t = s\<lparr>chars := cs\<rparr>)"
  by (cases "chars s") (auto simp: run_simps read_char_def peek_char_def split: reader_end.splits)

lemma chars_advance [simp]: "chars (advance c s) = consume_bytes (len_utf8 c) (chars s)"
  by (simp add: advance_def Let_def)

lemma chars_advance_less: "chars s \<noteq> [] \<Longrightarrow> length (chars (advance c s)) < length (chars s)"
  by (simp add: consume_bytes_less)

lemma chars_advance_nonempty: "chars (advance c s) \<noteq> [] \<Longrightarrow> chars s \<noteq> []"
  by (cases "chars s") auto

lemma chars_advance_measure:
  "chars (advance c s) \<noteq> [] \<Longrightarrow> length (chars (advance c s)) < length (chars s)"
  using chars_advance_less chars_advance_nonempty by blast

lemma chars_put_back [simp]: "chars (put_back_char c s) = c # chars s"
  by (simp add: put_back_char_def)

lemma skip_char_run [run_simps]: "skip_char c s = (Inr (), advance c s)"
  by (simp add: skip_char_def modify_def)

lemma return_char_run [run_simps]: "return_char c s = (Inr (), put_back_char c s)"
  by (simp add: return_char_def modify_def)

lemma raise_at_run [run_simps]: "raise_at f s = (Inl (f (line_num s) (col_num s)), s)"
  by (simp add: raise_at_def)

lemma andThen_skip: "andThen (skip_char c) f s = f () (advance c s)"
  by (simp add: andThen_def skip_char_run)

lemma andThen_return: "andThen (return_char c) f s = f () (put_back_char c s)"
  by (simp add: andThen_def return_char_run)

lemma andThen_lookahead: "chars s = c # cs \<Longrightarrow> andThen lookahead_char f s = f c s"
  by (simp add: andThen_def lookahead_char_Cons)

section \<open>Comments and layout\<close>

function single_line_comment :: "unit lex" where
  "single_line_comment s =
     (if peek_char s = None then (Inr (), s)
      else case lookahead_char s of
             (Inl e, s1) \<Rightarrow> (Inl e, s1)
           | (Inr c, s1) \<Rightarrow>
               (let s2 = advance c s1
                in if new_line_char c then (Inr (), s2) else single_line_comment s2))"
  by pat_completeness auto
termination
  by (relation "measure (length \<circ> chars)")
     (auto simp: lookahead_char_Inr_iff consume_bytes_less dest!: sym [of "(_, _)"])

declare single_line_comment.simps [simp del]

text \<open>
  The closure \<open>comment_loop\<close> with its two nested loops: skip to a star, skip it, stop when a
  slash follows. It returns the character it stopped at.
\<close>

function comment_loop :: "uchar \<Rightarrow> uchar lex" where
  "comment_loop c s =
     (let s1 = advance c s
      in case lookahead_char s1 of
           (Inl e, s2) \<Rightarrow> (Inl e, s2)
         | (Inr c', s2) \<Rightarrow>
             if comment_2_char c \<and> comment_1_char c' then (Inr c', s2)
             else comment_loop c' s2)"
  by pat_completeness auto
termination
  by (relation "measure (length \<circ> chars \<circ> snd)")
     (auto simp: lookahead_char_Inr_iff dest!: sym [of "(_, _)"]
       intro: chars_advance_measure [simplified])

declare comment_loop.simps [simp del]

definition bracketed_comment :: "lex_env \<Rightarrow> bool lex" where
  "bracketed_comment E =
     andThen (skip_char (ch CHR ''/'')) (\<lambda>_.
     andThen lookahead_char (\<lambda>c.
       if comment_2_char c then
         andThen (skip_char c) (\<lambda>_.
         andThen lookahead_char (\<lambda>c.
         andThen
           (orElse (comment_loop c)
              (\<lambda>e. if is_unexpected_eof e then raise_at IncompleteReduction else raise e)) (\<lambda>c.
           if prolog_char E c then andThen (skip_char c) (\<lambda>_. ret True)
           else raise_at NonPrologChar)))
       else andThen (return_char (ch CHR ''/'')) (\<lambda>_. ret False)))"

record LayoutInfo =
  inserted :: bool
  more_layout :: bool

definition consume_layout :: "lex_env \<Rightarrow> uchar option \<Rightarrow> LayoutInfo \<Rightarrow> LayoutInfo lex" where
  "consume_layout E cr info =
     (case cr of
        None \<Rightarrow> ret (info\<lparr>more_layout := False\<rparr>)
      | Some c \<Rightarrow>
          if layout_char c then
            andThen (skip_char c) (\<lambda>_. ret (info\<lparr>inserted := True\<rparr>))
          else if end_line_comment_char c then
            andThen single_line_comment (\<lambda>_. ret (info\<lparr>inserted := True\<rparr>))
          else if comment_1_char c then
            andThen (bracketed_comment E) (\<lambda>b.
              ret (if b then info\<lparr>inserted := True\<rparr> else info\<lparr>more_layout := False\<rparr>))
          else ret (info\<lparr>more_layout := False\<rparr>))"

subsection \<open>Progress of comments and layout\<close>

lemma single_line_comment_progress [lex_progress]:
  "single_line_comment s = (r, t) \<Longrightarrow> length (chars t) \<le> length (chars s)"
proof (induction s rule: single_line_comment.induct)
  case (1 s)
  show ?case
  proof (cases "chars s")
    case Nil
    with "1.prems" show ?thesis
      by (auto simp: single_line_comment.simps [of s] run_simps split: if_splits)
  next
    case (Cons c cs)
    then have la: "lookahead_char s = (Inr c, s)" and pk: "peek_char s \<noteq> None"
      by (auto simp: run_simps peek_char_def)
    show ?thesis
    proof (cases "new_line_char c")
      case True
      with "1.prems" la pk Cons show ?thesis
        by (auto simp: single_line_comment.simps [of s] Let_def)
    next
      case False
      with "1.prems" la pk have "single_line_comment (advance c s) = (r, t)"
        by (simp add: single_line_comment.simps [of s] Let_def)
      with "1.IH" [OF pk la [symmetric] refl refl False]
      have "length (chars t) \<le> length (chars (advance c s))" by simp
      with Cons show ?thesis by simp
    qed
  qed
qed

lemma single_line_comment_strict:
  assumes "single_line_comment s = (Inr u, t)" and "chars s \<noteq> []"
  shows "length (chars t) < length (chars s)"
proof -
  from assms(2) obtain c cs where cs: "chars s = c # cs" by (cases "chars s") auto
  then have la: "lookahead_char s = (Inr c, s)" "peek_char s \<noteq> None"
    by (auto simp: run_simps peek_char_def)
  show ?thesis
  proof (cases "new_line_char c")
    case True
    with assms la cs show ?thesis by (auto simp: single_line_comment.simps [of s] Let_def)
  next
    case False
    with assms la have "single_line_comment (advance c s) = (Inr u, t)"
      by (simp add: single_line_comment.simps [of s] Let_def)
    from single_line_comment_progress [OF this] cs show ?thesis by simp
  qed
qed

lemma comment_loop_progress [lex_progress]:
  "comment_loop c s = (r, t) \<Longrightarrow> length (chars t) \<le> length (chars s)"
proof (induction c s rule: comment_loop.induct)
  case (1 c s)
  have adv: "length (chars (advance c s)) \<le> length (chars s)"
    by (simp add: consume_bytes_length)
  show ?case
  proof (cases "chars (advance c s)")
    case Nil
    with "1.prems" show ?thesis
      by (auto simp: comment_loop.simps [of c s] run_simps Let_def)
  next
    case (Cons c' cs)
    then have la: "lookahead_char (advance c s) = (Inr c', advance c s)" by (simp add: run_simps)
    show ?thesis
    proof (cases "comment_2_char c \<and> comment_1_char c'")
      case True
      with "1.prems" la adv show ?thesis by (auto simp: comment_loop.simps [of c s] Let_def)
    next
      case False
      with "1.prems" la have "comment_loop c' (advance c s) = (r, t)"
        by (auto simp: comment_loop.simps [of c s] Let_def)
      with "1.IH" [OF refl la [symmetric] refl False] adv show ?thesis by linarith
    qed
  qed
qed

lemma bracketed_comment_True:
  assumes "bracketed_comment E s = (Inr True, t)"
  shows "length (chars t) < length (chars s)"
proof -
  let ?s1 = "advance (ch CHR ''/'') s"
  from assms have ne: "chars ?s1 \<noteq> []"
    by (cases "chars ?s1") (auto simp: bracketed_comment_def run_simps simp del: chars_advance)
  then obtain c cs where c: "chars ?s1 = c # cs" by (cases "chars ?s1") auto
  let ?s2 = "advance c ?s1"
  from assms c have c2: "comment_2_char c"
    by (auto simp: bracketed_comment_def run_simps simp del: chars_advance split: if_splits)
  with assms c obtain d ds where d: "chars ?s2 = d # ds"
    by (cases "chars ?s2") (auto simp: bracketed_comment_def run_simps simp del: chars_advance)
  with assms c c2 obtain e s3 where l: "comment_loop d ?s2 = (Inr e, s3)" and t: "t = advance e s3"
    by (auto simp: bracketed_comment_def run_simps simp del: chars_advance
        split: sum.splits prod.splits if_splits)
  have "length (chars t) \<le> length (chars s3)" by (simp add: t consume_bytes_length)
  also have "\<dots> \<le> length (chars ?s2)" by (rule comment_loop_progress [OF l])
  also have "\<dots> < length (chars ?s1)" using c by (simp add: chars_advance_less)
  also have "\<dots> \<le> length (chars s)" by (simp add: consume_bytes_length)
  finally show ?thesis .
qed

lemma consume_layout_more:
  assumes "consume_layout E cr info s = (Inr info', t)" and "more_layout info'" and "chars s \<noteq> []"
  shows "length (chars t) < length (chars s)"
  using assms
  by (auto simp: consume_layout_def run_simps consume_bytes_less
      dest: single_line_comment_strict bracketed_comment_True
      split: option.splits if_splits sum.splits prod.splits)

lemma consume_layout_None_more:
  "consume_layout E None info s = (Inr info', t) \<Longrightarrow> \<not> more_layout info'"
  by (auto simp: consume_layout_def run_simps)

text \<open>
  The loop of \<open>scan_for_layout\<close>; the character it dispatches on is always the lookahead of the
  current state, \<open>None\<close> when there is none.
\<close>

definition lookahead_ok :: "lexer \<Rightarrow> uchar option" where
  "lookahead_ok s = (case lookahead_char s of (Inr c, _) \<Rightarrow> Some c | (Inl _, _) \<Rightarrow> None)"

lemma lookahead_ok_eq: "lookahead_ok s = (case chars s of [] \<Rightarrow> None | c # _ \<Rightarrow> Some c)"
  by (auto simp: lookahead_ok_def run_simps split: list.splits)

function scan_loop :: "lex_env \<Rightarrow> LayoutInfo \<Rightarrow> bool lex" where
  "scan_loop E info s =
     (case consume_layout E (lookahead_ok s) info s of
        (Inl e, s1) \<Rightarrow> (Inl e, s1)
      | (Inr info', s1) \<Rightarrow>
          if \<not> more_layout info' then (Inr (inserted info'), s1) else scan_loop E info' s1)"
  by pat_completeness auto
termination
proof (relation "measure (\<lambda>(E, info, s). length (chars s))", goal_cases)
  case (2 E info s r s1 info')
  then have c: "consume_layout E (lookahead_ok s) info s = (Inr info', s1)" by simp
  have "chars s \<noteq> []"
    using c 2 consume_layout_None_more by (auto simp: lookahead_ok_eq split: list.splits)
  with c 2 show ?case by (auto dest: consume_layout_more)
qed simp

declare scan_loop.simps [simp del]

definition scan_for_layout :: "lex_env \<Rightarrow> bool lex" where
  "scan_for_layout E =
     andThen lookahead_char (\<lambda>c. scan_loop E \<lparr>inserted = False, more_layout = True\<rparr>)"

section \<open>Quoted items\<close>

definition get_control_escape_sequence :: "uchar lex" where
  "get_control_escape_sequence =
     andThen lookahead_char (\<lambda>c.
       let escaped = (if c = ch CHR ''a'' then Some 0x07 else if c = ch CHR ''b'' then Some 0x08
                      else if c = ch CHR ''v'' then Some 0x0B else if c = ch CHR ''f'' then Some 0x0C
                      else if c = ch CHR ''t'' then Some 9 else if c = ch CHR ''n'' then Some 10
                      else if c = ch CHR ''r'' then Some 13 else None)
       in case escaped of
            None \<Rightarrow> raise_at (UnexpectedChar c)
          | Some e \<Rightarrow> andThen (skip_char c) (\<lambda>_. ret e))"

text \<open>The digits of a numeric escape, up to the first character that is not one.\<close>

function escape_digits :: "(uchar \<Rightarrow> bool) \<Rightarrow> uchar \<Rightarrow> uchar list \<Rightarrow> (uchar \<times> uchar list) lex" where
  "escape_digits accept_char c token s =
     (let token' = token @ [c]; s1 = advance c s
      in case lookahead_char s1 of
           (Inl e, s2) \<Rightarrow> (Inl e, s2)
         | (Inr c', s2) \<Rightarrow>
             if \<not> accept_char c' then (Inr (c', token'), s2)
             else escape_digits accept_char c' token' s2)"
  by pat_completeness auto
termination
  by (relation "measure (\<lambda>(p, c, tok, s). length (chars s))")
     (auto simp: lookahead_char_Inr_iff dest!: sym [of "(_, _)"]
       intro: chars_advance_measure [simplified])

declare escape_digits.simps [simp del]

definition escape_sequence_to_char :: "(uchar \<Rightarrow> bool) \<Rightarrow> nat \<Rightarrow> uchar lex" where
  "escape_sequence_to_char accept_char radix =
     andThen lookahead_char (\<lambda>c.
     andThen (escape_digits accept_char c []) (\<lambda>(c, token).
       if backslash_char c then
         andThen (skip_char c) (\<lambda>_.
           case u32_from_str_radix radix token of
             None \<Rightarrow> raise_at ParseBigInt
           | Some n \<Rightarrow> (case char_try_from n of None \<Rightarrow> raise_at Utf8Error | Some c \<Rightarrow> ret c))
       else raise_at IncompleteReduction))"

definition get_octal_escape_sequence :: "uchar lex" where
  "get_octal_escape_sequence = escape_sequence_to_char octal_digit_char 8"

definition get_hexadecimal_escape_sequence :: "uchar \<Rightarrow> uchar lex" where
  "get_hexadecimal_escape_sequence start =
     andThen (skip_char start) (\<lambda>_.
     andThen lookahead_char (\<lambda>c.
       if hexadecimal_digit_char c then escape_sequence_to_char hexadecimal_digit_char 16
       else raise_at IncompleteReduction))"

definition get_non_quote_char :: "lex_env \<Rightarrow> uchar lex" where
  "get_non_quote_char E =
     andThen lookahead_char (\<lambda>c.
       if graphic_char c \<or> alpha_numeric_char E c \<or> solo_char c \<or> space_char c then
         andThen (skip_char c) (\<lambda>_. ret c)
       else if \<not> backslash_char c then raise_at (UnexpectedChar c)
       else
         andThen (skip_char c) (\<lambda>_.
         andThen lookahead_char (\<lambda>c.
           if meta_char c then andThen (skip_char c) (\<lambda>_. ret c)
           else if octal_digit_char c then get_octal_escape_sequence
           else if symbolic_hexadecimal_char c then get_hexadecimal_escape_sequence c
           else get_control_escape_sequence)))"

definition get_back_quoted_char :: "lex_env \<Rightarrow> uchar lex" where
  "get_back_quoted_char E =
     andThen lookahead_char (\<lambda>c.
       if back_quote_char c then
         andThen (skip_char c) (\<lambda>_.
         andThen lookahead_char (\<lambda>c2.
           if \<not> back_quote_char c2 then
             andThen (return_char c) (\<lambda>_. raise_at (UnexpectedChar c))
           else andThen (skip_char c2) (\<lambda>_. ret c2)))
       else if single_quote_char c then andThen (skip_char c) (\<lambda>_. read_char)
       else get_non_quote_char E)"

definition get_back_quoted_item :: "lex_env \<Rightarrow> uchar option lex" where
  "get_back_quoted_item E =
     andThen lookahead_char (\<lambda>c.
       if backslash_char c then
         andThen (skip_char c) (\<lambda>_.
         andThen lookahead_char (\<lambda>c2.
           if new_line_char c2 then andThen (skip_char c2) (\<lambda>_. ret None)
           else andThen (return_char c) (\<lambda>_. raise_at (UnexpectedChar c))))
       else andThen (get_back_quoted_char E) (\<lambda>c. ret (Some c)))"

definition get_single_quoted_char :: "lex_env \<Rightarrow> uchar lex" where
  "get_single_quoted_char E =
     andThen lookahead_char (\<lambda>c.
       if single_quote_char c then
         andThen (skip_char c) (\<lambda>_.
         andThen lookahead_char (\<lambda>c2.
           if \<not> single_quote_char c2 then
             andThen (return_char c) (\<lambda>_. raise_at (UnexpectedChar c))
           else andThen (skip_char c2) (\<lambda>_. ret c2)))
       else if double_quote_char c \<or> back_quote_char c then andThen (skip_char c) (\<lambda>_. ret c)
       else get_non_quote_char E)"

definition get_single_quoted_item :: "lex_env \<Rightarrow> uchar option lex" where
  "get_single_quoted_item E =
     andThen lookahead_char (\<lambda>c.
       if backslash_char c then
         andThen (skip_char c) (\<lambda>_.
         andThen lookahead_char (\<lambda>c2.
           if new_line_char c2 then andThen (skip_char c2) (\<lambda>_. ret None)
           else
             andThen (return_char c) (\<lambda>_.
             andThen (get_single_quoted_char E) (\<lambda>c. ret (Some c)))))
       else andThen (get_single_quoted_char E) (\<lambda>c. ret (Some c)))"

definition get_double_quoted_char :: "lex_env \<Rightarrow> uchar lex" where
  "get_double_quoted_char E =
     andThen lookahead_char (\<lambda>c.
       if double_quote_char c then
         andThen (skip_char c) (\<lambda>_.
         andThen lookahead_char (\<lambda>c2.
           if \<not> double_quote_char c2 then
             andThen (return_char c) (\<lambda>_. raise_at (UnexpectedChar c))
           else andThen (skip_char c2) (\<lambda>_. ret c2)))
       else if single_quote_char c \<or> back_quote_char c then andThen (skip_char c) (\<lambda>_. ret c)
       else get_non_quote_char E)"

definition get_double_quoted_item :: "lex_env \<Rightarrow> uchar option lex" where
  "get_double_quoted_item E =
     andThen lookahead_char (\<lambda>c.
       if backslash_char c then
         andThen (skip_char c) (\<lambda>_.
         andThen lookahead_char (\<lambda>c2.
           if new_line_char c2 then andThen (skip_char c2) (\<lambda>_. ret None)
           else
             andThen (return_char c) (\<lambda>_.
             andThen (get_double_quoted_char E) (\<lambda>c. ret (Some c)))))
       else andThen (get_double_quoted_char E) (\<lambda>c. ret (Some c)))"

subsection \<open>Progress of quoted items\<close>

text \<open>
  \<open>keeps m\<close>: a successful run of \<open>m\<close> leaves no more characters than it found; \<open>eats m\<close>:
  it leaves fewer; \<open>eats_ne m\<close>: it leaves fewer when it finds any.
\<close>

definition keeps :: "'a lex \<Rightarrow> bool" where
  "keeps m \<longleftrightarrow> (\<forall>s a t. m s = (Inr a, t) \<longrightarrow> length (chars t) \<le> length (chars s))"

definition eats :: "'a lex \<Rightarrow> bool" where
  "eats m \<longleftrightarrow> (\<forall>s a t. m s = (Inr a, t) \<longrightarrow> length (chars t) < length (chars s))"

definition eats_ne :: "'a lex \<Rightarrow> bool" where
  "eats_ne m \<longleftrightarrow>
     (\<forall>s a t. chars s \<noteq> [] \<and> m s = (Inr a, t) \<longrightarrow> length (chars t) < length (chars s))"

lemma eatsD: "eats m \<Longrightarrow> m s = (Inr a, t) \<Longrightarrow> length (chars t) < length (chars s)"
  by (auto simp: eats_def)

lemma keepsD: "keeps m \<Longrightarrow> m s = (Inr a, t) \<Longrightarrow> length (chars t) \<le> length (chars s)"
  by (auto simp: keeps_def)

lemma eats_keeps: "eats m \<Longrightarrow> keeps m"
  by (fastforce simp: eats_def keeps_def)

lemma eats_eats_ne: "eats m \<Longrightarrow> eats_ne m"
  by (auto simp: eats_def eats_ne_def)

lemma keeps_basic [lex_progress]:
  "keeps (ret a)" "keeps (raise e)" "keeps (raise_at f)" "keeps lookahead_char"
  "keeps (skip_char c)"
  by (auto simp: keeps_def run_simps lookahead_char_Inr_iff consume_bytes_length)

lemma eats_raise [lex_progress]:
  "eats (raise e)" "eats (raise_at f)" "eats_ne (raise e)" "eats_ne (raise_at f)"
  by (auto simp: eats_def eats_ne_def run_simps)

lemma keeps_andThen [lex_progress]:
  "keeps m \<Longrightarrow> (\<And>a. keeps (f a)) \<Longrightarrow> keeps (andThen m f)"
  unfolding keeps_def by (fastforce simp: andThen_Inr_iff)

lemma eats_lookahead [lex_progress]:
  "(\<And>c. eats_ne (f c)) \<Longrightarrow> eats (andThen lookahead_char f)"
  by (auto simp: eats_def eats_ne_def andThen_Inr_iff lookahead_char_Inr_iff)

lemma eats_ne_skip [lex_progress]:
  "(\<And>a. keeps (f a)) \<Longrightarrow> eats_ne (andThen (skip_char c) f)"
  unfolding eats_ne_def keeps_def
  by (fastforce simp: andThen_Inr_iff run_simps intro: le_less_trans consume_bytes_less)

lemma progress_if [lex_progress]:
  "(b \<Longrightarrow> eats_ne m) \<Longrightarrow> (\<not> b \<Longrightarrow> eats_ne m') \<Longrightarrow> eats_ne (if b then m else m')"
  "(b \<Longrightarrow> keeps m) \<Longrightarrow> (\<not> b \<Longrightarrow> keeps m') \<Longrightarrow> keeps (if b then m else m')"
  by auto

lemma keeps_return_raise [lex_progress]: "keeps (andThen (return_char c) (\<lambda>_. raise_at f))"
  by (auto simp: keeps_def run_simps)

lemma keeps_read_char [lex_progress]: "keeps read_char"
  by (auto simp: keeps_def read_char_Inr_iff)

lemma escape_digits_progress:
  "escape_digits p c tok s = (Inr x, t) \<Longrightarrow> length (chars t) \<le> length (chars s)"
proof (induction p c tok s rule: escape_digits.induct)
  case (1 p c tok s)
  have adv: "length (chars (advance c s)) \<le> length (chars s)"
    by (simp add: consume_bytes_length)
  from "1.prems" obtain c' cs where "chars (advance c s) = c' # cs"
    by (cases "chars (advance c s)")
       (auto simp: escape_digits.simps [of p c tok s] run_simps Let_def simp del: chars_advance)
  then have la: "lookahead_char (advance c s) = (Inr c', advance c s)" by (simp add: run_simps)
  show ?case
  proof (cases "p c'")
    case True
    with "1.prems" la have "escape_digits p c' (tok @ [c]) (advance c s) = (Inr x, t)"
      by (auto simp: escape_digits.simps [of p c tok s] Let_def)
    with "1.IH" [OF refl refl la [symmetric] refl] True adv show ?thesis by (auto intro: le_trans)
  next
    case False
    with "1.prems" la adv show ?thesis
      by (auto simp: escape_digits.simps [of p c tok s] Let_def)
  qed
qed

lemma keeps_escape_digits [lex_progress]: "keeps (escape_digits p c tok)"
  by (auto simp: keeps_def intro: escape_digits_progress)

lemma keeps_option_case [lex_progress]:
  "keeps m \<Longrightarrow> (\<And>a. keeps (f a)) \<Longrightarrow> keeps (case x of None \<Rightarrow> m | Some a \<Rightarrow> f a)"
  by (cases x) auto

lemma keeps_prod_case [lex_progress]:
  "(\<And>a b. keeps (f a b)) \<Longrightarrow> keeps (case x of (a, b) \<Rightarrow> f a b)"
  by (cases x) auto

lemma keeps_escapes [lex_progress]:
  "keeps (escape_sequence_to_char p r)" "keeps get_octal_escape_sequence"
  "keeps (get_hexadecimal_escape_sequence c)" "keeps get_control_escape_sequence"
  unfolding escape_sequence_to_char_def get_octal_escape_sequence_def Let_def
    get_hexadecimal_escape_sequence_def get_control_escape_sequence_def
  by (intro lex_progress)+

lemma eats_get_non_quote_char: "eats (get_non_quote_char E)"
  unfolding get_non_quote_char_def by (intro lex_progress)

lemma eats_quoted_char:
  "eats (get_single_quoted_char E)" "eats (get_double_quoted_char E)"
  "eats (get_back_quoted_char E)"
  unfolding get_single_quoted_char_def get_double_quoted_char_def get_back_quoted_char_def
  by (intro lex_progress eats_eats_ne [OF eats_get_non_quote_char])+

text \<open>Looking past a backslash and putting it back costs nothing.\<close>

lemma eats_ne_return:
  assumes "eats m" and "chars s = c # cs"
    and "andThen (return_char c) (\<lambda>_. m) (advance c s) = (Inr a, t)"
  shows "length (chars t) < length (chars s)"
  using eatsD [OF assms(1), of "put_back_char c (advance c s)"] assms(2,3) by (simp add: run_simps)

lemma eats_map_Some: "eats m \<Longrightarrow> eats (andThen m (\<lambda>c. ret (Some c)))"
  by (auto simp: eats_def andThen_Inr_iff ret_run)

lemma eats_with_backslash:
  assumes "eats m"
  shows "eats (andThen lookahead_char (\<lambda>c.
       if backslash_char c then
         andThen (skip_char c) (\<lambda>_.
         andThen lookahead_char (\<lambda>c2.
           if new_line_char c2 then andThen (skip_char c2) (\<lambda>_. ret None)
           else andThen (return_char c) (\<lambda>_. m)))
       else m))" (is "eats ?p")
  unfolding eats_def
proof (intro allI impI)
  fix s a t assume run: "?p s = (Inr a, t)"
  then obtain c cs where c: "chars s = c # cs"
    by (cases "chars s") (auto simp: run_simps)
  show "length (chars t) < length (chars s)"
  proof (cases "backslash_char c")
    case False
    with run c have "m s = (Inr a, t)" by (simp add: run_simps)
    with assms show ?thesis by (rule eatsD)
  next
    case True
    with run c obtain d ds where d: "cs = d # ds"
      by (cases cs) (auto simp: run_simps)
    show ?thesis
    proof (cases "new_line_char d")
      case True
      with run c d \<open>backslash_char c\<close> show ?thesis by (auto simp: run_simps)
    next
      case False
      with run c d \<open>backslash_char c\<close>
      have "andThen (return_char c) (\<lambda>_. m) (advance c s) = (Inr a, t)"
        by (auto simp: run_simps)
      with assms c show ?thesis by (rule eats_ne_return)
    qed
  qed
qed

lemma eats_quoted_item:
  "eats (get_single_quoted_item E)" "eats (get_double_quoted_item E)"
  "eats (get_back_quoted_item E)"
  unfolding get_single_quoted_item_def get_double_quoted_item_def get_back_quoted_item_def
  by (rule eats_with_backslash, rule eats_map_Some, rule eats_quoted_char)+
     (intro lex_progress eats_eats_ne [OF eats_map_Some [OF eats_quoted_char(3)]])

lemma bracketed_comment_False:
  assumes "bracketed_comment E s = (Inr False, t)"
  shows "length (chars t) \<le> length (chars s)"
proof -
  let ?s1 = "advance (ch CHR ''/'') s"
  from assms have ne: "chars ?s1 \<noteq> []"
    by (cases "chars ?s1") (auto simp: bracketed_comment_def run_simps simp del: chars_advance)
  then obtain c cs where c: "chars ?s1 = c # cs" by (cases "chars ?s1") auto
  have "t = put_back_char (ch CHR ''/'') ?s1"
  proof (cases "comment_2_char c")
    case False
    with assms c show ?thesis by (simp add: bracketed_comment_def run_simps del: chars_advance)
  next
    case True
    with assms c show ?thesis
      by (cases "chars (advance c ?s1)")
         (auto simp: bracketed_comment_def run_simps simp del: chars_advance
           split: sum.splits prod.splits if_splits)
  qed
  with chars_advance_measure [OF ne] show ?thesis by (simp del: chars_advance)
qed

lemma keeps_consume_layout: "keeps (consume_layout E cr info)"
  unfolding keeps_def
proof (intro allI impI)
  fix s a t assume "consume_layout E cr info s = (Inr a, t)"
  then show "length (chars t) \<le> length (chars s)"
    using single_line_comment_progress [of s] bracketed_comment_False [of E s t]
      bracketed_comment_True [of E s t]
    by (auto simp: consume_layout_def run_simps consume_bytes_length
        split: option.splits if_splits sum.splits prod.splits)
qed

lemma scan_loop_progress: "scan_loop E info s = (Inr b, t) \<Longrightarrow> length (chars t) \<le> length (chars s)"
proof (induction E info s rule: scan_loop.induct)
  case (1 E info s)
  from "1.prems" obtain info' s1
    where c: "consume_layout E (lookahead_ok s) info s = (Inr info', s1)"
    by (auto simp: scan_loop.simps [of E info s] split: sum.splits prod.splits)
  have le: "length (chars s1) \<le> length (chars s)"
    by (rule keepsD [OF keeps_consume_layout c])
  show ?case
  proof (cases "more_layout info'")
    case False
    with "1.prems" c le show ?thesis by (simp add: scan_loop.simps [of E info s])
  next
    case True
    with "1.prems" c have "scan_loop E info' s1 = (Inr b, t)"
      by (simp add: scan_loop.simps [of E info s])
    with "1.IH" [OF c [symmetric] refl] True le show ?thesis by (auto intro: le_trans)
  qed
qed

lemma keeps_scan_for_layout [lex_progress]: "keeps (scan_for_layout E)"
  using scan_loop_progress
  by (auto simp: keeps_def scan_for_layout_def andThen_Inr_iff lookahead_char_Inr_iff)

section \<open>Names, variables and strings\<close>

text \<open>
  The macro \<open>consume_chars_with!\<close> at its three uses: collect the characters of the items until
  one of them reports an unexpected character.
\<close>

datatype quote = SingleQ | DoubleQ | BackQ

primrec quoted_item :: "lex_env \<Rightarrow> quote \<Rightarrow> uchar option lex" where
  "quoted_item E SingleQ = get_single_quoted_item E"
| "quoted_item E DoubleQ = get_double_quoted_item E"
| "quoted_item E BackQ = get_back_quoted_item E"

lemma eats_quoted_item': "eats (quoted_item E q)"
  by (cases q) (auto simp: eats_quoted_item)

function consume_chars_with :: "lex_env \<Rightarrow> quote \<Rightarrow> uchar list \<Rightarrow> uchar list lex" where
  "consume_chars_with E q token s =
     (case quoted_item E q s of
        (Inr (Some c), s1) \<Rightarrow> consume_chars_with E q (token @ [c]) s1
      | (Inr None, s1) \<Rightarrow> consume_chars_with E q token s1
      | (Inl (UnexpectedChar _ _ _), s1) \<Rightarrow> (Inr token, s1)
      | (Inl e, s1) \<Rightarrow> (Inl e, s1))"
  by pat_completeness auto
termination
  by (relation "measure (\<lambda>(E, q, tok, s). length (chars s))")
     (auto dest!: eatsD [OF eats_quoted_item', OF sym])

declare consume_chars_with.simps [simp del]

definition get_back_quoted_string :: "lex_env \<Rightarrow> uchar list lex" where
  "get_back_quoted_string E =
     andThen lookahead_char (\<lambda>c.
       if back_quote_char c then
         andThen (skip_char c) (\<lambda>_.
         andThen (consume_chars_with E BackQ []) (\<lambda>token.
         andThen lookahead_char (\<lambda>c.
           if back_quote_char c then andThen (skip_char c) (\<lambda>_. ret token)
           else raise_at MissingQuote)))
       else raise_at (UnexpectedChar c))"

definition char_code_list_token :: "lex_env \<Rightarrow> uchar \<Rightarrow> uchar list lex" where
  "char_code_list_token E start =
     andThen (skip_char start) (\<lambda>_.
     andThen (consume_chars_with E DoubleQ []) (\<lambda>token.
     andThen lookahead_char (\<lambda>c.
       if double_quote_char c then andThen (skip_char c) (\<lambda>_. ret token)
       else raise_at MissingQuote)))"

text \<open>The loops \<open>loop { let c = self.lookahead_char()?; if P(c) { skip; push } else { break } }\<close>.\<close>

function token_loop :: "(uchar \<Rightarrow> bool) \<Rightarrow> uchar list \<Rightarrow> uchar list lex" where
  "token_loop P token s =
     (case lookahead_char s of
        (Inl e, s1) \<Rightarrow> (Inl e, s1)
      | (Inr c, s1) \<Rightarrow>
          if P c then token_loop P (token @ [c]) (advance c s1) else (Inr token, s1))"
  by pat_completeness auto
termination
  by (relation "measure (\<lambda>(P, tok, s). length (chars s))")
     (auto simp: lookahead_char_Inr_iff consume_bytes_less dest!: sym [of "(_, _)"])

declare token_loop.simps [simp del]

definition variable_token :: "lex_env \<Rightarrow> Token lex" where
  "variable_token E =
     andThen read_char (\<lambda>c.
     andThen (token_loop (alpha_numeric_char E) [c]) (\<lambda>s. ret (TVar s)))"

definition name_token :: "lex_env \<Rightarrow> uchar \<Rightarrow> Token lex" where
  "name_token E c =
     (let finish = (\<lambda>token. ret (if token = atm ''[]'' then TLiteral (Atom (atm ''[]''))
                                  else TLiteral (Atom token)))
      in if small_letter_char E c then
           andThen (skip_char c) (\<lambda>_. andThen (token_loop (alpha_numeric_char E) [c]) finish)
         else if graphic_token_char c then
           andThen (skip_char c) (\<lambda>_. andThen (token_loop graphic_token_char [c]) finish)
         else if cut_char c \<or> semicolon_char c then
           andThen (skip_char c) (\<lambda>_. finish [c])
         else if single_quote_char c then
           andThen (skip_char c) (\<lambda>_.
           andThen (consume_chars_with E SingleQ []) (\<lambda>token.
           andThen lookahead_char (\<lambda>c.
             if single_quote_char c then
               andThen (skip_char c) (\<lambda>_.
                 case token of [d] \<Rightarrow> ret (TLiteral (Atom [d])) | _ \<Rightarrow> finish token)
             else raise (InvalidSingleQuotedCharacter c))))
         else andThen (get_back_quoted_string E) (\<lambda>_. raise_at BackQuotedString))"

section \<open>Numbers\<close>

definition parse_float_lossy :: "lex_env \<Rightarrow> uchar list \<Rightarrow> f64 lex" where
  "parse_float_lossy E token =
     (case lexical_parse E token of None \<Rightarrow> raise LexicalError | Some x \<Rightarrow> ret x)"

definition vacate_with_float :: "lex_env \<Rightarrow> uchar list \<Rightarrow> NumberToken lex" where
  "vacate_with_float E token =
     andThen (return_char (last token)) (\<lambda>_.
     andThen (parse_float_lossy E (butlast token)) (\<lambda>n. ret (NTFloat n)))"

definition skip_underscore_in_number :: "lex_env \<Rightarrow> uchar lex" where
  "skip_underscore_in_number E =
     andThen lookahead_char (\<lambda>c.
       if c = ch CHR ''_'' then
         andThen (skip_char c) (\<lambda>_.
         andThen (scan_for_layout E) (\<lambda>_.
         andThen lookahead_char (\<lambda>c.
           if decimal_digit_char c then ret c else raise_at ParseBigInt)))
       else ret c)"

definition parse_integer_by_radix :: "lex_env \<Rightarrow> uchar list \<Rightarrow> nat \<Rightarrow> GInteger lex" where
  "parse_integer_by_radix E token radix =
     (case i64_from_str_radix radix token of
        Some n \<Rightarrow>
          ret (case build_with_checked n of Some f \<Rightarrow> GFixnum f | None \<Rightarrow> GInt n)
      | None \<Rightarrow>
          (case integer_from_str_radix E token radix of
             Some n \<Rightarrow> ret (GInt n)
           | None \<Rightarrow> raise_at ParseBigInt))"

definition parse_integer :: "lex_env \<Rightarrow> uchar list \<Rightarrow> GInteger lex" where
  "parse_integer E token = parse_integer_by_radix E token 10"

abbreviation integer_token :: "lex_env \<Rightarrow> uchar list \<Rightarrow> NumberToken lex" where
  "integer_token E token \<equiv> andThen (parse_integer E token) (\<lambda>g. ret (NTInteger g))"

text \<open>
  The loop shared by \<open>hexadecimal_constant\<close>, \<open>octal_constant\<close> and \<open>binary_constant\<close>: the
  end of the input ends the digits.
\<close>

function radix_loop :: "(uchar \<Rightarrow> bool) \<Rightarrow> uchar \<Rightarrow> uchar list \<Rightarrow> uchar list lex" where
  "radix_loop P c token s =
     (if P c then
        (let s1 = advance c s; token' = token @ [c]
         in case lookahead_char s1 of
              (Inr c', s2) \<Rightarrow> radix_loop P c' token' s2
            | (Inl e, s2) \<Rightarrow> if is_unexpected_eof e then (Inr token', s2) else (Inl e, s2))
      else (Inr token, s))"
  by pat_completeness auto
termination
  by (relation "measure (\<lambda>(P, c, tok, s). length (chars s))")
     (auto simp: lookahead_char_Inr_iff dest!: sym [of "(_, _)"]
       intro: chars_advance_measure [simplified])

declare radix_loop.simps [simp del]

definition radix_constant :: "lex_env \<Rightarrow> (uchar \<Rightarrow> bool) \<Rightarrow> nat \<Rightarrow> uchar \<Rightarrow> NumberToken lex" where
  "radix_constant E P radix start =
     andThen (skip_char start) (\<lambda>_.
     andThen lookahead_char (\<lambda>c.
       if P c then
         andThen (radix_loop P c []) (\<lambda>token.
         andThen (parse_integer_by_radix E token radix) (\<lambda>g. ret (NTInteger g)))
       else andThen (return_char start) (\<lambda>_. raise_at ParseBigInt)))"

definition hexadecimal_constant :: "lex_env \<Rightarrow> uchar \<Rightarrow> NumberToken lex" where
  "hexadecimal_constant E start = radix_constant E hexadecimal_digit_char 16 start"

definition octal_constant :: "lex_env \<Rightarrow> uchar \<Rightarrow> NumberToken lex" where
  "octal_constant E start = radix_constant E octal_digit_char 8 start"

definition binary_constant :: "lex_env \<Rightarrow> uchar \<Rightarrow> NumberToken lex" where
  "binary_constant E start = radix_constant E binary_digit_char 2 start"

lemma keeps_skip_underscore: "keeps (skip_underscore_in_number E)"
  unfolding skip_underscore_in_number_def by (intro lex_progress)

text \<open>
  \<open>try_nt!(token, e)\<close> ends \<open>number_token\<close> with a partial token when \<open>e\<close> meets the end of
  the input; here it runs a continuation otherwise.
\<close>

definition try_nt :: "uchar list \<Rightarrow> 'a lex \<Rightarrow> ('a \<Rightarrow> NumberToken lex) \<Rightarrow> NumberToken lex" where
  "try_nt token m k s =
     (case m s of
        (Inr a, s1) \<Rightarrow> k a s1
      | (Inl e, s1) \<Rightarrow> if is_unexpected_eof e then (Inr (NTPartial token), s1) else (Inl e, s1))"

lemma try_nt_cong [fundef_cong]:
  assumes "token = token'" and "s = s'" and "m s' = m' s'"
    and "\<And>a s1. m' s' = (Inr a, s1) \<Longrightarrow> k a s1 = k' a s1"
  shows "try_nt token m k s = try_nt token' m' k' s'"
  using assms by (auto simp: try_nt_def split: prod.splits sum.splits)

text \<open>
  Collecting decimal digits, first of the integer part (underscores between digits allowed),
  then of the fraction. The continuation receives the next character and the token.
\<close>

function digits_loop ::
  "lex_env \<Rightarrow> (uchar \<Rightarrow> uchar list \<Rightarrow> NumberToken lex) \<Rightarrow> uchar \<Rightarrow> uchar list \<Rightarrow> NumberToken lex" where
  "digits_loop E k c token s =
     (if decimal_digit_char c then
        try_nt (token @ [c]) (skip_underscore_in_number E)
          (\<lambda>c' s1. digits_loop E k c' (token @ [c]) s1) (advance c s)
      else k c token s)"
  by pat_completeness auto
termination
proof (relation "measure (\<lambda>(E, k, c, tok, s). length (chars s))", goal_cases)
  case (2 E k c token s c' s1)
  then have "length (chars s1) \<le> length (chars (advance c s))"
    by (auto dest: keepsD [OF keeps_skip_underscore])
  moreover have "chars (advance c s) \<noteq> []"
    using 2 by (auto simp: skip_underscore_in_number_def andThen_Inr_iff lookahead_char_Inr_iff)
  ultimately show ?case using chars_advance_measure [of c s] by simp
qed simp

declare digits_loop.simps [simp del]

function fraction_loop ::
  "(uchar \<Rightarrow> uchar list \<Rightarrow> NumberToken lex) \<Rightarrow> uchar \<Rightarrow> uchar list \<Rightarrow> NumberToken lex" where
  "fraction_loop k c token s =
     (if decimal_digit_char c then
        try_nt (token @ [c]) lookahead_char
          (\<lambda>c' s1. fraction_loop k c' (token @ [c]) s1) (advance c s)
      else k c token s)"
  by pat_completeness auto
termination
  by (relation "measure (\<lambda>(k, c, tok, s). length (chars s))")
     (auto simp: lookahead_char_Inr_iff intro: chars_advance_measure [simplified])

declare fraction_loop.simps [simp del]

definition float_token :: "lex_env \<Rightarrow> uchar list \<Rightarrow> NumberToken lex" where
  "float_token E token = andThen (parse_float_lossy E token) (\<lambda>n. ret (NTFloat n))"

text \<open>\<open>match self.lookahead_char() { Err(_) => h, Ok(c) => k(c) }\<close>\<close>

definition lookahead_or :: "'a lex \<Rightarrow> (uchar \<Rightarrow> 'a lex) \<Rightarrow> 'a lex" where
  "lookahead_or h k s =
     (case lookahead_char s of (Inl _, s1) \<Rightarrow> h s1 | (Inr c, s1) \<Rightarrow> k c s1)"

text \<open>The digits of the exponent; without any, the exponent character is given back.\<close>

definition exponent_digits :: "lex_env \<Rightarrow> uchar list \<Rightarrow> NumberToken lex" where
  "exponent_digits E token =
     andThen lookahead_char (\<lambda>c.
       if decimal_digit_char c then fraction_loop (\<lambda>_ token. float_token E token) c token
       else vacate_with_float E token)"

definition number_exponent :: "lex_env \<Rightarrow> uchar \<Rightarrow> uchar list \<Rightarrow> NumberToken lex" where
  "number_exponent E c token =
     (let token = token @ [c]
      in andThen (skip_char c) (\<lambda>_.
           lookahead_or (vacate_with_float E token) (\<lambda>c.
             if \<not> sign_char c \<and> \<not> decimal_digit_char c then vacate_with_float E token
             else if sign_char c then
               (let token' = token @ [c];
                    give_back = andThen (return_char (last token')) (\<lambda>_.
                                  vacate_with_float E (butlast token'))
                in andThen (skip_char c) (\<lambda>_.
                     lookahead_or give_back (\<lambda>c.
                       if \<not> decimal_digit_char c then give_back else exponent_digits E token')))
             else exponent_digits E token)))"

definition number_fraction :: "lex_env \<Rightarrow> uchar \<Rightarrow> uchar list \<Rightarrow> NumberToken lex" where
  "number_fraction E c token =
     (let give_back = andThen (return_char (ch CHR ''.'')) (\<lambda>_. integer_token E token)
      in andThen (skip_char c) (\<lambda>_ s.
           if peek_char s = None then give_back s
           else
             andThen lookahead_char (\<lambda>d.
               if decimal_digit_char d then
                 andThen read_char (\<lambda>r.
                   let token = token @ [ch CHR ''.'', r]
                   in try_nt token lookahead_char (\<lambda>c.
                        fraction_loop
                          (\<lambda>c token. if exponent_char c then number_exponent E c token
                                      else float_token E token) c token))
               else give_back) s))"

text \<open>The character codes \<open>0'c\<close>; \<open>c\<close> is the character after the quote.\<close>

definition quoted_code :: "lex_env \<Rightarrow> uchar list \<Rightarrow> uchar \<Rightarrow> NumberToken lex" where
  "quoted_code E token c =
     orElse
       (andThen (get_single_quoted_char E)
          (\<lambda>c. ret (NTInteger (GFixnum (build_with_unchecked (int c))))))
       (\<lambda>err. case err of
                UnexpectedChar q _ _ \<Rightarrow>
                  if q = 39 then andThen (return_char c) (\<lambda>_. integer_token E token)
                  else raise err
              | _ \<Rightarrow> raise err)"

definition number_quoted :: "lex_env \<Rightarrow> uchar \<Rightarrow> uchar list \<Rightarrow> NumberToken lex" where
  "number_quoted E c token =
     andThen (skip_char c) (\<lambda>_.
     andThen lookahead_char (\<lambda>c.
       if backslash_char c then
         andThen (skip_char c) (\<lambda>_.
         andThen lookahead_char (\<lambda>d.
           if new_line_char d then
             andThen (skip_char d) (\<lambda>_.
             andThen (return_char 39) (\<lambda>_.
               ret (NTInteger (GFixnum (build_with_unchecked 0)))))
           else andThen (return_char 92) (\<lambda>_. quoted_code E token c)))
       else quoted_code E token c))"

definition or_integer :: "lex_env \<Rightarrow> uchar list \<Rightarrow> NumberToken lex \<Rightarrow> NumberToken lex" where
  "or_integer E token m =
     orElse m (\<lambda>e. case e of ParseBigInt _ _ \<Rightarrow> integer_token E token | _ \<Rightarrow> raise e)"

definition number_finish :: "lex_env \<Rightarrow> uchar \<Rightarrow> uchar list \<Rightarrow> NumberToken lex" where
  "number_finish E c token =
     (if decimal_point_char c then number_fraction E c token
      else if token = [ch CHR ''0''] then
        (if c = ch CHR ''x'' then or_integer E token (hexadecimal_constant E c)
         else if c = ch CHR ''o'' then or_integer E token (octal_constant E c)
         else if c = ch CHR ''b'' then or_integer E token (binary_constant E c)
         else if single_quote_char c then number_quoted E c token
         else integer_token E token)
      else integer_token E token)"

definition number_token :: "lex_env \<Rightarrow> uchar \<Rightarrow> NumberToken lex" where
  "number_token E leading_c =
     andThen (skip_char leading_c) (\<lambda>_.
       try_nt [leading_c] (skip_underscore_in_number E)
         (\<lambda>c. digits_loop E (number_finish E) c [leading_c]))"

section \<open>Tokens\<close>

definition next_number_token :: "lex_env \<Rightarrow> Token lex" where
  "next_number_token E =
     andThen (scan_for_layout E) (\<lambda>_.
     andThen lookahead_char (\<lambda>c.
       if \<not> decimal_digit_char c then name_token E c
       else
         andThen (number_token E c) (\<lambda>nt.
           case nt of
             NTPartial token \<Rightarrow>
               orElse (andThen (parse_integer E token) (\<lambda>n. ret (TLiteral (to_literal n))))
                 (\<lambda>_. andThen (parse_float_lossy E token) (\<lambda>x. ret (TLiteral (F64 x))))
           | NTFloat x \<Rightarrow> ret (TLiteral (F64 x))
           | NTInteger n \<Rightarrow> ret (TLiteral (to_literal n)))))"

text \<open>The full stop: an end token before layout, a comment or the end of the input.\<close>

definition dot_token :: "lex_env \<Rightarrow> uchar \<Rightarrow> Token lex" where
  "dot_token E c =
     andThen (skip_char c) (\<lambda>_ s.
       case lookahead_char s of
         (Inr d, s1) \<Rightarrow>
           if layout_char d \<or> d = ch CHR ''%'' then
             (if new_line_char d then andThen (skip_char d) (\<lambda>_. ret End) s1 else (Inr End, s1))
           else andThen (return_char (ch CHR ''.'')) (\<lambda>_. name_token E c) s1
       | (Inl e, s1) \<Rightarrow>
           if is_unexpected_eof e then (Inr End, s1)
           else andThen (return_char (ch CHR ''.'')) (\<lambda>_. name_token E c) s1)"

definition token_at :: "lex_env \<Rightarrow> bool \<Rightarrow> uchar \<Rightarrow> Token lex" where
  "token_at E layout_inserted c =
     (if capital_letter_char E c \<or> variable_indicator_char c then variable_token E
      else if c = ch CHR '','' then andThen (skip_char c) (\<lambda>_. ret Comma)
      else if c = ch CHR '')'' then andThen (skip_char c) (\<lambda>_. ret Close)
      else if c = ch CHR ''('' then
        andThen (skip_char c) (\<lambda>_. ret (if layout_inserted then Open else OpenCT))
      else if c = ch CHR ''.'' then dot_token E c
      else if decimal_digit_char c then
        andThen (number_token E c) (\<lambda>nt.
          case to_token nt of Some token \<Rightarrow> ret token | None \<Rightarrow> raise unexpected_eof)
      else if c = ch CHR '']'' then andThen (skip_char c) (\<lambda>_. ret CloseList)
      else if c = ch CHR ''['' then andThen (skip_char c) (\<lambda>_. ret OpenList)
      else if c = ch CHR ''|'' then andThen (skip_char c) (\<lambda>_. ret HeadTailSeparator)
      else if c = ch CHR ''{'' then andThen (skip_char c) (\<lambda>_. ret OpenCurly)
      else if c = ch CHR ''}'' then andThen (skip_char c) (\<lambda>_. ret CloseCurly)
      else if c = 34 then
        andThen (char_code_list_token E c) (\<lambda>str s.
          (Inr (if double_quotes s = DQAtom then TLiteral (Atom str) else TString str), s))
      else if c = 0 then raise unexpected_eof
      else name_token E c)"

definition next_token :: "lex_env \<Rightarrow> Token lex" where
  "next_token E =
     andThen (scan_for_layout E) (\<lambda>layout_inserted.
     andThen lookahead_char (\<lambda>c. token_at E layout_inserted c))"

end
