(* ===== verification/LexerProgress.thy ===== *)
theory LexerProgress
  imports Lexer
begin

text \<open>
  Every token the lexer returns consumes input, so the loop of \<open>read_tokens\<close> ends. The
  difficulty is in the paths that give characters back: a lone quote, a backslash before an
  ordinary character, a full stop or an exponent letter that turns out not to belong to the
  number. The bounds below also hold on the error paths after which lexing goes on.
\<close>

section \<open>Bounds on every outcome\<close>

definition bounded :: "'a lex \<Rightarrow> bool" where
  "bounded m \<longleftrightarrow> (\<forall>s r t. m s = (r, t) \<longrightarrow> length (chars t) \<le> length (chars s))"

lemma boundedD: "bounded m \<Longrightarrow> m s = (r, t) \<Longrightarrow> length (chars t) \<le> length (chars s)"
  by (auto simp: bounded_def)

lemma bounded_keeps: "bounded m \<Longrightarrow> keeps m"
  by (auto simp: bounded_def keeps_def)

named_theorems bounds \<open>operations that never lengthen the input\<close>

lemma bounded_basic [bounds]:
  "bounded (ret a)" "bounded (raise e)" "bounded (raise_at f)" "bounded lookahead_char"
  "bounded (skip_char c)" "bounded read_char"
proof -
  show "bounded lookahead_char"
    unfolding bounded_def
  proof (intro allI impI)
    fix s r t assume "lookahead_char s = (r, t)"
    then show "length (chars t) \<le> length (chars s)" by (cases "chars s") (auto simp: run_simps)
  qed
  show "bounded read_char"
    unfolding bounded_def
  proof (intro allI impI)
    fix s r t assume "read_char s = (r, t)"
    then show "length (chars t) \<le> length (chars s)"
      by (cases "chars s")
         (auto simp: run_simps read_char_def peek_char_def split: reader_end.splits)
  qed
qed (auto simp: bounded_def run_simps consume_bytes_length)

lemma bounded_andThen [bounds]:
  assumes "bounded m" and "\<And>a. bounded (f a)"
  shows "bounded (andThen m f)"
  unfolding bounded_def
proof (intro allI impI)
  fix s r t assume run: "andThen m f s = (r, t)"
  obtain x s' where m: "m s = (x, s')" by fastforce
  have le: "length (chars s') \<le> length (chars s)" by (rule boundedD [OF assms(1) m])
  show "length (chars t) \<le> length (chars s)"
  proof (cases x)
    case (Inl e)
    with run m le show ?thesis by (simp add: andThen_def)
  next
    case (Inr a)
    with run m have "f a s' = (r, t)" by (simp add: andThen_def)
    from boundedD [OF assms(2) this] le show ?thesis by linarith
  qed
qed

lemma bounded_if [bounds]:
  "(b \<Longrightarrow> bounded m) \<Longrightarrow> (\<not> b \<Longrightarrow> bounded m') \<Longrightarrow> bounded (if b then m else m')"
  by simp

lemma bounded_option_case [bounds]:
  "bounded m \<Longrightarrow> (\<And>a. bounded (f a)) \<Longrightarrow> bounded (case x of None \<Rightarrow> m | Some a \<Rightarrow> f a)"
  by (cases x) auto

lemma bounded_prod_case [bounds]:
  "(\<And>a b. bounded (f a b)) \<Longrightarrow> bounded (case x of (a, b) \<Rightarrow> f a b)"
  by (cases x) auto

lemma bounded_escape_digits [bounds]: "bounded (escape_digits p c tok)"
  unfolding bounded_def
proof (intro allI impI)
  fix s r t assume "escape_digits p c tok s = (r, t)"
  then show "length (chars t) \<le> length (chars s)"
  proof (induction p c tok s rule: escape_digits.induct)
    case (1 p c tok s)
    have adv: "length (chars (advance c s)) \<le> length (chars s)"
      by (simp add: consume_bytes_length)
    show ?case
    proof (cases "chars (advance c s)")
      case Nil
      with "1.prems" adv show ?thesis
        by (auto simp: escape_digits.simps [of p c tok s] run_simps Let_def)
    next
      case (Cons c' cs)
      then have la: "lookahead_char (advance c s) = (Inr c', advance c s)" by (simp add: run_simps)
      show ?thesis
      proof (cases "p c'")
        case True
        with "1.prems" la have "escape_digits p c' (tok @ [c]) (advance c s) = (r, t)"
          by (auto simp: escape_digits.simps [of p c tok s] Let_def)
        with "1.IH" [OF refl refl la [symmetric] refl] True adv show ?thesis
          by (auto intro: le_trans)
      next
        case False
        with "1.prems" la adv show ?thesis
          by (auto simp: escape_digits.simps [of p c tok s] Let_def)
      qed
    qed
  qed
qed

lemma bounded_escapes [bounds]:
  "bounded (escape_sequence_to_char p r)" "bounded get_octal_escape_sequence"
  "bounded (get_hexadecimal_escape_sequence c)" "bounded get_control_escape_sequence"
  unfolding escape_sequence_to_char_def get_octal_escape_sequence_def Let_def
    get_hexadecimal_escape_sequence_def get_control_escape_sequence_def
  by (intro bounds)+

lemma bounded_get_non_quote_char [bounds]: "bounded (get_non_quote_char E)"
  unfolding get_non_quote_char_def by (intro bounds)

text \<open>
  Look at a character, skip it, look at the next and possibly put the first one back: the
  shape of the quoted characters and of the items that start with a backslash.
\<close>

lemma bounded_peek_two [bounds]:
  assumes "\<And>d. bounded (f d)" and "\<And>c. bounded (h c)" and "\<And>c. bounded (g c)"
  shows "bounded (andThen lookahead_char (\<lambda>c.
       if P c then
         andThen (skip_char c) (\<lambda>_.
         andThen lookahead_char (\<lambda>d.
           if Q d then f d else andThen (return_char c) (\<lambda>_. h c)))
       else g c))"
  unfolding bounded_def
proof (intro allI impI)
  fix s r t
  assume run: "andThen lookahead_char (\<lambda>c.
       if P c then
         andThen (skip_char c) (\<lambda>_.
         andThen lookahead_char (\<lambda>d.
           if Q d then f d else andThen (return_char c) (\<lambda>_. h c)))
       else g c) s = (r, t)"
  consider "chars s = []" | c where "chars s = [c]" | c d cs where "chars s = c # d # cs"
    by (metis list.exhaust)
  then show "length (chars t) \<le> length (chars s)"
  proof cases
    case 1
    with run show ?thesis by (auto simp: run_simps)
  next
    case (2 c)
    show ?thesis
    proof (cases "P c")
      case True
      with run 2 show ?thesis by (auto simp: run_simps)
    next
      case False
      with run 2 have "g c s = (r, t)" by (simp add: run_simps)
      then show ?thesis by (rule boundedD [OF assms(3)])
    qed
  next
    case (3 c d cs)
    consider "P c" "Q d" | "P c" "\<not> Q d" | "\<not> P c" by blast
    then show ?thesis
    proof cases
      case 1
      with run 3 have "f d (advance c s) = (r, t)" by (simp add: run_simps)
      from boundedD [OF assms(1) this] show ?thesis by (simp add: 3)
    next
      case 2
      with run 3 have "h c (put_back_char c (advance c s)) = (r, t)" by (simp add: run_simps)
      from boundedD [OF assms(2) this] show ?thesis by (simp add: 3)
    next
      case nP: 3
      with run 3 have "g c s = (r, t)" by (simp add: run_simps)
      then show ?thesis by (rule boundedD [OF assms(3)])
    qed
  qed
qed

lemma if_swap: "(if \<not> b then x else y) = (if b then y else x)"
  by simp

lemma bounded_quoted_char [bounds]:
  "bounded (get_single_quoted_char E)" "bounded (get_double_quoted_char E)"
  "bounded (get_back_quoted_char E)"
  unfolding get_single_quoted_char_def get_double_quoted_char_def get_back_quoted_char_def if_swap
  by (intro bounds)+

lemma bounded_quoted_item: "bounded (quoted_item E q)"
proof (cases q)
  case SingleQ
  show ?thesis unfolding SingleQ quoted_item.simps get_single_quoted_item_def by (intro bounds)
next
  case DoubleQ
  show ?thesis unfolding DoubleQ quoted_item.simps get_double_quoted_item_def by (intro bounds)
next
  case BackQ
  show ?thesis unfolding BackQ quoted_item.simps get_back_quoted_item_def by (intro bounds)
qed

lemma keeps_consume_chars_with [lex_progress]: "keeps (consume_chars_with E q token)"
  unfolding keeps_def
proof (intro allI impI)
  fix s a t assume "consume_chars_with E q token s = (Inr a, t)"
  then show "length (chars t) \<le> length (chars s)"
  proof (induction E q token s rule: consume_chars_with.induct)
    case (1 E q token s)
    obtain r s1 where i: "quoted_item E q s = (r, s1)" by fastforce
    have le: "length (chars s1) \<le> length (chars s)" by (rule boundedD [OF bounded_quoted_item i])
    show ?case
    proof (cases r)
      case (Inl e)
      with "1.prems" i le show ?thesis
        by (auto simp: consume_chars_with.simps [of E q token s] split: ParserError.splits)
    next
      case (Inr x)
      show ?thesis
      proof (cases x)
        case None
        with "1.prems" i Inr have "consume_chars_with E q token s1 = (Inr a, t)"
          by (simp add: consume_chars_with.simps [of E q token s])
        with "1.IH" i Inr None le show ?thesis by (fastforce intro: le_trans)
      next
        case (Some c)
        with "1.prems" i Inr have "consume_chars_with E q (token @ [c]) s1 = (Inr a, t)"
          by (simp add: consume_chars_with.simps [of E q token s])
        with "1.IH" i Inr Some le show ?thesis by (fastforce intro: le_trans)
      qed
    qed
  qed
qed

lemma keeps_token_loop [lex_progress]: "keeps (token_loop P token)"
  unfolding keeps_def
proof (intro allI impI)
  fix s a t assume "token_loop P token s = (Inr a, t)"
  then show "length (chars t) \<le> length (chars s)"
  proof (induction P token s rule: token_loop.induct)
    case (1 P token s)
    then obtain c cs where c: "chars s = c # cs"
      by (cases "chars s") (auto simp: token_loop.simps [of P token s] run_simps)
    with "1.prems" "1.IH" [of _ s c] show ?case
      by (cases "P c") (auto simp: token_loop.simps [of P token s] run_simps)
  qed
qed

lemma eats_read [lex_progress]: "(\<And>c. keeps (f c)) \<Longrightarrow> eats (andThen read_char f)"
  by (fastforce simp: eats_def keeps_def andThen_Inr_iff read_char_Inr_iff)

lemma eats_variable_token: "eats (variable_token E)"
  unfolding variable_token_def by (intro lex_progress)

lemma keeps_list_case [lex_progress]:
  "keeps m \<Longrightarrow> (\<And>a b. keeps (f a b)) \<Longrightarrow> keeps (case x of [] \<Rightarrow> m | a # b \<Rightarrow> f a b)"
  by (cases x) auto

lemma eats_ne_never: "(\<And>s a t. m s \<noteq> (Inr a, t)) \<Longrightarrow> eats_ne m"
  by (auto simp: eats_ne_def)

lemma eats_ne_name_token: "eats_ne (name_token E c)"
  unfolding name_token_def Let_def
  by (intro lex_progress eats_ne_never) (auto simp: andThen_Inr_iff raise_at_run)

section \<open>Numbers\<close>

text \<open>
  From here on the bound is relative: a computation that runs after \<open>k\<close> characters were read
  may give back at most \<open>k - 1\<close> of them.
\<close>

definition owes :: "nat \<Rightarrow> 'a lex \<Rightarrow> bool" where
  "owes k m \<longleftrightarrow> (\<forall>s r t. m s = (Inr r, t) \<longrightarrow> length (chars t) < length (chars s) + k)"

lemma owesD: "owes k m \<Longrightarrow> m s = (Inr r, t) \<Longrightarrow> length (chars t) < length (chars s) + k"
  by (auto simp: owes_def)

lemma owes_mono: "owes k m \<Longrightarrow> k \<le> n \<Longrightarrow> owes n m"
  by (fastforce simp: owes_def)

lemma keeps_owes: "keeps m \<Longrightarrow> owes (Suc 0) m"
  by (auto simp: owes_def keeps_def less_Suc_eq_le)

lemma keeps_parse [lex_progress]:
  "keeps (parse_float_lossy E token)" "keeps (parse_integer_by_radix E token radix)"
  "keeps (parse_integer E token)" "keeps (float_token E token)"
  unfolding parse_float_lossy_def parse_integer_by_radix_def parse_integer_def float_token_def
  by (intro lex_progress)+

lemma owes_return: "keeps m \<Longrightarrow> owes 2 (andThen (return_char c) (\<lambda>_. m))"
  by (fastforce simp: owes_def keeps_def andThen_Inr_iff run_simps)

lemma owes_return_more: "owes k m \<Longrightarrow> owes (Suc k) (andThen (return_char c) (\<lambda>_. m))"
  by (fastforce simp: owes_def andThen_Inr_iff run_simps)

lemma owes_vacate: "owes 2 (vacate_with_float E token)"
  unfolding vacate_with_float_def by (intro owes_return lex_progress)

lemma owes_if: "owes k m \<Longrightarrow> owes k m' \<Longrightarrow> owes k (if b then m else m')"
  by simp

lemma owes_keeps_andThen: "keeps m \<Longrightarrow> (\<And>a. owes k (f a)) \<Longrightarrow> owes k (andThen m f)"
  unfolding owes_def keeps_def by (fastforce simp: andThen_Inr_iff)

lemma owes_lookahead_or: "owes k h \<Longrightarrow> (\<And>c. owes k (f c)) \<Longrightarrow> owes k (lookahead_or h f)"
  unfolding owes_def lookahead_or_def
  by (auto simp: lookahead_char_def split: option.splits sum.splits)

lemma try_nt_Inr_iff:
  "try_nt token m k s = (Inr r, t) \<longleftrightarrow>
     (\<exists>a s1. m s = (Inr a, s1) \<and> k a s1 = (Inr r, t)) \<or>
     m s = (Inl unexpected_eof, t) \<and> r = NTPartial token"
  by (auto simp: try_nt_def split: prod.splits sum.splits)

lemma owes_fraction_loop:
  assumes "\<And>c token. owes k (f c token)" and "0 < k"
  shows "owes k (fraction_loop f c token)"
  unfolding owes_def
proof (intro allI impI)
  fix s r t assume "fraction_loop f c token s = (Inr r, t)"
  then show "length (chars t) < length (chars s) + k"
    using assms(1)
  proof (induction f c token s rule: fraction_loop.induct)
    case (1 f c token s)
    have adv: "length (chars (advance c s)) \<le> length (chars s)"
      by (simp add: consume_bytes_length)
    show ?case
    proof (cases "decimal_digit_char c")
      case False
      with "1.prems" owesD show ?thesis
        by (fastforce simp: fraction_loop.simps [of f c token s])
    next
      case True
      with "1.prems"(1) have
        "try_nt (token @ [c]) lookahead_char
           (\<lambda>c' s1. fraction_loop f c' (token @ [c]) s1) (advance c s) = (Inr r, t)"
        by (simp add: fraction_loop.simps [of f c token s])
      then consider c' where "lookahead_char (advance c s) = (Inr c', advance c s)"
          "fraction_loop f c' (token @ [c]) (advance c s) = (Inr r, t)"
        | "t = advance c s"
        by (auto simp: try_nt_Inr_iff lookahead_char_Inr_iff lookahead_char_Inl_iff)
      then show ?thesis
      proof cases
        case (1 c')
        from "1.IH" [OF True 1 "1.prems"(2)] adv show ?thesis by linarith
      next
        case 2
        with adv assms(2) show ?thesis by simp
      qed
    qed
  qed
qed

lemma owes_exponent_digits: "owes 2 (exponent_digits E token)"
  unfolding exponent_digits_def
  by (intro owes_keeps_andThen owes_if owes_vacate owes_fraction_loop lex_progress)
     (auto intro: owes_mono [OF keeps_owes] lex_progress)

lemma owes_number_exponent: "owes 3 (number_exponent E c token)"
  unfolding number_exponent_def Let_def
  by (intro owes_keeps_andThen owes_if owes_lookahead_or lex_progress
        owes_mono [OF owes_exponent_digits] owes_mono [OF owes_vacate]
        owes_mono [OF owes_return_more [OF owes_vacate]]) simp_all

lemma keeps_integer_token [lex_progress]: "keeps (integer_token E token)"
  by (intro lex_progress)

lemma number_fraction_bound:
  assumes c: "chars s = c # cs" and run: "number_fraction E c token s = (Inr r, t)"
  shows "length (chars t) \<le> length (chars s)"
proof -
  let ?int_token = "andThen (return_char (ch CHR ''.'')) (\<lambda>_. integer_token E token)"
  let ?s1 = "advance c s"
  let ?k = "\<lambda>c token. if exponent_char c then number_exponent E c token else float_token E token"
  have s1: "chars ?s1 = cs" by (simp add: c)
  have give: "?int_token ?s1 = (Inr r, t) \<Longrightarrow> length (chars t) \<le> length (chars s)"
    using owesD [OF owes_return [OF keeps_integer_token]] by (fastforce simp: c)
  show ?thesis
  proof (cases cs)
    case Nil
    show ?thesis
    proof (cases "peek_char ?s1 = None")
      case True
      with run have "?int_token ?s1 = (Inr r, t)" by (simp add: number_fraction_def run_simps Let_def)
      then show ?thesis by (rule give)
    next
      case False
      with run Nil s1 show ?thesis by (simp add: number_fraction_def run_simps Let_def)
    qed
  next
    case (Cons d ds)
    then have pk: "peek_char ?s1 \<noteq> None" by (simp add: c peek_char_def)
    show ?thesis
    proof (cases "decimal_digit_char d")
      case False
      with run Cons s1 pk have "?int_token ?s1 = (Inr r, t)"
        by (simp add: number_fraction_def run_simps Let_def)
      then show ?thesis by (rule give)
    next
      case True
      let ?tok = "token @ [ch CHR ''.'', d]"
      let ?s2 = "?s1\<lparr>chars := ds\<rparr>"
      from True run Cons s1 pk have
        "try_nt ?tok lookahead_char (\<lambda>c. fraction_loop ?k c ?tok) ?s2 = (Inr r, t)"
        by (simp add: number_fraction_def run_simps Let_def)
      then consider e where "fraction_loop ?k e ?tok ?s2 = (Inr r, t)" | "t = ?s2"
        by (auto simp: try_nt_Inr_iff lookahead_char_Inr_iff lookahead_char_Inl_iff)
      then show ?thesis
      proof cases
        case (1 e)
        have "owes 3 (fraction_loop ?k e ?tok)"
          by (intro owes_fraction_loop owes_if owes_number_exponent owes_mono [OF keeps_owes]
                lex_progress) simp_all
        from owesD [OF this 1] show ?thesis by (simp add: c Cons)
      next
        case 2
        then show ?thesis by (simp add: c Cons)
      qed
    qed
  qed
qed

lemma bounded_radix_loop: "bounded (radix_loop P c token)"
  unfolding bounded_def
proof (intro allI impI)
  fix s r t assume "radix_loop P c token s = (r, t)"
  then show "length (chars t) \<le> length (chars s)"
  proof (induction P c token s rule: radix_loop.induct)
    case (1 P c token s)
    have adv: "length (chars (advance c s)) \<le> length (chars s)"
      by (simp add: consume_bytes_length)
    show ?case
    proof (cases "P c")
      case False
      with "1.prems" show ?thesis by (simp add: radix_loop.simps [of P c token s])
    next
      case True
      show ?thesis
      proof (cases "chars (advance c s)")
        case Nil
        with True "1.prems" adv show ?thesis
          by (auto simp: radix_loop.simps [of P c token s] run_simps Let_def)
      next
        case (Cons d ds)
        then have la: "lookahead_char (advance c s) = (Inr d, advance c s)" by (simp add: run_simps)
        with True "1.prems" have "radix_loop P d (token @ [c]) (advance c s) = (r, t)"
          by (simp add: radix_loop.simps [of P c token s] Let_def)
        with "1.IH" [OF True refl refl la [symmetric] refl] adv show ?thesis by linarith
      qed
    qed
  qed
qed

lemma bounded_parse_radix [bounds]: "bounded (parse_integer_by_radix E token radix)"
  unfolding parse_integer_by_radix_def by (intro bounds)

lemma radix_constant_bound:
  assumes c: "chars s = c # cs" and run: "radix_constant E P radix c s = (r, t)"
  shows "length (chars t) \<le> length (chars s)"
proof (cases cs)
  case Nil
  with c run show ?thesis by (auto simp: radix_constant_def run_simps)
next
  case (Cons d ds)
  show ?thesis
  proof (cases "P d")
    case False
    with Cons c run show ?thesis by (auto simp: radix_constant_def run_simps)
  next
    case True
    have b: "bounded (andThen (radix_loop P d []) (\<lambda>token.
         andThen (parse_integer_by_radix E token radix) (\<lambda>g. ret (NTInteger g))))"
      by (intro bounds bounded_radix_loop)
    from True Cons c run have "andThen (radix_loop P d []) (\<lambda>token.
         andThen (parse_integer_by_radix E token radix) (\<lambda>g. ret (NTInteger g))) (advance c s) = (r, t)"
      by (simp add: radix_constant_def skip_char_run andThen_run [of "skip_char _"]
          andThen_run [of lookahead_char] lookahead_char_Cons)
    from boundedD [OF b this] show ?thesis by (simp add: c)
  qed
qed

lemma or_integer_bound:
  assumes "\<And>r t. m s = (r, t) \<Longrightarrow> length (chars t) \<le> length (chars s)"
    and "or_integer E token m s = (Inr r, t)"
  shows "length (chars t) \<le> length (chars s)"
proof -
  obtain x s1 where m: "m s = (x, s1)" by fastforce
  have le: "length (chars s1) \<le> length (chars s)" by (rule assms(1) [OF m])
  show ?thesis
  proof (cases x)
    case (Inr a)
    with m assms(2) le show ?thesis by (simp add: or_integer_def orElse_def)
  next
    case (Inl e)
    with m assms(2) have "integer_token E token s1 = (Inr r, t)"
      by (auto simp: or_integer_def orElse_def raise_def split: ParserError.splits)
    from keepsD [OF keeps_integer_token this] le show ?thesis by linarith
  qed
qed

lemma quoted_code_bound:
  assumes "quoted_code E token c s = (Inr r, t)"
  shows "length (chars t) \<le> Suc (length (chars s))"
proof -
  obtain x s1 where q: "get_single_quoted_char E s = (x, s1)" by fastforce
  have le: "length (chars s1) \<le> length (chars s)" by (rule boundedD [OF bounded_quoted_char(1) q])
  show ?thesis
  proof (cases x)
    case (Inr a)
    with q assms le show ?thesis by (auto simp: quoted_code_def run_simps)
  next
    case (Inl e)
    with q assms have
      "andThen (return_char c) (\<lambda>_. integer_token E token) s1 = (Inr r, t)"
      by (auto simp: quoted_code_def orElse_def andThen_run [of "get_single_quoted_char E"] raise_def
          split: ParserError.splits if_splits)
    from owesD [OF owes_return [OF keeps_integer_token] this] le show ?thesis by linarith
  qed
qed

lemma number_quoted_bound:
  assumes c: "chars s = c # cs" and run: "number_quoted E c token s = (Inr r, t)"
  shows "length (chars t) \<le> length (chars s)"
proof -
  consider "cs = []" | d where "cs = [d]" | d e es where "cs = d # e # es" by (metis list.exhaust)
  then show ?thesis
  proof cases
    case 1
    with c run show ?thesis by (simp add: number_quoted_def run_simps)
  next
    case (2 d)
    with c run have "\<not> backslash_char d" "quoted_code E token d (advance c s) = (Inr r, t)"
      by (auto simp: number_quoted_def run_simps split: if_splits)
    from quoted_code_bound [OF this(2)] show ?thesis by (simp add: c)
  next
    case (3 d e es)
    show ?thesis
    proof (cases "backslash_char d")
      case False
      with c 3 run have "quoted_code E token d (advance c s) = (Inr r, t)"
        by (simp add: number_quoted_def run_simps)
      from quoted_code_bound [OF this] show ?thesis by (simp add: c)
    next
      case True
      show ?thesis
      proof (cases "new_line_char e")
        case nl: True
        with True c 3 run show ?thesis by (auto simp: number_quoted_def run_simps)
      next
        case False
        with True c 3 run
        have "quoted_code E token d (put_back_char 92 (advance d (advance c s))) = (Inr r, t)"
          by (simp add: number_quoted_def run_simps)
        from quoted_code_bound [OF this] show ?thesis by (simp add: c 3)
      qed
    qed
  qed
qed

lemma number_finish_bound:
  assumes c: "chars s = c # cs" and run: "number_finish E c token s = (Inr r, t)"
  shows "length (chars t) \<le> length (chars s)"
proof -
  have radix: "or_integer E token (radix_constant E P k c) s = (Inr r, t) \<Longrightarrow> ?thesis" for P k
    using or_integer_bound [of "radix_constant E P k c" s] radix_constant_bound [OF c] by blast
  have int: "integer_token E token s = (Inr r, t) \<Longrightarrow> ?thesis"
    by (rule keepsD [OF keeps_integer_token])
  show ?thesis
    using run number_fraction_bound [OF c, of E token] number_quoted_bound [OF c, of E token] radix int
    unfolding number_finish_def hexadecimal_constant_def octal_constant_def binary_constant_def
    by (auto split: if_splits)
qed

lemma skip_underscore_head:
  assumes "skip_underscore_in_number E s = (Inr c, t)"
  shows "\<exists>cs. chars t = c # cs"
proof -
  from assms have "chars t \<noteq> [] \<and> c = hd (chars t)"
    by (auto simp: skip_underscore_in_number_def andThen_Inr_iff lookahead_char_Inr_iff
        ret_run raise_at_run split: if_splits)
  then show ?thesis by (cases "chars t") auto
qed

lemma bounded_comments [bounds]: "bounded single_line_comment" "bounded (comment_loop c)"
  by (auto simp: bounded_def intro: single_line_comment_progress comment_loop_progress)

lemma bounded_orElse [bounds]:
  assumes "bounded m" and "\<And>e. bounded (h e)"
  shows "bounded (orElse m h)"
  unfolding bounded_def
proof (intro allI impI)
  fix s r t assume run: "orElse m h s = (r, t)"
  obtain x s' where m: "m s = (x, s')" by fastforce
  have le: "length (chars s') \<le> length (chars s)" by (rule boundedD [OF assms(1) m])
  show "length (chars t) \<le> length (chars s)"
  proof (cases x)
    case (Inr a)
    with run m le show ?thesis by (simp add: orElse_def)
  next
    case (Inl e)
    with run m have "h e s' = (r, t)" by (simp add: orElse_def)
    from boundedD [OF assms(2) this] le show ?thesis by linarith
  qed
qed

lemma bounded_bracketed_comment [bounds]: "bounded (bracketed_comment E)"
proof -
  let ?slash = "ch CHR ''/''"
  let ?body = "\<lambda>c. andThen (skip_char c) (\<lambda>_.
         andThen lookahead_char (\<lambda>c.
         andThen
           (orElse (comment_loop c)
              (\<lambda>e. if is_unexpected_eof e then raise_at IncompleteReduction else raise e)) (\<lambda>c.
           if prolog_char E c then andThen (skip_char c) (\<lambda>_. ret True)
           else raise_at NonPrologChar)))"
  have body: "bounded (?body c)" for c by (intro bounds)
  show ?thesis
    unfolding bounded_def
  proof (intro allI impI)
    fix s r t assume run: "bracketed_comment E s = (r, t)"
    show "length (chars t) \<le> length (chars s)"
    proof (cases "chars (advance ?slash s)")
      case Nil
      with run show ?thesis by (auto simp: bracketed_comment_def run_simps)
    next
      case (Cons c cs)
      have less: "length (chars (advance ?slash s)) < length (chars s)"
        using Cons by (intro chars_advance_measure) (simp del: chars_advance)
      show ?thesis
      proof (cases "comment_2_char c")
        case True
        with run Cons have "?body c (advance ?slash s) = (r, t)"
          by (simp only: bracketed_comment_def andThen_skip andThen_lookahead [OF Cons] if_True)
        from boundedD [OF body this] less show ?thesis by linarith
      next
        case False
        with run Cons less show ?thesis
          by (auto simp: bracketed_comment_def run_simps simp del: chars_advance)
      qed
    qed
  qed
qed

lemma bounded_consume_layout [bounds]: "bounded (consume_layout E cr info)"
  unfolding consume_layout_def by (intro bounds)

lemma bounded_scan_loop [bounds]: "bounded (scan_loop E info)"
  unfolding bounded_def
proof (intro allI impI)
  fix s r t assume "scan_loop E info s = (r, t)"
  then show "length (chars t) \<le> length (chars s)"
  proof (induction E info s rule: scan_loop.induct)
    case (1 E info s)
    obtain x s1 where c: "consume_layout E (lookahead_ok s) info s = (x, s1)" by fastforce
    have le: "length (chars s1) \<le> length (chars s)"
      by (rule boundedD [OF bounded_consume_layout c])
    show ?case
    proof (cases x)
      case (Inl e)
      with "1.prems" c le show ?thesis by (simp add: scan_loop.simps [of E info s])
    next
      case (Inr info')
      with "1.prems" c le "1.IH" [OF c [symmetric] Inr] show ?thesis
        by (cases "more_layout info'") (auto simp: scan_loop.simps [of E info s] intro: le_trans)
    qed
  qed
qed

lemma bounded_skip_underscore: "bounded (skip_underscore_in_number E)"
  unfolding skip_underscore_in_number_def scan_for_layout_def by (intro bounds)

lemma digits_loop_bound:
  assumes "digits_loop E k c token s = (Inr r, t)" and "chars s = c # cs"
    and "k = number_finish E"
  shows "length (chars t) \<le> length (chars s)"
  using assms
proof (induction E k c token s arbitrary: cs rule: digits_loop.induct)
  case (1 E k c token s)
  show ?case
  proof (cases "decimal_digit_char c")
    case False
    with "1.prems"(1) have "k c token s = (Inr r, t)"
      by (simp add: digits_loop.simps [of E k c token s])
    with "1.prems"(3) have "number_finish E c token s = (Inr r, t)" by simp
    with "1.prems"(2) show ?thesis by (rule number_finish_bound)
  next
    case True
    with "1.prems"(1) have "try_nt (token @ [c]) (skip_underscore_in_number E)
          (\<lambda>c' s1. digits_loop E k c' (token @ [c]) s1) (advance c s) = (Inr r, t)"
      by (simp add: digits_loop.simps [of E k c token s])
    then consider c' s1 where "skip_underscore_in_number E (advance c s) = (Inr c', s1)"
        "digits_loop E k c' (token @ [c]) s1 = (Inr r, t)"
      | "skip_underscore_in_number E (advance c s) = (Inl unexpected_eof, t)"
      by (auto simp: try_nt_Inr_iff)
    then show ?thesis
    proof cases
      case (1 c' s1)
      obtain cs' where "chars s1 = c' # cs'" using skip_underscore_head [OF 1(1)] by blast
      from "1.IH" [OF True 1 this "1.prems"(3)] boundedD [OF bounded_skip_underscore 1(1)]
      show ?thesis by (simp add: "1.prems"(2))
    next
      case 2
      from boundedD [OF bounded_skip_underscore this] show ?thesis by (simp add: "1.prems"(2))
    qed
  qed
qed

lemma number_token_less:
  assumes c: "chars s = c # cs" and run: "number_token E c s = (Inr r, t)"
  shows "length (chars t) < length (chars s)"
proof -
  from run have "try_nt [c] (skip_underscore_in_number E)
         (\<lambda>d. digits_loop E (number_finish E) d [c]) (advance c s) = (Inr r, t)"
    by (simp add: number_token_def andThen_def skip_char_run)
  then consider d s1 where "skip_underscore_in_number E (advance c s) = (Inr d, s1)"
        "digits_loop E (number_finish E) d [c] s1 = (Inr r, t)"
      | "skip_underscore_in_number E (advance c s) = (Inl unexpected_eof, t)"
    by (auto simp: try_nt_Inr_iff)
  then show ?thesis
  proof cases
    case (1 d s1)
    obtain cs' where "chars s1 = d # cs'" using skip_underscore_head [OF 1(1)] by blast
    from digits_loop_bound [OF 1(2) this refl] boundedD [OF bounded_skip_underscore 1(1)] c
    show ?thesis by simp
  next
    case 2
    from boundedD [OF bounded_skip_underscore this] c show ?thesis by simp
  qed
qed

section \<open>Tokens\<close>

lemma dot_token_less:
  assumes c: "chars s = c # cs" and dot: "c = ch CHR ''.''" and run: "dot_token E c s = (Inr r, t)"
  shows "length (chars t) < length (chars s)"
proof (cases cs)
  case Nil
  with c run show ?thesis by (auto simp: dot_token_def run_simps)
next
  case (Cons d ds)
  show ?thesis
  proof (cases "layout_char d \<or> d = ch CHR ''%''")
    case True
    with Cons c run show ?thesis by (auto simp: dot_token_def run_simps split: if_splits)
  next
    case False
    with Cons c dot run have "name_token E c (put_back_char c (advance c s)) = (Inr r, t)"
      by (simp add: dot_token_def run_simps)
    moreover have "chars (put_back_char c (advance c s)) = chars s" by (simp add: c)
    ultimately show ?thesis using eats_ne_name_token [of E c] unfolding eats_ne_def by (metis c list.distinct(1))
  qed
qed

lemma char_code_list_token_less:
  assumes "chars s \<noteq> []" and "char_code_list_token E c s = (Inr r, t)"
  shows "length (chars t) < length (chars s)"
proof -
  have "eats_ne (char_code_list_token E c)"
    unfolding char_code_list_token_def by (intro lex_progress)
  with assms show ?thesis by (auto simp: eats_ne_def)
qed

lemma token_at_less:
  assumes c: "chars s = c # cs" and run: "token_at E l c s = (Inr r, t)"
  shows "length (chars t) < length (chars s)"
proof -
  have skip: "andThen (skip_char c) (\<lambda>_. ret x) s = (Inr r, t) \<Longrightarrow> ?thesis" for x :: Token
    using c by (auto simp: run_simps)
  have name: "name_token E c s = (Inr r, t) \<Longrightarrow> ?thesis"
    using eats_ne_name_token [of E c] unfolding eats_ne_def by (metis c list.distinct(1))
  have var: "variable_token E s = (Inr r, t) \<Longrightarrow> ?thesis"
    by (rule eatsD [OF eats_variable_token])
  have number: "andThen (number_token E c) (\<lambda>nt.
          case to_token nt of Some token \<Rightarrow> ret token | None \<Rightarrow> raise unexpected_eof) s = (Inr r, t)
      \<Longrightarrow> ?thesis"
    using number_token_less [OF c]
    by (fastforce simp: andThen_Inr_iff ret_run raise_run split: option.splits)
  have string: "andThen (char_code_list_token E c) (\<lambda>str s.
          (Inr (if double_quotes s = DQAtom then TLiteral (Atom str) else TString str), s)) s = (Inr r, t)
      \<Longrightarrow> ?thesis"
    using char_code_list_token_less [of s] c by (fastforce simp: andThen_Inr_iff)
  show ?thesis
    using run c dot_token_less [OF c] skip name var number string
    by (auto simp: token_at_def raise_run split: if_splits)
qed

lemma next_token_less:
  assumes "next_token E s = (Inr token, t)"
  shows "length (chars t) < length (chars s)"
proof -
  from assms obtain l s1 where l: "scan_for_layout E s = (Inr l, s1)"
    and ne: "chars s1 \<noteq> []" and run: "token_at E l (hd (chars s1)) s1 = (Inr token, t)"
    by (auto simp: next_token_def andThen_Inr_iff lookahead_char_Inr_iff)
  from ne obtain c cs where "chars s1 = c # cs" by (cases "chars s1") auto
  with run token_at_less [of s1 c cs E l] keepsD [OF keeps_scan_for_layout l] show ?thesis by simp
qed

end
