(* ===== verification/LexerReads.thy ===== *)
theory LexerReads
  imports LexerProgress
begin

text \<open>
  A small calculus for what the lexer reads: \<open>reads m inp a rest\<close> says that \<open>m\<close>, run on a
  reader that holds exactly \<open>inp\<close>, succeeds with \<open>a\<close> and leaves \<open>rest\<close>; \<open>fails\<close> is its
  counterpart for an error. Positions are left open, the rest of the configuration is kept.
\<close>

definition same_config :: "lexer \<Rightarrow> lexer \<Rightarrow> bool" where
  "same_config s t \<longleftrightarrow> rd_end t = rd_end s \<and> double_quotes t = double_quotes s"

lemma same_config_refl [simp]: "same_config s s"
  by (simp add: same_config_def)

lemma same_config_trans: "same_config s t \<Longrightarrow> same_config t u \<Longrightarrow> same_config s u"
  by (simp add: same_config_def)

lemma same_config_step [simp]:
  "same_config s (advance c s)" "same_config s (put_back_char c s)" "same_config s (s\<lparr>chars := cs\<rparr>)"
  by (simp_all add: same_config_def advance_def put_back_char_def Let_def)

lemma same_config_moves [simp]:
  "same_config (advance c s) t = same_config s t"
  "same_config (put_back_char c s) t = same_config s t"
  "same_config s (advance c t) = same_config s t"
  "same_config s (put_back_char c t) = same_config s t"
  by (simp_all add: same_config_def advance_def put_back_char_def Let_def)

definition reads :: "'a lex \<Rightarrow> uchar list \<Rightarrow> 'a \<Rightarrow> uchar list \<Rightarrow> bool" where
  "reads m inp a rest \<longleftrightarrow>
     (\<forall>s. chars s = inp \<longrightarrow> (\<exists>t. m s = (Inr a, t) \<and> chars t = rest \<and> same_config s t))"

definition fails :: "'a lex \<Rightarrow> uchar list \<Rightarrow> (ParserError \<Rightarrow> bool) \<Rightarrow> uchar list \<Rightarrow> bool" where
  "fails m inp P rest \<longleftrightarrow>
     (\<forall>s. chars s = inp \<longrightarrow> (\<exists>e t. m s = (Inl e, t) \<and> P e \<and> chars t = rest \<and> same_config s t))"

named_theorems reads_intros \<open>rules of the reading calculus\<close>

lemma reads_ret [reads_intros]: "reads (ret a) inp a inp"
  by (auto simp: reads_def ret_run)

lemma reads_lookahead [reads_intros]: "reads lookahead_char (c # cs) c (c # cs)"
  by (auto simp: reads_def run_simps)

lemma reads_skip [reads_intros]: "reads (skip_char c) (c # cs) () cs"
  by (auto simp: reads_def run_simps)

lemma reads_read [reads_intros]: "reads read_char (c # cs) c cs"
  by (auto simp: reads_def run_simps)

lemma reads_return [reads_intros]: "reads (return_char c) cs () (c # cs)"
  by (auto simp: reads_def run_simps)

lemma reads_andThen:
  assumes "reads m inp a mid" and "reads (f a) mid b rest"
  shows "reads (andThen m f) inp b rest"
  using assms unfolding reads_def andThen_def
  by (fastforce intro: same_config_trans)

lemma fails_andThen_left: "fails m inp P rest \<Longrightarrow> fails (andThen m f) inp P rest"
  unfolding fails_def andThen_def by fastforce

lemma fails_andThen_right:
  assumes "reads m inp a mid" and "fails (f a) mid P rest"
  shows "fails (andThen m f) inp P rest"
  using assms unfolding fails_def reads_def andThen_def
  by (fastforce intro: same_config_trans)

lemma fails_raise: "P e \<Longrightarrow> fails (raise e) inp P inp"
  by (auto simp: fails_def raise_run)

lemma fails_raise_at: "(\<And>l c. P (f l c)) \<Longrightarrow> fails (raise_at f) inp P inp"
  by (auto simp: fails_def raise_at_run)

lemma fails_lookahead: "fails lookahead_char [] (\<lambda>e. e = unexpected_eof) []"
  by (auto simp: fails_def run_simps)

text \<open>One step of the usual shapes.\<close>

lemma reads_peek: "reads (f c) (c # cs) a rest \<Longrightarrow> reads (andThen lookahead_char f) (c # cs) a rest"
  by (rule reads_andThen [OF reads_lookahead])

lemma reads_drop: "reads (f ()) cs a rest \<Longrightarrow> reads (andThen (skip_char c) f) (c # cs) a rest"
  by (rule reads_andThen [OF reads_skip])

lemma reads_give: "reads (f ()) (c # cs) a rest \<Longrightarrow> reads (andThen (return_char c) f) cs a rest"
  by (rule reads_andThen [OF reads_return])

lemma fails_peek: "fails (f c) (c # cs) P rest \<Longrightarrow> fails (andThen lookahead_char f) (c # cs) P rest"
  by (rule fails_andThen_right [OF reads_lookahead])

lemma fails_drop: "fails (f ()) cs P rest \<Longrightarrow> fails (andThen (skip_char c) f) (c # cs) P rest"
  by (rule fails_andThen_right [OF reads_skip])

lemma fails_give: "fails (f ()) (c # cs) P rest \<Longrightarrow> fails (andThen (return_char c) f) cs P rest"
  by (rule fails_andThen_right [OF reads_return])

lemma readsD: "reads m inp a rest \<Longrightarrow> chars s = inp \<Longrightarrow>
    \<exists>t. m s = (Inr a, t) \<and> chars t = rest \<and> same_config s t"
  by (auto simp: reads_def)

section \<open>Loops\<close>

lemma reads_token_loop:
  assumes "\<forall>x\<in>set xs. P x" and "\<not> P c"
  shows "reads (token_loop P token) (xs @ c # cs) (token @ xs) (c # cs)"
  using assms
proof (induction xs arbitrary: token)
  case Nil
  then show ?case
    by (auto simp: reads_def token_loop.simps run_simps)
next
  case (Cons x xs)
  then have IH: "reads (token_loop P (token @ [x])) (xs @ c # cs) (token @ x # xs) (c # cs)"
    by (metis append.assoc append_Cons append_Nil list.set_intros(2))
  show ?case
    unfolding reads_def
  proof (intro allI impI)
    fix s :: lexer assume s: "chars s = (x # xs) @ c # cs"
    then have "token_loop P token s = token_loop P (token @ [x]) (advance x s)"
      using Cons.prems by (simp add: token_loop.simps [of P token s] run_simps)
    with readsD [OF IH, of "advance x s"] s
    show "\<exists>t. token_loop P token s = (Inr (token @ x # xs), t) \<and> chars t = c # cs \<and> same_config s t"
      by (auto intro: same_config_trans)
  qed
qed

lemma reads_escape_digits:
  assumes "\<forall>x\<in>set xs. P x" and "\<not> P c"
  shows "reads (escape_digits P x token) (x # xs @ c # cs) (c, token @ x # xs) (c # cs)"
  using assms
proof (induction xs arbitrary: x token)
  case Nil
  then show ?case
    by (fastforce simp: reads_def escape_digits.simps run_simps Let_def)
next
  case (Cons y ys)
  then have IH: "reads (escape_digits P y (token @ [x])) (y # ys @ c # cs)
      (c, token @ x # y # ys) (c # cs)"
    by (metis append.assoc append_Cons append_Nil list.set_intros(2))
  show ?case
    unfolding reads_def
  proof (intro allI impI)
    fix s :: lexer assume s: "chars s = x # (y # ys) @ c # cs"
    then have "escape_digits P x token s = escape_digits P y (token @ [x]) (advance x s)"
      using Cons.prems by (simp add: escape_digits.simps [of P x token s] run_simps Let_def)
    with readsD [OF IH, of "advance x s"] s
    show "\<exists>t. escape_digits P x token s = (Inr (c, token @ x # y # ys), t) \<and>
        chars t = c # cs \<and> same_config s t"
      by (auto intro: same_config_trans)
  qed
qed

lemma reads_consume_chars_step:
  assumes "reads (quoted_item E q) inp (Some c) mid"
    and "reads (consume_chars_with E q (token @ [c])) mid a rest"
  shows "reads (consume_chars_with E q token) inp a rest"
  unfolding reads_def
proof (intro allI impI)
  fix s :: lexer assume "chars s = inp"
  with readsD [OF assms(1)] obtain t where
    t: "quoted_item E q s = (Inr (Some c), t)" "chars t = mid" "same_config s t" by blast
  with readsD [OF assms(2) t(2)]
  show "\<exists>t. consume_chars_with E q token s = (Inr a, t) \<and> chars t = rest \<and> same_config s t"
    by (auto simp: consume_chars_with.simps [of E q token s] intro: same_config_trans)
qed

lemma reads_consume_chars_stop:
  assumes "fails (quoted_item E q) inp (\<lambda>e. \<exists>c l k. e = UnexpectedChar c l k) rest"
  shows "reads (consume_chars_with E q token) inp token rest"
  using assms unfolding reads_def fails_def
  by (fastforce simp: consume_chars_with.simps)

lemma reads_consume_chars:
  assumes "\<And>c rest. c \<in> set cs \<Longrightarrow> reads (quoted_item E q) (f c @ rest) (Some c) rest"
    and "fails (quoted_item E q) stop (\<lambda>e. \<exists>c l k. e = UnexpectedChar c l k) rest"
  shows "reads (consume_chars_with E q token) (concat (map f cs) @ stop) (token @ cs) rest"
  using assms(1)
proof (induction cs arbitrary: token)
  case Nil
  then show ?case using reads_consume_chars_stop [OF assms(2)] by simp
next
  case (Cons c cs)
  have "reads (consume_chars_with E q (token @ [c])) (concat (map f cs) @ stop)
      ((token @ [c]) @ cs) rest"
    by (rule Cons.IH) (simp add: Cons.prems)
  with Cons.prems [of c] show ?case
    by (auto intro: reads_consume_chars_step)
qed

section \<open>Layout\<close>

text \<open>
  Layout text: layout characters, line comments up to and including the line end, and bracketed
  comments whose body does not contain the closing sequence.
\<close>

fun has_close :: "uchar list \<Rightarrow> bool" where
  "has_close (a # b # cs) = (a = ch CHR ''*'' \<and> b = ch CHR ''/'' \<or> has_close (b # cs))"
| "has_close _ = False"

inductive layout_text :: "uchar list \<Rightarrow> bool" where
  layout_nil: "layout_text []"
| layout_ws: "layout_char c \<Longrightarrow> layout_text w \<Longrightarrow> layout_text (c # w)"
| layout_line: "10 \<notin> set body \<Longrightarrow> layout_text w \<Longrightarrow>
     layout_text (ch CHR ''%'' # body @ 10 # w)"
| layout_block: "\<not> has_close (body @ [ch CHR ''*'']) \<Longrightarrow> layout_text w \<Longrightarrow>
     layout_text ([ch CHR ''/'', ch CHR ''*''] @ body @ [ch CHR ''*'', ch CHR ''/''] @ w)"

text \<open>The character at which layout ends: no layout, and no start of a comment.\<close>

fun layout_stop :: "uchar list \<Rightarrow> bool" where
  "layout_stop [] = False"
| "layout_stop [c] = (\<not> layout_char c \<and> c \<noteq> ch CHR ''%'' \<and> c \<noteq> ch CHR ''/'')"
| "layout_stop (c # d # cs) =
     (\<not> layout_char c \<and> c \<noteq> ch CHR ''%'' \<and> \<not> (c = ch CHR ''/'' \<and> d = ch CHR ''*''))"

lemma reads_single_line_comment:
  assumes "10 \<notin> set body"
  shows "reads single_line_comment (body @ 10 # w) () w"
  using assms
proof (induction body)
  case Nil
  then show ?case
    by (auto simp: reads_def single_line_comment.simps run_simps peek_char_def Let_def new_line_char_def)
next
  case (Cons c body)
  show ?case
    unfolding reads_def
  proof (intro allI impI)
    fix s :: lexer assume s: "chars s = (c # body) @ 10 # w"
    then have "single_line_comment s = single_line_comment (advance c s)"
      using Cons.prems
      by (auto simp: single_line_comment.simps [of s] run_simps peek_char_def Let_def new_line_char_def)
    with readsD [OF Cons.IH, of "advance c s"] s Cons.prems
    show "\<exists>t. single_line_comment s = (Inr (), t) \<and> chars t = w \<and> same_config s t"
      by (auto intro: same_config_trans)
  qed
qed

lemma reads_comment_loop:
  assumes "\<not> has_close (c # body @ [ch CHR ''*''])"
  shows "reads (comment_loop c) (c # body @ [ch CHR ''*'', ch CHR ''/''] @ w) (ch CHR ''/'')
           (ch CHR ''/'' # w)"
  using assms
proof (induction body arbitrary: c)
  case Nil
  show ?case
    unfolding reads_def
  proof (intro allI impI)
    fix s :: lexer assume s: "chars s = c # [] @ [ch CHR ''*'', ch CHR ''/''] @ w"
    then have "comment_loop c s = (Inr (ch CHR ''/''), advance 42 (advance c s))"
      by (simp add: comment_loop.simps [of c s] comment_loop.simps [of 42] run_simps Let_def
          comment_1_char_def comment_2_char_def)
    with s show "\<exists>t. comment_loop c s = (Inr (ch CHR ''/''), t) \<and> chars t = ch CHR ''/'' # w \<and>
        same_config s t"
      by (auto intro: same_config_trans)
  qed
next
  case (Cons d body)
  show ?case
    unfolding reads_def
  proof (intro allI impI)
    fix s :: lexer assume s: "chars s = c # (d # body) @ [ch CHR ''*'', ch CHR ''/''] @ w"
    then have "comment_loop c s = comment_loop d (advance c s)"
      using Cons.prems
      by (auto simp: comment_loop.simps [of c s] run_simps Let_def comment_1_char_def comment_2_char_def)
    with readsD [OF Cons.IH, of d "advance c s"] s Cons.prems
    show "\<exists>t. comment_loop c s = (Inr (ch CHR ''/''), t) \<and> chars t = ch CHR ''/'' # w \<and>
        same_config s t"
      by (auto intro: same_config_trans)
  qed
qed

lemma reads_orElse: "reads m inp a rest \<Longrightarrow> reads (orElse m h) inp a rest"
  unfolding reads_def orElse_def by fastforce

lemma slash_prolog_char: "prolog_char E 47"
  by (simp add: prolog_char_def graphic_char_def)

lemma reads_bracketed_comment:
  assumes "\<not> has_close (body @ [ch CHR ''*''])"
  shows "reads (bracketed_comment E)
           ([ch CHR ''/'', ch CHR ''*''] @ body @ [ch CHR ''*'', ch CHR ''/''] @ w) True w"
proof -
  obtain c rest where cr: "body @ [ch CHR ''*'', ch CHR ''/''] @ w = c # rest @ w"
    and loop: "reads (comment_loop c) (c # rest @ w) (ch CHR ''/'') (ch CHR ''/'' # w)"
  proof (cases body)
    case Nil
    have "reads (comment_loop 42) (42 # 47 # w) 47 (47 # w)"
      by (auto simp: reads_def comment_loop.simps [of 42] run_simps Let_def
          comment_1_char_def comment_2_char_def)
    with that [of 42 "[47]"] Nil show ?thesis by simp
  next
    case (Cons c cs)
    with reads_comment_loop [of c cs w] assms that [of c "cs @ [42, 47]"] show ?thesis by simp
  qed
  have "reads (bracketed_comment E) (47 # 42 # c # rest @ w) True w"
    unfolding bracketed_comment_def
    apply (simp add: comment_2_char_def)
    apply (rule reads_drop, rule reads_peek)
    apply simp
    apply (rule reads_drop, rule reads_peek, rule reads_andThen, rule reads_orElse)
     apply (use loop in simp)
    apply (simp add: slash_prolog_char)
    apply (rule reads_drop, rule reads_ret)
    done
  then show ?thesis unfolding cr by simp
qed

lemma reads_layout_ws:
  "layout_char c \<Longrightarrow> reads (consume_layout E (Some c) info) (c # w) (info\<lparr>inserted := True\<rparr>) w"
  by (auto simp: consume_layout_def intro!: reads_drop reads_ret)

lemma reads_layout_line:
  "10 \<notin> set body \<Longrightarrow>
     reads (consume_layout E (Some 37) info) (37 # body @ 10 # w) (info\<lparr>inserted := True\<rparr>) w"
  using reads_single_line_comment [of "37 # body" w]
  by (auto simp: consume_layout_def layout_char_def end_line_comment_char_def
      intro: reads_andThen reads_ret)

lemma reads_layout_block:
  "\<not> has_close (body @ [42]) \<Longrightarrow>
     reads (consume_layout E (Some 47) info) (47 # 42 # body @ 42 # 47 # w) (info\<lparr>inserted := True\<rparr>) w"
  using reads_andThen [OF reads_bracketed_comment [of body E w],
      of "\<lambda>b. ret (if b then info\<lparr>inserted := True\<rparr> else info\<lparr>more_layout := False\<rparr>)"]
    reads_ret [of "info\<lparr>inserted := True\<rparr>" w]
  by (simp add: consume_layout_def layout_char_def end_line_comment_char_def comment_1_char_def)

lemma reads_layout_stop:
  assumes "layout_stop (c # cs)"
  shows "reads (consume_layout E (Some c) info) (c # cs) (info\<lparr>more_layout := False\<rparr>) (c # cs)"
proof (cases "comment_1_char c")
  case False
  with assms show ?thesis
    by (cases cs) (auto simp: consume_layout_def end_line_comment_char_def intro: reads_ret)
next
  case True
  with assms obtain d ds where cs: "cs = d # ds" and d: "d \<noteq> 42"
    by (cases cs) (auto simp: comment_1_char_def)
  have "reads (bracketed_comment E) (47 # d # ds) False (47 # d # ds)"
    unfolding bracketed_comment_def using d
    by (auto simp: comment_2_char_def intro!: reads_drop reads_peek reads_give reads_ret)
  from reads_andThen [OF this, of "\<lambda>b. ret (if b then info\<lparr>inserted := True\<rparr> else info\<lparr>more_layout := False\<rparr>)"]
    True cs assms reads_ret [of "info\<lparr>more_layout := False\<rparr>"]
  show ?thesis by (simp add: consume_layout_def comment_1_char_def end_line_comment_char_def)
qed

lemma reads_scan_loop_step:
  assumes "reads (consume_layout E (Some c) info) (c # cs) info' w" and "more_layout info'"
    and "reads (scan_loop E info') w b rest"
  shows "reads (scan_loop E info) (c # cs) b rest"
  unfolding reads_def
proof (intro allI impI)
  fix s :: lexer assume s: "chars s = c # cs"
  with readsD [OF assms(1)] obtain t where
    t: "consume_layout E (Some c) info s = (Inr info', t)" "chars t = w" "same_config s t" by blast
  with readsD [OF assms(3) t(2)] assms(2) s
  show "\<exists>t. scan_loop E info s = (Inr b, t) \<and> chars t = rest \<and> same_config s t"
    by (auto simp: scan_loop.simps [of E info s] lookahead_ok_eq intro: same_config_trans)
qed

lemma reads_scan_loop:
  assumes "layout_text w" and "layout_stop rest" and "more_layout info"
  shows "reads (scan_loop E info) (w @ rest) (inserted info \<or> w \<noteq> []) rest"
  using assms
proof (induction w arbitrary: info rule: layout_text.induct)
  case layout_nil
  then obtain c cs where "rest = c # cs" by (cases rest) auto
  with layout_nil reads_layout_stop [of c cs E info] show ?case
    unfolding reads_def by (fastforce simp: scan_loop.simps [of E info] lookahead_ok_eq)
next
  case (layout_ws c w)
  from layout_ws.IH [of "info\<lparr>inserted := True\<rparr>"] layout_ws.prems
  show ?case by (auto intro: reads_scan_loop_step [OF reads_layout_ws [OF layout_ws.hyps(1)]])
next
  case (layout_line body w)
  from layout_line.IH [of "info\<lparr>inserted := True\<rparr>"] layout_line.prems
  show ?case by (auto intro: reads_scan_loop_step [OF reads_layout_line [OF layout_line.hyps(1)]])
next
  case (layout_block body w)
  from layout_block.hyps(1) have "\<not> has_close (body @ [42])" by simp
  from layout_block.IH [of "info\<lparr>inserted := True\<rparr>"] layout_block.prems
  show ?case by (auto intro: reads_scan_loop_step [OF reads_layout_block [OF \<open>\<not> has_close (body @ [42])\<close>]])
qed

lemma reads_scan_for_layout:
  assumes "layout_text w" and "layout_stop rest"
  shows "reads (scan_for_layout E) (w @ rest) (w \<noteq> []) rest"
proof -
  from assms obtain c cs where "w @ rest = c # cs" by (cases "w @ rest") (cases rest; auto)+
  moreover have "reads (scan_loop E \<lparr>inserted = False, more_layout = True\<rparr>) (w @ rest) (w \<noteq> []) rest"
    using reads_scan_loop [OF assms, of "\<lparr>inserted = False, more_layout = True\<rparr>"] by simp
  ultimately show ?thesis by (simp add: scan_for_layout_def reads_peek)
qed

end
