(* ===== verification/Printer.thy ===== *)
theory Printer
  imports Ast
begin

text \<open>
  The text-producing part of \<open>src/src/heap_print.rs\<close>: which atoms are written without
  quotes, how a character is written inside quotes, when a space must separate two tokens,
  when an operator term needs brackets, and the names of numbered variables.
\<close>

section \<open>Integers as text\<close>

text \<open>Rust's integer formatting in a radix, with lower-case digits.\<close>

definition digit_char :: "nat \<Rightarrow> uchar" where
  "digit_char d = (if d < 10 then 48 + d else 87 + d)"

fun to_radix :: "nat \<Rightarrow> nat \<Rightarrow> uchar list" where
  "to_radix r n =
     (if n < r \<or> r < 2 then [digit_char n] else to_radix r (n div r) @ [digit_char (n mod r)])"

declare to_radix.simps [simp del]

section \<open>Operators\<close>

datatype DirectedOp = OpLeft atom OpDesc | OpRight atom OpDesc

primrec directed_op_as_atom :: "DirectedOp \<Rightarrow> atom" where
  "directed_op_as_atom (OpLeft name _) = name"
| "directed_op_as_atom (OpRight name _) = name"

primrec directed_op_is_prefix :: "DirectedOp \<Rightarrow> bool" where
  "directed_op_is_prefix (OpLeft _ cell) = op_is_prefix (dspec cell)"
| "directed_op_is_prefix (OpRight _ cell) = op_is_prefix (dspec cell)"

primrec is_negative_sign :: "DirectedOp \<Rightarrow> bool" where
  "is_negative_sign (OpLeft name cell) \<longleftrightarrow> name = atm ''-'' \<and> op_is_prefix (dspec cell)"
| "is_negative_sign (OpRight name cell) \<longleftrightarrow> name = atm ''-'' \<and> op_is_prefix (dspec cell)"

primrec directed_op_is_left :: "DirectedOp \<Rightarrow> bool" where
  "directed_op_is_left (OpLeft _ _) = True"
| "directed_op_is_left (OpRight _ _) = False"

fun needs_bracketing :: "OpDesc \<Rightarrow> DirectedOp \<Rightarrow> bool" where
  "needs_bracketing child_desc (OpLeft name cell) =
     (let priority = get_prec cell; spec = dspec cell
      in if name = atm ''-'' \<and> op_is_prefix spec \<and>
            (op_is_postfix (dspec child_desc) \<or> op_is_infix (dspec child_desc))
         then True
         else get_prec child_desc > priority \<or>
              (get_prec child_desc = priority \<and> is_strict_right spec))"
| "needs_bracketing child_desc (OpRight _ cell) =
     (let priority = get_prec cell; spec = dspec cell
      in if get_prec child_desc > priority \<or>
            (get_prec child_desc = priority \<and> is_strict_left spec)
         then True
         else if (op_is_postfix spec \<or> op_is_infix spec) \<and> \<not> op_is_postfix (dspec child_desc)
         then cell \<noteq> child_desc \<and> get_prec child_desc = priority
         else False)"

section \<open>Atoms and characters\<close>

definition char_to_string :: "bool \<Rightarrow> uchar \<Rightarrow> uchar list" where
  "char_to_string is_quoted c =
     (if c = 39 \<and> is_quoted then [92, 39]
      else if c = 10 \<and> is_quoted then [92, ch CHR ''n'']
      else if c = 13 \<and> is_quoted then [92, ch CHR ''r'']
      else if c = 9 \<and> is_quoted then [92, ch CHR ''t'']
      else if c = 0x0B \<and> is_quoted then [92, ch CHR ''v'']
      else if c = 0x0C \<and> is_quoted then [92, ch CHR ''f'']
      else if c = 0x08 \<and> is_quoted then [92, ch CHR ''b'']
      else if c = 0x07 \<and> is_quoted then [92, ch CHR ''a'']
      else if c = 92 \<and> is_quoted then [92, 92]
      else if c \<in> {32, 39, 10, 13, 9, 0x0B, 0x0C, 0x08, 0x07, 34, 92} then [c]
      else if is_whitespace c \<or> is_control c then
        [92, ch CHR ''x''] @ to_radix 16 c @ [92]
      else [c])"

definition requires_space :: "lex_env \<Rightarrow> uchar list \<Rightarrow> uchar list \<Rightarrow> bool" where
  "requires_space E atom op =
     (if atom = [] then False
      else case op of
             [] \<Rightarrow> False
           | oc # _ \<Rightarrow>
               (let ac = last atom
                in if ac = ch CHR ''0'' then
                     oc = 39 \<or> oc = ch CHR ''('' \<or> alpha_numeric_char E oc
                   else if alpha_numeric_char E ac then oc = ch CHR ''('' \<or> alpha_numeric_char E oc
                   else if graphic_token_char ac then graphic_token_char oc
                   else if variable_indicator_char ac \<or> capital_letter_char E ac then
                     alpha_numeric_char E oc
                   else if sign_char ac then sign_char oc \<or> decimal_digit_char oc
                   else if single_quote_char ac then single_quote_char oc
                   else False))"

definition non_quoted_graphic_token :: "uchar list \<Rightarrow> uchar \<Rightarrow> bool" where
  "non_quoted_graphic_token iter c =
     (if c = ch CHR ''/'' then
        (case iter of
           [] \<Rightarrow> True
         | d # ds \<Rightarrow>
             if d = ch CHR ''*'' then False
             else if graphic_token_char d then list_all graphic_token_char ds else False)
      else if c = ch CHR ''.'' then
        (case iter of
           [] \<Rightarrow> False
         | d # ds \<Rightarrow> if graphic_token_char d then list_all graphic_token_char ds else False)
      else list_all graphic_token_char iter)"

fun non_quoted_token :: "lex_env \<Rightarrow> uchar list \<Rightarrow> bool" where
  "non_quoted_token E [] = False"
| "non_quoted_token E (c # iter) =
     (if small_letter_char E c then list_all (alpha_numeric_char E) iter
      else if graphic_token_char c then non_quoted_graphic_token iter c
      else if semicolon_char c \<or> cut_char c then iter = []
      else if c = ch CHR ''['' then iter = [ch CHR '']'']
      else if c = ch CHR ''{'' then iter = [ch CHR ''}'']
      else if solo_char c then
        \<not> (c = ch CHR ''('' \<or> c = ch CHR '')'' \<or> c = ch CHR ''}'' \<or> c = ch CHR '']'' \<or>
           c = ch CHR '','' \<or> c = ch CHR ''%'' \<or> c = ch CHR ''|'')
      else False)"

definition print_op_addendum :: "lex_env \<Rightarrow> bool \<Rightarrow> atom \<Rightarrow> uchar list" where
  "print_op_addendum E quoted atom =
     (if \<not> quoted \<or> non_quoted_token E atom then atom
      else if atom = [39, 39] then [39, 39]
      else (if quoted then [39] else []) @ concat (map (char_to_string quoted) atom) @
           (if quoted then [39] else []))"

definition print_op_text :: "lex_env \<Rightarrow> bool \<Rightarrow> atom \<Rightarrow> uchar list" where
  "print_op_text E quoted atom =
     (if atom = atm '','' then atm '','' else print_op_addendum E quoted atom)"

text \<open>The characters of a string in double quotes (\<open>print_proper_string\<close> without a depth limit).\<close>

definition string_char_to_string :: "bool \<Rightarrow> uchar \<Rightarrow> uchar list" where
  "string_char_to_string quoted c =
     (if c = 92 then [92, 92] else if c = 34 then [92, 34] else char_to_string quoted c)"

definition proper_string_text :: "bool \<Rightarrow> uchar list \<Rightarrow> uchar list" where
  "proper_string_text quoted cs = [34] @ concat (map (string_char_to_string quoted) cs) @ [34]"

text \<open>Whether a space is pushed before an atom, given what was printed last.\<close>

definition ambiguity_check :: "lex_env \<Rightarrow> bool \<Rightarrow> uchar list \<Rightarrow> atom \<Rightarrow> bool" where
  "ambiguity_check E quoted tail atom =
     (if atom = atm '','' \<or> \<not> quoted \<or> non_quoted_token E atom
      then requires_space E tail atom else requires_space E tail [39])"

section \<open>Numbered variables\<close>

definition numbervar_text :: "nat \<Rightarrow> uchar list" where
  "numbervar_text n =
     (let i = n mod 26; j = n div 26
      in if j = 0 then [65 + i] else [65 + i] @ to_radix 10 j)"

definition is_numbered_var :: "atom \<Rightarrow> nat \<Rightarrow> bool" where
  "is_numbered_var name arity \<longleftrightarrow> arity = 1 \<and> name = atm ''$VAR''"

text \<open>
  Floats: the digits come from the \<open>ryu\<close> crate, given as a function of the bit pattern; a
  missing fraction before the exponent is added.
\<close>

definition fmt_float :: "(f64 \<Rightarrow> uchar list) \<Rightarrow> f64 \<Rightarrow> uchar list" where
  "fmt_float ryu_format fl =
     (let fl = (if fl = 0x8000000000000000 then 0 else fl);
          fl_str = ryu_format fl;
          mantissa = takeWhile (\<lambda>c. c \<noteq> ch CHR ''e'') fl_str;
          rest = dropWhile (\<lambda>c. c \<noteq> ch CHR ''e'') fl_str
      in if rest \<noteq> [] \<and> ch CHR ''.'' \<notin> set mantissa then mantissa @ atm ''.0'' @ rest
         else fl_str)"

section \<open>Digits\<close>

lemma to_digit_digit_char: "d < r \<Longrightarrow> r \<le> 16 \<Longrightarrow> to_digit r (digit_char d) = Some d"
  by (auto simp: to_digit_def digit_char_def)

lemma digits_value_to_radix:
  assumes "2 \<le> r" and "r \<le> 16"
  shows "digits_value r 0 (to_radix r n) = Some n"
  using assms
proof (induction r n rule: to_radix.induct)
  case (1 r n)
  show ?case
  proof (cases "n < r")
    case True
    with "1.prems" show ?thesis by (subst to_radix.simps) (simp add: to_digit_digit_char)
  next
    case False
    with 1 show ?thesis
      by (subst to_radix.simps)
         (simp add: digits_value_append to_digit_digit_char)
  qed
qed

lemma to_radix_digits: "2 \<le> r \<Longrightarrow> \<forall>c\<in>set (to_radix r n). \<exists>d<r. c = digit_char d"
proof (induction r n rule: to_radix.induct)
  case (1 r n)
  then show ?case
    by (subst to_radix.simps) (auto intro!: exI [of _ "n mod r"])
qed

lemma to_radix_nonempty: "to_radix r n \<noteq> []"
  by (subst to_radix.simps) simp

end
