(* ===== verification/RoundTrip.thy ===== *)
theory RoundTrip
  imports LexerReads Printer
begin

text \<open>
  What the printer writes, the lexer reads back: quoted and unquoted atoms
  (\<open>print_op_addendum\<close> against \<open>next_token\<close>), double-quoted strings
  (\<open>print_proper_string\<close>) and integers in decimal.
\<close>

section \<open>Escapes\<close>

text \<open>What follows a backslash inside quotes.\<close>

definition escaped :: "uchar \<Rightarrow> uchar lex" where
  "escaped c =
     (if meta_char c then andThen (skip_char c) (\<lambda>_. ret c)
      else if octal_digit_char c then get_octal_escape_sequence
      else if symbolic_hexadecimal_char c then get_hexadecimal_escape_sequence c
      else get_control_escape_sequence)"

lemma backslash_facts [simp]:
  "\<not> graphic_char 92" "\<not> alpha_numeric_char E 92" "\<not> solo_char 92" "\<not> space_char 92"
  "backslash_char 92" "\<not> single_quote_char 92" "\<not> double_quote_char 92" "\<not> back_quote_char 92"
  using meta_not_alpha_numeric [of 92 E] by (simp_all add: fixed_class_defs)

lemma reads_non_quote_escape:
  "reads (escaped x) (x # cs) v rest \<Longrightarrow> reads (get_non_quote_char E) (92 # x # cs) v rest"
  unfolding get_non_quote_char_def
  by (rule reads_peek, simp, rule reads_drop, rule reads_peek) (simp add: escaped_def)

lemma reads_quoted_char_escape:
  assumes "reads (escaped x) (x # cs) v rest"
  shows "reads (get_single_quoted_char E) (92 # x # cs) v rest"
    and "reads (get_double_quoted_char E) (92 # x # cs) v rest"
  unfolding get_single_quoted_char_def get_double_quoted_char_def
  by (rule reads_peek, simp, rule reads_non_quote_escape [OF assms])+

lemma reads_quoted_item_escape:
  assumes "reads (escaped x) (x # cs) v rest" and "x \<noteq> 10" and "q \<noteq> BackQ"
  shows "reads (quoted_item E q) (92 # x # cs) (Some v) rest"
proof -
  have "reads (get_single_quoted_item E) (92 # x # cs) (Some v) rest"
    unfolding get_single_quoted_item_def using assms(2)
    by (intro reads_peek) (simp add: new_line_char_def, intro reads_drop reads_peek, simp,
        intro reads_give reads_andThen [OF reads_quoted_char_escape(1) [OF assms(1)]] reads_ret)
  moreover have "reads (get_double_quoted_item E) (92 # x # cs) (Some v) rest"
    unfolding get_double_quoted_item_def using assms(2)
    by (intro reads_peek) (simp add: new_line_char_def, intro reads_drop reads_peek, simp,
        intro reads_give reads_andThen [OF reads_quoted_char_escape(2) [OF assms(1)]] reads_ret)
  ultimately show ?thesis using assms(3) by (cases q) auto
qed

lemma reads_escaped_meta: "meta_char c \<Longrightarrow> reads (escaped c) (c # rest) c rest"
  by (auto simp: escaped_def intro!: reads_drop reads_ret)

lemma reads_escaped_control:
  assumes "(x, v) \<in> {(ch CHR ''a'', 0x07), (ch CHR ''b'', 0x08), (ch CHR ''v'', 0x0B),
    (ch CHR ''f'', 0x0C), (ch CHR ''t'', 9), (ch CHR ''n'', 10), (ch CHR ''r'', 13)}"
  shows "reads (escaped x) (x # rest) v rest"
  using assms
  by (auto simp: escaped_def meta_char_def octal_digit_char_def symbolic_hexadecimal_char_def
      get_control_escape_sequence_def Let_def intro!: reads_peek reads_drop reads_ret)

lemma hex_digit_char: "d < 16 \<Longrightarrow> hexadecimal_digit_char (digit_char d)"
  by (auto simp: digit_char_def fixed_class_defs)

lemma u32_from_to_radix:
  assumes "n < 2 ^ 32"
  shows "u32_from_str_radix 16 (to_radix 16 n) = Some n"
proof -
  have "\<forall>c\<in>set (to_radix 16 n). c \<noteq> 43"
    using to_radix_digits [of 16 n] by (auto simp: digit_char_def split: if_splits)
  then have "(case to_radix 16 n of c # d # cs \<Rightarrow> if c = 43 then d # cs else to_radix 16 n
                 | _ \<Rightarrow> to_radix 16 n) = to_radix 16 n"
    by (auto split: list.splits)
  with assms digits_value_to_radix [of 16 n] to_radix_nonempty [of 16 n] show ?thesis
    by (simp add: u32_from_str_radix_def Let_def)
qed

lemma reads_escaped_hex:
  assumes "valid_char c"
  shows "reads (escaped (ch CHR ''x'')) (ch CHR ''x'' # to_radix 16 c @ 92 # rest) c rest"
proof -
  obtain d ds where ds: "to_radix 16 c = d # ds"
    using to_radix_nonempty [of 16 c] by (cases "to_radix 16 c") auto
  have hex: "\<forall>x\<in>set (d # ds). hexadecimal_digit_char x"
    using to_radix_digits [of 16 c] hex_digit_char by (auto simp: ds)
  have loop: "reads (escape_digits hexadecimal_digit_char d []) (d # ds @ 92 # rest) (92, d # ds) (92 # rest)"
    using reads_escape_digits [of ds hexadecimal_digit_char 92 d "[]" rest] hex
    by (simp add: fixed_class_defs)
  have "c < 2 ^ 32" using assms by (auto simp: valid_char_def)
  then have val: "u32_from_str_radix 16 (d # ds) = Some c" using u32_from_to_radix ds by metis
  have seq: "reads (escape_sequence_to_char hexadecimal_digit_char 16) (d # ds @ 92 # rest) c rest"
    unfolding escape_sequence_to_char_def
    by (rule reads_peek, rule reads_andThen [OF loop], simp, rule reads_drop)
       (simp add: val char_try_from_def assms reads_ret)
  show ?thesis
    using hex seq
    by (auto simp: escaped_def meta_char_def octal_digit_char_def symbolic_hexadecimal_char_def
        get_hexadecimal_escape_sequence_def ds intro!: reads_drop reads_peek)
qed

section \<open>Characters inside quotes\<close>

text \<open>A character written as itself inside quotes is one the lexer takes as itself.\<close>

lemma plain_char_class:
  assumes "\<not> is_whitespace c \<or> c = 32" and "\<not> is_control c"
    and "c \<noteq> 39" and "c \<noteq> 92" and "c \<noteq> 34" and "c \<noteq> 96"
  shows "graphic_char c \<or> alpha_numeric_char E c \<or> solo_char c \<or> space_char c"
proof (cases "c = 32")
  case False
  with assms have "\<not> layout_char c" by (auto simp: layout_char_def is_whitespace_def)
  with assms False show ?thesis
    by (auto simp: alpha_numeric_char_def alpha_char_def graphic_token_char_def backslash_char_def
        meta_char_def)
qed (simp add: space_char_def)

lemma reads_plain_non_quote:
  "graphic_char c \<or> alpha_numeric_char E c \<or> solo_char c \<or> space_char c \<Longrightarrow>
     reads (get_non_quote_char E) (c # rest) c rest"
  unfolding get_non_quote_char_def by (rule reads_peek) (auto intro!: reads_drop reads_ret)

definition plain_for :: "quote \<Rightarrow> uchar \<Rightarrow> bool" where
  "plain_for q c \<longleftrightarrow> (\<not> is_whitespace c \<or> c = 32) \<and> \<not> is_control c \<and> c \<noteq> 92 \<and>
     c \<noteq> (case q of SingleQ \<Rightarrow> 39 | DoubleQ \<Rightarrow> 34 | BackQ \<Rightarrow> 96)"

lemma reads_map_Some: "reads m inp c rest \<Longrightarrow> reads (andThen m (\<lambda>c. ret (Some c))) inp (Some c) rest"
  by (erule reads_andThen) (rule reads_ret)

lemma reads_plain_item:
  assumes "plain_for q c" and "q \<noteq> BackQ"
  shows "reads (quoted_item E q) (c # rest) (Some c) rest"
proof -
  have cls: "\<lbrakk>c \<noteq> 39; c \<noteq> 34; c \<noteq> 96\<rbrakk> \<Longrightarrow> graphic_char c \<or> alpha_numeric_char E c \<or> solo_char c \<or> space_char c"
    using assms plain_char_class [of c E] by (auto simp: plain_for_def)
  have nq: "\<lbrakk>c \<noteq> 39; c \<noteq> 34; c \<noteq> 96\<rbrakk> \<Longrightarrow> reads (get_non_quote_char E) (c # rest) c rest"
    by (rule reads_plain_non_quote [OF cls])
  show ?thesis
  proof (cases q)
    case SingleQ
    with assms have "c \<noteq> 39" by (simp add: plain_for_def)
    then have "reads (get_single_quoted_char E) (c # rest) c rest"
      unfolding get_single_quoted_char_def
      by (intro reads_peek)
         (auto simp: double_quote_char_def single_quote_char_def back_quote_char_def
           intro!: reads_drop reads_ret nq)
    with SingleQ assms show ?thesis
      by (auto simp: get_single_quoted_item_def plain_for_def backslash_char_def
          intro!: reads_peek reads_map_Some)
  next
    case DoubleQ
    with assms have "c \<noteq> 34" by (simp add: plain_for_def)
    then have "reads (get_double_quoted_char E) (c # rest) c rest"
      unfolding get_double_quoted_char_def
      by (intro reads_peek)
         (auto simp: double_quote_char_def single_quote_char_def back_quote_char_def
           intro!: reads_drop reads_ret nq)
    with DoubleQ assms show ?thesis
      by (auto simp: get_double_quoted_item_def plain_for_def backslash_char_def
          intro!: reads_peek reads_map_Some)
  qed (use assms in simp)
qed

lemma reads_char_to_string:
  assumes "valid_char c" and "q \<noteq> BackQ" and "q = DoubleQ \<longrightarrow> c \<noteq> 34"
  shows "reads (quoted_item E q) (char_to_string True c @ rest) (Some c) rest"
proof -
  have control: "(x, c) \<in> {(ch CHR ''a'', 0x07), (ch CHR ''b'', 0x08), (ch CHR ''v'', 0x0B),
        (ch CHR ''f'', 0x0C), (ch CHR ''t'', 9), (ch CHR ''n'', 10), (ch CHR ''r'', 13)} \<Longrightarrow>
      reads (quoted_item E q) (92 # x # rest) (Some c) rest" for x
    by (rule reads_quoted_item_escape [OF reads_escaped_control _ assms(2)]) auto
  have meta: "meta_char c \<Longrightarrow> reads (quoted_item E q) (92 # c # rest) (Some c) rest"
    by (rule reads_quoted_item_escape [OF reads_escaped_meta _ assms(2)]) (auto simp: meta_char_def)
  have hex: "reads (quoted_item E q) (92 # 120 # to_radix 16 c @ 92 # rest) (Some c) rest"
    using reads_quoted_item_escape [OF reads_escaped_hex [OF assms(1)] _ assms(2)] by simp
  consider "c = 39 \<or> c = 92" | "c = 10" | "c = 13" | "c = 9" | "c = 11" | "c = 12" | "c = 8" | "c = 7"
    | "c \<notin> {39, 92, 10, 13, 9, 11, 12, 8, 7, 32, 34}" "is_whitespace c \<or> is_control c"
    | "c \<notin> {39, 92, 10, 13, 9, 11, 12, 8, 7}" "(\<not> is_whitespace c \<and> \<not> is_control c) \<or> c = 32 \<or> c = 34"
    by auto
  then show ?thesis
  proof cases
    case 1
    with meta show ?thesis by (auto simp: char_to_string_def meta_char_def)
  next
    case 9
    with hex show ?thesis by (simp add: char_to_string_def)
  next
    case 10
    then have p: "plain_for q c"
      using assms(2,3) by (cases q) (auto simp: plain_for_def is_whitespace_def is_control_def)
    from 10 have "char_to_string True c = [c]" by (auto simp: char_to_string_def)
    with reads_plain_item [OF p assms(2)] show ?thesis by simp
  qed (use control in \<open>auto simp: char_to_string_def\<close>)
qed

lemma fails_quoted_char:
  assumes "d \<noteq> q"
  shows "q = 39 \<Longrightarrow> fails (get_single_quoted_char E) (q # d # rest) (\<lambda>e. \<exists>c l k. e = UnexpectedChar c l k) (q # d # rest)"
    and "q = 34 \<Longrightarrow> fails (get_double_quoted_char E) (q # d # rest) (\<lambda>e. \<exists>c l k. e = UnexpectedChar c l k) (q # d # rest)"
proof -
  have "fails (andThen (skip_char q) (\<lambda>_. andThen lookahead_char (\<lambda>c2.
           if c2 \<noteq> q then andThen (return_char q) (\<lambda>_. raise_at (UnexpectedChar q))
           else andThen (skip_char c2) (\<lambda>_. ret c2)))) (q # d # rest)
         (\<lambda>e. \<exists>c l k. e = UnexpectedChar c l k) (q # d # rest)"
    by (rule fails_drop, rule fails_peek) (simp add: assms fails_give fails_raise_at)
  then show "q = 39 \<Longrightarrow> fails (get_single_quoted_char E) (q # d # rest) (\<lambda>e. \<exists>c l k. e = UnexpectedChar c l k) (q # d # rest)"
    and "q = 34 \<Longrightarrow> fails (get_double_quoted_char E) (q # d # rest) (\<lambda>e. \<exists>c l k. e = UnexpectedChar c l k) (q # d # rest)"
    unfolding get_single_quoted_char_def get_double_quoted_char_def
    by (auto simp: single_quote_char_def double_quote_char_def intro!: fails_peek)
qed

lemma fails_at_quote:
  "d \<noteq> 39 \<Longrightarrow> fails (quoted_item E SingleQ) (39 # d # rest) (\<lambda>e. \<exists>c l k. e = UnexpectedChar c l k) (39 # d # rest)"
  "d \<noteq> 34 \<Longrightarrow> fails (quoted_item E DoubleQ) (34 # d # rest) (\<lambda>e. \<exists>c l k. e = UnexpectedChar c l k) (34 # d # rest)"
  unfolding quoted_item.simps get_single_quoted_item_def get_double_quoted_item_def
  by (rule fails_peek, simp add: backslash_char_def,
      rule fails_andThen_left, rule fails_quoted_char, simp, simp)+

section \<open>Atoms\<close>

lemma name_token_quote:
  "name_token E 39 =
     andThen (skip_char 39) (\<lambda>_.
     andThen (consume_chars_with E SingleQ []) (\<lambda>token.
     andThen lookahead_char (\<lambda>c.
       if single_quote_char c then
         andThen (skip_char c) (\<lambda>_.
           case token of [e] \<Rightarrow> ret (TLiteral (Atom [e]))
           | _ \<Rightarrow> ret (if token = atm ''[]'' then TLiteral (Atom (atm ''[]''))
                       else TLiteral (Atom token)))
       else raise (InvalidSingleQuotedCharacter c))))"
proof -
  have "\<not> small_letter_char E 39" "\<not> graphic_token_char 39" "\<not> cut_char 39" "\<not> semicolon_char 39"
    "single_quote_char 39"
    by (simp_all add: small_letter_char_def is_alphabetic_def fixed_class_defs)
  then show ?thesis by (simp only: name_token_def Let_def if_False if_True simp_thms)
qed

lemma reads_quoted_atom:
  assumes "\<forall>c\<in>set a. valid_char c" and "d \<noteq> 39"
  shows "reads (name_token E 39) (39 # concat (map (char_to_string True) a) @ 39 # d # rest)
           (TLiteral (Atom a)) (d # rest)"
proof -
  have body: "reads (consume_chars_with E SingleQ []) (concat (map (char_to_string True) a) @ 39 # d # rest)
      a (39 # d # rest)"
    using reads_consume_chars [of a E SingleQ "char_to_string True" "39 # d # rest" _ "[]"]
      reads_char_to_string [of _ SingleQ E] assms fails_at_quote(1)
    by fastforce
  have "reads (andThen (skip_char 39) (\<lambda>_. case a of [e] \<Rightarrow> ret (TLiteral (Atom [e]))
      | _ \<Rightarrow> ret (if a = atm ''[]'' then TLiteral (Atom (atm ''[]'')) else TLiteral (Atom a))))
      (39 # d # rest) (TLiteral (Atom a)) (d # rest)"
    by (rule reads_drop) (auto intro: reads_ret split: list.splits)
  then show ?thesis
    unfolding name_token_quote
    by (intro reads_drop, intro reads_andThen [OF body], intro reads_peek)
       (simp add: single_quote_char_def)
qed

text \<open>The branch of \<open>next_token\<close> that reads names.\<close>

definition name_start :: "lex_env \<Rightarrow> uchar \<Rightarrow> bool" where
  "name_start E c \<longleftrightarrow> small_letter_char E c \<or> graphic_token_char c \<and> c \<noteq> 46 \<or>
     cut_char c \<or> semicolon_char c \<or> c = 39"

lemma name_start_excludes:
  assumes "name_start E c"
  shows "\<not> capital_letter_char E c \<and> \<not> variable_indicator_char c \<and> \<not> decimal_digit_char c \<and>
    c \<notin> {44, 41, 40, 46, 93, 91, 124, 123, 125, 34, 0}"
proof -
  from assms consider "small_letter_char E c" | "graphic_token_char c" "c \<noteq> 46"
    | "c = 33 \<or> c = 59 \<or> c = 39"
    by (auto simp: name_start_def cut_char_def semicolon_char_def)
  then show ?thesis
  proof cases
    case 1
    then have "\<not> is_uppercase E c" "128 \<le> c \<or> 97 \<le> c \<and> c \<le> 122"
      by (auto simp: small_letter_char_def is_alphabetic_def is_uppercase_def split: if_splits)
    then show ?thesis
      by (auto simp: capital_letter_char_def variable_indicator_char_def decimal_digit_char_def
          is_ascii_digit_def)
  next
    case 2
    then have "c \<in> set (atm ''#$&*+-/:<=>?@^~'') \<union> {92}" by (auto simp: fixed_class_defs)
    then show ?thesis
      by (auto simp: capital_letter_char_def is_uppercase_def variable_indicator_char_def
          decimal_digit_char_def is_ascii_digit_def)
  next
    case 3
    then show ?thesis
      by (auto simp: capital_letter_char_def is_uppercase_def variable_indicator_char_def
          decimal_digit_char_def is_ascii_digit_def)
  qed
qed

lemma token_at_name: "name_start E c \<Longrightarrow> token_at E l c = name_token E c"
  using name_start_excludes [of E c] by (simp add: token_at_def)

lemma reads_next_token:
  assumes "layout_stop (c # cs)" and "reads (token_at E False c) (c # cs) t rest"
  shows "reads (next_token E) (c # cs) t rest"
proof -
  have "reads (scan_for_layout E) ([] @ c # cs) ([] \<noteq> ([] :: uchar list)) (c # cs)"
    by (rule reads_scan_for_layout [OF layout_nil assms(1)])
  then have "reads (scan_for_layout E) (c # cs) False (c # cs)" by simp
  then show ?thesis
    unfolding next_token_def by (rule reads_andThen) (rule reads_peek, rule assms(2))
qed

text \<open>A character that ends every name: not part of a word, a symbol or a quoted item.\<close>

definition name_end :: "lex_env \<Rightarrow> uchar \<Rightarrow> bool" where
  "name_end E d \<longleftrightarrow> \<not> alpha_numeric_char E d \<and> \<not> graphic_token_char d \<and> d \<noteq> 39"

lemma reads_word:
  assumes "small_letter_char E c" and "list_all (alpha_numeric_char E) cs" and "name_end E d"
  shows "reads (name_token E c) (c # cs @ d # rest) (TLiteral (Atom (c # cs))) (d # rest)"
proof -
  have loop: "reads (token_loop (alpha_numeric_char E) [c]) (cs @ d # rest) (c # cs) (d # rest)"
    using reads_token_loop [of cs "alpha_numeric_char E" d "[c]" rest] assms
    by (simp add: list_all_iff name_end_def)
  show ?thesis
    unfolding name_token_def Let_def using assms(1)
    by (auto intro!: reads_drop reads_andThen [OF loop] intro: reads_ret)
qed

lemma reads_symbol:
  assumes "graphic_token_char c" and "list_all graphic_token_char cs" and "name_end E d"
  shows "reads (name_token E c) (c # cs @ d # rest) (TLiteral (Atom (c # cs))) (d # rest)"
proof -
  have loop: "reads (token_loop graphic_token_char [c]) (cs @ d # rest) (c # cs) (d # rest)"
    using reads_token_loop [of cs graphic_token_char d "[c]" rest] assms
    by (simp add: list_all_iff name_end_def)
  have "\<not> small_letter_char E c"
    using assms(1) by (auto simp: small_letter_char_def is_alphabetic_def fixed_class_defs)
  with assms(1) show ?thesis
    unfolding name_token_def Let_def
    by (auto intro!: reads_drop reads_andThen [OF loop] intro: reads_ret)
qed

lemma reads_solo_name:
  assumes "semicolon_char c \<or> cut_char c"
  shows "reads (name_token E c) (c # rest) (TLiteral (Atom [c])) rest"
  unfolding name_token_def Let_def using assms
  by (auto simp: small_letter_char_def is_alphabetic_def fixed_class_defs intro!: reads_drop reads_ret)

lemma reads_dot:
  assumes "list_all graphic_token_char (x # xs)" and "name_end E d"
  shows "reads (dot_token E 46) (46 # x # xs @ d # rest) (TLiteral (Atom (46 # x # xs))) (d # rest)"
proof -
  have x: "\<not> layout_char x" "x \<noteq> 37" using assms(1) by (auto simp: fixed_class_defs)
  have name: "reads (name_token E 46) (46 # x # xs @ d # rest) (TLiteral (Atom (46 # x # xs))) (d # rest)"
    using reads_symbol [of 46 "x # xs" E d rest] assms by (simp add: fixed_class_defs)
  show ?thesis
    unfolding reads_def
  proof (intro allI impI)
    fix s :: lexer assume s: "chars s = 46 # x # xs @ d # rest"
    with x have "dot_token E 46 s = name_token E 46 (put_back_char 46 (advance 46 s))"
      by (simp add: dot_token_def andThen_skip andThen_return lookahead_char_Cons)
    with readsD [OF name, of "put_back_char 46 (advance 46 s)"] s
    show "\<exists>t. dot_token E 46 s = (Inr (TLiteral (Atom (46 # x # xs))), t) \<and> chars t = d # rest \<and>
        same_config s t" by auto
  qed
qed

lemma layout_stop_name:
  assumes "name_start E c" and "\<not> (c = 47 \<and> (cs = [] \<or> hd cs = 42))"
  shows "layout_stop (c # cs)"
proof -
  from assms(1) have "\<not> layout_char c" "c \<noteq> 37"
    by (auto simp: name_start_def small_letter_char_def is_alphabetic_def fixed_class_defs
        split: if_splits)
  with assms(2) show ?thesis by (cases cs) auto
qed

lemma reads_bare_atom:
  assumes "non_quoted_token E a" and "a \<noteq> atm ''[]''" and "a \<noteq> atm ''{}''" and "name_end E d"
  shows "reads (next_token E) (a @ d # rest) (TLiteral (Atom a)) (d # rest)"
proof -
  from assms(1) obtain c cs where a: "a = c # cs" by (cases a) auto
  have d: "d \<noteq> 42" using assms(4) by (auto simp: name_end_def fixed_class_defs)
  have named: "name_start E c \<Longrightarrow> \<not> (c = 47 \<and> (cs \<noteq> [] \<and> hd cs = 42)) \<Longrightarrow>
      reads (name_token E c) (c # cs @ d # rest) (TLiteral (Atom a)) (d # rest) \<Longrightarrow> ?thesis"
    using layout_stop_name [of E c "cs @ d # rest"] d
    by (auto simp: a hd_append token_at_name intro!: reads_next_token)
  from assms(1-3) consider (word) "small_letter_char E c" "list_all (alpha_numeric_char E) cs"
    | (symbol) "graphic_token_char c" "non_quoted_graphic_token cs c"
    | (solo) "semicolon_char c \<or> cut_char c" "cs = []"
    by (auto simp: a solo_char_def semicolon_char_def cut_char_def split: if_splits)
  then show ?thesis
  proof cases
    case word
    then have "c \<noteq> 47" by (auto simp: small_letter_char_def is_alphabetic_def)
    with named reads_word [OF word assms(4)] word show ?thesis by (simp add: name_start_def a)
  next
    case symbol
    then have all: "list_all graphic_token_char cs"
      by (auto simp: non_quoted_graphic_token_def split: if_splits list.splits)
    show ?thesis
    proof (cases "c = 46")
      case True
      with symbol obtain x xs where cs: "cs = x # xs"
        by (cases cs) (auto simp: non_quoted_graphic_token_def)
      have "reads (token_at E False 46) (46 # x # xs @ d # rest) (TLiteral (Atom a)) (d # rest)"
        using reads_dot [of x xs E d rest] all assms(4)
        by (simp add: token_at_def capital_letter_char_def is_uppercase_def
            variable_indicator_char_def a True cs)
      then show ?thesis
        using reads_next_token [of 46 "x # xs @ d # rest" E] by (simp add: a True cs layout_char_def)
    next
      case False
      with symbol have "name_start E c" "\<not> (c = 47 \<and> (cs \<noteq> [] \<and> hd cs = 42))"
        by (auto simp: name_start_def non_quoted_graphic_token_def split: if_splits list.splits)
      with named reads_symbol [OF symbol(1) all assms(4)] show ?thesis by (simp add: a)
    qed
  next
    case solo
    then have "name_start E c" "c \<noteq> 47"
      by (auto simp: name_start_def cut_char_def semicolon_char_def)
    with named reads_solo_name [OF solo(1)] solo(2) show ?thesis by (simp add: a)
  qed
qed

lemma reads_printed_atom:
  assumes "\<forall>c\<in>set a. valid_char c" and "a \<notin> {[39, 39], atm ''[]'', atm ''{}''}" and "name_end E d"
  shows "reads (next_token E) (print_op_addendum E True a @ d # rest) (TLiteral (Atom a)) (d # rest)"
proof (cases "non_quoted_token E a")
  case True
  with reads_bare_atom [OF True _ _ assms(3)] assms(2) show ?thesis
    by (simp add: print_op_addendum_def)
next
  case False
  have "d \<noteq> 39" using assms(3) by (simp add: name_end_def)
  have "reads (token_at E False 39) (39 # concat (map (char_to_string True) a) @ 39 # d # rest)
      (TLiteral (Atom a)) (d # rest)"
    using reads_quoted_atom [OF assms(1) \<open>d \<noteq> 39\<close>] by (simp add: token_at_name name_start_def)
  moreover have "layout_stop (39 # concat (map (char_to_string True) a) @ 39 # d # rest)"
    by (rule layout_stop_name [of E]) (simp_all add: name_start_def)
  ultimately show ?thesis
    using False assms(2) by (simp add: print_op_addendum_def reads_next_token)
qed

section \<open>Strings\<close>

lemma reads_string_char:
  assumes "valid_char c"
  shows "reads (quoted_item E DoubleQ) (string_char_to_string True c @ rest) (Some c) rest"
proof -
  have meta: "meta_char c \<Longrightarrow> reads (quoted_item E DoubleQ) (92 # c # rest) (Some c) rest"
    by (rule reads_quoted_item_escape [OF reads_escaped_meta]) (auto simp: meta_char_def)
  from reads_char_to_string [OF assms, of DoubleQ E rest] meta show ?thesis
    by (auto simp: string_char_to_string_def meta_char_def)
qed

lemma reads_printed_string:
  assumes "\<forall>c\<in>set cs. valid_char c" and "d \<noteq> 34"
  shows "reads (char_code_list_token E 34) (proper_string_text True cs @ d # rest) cs (d # rest)"
proof -
  have body: "reads (consume_chars_with E DoubleQ [])
      (concat (map (string_char_to_string True) cs) @ 34 # d # rest) cs (34 # d # rest)"
    using reads_consume_chars [of cs E DoubleQ "string_char_to_string True" "34 # d # rest" _ "[]"]
      reads_string_char assms fails_at_quote(2)
    by fastforce
  have "reads (char_code_list_token E 34)
      (34 # concat (map (string_char_to_string True) cs) @ 34 # d # rest) cs (d # rest)"
    unfolding char_code_list_token_def
    by (rule reads_drop, rule reads_andThen [OF body], rule reads_peek)
       (auto simp: double_quote_char_def intro!: reads_drop reads_ret)
  then show ?thesis by (simp add: proper_string_text_def)
qed

section \<open>Integers\<close>

lemma reads_try_nt:
  assumes "reads m inp a mid" and "reads (k a) mid b rest"
  shows "reads (try_nt token m k) inp b rest"
  using assms unfolding reads_def try_nt_def by (fastforce intro: same_config_trans)

lemma reads_skip_underscore: "c \<noteq> 95 \<Longrightarrow> reads (skip_underscore_in_number E) (c # cs) c (c # cs)"
  unfolding skip_underscore_in_number_def by (rule reads_peek) (auto intro: reads_ret)

lemma reads_digits_loop:
  assumes "\<forall>x\<in>set xs. decimal_digit_char x" and "\<not> decimal_digit_char d" and "d \<noteq> 95"
    and "reads (k d (token @ xs)) (d # cs) b rest"
  shows "reads (digits_loop E k (hd (xs @ [d])) token) (xs @ d # cs) b rest"
  using assms
proof (induction xs arbitrary: token)
  case Nil
  then show ?case by (auto simp: reads_def digits_loop.simps)
next
  case (Cons x xs)
  let ?y = "hd (xs @ [d])"
  have y: "?y \<noteq> 95" using Cons.prems by (cases xs) (auto simp: fixed_class_defs)
  have IH: "reads (digits_loop E k ?y (token @ [x])) (xs @ d # cs) b rest"
    using Cons.prems by (intro Cons.IH) auto
  have su: "reads (skip_underscore_in_number E) (xs @ d # cs) ?y (xs @ d # cs)"
    using reads_skip_underscore [OF y] by (cases xs) auto
  have nt: "reads (try_nt (token @ [x]) (skip_underscore_in_number E)
          (\<lambda>c' s1. digits_loop E k c' (token @ [x]) s1)) (xs @ d # cs) b rest"
    by (rule reads_try_nt [OF su]) (rule IH)
  show ?case
    unfolding reads_def
  proof (intro allI impI)
    fix s :: lexer assume s: "chars s = (x # xs) @ d # cs"
    have "digits_loop E k x token s = try_nt (token @ [x]) (skip_underscore_in_number E)
          (\<lambda>c' s1. digits_loop E k c' (token @ [x]) s1) (advance x s)"
      using Cons.prems(1) by (simp add: digits_loop.simps [of E k x token s])
    with readsD [OF nt, of "advance x s"] s
    show "\<exists>t. digits_loop E k (hd ((x # xs) @ [d])) token s = (Inr b, t) \<and> chars t = rest \<and>
        same_config s t" by auto
  qed
qed

definition integer_literal :: "int \<Rightarrow> Literal" where
  "integer_literal n = (case build_with_checked n of Some f \<Rightarrow> LFixnum f | None \<Rightarrow> Integer n)"

lemma reads_parse_integer:
  assumes "integer_parser_ok E" and "digits_value 10 0 token = Some n" and "token \<noteq> []"
    and "\<forall>c\<in>set token. decimal_digit_char c"
  shows "reads (parse_integer E token) inp
     (case build_with_checked (int n) of Some f \<Rightarrow> GFixnum f | None \<Rightarrow> GInt (int n)) inp"
proof -
  have src: "(case token of
                         c # d # cs \<Rightarrow> if c = 43 then (False, d # cs)
                                       else if c = 45 then (True, d # cs) else (False, token)
                       | _ \<Rightarrow> (False, token)) = (False, token)"
    using assms(4) by (auto simp: fixed_class_defs split: list.splits)
  have i64: "i64_from_str_radix 10 token = (if int n < 2 ^ 63 then Some (int n) else None)"
    using assms(2,3) by (simp add: i64_from_str_radix_def src)
  have big: "integer_from_str_radix E token 10 = Some (int n)"
    using assms(1-3) by (simp add: integer_parser_ok_def)
  show ?thesis
  proof (cases "int n < 2 ^ 63")
    case True
    with i64 show ?thesis by (simp add: parse_integer_def parse_integer_by_radix_def reads_ret)
  next
    case False
    then have "build_with_checked (int n) = None"
      by (simp add: build_with_checked_None Fixnum_MAX_def)
    with False i64 big show ?thesis
      by (simp add: parse_integer_def parse_integer_by_radix_def reads_ret)
  qed
qed

text \<open>A character that ends a decimal integer.\<close>

definition number_end :: "lex_env \<Rightarrow> uchar \<Rightarrow> bool" where
  "number_end E d \<longleftrightarrow> \<not> alpha_numeric_char E d \<and> d \<noteq> 46 \<and> d \<noteq> 39"

lemma reads_number_finish:
  assumes "number_end E d" and "integer_parser_ok E" and "digits_value 10 0 token = Some n"
    and "token \<noteq> []" and "\<forall>c\<in>set token. decimal_digit_char c"
  shows "reads (number_finish E d token) (d # cs)
     (NTInteger (case build_with_checked (int n) of Some f \<Rightarrow> GFixnum f | None \<Rightarrow> GInt (int n))) (d # cs)"
proof -
  have "d \<noteq> 120" "d \<noteq> 111" "d \<noteq> 98"
    using assms(1) ascii_letter_alpha_numeric [of d E] by (auto simp: number_end_def)
  with assms(1) have "number_finish E d token = integer_token E token"
    by (simp add: number_finish_def number_end_def decimal_point_char_def single_quote_char_def)
  then show ?thesis
    by (simp only:) (intro reads_andThen [OF reads_parse_integer [OF assms(2-5)]] reads_ret)
qed

lemma number_end_facts:
  assumes "number_end E d"
  shows "\<not> decimal_digit_char d" and "d \<noteq> 95"
  using assms digit_alpha_numeric [of d E]
  by (auto simp: number_end_def alpha_numeric_char_def alpha_char_def)

lemma decimal_digits: "\<forall>c\<in>set (to_radix 10 n). decimal_digit_char c"
  using to_radix_digits [of 10 n] by (auto simp: digit_char_def fixed_class_defs)

lemma reads_number_token:
  assumes "number_end E d" and "integer_parser_ok E" and "to_radix 10 n = c # cs"
  shows "reads (number_token E c) (to_radix 10 n @ d # rest)
     (NTInteger (case build_with_checked (int n) of Some f \<Rightarrow> GFixnum f | None \<Rightarrow> GInt (int n)))
     (d # rest)"
proof -
  have digits: "\<forall>x\<in>set (c # cs). decimal_digit_char x" using decimal_digits [of n] assms(3) by simp
  have fin: "reads (number_finish E d ([c] @ cs)) (d # rest)
      (NTInteger (case build_with_checked (int n) of Some f \<Rightarrow> GFixnum f | None \<Rightarrow> GInt (int n)))
      (d # rest)"
    using reads_number_finish [OF assms(1,2), of "c # cs" n] digits digits_value_to_radix [of 10 n]
      assms(3) by simp
  have y: "hd (cs @ [d]) \<noteq> 95"
    using digits number_end_facts(2) [OF assms(1)] by (cases cs) (auto simp: fixed_class_defs)
  have su: "reads (skip_underscore_in_number E) (cs @ d # rest) (hd (cs @ [d])) (cs @ d # rest)"
    using reads_skip_underscore [OF y] by (cases cs) auto
  have loop: "reads (digits_loop E (number_finish E) (hd (cs @ [d])) [c]) (cs @ d # rest)
      (NTInteger (case build_with_checked (int n) of Some f \<Rightarrow> GFixnum f | None \<Rightarrow> GInt (int n)))
      (d # rest)"
    using digits number_end_facts [OF assms(1)] fin by (intro reads_digits_loop) auto
  show ?thesis
    unfolding number_token_def assms(3)
    by (simp, rule reads_drop, rule reads_try_nt [OF su], rule loop)
qed

lemma reads_printed_integer:
  assumes "number_end E d" and "integer_parser_ok E"
  shows "reads (next_token E) (to_radix 10 n @ d # rest) (TLiteral (integer_literal (int n))) (d # rest)"
proof -
  obtain c cs where c: "to_radix 10 n = c # cs"
    using to_radix_nonempty [of 10 n] by (cases "to_radix 10 n") auto
  then have dc: "decimal_digit_char c" using decimal_digits [of n] by simp
  then have stop: "layout_stop (c # cs @ d # rest)" by (cases "cs @ d # rest") (auto simp: fixed_class_defs)
  have "token_at E False c = andThen (number_token E c) (\<lambda>nt.
          case to_token nt of Some token \<Rightarrow> ret token | None \<Rightarrow> raise unexpected_eof)"
    using dc by (auto simp: token_at_def capital_letter_char_def is_uppercase_def fixed_class_defs)
  moreover have "reads (number_token E c) (c # cs @ d # rest)
     (NTInteger (case build_with_checked (int n) of Some f \<Rightarrow> GFixnum f | None \<Rightarrow> GInt (int n)))
     (d # rest)"
    using reads_number_token [OF assms c, of rest] c by simp
  ultimately have "reads (token_at E False c) (c # cs @ d # rest)
     (TLiteral (integer_literal (int n))) (d # rest)"
    by (auto simp: integer_literal_def intro!: reads_andThen intro: reads_ret split: option.splits)
  from reads_next_token [OF stop this] show ?thesis by (simp add: c)
qed

end
