(* ===== verification/Parser.thy ===== *)
theory Parser
  imports LexerProgress
begin

text \<open>
  The operator-precedence parser of \<open>src/src/parser/parser.rs\<close>. A \<open>Vec\<close> used as a stack
  (\<open>tokens\<close>, \<open>stack\<close>, \<open>terms\<close>) is a list whose head is the last element of the vector, so
  \<open>push\<close> is \<open>#\<close> and \<open>pop\<close> takes the head; \<open>vec_at xs i\<close> is the index \<open>i\<close> of the
  vector. Every method of \<open>Parser\<close> is a function on the parser record; the ones that return a
  \<open>Result\<close> are state-and-error computations. \<open>unfold_bounds\<close> is a \<open>usize\<close> on which the
  code subtracts without a guard, and is kept at its width.
\<close>

section \<open>Token types and descriptors\<close>

datatype TokenType =
    TyTerm
  | TyOpen
  | TyOpenCT
  | TyOpenList
  | TyOpenCurly
  | TyHeadTailSeparator
  | TyComma
  | TyClose
  | TyCloseList
  | TyCloseCurly
  | TyEnd

datatype Tokens = Default | Provided "Token list"

definition is_sep :: "TokenType \<Rightarrow> bool" where
  "is_sep ty \<longleftrightarrow>
     ty \<in> {TyHeadTailSeparator, TyOpenCT, TyOpen, TyClose, TyOpenList, TyCloseList,
           TyOpenCurly, TyCloseCurly, TyComma}"

fun sep_to_atom :: "TokenType \<Rightarrow> atom option" where
  "sep_to_atom TyOpen = Some (atm ''('')"
| "sep_to_atom TyOpenCT = Some (atm ''('')"
| "sep_to_atom TyClose = Some (atm '')'')"
| "sep_to_atom TyOpenList = Some (atm ''['')"
| "sep_to_atom TyCloseList = Some (atm '']'')"
| "sep_to_atom TyOpenCurly = Some (atm ''{'')"
| "sep_to_atom TyCloseCurly = Some (atm ''}'')"
| "sep_to_atom TyHeadTailSeparator = Some (atm ''|'')"
| "sep_to_atom TyComma = Some (atm '','')"
| "sep_to_atom TyEnd = Some (atm ''.'')"
| "sep_to_atom TyTerm = None"

record TokenDesc =
  tt :: TokenType
  priority :: nat
  spec :: "32 word"
  unfold_bounds :: "64 word"

section \<open>Lists of characters as partial strings\<close>

definition as_char :: "atom \<Rightarrow> uchar option" where
  "as_char a = (case a of [c] \<Rightarrow> Some c | _ \<Rightarrow> None)"

definition nil_term :: Term where
  "nil_term = Literal (Atom (atm ''[]''))"

text \<open>
  The loop of \<open>as_partial_string\<close>: the characters gathered and the tail left, or \<open>None\<close> when
  an element is an atom of more than one character.
\<close>

fun partial_string_loop :: "uchar list \<Rightarrow> Term \<Rightarrow> (uchar list \<times> Term) option" where
  "partial_string_loop string (Cons prev succ) =
     (case prev of
        Literal (Atom a) \<Rightarrow>
          (case as_char a of
             Some c \<Rightarrow> partial_string_loop (string @ [c]) succ
           | None \<Rightarrow> None)
      | _ \<Rightarrow> Some (string, Cons prev succ))"
| "partial_string_loop string (PartialString pstr tail) = partial_string_loop (string @ pstr) tail"
| "partial_string_loop string (CompleteString cstr) = Some (string @ cstr, nil_term)"
| "partial_string_loop string tail = Some (string, tail)"

definition as_partial_string :: "Term \<Rightarrow> Term \<Rightarrow> Term + (uchar list \<times> Term option)" where
  "as_partial_string head tail =
     (case head of
        Literal (Atom a) \<Rightarrow>
          (case as_char a of
             None \<Rightarrow> Inl (Cons head tail)
           | Some c \<Rightarrow>
               (case partial_string_loop [c] tail of
                  None \<Rightarrow> Inl (Cons head tail)
                | Some (string, tail') \<Rightarrow>
                    (case tail' of
                       CompleteString s \<Rightarrow> Inr (string @ s, None)
                     | PartialString s t \<Rightarrow> Inr (string @ s, Some t)
                     | _ \<Rightarrow> if tail' = nil_term then Inr (string, None)
                            else Inr (string, Some tail'))))
      | _ \<Rightarrow> Inl (Cons head tail))"

text \<open>The \<open>match\<close> that both callers of \<open>as_partial_string\<close> apply to its result.\<close>

definition list_term :: "Term \<Rightarrow> Term \<Rightarrow> Term" where
  "list_term head tail =
     (case as_partial_string head tail of
        Inr (string_buf, Some tail') \<Rightarrow> PartialString string_buf tail'
      | Inr (string_buf, None) \<Rightarrow> CompleteString string_buf
      | Inl t \<Rightarrow> t)"

section \<open>Operator descriptors\<close>

record CompositeOpDesc =
  pre :: nat
  inf :: nat
  post :: nat
  cspec :: "32 word"

definition get_op_desc :: "atom \<Rightarrow> CompositeOpDir \<Rightarrow> CompositeOpDesc option" where
  "get_op_desc name op_dir =
     (let d0 = \<lparr>pre = 0, inf = 0, post = 0, cspec = 0\<rparr>;
          d1 = (case op_dir_get op_dir name FixPre of
                  None \<Rightarrow> d0
                | Some cell \<Rightarrow>
                    if get_prec cell > 0
                    then d0\<lparr>pre := get_prec cell, cspec := cspec d0 OR op_value (dspec cell)\<rparr>
                    else if name = atm ''-'' then d0\<lparr>cspec := cspec d0 OR NEGATIVE_SIGN\<rparr> else d0);
          d2 = (case op_dir_get op_dir name FixPost of
                  None \<Rightarrow> d1
                | Some cell \<Rightarrow>
                    if get_prec cell > 0
                    then d1\<lparr>post := get_prec cell, cspec := cspec d1 OR op_value (dspec cell)\<rparr>
                    else d1);
          d3 = (case op_dir_get op_dir name FixIn of
                  None \<Rightarrow> d2
                | Some cell \<Rightarrow>
                    if get_prec cell > 0
                    then d2\<lparr>inf := get_prec cell, cspec := cspec d2 OR op_value (dspec cell)\<rparr>
                    else d2)
      in if pre d3 + post d3 + inf d3 = 0 \<and> \<not> is_negate (cspec d3) then None else Some d3)"

definition affirm_xfx :: "nat \<Rightarrow> TokenDesc \<Rightarrow> TokenDesc \<Rightarrow> TokenDesc \<Rightarrow> bool" where
  "affirm_xfx p d2 d3 d1 \<longleftrightarrow>
     priority d2 \<le> p \<and> is_term (spec d3) \<and> is_term (spec d1) \<and>
     priority d3 < priority d2 \<and> priority d1 < priority d2"

definition affirm_yfx :: "nat \<Rightarrow> TokenDesc \<Rightarrow> TokenDesc \<Rightarrow> TokenDesc \<Rightarrow> bool" where
  "affirm_yfx p d2 d3 d1 \<longleftrightarrow>
     priority d2 \<le> p \<and>
     (is_term (spec d3) \<and> priority d3 < priority d2 \<or>
      is_lterm (spec d3) \<and> priority d3 = priority d2) \<and>
     is_term (spec d1) \<and> priority d1 < priority d2"

definition affirm_xfy :: "nat \<Rightarrow> TokenDesc \<Rightarrow> TokenDesc \<Rightarrow> TokenDesc \<Rightarrow> bool" where
  "affirm_xfy p d2 d3 d1 \<longleftrightarrow>
     priority d2 < p \<and> is_term (spec d3) \<and> priority d3 < priority d2 \<and>
     is_term (spec d1) \<and> priority d1 \<le> priority d2"

definition affirm_yf :: "TokenDesc \<Rightarrow> TokenDesc \<Rightarrow> bool" where
  "affirm_yf d1 d2 \<longleftrightarrow>
     is_term (spec d2) \<and> priority d2 < priority d1 \<or>
     is_lterm (spec d2) \<and> priority d2 = priority d1"

definition affirm_xf :: "TokenDesc \<Rightarrow> TokenDesc \<Rightarrow> bool" where
  "affirm_xf d1 d2 \<longleftrightarrow> is_term (spec d2) \<and> priority d2 < priority d1"

definition affirm_fy :: "nat \<Rightarrow> TokenDesc \<Rightarrow> TokenDesc \<Rightarrow> bool" where
  "affirm_fy p d1 d2 \<longleftrightarrow>
     priority d2 < p \<and> is_term (spec d1) \<and> priority d1 \<le> priority d2"

definition affirm_fx :: "nat \<Rightarrow> TokenDesc \<Rightarrow> TokenDesc \<Rightarrow> bool" where
  "affirm_fx p d1 d2 \<longleftrightarrow>
     priority d2 \<le> p \<and> is_term (spec d1) \<and> priority d1 < priority d2"

section \<open>The parser state\<close>

record Parser =
  plexer :: lexer
  tokens :: "Token list"
  stack :: "TokenDesc list"
  terms :: "Term list"

type_synonym 'a prs = "(Parser, ParserError, 'a) comp"

definition vec_at :: "'a list \<Rightarrow> nat \<Rightarrow> 'a" where
  "vec_at xs i = xs ! (length xs - 1 - i)"

definition from_lexer :: "lexer \<Rightarrow> Parser" where
  "from_lexer l = \<lparr>plexer = l, tokens = [], stack = [], terms = []\<rparr>"

definition incomplete_reduction :: "'a prs" where
  "incomplete_reduction p =
     (Inl (IncompleteReduction (line_num (plexer p)) (col_num (plexer p))), p)"

section \<open>Reading the tokens of a clause\<close>

function read_tokens_loop :: "lex_env \<Rightarrow> Token list \<Rightarrow> Token list lex" where
  "read_tokens_loop E acc s =
     (case next_token E s of
        (Inr token, s1) \<Rightarrow>
          if token_is_end token then (Inr (token # acc), s1)
          else read_tokens_loop E (token # acc) s1
      | (Inl e, s1) \<Rightarrow>
          if is_unexpected_eof e \<and> acc \<noteq> []
          then (Inl (IncompleteReduction (line_num s1) (col_num s1)), s1)
          else (Inl e, s1))"
  by pat_completeness auto
termination
  by (relation "measure (\<lambda>(E, acc, s). length (chars s))")
     (auto dest: next_token_less [OF sym])

declare read_tokens_loop.simps [simp del]

definition read_tokens :: "lex_env \<Rightarrow> Token list lex" where
  "read_tokens E = andThen (read_tokens_loop E []) (\<lambda>tokens. ret (rev tokens))"

definition atomize_term :: "Term \<Rightarrow> atom option" where
  "atomize_term t = (case t of Literal (Atom c) \<Rightarrow> Some c | _ \<Rightarrow> None)"

section \<open>Building operator terms\<close>

definition get_term_name :: "TokenDesc \<Rightarrow> Parser \<Rightarrow> atom option \<times> Parser" where
  "get_term_name td p =
     (case tt td of
        TyHeadTailSeparator \<Rightarrow> (Some (atm ''|''), p)
      | TyComma \<Rightarrow> (Some (atm '',''), p)
      | TyTerm \<Rightarrow>
          (case terms p of
             t # ts \<Rightarrow>
               (case t of Literal (Atom a) \<Rightarrow> (Some a, p\<lparr>terms := ts\<rparr>) | _ \<Rightarrow> (None, p))
           | [] \<Rightarrow> (None, p))
      | _ \<Rightarrow> (None, p))"

definition term_desc :: "nat \<Rightarrow> 32 word \<Rightarrow> TokenDesc" where
  "term_desc pri s = \<lparr>tt = TyTerm, priority = pri, spec = s, unfold_bounds = 0\<rparr>"

definition push_binary_op :: "TokenDesc \<Rightarrow> 32 word \<Rightarrow> Parser \<Rightarrow> Parser" where
  "push_binary_op td s p =
     (case terms p of
        [] \<Rightarrow> p
      | arg2 # ts \<Rightarrow>
          (case get_term_name td (p\<lparr>terms := ts\<rparr>) of
             (None, p1) \<Rightarrow> p1
           | (Some name, p1) \<Rightarrow>
               (case terms p1 of
                  [] \<Rightarrow> p1
                | arg1 # ts1 \<Rightarrow>
                    p1\<lparr>terms := Clause name [arg1, arg2] # ts1,
                       stack := term_desc (priority td) s # stack p1\<rparr>)))"

definition push_unary_op :: "TokenDesc \<Rightarrow> 32 word \<Rightarrow> OpDeclSpec \<Rightarrow> Parser \<Rightarrow> Parser" where
  "push_unary_op td s assoc p =
     (case terms p of
        [] \<Rightarrow> p
      | [_] \<Rightarrow> p\<lparr>terms := []\<rparr>
      | x # y # ts \<Rightarrow>
          (let (arg1, name) = (if op_is_postfix assoc then (y, x) else (x, y));
               p1 = p\<lparr>terms := ts\<rparr>
           in case name of
                Literal (Atom n) \<Rightarrow>
                  p1\<lparr>terms := Clause n [arg1] # ts,
                     stack := term_desc (priority td) s # stack p1\<rparr>
              | _ \<Rightarrow> p1))"

definition promote_atom_op :: "atom \<Rightarrow> nat \<Rightarrow> 32 word \<Rightarrow> Parser \<Rightarrow> Parser" where
  "promote_atom_op a pri assoc p =
     p\<lparr>terms := Literal (Atom a) # terms p, stack := term_desc pri assoc # stack p\<rparr>"

definition trim :: "uchar list \<Rightarrow> uchar list" where
  "trim cs = rev (dropWhile is_whitespace (rev (dropWhile is_whitespace cs)))"

definition code_list :: "uchar list \<Rightarrow> Term" where
  "code_list s =
     foldr (\<lambda>c l. Cons (Literal (LFixnum (build_with_unchecked (int c)))) l) s nil_term"

definition shift :: "Token \<Rightarrow> nat \<Rightarrow> 32 word \<Rightarrow> Parser \<Rightarrow> Parser" where
  "shift token pri s p =
     (let push_term = (\<lambda>t. (TyTerm, t # terms p));
          (ty, ts) =
            (case token of
               TString str \<Rightarrow>
                 push_term (if double_quotes (plexer p) = DQCodes then code_list str
                            else CompleteString str)
             | TLiteral c \<Rightarrow> push_term (Literal c)
             | TVar v \<Rightarrow> push_term (if trim v = atm ''_'' then AnonVar else Var v)
             | Comma \<Rightarrow> (TyComma, terms p)
             | Open \<Rightarrow> (TyOpen, terms p)
             | Close \<Rightarrow> (TyClose, terms p)
             | OpenCT \<Rightarrow> (TyOpenCT, terms p)
             | HeadTailSeparator \<Rightarrow> (TyHeadTailSeparator, terms p)
             | OpenList \<Rightarrow> (TyOpenList, terms p)
             | CloseList \<Rightarrow> (TyCloseList, terms p)
             | OpenCurly \<Rightarrow> (TyOpenCurly, terms p)
             | CloseCurly \<Rightarrow> (TyCloseCurly, terms p)
             | End \<Rightarrow> (TyEnd, terms p))
      in p\<lparr>terms := ts,
           stack := \<lparr>tt = ty, priority = pri, spec = s, unfold_bounds = 0\<rparr> # stack p\<rparr>)"

section \<open>Reducing operators\<close>

text \<open>One turn of the loop of \<open>reduce_op\<close>: \<open>Some\<close> when it continues, \<open>None\<close> at the break.\<close>

definition reduce_unary ::
  "nat \<Rightarrow> TokenDesc \<Rightarrow> TokenDesc \<Rightarrow> Parser \<Rightarrow> Parser option" where
  "reduce_unary pri desc1 desc2 p =
     (if is_kind YF (spec desc1) \<and> affirm_yf desc1 desc2 then Some (push_unary_op desc1 LTERM YF p)
      else if is_kind XF (spec desc1) \<and> affirm_xf desc1 desc2
      then Some (push_unary_op desc1 LTERM XF p)
      else if is_kind FY (spec desc2) \<and> affirm_fy pri desc1 desc2
      then Some (push_unary_op desc2 TERM' FY p)
      else if is_kind FX (spec desc2) \<and> affirm_fx pri desc1 desc2
      then Some (push_unary_op desc2 TERM' FX p)
      else None)"

definition reduce_op_step :: "nat \<Rightarrow> Parser \<Rightarrow> Parser option" where
  "reduce_op_step pri p =
     (case stack p of
        desc1 # desc2 # desc3 # rest \<Rightarrow>
          if is_kind XFX (spec desc2) \<and> affirm_xfx pri desc2 desc3 desc1 \<or>
             is_kind YFX (spec desc2) \<and> affirm_yfx pri desc2 desc3 desc1
          then Some (push_binary_op desc2 LTERM (p\<lparr>stack := rest\<rparr>))
          else if is_kind XFY (spec desc2) \<and> affirm_xfy pri desc2 desc3 desc1
          then Some (push_binary_op desc2 TERM' (p\<lparr>stack := rest\<rparr>))
          else reduce_unary pri desc1 desc2 (p\<lparr>stack := desc3 # rest\<rparr>)
      | [desc1, desc2] \<Rightarrow> reduce_unary pri desc1 desc2 (p\<lparr>stack := []\<rparr>)
      | _ \<Rightarrow> None)"

lemma push_binary_op_length: "length (stack (push_binary_op td s p)) \<le> Suc (length (stack p))"
  by (auto simp: push_binary_op_def get_term_name_def
      split: list.splits prod.splits option.splits TokenType.splits Term.splits Literal.splits)

lemma push_unary_op_length: "length (stack (push_unary_op td s a p)) \<le> Suc (length (stack p))"
  by (auto simp: push_unary_op_def Let_def
      split: list.splits prod.splits if_splits Term.splits Literal.splits)

lemma reduce_unary_length:
  assumes "reduce_unary pri d1 d2 p = Some q"
  shows "length (stack q) \<le> Suc (length (stack p))"
  using assms by (auto simp: reduce_unary_def push_unary_op_length split: if_splits)

lemma reduce_op_step_length:
  assumes "reduce_op_step pri p = Some q"
  shows "length (stack q) < length (stack p)"
proof -
  have bin: "length (stack (push_binary_op td s (p\<lparr>stack := rest\<rparr>))) \<le> Suc (length rest)"
    for td s rest
    using push_binary_op_length [of td s "p\<lparr>stack := rest\<rparr>"] by simp
  have un: "reduce_unary pri d1 d2 (p\<lparr>stack := rest\<rparr>) = Some q \<Longrightarrow>
      length (stack q) \<le> Suc (length rest)" for d1 d2 rest
    using reduce_unary_length [of pri d1 d2 "p\<lparr>stack := rest\<rparr>" q] by simp
  show ?thesis
    using assms
    by (auto simp: reduce_op_step_def le_imp_less_Suc bin less_Suc_eq_le le_SucI
        split: list.splits if_splits dest!: un)
qed

function reduce_op :: "nat \<Rightarrow> Parser \<Rightarrow> Parser" where
  "reduce_op pri p =
     (case reduce_op_step pri p of Some q \<Rightarrow> reduce_op pri q | None \<Rightarrow> p)"
  by pat_completeness auto
termination
  by (relation "measure (\<lambda>(pri, p). length (stack p))") (auto dest: reduce_op_step_length)

declare reduce_op.simps [simp del]

section \<open>Compound terms\<close>

fun arity_in_brackets_from :: "nat \<Rightarrow> nat \<Rightarrow> TokenDesc list \<Rightarrow> nat option" where
  "arity_in_brackets_from i arity [] = None"
| "arity_in_brackets_from i arity (desc # ds) =
     (if i mod 2 = 0 then
        (if tt desc = TyComma then None
         else if is_term (spec desc) \<or> is_op (spec desc) \<or> is_negate (spec desc)
         then arity_in_brackets_from (Suc i) (Suc arity) ds
         else None)
      else if tt desc = TyOpenCT then Some arity
      else if tt desc = TyComma then arity_in_brackets_from (Suc i) arity ds
      else None)"

definition compute_arity_in_brackets :: "Parser \<Rightarrow> nat option" where
  "compute_arity_in_brackets p = arity_in_brackets_from 0 0 (stack p)"

definition vec_truncate :: "nat \<Rightarrow> 'a list \<Rightarrow> 'a list" where
  "vec_truncate n xs = drop (length xs - n) xs"

text \<open>
  \<open>reduce_term\<close>: the arguments are drained from the terms in order, the functor is the atom
  below them, and the descriptor of the functor becomes that of the compound term.
\<close>

definition reduce_term :: "Parser \<Rightarrow> bool \<times> Parser" where
  "reduce_term p0 =
     (if stack p0 = [] then (False, p0)
      else
        let p = reduce_op 999 p0
        in case compute_arity_in_brackets p of
             None \<Rightarrow> (False, p)
           | Some arity \<Rightarrow>
               if \<not> length (stack p) > 2 * arity then (False, p)
               else
                 let idx = length (stack p) - 2 * arity - 1
                 in if is_infix (spec (vec_at (stack p) idx)) \<and> idx > 0 \<and>
                       \<not> is_op (spec (vec_at (stack p) (idx - 1))) \<and>
                       \<not> is_sep (tt (vec_at (stack p) (idx - 1)))
                    then (False, p)
                    else if length (terms p) < 1 + arity then (False, p)
                    else
                      let stack_len = length (stack p) - 2 * arity - 1;
                          tidx = length (terms p) - arity
                      in if tt (vec_at (stack p) stack_len) = TyTerm \<and>
                            atomize_term (vec_at (terms p) (tidx - 1)) \<noteq> None
                         then
                           let stk = vec_truncate (stack_len + 1) (stack p);
                               subterms = rev (take arity (terms p));
                               rest = drop arity (terms p)
                           in case atomize_term (hd rest) of
                                None \<Rightarrow> (False, p\<lparr>stack := stk, terms := tl rest\<rparr>)
                              | Some name \<Rightarrow>
                                  let t = (if name = atm ''.'' \<and> length subterms = 2
                                           then list_term (subterms ! 0) (subterms ! 1)
                                           else Clause name subterms);
                                      p1 = p\<lparr>stack := stk, terms := t # tl rest\<rparr>
                                  in case stk of
                                       [] \<Rightarrow> (True, p1)
                                     | d # ds \<Rightarrow>
                                         if spec d = BTERM then (False, p1)
                                         else (True, p1\<lparr>stack := term_desc 0 TERM' # ds\<rparr>)
                         else (False, p))"

definition reset :: "Parser \<Rightarrow> Parser" where
  "reset p = p\<lparr>stack := []\<rparr>"

section \<open>Lists\<close>

text \<open>The \<open>while let\<close> loop of \<open>expand_comma_compacted_terms\<close>.\<close>

function unfold_bounded :: "Term \<Rightarrow> 64 word \<Rightarrow> Term list \<Rightarrow> Term list" where
  "unfold_bounded t bounds acc =
     (case unfold_by_str_once t (atm '','') of
        (Some (fst', snd'), _) \<Rightarrow>
          if bounds - 2 = 0 then acc @ [fst', snd']
          else unfold_bounded snd' (bounds - 2) (acc @ [fst'])
      | (None, t') \<Rightarrow> acc @ [t'])"
  by pat_completeness auto
termination
  by (relation "measure (\<lambda>(t, b, acc). size t)") (auto dest: unfold_by_str_once_size [OF sym])

declare unfold_bounded.simps [simp del]

definition expand_comma_compacted_terms :: "nat \<Rightarrow> Parser \<Rightarrow> nat \<times> Parser" where
  "expand_comma_compacted_terms index p =
     (case terms p of
        [] \<Rightarrow> (0, p)
      | t # ts \<Rightarrow>
          let op_desc = vec_at (stack p) (index - 1)
          in if 0 < priority op_desc \<and> priority op_desc < priority (vec_at (stack p) index) \<and>
                term_name t = Some (atm '','') \<and> term_arity t = 2
             then
               let us = (if unfold_bounds op_desc = 0 then unfold_by_str t (atm '','')
                         else unfold_bounded t (unfold_bounds op_desc) [])
               in (length us - 1, p\<lparr>terms := rev us @ ts\<rparr>)
             else (0, p))"

fun arity_in_list_from :: "nat \<Rightarrow> nat \<Rightarrow> TokenDesc list \<Rightarrow> nat option" where
  "arity_in_list_from i arity [] = None"
| "arity_in_list_from i arity (desc # ds) =
     (if i mod 2 = 0 then
        (if tt desc = TyComma then None
         else if is_term (spec desc) \<or> is_op (spec desc) \<or> is_negate (spec desc)
         then arity_in_list_from (Suc i) (Suc arity) ds
         else None)
      else if tt desc = TyHeadTailSeparator
      then (if arity = 1 then arity_in_list_from (Suc i) arity ds else None)
      else if tt desc = TyOpenList then Some arity
      else if tt desc \<noteq> TyComma then None
      else arity_in_list_from (Suc i) arity ds)"

definition compute_arity_in_list :: "Parser \<Rightarrow> nat option" where
  "compute_arity_in_list p = arity_in_list_from 0 0 (stack p)"

text \<open>
  The second half of \<open>reduce_list\<close>: the elements are drained, folded from the last onto
  \<open>end_term\<close>, and the descriptors of the list are replaced by one term.
\<close>

definition build_list :: "nat \<Rightarrow> Term \<Rightarrow> nat \<Rightarrow> bool prs" where
  "build_list list_len end_term arity p =
     (if arity > length (terms p) then incomplete_reduction p
      else
        let l = foldl (\<lambda>acc t. Cons t acc) end_term (take arity (terms p));
            t = (case l of Cons h tl' \<Rightarrow> list_term h tl' | _ \<Rightarrow> l)
        in (Inr True,
            p\<lparr>stack := term_desc 0 TERM' # vec_truncate list_len (stack p),
              terms := t # drop arity (terms p)\<rparr>))"

definition reduce_list :: "bool prs" where
  "reduce_list p0 =
     (case stack p0 of
        [] \<Rightarrow> (Inr False, p0)
      | td # ds \<Rightarrow>
          if tt td = TyOpenList then
            (Inr True, p0\<lparr>stack := td\<lparr>spec := TERM', tt := TyTerm, priority := 0\<rparr> # ds,
                          terms := nil_term # terms p0\<rparr>)
          else
            let p = reduce_op 1000 p0
            in case compute_arity_in_list p of
                 None \<Rightarrow> (Inr False, p)
               | Some arity \<Rightarrow>
                   let idx = length (stack p) - 2;
                       list_len = length (stack p) - 2 * arity
                   in if tt (vec_at (stack p) idx) \<noteq> TyHeadTailSeparator
                      then build_list list_len nil_term arity p
                      else
                        case terms p of
                          [] \<Rightarrow> incomplete_reduction p
                        | end_term # ts \<Rightarrow>
                            (case (if priority (vec_at (stack p) idx) > 1000
                                   then expand_comma_compacted_terms idx (p\<lparr>terms := ts\<rparr>)
                                   else (0, p\<lparr>terms := ts\<rparr>)) of
                               (k, p1) \<Rightarrow> build_list list_len end_term (arity + k - 1) p1))"

section \<open>Curly terms and brackets\<close>

definition reduce_curly :: "bool prs" where
  "reduce_curly p0 =
     (case stack p0 of
        [] \<Rightarrow> (Inr False, p0)
      | td0 # ds0 \<Rightarrow>
          if tt td0 = TyOpenCurly then
            (Inr True, p0\<lparr>stack := td0\<lparr>tt := TyTerm, priority := 0, spec := TERM'\<rparr> # ds0,
                          terms := Literal (Atom (atm ''{}'')) # terms p0\<rparr>)
          else
            let p = reduce_op 1201 p0
            in case stack p of
                 td # oc # ds \<Rightarrow>
                   if tt td \<noteq> TyTerm then (Inr False, p\<lparr>stack := oc # ds\<rparr>)
                   else if tt oc = TyOpenCurly then
                     let p1 = p\<lparr>stack := oc\<lparr>tt := TyTerm, priority := 0, spec := TERM'\<rparr> # ds\<rparr>
                     in case terms p1 of
                          [] \<Rightarrow> incomplete_reduction p1
                        | t # ts \<Rightarrow> (Inr True, p1\<lparr>terms := Clause (atm ''{}'') [t] # ts\<rparr>)
                   else (Inr False, p\<lparr>stack := oc # ds\<rparr>)
               | _ \<Rightarrow> (Inr False, p))"

definition reduce_brackets :: "Parser \<Rightarrow> bool \<times> Parser" where
  "reduce_brackets p0 =
     (if stack p0 = [] then (False, p0)
      else
        let p = reduce_op 1400 p0
        in case stack p of
             d # td # ds \<Rightarrow>
               if tt d = TyOpen \<or> tt d = TyOpenCT then (False, p)
               else if tt td = TyOpen \<or> tt td = TyOpenCT then
                 (if tt d = TyComma then (False, p\<lparr>stack := d # ds\<rparr>)
                  else
                    let ts = (case sep_to_atom (tt d) of
                                Some a \<Rightarrow> Literal (Atom a) # terms p
                              | None \<Rightarrow> terms p)
                    in (True, p\<lparr>stack := d\<lparr>spec := BTERM, tt := TyTerm, priority := 0\<rparr> # ds,
                                terms := ts\<rparr>))
               else (False, p\<lparr>stack := d # ds\<rparr>)
           | _ \<Rightarrow> (False, p))"

section \<open>Shifting tokens\<close>

definition infix_postfix_mask :: "32 word" where
  "infix_postfix_mask =
     op_value XFX OR op_value XFY OR op_value YFX OR op_value YF OR op_value XF"

definition prefix_mask :: "32 word" where
  "prefix_mask = op_value FX OR op_value FY OR NEGATIVE_SIGN"

definition shift_op :: "atom \<Rightarrow> CompositeOpDir \<Rightarrow> bool prs" where
  "shift_op name op_dir p =
     (case get_op_desc name op_dir of
        None \<Rightarrow> (Inr False, p)
      | Some d \<Rightarrow>
          if pre d > 0 \<and> inf d + post d > 0 \<or> is_negate (cspec d) then
            (case tokens p of
               [] \<Rightarrow> (Inl unexpected_eof, p)
             | token # _ \<Rightarrow>
                 let p1 = reduce_op (inf d + post d) p;
                     as_infix = promote_atom_op name (inf d + post d) (cspec d AND infix_postfix_mask) p1
                 in if token = OpenCT then (Inr True, as_infix)
                    else
                      (case stack p1 of
                         pdesc # _ \<Rightarrow>
                           if is_term (spec pdesc) then (Inr True, as_infix)
                           else (Inr True, promote_atom_op name (pre d) (cspec d AND prefix_mask) p1)
                       | [] \<Rightarrow> (Inr True, promote_atom_op name (pre d) (cspec d AND prefix_mask) p1)))
          else
            let n = pre d + inf d + post d
            in (Inr True, promote_atom_op name n (cspec d) (reduce_op n p)))"

text \<open>
  \<open>negate_number\<close>: \<open>lit\<close> is \<open>constr(n)\<close> and \<open>neg\<close> is \<open>constr(negator(n))\<close>. A sign that
  stands right before a number is folded into it.
\<close>

definition negate_number :: "Literal \<Rightarrow> Literal \<Rightarrow> Parser \<Rightarrow> Parser" where
  "negate_number lit neg p =
     (case (stack p, terms p) of
        (desc # ds, Literal (Atom name) # ts) \<Rightarrow>
          if name = atm ''-'' \<and> (is_prefix (spec desc) \<or> is_negate (spec desc))
          then shift (TLiteral neg) 0 TERM' (p\<lparr>stack := ds, terms := ts\<rparr>)
          else shift (TLiteral lit) 0 TERM' p
      | _ \<Rightarrow> shift (TLiteral lit) 0 TERM' p)"

text \<open>IEEE 754 binary64: negation flips the sign bit.\<close>

definition f64_neg :: "f64 \<Rightarrow> f64" where
  "f64_neg x = x XOR 0x8000000000000000"

definition f64_is_infinite :: "f64 \<Rightarrow> bool" where
  "f64_is_infinite x \<longleftrightarrow> x AND 0x7FFFFFFFFFFFFFFF = 0x7FF0000000000000"

definition set_unfold_bounds :: "64 word \<Rightarrow> Parser \<Rightarrow> Parser" where
  "set_unfold_bounds n p =
     (case stack p of [] \<Rightarrow> p | d # ds \<Rightarrow> p\<lparr>stack := d\<lparr>unfold_bounds := n\<rparr> # ds\<rparr>)"

definition check_reduced :: "bool \<times> Parser \<Rightarrow> (ParserError + unit) \<times> Parser" where
  "check_reduced r = (case r of (ok, p) \<Rightarrow> if ok then (Inr (), p) else incomplete_reduction p)"

definition shift_token :: "Token \<Rightarrow> CompositeOpDir \<Rightarrow> unit prs" where
  "shift_token token op_dir p =
     (case token of
        TString string \<Rightarrow> (Inr (), shift (TString string) 0 TERM' p)
      | TLiteral c \<Rightarrow>
          (case c of
             Integer n \<Rightarrow> (Inr (), negate_number c (Integer (- n)) p)
           | Rational n d \<Rightarrow> (Inr (), negate_number c (Rational (- n) d) p)
           | F64 n \<Rightarrow>
               if f64_is_infinite n
               then (Inl (InfiniteFloat (line_num (plexer p)) (col_num (plexer p))), p)
               else (Inr (), negate_number c (F64 (f64_neg n)) p)
           | LFixnum n \<Rightarrow> (Inr (), negate_number c (LFixnum (fixnum_neg n)) p)
           | Atom name \<Rightarrow>
               andThen (shift_op name op_dir)
                 (\<lambda>is_operator. if is_operator then ret () else modify (shift token 0 TERM')) p
           | _ \<Rightarrow> (Inr (), shift token 0 TERM' p))
      | TVar v \<Rightarrow> (Inr (), shift (TVar v) 0 TERM' p)
      | Open \<Rightarrow> (Inr (), shift Open 1300 DELIMITER p)
      | OpenCT \<Rightarrow> (Inr (), shift OpenCT 1300 DELIMITER p)
      | Close \<Rightarrow>
          (case reduce_term p of
             (True, p1) \<Rightarrow> (Inr (), p1)
           | (False, p1) \<Rightarrow> check_reduced (reduce_brackets p1))
      | OpenList \<Rightarrow> (Inr (), shift OpenList 1300 DELIMITER p)
      | CloseList \<Rightarrow>
          andThen reduce_list (\<lambda>ok. if ok then ret () else incomplete_reduction) p
      | OpenCurly \<Rightarrow> (Inr (), shift OpenCurly 1300 DELIMITER p)
      | CloseCurly \<Rightarrow>
          andThen reduce_curly (\<lambda>ok. if ok then ret () else incomplete_reduction) p
      | HeadTailSeparator \<Rightarrow>
          let (pri, s) = (case get_op_desc (atm ''|'') op_dir of
                            Some d \<Rightarrow> (inf d, cspec d) | None \<Rightarrow> (1000, DELIMITER));
              p1 = reduce_op pri p;
              n = of_nat (length (stack p) - length (stack p1))
          in (Inr (), shift HeadTailSeparator pri s (set_unfold_bounds n p1))
      | Comma \<Rightarrow> (Inr (), shift Comma 1000 (op_value XFY) (reduce_op 1000 p))
      | End \<Rightarrow>
          (case stack p of
             [] \<Rightarrow> (Inr (), p)
           | d # _ \<Rightarrow>
               if tt d \<in> {TyOpen, TyOpenCT, TyOpenList, TyOpenCurly, TyHeadTailSeparator, TyComma}
               then incomplete_reduction p else (Inr (), p)))"

definition add_lines_read :: "nat \<Rightarrow> Parser \<Rightarrow> Parser" where
  "add_lines_read n p = p\<lparr>plexer := plexer p\<lparr>line_num := line_num (plexer p) + n\<rparr>\<rparr>"

definition lines_read :: "Parser \<Rightarrow> nat" where
  "lines_read p = line_num (plexer p)"

section \<open>What the reductions leave alone\<close>

text \<open>No reduction touches the token queue or the lexer.\<close>

definition same_input :: "Parser \<Rightarrow> Parser \<Rightarrow> bool" where
  "same_input p q \<longleftrightarrow> tokens q = tokens p \<and> plexer q = plexer p"

lemma same_input_refl [simp]: "same_input p p"
  by (simp add: same_input_def)

lemma same_input_trans: "same_input p q \<Longrightarrow> same_input q r \<Longrightarrow> same_input p r"
  by (simp add: same_input_def)

lemma same_input_update [simp]:
  "same_input p (q\<lparr>stack := s\<rparr>) = same_input p q"
  "same_input p (q\<lparr>terms := ts\<rparr>) = same_input p q"
  "same_input (q\<lparr>stack := s\<rparr>) p = same_input q p"
  "same_input (q\<lparr>terms := ts\<rparr>) p = same_input q p"
  by (simp_all add: same_input_def)

lemma same_input_push_binary_op: "same_input p (push_binary_op td s p)"
  by (auto simp: push_binary_op_def get_term_name_def same_input_def
      split: list.splits prod.splits option.splits TokenType.splits Term.splits Literal.splits)

lemma same_input_push_unary_op: "same_input p (push_unary_op td s a p)"
  by (auto simp: push_unary_op_def Let_def same_input_def
      split: list.splits prod.splits if_splits Term.splits Literal.splits)

lemma same_input_reduce_op_step:
  assumes "reduce_op_step pri p = Some q"
  shows "same_input p q"
proof -
  have "same_input p (push_binary_op td s (p\<lparr>stack := rest\<rparr>))"
    and "same_input p (push_unary_op td s a (p\<lparr>stack := rest\<rparr>))" for td s a rest
    using same_input_push_binary_op [of "p\<lparr>stack := rest\<rparr>"]
      same_input_push_unary_op [of "p\<lparr>stack := rest\<rparr>"] by simp_all
  with assms show ?thesis
    by (auto simp: reduce_op_step_def reduce_unary_def split: list.splits if_splits)
qed

text \<open>A property that every turn of the loop keeps holds after \<open>reduce_op\<close>.\<close>

lemma reduce_op_steps [consumes 1, case_names step]:
  assumes "P p" and "\<And>p q. P p \<Longrightarrow> reduce_op_step pri p = Some q \<Longrightarrow> P q"
  shows "P (reduce_op pri p)"
  using assms(1)
proof (induction "length (stack p)" arbitrary: p rule: less_induct)
  case less
  show ?case
  proof (cases "reduce_op_step pri p")
    case None
    then show ?thesis using less.prems by (simp add: reduce_op.simps [of pri p])
  next
    case (Some q)
    with less.hyps [of q] less.prems assms(2) reduce_op_step_length [OF Some]
    show ?thesis by (simp add: reduce_op.simps [of pri p])
  qed
qed

lemma same_input_reduce_op: "same_input p (reduce_op pri p)"
  by (rule reduce_op_steps [where P = "same_input p"])
     (auto intro: same_input_trans same_input_reduce_op_step)

lemma reduce_op_input [simp]:
  "tokens (reduce_op pri p) = tokens p" "plexer (reduce_op pri p) = plexer p"
  using same_input_reduce_op [of p pri] by (simp_all add: same_input_def)

lemma shift_input [simp]:
  "tokens (shift token pri s p) = tokens p" "plexer (shift token pri s p) = plexer p"
  by (simp_all add: shift_def Let_def split: prod.splits)

lemma promote_atom_op_input [simp]:
  "tokens (promote_atom_op a pri s p) = tokens p" "plexer (promote_atom_op a pri s p) = plexer p"
  by (simp_all add: promote_atom_op_def)

lemma negate_number_input [simp]:
  "tokens (negate_number l n p) = tokens p" "plexer (negate_number l n p) = plexer p"
  by (simp_all add: negate_number_def split: list.splits Term.splits Literal.splits)

lemma set_unfold_bounds_input [simp]:
  "tokens (set_unfold_bounds n p) = tokens p" "plexer (set_unfold_bounds n p) = plexer p"
  by (simp_all add: set_unfold_bounds_def split: list.splits)

lemma reduce_term_input:
  "tokens (snd (reduce_term p)) = tokens p" "plexer (snd (reduce_term p)) = plexer p"
  by (simp_all add: reduce_term_def Let_def split: option.splits list.splits)

lemma reduce_brackets_input:
  "tokens (snd (reduce_brackets p)) = tokens p" "plexer (snd (reduce_brackets p)) = plexer p"
  by (simp_all add: reduce_brackets_def Let_def split: list.splits)

lemma expand_input:
  "tokens (snd (expand_comma_compacted_terms i p)) = tokens p"
  "plexer (snd (expand_comma_compacted_terms i p)) = plexer p"
  by (simp_all add: expand_comma_compacted_terms_def Let_def split: list.splits)

lemma build_list_input:
  "tokens (snd (build_list n e k p)) = tokens p" "plexer (snd (build_list n e k p)) = plexer p"
  by (simp_all add: build_list_def incomplete_reduction_def Let_def)

lemma reduce_list_input:
  "tokens (snd (reduce_list p)) = tokens p" "plexer (snd (reduce_list p)) = plexer p"
  by (simp_all add: reduce_list_def incomplete_reduction_def Let_def expand_input build_list_input
      case_prod_beta split: list.splits option.splits)

lemma reduce_curly_input:
  "tokens (snd (reduce_curly p)) = tokens p" "plexer (snd (reduce_curly p)) = plexer p"
  by (simp_all add: reduce_curly_def incomplete_reduction_def Let_def split: list.splits)

lemma shift_op_input:
  "tokens (snd (shift_op name od p)) = tokens p" "plexer (snd (shift_op name od p)) = plexer p"
  by (simp_all add: shift_op_def Let_def split: option.splits list.splits)

lemma same_input_andThen:
  assumes "\<And>p. same_input p (snd (m p))" and "\<And>a p. same_input p (snd (f a p))"
  shows "same_input p (snd (andThen m f p))"
  using assms(1) [of p] assms(2)
  by (auto simp: andThen_run intro: same_input_trans split: prod.splits sum.splits)

lemma same_input_simps:
  "same_input p (snd (ret a p))"
  "same_input p (snd (incomplete_reduction p))"
  "same_input p (snd (modify (shift token pri s) p))"
  "same_input p (snd (shift_op name od p))"
  "same_input p (snd (reduce_list p))"
  "same_input p (snd (reduce_curly p))"
  "same_input p (snd (reduce_term p))"
  "same_input p (snd (reduce_brackets p))"
  by (simp_all add: same_input_def run_simps incomplete_reduction_def shift_op_input
      reduce_list_input reduce_curly_input reduce_term_input reduce_brackets_input)

lemma same_input_close:
  "same_input p (snd (case reduce_term p of (True, p1) \<Rightarrow> (Inr (), p1)
     | (False, p1) \<Rightarrow> check_reduced (reduce_brackets p1)))"
proof -
  obtain b p1 where rt: "reduce_term p = (b, p1)" by fastforce
  obtain c p2 where rb: "reduce_brackets p1 = (c, p2)" by fastforce
  have "same_input p p1" using same_input_simps(7) [of p] rt by simp
  moreover have "same_input p1 p2" using same_input_simps(8) [of p1] rb by simp
  ultimately show ?thesis
    by (auto simp: rt rb check_reduced_def incomplete_reduction_def intro: same_input_trans
        split: bool.splits)
qed

lemma same_input_shift_token: "same_input p (snd (shift_token token od p))"
proof (cases token)
  case (TLiteral c)
  show ?thesis
  proof (cases c)
    case (Atom a)
    have "same_input p (snd (andThen (shift_op a od)
        (\<lambda>b. if b then ret () else modify (shift (TLiteral (Atom a)) 0 TERM')) p))"
      by (rule same_input_andThen) (simp_all add: same_input_simps)
    then show ?thesis using TLiteral Atom by (simp add: shift_token_def)
  qed (simp_all add: shift_token_def TLiteral same_input_def)
next
  case Close
  with same_input_close [of p] show ?thesis by (simp add: shift_token_def)
next
  case CloseList
  have "same_input p (snd (andThen reduce_list (\<lambda>ok. if ok then ret () else incomplete_reduction) p))"
    by (rule same_input_andThen) (simp_all add: same_input_simps)
  then show ?thesis by (simp add: shift_token_def CloseList)
next
  case CloseCurly
  have "same_input p (snd (andThen reduce_curly (\<lambda>ok. if ok then ret () else incomplete_reduction) p))"
    by (rule same_input_andThen) (simp_all add: same_input_simps)
  then show ?thesis by (simp add: shift_token_def CloseCurly)
qed (simp_all add: shift_token_def same_input_def incomplete_reduction_def Let_def
    split: list.splits prod.splits)

section \<open>Reading a term\<close>

function parse_loop :: "CompositeOpDir \<Rightarrow> unit prs" where
  "parse_loop op_dir p =
     (case tokens p of
        [] \<Rightarrow> (Inr (), p)
      | token # rest \<Rightarrow>
          (case shift_token token op_dir (p\<lparr>tokens := rest\<rparr>) of
             (Inl e, p1) \<Rightarrow> (Inl e, p1)
           | (Inr _, p1) \<Rightarrow> parse_loop op_dir p1))"
  by pat_completeness auto
termination
proof (relation "measure (\<lambda>(od, p). length (tokens p))", goal_cases)
  case (2 op_dir p token rest r p1 u)
  then show ?case
    using same_input_shift_token [of "p\<lparr>tokens := rest\<rparr>" token op_dir]
    by (metis (no_types, lifting) Parser.select_convs(2) Parser.surjective Parser.update_convs(2)
        case_prod_conv in_measure length_Cons lessI same_input_def snd_conv)
qed simp

declare parse_loop.simps [simp del]

definition fetch_tokens :: "lex_env \<Rightarrow> Tokens \<Rightarrow> unit prs" where
  "fetch_tokens E tks p =
     (case tks of
        Default \<Rightarrow>
          (case read_tokens E (plexer p) of
             (Inl e, l) \<Rightarrow> (Inl e, p\<lparr>plexer := l\<rparr>)
           | (Inr ts, l) \<Rightarrow> (Inr (), p\<lparr>plexer := l, tokens := ts\<rparr>))
      | Provided ts \<Rightarrow> (Inr (), p\<lparr>tokens := ts\<rparr>))"

definition finish_term :: "Term prs" where
  "finish_term p0 =
     (let p = reduce_op 1400 p0
      in if length (terms p) > 1 \<or> length (stack p) > 1 then incomplete_reduction p
         else case terms p of
                [] \<Rightarrow> incomplete_reduction p
              | t # ts \<Rightarrow>
                  (let p1 = p\<lparr>terms := ts\<rparr>
                   in if ts = [] then (Inr t, p1) else incomplete_reduction p1))"

definition read_term :: "lex_env \<Rightarrow> CompositeOpDir \<Rightarrow> Tokens \<Rightarrow> Term prs" where
  "read_term E op_dir tks =
     andThen (fetch_tokens E tks) (\<lambda>_. andThen (parse_loop op_dir) (\<lambda>_. finish_term))"

section \<open>Strings stand for lists of characters\<close>

text \<open>\<open>expand\<close> writes every string of a term out as the list of its characters.\<close>

definition chars_onto :: "uchar list \<Rightarrow> Term \<Rightarrow> Term" where
  "chars_onto s t = foldr (\<lambda>c l. Cons (Literal (Atom [c])) l) s t"

fun expand :: "Term \<Rightarrow> Term" where
  "expand (Cons h t) = Cons (expand h) (expand t)"
| "expand (PartialString s t) = chars_onto s (expand t)"
| "expand (CompleteString s) = chars_onto s nil_term"
| "expand (Clause f ts) = Clause f (map expand ts)"
| "expand t = t"

lemma chars_onto_simps [simp]:
  "chars_onto [] t = t" "chars_onto (c # s) t = Cons (Literal (Atom [c])) (chars_onto s t)"
  "chars_onto (s @ r) t = chars_onto s (chars_onto r t)"
  by (simp_all add: chars_onto_def)

lemma expand_nil_term [simp]: "expand nil_term = nil_term"
  by (simp add: nil_term_def)

lemma as_char_Some: "as_char a = Some c \<longleftrightarrow> a = [c]"
  by (auto simp: as_char_def split: list.splits)

lemma expand_partial_string_loop:
  "partial_string_loop acc t = Some (s, t') \<Longrightarrow>
     chars_onto acc (expand t) = chars_onto s (expand t')"
proof (induction acc t rule: partial_string_loop.induct)
  case (1 string prev succ)
  show ?case
  proof (cases "\<exists>a. prev = Literal (Atom a)")
    case True
    then obtain a where a: "prev = Literal (Atom a)" by blast
    with 1 obtain c where "as_char a = Some c" by (auto split: option.splits)
    with 1 a show ?thesis by (simp add: as_char_Some)
  next
    case False
    with 1 show ?thesis by (auto split: Term.splits Literal.splits)
  qed
qed auto

lemma expand_list_term: "expand (list_term h t) = Cons (expand h) (expand t)"
proof (cases "\<exists>c. h = Literal (Atom [c])")
  case True
  then obtain c where h: "h = Literal (Atom [c])" by blast
  show ?thesis
  proof (cases "partial_string_loop [c] t")
    case None
    then show ?thesis by (simp add: list_term_def as_partial_string_def h as_char_def)
  next
    case (Some r)
    then obtain s t' where r: "partial_string_loop [c] t = Some (s, t')" by (cases r) auto
    from expand_partial_string_loop [OF r] r show ?thesis
      by (cases t') (auto simp: list_term_def as_partial_string_def h as_char_def nil_term_def)
  qed
next
  case False
  then have "list_term h t = Cons h t"
    by (auto simp: list_term_def as_partial_string_def as_char_def
        split: Term.splits Literal.splits list.splits)
  then show ?thesis by simp
qed

end
