(* ===== verification/ParserGrammar.thy ===== *)
theory ParserGrammar
  imports Parser
begin

text \<open>
  The grammar the parser of \<open>parser.rs\<close> implements, as an inductive specification over token
  sequences, and the proof that every term the parser returns derives from the tokens it was
  given. \<open>derives\<close> says that a segment of tokens is a term of a priority, with the argument
  bounds of \<open>xfx\<close>, \<open>xfy\<close>, \<open>yfx\<close>, \<open>fx\<close>, \<open>fy\<close>, \<open>xf\<close> and \<open>yf\<close>;
  \<open>operand\<close> adds the operator atoms that may stand alone inside brackets and argument
  positions; \<open>args\<close> is a comma-separated list of operands.
\<close>

section \<open>Operator tables\<close>

definition op_entry :: "CompositeOpDir \<Rightarrow> atom \<Rightarrow> OpDeclSpec \<Rightarrow> nat \<Rightarrow> bool" where
  "op_entry od name k n \<longleftrightarrow>
     (case op_dir_get od name (op_fixity k) of
        None \<Rightarrow> False | Some d \<Rightarrow> dspec d = k \<and> get_prec d = n \<and> n > 0)"

text \<open>
  What \<open>op/3\<close> guarantees of the table: an entry stands under its fixity, and no name is both
  an infix and a postfix operator.
\<close>

definition op_dir_ok :: "CompositeOpDir \<Rightarrow> bool" where
  "op_dir_ok od \<longleftrightarrow>
     (\<forall>name fixity d. op_dir_get od name fixity = Some d \<longrightarrow> op_fixity (dspec d) = fixity) \<and>
     (\<forall>name d e. op_dir_get od name FixIn = Some d \<and> op_dir_get od name FixPost = Some e \<longrightarrow>
        get_prec d = 0 \<or> get_prec e = 0)"

definition left_ok :: "OpDeclSpec \<Rightarrow> nat \<Rightarrow> nat \<Rightarrow> bool" where
  "left_ok k n1 n \<longleftrightarrow> (if is_strict_left k then n1 < n else n1 \<le> n)"

definition right_ok :: "OpDeclSpec \<Rightarrow> nat \<Rightarrow> nat \<Rightarrow> bool" where
  "right_ok k n2 n \<longleftrightarrow> (if is_strict_right k then n2 < n else n2 \<le> n)"

text \<open>An infix operator is an atom of the table, or the comma.\<close>

definition infix_token :: "CompositeOpDir \<Rightarrow> Token \<Rightarrow> atom \<Rightarrow> OpDeclSpec \<Rightarrow> nat \<Rightarrow> bool" where
  "infix_token od tok name k n \<longleftrightarrow>
     tok = TLiteral (Atom name) \<and> op_entry od name k n \<or>
     tok = Comma \<and> name = atm '','' \<and> k = XFY \<and> n = 1000"

section \<open>The grammar\<close>

text \<open>The value of a number token, and of a sign and a number token.\<close>

definition number_literal :: "Literal \<Rightarrow> bool" where
  "number_literal l \<longleftrightarrow>
     (case l of Integer _ \<Rightarrow> True | Rational _ _ \<Rightarrow> True | LFixnum _ \<Rightarrow> True
              | F64 x \<Rightarrow> \<not> f64_is_infinite x | _ \<Rightarrow> False)"

fun negated :: "Literal \<Rightarrow> Literal" where
  "negated (Integer n) = Integer (- n)"
| "negated (Rational n d) = Rational (- n) d"
| "negated (LFixnum f) = LFixnum (fixnum_neg f)"
| "negated (F64 x) = F64 (f64_neg x)"
| "negated l = l"

definition compound :: "atom \<Rightarrow> Term list \<Rightarrow> Term" where
  "compound name ts =
     (if name = atm ''.'' \<and> length ts = 2 then list_term (ts ! 0) (ts ! 1) else Clause name ts)"

definition list_of :: "Term list \<Rightarrow> Term \<Rightarrow> Term" where
  "list_of ts end_term =
     (let l = foldr Cons ts end_term in case l of Cons h t \<Rightarrow> list_term h t | _ \<Rightarrow> l)"

definition string_term :: "DoubleQuotes \<Rightarrow> uchar list \<Rightarrow> Term" where
  "string_term dq s = (if dq = DQCodes then code_list s else CompleteString s)"

definition var_term :: "uchar list \<Rightarrow> Term" where
  "var_term v = (if trim v = atm ''_'' then AnonVar else Var v)"

definition bare_atom :: "CompositeOpDir \<Rightarrow> atom \<Rightarrow> bool" where
  "bare_atom od a \<longleftrightarrow>
     get_op_desc a od = None \<or>
     a = atm ''-'' \<and> (\<exists>d. get_op_desc a od = Some d \<and> is_negate (cspec d))"

inductive derives :: "CompositeOpDir \<Rightarrow> DoubleQuotes \<Rightarrow> Token list \<Rightarrow> nat \<Rightarrow> Term \<Rightarrow> bool"
  and operand :: "CompositeOpDir \<Rightarrow> DoubleQuotes \<Rightarrow> Token list \<Rightarrow> Term \<Rightarrow> bool"
  and args :: "CompositeOpDir \<Rightarrow> DoubleQuotes \<Rightarrow> Token list \<Rightarrow> Term list \<Rightarrow> bool"
  for od dq where
  d_atom: "bare_atom od a \<Longrightarrow> derives od dq [TLiteral (Atom a)] 0 (Literal (Atom a))"
| d_index: "derives od dq [TLiteral (CodeIndexOffset i)] 0 (Literal (CodeIndexOffset i))"
| d_number: "number_literal l \<Longrightarrow> derives od dq [TLiteral l] 0 (Literal l)"
| d_negative: "number_literal l \<Longrightarrow>
    derives od dq [TLiteral (Atom (atm ''-'')), TLiteral l] 0 (Literal (negated l))"
| d_var: "derives od dq [TVar v] 0 (var_term v)"
| d_string: "derives od dq [TString s] 0 (string_term dq s)"
| d_infix: "derives od dq s1 n1 t1 \<Longrightarrow> infix_token od tok name k n \<Longrightarrow> derives od dq s2 n2 t2 \<Longrightarrow>
    op_is_infix k \<Longrightarrow> left_ok k n1 n \<Longrightarrow> right_ok k n2 n \<Longrightarrow>
    derives od dq (s1 @ tok # s2) n (Clause name [t1, t2])"
| d_prefix: "op_entry od name k n \<Longrightarrow> op_is_prefix k \<Longrightarrow> derives od dq s n1 t \<Longrightarrow> right_ok k n1 n \<Longrightarrow>
    derives od dq (TLiteral (Atom name) # s) n (Clause name [t])"
| d_postfix: "derives od dq s n1 t \<Longrightarrow> op_entry od name k n \<Longrightarrow> op_is_postfix k \<Longrightarrow> left_ok k n1 n \<Longrightarrow>
    derives od dq (s @ [TLiteral (Atom name)]) n (Clause name [t])"
| d_brackets: "operand od dq s t \<Longrightarrow> b = Open \<or> b = OpenCT \<Longrightarrow> derives od dq (b # s @ [Close]) 0 t"
| d_bracketed_separator: "b = Open \<or> b = OpenCT \<Longrightarrow>
    (tok, a) \<in> {(OpenList, atm ''[''), (OpenCurly, atm ''{''), (HeadTailSeparator, atm ''|'')} \<Longrightarrow>
    derives od dq [b, tok, Close] 0 (Literal (Atom a))"
| d_compound: "operand od dq s (Literal (Atom name)) \<Longrightarrow> s \<noteq> [] \<Longrightarrow> last s \<noteq> Close \<Longrightarrow> args od dq as ts \<Longrightarrow>
    derives od dq (s @ OpenCT # as @ [Close]) 0 (compound name ts)"
| d_nil: "derives od dq [OpenList, CloseList] 0 nil_term"
| d_list: "args od dq as ts \<Longrightarrow> derives od dq (OpenList # as @ [CloseList]) 0 (list_of ts nil_term)"
| d_partial_list: "args od dq as ts \<Longrightarrow> operand od dq s t \<Longrightarrow>
    derives od dq (OpenList # as @ HeadTailSeparator # s @ [CloseList]) 0 (list_of ts t)"
| d_empty_curly: "derives od dq [OpenCurly, CloseCurly] 0 (Literal (Atom (atm ''{}'')))"
| d_curly: "operand od dq s t \<Longrightarrow>
    derives od dq (OpenCurly # s @ [CloseCurly]) 0 (Clause (atm ''{}'') [t])"
| o_term: "derives od dq s n t \<Longrightarrow> operand od dq s t"
| o_operator: "get_op_desc a od \<noteq> None \<Longrightarrow> operand od dq [TLiteral (Atom a)] (Literal (Atom a))"
| a_one: "operand od dq s t \<Longrightarrow> args od dq s [t]"
| a_more: "args od dq as ts \<Longrightarrow> operand od dq s t \<Longrightarrow> args od dq (as @ Comma # s) (ts @ [t])"

section \<open>The parser's stack as a parse of the tokens consumed\<close>

definition op_item :: "CompositeOpDir \<Rightarrow> TokenDesc \<Rightarrow> atom \<Rightarrow> bool" where
  "op_item od d name \<longleftrightarrow>
     get_op_desc name od \<noteq> None \<and> \<not> is_term (spec d) \<and> \<not> is_lterm (spec d) \<and>
     (\<forall>k. is_kind k (spec d) \<longrightarrow> op_entry od name k (priority d))"

definition item :: "CompositeOpDir \<Rightarrow> DoubleQuotes \<Rightarrow> TokenDesc \<Rightarrow> Term \<Rightarrow> Token list \<Rightarrow> bool" where
  "item od dq d t seg \<longleftrightarrow>
     tt d = TyTerm \<and>
     (derives od dq seg (priority d) t \<and> seg \<noteq> [] \<and>
        (spec d = TERM' \<or> spec d = LTERM \<or> spec d = BTERM \<and> last seg = Close \<or>
         spec d = NEGATIVE_SIGN \<and> seg = [TLiteral (Atom (atm ''-''))] \<and> t = Literal (Atom (atm ''-''))) \<or>
      (\<exists>name. seg = [TLiteral (Atom name)] \<and> t = Literal (Atom name) \<and> op_item od d name))"

definition separator :: "TokenDesc \<Rightarrow> Token \<Rightarrow> bool" where
  "separator d tok \<longleftrightarrow>
     tt d = TyComma \<and> tok = Comma \<and> spec d = op_value XFY \<and> priority d = 1000 \<or>
     spec d = DELIMITER \<and> (tt d = TyHeadTailSeparator \<longrightarrow> priority d = 1000) \<and>
     (tt d, tok) \<in> {(TyOpen, Open), (TyOpenCT, OpenCT), (TyOpenList, OpenList),
                    (TyOpenCurly, OpenCurly), (TyHeadTailSeparator, HeadTailSeparator)}"

inductive parsed ::
  "CompositeOpDir \<Rightarrow> DoubleQuotes \<Rightarrow> TokenDesc list \<Rightarrow> Term list \<Rightarrow> Token list \<Rightarrow> bool"
  for od dq where
  p_nil: "parsed od dq [] [] []"
| p_item: "parsed od dq ds ts toks \<Longrightarrow> item od dq d t seg \<Longrightarrow> parsed od dq (d # ds) (t # ts) (toks @ seg)"
| p_sep: "parsed od dq ds ts toks \<Longrightarrow> separator d tok \<Longrightarrow> parsed od dq (d # ds) ts (toks @ [tok])"

inductive_cases parsed_nilE: "parsed od dq [] ts toks"
inductive_simps parsed_nil: "parsed od dq [] ts toks"
inductive_simps parsed_cons: "parsed od dq (d # ds) ts toks"

section \<open>Specifier bits\<close>

lemmas spec_defs = is_term_def is_lterm_def is_negate_def is_op_def is_prefix_def is_infix_def
  is_kind_def TERM'_def LTERM_def BTERM_def NEGATIVE_SIGN_def DELIMITER_def

lemma term_spec_bits [simp]:
  "is_term TERM'" "is_term LTERM" "is_term BTERM" "is_term NEGATIVE_SIGN"
  "\<not> is_term DELIMITER" "\<not> is_term (op_value k)"
  "\<not> is_kind k TERM'" "\<not> is_kind k LTERM" "\<not> is_kind k BTERM" "\<not> is_kind k NEGATIVE_SIGN"
  "\<not> is_kind k DELIMITER" "is_kind k (op_value j) \<longleftrightarrow> j = k"
  "\<not> is_prefix TERM'" "\<not> is_prefix LTERM" "\<not> is_prefix BTERM" "\<not> is_prefix DELIMITER"
  "\<not> is_negate TERM'" "\<not> is_negate LTERM" "\<not> is_negate BTERM" "\<not> is_negate DELIMITER"
  "\<not> is_op DELIMITER" "is_op (op_value k)" "\<not> is_lterm DELIMITER" "\<not> is_lterm (op_value k)"
  by (cases k; (cases j)?; simp add: spec_defs)+

lemma is_negate_is_term: "is_negate s \<Longrightarrow> is_term s"
  by (simp add: is_term_def)

lemma spec_distinct [simp]:
  "op_value XFY \<noteq> BTERM" "DELIMITER \<noteq> BTERM" "TERM' \<noteq> BTERM" "LTERM \<noteq> BTERM" "NEGATIVE_SIGN \<noteq> BTERM"
  by (simp_all add: spec_defs)


lemma or_and_eq_0: "(a OR b) AND v = 0 \<longleftrightarrow> a AND v = 0 \<and> b AND (v :: 32 word) = 0"
  by (simp add: bit.conj_disj_distrib2 or_eq_0_iff)

lemma spec_or [simp]:
  "is_kind k (a OR b) \<longleftrightarrow> is_kind k a \<or> is_kind k b"
  "is_negate (a OR b) \<longleftrightarrow> is_negate a \<or> is_negate b"
  "is_term (a OR b) \<longleftrightarrow> is_term a \<or> is_term b"
  "is_lterm (a OR b) \<longleftrightarrow> is_lterm a \<or> is_lterm b"
  by (auto simp: is_kind_def is_negate_def is_term_def is_lterm_def or_and_eq_0)

lemma spec_zero [simp]: "\<not> is_kind k 0" "\<not> is_negate 0" "\<not> is_term 0" "\<not> is_lterm 0"
  by (simp_all add: spec_defs)

lemma spec_mask [simp]:
  "is_kind k (x AND infix_postfix_mask) \<longleftrightarrow> \<not> op_is_prefix k \<and> is_kind k x"
  "is_kind k (x AND prefix_mask) \<longleftrightarrow> op_is_prefix k \<and> is_kind k x"
  "\<not> is_term (x AND infix_postfix_mask)" "\<not> is_lterm (x AND infix_postfix_mask)"
  "is_term (x AND prefix_mask) \<longleftrightarrow> is_negate x" "is_lterm (x AND prefix_mask) \<longleftrightarrow> is_negate x"
  by (cases k; simp add: is_kind_def is_term_def is_lterm_def is_negate_def infix_postfix_mask_def
        prefix_mask_def op_is_prefix_def TERM'_def LTERM_def NEGATIVE_SIGN_def and.assoc)+

lemma op_value_negate [simp]: "\<not> is_negate (op_value k)"
  using term_spec_bits(6) is_negate_is_term by blast

lemma is_prefix_kind: "is_prefix s \<longleftrightarrow> is_kind FX s \<or> is_kind FY s"
  unfolding is_prefix_def is_kind_def and.commute [of s] or_and_eq_0 by blast

section \<open>Descriptors of operators\<close>

lemma op_fixity_cases:
  "op_fixity k = FixPre \<longleftrightarrow> op_is_prefix k" "op_fixity k = FixPost \<longleftrightarrow> op_is_postfix k"
  "op_fixity k = FixIn \<longleftrightarrow> op_is_infix k"
  by (cases k; simp add: op_is_prefix_def op_is_postfix_def op_is_infix_def)+

definition kind_priority :: "CompositeOpDesc \<Rightarrow> OpDeclSpec \<Rightarrow> nat" where
  "kind_priority d k = (case op_fixity k of FixPre \<Rightarrow> pre d | FixPost \<Rightarrow> post d | FixIn \<Rightarrow> inf d)"

definition prio_of :: "CompositeOpDir \<Rightarrow> atom \<Rightarrow> Fixity \<Rightarrow> nat" where
  "prio_of od name fx = (case op_dir_get od name fx of None \<Rightarrow> 0 | Some e \<Rightarrow> get_prec e)"

definition bits_of :: "CompositeOpDir \<Rightarrow> atom \<Rightarrow> Fixity \<Rightarrow> 32 word" where
  "bits_of od name fx =
     (case op_dir_get od name fx of
        None \<Rightarrow> 0 | Some e \<Rightarrow> if get_prec e > 0 then op_value (dspec e) else 0)"

definition sign_of :: "CompositeOpDir \<Rightarrow> atom \<Rightarrow> 32 word" where
  "sign_of od name =
     (case op_dir_get od name FixPre of
        None \<Rightarrow> 0 | Some e \<Rightarrow> if get_prec e = 0 \<and> name = atm ''-'' then NEGATIVE_SIGN else 0)"

lemma get_op_desc_Some:
  "get_op_desc name od = Some d \<Longrightarrow>
     pre d = prio_of od name FixPre \<and> post d = prio_of od name FixPost \<and>
     inf d = prio_of od name FixIn \<and>
     cspec d = ((bits_of od name FixPre OR sign_of od name) OR bits_of od name FixPost) OR bits_of od name FixIn"
  by (cases "op_dir_get od name FixPre"; cases "op_dir_get od name FixPost";
      cases "op_dir_get od name FixIn";
      auto simp: get_op_desc_def Let_def prio_of_def bits_of_def sign_of_def split: if_split_asm)

lemma op_dir_ok_fixity: "op_dir_ok od \<Longrightarrow> op_dir_get od name fx = Some e \<Longrightarrow> op_fixity (dspec e) = fx"
  by (simp add: op_dir_ok_def)

lemma is_kind_bits_of:
  assumes "op_dir_ok od"
  shows "is_kind k (bits_of od name fx) \<longleftrightarrow> op_fixity k = fx \<and> op_entry od name k (prio_of od name fx)"
proof (cases "op_dir_get od name fx")
  case (Some e)
  note fx = op_dir_ok_fixity [OF assms Some]
  show ?thesis
  proof (cases "dspec e = k")
    case True
    with fx have "fx = op_fixity k" by simp
    with Some True show ?thesis by (simp add: bits_of_def op_entry_def prio_of_def)
  next
    case False
    with Some show ?thesis by (auto simp: bits_of_def op_entry_def)
  qed
qed (auto simp: bits_of_def op_entry_def)

lemma bits_of_not_term [simp]:
  "\<not> is_term (bits_of od name fx)" "\<not> is_lterm (bits_of od name fx)" "\<not> is_negate (bits_of od name fx)"
  by (simp_all add: bits_of_def split: option.splits)

lemma sign_of_kind [simp]: "\<not> is_kind k (sign_of od name)"
  by (simp add: sign_of_def split: option.splits)

lemma is_negate_sign_of: "is_negate (sign_of od name) \<Longrightarrow> name = atm ''-'' \<and> prio_of od name FixPre = 0"
  by (auto simp: sign_of_def prio_of_def split: option.splits if_splits)

lemma sign_of_term [simp]:
  "is_term (sign_of od name) \<longleftrightarrow> is_negate (sign_of od name)"
  "is_lterm (sign_of od name) \<longleftrightarrow> is_negate (sign_of od name)"
  by (auto simp: sign_of_def spec_defs split: option.splits)

lemma get_op_desc_kind:
  assumes "op_dir_ok od" and "get_op_desc name od = Some d"
  shows "is_kind k (cspec d) \<longleftrightarrow> op_entry od name k (kind_priority d k)"
  using get_op_desc_Some [OF assms(2)] is_kind_bits_of [OF assms(1)]
  by (cases "op_fixity k") (simp_all add: kind_priority_def)

lemma infix_postfix_exclusive:
  assumes "op_dir_ok od" and d: "get_op_desc name od = Some d"
    and e: "op_entry od name k (kind_priority d k)" and "\<not> op_is_prefix k"
  shows "kind_priority d k = inf d + post d"
proof -
  have "prio_of od name FixIn = 0 \<or> prio_of od name FixPost = 0"
    using assms(1) by (auto simp: op_dir_ok_def prio_of_def split: option.splits)
  moreover have "0 < kind_priority d k" using e by (auto simp: op_entry_def split: option.splits)
  ultimately show ?thesis
    using assms(4) get_op_desc_Some [OF d]
    by (cases "op_fixity k") (auto simp: kind_priority_def op_fixity_cases(1) [symmetric])
qed

end
