(* ===== verification/ParserSound.thy ===== *)
theory ParserSound
  imports ParserGrammar
begin

text \<open>
  Soundness of the parser: the stack of descriptors and the stack of terms are at every moment
  a parse of the tokens consumed so far (\<open>parsed\<close>), each reduction keeping that relation, so
  a term returned by \<open>read_term\<close> derives from its tokens in the grammar of
  \<open>ParserGrammar\<close>.
\<close>

section \<open>Items on the stack\<close>

lemma item_term:
  assumes "item od dq d t seg" and "is_term (spec d)"
  shows "derives od dq seg (priority d) t" and "seg \<noteq> []"
  using assms by (auto simp: item_def op_item_def)

lemma item_no_kind: "item od dq d t seg \<Longrightarrow> is_term (spec d) \<Longrightarrow> \<not> is_kind k (spec d)"
  by (auto simp: item_def op_item_def)

lemma item_lterm: "item od dq d t seg \<Longrightarrow> is_lterm (spec d) \<Longrightarrow> is_term (spec d)"
  by (auto simp: item_def op_item_def)

lemma item_op:
  assumes "item od dq d t seg" and "is_kind k (spec d)"
  obtains name where "seg = [TLiteral (Atom name)]" and "t = Literal (Atom name)"
    and "op_entry od name k (priority d)" and "\<not> is_term (spec d)"
  using assms by (auto simp: item_def op_item_def)

lemma item_operand: "item od dq d t seg \<Longrightarrow> operand od dq seg t"
  by (auto simp: item_def op_item_def intro: o_term o_operator)

lemma separator_spec [simp]:
  "separator d tok \<Longrightarrow> \<not> is_term (spec d)" "separator d tok \<Longrightarrow> \<not> is_lterm (spec d)"
  "separator d tok \<Longrightarrow> \<not> is_negate (spec d)" "separator d tok \<Longrightarrow> \<not> is_prefix (spec d)"
  "separator d tok \<Longrightarrow> tt d \<noteq> TyTerm"
  by (auto simp: separator_def is_prefix_kind simp del: op_value.simps)

lemma parsed_termE:
  assumes "parsed od dq (d # ds) ts toks" and "is_term (spec d) \<or> is_lterm (spec d) \<or> tt d = TyTerm"
  obtains t ts' toks' seg where "ts = t # ts'" and "toks = toks' @ seg" and "item od dq d t seg"
    and "parsed od dq ds ts' toks'"
  using assms(1)
proof (cases rule: parsed.cases)
  case (p_sep toks' tok)
  with assms(2) show thesis by simp
qed (use that in blast)

lemma parsed_opE:
  assumes "parsed od dq (d # ds) ts toks" and "is_kind k (spec d)"
  obtains (atom) name ts' toks' where "tt d = TyTerm" and "ts = Literal (Atom name) # ts'"
      and "toks = toks' @ [TLiteral (Atom name)]" and "parsed od dq ds ts' toks'"
      and "op_entry od name k (priority d)"
    | (comma) toks' where "tt d = TyComma" and "toks = toks' @ [Comma]" and "k = XFY"
      and "priority d = 1000" and "parsed od dq ds ts toks'"
  using assms(1)
proof (cases rule: parsed.cases)
  case (p_item ts' toks' t seg)
  with assms(2) have "item od dq d t seg" by simp
  from this assms(2) obtain name where "seg = [TLiteral (Atom name)]" "t = Literal (Atom name)"
    "op_entry od name k (priority d)" by (rule item_op)
  with p_item atom show thesis by (simp add: item_def)
next
  case (p_sep toks' tok)
  then have "tt d = TyComma" "tok = Comma" "k = XFY" "priority d = 1000"
    using assms(2) by (auto simp: separator_def simp del: op_value.simps)
  with p_sep comma show thesis by simp
qed

lemma item_term_desc:
  assumes "derives od dq seg n t" and "seg \<noteq> []" and "s = TERM' \<or> s = LTERM"
  shows "item od dq (term_desc n s) t seg"
  using assms by (auto simp: item_def term_desc_def)

lemma parsed_push:
  assumes "parsed od dq ds ts toks" and "derives od dq seg n t" and "seg \<noteq> []"
    and "s = TERM' \<or> s = LTERM"
  shows "parsed od dq (term_desc n s # ds) (t # ts) (toks @ seg)"
  using assms by (intro p_item item_term_desc)

section \<open>Operator reductions\<close>

lemma parsed_push_binary_op:
  assumes p: "parsed od dq (d1 # d2 # d3 # rest) (terms p) toks"
    and d1: "is_term (spec d1)" and d3: "is_term (spec d3)"
    and k: "is_kind k (spec d2)" "op_is_infix k"
    and l: "left_ok k (priority d3) (priority d2)" and r: "right_ok k (priority d1) (priority d2)"
    and s: "s = TERM' \<or> s = LTERM"
  shows "parsed od dq (stack (push_binary_op d2 s (p\<lparr>stack := rest\<rparr>)))
           (terms (push_binary_op d2 s (p\<lparr>stack := rest\<rparr>))) toks"
proof -
  from p d1 obtain t1 ts1 toks1 seg1 where 1: "terms p = t1 # ts1" "toks = toks1 @ seg1"
    "item od dq d1 t1 seg1" "parsed od dq (d2 # d3 # rest) ts1 toks1"
    by (auto elim: parsed_termE)
  note der1 = item_term(1) [OF 1(3) d1]
  have build: "parsed od dq (term_desc (priority d2) s # rest) (Clause name [t3, t1] # ts3)
      ((toks3 @ seg3 @ [tok]) @ seg1)"
    if "parsed od dq rest ts3 toks3" and i3: "item od dq d3 t3 seg3" and "infix_token od tok name k (priority d2)"
    for name ts3 toks3 seg3 tok t3
    using parsed_push [OF that(1) d_infix [OF item_term(1) [OF i3 d3] that(3) der1 k(2) l r] _ s] by simp
  from 1(4) k(1) show ?thesis
  proof (cases rule: parsed_opE)
    case (atom name ts2 toks2)
    from atom(4) d3 obtain t3 ts3 toks3 seg3 where 3: "ts2 = t3 # ts3" "toks2 = toks3 @ seg3"
      "item od dq d3 t3 seg3" "parsed od dq rest ts3 toks3" by (auto elim: parsed_termE)
    from atom(5) have "infix_token od (TLiteral (Atom name)) name k (priority d2)"
      by (simp add: infix_token_def)
    with build [OF 3(4,3)] 1 3 atom show ?thesis by (simp add: push_binary_op_def get_term_name_def)
  next
    case (comma toks2)
    from comma(5) d3 obtain t3 ts3 toks3 seg3 where 3: "ts1 = t3 # ts3" "toks2 = toks3 @ seg3"
      "item od dq d3 t3 seg3" "parsed od dq rest ts3 toks3" by (auto elim: parsed_termE)
    from comma have "infix_token od Comma (atm '','') k (priority d2)" by (simp add: infix_token_def)
    with build [OF 3(4,3)] 1 3 comma show ?thesis by (simp add: push_binary_op_def get_term_name_def)
  qed
qed

lemma parsed_push_prefix_op:
  assumes p: "parsed od dq (d1 # d2 # rest) (terms p) toks" and d1: "is_term (spec d1)"
    and k: "is_kind k (spec d2)" "op_is_prefix k" and r: "right_ok k (priority d1) (priority d2)"
  shows "parsed od dq (stack (push_unary_op d2 TERM' k (p\<lparr>stack := rest\<rparr>)))
           (terms (push_unary_op d2 TERM' k (p\<lparr>stack := rest\<rparr>))) toks"
proof -
  from p d1 obtain t1 ts1 toks1 seg1 where 1: "terms p = t1 # ts1" "toks = toks1 @ seg1"
    "item od dq d1 t1 seg1" "parsed od dq (d2 # rest) ts1 toks1"
    by (auto elim: parsed_termE)
  have nk: "k \<noteq> XFY" "\<not> op_is_postfix k" using k(2) by (auto simp: op_is_prefix_def op_is_postfix_def)
  from 1(4) k(1) show ?thesis
  proof (cases rule: parsed_opE)
    case (atom name ts2 toks2)
    from parsed_push [OF atom(4) d_prefix [OF atom(5) k(2) item_term(1) [OF 1(3) d1] r], of TERM']
    show ?thesis using 1 atom nk by (simp add: push_unary_op_def)
  qed (simp add: nk)
qed

lemma parsed_push_postfix_op:
  assumes p: "parsed od dq (d1 # d2 # rest) (terms p) toks" and d2: "is_term (spec d2)"
    and k: "is_kind k (spec d1)" "op_is_postfix k" and l: "left_ok k (priority d2) (priority d1)"
  shows "parsed od dq (stack (push_unary_op d1 LTERM k (p\<lparr>stack := rest\<rparr>)))
           (terms (push_unary_op d1 LTERM k (p\<lparr>stack := rest\<rparr>))) toks"
proof -
  have nk: "k \<noteq> XFY" using k(2) by (auto simp: op_is_postfix_def)
  from p k(1) show ?thesis
  proof (cases rule: parsed_opE)
    case (atom name ts1 toks1)
    from atom(4) d2 obtain t2 ts2 toks2 seg2 where 2: "ts1 = t2 # ts2" "toks1 = toks2 @ seg2"
      "item od dq d2 t2 seg2" "parsed od dq rest ts2 toks2" by (auto elim: parsed_termE)
    from parsed_push [OF 2(4) d_postfix [OF item_term(1) [OF 2(3) d2] atom(5) k(2) l], of LTERM]
    show ?thesis using 2 atom k(2) by (simp add: push_unary_op_def)
  qed (simp add: nk)
qed

definition parse_state :: "CompositeOpDir \<Rightarrow> DoubleQuotes \<Rightarrow> Token list \<Rightarrow> Parser \<Rightarrow> bool" where
  "parse_state od dq toks p \<longleftrightarrow> parsed od dq (stack p) (terms p) toks"

lemma parsed_is_lterm:
  assumes "parsed od dq (d # ds) ts toks" and "is_lterm (spec d)"
  shows "is_term (spec d)"
  using assms by (auto elim!: parsed_termE dest: item_lterm)

lemma parsed_tl: "parsed od dq (d # ds) ts toks \<Longrightarrow> \<exists>ts' toks'. parsed od dq ds ts' toks'"
  by (auto simp: parsed_cons)

lemma parse_state_reduce_unary:
  assumes p: "parsed od dq (d1 # d2 # rest) (terms p) toks"
    and run: "reduce_unary pri d1 d2 (p\<lparr>stack := rest\<rparr>) = Some q"
  shows "parse_state od dq toks q"
proof -
  have lterm: "is_lterm (spec d2) \<Longrightarrow> is_term (spec d2)"
    using parsed_tl [OF p] parsed_is_lterm by blast
  have post: "is_kind k (spec d1) \<Longrightarrow> op_is_postfix k \<Longrightarrow> is_term (spec d2) \<Longrightarrow>
      left_ok k (priority d2) (priority d1) \<Longrightarrow>
      parse_state od dq toks (push_unary_op d1 LTERM k (p\<lparr>stack := rest\<rparr>))" for k
    using parsed_push_postfix_op [OF p] by (simp add: parse_state_def)
  have prefix: "is_kind k (spec d2) \<Longrightarrow> op_is_prefix k \<Longrightarrow> is_term (spec d1) \<Longrightarrow>
      right_ok k (priority d1) (priority d2) \<Longrightarrow>
      parse_state od dq toks (push_unary_op d2 TERM' k (p\<lparr>stack := rest\<rparr>))" for k
    using parsed_push_prefix_op [OF p] by (simp add: parse_state_def)
  show ?thesis
    using run lterm
    by (auto simp: reduce_unary_def affirm_yf_def affirm_xf_def affirm_fy_def affirm_fx_def
        op_is_postfix_def op_is_prefix_def left_ok_def right_ok_def is_strict_left_def
        is_strict_right_def intro!: post prefix split: if_splits)
qed

lemma parse_state_reduce_op_step:
  assumes p: "parse_state od dq toks p" and run: "reduce_op_step pri p = Some q"
  shows "parse_state od dq toks q"
proof -
  have un: "parse_state od dq toks q"
    if "stack p = d1 # d2 # rest" "reduce_unary pri d1 d2 (p\<lparr>stack := rest\<rparr>) = Some q" for d1 d2 rest
    using p that by (intro parse_state_reduce_unary) (auto simp: parse_state_def)
  have bin: "parse_state od dq toks (push_binary_op d2 s (p\<lparr>stack := rest\<rparr>))"
    if "stack p = d1 # d2 # d3 # rest" "is_kind k (spec d2)" "op_is_infix k"
      "is_term (spec d1)" "is_term (spec d3) \<or> is_lterm (spec d3)"
      "left_ok k (priority d3) (priority d2)" "right_ok k (priority d1) (priority d2)"
      "s = TERM' \<or> s = LTERM" for d1 d2 d3 rest k s
  proof -
    have pp: "parsed od dq (d1 # d2 # d3 # rest) (terms p) toks" using p that by (simp add: parse_state_def)
    then have "is_lterm (spec d3) \<Longrightarrow> is_term (spec d3)" by (metis parsed_tl parsed_is_lterm)
    with parsed_push_binary_op [OF pp] that show ?thesis by (auto simp: parse_state_def)
  qed
  note bounds = left_ok_def right_ok_def is_strict_left_def is_strict_right_def op_is_infix_def
  show ?thesis
  proof (cases "\<exists>d1 d2 d3 rest. stack p = d1 # d2 # d3 # rest")
    case True
    then obtain d1 d2 d3 rest where st: "stack p = d1 # d2 # d3 # rest" by blast
    show ?thesis
      using run un [of d1 d2 "d3 # rest"] st
        bin [OF st, of XFX LTERM] bin [OF st, of YFX LTERM] bin [OF st, of XFY TERM']
      by (auto simp: reduce_op_step_def affirm_xfx_def affirm_yfx_def affirm_xfy_def bounds
          split: if_splits)
  next
    case False
    with run obtain d1 d2 where "stack p = [d1, d2]"
      by (auto simp: reduce_op_step_def split: list.splits)
    with run un [of d1 d2 "[]"] show ?thesis by (simp add: reduce_op_step_def)
  qed
qed

lemma parse_state_reduce_op: "parse_state od dq toks p \<Longrightarrow> parse_state od dq toks (reduce_op pri p)"
  by (rule reduce_op_steps) (auto intro: parse_state_reduce_op_step)

section \<open>Runs of operands\<close>

text \<open>
  A run of \<open>k\<close> operands separated by commas on top of an opening separator, as
  \<open>compute_arity_in_brackets\<close> and \<open>compute_arity_in_list\<close> recognise it.
\<close>

inductive run_on :: "TokenType \<Rightarrow> TokenDesc list \<Rightarrow> nat \<Rightarrow> bool" for opener where
  r_one: "tt d1 \<noteq> TyComma \<Longrightarrow> is_term (spec d1) \<or> is_op (spec d1) \<Longrightarrow> tt d2 = opener \<Longrightarrow>
    run_on opener (d1 # d2 # ds) (Suc 0)"
| r_more: "tt d1 \<noteq> TyComma \<Longrightarrow> is_term (spec d1) \<or> is_op (spec d1) \<Longrightarrow> tt d2 = TyComma \<Longrightarrow>
    run_on opener ds k \<Longrightarrow> run_on opener (d1 # d2 # ds) (Suc k)"

lemma run_on_brackets:
  assumes "arity_in_brackets_from i a ds = Some n" and "even i"
  shows "a < n \<and> run_on TyOpenCT ds (n - a)"
  using assms
proof (induction ds arbitrary: i a rule: induct_list012)
  case (3 d1 d2 ds)
  show ?case
  proof (cases "tt d2 = TyOpenCT")
    case True
    with 3(3,4) show ?thesis
      by (auto simp: even_iff_mod_2_eq_zero [symmetric] dest: is_negate_is_term
          split: if_splits intro!: r_one)
  next
    case False
    with 3(3,4) have "arity_in_brackets_from (Suc (Suc i)) (Suc a) ds = Some n" "tt d2 = TyComma"
      "tt d1 \<noteq> TyComma" "is_term (spec d1) \<or> is_op (spec d1)"
      by (auto simp: even_iff_mod_2_eq_zero [symmetric] is_term_def split: if_splits)
    with 3(1) [of "Suc (Suc i)" "Suc a"] 3(4) r_more [of d1 d2 TyOpenCT ds "n - Suc a"] show ?thesis
      by (simp add: Suc_diff_Suc)
  qed
qed (auto split: if_splits)

lemma run_on_list:
  assumes "arity_in_list_from i a ds = Some n" and "even i" and "0 < a"
  shows "a < n \<and> run_on TyOpenList ds (n - a)"
  using assms
proof (induction ds arbitrary: i a rule: induct_list012)
  case (3 d1 d2 ds)
  show ?case
  proof (cases "tt d2 = TyOpenList")
    case True
    with 3(3,4,5) show ?thesis
      by (auto simp: even_iff_mod_2_eq_zero [symmetric] dest: is_negate_is_term
          split: if_splits intro!: r_one)
  next
    case False
    with 3(3,4,5) have "arity_in_list_from (Suc (Suc i)) (Suc a) ds = Some n" "tt d2 = TyComma"
      "tt d1 \<noteq> TyComma" "is_term (spec d1) \<or> is_op (spec d1)"
      by (auto simp: even_iff_mod_2_eq_zero [symmetric] is_term_def split: if_splits)
    with 3(1) [of "Suc (Suc i)" "Suc a"] 3(4) r_more [of d1 d2 TyOpenList ds "n - Suc a"] show ?thesis
      by (simp add: Suc_diff_Suc)
  qed
qed (auto split: if_splits)

lemma parsed_operandE:
  assumes "parsed od dq (d # ds) ts toks" and "tt d \<noteq> TyComma" and "is_term (spec d) \<or> is_op (spec d)"
  obtains t ts' toks' seg where "ts = t # ts'" and "toks = toks' @ seg" and "operand od dq seg t"
    and "parsed od dq ds ts' toks'"
  using assms(1)
proof (cases rule: parsed.cases)
  case (p_sep toks' tok)
  with assms(2,3) show thesis by (auto simp: separator_def)
next
  case (p_item ts' toks' t seg)
  with that show thesis by (auto dest: item_operand)
qed

definition opener_token :: "TokenType \<Rightarrow> Token" where
  "opener_token ty = (if ty = TyOpenCT then OpenCT else OpenList)"

lemma parsed_openerE:
  assumes "parsed od dq (d # ds) ts toks" and "tt d = TyOpenCT \<or> tt d = TyOpenList"
  obtains toks' where "toks = toks' @ [opener_token (tt d)]" and "parsed od dq ds ts toks'"
  using assms by (auto simp: parsed_cons item_def separator_def opener_token_def)

lemma parsed_commaE:
  assumes "parsed od dq (d # ds) ts toks" and "tt d = TyComma"
  obtains toks' where "toks = toks' @ [Comma]" and "parsed od dq ds ts toks'"
  using assms by (auto simp: parsed_cons item_def separator_def)

lemma run_on_args:
  assumes "run_on opener ds k" and "parsed od dq ds ts toks" and "opener = TyOpenCT \<or> opener = TyOpenList"
  shows "\<exists>as toks'. k \<le> length ts \<and> 2 * k \<le> length ds \<and> toks = toks' @ opener_token opener # as \<and>
    args od dq as (rev (take k ts)) \<and> parsed od dq (drop (2 * k) ds) (drop k ts) toks'"
  using assms
proof (induction arbitrary: ts toks rule: run_on.induct)
  case (r_one d1 d2 ds)
  from r_one.prems(1) r_one.hyps(1,2) obtain t ts' toks1 seg where 1: "ts = t # ts'" "toks = toks1 @ seg"
    "operand od dq seg t" "parsed od dq (d2 # ds) ts' toks1" by (rule parsed_operandE)
  from 1(4) r_one obtain toks2 where "toks1 = toks2 @ [opener_token opener]" "parsed od dq ds ts' toks2"
    using parsed_openerE by blast
  with 1 a_one [OF 1(3)] show ?case by (auto simp: numeral_2_eq_2)
next
  case (r_more d1 d2 ds k)
  from r_more.prems(1) r_more.hyps(1,2) obtain t ts' toks1 seg where 1: "ts = t # ts'" "toks = toks1 @ seg"
    "operand od dq seg t" "parsed od dq (d2 # ds) ts' toks1" by (rule parsed_operandE)
  from 1(4) r_more.hyps(3) obtain toks2 where 2: "toks1 = toks2 @ [Comma]" "parsed od dq ds ts' toks2"
    by (rule parsed_commaE)
  from r_more.IH [OF 2(2) r_more.prems(2)] obtain as toks3 where 3: "k \<le> length ts'" "2 * k \<le> length ds"
    "toks2 = toks3 @ opener_token opener # as" "args od dq as (rev (take k ts'))"
    "parsed od dq (drop (2 * k) ds) (drop k ts') toks3" by blast
  have "args od dq (as @ Comma # seg) (rev (take (Suc k) ts))"
    using a_more [OF 3(4) 1(3)] by (simp add: 1)
  with 1 2 3 show ?case by auto
qed

section \<open>Compound terms\<close>

lemma vec_at_top: "i < length xs \<Longrightarrow> vec_at xs (length xs - i - 1) = xs ! i"
  by (simp add: vec_at_def)

lemma vec_truncate_drop: "i \<le> length xs \<Longrightarrow> vec_truncate (length xs - i) xs = drop i xs"
  by (simp add: vec_truncate_def)

text \<open>No opening bracket stands right behind a closing one.\<close>

fun brackets_apart :: "Token list \<Rightarrow> bool" where
  "brackets_apart (x # y # zs) \<longleftrightarrow> \<not> (x = Close \<and> y = OpenCT) \<and> brackets_apart (y # zs)"
| "brackets_apart _ \<longleftrightarrow> True"

lemma brackets_apart_prefix: "brackets_apart (xs @ ys) \<Longrightarrow> brackets_apart xs"
  by (induction xs rule: induct_list012) auto

lemma brackets_apart_suffix: "brackets_apart (xs @ ys) \<Longrightarrow> brackets_apart ys"
proof (induction xs)
  case (Cons x xs)
  then show ?case by (cases "xs @ ys") auto
qed simp

lemma brackets_apart_last:
  assumes "brackets_apart (xs @ seg @ OpenCT # ys)" and "seg \<noteq> []"
  shows "last seg \<noteq> Close"
proof
  assume "last seg = Close"
  then have "xs @ seg @ OpenCT # ys = (xs @ butlast seg) @ Close # OpenCT # ys"
    using assms(2) append_butlast_last_id [of seg] by simp
  with assms(1) have "brackets_apart ((xs @ butlast seg) @ Close # OpenCT # ys)" by simp
  then have "brackets_apart (Close # OpenCT # ys)" by (rule brackets_apart_suffix)
  then show False by simp
qed

lemma parsed_drop_nth:
  assumes "parsed od dq (drop n ds) ts toks" and "n < length ds"
  shows "parsed od dq (ds ! n # drop (Suc n) ds) ts toks"
  using assms by (simp add: Cons_nth_drop_Suc)

lemma reduce_term_eval:
  assumes "stack p0 \<noteq> []" and p: "p = reduce_op 999 p0" and n: "compute_arity_in_brackets p = Some n"
  obtains (same) "reduce_term p0 = (False, p)"
    | (built) name where "2 * n < length (stack p)" and "n < length (terms p)"
      and "tt (stack p ! (2 * n)) = TyTerm" and "terms p ! n = Literal (Atom name)"
      and "spec (stack p ! (2 * n)) \<noteq> BTERM \<Longrightarrow>
        reduce_term p0 =
          (True, p\<lparr>stack := term_desc 0 TERM' # drop (Suc (2 * n)) (stack p),
                   terms := compound name (rev (take n (terms p))) # drop (Suc n) (terms p)\<rparr>)"
proof (cases "2 * n < length (stack p) \<and> n < length (terms p) \<and> tt (stack p ! (2 * n)) = TyTerm \<and>
    atomize_term (terms p ! n) \<noteq> None \<and>
    \<not> (is_infix (spec (vec_at (stack p) (length (stack p) - 2 * n - 1))) \<and>
       length (stack p) - 2 * n - 1 > 0 \<and>
       \<not> is_op (spec (vec_at (stack p) (length (stack p) - 2 * n - 1 - 1))) \<and>
       \<not> is_sep (tt (vec_at (stack p) (length (stack p) - 2 * n - 1 - 1))))")
  case True
  then obtain name where name: "terms p ! n = Literal (Atom name)"
    by (auto simp: atomize_term_def split: Term.splits Literal.splits)
  have sub: "length (rev (take n (terms p))) = n" using True by simp
  have "drop (2 * n) (stack p) = stack p ! (2 * n) # drop (Suc (2 * n)) (stack p)"
    using True by (simp add: Cons_nth_drop_Suc)
  moreover have "drop n (terms p) = terms p ! n # drop (Suc n) (terms p)"
    using True by (simp add: Cons_nth_drop_Suc)
  moreover have "vec_truncate (length (stack p) - 2 * n - 1 + 1) (stack p) = drop (2 * n) (stack p)"
    using True vec_truncate_drop [of "2 * n" "stack p"] by (simp add: Suc_diff_Suc)
  moreover have "vec_at (terms p) (length (terms p) - n - 1) = terms p ! n"
    and "vec_at (stack p) (length (stack p) - 2 * n - 1) = stack p ! (2 * n)"
    using True vec_at_top [of n "terms p"] vec_at_top [of "2 * n" "stack p"] by auto
  ultimately have "spec (stack p ! (2 * n)) \<noteq> BTERM \<Longrightarrow>
        reduce_term p0 =
          (True, p\<lparr>stack := term_desc 0 TERM' # drop (Suc (2 * n)) (stack p),
                   terms := compound name (rev (take n (terms p))) # drop (Suc n) (terms p)\<rparr>)"
    using True assms name
    by (auto simp: reduce_term_def Let_def atomize_term_def compound_def simp del: rev_take)
  with True name show thesis by (intro built) auto
next
  case False
  have "reduce_term p0 = (False, p)"
    using False assms vec_at_top [of "2 * n" "stack p"] vec_at_top [of n "terms p"]
    by (auto simp: reduce_term_def Let_def)
  then show thesis by (rule same)
qed

lemma reduce_term_no_arity:
  "stack p0 = [] \<Longrightarrow> reduce_term p0 = (False, p0)"
  "stack p0 \<noteq> [] \<Longrightarrow> compute_arity_in_brackets (reduce_op 999 p0) = None \<Longrightarrow>
     reduce_term p0 = (False, reduce_op 999 p0)"
  by (simp_all add: reduce_term_def Let_def)

lemma reduce_term_sound:
  assumes p0: "parse_state od dq toks p0" and apart: "brackets_apart toks"
    and run: "reduce_term p0 = (b, q)"
  shows "parse_state od dq (if b then toks @ [Close] else toks) q"
proof -
  define p where "p = reduce_op 999 p0"
  have p: "parse_state od dq toks p" unfolding p_def by (rule parse_state_reduce_op [OF p0])
  show ?thesis
  proof (cases "stack p0 = [] \<or> compute_arity_in_brackets p = None")
    case True
    with run p p0 show ?thesis
      by (cases "stack p0 = []") (auto simp: reduce_term_no_arity p_def)
  next
    case False
    then obtain n where n: "compute_arity_in_brackets p = Some n" and ne: "stack p0 \<noteq> []" by auto
    then have "run_on TyOpenCT (stack p) n"
      using run_on_brackets [of 0 0 "stack p" n] by (simp add: compute_arity_in_brackets_def)
    from run_on_args [OF this, of od dq "terms p" toks] p obtain as toks1 where
      r: "toks = toks1 @ OpenCT # as" "args od dq as (rev (take n (terms p)))"
        "parsed od dq (drop (2 * n) (stack p)) (drop n (terms p)) toks1"
      by (auto simp: parse_state_def opener_token_def)
    from ne p_def n show ?thesis
    proof (cases rule: reduce_term_eval)
      case same
      with run p show ?thesis by auto
    next
      case (built name)
      let ?d = "stack p ! (2 * n)"
      have "parsed od dq (?d # drop (Suc (2 * n)) (stack p))
          (terms p ! n # drop (Suc n) (terms p)) toks1"
        using r(3) built(1,2) by (simp add: Cons_nth_drop_Suc)
      then obtain seg toks2 where 2: "toks1 = toks2 @ seg"
        "item od dq ?d (Literal (Atom name)) seg"
        "parsed od dq (drop (Suc (2 * n)) (stack p)) (drop (Suc n) (terms p)) toks2"
        using built(3,4) by (auto elim!: parsed_termE)
      have ne: "seg \<noteq> []" using 2(2) by (auto simp: item_def)
      have cl: "last seg \<noteq> Close"
        using apart brackets_apart_last [of toks2 seg as] ne r(1) 2(1) by simp
      then have "spec ?d \<noteq> BTERM" using 2(2) by (auto simp: item_def op_item_def)
      with built(5) run have q: "b" "stack q = term_desc 0 TERM' # drop (Suc (2 * n)) (stack p)"
        "terms q = compound name (rev (take n (terms p))) # drop (Suc n) (terms p)"
        by auto
      from parsed_push [OF 2(3) d_compound [OF item_operand [OF 2(2)] ne cl r(2)], of TERM']
      show ?thesis using q by (simp add: parse_state_def r(1) 2(1))
    qed
  qed
qed

section \<open>Brackets, lists and curly terms\<close>

lemma parsed_bracketE:
  assumes "parsed od dq (d # ds) ts toks" and "tt d = TyOpen \<or> tt d = TyOpenCT"
  obtains toks' b where "b = Open \<or> b = OpenCT" and "toks = toks' @ [b]" and "parsed od dq ds ts toks'"
  using assms by (auto simp: parsed_cons item_def separator_def)

lemma item_bracketed:
  assumes "derives od dq seg 0 t" and "last seg = Close" and "seg \<noteq> []"
  shows "item od dq (d\<lparr>spec := BTERM, tt := TyTerm, priority := 0\<rparr>) t seg"
  using assms by (simp add: item_def)

lemma reduce_brackets_sound:
  assumes p0: "parse_state od dq toks p0" and run: "reduce_brackets p0 = (True, q)"
  shows "parse_state od dq (toks @ [Close]) q"
proof -
  define p where "p = reduce_op 1400 p0"
  have p: "parse_state od dq toks p" unfolding p_def by (rule parse_state_reduce_op [OF p0])
  from run obtain d td ds where st: "stack p = d # td # ds" and d: "tt d \<noteq> TyOpen" "tt d \<noteq> TyOpenCT" "tt d \<noteq> TyComma"
    and td: "tt td = TyOpen \<or> tt td = TyOpenCT"
    and q: "stack q = d\<lparr>spec := BTERM, tt := TyTerm, priority := 0\<rparr> # ds"
      "terms q = (case sep_to_atom (tt d) of Some a \<Rightarrow> Literal (Atom a) # terms p | None \<Rightarrow> terms p)"
    by (auto simp: reduce_brackets_def p_def [symmetric] Let_def split: if_splits list.splits)
  from p have "parsed od dq (d # td # ds) (terms p) toks" by (simp add: parse_state_def st)
  then show ?thesis
  proof (cases rule: parsed.cases)
    case (p_item ts toks1 t seg)
    from p_item(3) td obtain b toks2 where b: "b = Open \<or> b = OpenCT" "toks1 = toks2 @ [b]"
      "parsed od dq ds ts toks2" by (rule parsed_bracketE)
    from d_brackets [OF item_operand [OF p_item(4)] b(1)]
    have "parsed od dq (d\<lparr>spec := BTERM, tt := TyTerm, priority := 0\<rparr> # ds) (t # ts) (toks2 @ b # seg @ [Close])"
      by (intro parsed.p_item b item_bracketed) auto
    moreover have "sep_to_atom (tt d) = None" using p_item(4) by (auto simp: item_def)
    ultimately show ?thesis using p_item b q by (simp add: parse_state_def)
  next
    case (p_sep toks1 tok)
    from p_sep(2) td obtain b toks2 where b: "b = Open \<or> b = OpenCT" "toks1 = toks2 @ [b]"
      "parsed od dq ds (terms p) toks2" by (rule parsed_bracketE)
    obtain a where a: "sep_to_atom (tt d) = Some a"
      "(tok, a) \<in> {(OpenList, atm ''[''), (OpenCurly, atm ''{''), (HeadTailSeparator, atm ''|'')}"
      using p_sep(3) d by (auto simp: separator_def)
    from d_bracketed_separator [OF b(1) a(2)]
    have "parsed od dq (d\<lparr>spec := BTERM, tt := TyTerm, priority := 0\<rparr> # ds) (Literal (Atom a) # terms p)
        (toks2 @ [b, tok, Close])"
      by (intro parsed.p_item b item_bracketed) auto
    then show ?thesis using p_sep b q a by (simp add: parse_state_def)
  qed
qed

lemma item_reset:
  assumes "derives od dq seg 0 t" and "seg \<noteq> []"
  shows "item od dq (d\<lparr>tt := TyTerm, priority := 0, spec := TERM'\<rparr>) t seg"
    and "item od dq (d\<lparr>spec := TERM', tt := TyTerm, priority := 0\<rparr>) t seg"
  using assms by (simp_all add: item_def)

lemma parsed_openE:
  assumes "parsed od dq (d # ds) ts toks" and "(tt d, tok) \<in> {(TyOpenList, OpenList), (TyOpenCurly, OpenCurly)}"
  obtains toks' where "toks = toks' @ [tok]" and "parsed od dq ds ts toks'"
  using assms by (auto simp: parsed_cons item_def separator_def)

lemma reduce_curly_sound:
  assumes p0: "parse_state od dq toks p0" and run: "reduce_curly p0 = (Inr True, q)"
  shows "parse_state od dq (toks @ [CloseCurly]) q"
proof (cases "\<exists>td ds. stack p0 = td # ds \<and> tt td = TyOpenCurly")
  case True
  then obtain td ds where st: "stack p0 = td # ds" and td: "tt td = TyOpenCurly" by blast
  with p0 obtain toks' where "toks = toks' @ [OpenCurly]" "parsed od dq ds (terms p0) toks'"
    using parsed_openE [of od dq td ds "terms p0" toks OpenCurly] by (auto simp: parse_state_def)
  with parsed.p_item [OF this(2) item_reset(1) [OF d_empty_curly]] run st td show ?thesis
    by (auto simp: reduce_curly_def parse_state_def)
next
  case False
  define p where "p = reduce_op 1201 p0"
  have p: "parse_state od dq toks p" unfolding p_def by (rule parse_state_reduce_op [OF p0])
  from run False obtain td oc ds t ts where st: "stack p = td # oc # ds" "tt td = TyTerm" "tt oc = TyOpenCurly"
    "terms p = t # ts" "stack q = oc\<lparr>tt := TyTerm, priority := 0, spec := TERM'\<rparr> # ds"
    "terms q = Clause (atm ''{}'') [t] # ts"
    by (auto simp: reduce_curly_def p_def [symmetric] Let_def incomplete_reduction_def
        split: if_splits list.splits)
  have "parsed od dq (td # oc # ds) (t # ts) toks" using p st by (simp add: parse_state_def)
  then obtain toks1 seg where 1: "toks = toks1 @ seg" "item od dq td t seg" "parsed od dq (oc # ds) ts toks1"
    using st(2) by (auto elim: parsed_termE)
  from 1(3) st(3) obtain toks2 where 2: "toks1 = toks2 @ [OpenCurly]" "parsed od dq ds ts toks2"
    using parsed_openE [of od dq oc ds ts toks1 OpenCurly] by auto
  from parsed.p_item [OF 2(2) item_reset(1) [OF d_curly [OF item_operand [OF 1(2)]]]] st 1 2
  show ?thesis by (simp add: parse_state_def)
qed

lemma build_list_sound:
  assumes run: "build_list (length (stack p) - m) e k p = (Inr True, q)" and m: "m \<le> length (stack p)"
    and p: "parsed od dq (drop m (stack p)) (drop k (terms p)) toks"
    and d: "derives od dq seg 0 (list_of (rev (take k (terms p))) e)" and "seg \<noteq> []"
  shows "parse_state od dq (toks @ seg) q"
proof -
  have "foldl (\<lambda>acc t. Cons t acc) e (take k (terms p)) = foldr Cons (rev (take k (terms p))) e"
    by (simp add: foldr_conv_foldl)
  then have "stack q = term_desc 0 TERM' # drop m (stack p)"
    "terms q = list_of (rev (take k (terms p))) e # drop k (terms p)"
    using run m by (auto simp: build_list_def list_of_def Let_def incomplete_reduction_def
        vec_truncate_drop split: if_splits)
  with parsed_push [OF p d assms(5), of TERM'] show ?thesis by (simp add: parse_state_def)
qed

lemma reduce_list_sound:
  assumes p0: "parse_state od dq toks p0" and run: "reduce_list p0 = (Inr True, q)"
  shows "parse_state od dq (toks @ [CloseList]) q"
proof (cases "\<exists>td ds. stack p0 = td # ds \<and> tt td = TyOpenList")
  case True
  then obtain td ds where st: "stack p0 = td # ds" and td: "tt td = TyOpenList" by blast
  with p0 obtain toks' where "toks = toks' @ [OpenList]" "parsed od dq ds (terms p0) toks'"
    using parsed_openE [of od dq td ds "terms p0" toks OpenList] by (auto simp: parse_state_def)
  with parsed.p_item [OF this(2) item_reset(2) [OF d_nil]] run st td show ?thesis
    by (auto simp: reduce_list_def parse_state_def)
next
  case nl: False
  define p where "p = reduce_op 1000 p0"
  have p: "parsed od dq (stack p) (terms p) toks"
    using parse_state_reduce_op [OF p0, of 1000] by (simp add: p_def parse_state_def)
  from run nl obtain n where ar: "arity_in_list_from 0 0 (stack p) = Some n"
    by (auto simp: reduce_list_def p_def [symmetric] Let_def compute_arity_in_list_def
        split: if_splits list.splits option.splits)
  then obtain d1 d2 ds where st: "stack p = d1 # d2 # ds"
    by (cases "stack p" rule: remdups_adj.cases) (auto split: if_splits)
  have idx: "vec_at (stack p) (length (stack p) - 2) = d2" by (simp add: st vec_at_def)
  have d1: "tt d1 \<noteq> TyComma" "is_term (spec d1) \<or> is_op (spec d1)"
    using ar st by (auto dest: is_negate_is_term split: if_splits)
  show ?thesis
  proof (cases "tt d2 = TyHeadTailSeparator")
    case False
    have "run_on TyOpenList (stack p) n"
    proof (cases "tt d2 = TyOpenList")
      case True
      then have "n = Suc 0" using ar st d1 by (simp split: if_splits)
      with r_one [OF d1 True] show ?thesis by (simp add: st)
    next
      case no: False
      with False have "tt d2 = TyComma" "arity_in_list_from (Suc (Suc 0)) (Suc 0) ds = Some n"
        using ar st d1 by (simp_all split: if_splits)
      with run_on_list [of "Suc (Suc 0)" "Suc 0" ds n] r_more [OF d1, of d2 TyOpenList ds "n - Suc 0"]
      show ?thesis by (simp add: st)
    qed
    from run_on_args [OF this p] obtain as toks' where
      r: "2 * n \<le> length (stack p)" "toks = toks' @ OpenList # as"
        "args od dq as (rev (take n (terms p)))"
        "parsed od dq (drop (2 * n) (stack p)) (drop n (terms p)) toks'"
      by (auto simp: opener_token_def)
    have "build_list (length (stack p) - 2 * n) nil_term n p = (Inr True, q)"
      using run nl ar idx False
      by (auto simp: reduce_list_def p_def [symmetric] Let_def compute_arity_in_list_def
          split: list.splits)
    from build_list_sound [OF this r(1,4) d_list [OF r(3)]] show ?thesis by (simp add: r(2))
  next
    case True
    then have "arity_in_list_from 2 1 ds = Some n"
      using ar st d1 by (auto simp: numeral_2_eq_2 split: if_splits)
    then have n: "Suc 0 < n" and r: "run_on TyOpenList ds (n - Suc 0)"
      using run_on_list [of 2 "Suc 0" ds n] by auto
    from p d1 obtain e ts toks1 seg where 1: "terms p = e # ts" "toks = toks1 @ seg"
      "operand od dq seg e" "parsed od dq (d2 # ds) ts toks1"
      unfolding st by (rule parsed_operandE)
    from 1(4) True obtain toks2 where 2: "toks1 = toks2 @ [HeadTailSeparator]" "parsed od dq ds ts toks2"
      and pri: "priority d2 = 1000" by (auto simp: parsed_cons item_def separator_def)
    from run_on_args [OF r 2(2)] obtain as toks' where
      a: "2 * n \<le> length (stack p)" "toks2 = toks' @ OpenList # as"
        "args od dq as (rev (take (n - Suc 0) ts))"
        "parsed od dq (drop (2 * (n - Suc 0)) ds) (drop (n - Suc 0) ts) toks'"
      using n by (auto simp: opener_token_def st)
    have dr: "drop (2 * n) (stack p) = drop (2 * (n - Suc 0)) ds"
      using n by (cases n) (auto simp: st)
    have "build_list (length (stack p) - 2 * n) e (n - Suc 0) (p\<lparr>terms := ts\<rparr>) = (Inr True, q)"
      using run nl ar idx True pri 1(1)
      by (auto simp: reduce_list_def p_def [symmetric] Let_def compute_arity_in_list_def
          split: list.splits)
    with build_list_sound [of "p\<lparr>terms := ts\<rparr>" "2 * n" e "n - Suc 0" q od dq toks'
        "OpenList # as @ HeadTailSeparator # seg @ [CloseList]"] d_partial_list [OF a(3) 1(3)] a dr
    show ?thesis by (simp add: 1(2) 2(1))
  qed
qed

section \<open>Shifting\<close>

lemma shift_separator_sound:
  assumes "parse_state od dq toks p" and "separator \<lparr>tt = ty, priority = pri, spec = s, unfold_bounds = 0\<rparr> tok"
    and "shift tok pri s p = p\<lparr>stack := \<lparr>tt = ty, priority = pri, spec = s, unfold_bounds = 0\<rparr> # stack p\<rparr>"
  shows "parse_state od dq (toks @ [tok]) (shift tok pri s p)"
  using assms p_sep by (simp add: parse_state_def)

lemma shift_open_sound:
  assumes "parse_state od dq toks p" and "tok \<in> {Open, OpenCT, OpenList, OpenCurly}"
  shows "parse_state od dq (toks @ [tok]) (shift tok pri DELIMITER p)"
  using assms by (auto simp: shift_def parse_state_def separator_def intro!: p_sep)

lemma shift_term_sound:
  assumes "parse_state od dq toks p" and "derives od dq seg 0 t" and "seg \<noteq> []"
    and "shift tok 0 TERM' p = p\<lparr>stack := term_desc 0 TERM' # stack p, terms := t # terms p\<rparr>"
  shows "parse_state od dq (toks @ seg) (shift tok 0 TERM' p)"
  using parsed_push [of od dq "stack p" "terms p" toks seg 0 t TERM'] assms by (simp add: parse_state_def)

lemma shift_literal: "shift (TLiteral l) 0 TERM' p =
    p\<lparr>stack := term_desc 0 TERM' # stack p, terms := Literal l # terms p\<rparr>"
  by (simp add: shift_def term_desc_def)

lemma shift_var: "shift (TVar v) 0 TERM' p =
    p\<lparr>stack := term_desc 0 TERM' # stack p, terms := var_term v # terms p\<rparr>"
  by (simp add: shift_def term_desc_def var_term_def)

lemma shift_string: "shift (TString s) 0 TERM' p =
    p\<lparr>stack := term_desc 0 TERM' # stack p, terms := string_term (double_quotes (plexer p)) s # terms p\<rparr>"
  by (simp add: shift_def term_desc_def string_term_def)

lemma cspec_is_term:
  assumes "get_op_desc name od = Some d"
  shows "is_term (cspec d) \<longleftrightarrow> is_negate (cspec d)" and "is_lterm (cspec d) \<longleftrightarrow> is_negate (cspec d)"
  using get_op_desc_Some [OF assms] by simp_all

lemma bits_of_infix_postfix:
  assumes "op_dir_ok od"
  shows "bits_of od name FixPost AND prefix_mask = 0" and "bits_of od name FixIn AND prefix_mask = 0"
proof -
  have "op_fixity k = FixPost \<Longrightarrow> op_value k AND prefix_mask = 0"
    and "op_fixity k = FixIn \<Longrightarrow> op_value k AND prefix_mask = 0" for k
    by (cases k; simp add: prefix_mask_def NEGATIVE_SIGN_def)+
  with op_dir_ok_fixity [OF assms] show "bits_of od name FixPost AND prefix_mask = 0"
    and "bits_of od name FixIn AND prefix_mask = 0"
    by (auto simp: bits_of_def split: option.splits)
qed

lemma negative_sign_spec:
  assumes "op_dir_ok od" and d: "get_op_desc name od = Some d" and "is_negate (cspec d)"
  shows "name = atm ''-''" and "pre d = 0" and "cspec d AND prefix_mask = NEGATIVE_SIGN"
proof -
  have n: "is_negate (sign_of od name)" using assms(3) get_op_desc_Some [OF d] by simp
  show "name = atm ''-''" using is_negate_sign_of [OF n] by blast
  show "pre d = 0" using is_negate_sign_of [OF n] get_op_desc_Some [OF d] by metis
  have "bits_of od name FixPre = 0" "sign_of od name = NEGATIVE_SIGN"
    using n by (auto simp: sign_of_def bits_of_def split: option.splits if_splits)
  with bits_of_infix_postfix [OF assms(1), of name] get_op_desc_Some [OF d]
  show "cspec d AND prefix_mask = NEGATIVE_SIGN"
    by (simp add: bit.conj_disj_distrib2 prefix_mask_def NEGATIVE_SIGN_def)
qed

lemma promote_sound:
  assumes "parse_state od dq toks p" and "item od dq (term_desc pri s) (Literal (Atom name)) [TLiteral (Atom name)]"
  shows "parse_state od dq (toks @ [TLiteral (Atom name)]) (promote_atom_op name pri s p)"
  using assms by (auto simp: parse_state_def promote_atom_op_def intro: p_item)

lemma item_operator:
  assumes "op_item od (term_desc pri s) name"
  shows "item od dq (term_desc pri s) (Literal (Atom name)) [TLiteral (Atom name)]"
  using assms by (auto simp: item_def term_desc_def)

lemma op_item_operator:
  assumes od: "op_dir_ok od" and d: "get_op_desc name od = Some d"
  shows "op_item od (term_desc (inf d + post d) (cspec d AND infix_postfix_mask)) name"
    and "\<not> is_negate (cspec d) \<Longrightarrow> op_item od (term_desc (pre d) (cspec d AND prefix_mask)) name"
    and "\<not> is_negate (cspec d) \<Longrightarrow> \<not> (pre d > 0 \<and> inf d + post d > 0) \<Longrightarrow>
      op_item od (term_desc (pre d + inf d + post d) (cspec d)) name"
proof -
  have kp: "is_kind k (cspec d) \<Longrightarrow> op_is_prefix k \<Longrightarrow> op_entry od name k (pre d)" for k
    using get_op_desc_kind [OF od d, of k] op_fixity_cases(1) [of k] by (simp add: kind_priority_def)
  have ki: "is_kind k (cspec d) \<Longrightarrow> \<not> op_is_prefix k \<Longrightarrow> op_entry od name k (inf d + post d)" for k
    using get_op_desc_kind [OF od d, of k] infix_postfix_exclusive [OF od d, of k] by simp
  have pos: "op_entry od name k n \<Longrightarrow> 0 < n" for k n by (auto simp: op_entry_def split: option.splits)
  note defs = op_item_def term_desc_def d cspec_is_term [OF d]
  show "op_item od (term_desc (inf d + post d) (cspec d AND infix_postfix_mask)) name"
    using ki by (simp add: defs)
  show "op_item od (term_desc (pre d) (cspec d AND prefix_mask)) name" if "\<not> is_negate (cspec d)"
    using kp that by (simp add: defs)
  show "op_item od (term_desc (pre d + inf d + post d) (cspec d)) name"
    if "\<not> is_negate (cspec d)" and excl: "\<not> (pre d > 0 \<and> inf d + post d > 0)"
  proof -
    have "op_entry od name k (pre d + inf d + post d)" if "is_kind k (cspec d)" for k
    proof (cases "op_is_prefix k")
      case True
      with kp [OF that] pos have "inf d + post d = 0" using excl by (metis neq0_conv)
      with kp [OF that True] show ?thesis by simp
    next
      case False
      with ki [OF that] pos have "pre d = 0" using excl by (metis neq0_conv)
      with ki [OF that False] show ?thesis by simp
    qed
    with that(1) show ?thesis by (simp add: defs)
  qed
qed

lemma shift_op_sound:
  assumes od: "op_dir_ok od" and p: "parse_state od dq toks p" and run: "shift_op name od p = (Inr b, q)"
  shows "if b then parse_state od dq (toks @ [TLiteral (Atom name)]) q
         else q = p \<and> get_op_desc name od = None"
proof (cases "get_op_desc name od")
  case None
  with run show ?thesis by (auto simp: shift_op_def)
next
  case (Some d)
  have op: "op_item od (term_desc n s) name \<Longrightarrow>
      parse_state od dq (toks @ [TLiteral (Atom name)]) (promote_atom_op name n s (reduce_op m p))" for n s m
    by (intro promote_sound parse_state_reduce_op p item_operator)
  have neg: "parse_state od dq (toks @ [TLiteral (Atom name)])
      (promote_atom_op name (pre d) (cspec d AND prefix_mask) (reduce_op m p))" for m
  proof (cases "is_negate (cspec d)")
    case True
    note n = negative_sign_spec [OF od Some True]
    have "bare_atom od name" using n(1) Some True by (auto simp: bare_atom_def)
    from d_atom [OF this] show ?thesis
      using n by (intro promote_sound parse_state_reduce_op p) (auto simp: item_def term_desc_def)
  next
    case False
    then show ?thesis by (intro op op_item_operator(2) [OF od Some])
  qed
  show ?thesis
    using run Some op [OF op_item_operator(1) [OF od Some]] neg op [OF op_item_operator(3) [OF od Some]]
    by (auto simp: shift_op_def Let_def split: if_splits list.splits)
qed

lemma negate_number_sound:
  assumes p: "parse_state od dq toks p" and l: "number_literal l"
  shows "parse_state od dq (toks @ [TLiteral l]) (negate_number l (negated l) p)"
proof (cases "\<exists>d ds ts. stack p = d # ds \<and> terms p = Literal (Atom (atm ''-'')) # ts \<and>
    (is_prefix (spec d) \<or> is_negate (spec d))")
  case True
  then obtain d ds ts where st: "stack p = d # ds" "terms p = Literal (Atom (atm ''-'')) # ts"
    "is_prefix (spec d) \<or> is_negate (spec d)" by blast
  from p have "parsed od dq (d # ds) (Literal (Atom (atm ''-'')) # ts) toks"
    by (simp only: parse_state_def st)
  then have "\<exists>toks'. parsed od dq ds ts toks' \<and> toks = toks' @ [TLiteral (Atom (atm ''-''))]"
  proof (cases rule: parsed.cases)
    case (p_item toks' seg)
    with st(3) have "seg = [TLiteral (Atom (atm ''-''))]" by (auto simp: item_def)
    with p_item show ?thesis by blast
  next
    case (p_sep toks' tok)
    with st(3) show ?thesis by simp
  qed
  then obtain toks' where 1: "parsed od dq ds ts toks'" "toks = toks' @ [TLiteral (Atom (atm ''-''))]" by blast
  from parsed_push [OF 1(1) d_negative [OF l], of TERM'] st 1(2) show ?thesis
    by (simp add: negate_number_def shift_literal parse_state_def)
next
  case False
  then have "negate_number l (negated l) p = shift (TLiteral l) 0 TERM' p"
    by (auto simp: negate_number_def split: list.splits Term.splits Literal.splits)
  moreover have "parse_state od dq (toks @ [TLiteral l]) (shift (TLiteral l) 0 TERM' p)"
    by (rule shift_term_sound [OF p d_number [OF l]]) (simp_all add: shift_literal)
  ultimately show ?thesis by simp
qed

lemma parse_state_unfold_bounds:
  assumes "parse_state od dq toks p"
  shows "parse_state od dq toks (set_unfold_bounds n p)"
proof -
  have "item od dq (d\<lparr>unfold_bounds := n\<rparr>) t seg = item od dq d t seg" "separator (d\<lparr>unfold_bounds := n\<rparr>) tok = separator d tok"
    for d t seg tok by (simp_all add: item_def op_item_def separator_def)
  with assms show ?thesis
    by (auto simp: set_unfold_bounds_def parse_state_def parsed_cons split: list.splits)
qed

lemma close_sound:
  assumes p: "parse_state od dq toks p" and apart: "brackets_apart toks"
    and run: "shift_token Close od p = (Inr (), q)"
  shows "parse_state od dq (toks @ [Close]) q"
proof -
  obtain b p1 where rt: "reduce_term p = (b, p1)" by fastforce
  note s = reduce_term_sound [OF p apart rt]
  show ?thesis
  proof (cases b)
    case True
    with run rt s show ?thesis by (simp add: shift_token_def)
  next
    case False
    with run rt have "reduce_brackets p1 = (True, q)"
      by (auto simp: shift_token_def check_reduced_def incomplete_reduction_def split: prod.splits if_splits)
    with reduce_brackets_sound s False show ?thesis by simp
  qed
qed

text \<open>
  One token: as long as the bar is not an operator and no opening bracket follows a closing one,
  the token is added to the parse.
\<close>

lemma shift_token_sound:
  assumes od: "op_dir_ok od" and bar: "get_op_desc (atm ''|'') od = None"
    and p: "parse_state od (double_quotes (plexer p)) toks p" and apart: "brackets_apart toks"
    and run: "shift_token tok od p = (Inr (), q)" and "tok \<noteq> End"
  shows "parse_state od (double_quotes (plexer p)) (toks @ [tok]) q"
proof (cases tok)
  case (TLiteral l)
  show ?thesis
  proof (cases "\<exists>a. l = Atom a")
    case True
    then obtain a where a: "l = Atom a" by blast
    have "andThen (shift_op a od)
        (\<lambda>is_operator. if is_operator then ret () else modify (shift tok 0 TERM')) p = (Inr (), q)"
      using run unfolding TLiteral a by (simp add: shift_token_def)
    then obtain b p1 where b: "shift_op a od p = (Inr b, p1)"
      and "(if b then ret () else modify (shift tok 0 TERM')) p1 = (Inr () :: ParserError + unit, q)"
      unfolding andThen_Inr_iff by blast
    then have q: "q = (if b then p1 else shift tok 0 TERM' p1)"
      by (cases b) (simp_all add: ret_run modify_run)
    note s = shift_op_sound [OF od p b]
    show ?thesis
    proof (cases b)
      case False
      with s have "bare_atom od a" "p1 = p" by (simp_all add: bare_atom_def)
      with shift_term_sound [OF p d_atom, of a tok] False q TLiteral a show ?thesis
        by (simp add: shift_literal)
    qed (use s q TLiteral a in simp)
  next
    case False
    show ?thesis
    proof (cases "number_literal l")
      case True
      then have "q = negate_number l (negated l) p"
        using run TLiteral by (cases l) (auto simp: shift_token_def number_literal_def)
      with negate_number_sound [OF p True] TLiteral show ?thesis by simp
    next
      case no: False
      with False run TLiteral obtain i where "l = CodeIndexOffset i" "q = shift tok 0 TERM' p"
        by (cases l) (auto simp: shift_token_def number_literal_def split: if_splits)
      with shift_term_sound [OF p d_index, of i tok] TLiteral show ?thesis by (simp add: shift_literal)
    qed
  qed
next
  case (TVar v)
  with run shift_term_sound [OF p d_var, of v tok] show ?thesis
    by (simp add: shift_token_def shift_var)
next
  case (TString s)
  with run shift_term_sound [OF p d_string, of s tok] show ?thesis
    by (simp add: shift_token_def shift_string)
next
  case Close
  with close_sound [OF p apart] run show ?thesis by simp
next
  case CloseList
  with run have "reduce_list p = (Inr True, q)"
    by (auto simp: shift_token_def andThen_Inr_iff ret_run incomplete_reduction_def split: if_splits)
  with reduce_list_sound [OF p] CloseList show ?thesis by simp
next
  case CloseCurly
  with run have "reduce_curly p = (Inr True, q)"
    by (auto simp: shift_token_def andThen_Inr_iff ret_run incomplete_reduction_def split: if_splits)
  with reduce_curly_sound [OF p] CloseCurly show ?thesis by simp
next
  case HeadTailSeparator
  let ?n = "of_nat (length (stack p) - length (stack (reduce_op 1000 p)))"
  have "parse_state od (double_quotes (plexer p)) (toks @ [HeadTailSeparator])
      (shift HeadTailSeparator 1000 DELIMITER (set_unfold_bounds ?n (reduce_op 1000 p)))"
    by (rule shift_separator_sound [where ty = TyHeadTailSeparator],
        intro parse_state_unfold_bounds parse_state_reduce_op p)
       (simp_all add: separator_def shift_def)
  with run HeadTailSeparator bar show ?thesis by (simp add: shift_token_def Let_def)
next
  case Comma
  have "parse_state od (double_quotes (plexer p)) (toks @ [Comma]) (shift Comma 1000 (op_value XFY) (reduce_op 1000 p))"
    by (rule shift_separator_sound [where ty = TyComma], intro parse_state_reduce_op p)
       (simp_all add: separator_def shift_def)
  with run Comma show ?thesis by (simp add: shift_token_def)
next
  case End
  with assms(6) show ?thesis by simp
qed (use run shift_open_sound [OF p] in \<open>auto simp: shift_token_def\<close>)

lemma parse_loop_sound:
  assumes "op_dir_ok od" and "get_op_desc (atm ''|'') od = None"
    and "parse_state od (double_quotes (plexer p)) toks p"
    and "brackets_apart (toks @ body)" and "End \<notin> set body" and "tokens p = body @ [End]"
    and "parse_loop od p = (Inr (), q)"
  shows "parse_state od (double_quotes (plexer p)) (toks @ body) q"
  using assms(3-)
proof (induction body arbitrary: toks p)
  case Nil
  then have "q = p\<lparr>tokens := []\<rparr>"
    by (auto simp: parse_loop.simps [of od p] parse_loop.simps [of od "p\<lparr>tokens := []\<rparr>"] shift_token_def
        incomplete_reduction_def split: list.splits if_splits prod.splits sum.splits)
  with Nil.prems show ?case by (simp add: parse_state_def)
next
  case (Cons tok body)
  let ?p = "p\<lparr>tokens := body @ [End]\<rparr>"
  from Cons.prems(5,4) obtain p1 where s: "shift_token tok od ?p = (Inr (), p1)" and l: "parse_loop od p1 = (Inr (), q)"
    by (auto simp: parse_loop.simps [of od p] split: prod.splits sum.splits)
  have in1: "plexer p1 = plexer p" "tokens p1 = body @ [End]"
    using same_input_shift_token [of ?p tok od] s by (simp_all add: same_input_def)
  have "brackets_apart toks" using Cons.prems(2) by (rule brackets_apart_prefix)
  moreover have "tok \<noteq> End" using Cons.prems(3) by auto
  ultimately have "parse_state od (double_quotes (plexer p1)) (toks @ [tok]) p1"
    using shift_token_sound [OF assms(1,2) _ _ s, of toks] Cons.prems(1) by (simp add: in1 parse_state_def)
  from Cons.IH [OF this] Cons.prems in1 l show ?case by simp
qed

lemma parsed_one:
  assumes "parsed od dq ds [t] toks" and "length ds \<le> 1"
  shows "operand od dq toks t"
  using assms by (cases ds) (auto simp: parsed_nil parsed_cons dest: item_operand)

lemma finish_term_sound:
  assumes "parse_state od dq toks p" and "finish_term p = (Inr t, q)"
  shows "operand od dq toks t"
proof -
  let ?p = "reduce_op 1400 p"
  have "parsed od dq (stack ?p) (terms ?p) toks"
    using parse_state_reduce_op [OF assms(1)] by (simp add: parse_state_def)
  moreover from assms(2) have "terms ?p = [t]" "length (stack ?p) \<le> 1"
    by (auto simp: finish_term_def Let_def incomplete_reduction_def split: if_splits list.splits)
  ultimately show ?thesis using parsed_one by simp
qed

lemma read_term_sound:
  assumes "op_dir_ok od" and "get_op_desc (atm ''|'') od = None" and "brackets_apart body"
    and "End \<notin> set body" and "stack p = []" and "terms p = []"
    and "read_term E od (Provided (body @ [End])) p = (Inr t, q)"
  shows "operand od (double_quotes (plexer p)) body t"
proof -
  let ?p = "p\<lparr>tokens := body @ [End]\<rparr>"
  from assms(7) obtain p1 where l: "parse_loop od ?p = (Inr (), p1)" and f: "finish_term p1 = (Inr t, q)"
    by (auto simp: read_term_def fetch_tokens_def andThen_Inr_iff)
  have "parse_state od (double_quotes (plexer ?p)) [] ?p"
    using assms(5,6) p_nil by (simp add: parse_state_def)
  from parse_loop_sound [OF assms(1,2) this _ assms(4) _ l] assms(3) finish_term_sound [OF _ f]
  show ?thesis by simp
qed

section \<open>From text\<close>

lemma read_tokens_loop_shape:
  assumes "read_tokens_loop E acc s = (Inr ts, s')" and "End \<notin> set acc"
  shows "\<exists>body. ts = End # body \<and> End \<notin> set body"
  using assms
proof (induction E acc s rule: read_tokens_loop.induct)
  case (1 E acc s)
  obtain r s1 where r: "next_token E s = (r, s1)" by fastforce
  show ?case
  proof (cases r)
    case (Inl e)
    with 1 r show ?thesis by (auto simp: read_tokens_loop.simps [of E acc s] split: if_splits)
  next
    case (Inr tok)
    show ?thesis
    proof (cases "tok = End")
      case True
      with 1 r Inr show ?thesis by (auto simp: read_tokens_loop.simps [of E acc s] token_is_end_def)
    next
      case False
      with 1(2) r Inr have "read_tokens_loop E (tok # acc) s1 = (Inr ts, s')"
        by (simp add: read_tokens_loop.simps [of E acc s] token_is_end_def)
      with 1(1) [of r s1 tok] 1(3) False r Inr show ?thesis by (simp add: token_is_end_def)
    qed
  qed
qed

lemma read_tokens_shape:
  assumes "read_tokens E s = (Inr ts, s')"
  obtains body where "ts = body @ [End]" and "End \<notin> set body"
proof -
  from assms obtain us where us: "read_tokens_loop E [] s = (Inr us, s')" and ts: "ts = rev us"
    by (auto simp: read_tokens_def andThen_Inr_iff ret_run)
  from read_tokens_loop_shape [OF us] obtain body where "us = End # body" "End \<notin> set body" by auto
  with ts show thesis by (intro that [of "rev body"]) simp_all
qed

end
