(* ===== verification/ParserCanon.thy ===== *)
theory ParserCanon
  imports ParserSound
begin

text \<open>
  Completeness of the parser on canonical terms: the token sequence of a term in functional
  notation (\<open>f(a, g(X), "s")\<close>), operators included as atoms and as functors, is read back as
  that term. The parser's reductions never fire inside such a sequence, since each operand
  stands between separators.
\<close>

section \<open>Canonical terms and their tokens\<close>

fun canon :: "Term \<Rightarrow> Token list" and canon_args :: "Term list \<Rightarrow> Token list" where
  "canon AnonVar = [TVar (atm ''_'')]"
| "canon (Var v) = [TVar v]"
| "canon (Literal l) = [TLiteral l]"
| "canon (CompleteString s) = [TString s]"
| "canon (Clause f ts) = TLiteral (Atom f) # OpenCT # canon_args ts @ [Close]"
| "canon (Cons h t) = []"
| "canon (PartialString s t) = []"
| "canon_args [] = []"
| "canon_args [t] = canon t"
| "canon_args (t # u # ts) = canon t @ Comma # canon_args (u # ts)"

text \<open>
  The canonical terms: no list cells, strings only where double quotes denote characters,
  compound terms with arguments, and not the list constructor \<open>'.'/2\<close>.
\<close>

fun canonical :: "DoubleQuotes \<Rightarrow> Term \<Rightarrow> bool" where
  "canonical dq AnonVar \<longleftrightarrow> True"
| "canonical dq (Var v) \<longleftrightarrow> trim v \<noteq> atm ''_''"
| "canonical dq (Literal l) \<longleftrightarrow> (case l of Atom a \<Rightarrow> True | _ \<Rightarrow> number_literal l)"
| "canonical dq (CompleteString s) \<longleftrightarrow> dq \<noteq> DQCodes"
| "canonical dq (Clause f ts) \<longleftrightarrow>
     ts \<noteq> [] \<and> \<not> (f = atm ''.'' \<and> length ts = 2) \<and> (\<forall>t\<in>set ts. canonical dq t)"
| "canonical dq (Cons h t) \<longleftrightarrow> False"
| "canonical dq (PartialString s t) \<longleftrightarrow> False"

text \<open>The minus sign has not been removed from the prefix operators.\<close>

definition minus_ok :: "CompositeOpDir \<Rightarrow> bool" where
  "minus_ok od \<longleftrightarrow>
     (case get_op_desc (atm ''-'') od of None \<Rightarrow> True | Some d \<Rightarrow> \<not> is_negate (cspec d))"

section \<open>Stacks on which no operator reduces\<close>

definition sep_desc :: "TokenDesc \<Rightarrow> bool" where
  "sep_desc d \<longleftrightarrow>
     is_sep (tt d) \<and> (spec d = DELIMITER \<or> spec d = op_value XFY \<and> priority d = 1000)"

definition operand_desc :: "TokenDesc \<Rightarrow> bool" where
  "operand_desc d \<longleftrightarrow> tt d = TyTerm \<and> (is_term (spec d) \<or> is_op (spec d))"

definition quiet :: "TokenDesc list \<Rightarrow> bool" where
  "quiet ds \<longleftrightarrow> (case ds of [] \<Rightarrow> True | d # _ \<Rightarrow> sep_desc d)"

lemma sep_desc_spec:
  assumes "sep_desc d"
  shows "\<not> is_term (spec d)" "\<not> is_lterm (spec d)" "k \<noteq> XFY \<Longrightarrow> \<not> is_kind k (spec d)"
    "is_kind XFY (spec d) \<Longrightarrow> priority d = 1000" "\<not> is_prefix (spec d)" "\<not> is_negate (spec d)"
  using assms by (auto simp: sep_desc_def is_prefix_kind simp del: op_value.simps)

lemma reduce_op_step_quiet:
  assumes "quiet (stack p)"
  shows "reduce_op_step pri p = None"
proof (cases "stack p")
  case (Cons d1 ds)
  with assms have s: "sep_desc d1" by (simp add: quiet_def)
  note facts = sep_desc_spec(1,2) [OF s] sep_desc_spec(3) [OF s, of YF] sep_desc_spec(3) [OF s, of XF]
  show ?thesis
  proof (cases ds)
    case (Cons d2 rest)
    with \<open>stack p = d1 # ds\<close> facts show ?thesis
      by (cases rest) (simp_all add: reduce_op_step_def reduce_unary_def affirm_xfx_def affirm_yfx_def
          affirm_xfy_def affirm_fy_def affirm_fx_def)
  qed (simp add: reduce_op_step_def Cons)
qed (simp add: reduce_op_step_def)

lemma reduce_op_step_operand:
  assumes st: "stack p = d # ds" and "quiet ds" and "pri \<le> 1000 \<or> ds = []"
  shows "reduce_op_step pri p = None"
proof (cases ds)
  case (Cons d2 rest)
  with assms have s: "sep_desc d2" and pri: "pri \<le> 1000" by (simp_all add: quiet_def)
  note facts = sep_desc_spec(1,2,4) [OF s] sep_desc_spec(3) [OF s, of FY]
    sep_desc_spec(3) [OF s, of FX] sep_desc_spec(3) [OF s, of XFX] sep_desc_spec(3) [OF s, of YFX]
  with Cons st pri show ?thesis
    by (cases rest) (auto simp: reduce_op_step_def reduce_unary_def affirm_xfy_def affirm_yf_def affirm_xf_def)
qed (simp add: reduce_op_step_def st)

lemma reduce_op_quiet: "quiet (stack p) \<Longrightarrow> reduce_op pri p = p"
  by (simp add: reduce_op.simps reduce_op_step_quiet)

lemma reduce_op_operand:
  "stack p = d # ds \<Longrightarrow> quiet ds \<Longrightarrow> pri \<le> 1000 \<or> ds = [] \<Longrightarrow> reduce_op pri p = p"
  by (simp add: reduce_op.simps reduce_op_step_operand)

section \<open>One operand\<close>

definition pushed :: "Parser \<Rightarrow> TokenDesc \<Rightarrow> Term \<Rightarrow> Parser" where
  "pushed p d t = p\<lparr>stack := d # stack p, terms := t # terms p\<rparr>"

lemma operand_term_desc [simp]: "operand_desc (term_desc n TERM')"
  by (simp add: operand_desc_def term_desc_def)

lemma op_bits:
  assumes "op_dir_ok od" and d: "get_op_desc name od = Some d"
  shows "0 < pre d \<Longrightarrow> is_op (cspec d AND prefix_mask) \<and> is_op (cspec d)"
    and "0 < inf d + post d \<Longrightarrow> is_op (cspec d AND infix_postfix_mask) \<and> is_op (cspec d)"
proof -
  have kind: "is_op s" if "is_kind k s" for k s
    using that unfolding is_op_def is_kind_def and.commute [of s] or_and_eq_0 by (cases k) blast+
  have ent: "0 < prio_of od name fx \<Longrightarrow> \<exists>k. op_fixity k = fx \<and> is_kind k (bits_of od name fx)" for fx
    using op_dir_ok_fixity [OF assms(1)] by (auto simp: prio_of_def bits_of_def split: option.splits)
  note D = get_op_desc_Some [OF d]
  show "is_op (cspec d AND prefix_mask) \<and> is_op (cspec d)" if "0 < pre d"
  proof -
    from that D ent obtain k where "op_fixity k = FixPre" "is_kind k (cspec d)" by auto
    with kind [of k] show ?thesis by (auto simp: op_fixity_cases intro!: kind [of k])
  qed
  show "is_op (cspec d AND infix_postfix_mask) \<and> is_op (cspec d)" if "0 < inf d + post d"
  proof -
    have "0 < prio_of od name FixIn \<or> 0 < prio_of od name FixPost" using that D by auto
    then obtain k where "op_fixity k \<noteq> FixPre"
      "is_kind k (bits_of od name FixIn) \<or> is_kind k (bits_of od name FixPost)"
      using ent [of FixIn] ent [of FixPost] by force
    with D have "\<not> op_is_prefix k" "is_kind k (cspec d)" by (auto simp: op_fixity_cases)
    with kind [of k] show ?thesis by (auto simp: op_fixity_cases intro!: kind [of k])
  qed
qed

lemma shift_atom:
  assumes od: "op_dir_ok od" "minus_ok od" and q: "quiet (stack p)" and "tokens p \<noteq> []"
  obtains d where "shift_token (TLiteral (Atom a)) od p = (Inr (), pushed p d (Literal (Atom a)))"
    and "tt d = TyTerm" and "spec d \<noteq> BTERM" and "hd (tokens p) \<noteq> OpenCT \<Longrightarrow> operand_desc d"
proof (cases "get_op_desc a od")
  case None
  then show thesis
    by (intro that [of "term_desc 0 TERM'"])
       (simp_all add: shift_token_def shift_op_def run_simps shift_literal pushed_def, simp_all add: term_desc_def)
next
  case (Some d)
  obtain tok rest where tk: "tokens p = tok # rest" using assms(4) by (cases "tokens p") auto
  have neg: "\<not> is_negate (cspec d)"
    using od negative_sign_spec(1) [OF od(1) Some] Some by (auto simp: minus_ok_def)
  have bt: "\<not> is_term s \<Longrightarrow> s \<noteq> BTERM" for s by auto
  have promote: "promote_atom_op a n s p = pushed p (term_desc n s) (Literal (Atom a))" for n s
    by (simp add: promote_atom_op_def pushed_def)
  note ro = reduce_op_quiet [OF q]
  have top: "stack p = [] \<or> (\<exists>e ds. stack p = e # ds \<and> \<not> is_term (spec e))"
    using q sep_desc_spec(1) by (auto simp: quiet_def split: list.splits)
  have st: "shift_token (TLiteral (Atom a)) od p =
      (case shift_op a od p of (Inr b, p1) \<Rightarrow> (if b then (Inr (), p1) else (Inr (), shift (TLiteral (Atom a)) 0 TERM' p1))
       | (Inl e, p1) \<Rightarrow> (Inl e, p1))"
    by (auto simp: shift_token_def run_simps split: prod.splits sum.splits)
  note bits = op_bits [OF od(1) Some]
  show thesis
  proof (cases "0 < pre d \<and> 0 < inf d + post d")
    case True
    show thesis
    proof (cases "tok = OpenCT")
      case True
      with \<open>0 < pre d \<and> 0 < inf d + post d\<close> show thesis
        by (intro that [of "term_desc (inf d + post d) (cspec d AND infix_postfix_mask)"])
           (simp_all add: st shift_op_def Some tk ro promote Let_def bt term_desc_def)
    next
      case False
      with \<open>0 < pre d \<and> 0 < inf d + post d\<close> top bits neg show thesis
        by (intro that [of "term_desc (pre d) (cspec d AND prefix_mask)"])
           (auto simp: st shift_op_def Some tk ro promote Let_def bt term_desc_def operand_desc_def)
    qed
  next
    case False
    have "0 < pre d \<or> 0 < inf d + post d"
      using Some neg by (auto simp: get_op_desc_def Let_def split: if_splits)
    with False bits neg cspec_is_term(1) [OF Some] show thesis
      by (intro that [of "term_desc (pre d + inf d + post d) (cspec d)"])
         (auto simp: st shift_op_def Some ro promote Let_def bt term_desc_def operand_desc_def)
  qed
qed

lemma shift_number_quiet:
  assumes "quiet (stack p)" and "number_literal l"
  shows "shift_token (TLiteral l) od p = (Inr (), pushed p (term_desc 0 TERM') (Literal l))"
proof -
  have "negate_number l m p = shift (TLiteral l) 0 TERM' p" for m
    using assms(1) sep_desc_spec(5,6)
    by (auto simp: negate_number_def quiet_def split: list.splits Term.splits Literal.splits)
  with assms(2) show ?thesis
    by (cases l) (simp_all add: shift_token_def number_literal_def shift_literal pushed_def)
qed

section \<open>Sequences of operands\<close>

definition comma_desc :: TokenDesc where
  "comma_desc = \<lparr>tt = TyComma, priority = 1000, spec = op_value XFY, unfold_bounds = 0\<rparr>"

definition opener_desc :: TokenDesc where
  "opener_desc = \<lparr>tt = TyOpenCT, priority = 1300, spec = DELIMITER, unfold_bounds = 0\<rparr>"

text \<open>Operands separated by commas, as they lie on the stack.\<close>

fun alternating :: "TokenDesc list \<Rightarrow> bool" where
  "alternating [d] \<longleftrightarrow> operand_desc d"
| "alternating (d # c # ds) \<longleftrightarrow> operand_desc d \<and> c = comma_desc \<and> alternating ds"
| "alternating [] \<longleftrightarrow> False"

lemma alternating_append:
  "alternating ds \<Longrightarrow> operand_desc d \<Longrightarrow> alternating (ds @ [comma_desc, d])"
  by (induction ds rule: alternating.induct) auto

lemma alternating_arity:
  assumes "alternating ds" and "tt oct = TyOpenCT" and "even i"
  shows "arity_in_brackets_from i n (ds @ oct # rest) = Some (n + (length ds + 1) div 2)"
  using assms
  by (induction ds arbitrary: i n rule: alternating.induct)
     (auto simp: operand_desc_def comma_desc_def even_iff_mod_2_eq_zero [symmetric] Suc_diff_le)

lemma alternating_odd: "alternating ds \<Longrightarrow> odd (length ds)"
  by (induction ds rule: alternating.induct) auto

lemma shift_comma:
  assumes "stack p = d # ds" and "quiet ds"
  shows "shift_token Comma od p = (Inr (), p\<lparr>stack := comma_desc # stack p\<rparr>)"
  using assms reduce_op_operand [of p d ds 1000]
  by (simp add: shift_token_def shift_def comma_desc_def)

lemma shift_opener: "shift_token OpenCT od p = (Inr (), p\<lparr>stack := opener_desc # stack p\<rparr>)"
  by (simp add: shift_token_def shift_def opener_desc_def)

lemma quiet_descs [simp]: "quiet (comma_desc # ds)" "quiet (opener_desc # ds)"
  by (simp_all add: quiet_def sep_desc_def comma_desc_def opener_desc_def is_sep_def)

lemma alternating_top:
  assumes "alternating ds"
  obtains d ds' where "ds = d # ds'" and "\<forall>rest. quiet (ds' @ opener_desc # rest)"
  using assms by (cases ds rule: alternating.cases) auto

text \<open>The closing bracket of a compound term.\<close>

lemma vec_at_append: "vec_at (xs @ d # ys) (length ys) = d"
  by (simp add: vec_at_def nth_append)

lemma vec_truncate_append: "length ys = n \<Longrightarrow> vec_truncate n (xs @ ys) = ys"
  by (simp add: vec_truncate_def)

lemma reduce_term_canonical:
  assumes st: "stack p = ds @ opener_desc # df # base" and alt: "alternating ds"
    and n: "length ds + 1 = 2 * length ts" and tm: "terms p = rev ts @ Literal (Atom f) # tms"
    and df: "tt df = TyTerm" "spec df \<noteq> BTERM" and q: "quiet base"
  shows "reduce_term p = (True, p\<lparr>stack := term_desc 0 TERM' # base, terms := compound f ts # tms\<rparr>)"
proof -
  from alt obtain d ds' where d: "ds = d # ds'" "\<forall>rest. quiet (ds' @ opener_desc # rest)"
    by (rule alternating_top)
  have ro: "reduce_op 999 p = p"
    using st d by (intro reduce_op_operand [of p d "ds' @ opener_desc # df # base"]) auto
  have ar: "compute_arity_in_brackets p = Some (length ts)"
    using alternating_arity [OF alt, of opener_desc 0 0 "df # base"] n
    by (simp add: compute_arity_in_brackets_def st opener_desc_def)
  have len: "length (stack p) = 2 * length ts + Suc (length base)" using n by (simp add: st)
  have at: "vec_at (stack p) (length base) = df"
    using vec_at_append [of "ds @ [opener_desc]" df base] by (simp add: st)
  have guard: "\<not> (0 < length base \<and> \<not> is_sep (tt (vec_at (stack p) (length base - Suc 0))))"
  proof (cases base)
    case (Cons b bs)
    with vec_at_append [of "ds @ [opener_desc, df]" b bs] q show ?thesis
      by (simp add: st quiet_def sep_desc_def)
  qed simp
  have trunc: "vec_truncate (length base + 1) (stack p) = df # base"
    using vec_truncate_append [of "df # base" "length base + 1" "ds @ [opener_desc]"] by (simp add: st)
  have tat: "vec_at (terms p) (length (terms p) - length ts - 1) = Literal (Atom f)"
    using vec_at_append [of "rev ts" "Literal (Atom f)" tms] by (simp add: tm)
  have "stack p \<noteq> []" by (simp add: st)
  with guard at trunc tat df show ?thesis
    by (auto simp: reduce_term_def Let_def ro ar len tm atomize_term_def compound_def)
qed

lemma shift_close_canonical:
  assumes "stack p = ds @ opener_desc # df # base" and "alternating ds"
    and "length ds + 1 = 2 * length ts" and "terms p = rev ts @ Literal (Atom f) # tms"
    and "tt df = TyTerm" "spec df \<noteq> BTERM" and "quiet base"
  shows "shift_token Close od p =
    (Inr (), p\<lparr>stack := term_desc 0 TERM' # base, terms := compound f ts # tms\<rparr>)"
  using reduce_term_canonical [OF assms] by (simp add: shift_token_def)

section \<open>Canonical terms are read back\<close>

lemma parse_loop_cons:
  assumes "tokens p = tok # rest" and "shift_token tok od (p\<lparr>tokens := rest\<rparr>) = (Inr (), q)"
  shows "parse_loop od p = parse_loop od q"
  using assms by (simp add: parse_loop.simps [of od p])

definition loads :: "CompositeOpDir \<Rightarrow> Parser \<Rightarrow> Token list \<Rightarrow> TokenDesc list \<Rightarrow> Term list \<Rightarrow> bool" where
  "loads od p rest ds ts \<longleftrightarrow>
     parse_loop od p = parse_loop od (p\<lparr>tokens := rest, stack := ds @ stack p, terms := ts @ terms p\<rparr>)"

lemma canon_not_opener: "canonical dq t \<Longrightarrow> canon t @ rest \<noteq> [] \<and> hd (canon t @ rest) \<noteq> OpenCT"
  by (cases t) auto

lemma tokens_update_last:
  "(p :: Parser)\<lparr>stack := a, terms := b, tokens := c\<rparr> = p\<lparr>tokens := c, stack := a, terms := b\<rparr>"
  by simp

lemma loads_leaf:
  assumes "tokens p = tok # rest" and "shift_token tok od (p\<lparr>tokens := rest\<rparr>) = (Inr (), pushed (p\<lparr>tokens := rest\<rparr>) d t)"
  shows "loads od p rest [d] [t]"
  using parse_loop_cons [OF assms] by (simp add: loads_def pushed_def)

lemma loads_compound:
  assumes od: "op_dir_ok od" "minus_ok od" and q: "quiet (stack p)"
    and tk: "tokens p = TLiteral (Atom f) # OpenCT # body @ Close # rest"
    and args: "\<And>p'. quiet (stack p') \<Longrightarrow> plexer p' = plexer p \<Longrightarrow> tokens p' = body @ Close # rest \<Longrightarrow>
      \<exists>ds. alternating ds \<and> length ds + 1 = 2 * length ts \<and> loads od p' (Close # rest) ds (rev ts)"
  shows "loads od p rest [term_desc 0 TERM'] [compound f ts]"
proof -
  let ?p1 = "p\<lparr>tokens := OpenCT # body @ Close # rest\<rparr>"
  have "quiet (stack ?p1)" "tokens ?p1 \<noteq> []" using q by simp_all
  from shift_atom [OF od this] obtain d where
    d: "shift_token (TLiteral (Atom f)) od ?p1 = (Inr (), pushed ?p1 d (Literal (Atom f)))"
      "tt d = TyTerm" "spec d \<noteq> BTERM" by blast
  let ?p2 = "pushed (p\<lparr>tokens := body @ Close # rest\<rparr>) d (Literal (Atom f))"
  let ?p3 = "?p2\<lparr>stack := opener_desc # d # stack p\<rparr>"
  have "parse_loop od p = parse_loop od (pushed ?p1 d (Literal (Atom f)))"
    using parse_loop_cons [OF tk d(1)] .
  also have "\<dots> = parse_loop od ?p3"
    by (rule parse_loop_cons [of _ OpenCT "body @ Close # rest"]) (simp_all add: pushed_def shift_opener)
  finally have 1: "parse_loop od p = parse_loop od ?p3" .
  from args [of ?p3] obtain ds where ds: "alternating ds" "length ds + 1 = 2 * length ts"
    "loads od ?p3 (Close # rest) ds (rev ts)" by (auto simp: pushed_def)
  let ?p4 = "?p3\<lparr>tokens := rest, stack := ds @ opener_desc # d # stack p, terms := rev ts @ Literal (Atom f) # terms p\<rparr>"
  have "shift_token Close od ?p4 =
      (Inr (), ?p4\<lparr>stack := term_desc 0 TERM' # stack p, terms := compound f ts # terms p\<rparr>)"
    by (rule shift_close_canonical [OF _ ds(1,2) _ d(2,3) q]) simp_all
  then have "parse_loop od (?p4\<lparr>tokens := Close # rest\<rparr>) =
      parse_loop od (?p4\<lparr>stack := term_desc 0 TERM' # stack p, terms := compound f ts # terms p\<rparr>)"
    by (intro parse_loop_cons) (simp_all add: pushed_def tokens_update_last)
  with 1 ds(3) show ?thesis by (simp add: loads_def pushed_def tokens_update_last)
qed

lemma loads_trans:
  assumes "loads od p rest1 ds1 ts1"
    and "loads od (p\<lparr>tokens := rest1, stack := ds1 @ stack p, terms := ts1 @ terms p\<rparr>) rest2 ds2 ts2"
  shows "loads od p rest2 (ds2 @ ds1) (ts2 @ ts1)"
  using assms by (simp add: loads_def)

lemma loads_comma:
  assumes "tokens p = Comma # rest" and "stack p = d # ds" and "quiet ds"
  shows "loads od p rest [comma_desc] []"
  using parse_loop_cons [OF assms(1) shift_comma [of "p\<lparr>tokens := rest\<rparr>" d ds]] assms
  by (simp add: loads_def)

lemma loads_canon:
  assumes od: "op_dir_ok od" "minus_ok od"
  shows "canonical dq t \<Longrightarrow> quiet (stack p) \<Longrightarrow> double_quotes (plexer p) = dq \<Longrightarrow> tokens p = canon t @ rest \<Longrightarrow>
      rest \<noteq> [] \<Longrightarrow> hd rest \<noteq> OpenCT \<Longrightarrow> \<exists>d. operand_desc d \<and> loads od p rest [d] [t]"
    and "ts \<noteq> [] \<Longrightarrow> \<forall>t\<in>set ts. canonical dq t \<Longrightarrow> quiet (stack p) \<Longrightarrow> double_quotes (plexer p) = dq \<Longrightarrow>
      tokens p = canon_args ts @ rest \<Longrightarrow> rest \<noteq> [] \<Longrightarrow> hd rest \<noteq> OpenCT \<Longrightarrow>
      \<exists>ds. alternating ds \<and> length ds + 1 = 2 * length ts \<and> loads od p rest ds (rev ts)"
proof (induction t and ts arbitrary: p rest and p rest rule: canon_canon_args.induct)
  case 1
  have "shift_token (TVar (atm ''_'')) od (p\<lparr>tokens := rest\<rparr>) =
      (Inr (), pushed (p\<lparr>tokens := rest\<rparr>) (term_desc 0 TERM') AnonVar)"
    by (simp add: shift_token_def shift_var pushed_def var_term_def trim_def is_whitespace_def)
  with loads_leaf 1 operand_term_desc show ?case by fastforce
next
  case (2 v)
  then have "shift_token (TVar v) od (p\<lparr>tokens := rest\<rparr>) =
      (Inr (), pushed (p\<lparr>tokens := rest\<rparr>) (term_desc 0 TERM') (Var v))"
    by (simp add: shift_token_def shift_var pushed_def var_term_def)
  with loads_leaf 2 operand_term_desc show ?case by fastforce
next
  case (3 l)
  show ?case
  proof (cases "\<exists>a. l = Atom a")
    case True
    then obtain a where a: "l = Atom a" by blast
    from 3 have q: "quiet (stack (p\<lparr>tokens := rest\<rparr>))" "tokens (p\<lparr>tokens := rest\<rparr>) \<noteq> []" by simp_all
    from shift_atom [OF od q, of a] obtain d where
      "shift_token (TLiteral (Atom a)) od (p\<lparr>tokens := rest\<rparr>) =
        (Inr (), pushed (p\<lparr>tokens := rest\<rparr>) d (Literal (Atom a)))" "operand_desc d"
      using 3(6) by auto
    with loads_leaf 3 a show ?thesis by fastforce
  next
    case False
    with 3 have "number_literal l" by (cases l) auto
    with shift_number_quiet [of "p\<lparr>tokens := rest\<rparr>" l od] 3 operand_term_desc loads_leaf show ?thesis
      by fastforce
  qed
next
  case (4 s)
  then have "shift_token (TString s) od (p\<lparr>tokens := rest\<rparr>) =
      (Inr (), pushed (p\<lparr>tokens := rest\<rparr>) (term_desc 0 TERM') (CompleteString s))"
    by (simp add: shift_token_def shift_string pushed_def string_term_def)
  with loads_leaf 4 operand_term_desc show ?case by fastforce
next
  case (5 f ts)
  have "loads od p rest [term_desc 0 TERM'] [compound f ts]"
    using 5 by (intro loads_compound [OF od, of p f "canon_args ts"]) auto
  moreover have "compound f ts = Clause f ts" using 5(2) by (auto simp: compound_def)
  ultimately show ?case by force
next
  case (9 t)
  then obtain d where "operand_desc d" "loads od p rest [d] [t]" by auto
  then show ?case by (intro exI [of _ "[d]"]) simp
next
  case (10 t u ts)
  let ?rest = "Comma # canon_args (u # ts) @ rest"
  from 10(1) [of p ?rest] 10(3-) obtain d where d: "operand_desc d" "loads od p ?rest [d] [t]" by auto
  let ?p1 = "p\<lparr>tokens := ?rest, stack := [d] @ stack p, terms := [t] @ terms p\<rparr>"
  have "loads od ?p1 (canon_args (u # ts) @ rest) [comma_desc] []"
    using 10(5) by (intro loads_comma [of _ _ d "stack p"]) simp_all
  from loads_trans [OF d(2) this] have
    1: "loads od p (canon_args (u # ts) @ rest) [comma_desc, d] [t]" by simp
  let ?p2 = "p\<lparr>tokens := canon_args (u # ts) @ rest, stack := [comma_desc, d] @ stack p, terms := [t] @ terms p\<rparr>"
  from 10(2) [of ?p2 rest] 10(3-) obtain ds where ds: "alternating ds" "length ds + 1 = 2 * length (u # ts)"
    "loads od ?p2 rest ds (rev (u # ts))" by auto
  from loads_trans [OF 1 ds(3)] alternating_append [OF ds(1) d(1)] ds(2) show ?case
    by (intro exI [of _ "ds @ [comma_desc, d]"]) simp
qed auto

lemma parse_canonical:
  assumes od: "op_dir_ok od" "minus_ok od" and t: "canonical (double_quotes (plexer p)) t"
    and "stack p = []" and "terms p = []" and tk: "tokens p = canon t @ [End]"
  shows "\<exists>q. andThen (parse_loop od) (\<lambda>_. finish_term) p = (Inr t, q) \<and> plexer q = plexer p"
proof -
  from loads_canon(1) [OF od t, of p "[End]"] assms(4) tk obtain d where d: "operand_desc d"
    "loads od p [End] [d] [t]" by (auto simp: quiet_def)
  let ?q = "p\<lparr>tokens := [], stack := [d], terms := [t]\<rparr>"
  have "parse_loop od p = (Inr (), ?q)"
    using d assms(4,5)
    by (auto simp: loads_def parse_loop.simps [of od "p\<lparr>tokens := [End], stack := [d], terms := [t]\<rparr>"]
        parse_loop.simps [of od ?q] shift_token_def operand_desc_def tokens_update_last)
  moreover have "reduce_op 1400 ?q = ?q" by (intro reduce_op_operand [of _ d "[]"]) (simp_all add: quiet_def)
  ultimately show ?thesis by (simp add: andThen_run finish_term_def)
qed

end
