(* ===== verification/TermText.thy ===== *)
theory TermText
  imports RoundTrip ParserCanon
begin

text \<open>
  Writing and reading back: the text of a canonical term (atoms quoted as the printer quotes
  them, non-negative integers, variables, strings, compound terms in functional notation),
  followed by the end token, goes through the lexer and the parser and yields the term.
\<close>

section \<open>The text of a term\<close>

fun term_text :: "lex_env \<Rightarrow> Term \<Rightarrow> uchar list" and args_text :: "lex_env \<Rightarrow> Term list \<Rightarrow> uchar list" where
  "term_text E AnonVar = [95]"
| "term_text E (Var v) = v"
| "term_text E (Literal l) =
     (case l of Atom a \<Rightarrow> print_op_addendum E True a
              | LFixnum f \<Rightarrow> to_radix 10 (nat (get_num f))
              | Integer n \<Rightarrow> to_radix 10 (nat n)
              | _ \<Rightarrow> [])"
| "term_text E (CompleteString s) = proper_string_text True s"
| "term_text E (Clause f ts) = print_op_addendum E True f @ 40 # args_text E ts @ [41]"
| "term_text E (Cons h t) = []"
| "term_text E (PartialString s t) = []"
| "args_text E [] = []"
| "args_text E [t] = term_text E t"
| "args_text E (t # u # ts) = term_text E t @ 44 # args_text E (u # ts)"

definition writable_atom :: "atom \<Rightarrow> bool" where
  "writable_atom a \<longleftrightarrow> list_all valid_char a \<and> a \<notin> {[39, 39], atm ''[]'', atm ''{}''}"

definition variable_name :: "lex_env \<Rightarrow> uchar list \<Rightarrow> bool" where
  "variable_name E v \<longleftrightarrow>
     (case v of [] \<Rightarrow> False
      | c # cs \<Rightarrow> (capital_letter_char E c \<or> c = 95) \<and> list_all (alpha_numeric_char E) cs)"

fun writable :: "lex_env \<Rightarrow> DoubleQuotes \<Rightarrow> Term \<Rightarrow> bool" where
  "writable E dq AnonVar \<longleftrightarrow> True"
| "writable E dq (Var v) \<longleftrightarrow> variable_name E v"
| "writable E dq (Literal l) \<longleftrightarrow>
     (case l of Atom a \<Rightarrow> writable_atom a
              | LFixnum f \<Rightarrow> 0 \<le> get_num f \<and> ftag f = TagFixnum
              | Integer n \<Rightarrow> Fixnum_MAX < n
              | _ \<Rightarrow> False)"
| "writable E dq (CompleteString s) \<longleftrightarrow> dq = DQChars \<and> list_all valid_char s"
| "writable E dq (Clause f ts) \<longleftrightarrow> writable_atom f \<and> (\<forall>t\<in>set ts. writable E dq t)"
| "writable E dq (Cons h t) \<longleftrightarrow> False"
| "writable E dq (PartialString s t) \<longleftrightarrow> False"

section \<open>Sequences of tokens\<close>

definition lex_seq :: "lex_env \<Rightarrow> DoubleQuotes \<Rightarrow> uchar list \<Rightarrow> Token list \<Rightarrow> uchar list \<Rightarrow> bool" where
  "lex_seq E dq inp toks rest \<longleftrightarrow>
     (\<forall>s. chars s = inp \<and> double_quotes s = dq \<longrightarrow>
        (\<exists>t. chars t = rest \<and> double_quotes t = dq \<and>
             (\<forall>acc. read_tokens_loop E acc s = read_tokens_loop E (rev toks @ acc) t)))"

lemma lex_seq_trans:
  assumes "lex_seq E dq inp toks1 mid" and "lex_seq E dq mid toks2 rest"
  shows "lex_seq E dq inp (toks1 @ toks2) rest"
  using assms unfolding lex_seq_def by fastforce

lemma lex_seq_nil: "lex_seq E dq inp [] inp"
  by (auto simp: lex_seq_def)

lemma lex_seq_token:
  assumes "tok \<noteq> End" and "\<And>s. chars s = inp \<Longrightarrow> double_quotes s = dq \<Longrightarrow>
      \<exists>t. next_token E s = (Inr tok, t) \<and> chars t = rest \<and> double_quotes t = dq"
  shows "lex_seq E dq inp [tok] rest"
  unfolding lex_seq_def
proof (intro allI impI)
  fix s :: lexer
  assume "chars s = inp \<and> double_quotes s = dq"
  with assms(2) obtain t where "next_token E s = (Inr tok, t)" "chars t = rest" "double_quotes t = dq"
    by blast
  with assms(1) show "\<exists>t. chars t = rest \<and> double_quotes t = dq \<and>
      (\<forall>acc. read_tokens_loop E acc s = read_tokens_loop E (rev [tok] @ acc) t)"
    by (auto simp: read_tokens_loop.simps [of E _ s] token_is_end_def)
qed

lemma lex_seq_reads:
  assumes "reads (next_token E) inp tok rest" and "tok \<noteq> End"
  shows "lex_seq E dq inp [tok] rest"
  using assms by (intro lex_seq_token) (auto simp: reads_def same_config_def)

text \<open>The characters that follow an operand.\<close>

definition delimiter :: "uchar \<Rightarrow> bool" where
  "delimiter d \<longleftrightarrow> d \<in> {40, 41, 44, 32}"

lemma delimiter_ends:
  assumes "delimiter d"
  shows "name_end E d" and "number_end E d" and "\<not> alpha_numeric_char E d" and "d \<noteq> 34"
  using assms
  by (auto simp: delimiter_def name_end_def number_end_def alpha_numeric_char_def alpha_char_def
      is_alphabetic_def is_numeric_def is_ascii_digit_def graphic_token_char_def class_defs)

lemma reads_punctuation:
  "reads (next_token E) (40 # rest) OpenCT rest"
  "reads (next_token E) (44 # rest) Comma rest"
  "reads (next_token E) (41 # rest) Close rest"
proof -
  have tok: "reads (next_token E) (c # rest) tok rest"
    if "token_at E False c = andThen (skip_char c) (\<lambda>_. ret tok)" "layout_stop (c # rest)" for c tok
  proof (rule reads_next_token [OF that(2)])
    show "reads (token_at E False c) (c # rest) tok rest"
      unfolding that(1) by (rule reads_drop, rule reads_ret)
  qed
  have stop: "layout_stop (c # rest)" if "c \<in> {40, 41, 44}" for c
    using that by (cases rest) (auto simp: fixed_class_defs)
  show "reads (next_token E) (40 # rest) OpenCT rest" "reads (next_token E) (44 # rest) Comma rest"
    "reads (next_token E) (41 # rest) Close rest"
    by (rule tok; simp add: stop token_at_def capital_letter_char_def is_uppercase_def
        variable_indicator_char_def)+
qed

lemma reads_variable:
  assumes "variable_name E v" and "delimiter d"
  shows "reads (next_token E) (v @ d # rest) (TVar v) (d # rest)"
proof -
  from assms(1) obtain c cs where v: "v = c # cs" "capital_letter_char E c \<or> c = 95"
    "\<forall>x\<in>set cs. alpha_numeric_char E x" by (cases v) (auto simp: variable_name_def list_all_iff)
  have "reads (variable_token E) (c # cs @ d # rest) (TVar (c # cs)) (d # rest)"
    unfolding variable_token_def
    by (rule reads_andThen [OF reads_read], rule reads_andThen [OF reads_token_loop [OF v(3)]])
       (simp_all add: delimiter_ends [OF assms(2)] reads_ret)
  moreover have "token_at E False c = variable_token E"
    using v(2) by (auto simp: token_at_def variable_indicator_char_def)
  moreover have "c = 95 \<or> 65 \<le> c \<and> c \<le> 90 \<or> 128 \<le> c"
    using v(2) by (auto simp: capital_letter_char_def is_uppercase_def split: if_splits)
  then have "layout_stop (c # cs @ d # rest)"
    by (cases "cs @ d # rest") (auto simp: layout_char_def)
  ultimately show ?thesis using reads_next_token v(1) by simp
qed

lemma lex_seq_string:
  assumes "list_all valid_char cs" and "delimiter d"
  shows "lex_seq E DQChars (proper_string_text True cs @ d # rest) [TString cs] (d # rest)"
proof (rule lex_seq_token)
  fix s :: lexer
  assume s: "chars s = proper_string_text True cs @ d # rest" "double_quotes s = DQChars"
  then obtain xs where xs: "chars s = 34 # xs" by (simp add: proper_string_text_def)
  have "reads (scan_for_layout E) ([] @ 34 # xs) ([] \<noteq> ([] :: uchar list)) (34 # xs)"
    by (rule reads_scan_for_layout [OF layout_nil]) (cases xs; simp add: layout_char_def)
  then have "reads (scan_for_layout E) (34 # xs) False (34 # xs)" by simp
  from readsD [OF this xs] obtain s1 where s1: "scan_for_layout E s = (Inr False, s1)"
    "chars s1 = 34 # xs" "same_config s s1" by blast
  have "\<forall>c\<in>set cs. valid_char c" using assms(1) by (simp add: list_all_iff)
  from readsD [OF reads_printed_string [OF this delimiter_ends(4) [OF assms(2)]], of s1 rest E] s s1 xs
  obtain t where t: "char_code_list_token E 34 s1 = (Inr cs, t)" "chars t = d # rest" "same_config s1 t"
    by auto
  have "next_token E s = (Inr (TString cs), t)"
    using s s1 t
    by (simp add: next_token_def andThen_run lookahead_char_def peek_char_def token_at_def
        capital_letter_char_def is_uppercase_def variable_indicator_char_def fixed_class_defs
        same_config_def)
  with t s s1 show "\<exists>t. next_token E s = (Inr (TString cs), t) \<and> chars t = d # rest \<and> double_quotes t = DQChars"
    by (simp add: same_config_def)
qed simp

lemma lex_seq_atom:
  assumes "writable_atom a" and "delimiter d"
  shows "lex_seq E dq (print_op_addendum E True a @ d # rest) [TLiteral (Atom a)] (d # rest)"
  using assms reads_printed_atom [of a E d rest] delimiter_ends(1) [OF assms(2)]
  by (intro lex_seq_reads) (simp_all add: writable_atom_def list_all_iff)

lemma lex_seq_nat:
  assumes "integer_parser_ok E" and "delimiter d"
  shows "lex_seq E dq (to_radix 10 n @ d # rest) [TLiteral (integer_literal (int n))] (d # rest)"
  using assms delimiter_ends(2) [OF assms(2)]
  by (intro lex_seq_reads reads_printed_integer) simp_all

lemma integer_literal_fixnum:
  assumes "ftag f = TagFixnum"
  shows "integer_literal (get_num f) = LFixnum f"
proof -
  have "build_with_checked (get_num f) = Some (build_with_unchecked (get_num f))"
    using get_num_range [of f] by (simp add: build_with_checked_Some)
  moreover have "build_with_unchecked (get_num f) = f"
    using assms by (simp add: build_with_unchecked_def get_num_def)
  ultimately show ?thesis by (simp add: integer_literal_def)
qed

lemma integer_literal_big: "Fixnum_MAX < n \<Longrightarrow> integer_literal n = Integer n"
  using build_with_checked_None [of n] by (simp add: integer_literal_def)

lemma lex_seq_literal:
  assumes "writable E dq (Literal l)" and "integer_parser_ok E" and "delimiter d"
  shows "lex_seq E dq (term_text E (Literal l) @ d # rest) [TLiteral l] (d # rest)"
proof (cases l)
  case (Atom a)
  with lex_seq_atom assms show ?thesis by simp
next
  case (LFixnum f)
  with lex_seq_nat [OF assms(2,3), of dq "nat (get_num f)"] assms(1) show ?thesis
    by (simp add: integer_literal_fixnum)
next
  case (Integer n)
  with assms(1) have "0 \<le> n" by (simp add: Fixnum_MAX_def)
  with lex_seq_nat [OF assms(2,3), of dq "nat n"] assms(1) Integer show ?thesis
    by (simp add: integer_literal_big)
qed (use assms in simp_all)

lemma lex_seq_term:
  assumes "integer_parser_ok E"
  shows "writable E dq t \<Longrightarrow> delimiter d \<Longrightarrow> lex_seq E dq (term_text E t @ d # rest) (canon t) (d # rest)"
    and "ts \<noteq> [] \<Longrightarrow> \<forall>t\<in>set ts. writable E dq t \<Longrightarrow> delimiter d \<Longrightarrow>
      lex_seq E dq (args_text E ts @ d # rest) (canon_args ts) (d # rest)"
proof (induction t and ts arbitrary: d rest and d rest rule: canon_canon_args.induct)
  case 1
  have "variable_name E [95]" by (simp add: variable_name_def)
  from lex_seq_reads [OF reads_variable [OF this 1(2)]] show ?case by simp
next
  case (2 v)
  then show ?case using lex_seq_reads [OF reads_variable [of E v d rest]] by simp
next
  case (3 l)
  then show ?case using lex_seq_literal assms by simp
next
  case (4 s)
  then show ?case using lex_seq_string by auto
next
  case (5 f ts)
  have del: "delimiter 40" "delimiter 41" by (simp_all add: delimiter_def)
  have f: "lex_seq E dq (print_op_addendum E True f @ 40 # args_text E ts @ 41 # d # rest)
      [TLiteral (Atom f)] (40 # args_text E ts @ 41 # d # rest)"
    using 5 del by (intro lex_seq_atom) simp_all
  have a: "lex_seq E dq (args_text E ts @ 41 # d # rest) (canon_args ts) (41 # d # rest)"
    using 5 del by (cases "ts = []") (auto simp: lex_seq_nil)
  from lex_seq_trans [OF lex_seq_trans [OF lex_seq_trans [OF f lex_seq_reads [OF reads_punctuation(1)]] a]
      lex_seq_reads [OF reads_punctuation(3)]]
  show ?case by simp
next
  case (9 t)
  then show ?case by simp
next
  case (10 t u ts)
  have del: "delimiter 44" by (simp add: delimiter_def)
  from 10(1) [of 44] 10(4) del have
    "lex_seq E dq (term_text E t @ 44 # args_text E (u # ts) @ d # rest) (canon t) (44 # args_text E (u # ts) @ d # rest)"
    by simp
  from lex_seq_trans [OF lex_seq_trans [OF this lex_seq_reads [OF reads_punctuation(2)]] 10(2)] 10(3-)
  show ?case by simp
qed auto

section \<open>Reading the text back\<close>

definition end_text :: "uchar list" where
  "end_text = [32, 46, 10]"

lemma reads_end: "reads (next_token E) (end_text @ rest) End rest"
proof -
  have "reads (scan_for_layout E) ([32] @ 46 # 10 # rest) ([32 :: uchar] \<noteq> []) (46 # 10 # rest)"
    by (rule reads_scan_for_layout)
       (auto simp: layout_char_def intro!: layout_text.intros)
  then have scan: "reads (scan_for_layout E) (32 # 46 # 10 # rest) True (46 # 10 # rest)" by simp
  have "reads (dot_token E 46) (46 # 10 # rest) End rest"
    unfolding dot_token_def
    by (rule reads_drop) (auto simp: reads_def run_simps lookahead_char_def peek_char_def layout_char_def
        new_line_char_def advance_def Let_def same_config_def)
  moreover have "token_at E True 46 = dot_token E 46"
    by (simp add: token_at_def capital_letter_char_def is_uppercase_def variable_indicator_char_def)
  ultimately have "reads (token_at E True 46) (46 # 10 # rest) End rest" by simp
  then show ?thesis
    unfolding next_token_def end_text_def
    by (simp, intro reads_andThen [OF scan], intro reads_peek)
qed

lemma read_tokens_text:
  assumes "integer_parser_ok E" and "writable E (double_quotes s) t"
    and "chars s = term_text E t @ end_text @ rest"
  shows "\<exists>s'. read_tokens E s = (Inr (canon t @ [End]), s') \<and> chars s' = rest \<and>
    double_quotes s' = double_quotes s"
proof -
  have del: "delimiter 32" by (simp add: delimiter_def)
  from lex_seq_term(1) [OF assms(1,2) del, of "[46, 10] @ rest"] assms(3) obtain s1 where
    1: "chars s1 = end_text @ rest" "double_quotes s1 = double_quotes s"
      "read_tokens_loop E [] s = read_tokens_loop E (rev (canon t)) s1"
    by (auto simp: lex_seq_def end_text_def)
  from readsD [OF reads_end 1(1)] obtain s2 where
    "next_token E s1 = (Inr End, s2)" "chars s2 = rest" "same_config s1 s2" by blast
  with 1 show ?thesis
    by (simp add: read_tokens_def andThen_run ret_run read_tokens_loop.simps [of E _ s1]
        token_is_end_def same_config_def)
qed

lemma read_written_term:
  assumes od: "op_dir_ok od" "minus_ok od" and E: "integer_parser_ok E"
    and t: "canonical (double_quotes l) t" "writable E (double_quotes l) t"
    and l: "chars l = term_text E t @ end_text @ rest"
  shows "\<exists>q. read_term E od Default (from_lexer l) = (Inr t, q) \<and> chars (plexer q) = rest"
proof -
  from read_tokens_text [OF E t(2) l] obtain l' where
    l': "read_tokens E l = (Inr (canon t @ [End]), l')" "chars l' = rest" "double_quotes l' = double_quotes l"
    by blast
  let ?p = "(from_lexer l)\<lparr>plexer := l', tokens := canon t @ [End]\<rparr>"
  have "\<exists>q. andThen (parse_loop od) (\<lambda>_. finish_term) ?p = (Inr t, q) \<and> plexer q = plexer ?p"
    by (rule parse_canonical [OF od]) (simp_all add: t l' from_lexer_def)
  with l' show ?thesis
    by (auto simp: read_term_def fetch_tokens_def andThen_run [of "fetch_tokens _ _"] from_lexer_def)
qed

end
