(* ===== verification/Reader.thy ===== *)
theory Reader
  imports TermText
begin

text \<open>
  The properties of the reader as a whole: lexer, parser and the printer whose text they read
  back. Each is stated over the model's definitions, with a concrete run where it has
  hypotheses.
\<close>

section \<open>A concrete environment\<close>

text \<open>
  An environment to run the reader in: no capital or numeric characters beyond ASCII, integers
  read by their positional value, and one float.
\<close>

definition ascii_env :: lex_env where
  "ascii_env =
     \<lparr>numeric_ext = (\<lambda>_. False), uppercase_ext = (\<lambda>_. False), alphabetic_ext = (\<lambda>_. True),
      integer_from_str_radix = (\<lambda>s r. map_option int (digits_value r 0 s)),
      lexical_parse = (\<lambda>_. Some 0)\<rparr>"

lemma ascii_env_ok: "integer_parser_ok ascii_env"
  by (simp add: integer_parser_ok_def ascii_env_def)

definition arith_op_dir :: CompositeOpDir where
  "arith_op_dir =
     \<lparr>primary_op_dir = None,
      secondary_op_dir = default_op_dir((atm ''='', FixIn) \<mapsto> op_build_with 700 XFX,
        (atm ''-'', FixIn) \<mapsto> op_build_with 500 YFX, (atm ''-'', FixPre) \<mapsto> op_build_with 200 FY)\<rparr>"

lemma arith_op_dir_get:
  "op_dir_get arith_op_dir name fx =
     (if (name, fx) = (atm ''-'', FixPre) then Some (op_build_with 200 FY)
      else if (name, fx) = (atm ''-'', FixIn) then Some (op_build_with 500 YFX)
      else if (name, fx) = (atm ''='', FixIn) then Some (op_build_with 700 XFX)
      else if (name, fx) = (atm '','', FixIn) then Some (op_build_with 1000 XFY)
      else if (name, fx) = (atm ''?-'', FixPre) then Some (op_build_with 1200 FX)
      else if (name, fx) = (atm '':-'', FixPre) then Some (op_build_with 1200 FX)
      else if (name, fx) = (atm '':-'', FixIn) then Some (op_build_with 1200 XFX)
      else None)"
  by (simp add: op_dir_get_def arith_op_dir_def default_op_dir_def)

lemma arith_op_dir_ok: "op_dir_ok arith_op_dir" "minus_ok arith_op_dir"
  "get_op_desc (atm ''|'') arith_op_dir = None"
proof -
  show "op_dir_ok arith_op_dir"
    unfolding op_dir_ok_def by (simp add: arith_op_dir_get op_build_with_def)
  show "minus_ok arith_op_dir"
    by (simp add: minus_ok_def get_op_desc_def arith_op_dir_get op_build_with_def get_prec_def
        Let_def spec_defs)
  show "get_op_desc (atm ''|'') arith_op_dir = None"
    by (simp add: get_op_desc_def arith_op_dir_get Let_def)
qed

definition text_lexer :: "string \<Rightarrow> lexer" where
  "text_lexer s = Lexer_new (atm s) AtEof DQChars"

text \<open>The equations that run the lexer and the parser by simplification.\<close>

lemmas lex_eval = read_tokens_def read_tokens_loop.simps next_token_def andThen_run ret_run raise_run
  modify_run scan_for_layout_def lookahead_char_def peek_char_def scan_loop.simps consume_layout_def
  lookahead_ok_def token_at_def name_token_def variable_token_def read_char_def token_loop.simps
  skip_char_def advance_def dot_token_def class_defs Let_def token_is_end_def text_lexer_def
  Lexer_new_def return_char_def put_back_char_def len_utf8_def ascii_env_def
  variable_indicator_char_def unexpected_eof_def

lemmas parse_eval = read_term_def fetch_tokens_def andThen_run ret_run modify_run parse_loop.simps
  shift_token_def shift_def shift_op_def get_op_desc_def arith_op_dir_get op_build_with_def
  get_prec_def Let_def spec_defs reduce_op.simps reduce_op_step_def reduce_unary_def
  affirm_xfx_def affirm_yfx_def affirm_xfy_def affirm_yf_def affirm_xf_def affirm_fy_def
  affirm_fx_def promote_atom_op_def term_desc_def trim_def is_whitespace_def reduce_term_def
  compute_arity_in_brackets_def vec_at_def is_sep_def atomize_term_def vec_truncate_def
  reduce_brackets_def check_reduced_def push_binary_op_def push_unary_op_def get_term_name_def
  finish_term_def from_lexer_def incomplete_reduction_def op_is_postfix_def list_term_def
  infix_postfix_mask_def prefix_mask_def negate_number_def set_unfold_bounds_def reduce_list_def
  compute_arity_in_list_def build_list_def

section \<open>Parsing\<close>

text \<open>
  C6: soundness of the parser, where the bar is not declared an operator and no opening bracket follows a closing
  one directly. A term that \<open>read_term\<close> returns for the text in a fresh parser derives from the tokens of that text,
  the end token left aside, in the operator grammar: every operator is applied to arguments within the priority
  bounds of its specifier and every token has its place in the derivation. The grammar has a rule for what the
  parser takes for an atom although its brackets do not match, an opening list bracket, an opening brace or a bar
  alone in round brackets; the theorems on accepted malformed input show what happens in the excluded cases.
\<close>

theorem read_term_derives:
  assumes "op_dir_ok od" and "get_op_desc (atm ''|'') od = None"
    and "read_tokens E l = (Inr toks, l')" and "brackets_apart toks"
    and "read_term E od Default (from_lexer l) = (Inr t, q)"
  shows "\<exists>body. toks = body @ [End] \<and> operand od (double_quotes l') body t"
proof -
  from assms(3) obtain body where b: "toks = body @ [End]" "End \<notin> set body"
    by (rule read_tokens_shape)
  have "read_term E od (Provided toks) ((from_lexer l)\<lparr>plexer := l'\<rparr>) = (Inr t, q)"
    using assms(3,5) by (simp add: read_term_def fetch_tokens_def andThen_run from_lexer_def)
  from read_term_sound [OF assms(1,2) _ b(2) _ _ this [unfolded b(1)]] assms(4) b(1)
  have "operand od (double_quotes l') body t"
    by (auto simp: from_lexer_def dest: brackets_apart_prefix)
  with b(1) show ?thesis by blast
qed

theorem read_term_derives_witness:
  "\<exists>body. [TLiteral (Atom (atm ''a'')), TLiteral (Atom (atm ''-'')), TLiteral (Atom (atm ''b'')), End] = body @ [End] \<and>
     operand arith_op_dir DQChars body
       (Clause (atm ''-'') [Literal (Atom (atm ''a'')), Literal (Atom (atm ''b''))])"
proof -
  have toks: "read_tokens ascii_env (text_lexer ''a - b .'') =
      (Inr [TLiteral (Atom (atm ''a'')), TLiteral (Atom (atm ''-'')), TLiteral (Atom (atm ''b'')), End],
       \<lparr>chars = [], rd_end = AtEof, line_num = 0, col_num = 7, double_quotes = DQChars\<rparr>)"
    by (simp add: lex_eval)
  have run: "fst (read_term ascii_env arith_op_dir Default (from_lexer (text_lexer ''a - b .''))) =
      Inr (Clause (atm ''-'') [Literal (Atom (atm ''a'')), Literal (Atom (atm ''b''))])"
    by (simp add: lex_eval parse_eval)
  obtain q where "read_term ascii_env arith_op_dir Default (from_lexer (text_lexer ''a - b .'')) =
      (Inr (Clause (atm ''-'') [Literal (Atom (atm ''a'')), Literal (Atom (atm ''b''))]), q)"
    using run by (metis prod.collapse)
  from read_term_derives [OF arith_op_dir_ok(1,3) toks _ this] show ?thesis by simp
qed




text \<open>
  C8: a list cell built by \<open>as_partial_string\<close> denotes the list it was given: writing
  strings out as lists of characters gives the cell of the head and the tail.
\<close>

theorem list_term_denotes_cons: "expand (list_term h t) = expand (Cons h t)"
  by (simp add: expand_list_term)

text \<open>The tokens the lexer delivers, one after the other, without reaching an end token.\<close>

inductive lexed :: "lex_env \<Rightarrow> lexer \<Rightarrow> Token list \<Rightarrow> lexer \<Rightarrow> bool" for E where
  lexed_none: "lexed E s [] s"
| lexed_more: "next_token E s = (Inr tok, s1) \<Longrightarrow> \<not> token_is_end tok \<Longrightarrow> lexed E s1 toks s2 \<Longrightarrow> lexed E s (tok # toks) s2"

inductive_simps lexed_Nil: "lexed E s [] s2"
inductive_simps lexed_Cons: "lexed E s (tok # toks) s2"

definition token_failure :: "Token list \<Rightarrow> ParserError \<Rightarrow> lexer \<Rightarrow> ParserError" where
  "token_failure toks e s = (if e = unexpected_eof \<and> toks \<noteq> [] then IncompleteReduction (line_num s) (col_num s) else e)"

lemma lexed_split:
  "(\<exists>toks s1 e. lexed E s toks s1 \<and> next_token E s1 = (Inl e, s2) \<and> Q toks e) \<longleftrightarrow>
   (\<exists>e. next_token E s = (Inl e, s2) \<and> Q [] e) \<or>
   (\<exists>tok t. next_token E s = (Inr tok, t) \<and> \<not> token_is_end tok \<and>
      (\<exists>toks s1 e. lexed E t toks s1 \<and> next_token E s1 = (Inl e, s2) \<and> Q (tok # toks) e))"
proof -
  have ex: "(\<exists>toks. P toks) \<longleftrightarrow> P [] \<or> (\<exists>tok toks. P (tok # toks))" for P :: "Token list \<Rightarrow> bool" by (metis neq_Nil_conv)
  show ?thesis by (subst ex) (auto simp: lexed_Nil lexed_Cons)
qed

lemma read_tokens_loop_fails:
  "read_tokens_loop E acc s = (Inl e', s2) \<longleftrightarrow>
     (\<exists>toks s1 e. lexed E s toks s1 \<and> next_token E s1 = (Inl e, s2) \<and> e' = token_failure (acc @ toks) e s2)"
proof (induction E acc s rule: read_tokens_loop.induct)
  case (1 E acc s)
  show ?case
  proof (cases "next_token E s")
    case (Pair r t)
    show ?thesis
    proof (cases r)
      case (Inl e)
      then show ?thesis
        using Pair by (subst lexed_split, subst read_tokens_loop.simps) (auto simp: token_failure_def)
    next
      case (Inr tok)
      have same: "token_failure ((tok # acc) @ toks) e s2 = token_failure (acc @ tok # toks) e s2" for toks e
        by (simp add: token_failure_def)
      show ?thesis
        using Pair Inr "1.IH" [OF Pair [symmetric] Inr]
        by (subst lexed_split, subst read_tokens_loop.simps) (simp add: same [simplified] split: if_split)
    qed
  qed
qed

text \<open>
  C9: reading the tokens of a clause fails exactly when the lexer fails after some tokens none of which is
  the end token, with the lexer's error, except that the end of the input, once a token has been read, is
  an incomplete reduction at the position reached: the end of the input is reported only before the first token.
\<close>

theorem eof_only_before_first_token:
  "read_tokens E s = (Inl e', s2) \<longleftrightarrow>
     (\<exists>toks s1 e. lexed E s toks s1 \<and> next_token E s1 = (Inl e, s2) \<and>
        e' = (if e = unexpected_eof \<and> toks \<noteq> [] then IncompleteReduction (line_num s2) (col_num s2) else e))"
  using read_tokens_loop_fails [of E "[]" s e' s2]
  by (auto simp: read_tokens_def andThen_Inl_iff ret_run token_failure_def)

theorem eof_only_before_first_token_witness:
  "\<exists>s2. read_tokens ascii_env (text_lexer ''a b'') = (Inl (IncompleteReduction (line_num s2) (col_num s2)), s2)"
proof -
  let ?s1 = "snd (next_token ascii_env (text_lexer ''a b''))"
  have "fst (next_token ascii_env (text_lexer ''a b'')) = Inr (TLiteral (Atom (atm ''a'')))" by code_simp
  moreover have "fst (next_token ascii_env ?s1) = Inl unexpected_eof" by code_simp
  ultimately obtain s1 where s1: "next_token ascii_env (text_lexer ''a b'') = (Inr (TLiteral (Atom (atm ''a''))), s1)"
      "fst (next_token ascii_env s1) = Inl unexpected_eof" by (metis prod.collapse)
  obtain s2 where s2: "next_token ascii_env s1 = (Inl unexpected_eof, s2)" using s1(2) by (metis prod.collapse)
  have "lexed ascii_env (text_lexer ''a b'') [TLiteral (Atom (atm ''a''))] s1"
    using s1(1) by (auto intro!: lexed.intros simp: token_is_end_def)
  then have "read_tokens ascii_env (text_lexer ''a b'') = (Inl (IncompleteReduction (line_num s2) (col_num s2)), s2)"
    using s2 by (subst eof_only_before_first_token) fastforce
  then show ?thesis by blast
qed

section \<open>Tokens\<close>

text \<open>
  C10: an atom other than \<open>[]\<close>, \<open>{}\<close> and the atom of two quotes, printed in quoted mode, is read back as that
  atom, as long as the next character ends a name. The parser puts \<open>[]\<close> and \<open>{}\<close> together from two tokens; the
  atom of two quotes is lost.
\<close>

theorem printed_atom_is_read_back:
  assumes "\<forall>c\<in>set a. valid_char c" and "a \<notin> {[39, 39], atm ''[]'', atm ''{}''}" and "name_end E d"
    and "chars s = print_op_addendum E True a @ d # rest"
  shows "\<exists>t. next_token E s = (Inr (TLiteral (Atom a)), t) \<and> chars t = d # rest"
  using readsD [OF reads_printed_atom [OF assms(1-3)] assms(4)] by blast

theorem printed_atom_is_read_back_witness:
  "\<exists>t. next_token ascii_env (Lexer_new (print_op_addendum ascii_env True (atm ''it is'') @ 40 # []) AtEof DQChars) =
     (Inr (TLiteral (Atom (atm ''it is''))), t) \<and> chars t = [40]"
  by (rule printed_atom_is_read_back)
     (simp_all add: valid_char_def name_end_def class_defs ascii_env_def Lexer_new_def)

text \<open>
  C11: a double-quoted string printed in quoted mode is read back as the same characters.
\<close>

theorem printed_string_is_read_back:
  assumes "\<forall>c\<in>set cs. valid_char c" and "d \<noteq> 34" and "chars s = proper_string_text True cs @ d # rest"
  shows "\<exists>t. char_code_list_token E 34 s = (Inr cs, t) \<and> chars t = d # rest"
  using readsD [OF reads_printed_string [OF assms(1,2)] assms(3)] by blast

theorem printed_string_is_read_back_witness:
  "\<exists>t. char_code_list_token ascii_env 34 (Lexer_new (proper_string_text True [34, 10, 92, 0x1F600] @ [32]) AtEof DQChars) =
     (Inr [34, 10, 92, 0x1F600], t) \<and> chars t = [32]"
  by (rule printed_string_is_read_back) (simp_all add: valid_char_def Lexer_new_def)

text \<open>
  C12: the decimal digits of a natural number are read back as that number, a small integer
  when it fits into 56 bits and a big integer otherwise.
\<close>

theorem printed_integer_is_read_back:
  assumes "number_end E d" and "integer_parser_ok E" and "chars s = to_radix 10 n @ d # rest"
  shows "\<exists>t. next_token E s =
      (Inr (TLiteral (case build_with_checked (int n) of Some f \<Rightarrow> LFixnum f | None \<Rightarrow> Integer (int n))), t) \<and>
    chars t = d # rest"
  using readsD [OF reads_printed_integer [OF assms(1,2)] assms(3)]
  unfolding integer_literal_def by blast

theorem printed_integer_is_read_back_witness:
  "\<exists>t. next_token ascii_env (Lexer_new (to_radix 10 (2 ^ 60) @ [32]) AtEof DQChars) =
      (Inr (TLiteral (case build_with_checked (int (2 ^ 60)) of Some f \<Rightarrow> LFixnum f
         | None \<Rightarrow> Integer (int (2 ^ 60)))), t) \<and> chars t = [32]"
  by (rule printed_integer_is_read_back [OF _ ascii_env_ok]) (code_simp, simp add: Lexer_new_def)

text \<open>
  C13: layout is skipped: white space, line comments and block comments in front of a token
  are consumed, and \<open>scan_for_layout\<close> tells whether there were any.
\<close>

theorem layout_is_skipped:
  assumes "layout_text w" and "layout_stop rest" and "chars s = w @ rest"
  shows "\<exists>t. scan_for_layout E s = (Inr (w \<noteq> []), t) \<and> chars t = rest"
  using readsD [OF reads_scan_for_layout [OF assms(1,2)] assms(3)] by blast

theorem layout_is_skipped_witness:
  "\<exists>t. scan_for_layout ascii_env (text_lexer '' /* x **/ a'') = (Inr True, t) \<and> chars t = atm ''a''"
proof -
  have "layout_text [ch CHR '' '']" by (intro layout_ws layout_nil) (simp add: layout_char_def)
  then have "layout_text ([ch CHR ''/'', ch CHR ''*''] @ atm '' x *'' @ [ch CHR ''*'', ch CHR ''/''] @ [ch CHR '' ''])"
    by (intro layout_block) simp_all
  then have "layout_text (ch CHR '' '' # [ch CHR ''/'', ch CHR ''*''] @ atm '' x *'' @ [ch CHR ''*'', ch CHR ''/''] @ [ch CHR '' ''])"
    by (intro layout_ws) (simp_all add: layout_char_def)
  from layout_is_skipped [OF this, of "atm ''a''"] show ?thesis
    by (simp add: text_lexer_def Lexer_new_def layout_char_def)
qed

text \<open>
  C14: progress of the lexer. Every token that \<open>next_token\<close> returns has consumed input, so
  reading the tokens of a clause ends.
\<close>

theorem token_consumes_input:
  assumes "next_token E s = (Inr token, t)"
  shows "length (chars t) < length (chars s)"
  using assms by (rule next_token_less)

theorem token_consumes_input_witness:
  "length (chars (snd (next_token ascii_env (text_lexer ''ab c'')))) < length (chars (text_lexer ''ab c''))"
proof -
  have "fst (next_token ascii_env (text_lexer ''ab c'')) = Inr (TLiteral (Atom (atm ''ab'')))" by code_simp
  then have "next_token ascii_env (text_lexer ''ab c'') =
      (Inr (TLiteral (Atom (atm ''ab''))), snd (next_token ascii_env (text_lexer ''ab c'')))"
    by (metis prod.collapse)
  then show ?thesis by (rule token_consumes_input)
qed

text \<open>
  back-quoted items are never accepted: at a back quote \<open>next_token\<close> ends in an error,
  whatever follows.
\<close>

theorem back_quote_is_an_error:
  assumes "chars s = 96 # cs"
  shows "\<exists>e t. next_token E s = (Inl e, t)"
proof -
  have "reads (scan_for_layout E) ([] @ 96 # cs) ([] \<noteq> ([] :: uchar list)) (96 # cs)"
    by (rule reads_scan_for_layout [OF layout_nil]) (cases cs; simp add: layout_char_def)
  from readsD [OF this, of s] assms obtain s1 where
    s1: "scan_for_layout E s = (Inr False, s1)" "chars s1 = 96 # cs" by auto
  have "token_at E False 96 = andThen (get_back_quoted_string E) (\<lambda>_. raise_at BackQuotedString)"
    by (simp add: token_at_def name_token_def Let_def class_defs)
  then show ?thesis
    using s1 by (cases "get_back_quoted_string E s1")
      (auto simp: next_token_def andThen_run lookahead_char_def peek_char_def raise_at_def
        split: sum.splits)
qed

theorem back_quote_is_an_error_witness:
  "\<exists>e t. next_token ascii_env (text_lexer ''`ab`'') = (Inl e, t)"
  by (rule back_quote_is_an_error [of _ "atm ''ab`''"]) (simp add: text_lexer_def Lexer_new_def)

section \<open>Small integers and operator specifiers\<close>

text \<open>
  C15: a small integer gives back the number it was built from, exactly for the numbers of 56
  bits; \<open>build_with_checked\<close> accepts those and no others.
\<close>

theorem fixnum_round_trip:
  "(case build_with_checked n of
      Some f \<Rightarrow> get_num f = n \<and> Fixnum_MIN \<le> n \<and> n \<le> Fixnum_MAX
    | None \<Rightarrow> n < Fixnum_MIN \<or> Fixnum_MAX < n)"
  by (auto simp: build_with_checked_Some build_with_checked_None get_num_build_with_unchecked
      split: option.splits)

text \<open>
  negating a small integer wraps at the least one: \<open>-MIN\<close> is \<open>MIN\<close> again, and every
  other negation is exact; \<open>checked_abs\<close> fails at the least one only.
\<close>

theorem fixnum_negation_wraps:
  "get_num (fixnum_neg f) = (if get_num f = Fixnum_MIN then Fixnum_MIN else - get_num f) \<and>
   (checked_abs f = None \<longleftrightarrow> get_num f = Fixnum_MIN)"
proof
  have "get_num (build_with_unchecked (2 ^ 55)) = - (2 ^ 55)"
    by (simp add: get_num_def build_with_unchecked_def)
  with get_num_range [of f] get_num_build_with_unchecked [of "- get_num f"]
  show "get_num (fixnum_neg f) = (if get_num f = Fixnum_MIN then Fixnum_MIN else - get_num f)"
    by (auto simp: fixnum_neg_def Fixnum_MIN_def Fixnum_MAX_def)
  show "checked_abs f = None \<longleftrightarrow> get_num f = Fixnum_MIN"
    using get_num_range [of f]
    by (auto simp: checked_abs_def build_with_checked_None Fixnum_MIN_def Fixnum_MAX_def abs_if)
qed

text \<open>
  an operator specifier survives its encodings as a byte and as an atom, and nothing else
  decodes to it.
\<close>

theorem op_spec_round_trip:
  "(op_try_from_u8 b = Some k \<longleftrightarrow> b = ucast (op_value k)) \<and>
   (op_try_from_atom a = Some k \<longleftrightarrow> a = op_get_spec k)"
proof (intro conjI iffI)
  show "op_try_from_u8 b = Some k \<Longrightarrow> b = ucast (op_value k)"
    by (auto simp: op_try_from_u8_def split: if_splits)
  assume some: "op_try_from_atom a = Some k"
  have "\<exists>j. a = op_get_spec j"
  proof (rule ccontr)
    assume "\<not> (\<exists>j. a = op_get_spec j)"
    then have "a \<noteq> op_get_spec XFX" "a \<noteq> op_get_spec XFY" "a \<noteq> op_get_spec YFX" "a \<noteq> op_get_spec FX"
      "a \<noteq> op_get_spec FY" "a \<noteq> op_get_spec XF" "a \<noteq> op_get_spec YF" by blast+
    then have "op_try_from_atom a = None"
      by (simp only: op_try_from_atom_def op_get_spec.simps if_False)
    with some show False by simp
  qed
  then show "a = op_get_spec k" using some op_try_from_atom_get_spec by (metis option.inject)
next
qed (simp_all only: op_try_from_u8_value op_try_from_atom_get_spec)

section \<open>Malformed input that is accepted\<close>

text \<open>
  an unbalanced bracket can go unnoticed. In \<open>X = ((a)(b).\<close> the second closing
  bracket first fails to close the argument list, having built \<open>a(b)\<close> on the way, and is then
  taken to close the outer opening bracket: the clause is read as \<open>X = a(b)\<close>.
\<close>

theorem unbalanced_bracket_accepted:
  "fst (read_term ascii_env arith_op_dir Default (from_lexer (text_lexer ''X = ((a)(b).''))) =
     Inr (Clause (atm ''='') [Var (atm ''X''), Clause (atm ''a'') [Literal (Atom (atm ''b''))]])"
  by (simp add: lex_eval parse_eval)

text \<open>
  an opening list bracket alone in round brackets is read as an atom.
\<close>

theorem lone_list_bracket_accepted:
  "fst (read_term ascii_env arith_op_dir Default (from_lexer (text_lexer ''X = ([).''))) =
     Inr (Clause (atm ''='') [Var (atm ''X''), Literal (Atom (atm ''[''))])"
  by (simp add: lex_eval parse_eval)

definition bar_op_dir :: CompositeOpDir where
  "bar_op_dir =
     arith_op_dir\<lparr>primary_op_dir := Some [(atm ''|'', FixIn) \<mapsto> op_build_with 1105 XFY]\<rparr>"

lemma bar_op_dir_get:
  "op_dir_get bar_op_dir name fx =
     (if (name, fx) = (atm ''|'', FixIn) then Some (op_build_with 1105 XFY)
      else op_dir_get arith_op_dir name fx)"
  by (simp add: op_dir_get_def bar_op_dir_def arith_op_dir_def)

text \<open>
  where the bar is an infix operator, a bar in an argument position makes the parser drop
  tokens: \<open>X = f(|).\<close> is read as the variable \<open>X\<close>.
\<close>

theorem bar_argument_drops_tokens:
  "fst (read_term ascii_env bar_op_dir Default (from_lexer (text_lexer ''X = f(|).''))) =
     Inr (Var (atm ''X''))"
  by (simp add: lex_eval parse_eval bar_op_dir_get)

text \<open>
  the least small integer is not read in its canonical form: the digits do not fit into a
  small integer before the sign is applied, so \<open>-36028797018963968\<close> is read as a big
  integer although it fits.
\<close>

theorem least_fixnum_read_as_big_integer:
  "(\<exists>t. next_token ascii_env (Lexer_new (to_radix 10 (2 ^ 55) @ [32]) AtEof DQChars) =
      (Inr (TLiteral (Integer (2 ^ 55))), t)) \<and>
   fst (read_term ascii_env arith_op_dir
      (Provided [TLiteral (Atom (atm ''-'')), TLiteral (Integer (2 ^ 55)), End])
      (from_lexer (text_lexer []))) = Inr (Literal (Integer (- (2 ^ 55)))) \<and>
   build_with_checked (- (2 ^ 55)) \<noteq> None"
proof (intro conjI)
  have "number_end ascii_env 32" by (simp add: number_end_def class_defs)
  from readsD [OF reads_printed_integer [OF this ascii_env_ok, of "2 ^ 55" "[]"],
      of "Lexer_new (to_radix 10 (2 ^ 55) @ [32]) AtEof DQChars"]
  show "\<exists>t. next_token ascii_env (Lexer_new (to_radix 10 (2 ^ 55) @ [32]) AtEof DQChars) =
      (Inr (TLiteral (Integer (2 ^ 55))), t)"
    using integer_literal_big [of "2 ^ 55"] by (auto simp: Lexer_new_def Fixnum_MAX_def)
  show "fst (read_term ascii_env arith_op_dir
      (Provided [TLiteral (Atom (atm ''-'')), TLiteral (Integer (2 ^ 55)), End])
      (from_lexer (text_lexer []))) = Inr (Literal (Integer (- (2 ^ 55))))"
    by (simp add: parse_eval)
  show "build_with_checked (- (2 ^ 55)) \<noteq> None"
    by (simp add: build_with_checked_None Fixnum_MIN_def Fixnum_MAX_def)
qed

text \<open>
  the atom of two quote characters is printed as two quotes, which are read back as the
  empty atom.
\<close>

theorem two_quotes_atom_is_lost:
  "fst (next_token ascii_env (Lexer_new (print_op_addendum ascii_env True [39, 39] @ [32]) AtEof DQChars)) =
     Inr (TLiteral (Atom []))"
  by code_simp

end
