(* ===== verification/Utf8.thy ===== *)
theory Utf8
  imports Prelude
begin

text \<open>
  UTF-8 as the Rust standard library reads and writes it: \<open>char::encode_utf8\<close>, the strict
  decoder behind \<open>str::from_utf8\<close> (no surrogates, no overlong forms, nothing above U+10FFFF)
  and the \<open>valid_up_to\<close> of its error. A byte is a number below 256.
\<close>

type_synonym byte = nat

definition encode_utf8 :: "uchar \<Rightarrow> byte list" where
  "encode_utf8 c =
     (if c < 0x80 then [c]
      else if c < 0x800 then [0xC0 + c div 64, 0x80 + c mod 64]
      else if c < 0x10000 then [0xE0 + c div 4096, 0x80 + c div 64 mod 64, 0x80 + c mod 64]
      else [0xF0 + c div 262144, 0x80 + c div 4096 mod 64, 0x80 + c div 64 mod 64, 0x80 + c mod 64])"

definition is_cont :: "byte \<Rightarrow> bool" where
  "is_cont b \<longleftrightarrow> 0x80 \<le> b \<and> b < 0xC0"

text \<open>The first character of a byte sequence and its length, if it is well-formed.\<close>

definition utf8_first :: "byte list \<Rightarrow> (uchar \<times> nat) option" where
  "utf8_first bs =
     (case bs of
        [] \<Rightarrow> None
      | b0 # r0 \<Rightarrow>
          if b0 < 0x80 then Some (b0, 1)
          else if 0xC2 \<le> b0 \<and> b0 < 0xE0 then
            (case r0 of
               b1 # _ \<Rightarrow> if is_cont b1 then Some ((b0 - 0xC0) * 64 + (b1 - 0x80), 2) else None
             | [] \<Rightarrow> None)
          else if 0xE0 \<le> b0 \<and> b0 < 0xF0 then
            (case r0 of
               b1 # b2 # _ \<Rightarrow>
                 if is_cont b1 \<and> is_cont b2 \<and> (b0 = 0xE0 \<longrightarrow> 0xA0 \<le> b1) \<and> (b0 = 0xED \<longrightarrow> b1 < 0xA0)
                 then Some ((b0 - 0xE0) * 4096 + (b1 - 0x80) * 64 + (b2 - 0x80), 3) else None
             | _ \<Rightarrow> None)
          else if 0xF0 \<le> b0 \<and> b0 < 0xF5 then
            (case r0 of
               b1 # b2 # b3 # _ \<Rightarrow>
                 if is_cont b1 \<and> is_cont b2 \<and> is_cont b3 \<and>
                    (b0 = 0xF0 \<longrightarrow> 0x90 \<le> b1) \<and> (b0 = 0xF4 \<longrightarrow> b1 < 0x90)
                 then Some ((b0 - 0xF0) * 262144 + (b1 - 0x80) * 4096 + (b2 - 0x80) * 64 + (b3 - 0x80), 4)
                 else None
             | _ \<Rightarrow> None)
          else None)"

lemma utf8_first_length: "utf8_first bs = Some (c, n) \<Longrightarrow> 0 < n \<and> n \<le> length bs \<and> n \<le> 4"
  by (auto simp: utf8_first_def split: list.splits if_splits)

text \<open>
  \<open>from_utf8\<close>: the characters, or the number of bytes up to which the input is well-formed.
\<close>

function utf8_prefix :: "byte list \<Rightarrow> uchar list \<times> nat" where
  "utf8_prefix bs =
     (case utf8_first bs of
        None \<Rightarrow> ([], 0)
      | Some (c, n) \<Rightarrow> (case utf8_prefix (drop n bs) of (cs, m) \<Rightarrow> (c # cs, n + m)))"
  by pat_completeness auto
termination
  by (relation "measure length") (auto dest: utf8_first_length)

declare utf8_prefix.simps [simp del]

definition from_utf8 :: "byte list \<Rightarrow> nat + uchar list" where
  "from_utf8 bs =
     (case utf8_prefix bs of (cs, n) \<Rightarrow> if n = length bs then Inr cs else Inl n)"

definition encode_all :: "uchar list \<Rightarrow> byte list" where
  "encode_all cs = concat (map encode_utf8 cs)"

section \<open>Decoding what was encoded\<close>

lemma length_encode_utf8 [simp]: "length (encode_utf8 c) = len_utf8 c"
  by (simp add: encode_utf8_def len_utf8_def)

lemma encode_utf8_nonempty [simp]: "encode_utf8 c \<noteq> []"
  by (simp add: encode_utf8_def)

lemma encode_all_simps [simp]:
  "encode_all [] = []" "encode_all (c # cs) = encode_utf8 c @ encode_all cs"
  by (simp_all add: encode_all_def)

lemma base64_digits:
  fixes c :: nat
  shows "c = c div 4096 * 4096 + (c div 64 mod 64) * 64 + c mod 64"
    and "c div 4096 = c div 262144 * 64 + c div 4096 mod 64"
proof -
  have "c div 4096 = c div 64 div 64" "c div 262144 = c div 4096 div 64"
    by (simp_all add: div_mult2_eq [symmetric])
  then have "c div 64 = c div 4096 * 64 + c div 64 mod 64"
    and "c div 4096 = c div 262144 * 64 + c div 4096 mod 64" by presburger+
  moreover have "c = c div 64 * 64 + c mod 64" by presburger
  ultimately show "c = c div 4096 * 4096 + (c div 64 mod 64) * 64 + c mod 64"
    and "c div 4096 = c div 262144 * 64 + c div 4096 mod 64" by linarith+
qed

lemma utf8_first_encode:
  assumes "valid_char c"
  shows "utf8_first (encode_utf8 c @ rest) = Some (c, len_utf8 c)"
proof -
  define d where "d = c mod 64"
  define b where "b = c div 64 mod 64"
  define a where "a = c div 4096"
  define a0 where "a0 = c div 262144"
  define a1 where "a1 = c div 4096 mod 64"
  have lt: "d < 64" "b < 64" "a1 < 64" by (simp_all add: d_def b_def a1_def)
  have c3: "c = a * 4096 + b * 64 + d" and c4: "a = a0 * 64 + a1"
    using base64_digits [of c] by (simp_all add: d_def b_def a_def a0_def a1_def)
  have valid: "c < 0xD800 \<or> 0xE000 \<le> c \<and> c \<le> 0x10FFFF" using assms by (simp add: valid_char_def)
  consider "c < 0x80" | "0x80 \<le> c" "c < 0x800" | "0x800 \<le> c" "c < 0x10000" | "0x10000 \<le> c" by linarith
  then show ?thesis
  proof cases
    case 1
    then show ?thesis by (simp add: encode_utf8_def utf8_first_def len_utf8_def)
  next
    case 2
    moreover have "2 \<le> c div 64" "c div 64 < 32" using 2 by simp_all
    ultimately show ?thesis by (simp add: encode_utf8_def utf8_first_def len_utf8_def is_cont_def)
  next
    case 3
    have enc: "encode_utf8 c = [0xE0 + a, 0x80 + b, 0x80 + d]" "len_utf8 c = 3"
      using 3 by (simp_all add: encode_utf8_def len_utf8_def a_def b_def d_def)
    have "a < 16" "a = 0 \<Longrightarrow> 32 \<le> b" "a = 13 \<Longrightarrow> b < 32" using 3 valid lt c3 by linarith+
    then show ?thesis unfolding enc using lt c3 by (auto simp: utf8_first_def is_cont_def)
  next
    case 4
    have enc: "encode_utf8 c = [0xF0 + a0, 0x80 + a1, 0x80 + b, 0x80 + d]" "len_utf8 c = 4"
      using 4 by (simp_all add: encode_utf8_def len_utf8_def a0_def a1_def b_def d_def)
    have "a0 < 5" "a0 = 0 \<Longrightarrow> 16 \<le> a1" "a0 = 4 \<Longrightarrow> a1 < 16" using 4 valid lt c3 c4 by linarith+
    then show ?thesis unfolding enc using lt c3 c4 by (auto simp: utf8_first_def is_cont_def)
  qed
qed

lemma utf8_prefix_encode:
  assumes "list_all valid_char cs"
  shows "utf8_prefix (encode_all cs @ rest) =
    (cs @ fst (utf8_prefix rest), length (encode_all cs) + snd (utf8_prefix rest))"
  using assms
proof (induction cs)
  case (Cons c cs)
  then have "utf8_prefix (encode_all (c # cs) @ rest) =
      (case utf8_prefix (encode_all cs @ rest) of (ds, m) \<Rightarrow> (c # ds, len_utf8 c + m))"
    by (simp add: utf8_prefix.simps [of "encode_utf8 c @ _"] utf8_first_encode)
  with Cons show ?case by simp
qed simp

lemma from_utf8_encode: "list_all valid_char cs \<Longrightarrow> from_utf8 (encode_all cs) = Inr cs"
  using utf8_prefix_encode [of cs "[]"] by (simp add: from_utf8_def utf8_prefix.simps [of "[]"] utf8_first_def)

text \<open>A proper beginning of the bytes of one character is not well-formed.\<close>

lemma utf8_first_take:
  assumes "valid_char c" and "n < len_utf8 c"
  shows "utf8_first (take n (encode_utf8 c)) = None"
proof -
  have "n = 0 \<or> n = 1 \<or> n = 2 \<or> n = 3" using assms(2) by (auto simp: len_utf8_def split: if_splits)
  then show ?thesis
    using assms
    by (auto simp: encode_utf8_def utf8_first_def len_utf8_def valid_char_def numeral_2_eq_2 numeral_3_eq_3
        split: if_splits)
qed

end
