(* ===== verification/CharReader.thy ===== *)
theory CharReader
  imports Utf8 Lexer
begin

text \<open>
  The buffered character reader of \<open>src/src/parser/char_reader.rs\<close>. The underlying reader is
  a script of what its reads deliver: chunks of bytes, of which a read takes as many as it asked
  for, and failures; an exhausted script is the end of the input. A reader that returns an empty
  chunk before its end is allowed, as the \<open>Read\<close> trait allows it.

  The trait \<open>CharRead\<close> is the locale \<open>char_source\<close>; it is interpreted on this reader
  and on the character list that the lexer of \<open>Lexer\<close> works on, so the lexer sees through the
  buffer exactly the characters the bytes encode.
\<close>

section \<open>The underlying reader\<close>

datatype chunk = Bytes "byte list" | Failure ErrorKind

type_synonym source = "chunk list"

definition inner_read :: "nat \<Rightarrow> source \<Rightarrow> (ErrorKind + byte list) \<times> source" where
  "inner_read n src =
     (case src of
        [] \<Rightarrow> (Inr [], [])
      | Failure k # rest \<Rightarrow> (Inl k, rest)
      | Bytes bs # rest \<Rightarrow>
          (Inr (take n bs), if length bs \<le> n then rest else Bytes (drop n bs) # rest))"

primrec chunk_size :: "chunk \<Rightarrow> nat" where
  "chunk_size (Bytes bs) = Suc (length bs)"
| "chunk_size (Failure k) = 1"

definition source_size :: "source \<Rightarrow> nat" where
  "source_size src = sum_list (map chunk_size src)"

lemma source_size_inner_read:
  "inner_read n src = (r, src') \<Longrightarrow> source_size src' \<le> source_size src"
  "inner_read n src = (Inl k, src') \<Longrightarrow> source_size src' < source_size src"
  "inner_read n src = (Inr (b # bs), src') \<Longrightarrow> source_size src' < source_size src"
  by (cases n; auto simp: inner_read_def source_size_def split: list.splits chunk.splits if_splits)+

section \<open>The reader\<close>

record CharReader =
  inner :: source
  buf :: "byte list"
  pos :: nat

datatype io_error = IoError ErrorKind | BadUtf8 "byte list"

definition CharReader_new :: "source \<Rightarrow> CharReader" where
  "CharReader_new src = \<lparr>inner = src, buf = [], pos = 0\<rparr>"

text \<open>
  The bytes from \<open>pos\<close> on. Slicing the buffer there panics when \<open>pos\<close> is beyond its end
  and so does the subtraction of \<open>rem_buf_len\<close>: \<open>None\<close> in \<open>buffer\<close>, \<open>rem_buf_len\<close> and
  their callers stands for that panic.
\<close>

definition unread :: "CharReader \<Rightarrow> byte list" where
  "unread r = drop (pos r) (buf r)"

definition rem_buf_len :: "CharReader \<Rightarrow> nat option" where
  "rem_buf_len r = (if pos r > length (buf r) then None else Some (length (buf r) - pos r))"

definition buffer :: "CharReader \<Rightarrow> byte list option" where
  "buffer r = (if pos r > length (buf r) then None else Some (unread r))"

definition reset_buffer :: "CharReader \<Rightarrow> CharReader" where
  "reset_buffer r = r\<lparr>buf := [], pos := 0\<rparr>"

definition refresh_buffer :: "CharReader \<Rightarrow> (ErrorKind + byte list) \<times> CharReader" where
  "refresh_buffer r =
     (if pos r \<ge> length (buf r) then
        (case inner_read 4 (inner r) of
           (Inl k, src) \<Rightarrow> (Inl k, r\<lparr>inner := src, buf := []\<rparr>)
         | (Inr bs, src) \<Rightarrow> (Inr bs, r\<lparr>inner := src, buf := bs, pos := 0\<rparr>))
      else (Inr (unread r), r))"

definition peek_byte :: "CharReader \<Rightarrow> (ErrorKind + byte) option \<times> CharReader" where
  "peek_byte r =
     (case refresh_buffer r of
        (Inr bs, r1) \<Rightarrow> (case bs of [] \<Rightarrow> None | b # _ \<Rightarrow> Some (Inr b), r1)
      | (Inl e, r1) \<Rightarrow> (Some (Inl e), r1))"

text \<open>The bytes an invalid sequence is blamed on: up to the next point from which it is valid.\<close>

function bad_bytes :: "nat \<Rightarrow> byte list \<Rightarrow> byte list" where
  "bad_bytes split_point bs =
     (let rest = drop split_point bs
      in if rest = [] \<or> (case from_utf8 rest of Inr _ \<Rightarrow> True | Inl _ \<Rightarrow> False)
         then take split_point bs else bad_bytes (Suc split_point) bs)"
  by pat_completeness auto
termination
  by (relation "measure (\<lambda>(n, bs). length bs - n)") auto

declare bad_bytes.simps [simp del]

definition bad_bytes_error :: "byte list \<Rightarrow> io_error" where
  "bad_bytes_error bs = BadUtf8 (bad_bytes 1 bs)"

text \<open>The loop of \<open>peek_char\<close>.\<close>

function peek_loop :: "CharReader \<Rightarrow> (io_error + uchar) option \<times> CharReader" where
  "peek_loop r =
     (let bs = unread r
      in if bs = [] then (None, r)
         else case from_utf8 bs of
           Inr cs \<Rightarrow> (Some (Inr (hd cs)), r)
         | Inl valid_up_to \<Rightarrow>
             if length bs - valid_up_to \<ge> 4 then (Some (Inl (bad_bytes_error bs)), r)
             else if pos r \<ge> length (buf r) then (None, r)
             else if length (buf r) - pos r \<ge> 4 \<and> pos r < valid_up_to then
               (case from_utf8 (take valid_up_to bs) of
                  Inr cs \<Rightarrow> (Some (Inr (hd cs)), r)
                | Inl e \<Rightarrow> (Some (Inl (BadUtf8 (take e bs))), r))
             else
               let r1 = r\<lparr>buf := bs, pos := 0\<rparr>
               in if length bs \<ge> 4 then peek_loop r1
                  else case inner_read (4 - length bs) (inner r1) of
                    (Inl k, src) \<Rightarrow> (Some (Inl (IoError k)), r1\<lparr>inner := src\<rparr>)
                  | (Inr [], src) \<Rightarrow> (Some (Inl (bad_bytes_error bs)), r1\<lparr>inner := src\<rparr>)
                  | (Inr (b # fresh), src) \<Rightarrow> peek_loop (r1\<lparr>inner := src, buf := bs @ b # fresh\<rparr>))"
  by pat_completeness auto
termination
proof (relation "measures [\<lambda>r. source_size (inner r), pos]", goal_cases)
  case (2 r bs valid r1)
  then have "0 < pos r" by (auto simp: unread_def)
  with 2 show ?case by simp
next
  case (3 r bs valid r1 x src y b fresh)
  then have "inner_read (4 - length bs) (inner r) = (Inr (b # fresh), src)" by simp
  from source_size_inner_read(3) [OF this] 3 show ?case by simp
qed simp

declare peek_loop.simps [simp del]

definition cr_peek_char :: "CharReader \<Rightarrow> (io_error + uchar) option \<times> CharReader" where
  "cr_peek_char r =
     (case refresh_buffer r of
        (Inl e, r1) \<Rightarrow> (Some (Inl (IoError e)), r1)
      | (Inr _, r1) \<Rightarrow> peek_loop r1)"

text \<open>
  \<open>put_back_char\<close> copies the unread bytes through a scratch array of 32 bytes; with more
  bytes unread the slice is out of range and the program panics (\<open>None\<close>).
\<close>

definition cr_put_back_char :: "uchar \<Rightarrow> CharReader \<Rightarrow> CharReader option" where
  "cr_put_back_char c r =
     (if pos r > length (buf r) \<or> length (buf r) - pos r > 32 then None
      else Some (r\<lparr>buf := encode_utf8 c @ unread r, pos := 0\<rparr>))"

definition cr_consume :: "nat \<Rightarrow> CharReader \<Rightarrow> CharReader" where
  "cr_consume nread r = r\<lparr>pos := pos r + nread\<rparr>"

text \<open>\<open>Read::read\<close> and \<open>Read::read_exact\<close> of the reader, for a buffer of \<open>n\<close> bytes.\<close>

definition cr_read :: "nat \<Rightarrow> CharReader \<Rightarrow> (ErrorKind + byte list) \<times> CharReader" where
  "cr_read n r =
     (case refresh_buffer r of
        (Inl e, r1) \<Rightarrow> (Inl e, r1)
      | (Inr bs, r1) \<Rightarrow> (Inr (take n bs), cr_consume (length (take n bs)) r1))"

lemma source_size_refresh:
  "refresh_buffer r = (x, r1) \<Longrightarrow> source_size (inner r1) \<le> source_size (inner r)"
  "refresh_buffer r = (Inl e, r1) \<Longrightarrow> source_size (inner r1) < source_size (inner r)"
  by (auto simp: refresh_buffer_def split: if_splits prod.splits sum.splits
      dest: source_size_inner_read(1,2))

lemma source_size_cr_read:
  "cr_read n r = (x, r1) \<Longrightarrow> source_size (inner r1) \<le> source_size (inner r)"
  "cr_read n r = (Inl e, r1) \<Longrightarrow> source_size (inner r1) < source_size (inner r)"
  by (auto simp: cr_read_def cr_consume_def split: prod.splits sum.splits dest: source_size_refresh)

function read_exact_loop :: "nat \<Rightarrow> byte list \<Rightarrow> CharReader \<Rightarrow> (ErrorKind + byte list) \<times> CharReader" where
  "read_exact_loop n acc r =
     (if n = 0 then (Inr acc, r)
      else case cr_read n r of
        (Inr [], r1) \<Rightarrow> (Inl UnexpectedEof, r1)
      | (Inr (b # bs), r1) \<Rightarrow> read_exact_loop (n - length (b # bs)) (acc @ b # bs) r1
      | (Inl e, r1) \<Rightarrow> if e = Interrupted then read_exact_loop n acc r1 else (Inl e, r1))"
  by pat_completeness auto
termination
  by (relation "measure (\<lambda>(n, acc, r). n + source_size (inner r))")
     (auto dest!: source_size_cr_read(1) [OF sym] source_size_cr_read(2) [OF sym])

declare read_exact_loop.simps [simp del]

definition cr_read_exact :: "nat \<Rightarrow> CharReader \<Rightarrow> ((ErrorKind + byte list) \<times> CharReader) option" where
  "cr_read_exact n r =
     (case buffer r of
        None \<Rightarrow> None
      | Some bs \<Rightarrow>
          if length bs \<ge> n then Some (Inr (take n bs), cr_consume n r)
          else Some (read_exact_loop n [] r))"

section \<open>The interface of a source of characters\<close>

locale char_source =
  fixes peek :: "'r \<Rightarrow> ('e + uchar) option \<times> 'r"
    and consume :: "nat \<Rightarrow> 'r \<Rightarrow> 'r"
    and put_back :: "uchar \<Rightarrow> 'r \<Rightarrow> 'r option"
    and content :: "'r \<Rightarrow> uchar list \<Rightarrow> bool"
    and room :: "'r \<Rightarrow> bool"
  assumes peek_char: "content r (c # cs) \<Longrightarrow> \<exists>r'. peek r = (Some (Inr c), r') \<and>
      content r' (c # cs) \<and> content (consume (len_utf8 c) r') cs"
    and peek_end: "content r [] \<Longrightarrow> \<exists>r'. peek r = (None, r') \<and> content r' []"
    and put_back: "content r cs \<Longrightarrow> room r \<Longrightarrow> valid_char c \<Longrightarrow>
      \<exists>r'. put_back c r = Some r' \<and> content r' (c # cs)"
begin

text \<open>The provided method \<open>read_char\<close> of the trait.\<close>

definition next_char :: "'r \<Rightarrow> ('e + uchar) option \<times> 'r" where
  "next_char r =
     (case peek r of
        (Some (Inr c), r') \<Rightarrow> (Some (Inr c), consume (len_utf8 c) r')
      | (x, r') \<Rightarrow> (x, r'))"

lemma next_char_cons: "content r (c # cs) \<Longrightarrow> \<exists>r'. next_char r = (Some (Inr c), r') \<and> content r' cs"
  by (drule peek_char) (auto simp: next_char_def)

lemma next_char_end: "content r [] \<Longrightarrow> \<exists>r'. next_char r = (None, r') \<and> content r' []"
  by (drule peek_end) (auto simp: next_char_def)

text \<open>Reading \<open>n\<close> characters one by one.\<close>

fun next_chars :: "nat \<Rightarrow> 'r \<Rightarrow> ('e + uchar) option list \<times> 'r" where
  "next_chars 0 r = ([], r)"
| "next_chars (Suc n) r =
     (case next_char r of (x, r1) \<Rightarrow> (case next_chars n r1 of (xs, r2) \<Rightarrow> (x # xs, r2)))"

lemma next_chars_content:
  "content r (cs @ ds) \<Longrightarrow>
     \<exists>r'. next_chars (length cs) r = (map (Some \<circ> Inr) cs, r') \<and> content r' ds"
proof (induction cs arbitrary: r)
  case (Cons c cs)
  from Cons.prems obtain r1 where 1: "next_char r = (Some (Inr c), r1)" "content r1 (cs @ ds)"
    using next_char_cons by (metis append_Cons)
  from Cons.IH [OF 1(2)] 1(1) show ?case by auto
qed simp

lemma next_chars_all:
  assumes "content r cs"
  shows "\<exists>r'. next_chars (Suc (length cs)) r = (map (Some \<circ> Inr) cs @ [None], r') \<and> content r' []"
  using assms
proof (induction cs arbitrary: r)
  case Nil
  then show ?case using next_char_end by fastforce
next
  case (Cons c cs)
  from Cons.prems obtain r1 where 1: "next_char r = (Some (Inr c), r1)" "content r1 cs"
    using next_char_cons by blast
  from Cons.IH [OF 1(2)] 1(1) show ?case by auto
qed

end

section \<open>The list of characters\<close>

definition lexer_peek :: "lexer \<Rightarrow> (ErrorKind + uchar) option \<times> lexer" where
  "lexer_peek s = (peek_char s, s)"

definition lexer_consume :: "nat \<Rightarrow> lexer \<Rightarrow> lexer" where
  "lexer_consume n s = s\<lparr>chars := consume_bytes n (chars s)\<rparr>"

definition lexer_content :: "lexer \<Rightarrow> uchar list \<Rightarrow> bool" where
  "lexer_content s cs \<longleftrightarrow> chars s = cs \<and> rd_end s = AtEof"

interpretation list_source: char_source lexer_peek lexer_consume "\<lambda>c s. Some (put_back_char c s)"
  lexer_content "\<lambda>_. True"
  by unfold_locales
     (auto simp: lexer_peek_def lexer_consume_def lexer_content_def peek_char_def put_back_char_def)

section \<open>The buffered reader refines the list of characters\<close>

text \<open>Chunks that hold bytes, and the bytes of a source.\<close>

primrec chunk_bytes :: "chunk \<Rightarrow> byte list" where
  "chunk_bytes (Bytes bs) = bs"
| "chunk_bytes (Failure k) = []"

definition source_bytes :: "source \<Rightarrow> byte list" where
  "source_bytes src = concat (map chunk_bytes src)"

definition reliable :: "source \<Rightarrow> bool" where
  "reliable src \<longleftrightarrow> list_all (\<lambda>ch. chunk_bytes ch \<noteq> []) src"

definition represents :: "CharReader \<Rightarrow> uchar list \<Rightarrow> bool" where
  "represents r cs \<longleftrightarrow>
     list_all valid_char cs \<and> reliable (inner r) \<and> pos r \<le> length (buf r) \<and>
     unread r @ source_bytes (inner r) = encode_all cs"

lemma inner_read_reliable:
  assumes "reliable src" and "0 < n" and "source_bytes src \<noteq> []"
  obtains b bs src' where "inner_read n src = (Inr (b # bs), src')" and "reliable src'"
    and "b # bs @ source_bytes src' = source_bytes src"
proof -
  from assms(3) obtain ch rest where src: "src = ch # rest" by (cases src) (auto simp: source_bytes_def)
  with assms(1) obtain x xs where ch: "ch = Bytes (x # xs)"
    by (cases ch; cases "chunk_bytes ch") (auto simp: reliable_def)
  from assms(2) obtain m where n: "n = Suc m" by (cases n) auto
  have "reliable rest" using assms(1) src by (simp add: reliable_def)
  then show thesis
    by (intro that [of x "take m xs" "if length xs \<le> m then rest else Bytes (drop m xs) # rest"])
       (auto simp: src ch n inner_read_def reliable_def source_bytes_def)
qed

lemma inner_read_end: "source_bytes src = [] \<Longrightarrow> reliable src \<Longrightarrow> inner_read n src = (Inr [], [])"
  by (cases src) (auto simp: source_bytes_def reliable_def inner_read_def)

text \<open>How a beginning of well-formed bytes decodes.\<close>

lemma utf8_prefix_beginning:
  assumes "bs @ rest = encode_all cs" and "list_all valid_char cs"
  shows "\<exists>k. utf8_prefix bs = (take k cs, length (encode_all (take k cs))) \<and>
    take (length (encode_all (take k cs))) bs = encode_all (take k cs) \<and>
    length bs < length (encode_all (take k cs)) + 4 \<and>
    (\<forall>c cs'. cs = c # cs' \<longrightarrow> k = 0 \<longrightarrow> length bs < len_utf8 c)"
  using assms
proof (induction cs arbitrary: bs)
  case Nil
  then show ?case by (intro exI [of _ 0]) (simp add: utf8_prefix.simps [of "[]"] utf8_first_def)
next
  case (Cons c cs)
  show ?case
  proof (cases "len_utf8 c \<le> length bs")
    case True
    from Cons.prems(1) have eq: "bs @ rest = encode_utf8 c @ encode_all cs" by simp
    have "take (len_utf8 c) bs = encode_utf8 c"
      using arg_cong [OF eq, of "take (len_utf8 c)"] True by simp
    then have bs: "bs = encode_utf8 c @ drop (len_utf8 c) bs" by (metis append_take_drop_id)
    have rest: "drop (len_utf8 c) bs @ rest = encode_all cs"
      using arg_cong [OF eq, of "drop (len_utf8 c)"] True by simp
    from Cons.IH [OF rest] Cons.prems(2) obtain k where
      k: "utf8_prefix (drop (len_utf8 c) bs) = (take k cs, length (encode_all (take k cs)))"
        "take (length (encode_all (take k cs))) (drop (len_utf8 c) bs) = encode_all (take k cs)"
        "length (drop (len_utf8 c) bs) < length (encode_all (take k cs)) + 4" by auto
    have f: "utf8_first bs = Some (c, len_utf8 c)"
      using utf8_first_encode [of c "drop (len_utf8 c) bs"] Cons.prems(2) bs by simp
    have "take (len_utf8 c + length (encode_all (take k cs))) bs = encode_utf8 c @ encode_all (take k cs)"
      using k(2) by (subst bs) (simp add: take_add)
    with k f show ?thesis
      by (intro exI [of _ "Suc k"]) (auto simp: utf8_prefix.simps [of bs])
  next
    case False
    have "bs @ rest = encode_utf8 c @ encode_all cs" using Cons.prems(1) by simp
    from arg_cong [OF this, of "take (length bs)"] False
    have "bs = take (length bs) (encode_utf8 c)" by simp
    moreover have "utf8_first (take (length bs) (encode_utf8 c)) = None"
      using utf8_first_take [of c "length bs"] Cons.prems(2) False by simp
    ultimately have "utf8_first bs = None" by simp
    with False show ?thesis
      by (intro exI [of _ 0]) (auto simp: utf8_prefix.simps [of bs] len_utf8_def split: if_splits)
  qed
qed

lemma represents_move:
  "represents r cs \<Longrightarrow> represents (r\<lparr>buf := unread r, pos := 0\<rparr>) cs"
  by (simp add: represents_def unread_def)

lemma peek_loop_represents:
  assumes "represents r (c # cs)" and "unread r \<noteq> []"
  shows "\<exists>r'. peek_loop r = (Some (Inr c), r') \<and> represents r' (c # cs) \<and> len_utf8 c \<le> length (unread r')"
  using assms
proof (induction r rule: peek_loop.induct)
  case (1 r)
  let ?bs = "unread r"
  have rep: "?bs @ source_bytes (inner r) = encode_all (c # cs)" "list_all valid_char (c # cs)"
    "reliable (inner r)" using 1(3) by (simp_all add: represents_def)
  from utf8_prefix_beginning [OF rep(1,2)] obtain k where
    k: "utf8_prefix ?bs = (take k (c # cs), length (encode_all (take k (c # cs))))"
      "take (length (encode_all (take k (c # cs)))) ?bs = encode_all (take k (c # cs))"
      "length ?bs < length (encode_all (take k (c # cs))) + 4" "k = 0 \<longrightarrow> length ?bs < len_utf8 c" by auto
  let ?v = "length (encode_all (take k (c # cs)))"
  have enough: "0 < k \<Longrightarrow> len_utf8 c \<le> length ?bs"
  proof -
    assume "0 < k"
    then have "len_utf8 c \<le> ?v" by (cases k) auto
    also have "?v \<le> length ?bs" using k(2) by (metis length_take min.cobounded1 nle_le)
    finally show ?thesis .
  qed
  show ?case
  proof (cases "?v = length ?bs")
    case True
    with 1(4) have "0 < k" by (cases k) auto
    then have "hd (take k (c # cs)) = c" by (cases k) auto
    with True k(1) 1(3,4) enough [OF \<open>0 < k\<close>] show ?thesis
      by (simp add: peek_loop.simps [of r] from_utf8_def Let_def)
  next
    case False
    then have inl: "from_utf8 ?bs = Inl ?v" using k(1) by (simp add: from_utf8_def)
    have pos: "pos r < length (buf r)" using 1(4) by (simp add: unread_def)
    have few: "\<not> length ?bs - ?v \<ge> 4" using k(3) by simp
    show ?thesis
    proof (cases "length (buf r) - pos r \<ge> 4 \<and> pos r < ?v")
      case True
      then have "0 < k" by (cases k) auto
      then have "hd (take k (c # cs)) = c" by (cases k) auto
      moreover have "list_all valid_char (take k (c # cs))"
        using rep(2) by (metis append_take_drop_id list_all_append)
      ultimately show ?thesis
        using True k(2,3) inl pos 1(3,4) enough [OF \<open>0 < k\<close>]
        by (simp add: peek_loop.simps [of r] Let_def from_utf8_encode)
    next
      case move: False
      let ?r1 = "r\<lparr>buf := ?bs, pos := 0\<rparr>"
      have r1: "represents ?r1 (c # cs)" "unread ?r1 = ?bs"
        using represents_move [OF 1(3)] by (simp_all add: unread_def)
      show ?thesis
      proof (cases "length ?bs \<ge> 4")
        case True
        have "\<exists>r'. peek_loop ?r1 = (Some (Inr c), r') \<and> represents r' (c # cs) \<and> len_utf8 c \<le> length (unread r')"
          by (rule 1(1) [OF refl 1(4) inl _ _ _ refl True]) (use few pos move r1 1(4) in auto)
        moreover have "peek_loop r = peek_loop ?r1"
          using True few pos move inl 1(4) by (subst peek_loop.simps) (auto simp: Let_def)
        ultimately show ?thesis by simp
      next
        case False
        have "source_bytes (inner r) \<noteq> []"
        proof
          assume none: "source_bytes (inner r) = []"
          then have "utf8_prefix ?bs = (c # cs, length ?bs)"
            using utf8_prefix_encode [OF rep(2), of "[]"] rep(1)
            by (simp add: utf8_prefix.simps [of "[]"] utf8_first_def)
          with k(1) \<open>?v \<noteq> length ?bs\<close> show False by simp
        qed
        with inner_read_reliable [OF rep(3), of "4 - length ?bs"] False obtain b fresh src where
          rd: "inner_read (4 - length ?bs) (inner r) = (Inr (b # fresh), src)" "reliable src"
            "b # fresh @ source_bytes src = source_bytes (inner r)" by auto
        let ?r2 = "?r1\<lparr>inner := src, buf := ?bs @ b # fresh\<rparr>"
        have rd1: "inner_read (4 - length ?bs) (inner ?r1) = (Inr (b # fresh), src)" using rd(1) by simp
        have "represents ?r2 (c # cs)" "unread ?r2 \<noteq> []"
          using rep rd by (simp_all add: represents_def unread_def)
        then have "\<exists>r'. peek_loop ?r2 = (Some (Inr c), r') \<and> represents r' (c # cs) \<and> len_utf8 c \<le> length (unread r')"
          by (intro 1(2) [OF refl 1(4) inl _ _ _ refl False rd1 [symmetric] refl refl])
             (use few pos move in auto)
        moreover have "peek_loop r = peek_loop ?r2"
          using False few pos move inl 1(4) rd(1) by (subst peek_loop.simps) (auto simp: Let_def)
        ultimately show ?thesis by simp
      qed
    qed
  qed
qed

lemma refresh_represents:
  assumes "represents r cs"
  shows "\<exists>bs r'. refresh_buffer r = (Inr bs, r') \<and> represents r' cs \<and> (unread r' = [] \<longleftrightarrow> cs = [])"
proof (cases "pos r \<ge> length (buf r)")
  case True
  then have "unread r = []" by (simp add: unread_def)
  with assms have rep: "list_all valid_char cs" "reliable (inner r)" "source_bytes (inner r) = encode_all cs"
    by (simp_all add: represents_def)
  show ?thesis
  proof (cases cs)
    case Nil
    then have "inner_read 4 (inner r) = (Inr [], [])" using rep inner_read_end by simp
    with True Nil show ?thesis
      by (simp add: refresh_buffer_def represents_def unread_def reliable_def source_bytes_def)
  next
    case (Cons c cs')
    with rep have "source_bytes (inner r) \<noteq> []" by simp
    then obtain b bs src where "inner_read 4 (inner r) = (Inr (b # bs), src)" "reliable src"
      "b # bs @ source_bytes src = source_bytes (inner r)"
      using inner_read_reliable [OF rep(2), of 4] by auto
    with True Cons rep show ?thesis by (simp add: refresh_buffer_def represents_def unread_def)
  qed
next
  case False
  with assms show ?thesis
    by (cases cs) (auto simp: refresh_buffer_def represents_def unread_def)
qed

lemma represents_consume:
  assumes "represents r (c # cs)" and "len_utf8 c \<le> length (unread r)"
  shows "represents (cr_consume (len_utf8 c) r) cs"
proof -
  have eq: "unread r @ source_bytes (inner r) = encode_utf8 c @ encode_all cs"
    using assms(1) by (simp add: represents_def)
  have "drop (len_utf8 c) (unread r) @ source_bytes (inner r) = encode_all cs"
    using arg_cong [OF eq, of "drop (len_utf8 c)"] assms(2) by simp
  then show ?thesis
    using assms by (auto simp: represents_def cr_consume_def unread_def add.commute)
qed

definition room :: "CharReader \<Rightarrow> bool" where
  "room r \<longleftrightarrow> length (unread r) \<le> 32"

interpretation byte_source: char_source cr_peek_char cr_consume cr_put_back_char represents room
proof
  fix r c cs
  assume "represents r (c # cs)"
  from refresh_represents [OF this] obtain bs r1 where
    1: "refresh_buffer r = (Inr bs, r1)" "represents r1 (c # cs)" "unread r1 \<noteq> []" by auto
  from peek_loop_represents [OF 1(2,3)] 1(1)
  show "\<exists>r'. cr_peek_char r = (Some (Inr c), r') \<and> represents r' (c # cs) \<and>
      represents (cr_consume (len_utf8 c) r') cs"
    by (auto simp: cr_peek_char_def intro: represents_consume)
next
  fix r
  assume "represents r []"
  from refresh_represents [OF this] obtain bs r1 where
    "refresh_buffer r = (Inr bs, r1)" "represents r1 []" "unread r1 = []" by auto
  then show "\<exists>r'. cr_peek_char r = (None, r') \<and> represents r' []"
    by (auto simp: cr_peek_char_def peek_loop.simps [of r1])
next
  fix r cs c
  assume "represents r cs" "room r" "valid_char c"
  then show "\<exists>r'. cr_put_back_char c r = Some r' \<and> represents r' (c # cs)"
    by (auto simp: cr_put_back_char_def represents_def room_def unread_def)
qed

text \<open>Where the reads of this interface end up: the trait's method on the buffered reader.\<close>

definition cr_read_char :: "CharReader \<Rightarrow> (io_error + uchar) option \<times> CharReader" where
  "cr_read_char r =
     (case cr_peek_char r of
        (Some (Inr c), r') \<Rightarrow> (Some (Inr c), cr_consume (len_utf8 c) r')
      | (x, r') \<Rightarrow> (x, r'))"

fun cr_read_chars :: "nat \<Rightarrow> CharReader \<Rightarrow> (io_error + uchar) option list \<times> CharReader" where
  "cr_read_chars 0 r = ([], r)"
| "cr_read_chars (Suc n) r =
     (case cr_read_char r of (x, r1) \<Rightarrow> (case cr_read_chars n r1 of (xs, r2) \<Rightarrow> (x # xs, r2)))"

lemma cr_read_chars_next: "cr_read_chars n r = byte_source.next_chars n r"
  by (induction n arbitrary: r) (simp_all add: cr_read_char_def byte_source.next_char_def)

fun cr_put_back_chars :: "uchar list \<Rightarrow> CharReader \<Rightarrow> CharReader option" where
  "cr_put_back_chars [] r = Some r"
| "cr_put_back_chars (c # cs) r = Option.bind (cr_put_back_char c r) (cr_put_back_chars cs)"

lemma length_unread_put_back:
  "cr_put_back_char c r = Some r' \<Longrightarrow> length (unread r') = len_utf8 c + length (unread r)"
  by (auto simp: cr_put_back_char_def unread_def split: if_splits)

lemma put_back_chars_represents:
  assumes "represents r ds" and "list_all valid_char cs" and "length (unread r) + 4 * length cs \<le> 36"
  shows "\<exists>r'. cr_put_back_chars cs r = Some r' \<and> represents r' (rev cs @ ds)"
  using assms
proof (induction cs arbitrary: r ds)
  case (Cons c cs)
  then have "room r" "valid_char c" by (simp_all add: room_def)
  with Cons.prems(1) obtain r1 where
    r1: "cr_put_back_char c r = Some r1" "represents r1 (c # ds)" using byte_source.put_back by blast
  have "len_utf8 c \<le> 4" by (simp add: len_utf8_def)
  with length_unread_put_back [OF r1(1)] Cons.prems(3)
  have "length (unread r1) + 4 * length cs \<le> 36" by simp
  with Cons.IH [OF r1(2)] Cons.prems(2) r1(1) show ?case by auto
qed simp

section \<open>Reading bytes\<close>

definition all_bytes :: "CharReader \<Rightarrow> byte list" where
  "all_bytes r = unread r @ source_bytes (inner r)"

definition sound_reader :: "CharReader \<Rightarrow> bool" where
  "sound_reader r \<longleftrightarrow> pos r \<le> length (buf r) \<and> reliable (inner r)"

lemma refresh_sound:
  assumes "sound_reader r"
  shows "\<exists>r'. refresh_buffer r = (Inr (unread r'), r') \<and> sound_reader r' \<and> all_bytes r' = all_bytes r \<and>
    (unread r' = [] \<longleftrightarrow> all_bytes r = [])"
proof (cases "pos r \<ge> length (buf r)")
  case True
  with assms have rel: "reliable (inner r)" "unread r = []" by (auto simp: sound_reader_def unread_def)
  show ?thesis
  proof (cases "source_bytes (inner r) = []")
    case none: True
    with True rel inner_read_end [of "inner r" 4] show ?thesis
      by (simp add: refresh_buffer_def sound_reader_def all_bytes_def unread_def reliable_def source_bytes_def)
  next
    case False
    then obtain b bs src where "inner_read 4 (inner r) = (Inr (b # bs), src)" "reliable src"
      "b # bs @ source_bytes src = source_bytes (inner r)"
      using inner_read_reliable [OF rel(1), of 4] by auto
    with True rel False show ?thesis
      by (simp add: refresh_buffer_def sound_reader_def all_bytes_def unread_def)
  qed
next
  case False
  with assms show ?thesis by (auto simp: refresh_buffer_def sound_reader_def all_bytes_def unread_def)
qed

lemma cr_read_sound:
  assumes "sound_reader r"
  shows "\<exists>bs r'. cr_read n r = (Inr bs, r') \<and> sound_reader r' \<and> all_bytes r = bs @ all_bytes r' \<and>
    length bs \<le> n \<and> (bs = [] \<longleftrightarrow> n = 0 \<or> all_bytes r = [])"
proof -
  from refresh_sound [OF assms] obtain r1 where
    r1: "refresh_buffer r = (Inr (unread r1), r1)" "sound_reader r1" "all_bytes r1 = all_bytes r"
      "unread r1 = [] \<longleftrightarrow> all_bytes r = []" by auto
  let ?bs = "take n (unread r1)" and ?r2 = "cr_consume (length (take n (unread r1))) r1"
  have "unread ?r2 = drop n (unread r1)"
    by (simp add: cr_consume_def unread_def add.commute) (simp add: min_def add.commute)
  then have bytes: "all_bytes r = ?bs @ all_bytes ?r2"
    unfolding r1(3) [symmetric] by (simp add: all_bytes_def cr_consume_def)
  have "sound_reader ?r2" using r1(2) by (auto simp: sound_reader_def cr_consume_def unread_def)
  moreover have "?bs = [] \<longleftrightarrow> n = 0 \<or> all_bytes r = []" using r1(4) by simp
  moreover have "cr_read n r = (Inr ?bs, ?r2)" using r1(1) by (simp add: cr_read_def)
  ultimately show ?thesis using bytes by (intro exI [of _ ?bs] exI [of _ ?r2]) simp
qed

lemma read_exact_loop_sound:
  assumes "sound_reader r"
  shows "\<exists>r'. read_exact_loop n acc r =
      (if n \<le> length (all_bytes r) then Inr (acc @ take n (all_bytes r)) else Inl UnexpectedEof, r') \<and>
    sound_reader r' \<and> all_bytes r' = drop n (all_bytes r)"
  using assms
proof (induction n acc r rule: read_exact_loop.induct)
  case (1 n acc r)
  from cr_read_sound [OF 1(3), of n] obtain bs r1 where
    rd: "cr_read n r = (Inr bs, r1)" "sound_reader r1" "all_bytes r = bs @ all_bytes r1"
      "length bs \<le> n" "bs = [] \<longleftrightarrow> n = 0 \<or> all_bytes r = []" by blast
  show ?case
  proof (cases bs)
    case Nil
    with rd 1(3) show ?thesis
      by (cases "n = 0") (auto simp: read_exact_loop.simps [of n] read_exact_loop.simps [of 0])
  next
    case (Cons b bs')
    with rd(5) have "n \<noteq> 0" by auto
    have step: "read_exact_loop n acc r = read_exact_loop (n - length bs) (acc @ bs) r1"
      using rd(1) Cons \<open>n \<noteq> 0\<close> by (simp add: read_exact_loop.simps [of n])
    have "n \<le> length (all_bytes r) \<longleftrightarrow> n - length bs \<le> length (all_bytes r1)"
      "take n (all_bytes r) = bs @ take (n - length bs) (all_bytes r1)"
      "drop n (all_bytes r) = drop (n - length bs) (all_bytes r1)"
      using rd(3,4) by auto
    with 1(2) [OF \<open>n \<noteq> 0\<close> rd(1) [symmetric] refl Cons] rd(2) Cons step show ?thesis by auto
  qed
qed

section \<open>Bytes that are not text\<close>

lemma cr_read_chars_stuck:
  "cr_peek_char r = (Some (Inl e), r) \<Longrightarrow> cr_read_chars n r = (replicate n (Some (Inl e)), r)"
  by (induction n) (simp_all add: cr_read_char_def)

lemma four: "4 = Suc (Suc (Suc (Suc 0)))"
  by simp

lemmas reader_eval = Let_def cr_read_char_def cr_peek_char_def refresh_buffer_def peek_loop.simps bad_bytes.simps
  bad_bytes_error_def CharReader_new_def inner_read_def unread_def from_utf8_def utf8_prefix.simps
  utf8_first_def is_cont_def encode_utf8_def len_utf8_def cr_put_back_char_def cr_consume_def

section \<open>Properties\<close>

text \<open>
  C16: However a reader delivers the UTF-8 bytes of a text, in whatever non-empty chunks, reading
  characters returns exactly the characters of the text, in order, and then reports the end.
\<close>
theorem bytes_are_read_as_their_chars:
  assumes "list_all valid_char cs" and "reliable src" and "source_bytes src = encode_all cs"
  shows "fst (cr_read_chars (Suc (length cs)) (CharReader_new src)) = map (Some \<circ> Inr) cs @ [None]"
proof -
  have "represents (CharReader_new src) cs"
    using assms by (simp add: represents_def CharReader_new_def unread_def)
  from byte_source.next_chars_all [OF this] show ?thesis by (auto simp: cr_read_chars_next)
qed

text \<open>The bytes of "a", a Greek letter and a space, delivered three and one at a time.\<close>
theorem bytes_are_read_as_their_chars_witness:
  "fst (cr_read_chars 4 (CharReader_new [Bytes [0x61, 0xCE, 0xBB], Bytes [0x20]])) =
     [Some (Inr 0x61), Some (Inr 0x3BB), Some (Inr 0x20), None]"
  unfolding four using bytes_are_read_as_their_chars [of "[0x61, 0x3BB, 0x20]" "[Bytes [0x61, 0xCE, 0xBB], Bytes [0x20]]"]
  by (simp add: valid_char_def reliable_def source_bytes_def encode_utf8_def)

text \<open>
  C17: Up to eight characters can be put back after a read that left at most four bytes unread (which
  is all the reader ever buffers on its own); they are then read first, the last one put back first,
  and the scratch array of \<open>put_back_char\<close> is never overrun.
\<close>
theorem put_back_chars_are_read_again:
  assumes "represents r ds" and "length (unread r) \<le> 4"
    and "list_all valid_char cs" and "length cs \<le> 8"
  shows "\<exists>r'. cr_put_back_chars cs r = Some r' \<and>
    fst (cr_read_chars (Suc (length cs + length ds)) r') = map (Some \<circ> Inr) (rev cs @ ds) @ [None]"
proof -
  from put_back_chars_represents [OF assms(1,3)] assms(2,4) obtain r' where
    "cr_put_back_chars cs r = Some r'" "represents r' (rev cs @ ds)" by auto
  with byte_source.next_chars_all [OF this(2)] show ?thesis by (auto simp: cr_read_chars_next)
qed

theorem put_back_chars_are_read_again_witness:
  "\<exists>r'. cr_put_back_chars [0x3BB, 0x61] (CharReader_new [Bytes [0x20]]) = Some r' \<and>
    fst (cr_read_chars 4 r') = [Some (Inr 0x61), Some (Inr 0x3BB), Some (Inr 0x20), None]"
  unfolding four using put_back_chars_are_read_again [of "CharReader_new [Bytes [0x20]]" "[0x20]" "[0x3BB, 0x61]"]
  by (simp add: represents_def CharReader_new_def unread_def valid_char_def reliable_def source_bytes_def
      encode_utf8_def)

text \<open>
  C18: \<open>read_exact\<close> on a reader without failures returns exactly the next \<open>n\<close> bytes, buffered
  or not, and leaves the rest; when fewer are left it fails with \<open>UnexpectedEof\<close> and they are gone.
\<close>
theorem read_exact_returns_next_bytes:
  assumes "sound_reader r"
  shows "\<exists>r'. cr_read_exact n r = Some
      (if n \<le> length (all_bytes r) then Inr (take n (all_bytes r)) else Inl UnexpectedEof, r') \<and>
    sound_reader r' \<and> all_bytes r' = drop n (all_bytes r)"
proof (cases "n \<le> length (unread r)")
  case True
  with assms show ?thesis
    by (auto simp: cr_read_exact_def buffer_def sound_reader_def all_bytes_def cr_consume_def unread_def
        add.commute)
next
  case False
  with assms read_exact_loop_sound [OF assms, of n "[]"] show ?thesis
    by (auto simp: cr_read_exact_def buffer_def sound_reader_def)
qed

theorem read_exact_returns_next_bytes_witness:
  "\<exists>r'. cr_read_exact 5 (CharReader_new [Bytes [1, 2, 3], Bytes [4, 5, 6]]) = Some (Inr [1, 2, 3, 4, 5], r') \<and>
    all_bytes r' = [6]"
  using read_exact_returns_next_bytes [of "CharReader_new [Bytes [1, 2, 3], Bytes [4, 5, 6]]" 5]
  by (fastforce simp: sound_reader_def CharReader_new_def reliable_def all_bytes_def unread_def
      source_bytes_def)

text \<open>
  Bytes that are not text block the reader: with four bytes buffered beyond the valid ones, every
  read returns the same error and none of them is consumed, although the error is meant to be raised
  once and the remaining data to be returned next.
\<close>
theorem bad_bytes_block_the_reader:
  assumes "from_utf8 (unread r) = Inl v" and "4 \<le> length (unread r) - v"
  shows "cr_read_chars n r = (replicate n (Some (Inl (bad_bytes_error (unread r)))), r)"
proof (rule cr_read_chars_stuck)
  from assms have "unread r \<noteq> []" by auto
  then have "pos r < length (buf r)" by (simp add: unread_def)
  with assms \<open>unread r \<noteq> []\<close> show "cr_peek_char r = (Some (Inl (bad_bytes_error (unread r))), r)"
    by (simp add: cr_peek_char_def refresh_buffer_def peek_loop.simps [of r])
qed

theorem bad_bytes_block_the_reader_witness:
  "cr_read_chars 3 \<lparr>inner = [], buf = [0xFF, 0x61, 0x62, 0x63], pos = 0\<rparr> =
     (replicate 3 (Some (Inl (BadUtf8 [0xFF]))), \<lparr>inner = [], buf = [0xFF, 0x61, 0x62, 0x63], pos = 0\<rparr>)"
  using bad_bytes_block_the_reader [of "\<lparr>inner = [], buf = [0xFF, 0x61, 0x62, 0x63], pos = 0\<rparr>" 0 3]
  by (simp add: reader_eval)

text \<open>
  A character in front of a truncated sequence at the end of the input is never returned: the
  input a, 0xC3 gives only errors, which blame the letter too.
\<close>
theorem truncated_sequence_hides_char:
  "fst (cr_read_chars 2 (CharReader_new [Bytes [0x61, 0xC3]])) =
     [Some (Inl (BadUtf8 [0x61, 0xC3])), Some (Inl (BadUtf8 [0x61, 0xC3]))]"
  by (simp add: reader_eval numeral_2_eq_2)

text \<open>
  A failed read clears the buffer and keeps the old position, so that a later \<open>read_exact\<close>
  slices the empty buffer beyond its end and panics, and so does \<open>rem_buf_len\<close>.
\<close>
theorem failed_read_leaves_position:
  "(case cr_read_chars 2 (CharReader_new [Bytes [0x61], Failure OtherKind]) of
      (xs, r) \<Rightarrow> xs = [Some (Inr 0x61), Some (Inl (IoError OtherKind))] \<and>
        cr_read_exact 1 r = None \<and> rem_buf_len r = None)"
  by (simp add: reader_eval numeral_2_eq_2 cr_read_exact_def buffer_def rem_buf_len_def)

end
