(* ===== verification/Float64.thy ===== *)
theory Float64
  imports Complex_Main "HOL-Library.Word" CharClass
begin

text \<open>
  The 64-bit floating-point numbers of Rust (\<open>f64\<close>, IEEE 754 binary64), kept as their bits: the
  operations of the language and of its standard library that the arithmetic of the machine uses.
  Every finite float is a multiple of $2^{-1074}$, so the value of a float is the integer
  \<open>f_units\<close> that counts these units and all operations are computed on integers and rounded to
  nearest, ties to even. NaN payloads are not distinguished: an operation returns \<open>f_nan\<close>.
\<close>

unbundle bit_operations_syntax

section \<open>The parts of a float\<close>

definition f_exp :: "f64 \<Rightarrow> nat" where
  "f_exp x = unat (take_bit 11 (drop_bit 52 x))"

definition f_man :: "f64 \<Rightarrow> nat" where
  "f_man x = unat (take_bit 52 x)"

definition is_sign_negative :: "f64 \<Rightarrow> bool" where
  "is_sign_negative x \<longleftrightarrow> bit x 63"

definition is_nan :: "f64 \<Rightarrow> bool" where
  "is_nan x \<longleftrightarrow> f_exp x = 2047 \<and> f_man x \<noteq> 0"

definition is_finite :: "f64 \<Rightarrow> bool" where
  "is_finite x \<longleftrightarrow> f_exp x \<noteq> 2047"

definition f_magnitude :: "f64 \<Rightarrow> nat" where
  "f_magnitude x = (if f_exp x = 0 then f_man x else (2 ^ 52 + f_man x) * 2 ^ (f_exp x - 1))"

text \<open>The value in units of $2^{-1074}$; an infinity comes out beyond every finite float.\<close>

definition f_units :: "f64 \<Rightarrow> int" where
  "f_units x = (if is_sign_negative x then - int (f_magnitude x) else int (f_magnitude x))"

datatype FpCategory = Nan | Infinite | Zero | Subnormal | Normal

definition classify :: "f64 \<Rightarrow> FpCategory" where
  "classify x =
     (if f_exp x = 2047 then (if f_man x = 0 then Infinite else Nan)
      else if f_exp x = 0 then (if f_man x = 0 then Zero else Subnormal) else Normal)"

definition f_nan :: f64 where "f_nan = 0x7FF8000000000000"
definition f_inf :: "bool \<Rightarrow> f64" where
  "f_inf neg = (if neg then 0xFFF0000000000000 else 0x7FF0000000000000)"
definition f_zero :: "bool \<Rightarrow> f64" where
  "f_zero neg = (if neg then 0x8000000000000000 else 0)"
definition f64_MAX :: f64 where "f64_MAX = 0x7FEFFFFFFFFFFFFF"
definition f64_EPSILON :: f64 where "f64_EPSILON = 0x3CB0000000000000"
definition f64_PI :: f64 where "f64_PI = 0x400921FB54442D18"
definition f64_E :: f64 where "f64_E = 0x4005BF0A8B145769"

section \<open>Rounding\<close>

fun bit_length :: "nat \<Rightarrow> nat" where
  "bit_length n = (if n = 0 then 0 else Suc (bit_length (n div 2)))"

declare bit_length.simps [simp del]

text \<open>
  The float nearest to \<open>n / d\<close> units. With \<open>s\<close> bits to drop and \<open>m\<close> the rounded
  quotient, the exponent and mantissa fields together are \<open>s * 2 ^ 52 + m\<close>, also when rounding
  carries and when the result is subnormal.
\<close>

definition f_round_units :: "nat \<Rightarrow> nat \<Rightarrow> nat" where
  "f_round_units n d =
     (let s = bit_length (n div d) - 53;
          m = n div (d * 2 ^ s);
          r = n mod (d * 2 ^ s);
          m' = (if 2 * r > d * 2 ^ s \<or> 2 * r = d * 2 ^ s \<and> odd m then m + 1 else m)
      in min (s * 2 ^ 52 + m') (2047 * 2 ^ 52))"

definition f_round :: "bool \<Rightarrow> nat \<Rightarrow> nat \<Rightarrow> f64" where
  "f_round neg n d = of_nat (f_round_units n d + (if neg then 2 ^ 63 else 0))"

definition one_units :: int where "one_units = 2 ^ 1074"

text \<open>\<open>n as f64\<close> for an integer.\<close>

definition f_of_int :: "int \<Rightarrow> f64" where
  "f_of_int i = f_round (i < 0) (nat (\<bar>i\<bar> * one_units)) 1"

section \<open>Operations\<close>

definition f_neg :: "f64 \<Rightarrow> f64" where
  "f_neg x = x XOR 0x8000000000000000"

definition f_abs :: "f64 \<Rightarrow> f64" where
  "f_abs x = x AND 0x7FFFFFFFFFFFFFFF"

definition f_add :: "f64 \<Rightarrow> f64 \<Rightarrow> f64" where
  "f_add x y =
     (if is_nan x \<or> is_nan y then f_nan
      else if \<not> is_finite x then
        (if \<not> is_finite y \<and> is_sign_negative x \<noteq> is_sign_negative y then f_nan else x)
      else if \<not> is_finite y then y
      else
        let u = f_units x + f_units y
        in if u = 0 then f_zero (is_sign_negative x \<and> is_sign_negative y)
           else f_round (u < 0) (nat \<bar>u\<bar>) 1)"

definition f_mul :: "f64 \<Rightarrow> f64 \<Rightarrow> f64" where
  "f_mul x y =
     (let neg = (is_sign_negative x \<noteq> is_sign_negative y)
      in if is_nan x \<or> is_nan y then f_nan
         else if \<not> is_finite x \<or> \<not> is_finite y then
           (if f_magnitude x = 0 \<or> f_magnitude y = 0 then f_nan else f_inf neg)
         else f_round neg (f_magnitude x * f_magnitude y) (2 ^ 1074))"

definition f_div :: "f64 \<Rightarrow> f64 \<Rightarrow> f64" where
  "f_div x y =
     (let neg = (is_sign_negative x \<noteq> is_sign_negative y)
      in if is_nan x \<or> is_nan y then f_nan
         else if \<not> is_finite x then (if is_finite y then f_inf neg else f_nan)
         else if \<not> is_finite y then f_zero neg
         else if f_magnitude y = 0 then (if f_magnitude x = 0 then f_nan else f_inf neg)
         else f_round neg (f_magnitude x * 2 ^ 1074) (f_magnitude y))"

text \<open>\<open>floor\<close>, \<open>trunc\<close> and \<open>round\<close> (half away from zero) return floats.\<close>

definition f_integral :: "bool \<Rightarrow> int \<Rightarrow> f64" where
  "f_integral neg i = (if i = 0 then f_zero neg else f_of_int i)"

definition f_floor :: "f64 \<Rightarrow> f64" where
  "f_floor x = (if is_finite x then f_integral (is_sign_negative x) (f_units x div one_units) else x)"

definition f_trunc_int :: "f64 \<Rightarrow> int" where
  "f_trunc_int x =
     (if is_sign_negative x then - (int (f_magnitude x) div one_units) else int (f_magnitude x) div one_units)"

definition f_trunc :: "f64 \<Rightarrow> f64" where
  "f_trunc x = (if is_finite x then f_integral (is_sign_negative x) (f_trunc_int x) else x)"

definition f_fract :: "f64 \<Rightarrow> f64" where
  "f_fract x = f_add x (f_neg (f_trunc x))"

definition f_round_half :: "f64 \<Rightarrow> f64" where
  "f_round_half x =
     (if is_finite x then
        let m = (2 * int (f_magnitude x) + one_units) div (2 * one_units)
        in f_integral (is_sign_negative x) (if is_sign_negative x then - m else m)
      else x)"

definition f_signum :: "f64 \<Rightarrow> f64" where
  "f_signum x = (if is_nan x then f_nan else f_of_int (if is_sign_negative x then - 1 else 1))"

text \<open>\<open>x as i64\<close> saturates, and takes NaN to 0.\<close>

definition f_as_i64 :: "f64 \<Rightarrow> int" where
  "f_as_i64 x =
     (if is_nan x then 0
      else if \<not> is_finite x then (if is_sign_negative x then - (2 ^ 63) else 2 ^ 63 - 1)
      else max (- (2 ^ 63)) (min (2 ^ 63 - 1) (f_trunc_int x)))"

text \<open>The equality \<open>==\<close> of the language; both zeros are equal and NaN is not equal to itself.\<close>

definition f_eq :: "f64 \<Rightarrow> f64 \<Rightarrow> bool" where
  "f_eq x y \<longleftrightarrow> \<not> is_nan x \<and> \<not> is_nan y \<and> f_units x = f_units y"

section \<open>Exact results\<close>

lemma bit_length_bounds: "0 < n \<Longrightarrow> 2 ^ (bit_length n - 1) \<le> n \<and> n < 2 ^ bit_length n \<and> 0 < bit_length n"
proof (induction n rule: bit_length.induct)
  case (1 n)
  show ?case
  proof (cases "n div 2 = 0")
    case True
    with 1(2) have "n = 1" by simp
    then show ?thesis by (simp add: bit_length.simps)
  next
    case False
    with 1 have ih: "2 ^ (bit_length (n div 2) - 1) \<le> n div 2" "n div 2 < 2 ^ bit_length (n div 2)"
      "0 < bit_length (n div 2)" by auto
    have bl: "bit_length n = Suc (bit_length (n div 2))" using 1(2) by (simp add: bit_length.simps [of n])
    obtain b where b: "bit_length (n div 2) = Suc b" using ih(3) by (cases "bit_length (n div 2)") auto
    from ih(1) b have "2 ^ Suc b \<le> n" by simp
    moreover from ih(2) b have "n < 2 ^ Suc (Suc b)" by simp
    ultimately show ?thesis by (simp add: bl b)
  qed
qed

lemma bit_length_le: "n < 2 ^ k \<Longrightarrow> bit_length n \<le> k"
proof (cases "n = 0")
  case False
  assume "n < 2 ^ k"
  with False bit_length_bounds [of n] have "(2::nat) ^ (bit_length n - 1) < 2 ^ k" by linarith
  with False bit_length_bounds [of n] show ?thesis by simp
qed (simp add: bit_length.simps)

definition field_magnitude :: "nat \<Rightarrow> nat" where
  "field_magnitude w = (if w div 2 ^ 52 = 0 then w mod 2 ^ 52 else (2 ^ 52 + w mod 2 ^ 52) * 2 ^ (w div 2 ^ 52 - 1))"

lemma float_fields:
  fixes neg :: bool
  assumes "w < 2 ^ 63"
  defines "x \<equiv> of_nat (w + (if neg then 2 ^ 63 else 0)) :: f64"
  shows "f_exp x = w div 2 ^ 52" "f_man x = w mod 2 ^ 52" "is_sign_negative x = neg"
    "f_magnitude x = field_magnitude w"
proof -
  have u: "unat x = w + (if neg then 2 ^ 63 else 0)"
    unfolding x_def unat_of_nat using assms(1) by (intro mod_less) auto
  have "unat x div 2 ^ 52 mod 2 ^ 11 = w div 2 ^ 52"
  proof -
    have "unat x div 2 ^ 52 = w div 2 ^ 52 + (if neg then 2 ^ 11 else 0)"
      using div_mult_self1 [of "2 ^ 52" w "2 ^ 11"] by (simp add: u)
    moreover have "w div 2 ^ 52 < 2 ^ 11" using assms(1) by (simp add: div_less_iff_less_mult)
    ultimately show ?thesis by simp
  qed
  then show e: "f_exp x = w div 2 ^ 52"
    unfolding f_exp_def by (simp add: take_bit_eq_mod drop_bit_eq_div unat_mod unat_div)
  show m: "f_man x = w mod 2 ^ 52"
    unfolding f_man_def using mod_mult_self1 [of w "2 ^ 11" "2 ^ 52"]
    by (auto simp: u take_bit_eq_mod unat_mod)
  have "bit x 63 = bit (unat x) 63" by (simp add: bit_unsigned_iff)
  then show "is_sign_negative x = neg"
    using assms(1) unfolding is_sign_negative_def by (auto simp: u bit_iff_odd)
  show "f_magnitude x = field_magnitude w"
    by (simp add: f_magnitude_def field_magnitude_def e m)
qed

text \<open>Magnitudes that are the magnitude of a finite float.\<close>

definition representable :: "nat \<Rightarrow> bool" where
  "representable n \<longleftrightarrow> (\<exists>k j. n = k * 2 ^ j \<and> k < 2 ^ 53 \<and> j \<le> 2045)"

lemma f_exp_le: "f_exp x \<le> 2047"
  using take_bit_nat_less_exp [of 11 "unat (drop_bit 52 x)"]
  by (simp add: f_exp_def unsigned_take_bit_eq del: take_bit_nat_less_exp)

lemma f_man_less: "f_man x < 2 ^ 52"
  using take_bit_nat_less_exp [of 52 "unat x"]
  by (simp add: f_man_def unsigned_take_bit_eq del: take_bit_nat_less_exp)

lemma representable_magnitude: "is_finite x \<Longrightarrow> representable (f_magnitude x)"
proof (cases "f_exp x = 0")
  case True
  with f_man_less [of x] show ?thesis
    unfolding representable_def by (intro exI [of _ "f_man x"] exI [of _ 0]) (simp add: f_magnitude_def)
next
  case False
  assume "is_finite x"
  with f_exp_le [of x] have "f_exp x - 1 \<le> 2045" by (simp add: is_finite_def)
  with False f_man_less [of x] show ?thesis
    unfolding representable_def
    by (intro exI [of _ "2 ^ 52 + f_man x"] exI [of _ "f_exp x - 1"]) (simp add: f_magnitude_def)
qed

lemma f_round_units_exact:
  assumes "representable n"
  shows "f_round_units n 1 < 2047 * 2 ^ 52 \<and> field_magnitude (f_round_units n 1) = n"
proof -
  from assms obtain k j where n: "n = k * 2 ^ j" "k < 2 ^ 53" "j \<le> 2045" by (auto simp: representable_def)
  define s where "s = bit_length n - 53"
  define m where "m = n div 2 ^ s"
  have "n < 2 ^ 53 * 2 ^ j" using n by simp
  then have "bit_length n \<le> 53 + j" by (intro bit_length_le) (simp add: power_add)
  then have sj: "s \<le> j" "s \<le> 2045" using n(3) by (simp_all add: s_def)
  then have "2 ^ s dvd n" using n(1) by (simp add: le_imp_power_dvd dvd_mult)
  then have nm: "n = m * 2 ^ s" and r: "n mod 2 ^ s = 0" by (simp_all add: m_def)
  have m53: "m < 2 ^ 53"
  proof (cases "n = 0")
    case False
    with bit_length_bounds [of n] have "n < 2 ^ bit_length n" by simp
    also have "(2::nat) ^ bit_length n \<le> 2 ^ (53 + s)" by (simp add: s_def)
    finally show ?thesis by (simp add: m_def power_add less_mult_imp_div_less)
  qed (simp add: m_def)
  have m52: "2 ^ 52 \<le> m" if "0 < s"
  proof -
    have "0 < n" using that by (auto simp: s_def bit_length.simps [of n] split: if_splits)
    then have "2 ^ (bit_length n - 1) \<le> n" using bit_length_bounds by simp
    moreover have "bit_length n - 1 = 52 + s" using that by (simp add: s_def)
    ultimately have "2 ^ 52 * 2 ^ s \<le> m * 2 ^ s" using nm by (simp add: power_add)
    then show ?thesis by simp
  qed
  have small: "s * 2 ^ 52 + m < 2047 * 2 ^ 52" using sj(2) m53 by simp
  have w: "f_round_units n 1 = s * 2 ^ 52 + m"
    using small r by (simp add: f_round_units_def s_def [symmetric] m_def [symmetric] Let_def)
  have "field_magnitude (s * 2 ^ 52 + m) = m * 2 ^ s"
  proof (cases "m < 2 ^ 52")
    case True
    then have "s = 0" using m52 by fastforce
    with True show ?thesis by (simp add: field_magnitude_def)
  next
    case False
    then obtain m' where m': "m = 2 ^ 52 + m'" by (metis le_Suc_ex not_less)
    with m53 have "m' < 2 ^ 52" by simp
    then have "(s * 2 ^ 52 + m) div 2 ^ 52 = Suc s" "(s * 2 ^ 52 + m) mod 2 ^ 52 = m'"
      unfolding m' by simp_all
    then show ?thesis by (simp add: field_magnitude_def m')
  qed
  with w small nm show ?thesis by simp
qed

lemma f_round_exact:
  assumes "representable n"
  shows "is_finite (f_round neg n 1)" "f_magnitude (f_round neg n 1) = n"
    "is_sign_negative (f_round neg n 1) = neg"
proof -
  from f_round_units_exact [OF assms] have lt: "f_round_units n 1 < 2047 * 2 ^ 52" by simp
  then have "f_round_units n 1 < 2 ^ 63" by simp
  from float_fields [OF this, of neg] f_round_units_exact [OF assms] lt
  show "is_finite (f_round neg n 1)" "f_magnitude (f_round neg n 1) = n"
    "is_sign_negative (f_round neg n 1) = neg"
    by (auto simp: f_round_def is_finite_def div_less_iff_less_mult intro!: less_imp_neq)
qed

text \<open>Integral floats.\<close>

lemma representable_shift: "n \<le> 2 ^ 53 \<Longrightarrow> representable (n * 2 ^ 1074)"
proof (cases "n = 2 ^ 53")
  case True
  then have "n * 2 ^ 1074 = 1 * 2 ^ 1127" by simp
  then show ?thesis unfolding representable_def by (intro exI [of _ 1] exI [of _ 1127]) simp
next
  case False
  assume "n \<le> 2 ^ 53"
  with False show ?thesis unfolding representable_def by (intro exI [of _ n] exI [of _ 1074]) simp
qed

lemma f_units_of_int:
  assumes "representable (nat (\<bar>i\<bar> * one_units))"
  shows "is_finite (f_of_int i)" "f_units (f_of_int i) = i * one_units"
proof -
  have "0 \<le> \<bar>i\<bar> * one_units" by (simp add: one_units_def)
  with f_round_exact [OF assms, of "i < 0"]
  show "is_finite (f_of_int i)" "f_units (f_of_int i) = i * one_units"
    by (auto simp: f_of_int_def f_units_def)
qed

lemma f_zero_fields [simp]:
  "is_finite (f_zero neg)" "f_units (f_zero neg) = 0"
  by (simp_all add: f_zero_def is_finite_def f_units_def f_exp_def f_man_def f_magnitude_def)

lemma f_units_integral:
  assumes "representable (nat (\<bar>i\<bar> * one_units))"
  shows "is_finite (f_integral neg i)" "f_units (f_integral neg i) = i * one_units"
  using f_units_of_int [OF assms] by (simp_all add: f_integral_def)

text \<open>A float is either below $2^{53}$ or integral, so its integral part is a float.\<close>

lemma magnitude_cases:
  assumes "is_finite x"
  shows "f_magnitude x < 2 ^ 53 * 2 ^ 1074 \<or> (\<exists>k. f_magnitude x = k * 2 ^ 1074)"
proof (cases "f_exp x \<le> 1075")
  case True
  have "f_magnitude x < 2 ^ 53 * 2 ^ (f_exp x - 1)" using f_man_less [of x] by (simp add: f_magnitude_def)
  also have "\<dots> \<le> 2 ^ 53 * 2 ^ 1074" using True by (intro mult_left_mono power_increasing) auto
  finally show ?thesis by blast
next
  case False
  define e where "e = f_exp x - 1075"
  with False have "f_exp x = Suc (1074 + e)" by simp
  then have "f_magnitude x = (2 ^ 52 + f_man x) * 2 ^ e * 2 ^ 1074"
    unfolding f_magnitude_def by (simp add: power_add del: power_numeral)
  then show ?thesis by blast
qed

lemma nat_abs_one_units: "nat (\<bar>i\<bar> * one_units) = nat \<bar>i\<bar> * 2 ^ 1074"
  unfolding one_units_def by (simp add: nat_mult_distrib nat_power_eq del: power_numeral)

lemma one_units_pos: "0 < one_units"
  by (simp add: one_units_def)

lemma div_less_of_less_mult:
  fixes a b c :: int
  assumes "0 < b" and "a < c * b"
  shows "a div b < c"
proof -
  have "a div b * b + a mod b = a" by (rule div_mult_mod_eq)
  moreover have "0 \<le> a mod b" using assms(1) by simp
  ultimately have "a div b * b \<le> a" by linarith
  with assms(2) have "a div b * b < c * b" by linarith
  with assms(1) show ?thesis by simp
qed

lemma representable_integral_part:
  assumes "is_finite x" and "\<bar>i\<bar> \<le> int (f_magnitude x) div one_units + 1"
    and "one_units dvd int (f_magnitude x) \<Longrightarrow> \<bar>i\<bar> * one_units = int (f_magnitude x)"
  shows "representable (nat (\<bar>i\<bar> * one_units))"
proof (cases "one_units dvd int (f_magnitude x)")
  case True
  with assms(3) have "nat (\<bar>i\<bar> * one_units) = f_magnitude x" by simp
  with representable_magnitude [OF assms(1)] show ?thesis by simp
next
  case False
  have "\<not> (\<exists>k. f_magnitude x = k * 2 ^ 1074)"
  proof
    assume "\<exists>k. f_magnitude x = k * 2 ^ 1074"
    then obtain k where "f_magnitude x = k * 2 ^ 1074" by blast
    then have "int (f_magnitude x) = int k * one_units"
      unfolding one_units_def by (metis of_nat_mult of_nat_numeral of_nat_power)
    with False show False by simp
  qed
  with magnitude_cases [OF assms(1)] have "f_magnitude x < 2 ^ 53 * 2 ^ 1074" by blast
  then have "int (f_magnitude x) < int (2 ^ 53 * 2 ^ 1074)" by (simp only: of_nat_less_iff)
  also have "int (2 ^ 53 * 2 ^ 1074) = 2 ^ 53 * one_units" unfolding one_units_def by simp
  finally have "int (f_magnitude x) div one_units < 2 ^ 53"
    using one_units_pos by (rule_tac div_less_of_less_mult)
  with assms(2) have "nat \<bar>i\<bar> \<le> 2 ^ 53" by simp
  then show ?thesis unfolding nat_abs_one_units by (rule representable_shift)
qed

lemma f_floor_value:
  assumes "is_finite x"
  shows "is_finite (f_floor x)" "f_units (f_floor x) = f_units x div one_units * one_units"
proof -
  let ?i = "f_units x div one_units" and ?m = "int (f_magnitude x)"
  have "\<bar>?i\<bar> \<le> ?m div one_units + 1 \<and> (one_units dvd ?m \<longrightarrow> \<bar>?i\<bar> * one_units = ?m)"
  proof (cases "is_sign_negative x")
    case True
    have nonneg: "0 \<le> ?m div one_units" using one_units_pos by (simp add: pos_imp_zdiv_nonneg_iff)
    have "?i = (if one_units dvd ?m then - (?m div one_units) else - (?m div one_units) - 1)"
      using one_units_pos by (simp add: f_units_def True zdiv_zminus1_eq_if dvd_eq_mod_eq_0)
    with nonneg show ?thesis by auto
  next
    case False
    then show ?thesis using one_units_pos by (auto simp: f_units_def pos_imp_zdiv_nonneg_iff)
  qed
  then have "representable (nat (\<bar>?i\<bar> * one_units))" using representable_integral_part [OF assms] by blast
  from f_units_integral [OF this] assms
  show "is_finite (f_floor x)" "f_units (f_floor x) = ?i * one_units" by (simp_all add: f_floor_def)
qed

lemma f_trunc_int_floor: "0 \<le> f_units x \<Longrightarrow> f_trunc_int x = f_units x div one_units"
  by (auto simp: f_units_def f_trunc_int_def split: if_splits)

end
