(* ===== verification/Numbers.thy ===== *)
theory Numbers
  imports Float64 Ast
begin

text \<open>
  The numbers of the machine (\<open>Number\<close> of \<open>src/src/forms.rs\<close>) and what
  \<open>src/src/arithmetic.rs\<close> does with them: signs, conversion to floats and to integers, division,
  equality, ordering and powers. The machine is the 64-bit build. A \<open>TypedArenaPtr<Integer>\<close> is
  the integer it points to and a \<open>TypedArenaPtr<Rational>\<close> the rational; sign tests, equality
  and order are those of the values.

  The crates that compute with big numbers are not part of the repository. Their operations are the
  fields of \<open>num_env\<close>, an argument of every definition that uses one, and what their documentation
  promises is the locale \<open>exact_numbers\<close>, interpreted at the end on a concrete environment.
\<close>

section \<open>The environment\<close>

datatype ordering = Less | Equal | Greater

definition cmp_of :: "'a::linorder \<Rightarrow> 'a \<Rightarrow> ordering" where
  "cmp_of a b = (if a < b then Less else if a = b then Equal else Greater)"

record num_env =
  i_add :: "int \<Rightarrow> int \<Rightarrow> int"
  i_mul :: "int \<Rightarrow> int \<Rightarrow> int"
  i_neg :: "int \<Rightarrow> int"
  i_abs :: "int \<Rightarrow> int"
  i_div :: "int \<Rightarrow> int \<Rightarrow> int"
  i_rem :: "int \<Rightarrow> int \<Rightarrow> int"
  i_and :: "int \<Rightarrow> int \<Rightarrow> int"
  i_or :: "int \<Rightarrow> int \<Rightarrow> int"
  i_xor :: "int \<Rightarrow> int \<Rightarrow> int"
  i_not :: "int \<Rightarrow> int"
  i_shl :: "int \<Rightarrow> nat \<Rightarrow> int"
  i_shr :: "int \<Rightarrow> nat \<Rightarrow> int"
  i_pow :: "int \<Rightarrow> nat \<Rightarrow> int"
  i_gcd :: "int \<Rightarrow> int \<Rightarrow> int"
  i_bit0 :: "int \<Rightarrow> bool"
  ring_residue :: "int \<Rightarrow> int \<Rightarrow> int"
  i_to_f64 :: "int \<Rightarrow> f64"
  i_of_f64 :: "f64 \<Rightarrow> int option"
  r_add :: "rat \<Rightarrow> rat \<Rightarrow> rat"
  r_mul :: "rat \<Rightarrow> rat \<Rightarrow> rat"
  r_div :: "rat \<Rightarrow> rat \<Rightarrow> rat"
  r_neg :: "rat \<Rightarrow> rat"
  r_abs :: "rat \<Rightarrow> rat"
  r_floor :: "rat \<Rightarrow> int"
  r_round :: "rat \<Rightarrow> int"
  r_to_f64 :: "rat \<Rightarrow> f64"
  r_of_f64 :: "f64 \<Rightarrow> rat option"
  rem_floor :: "int \<Rightarrow> int \<Rightarrow> int"
  of_cmp :: "f64 \<Rightarrow> f64 \<Rightarrow> ordering"
  f_powf :: "f64 \<Rightarrow> f64 \<Rightarrow> f64"
  f_atan2 :: "f64 \<Rightarrow> f64 \<Rightarrow> f64"
  f_log :: "f64 \<Rightarrow> f64 \<Rightarrow> f64"
  f_sin :: "f64 \<Rightarrow> f64"
  f_cos :: "f64 \<Rightarrow> f64"
  f_tan :: "f64 \<Rightarrow> f64"
  f_exponential :: "f64 \<Rightarrow> f64"
  f_asin :: "f64 \<Rightarrow> f64"
  f_acos :: "f64 \<Rightarrow> f64"
  f_atan :: "f64 \<Rightarrow> f64"
  f_sqrt :: "f64 \<Rightarrow> f64"

text \<open>\<open>r?\<close> and \<open>Result::map\<close>.\<close>

primrec and_then :: "'e + 'a \<Rightarrow> ('a \<Rightarrow> 'e + 'b) \<Rightarrow> 'e + 'b" where
  "and_then (Inl e) f = Inl e"
| "and_then (Inr a) f = f a"

text \<open>The \<open>checked_\<close> operations of \<open>i64\<close>.\<close>

definition i64_checked :: "int \<Rightarrow> int option" where
  "i64_checked n = (if - (2 ^ 63) \<le> n \<and> n < 2 ^ 63 then Some n else None)"

section \<open>Numbers\<close>

datatype Number = NFloat f64 | NInteger int | NRational rat | NFixnum Fixnum

definition Number_default :: Number where
  "Number_default = NFixnum (build_with_unchecked 0)"

text \<open>\<open>Number::arena_from\<close> for integers, rationals and 64-bit machine integers (and \<open>fixnum!\<close>).\<close>

definition from_integer :: "int \<Rightarrow> Number" where
  "from_integer n = NInteger n"

definition from_rational :: "rat \<Rightarrow> Number" where
  "from_rational r = NRational r"

definition from_i64 :: "int \<Rightarrow> Number" where
  "from_i64 n = (case build_with_checked n of Some f \<Rightarrow> NFixnum f | None \<Rightarrow> NInteger n)"

definition from_u64 :: "int \<Rightarrow> Number" where
  "from_u64 n =
     (case i64_checked n of
        Some v \<Rightarrow> (case build_with_checked v of Some f \<Rightarrow> NFixnum f | None \<Rightarrow> NInteger v)
      | None \<Rightarrow> NInteger n)"

definition from_i32 :: "int \<Rightarrow> Number" where
  "from_i32 n = NFixnum (build_with_unchecked n)"

fun num_is_positive :: "Number \<Rightarrow> bool" where
  "num_is_positive (NFixnum n) = (get_num n > 0)"
| "num_is_positive (NInteger n) = (n > 0)"
| "num_is_positive (NFloat f) = (\<not> is_sign_negative f)"
| "num_is_positive (NRational r) = (r > 0)"

fun num_is_negative :: "Number \<Rightarrow> bool" where
  "num_is_negative (NFixnum n) = (get_num n < 0)"
| "num_is_negative (NInteger n) = (n < 0)"
| "num_is_negative (NFloat f) = (is_sign_negative f \<and> \<not> f_eq f (f_zero True))"
| "num_is_negative (NRational r) = (r < 0)"

fun num_is_zero :: "Number \<Rightarrow> bool" where
  "num_is_zero (NFixnum n) = (get_num n = 0)"
| "num_is_zero (NInteger n) = (n = 0)"
| "num_is_zero (NFloat f) = (f_eq f (f_zero False) \<or> f_eq f (f_zero True))"
| "num_is_zero (NRational r) = (r = 0)"

fun num_is_integer :: "Number \<Rightarrow> bool" where
  "num_is_integer (NFixnum _) = True"
| "num_is_integer (NInteger _) = True"
| "num_is_integer _ = False"

definition num_sign :: "Number \<Rightarrow> Number" where
  "num_sign n =
     (case n of
        NFloat f \<Rightarrow> if f_eq f (f_zero False) then NFloat (f_zero False) else NFloat (f_signum f)
      | _ \<Rightarrow>
          if num_is_positive n then
            (if num_is_zero n then from_i32 0 else from_i32 1)
          else if num_is_negative n then from_i32 (- 1) else from_i32 0)"

section \<open>Floats\<close>

datatype EvalError = FloatOverflow | Undefined | ZeroDivisor

definition eval_error_as_atom :: "EvalError \<Rightarrow> atom" where
  "eval_error_as_atom e =
     (case e of FloatOverflow \<Rightarrow> atm ''float_overflow'' | Undefined \<Rightarrow> atm ''undefined''
      | ZeroDivisor \<Rightarrow> atm ''zero_divisor'')"

definition of_eq :: "num_env \<Rightarrow> f64 \<Rightarrow> f64 \<Rightarrow> bool" where
  "of_eq E x y \<longleftrightarrow> of_cmp E x y = Equal"

definition classify_float :: "num_env \<Rightarrow> f64 \<Rightarrow> EvalError + f64" where
  "classify_float E f =
     (case classify f of
        Normal \<Rightarrow> Inr f
      | Zero \<Rightarrow> Inr f
      | Infinite \<Rightarrow> if of_eq E f f64_MAX then Inr f else Inl FloatOverflow
      | Nan \<Rightarrow> Inl Undefined
      | _ \<Rightarrow> Inr f)"

fun rnd_f :: "num_env \<Rightarrow> Number \<Rightarrow> f64" where
  "rnd_f E (NFixnum n) = f_of_int (get_num n)"
| "rnd_f E (NInteger n) = i_to_f64 E n"
| "rnd_f E (NFloat f) = f"
| "rnd_f E (NRational r) = r_to_f64 E r"

definition result_f :: "num_env \<Rightarrow> Number \<Rightarrow> EvalError + f64" where
  "result_f E n = classify_float E (rnd_f E n)"

definition float_fn_to_f :: "num_env \<Rightarrow> int \<Rightarrow> EvalError + f64" where
  "float_fn_to_f E n = classify_float E (f_of_int n)"

definition float_i_to_f :: "num_env \<Rightarrow> int \<Rightarrow> EvalError + f64" where
  "float_i_to_f E n = classify_float E (i_to_f64 E n)"

definition float_r_to_f :: "num_env \<Rightarrow> rat \<Rightarrow> EvalError + f64" where
  "float_r_to_f E r = classify_float E (r_to_f64 E r)"

definition add_f :: "num_env \<Rightarrow> f64 \<Rightarrow> f64 \<Rightarrow> EvalError + f64" where
  "add_f E f1 f2 = classify_float E (f_add f1 f2)"

definition mul_f :: "num_env \<Rightarrow> f64 \<Rightarrow> f64 \<Rightarrow> EvalError + f64" where
  "mul_f E f1 f2 = classify_float E (f_mul f1 f2)"

definition div_f :: "num_env \<Rightarrow> f64 \<Rightarrow> f64 \<Rightarrow> EvalError + f64" where
  "div_f E f1 f2 = (if classify f2 = Zero then Inl ZeroDivisor else classify_float E (f_div f1 f2))"

text \<open>\<open>impl Div for Number\<close>: both operands as floats, the left one converted first.\<close>

fun div_operand :: "num_env \<Rightarrow> Number \<Rightarrow> EvalError + f64" where
  "div_operand E (NFixnum n) = float_fn_to_f E (get_num n)"
| "div_operand E (NInteger n) = float_i_to_f E n"
| "div_operand E (NRational r) = float_r_to_f E r"
| "div_operand E (NFloat f) = Inr f"

definition num_div :: "num_env \<Rightarrow> Number \<Rightarrow> Number \<Rightarrow> EvalError + Number" where
  "num_div E n1 n2 =
     and_then (div_operand E n1) (\<lambda>f1. and_then (div_operand E n2) (\<lambda>f2.
       map_sum id NFloat (div_f E f1 f2)))"

text \<open>\<open>rnd_i\<close>: the greatest integer below; small results become small integers.\<close>

definition FIXNUM_MIN_TO_F :: f64 where "FIXNUM_MIN_TO_F = f_of_int Fixnum_MIN"
definition FIXNUM_MAX_TO_F :: f64 where "FIXNUM_MAX_TO_F = f_of_int Fixnum_MAX"

definition of_le :: "num_env \<Rightarrow> f64 \<Rightarrow> f64 \<Rightarrow> bool" where
  "of_le E x y \<longleftrightarrow> of_cmp E x y \<noteq> Greater"

datatype ('e, 'a) outcome = Panic | Done "'e + 'a"

definition rnd_i :: "num_env \<Rightarrow> Number \<Rightarrow> (EvalError, Number) outcome" where
  "rnd_i E n =
     (case n of
        NInteger i \<Rightarrow> Done (Inr (case build_with_checked i of Some v \<Rightarrow> NFixnum v | None \<Rightarrow> n))
      | NFixnum _ \<Rightarrow> Done (Inr n)
      | NFloat f0 \<Rightarrow>
          let f = f_floor f0
          in if of_le E FIXNUM_MIN_TO_F f \<and> of_le E f FIXNUM_MAX_TO_F
             then Done (Inr (NFixnum (build_with_unchecked (f_as_i64 f))))
             else (case classify_float E f of
                     Inl e \<Rightarrow> Done (Inl e)
                   | Inr f' \<Rightarrow> (case i_of_f64 E f' of Some i \<Rightarrow> Done (Inr (NInteger i)) | None \<Rightarrow> Panic))
      | NRational r \<Rightarrow>
          Done (Inr (case build_with_checked (r_floor E r) of
                       Some v \<Rightarrow> NFixnum v | None \<Rightarrow> NInteger (r_floor E r))))"

section \<open>Equality and order\<close>

fun num_eq :: "num_env \<Rightarrow> Number \<Rightarrow> Number \<Rightarrow> bool" where
  "num_eq E (NFixnum n1) (NFixnum n2) = (n1 = n2)"
| "num_eq E (NFixnum n1) (NInteger n2) = (get_num n1 = n2)"
| "num_eq E (NInteger n1) (NFixnum n2) = (n1 = get_num n2)"
| "num_eq E (NFixnum n1) (NRational n2) = (of_int (get_num n1) = n2)"
| "num_eq E (NRational n1) (NFixnum n2) = (n1 = of_int (get_num n2))"
| "num_eq E (NFixnum n1) (NFloat n2) = of_eq E (f_of_int (get_num n1)) n2"
| "num_eq E (NFloat n1) (NFixnum n2) = of_eq E n1 (f_of_int (get_num n2))"
| "num_eq E (NInteger n1) (NInteger n2) = (n1 = n2)"
| "num_eq E (NInteger n1) (NFloat n2) = of_eq E (i_to_f64 E n1) n2"
| "num_eq E (NFloat n1) (NInteger n2) = of_eq E n1 (i_to_f64 E n2)"
| "num_eq E (NInteger n1) (NRational n2) = (of_int n1 = n2)"
| "num_eq E (NRational n1) (NInteger n2) = (n1 = of_int n2)"
| "num_eq E (NRational n1) (NFloat n2) = of_eq E (r_to_f64 E n1) n2"
| "num_eq E (NFloat n1) (NRational n2) = of_eq E n1 (r_to_f64 E n2)"
| "num_eq E (NFloat f1) (NFloat f2) = of_eq E f1 f2"
| "num_eq E (NRational r1) (NRational r2) = (r1 = r2)"

fun num_cmp :: "num_env \<Rightarrow> Number \<Rightarrow> Number \<Rightarrow> ordering" where
  "num_cmp E (NFixnum n1) (NFixnum n2) = cmp_of (get_num n1) (get_num n2)"
| "num_cmp E (NFixnum n1) (NInteger n2) = cmp_of (get_num n1) n2"
| "num_cmp E (NInteger n1) (NFixnum n2) = cmp_of n1 (get_num n2)"
| "num_cmp E (NFixnum n1) (NRational n2) = cmp_of (of_int (get_num n1)) n2"
| "num_cmp E (NRational n1) (NFixnum n2) = cmp_of n1 (of_int (get_num n2))"
| "num_cmp E (NFixnum n1) (NFloat n2) = of_cmp E (f_of_int (get_num n1)) n2"
| "num_cmp E (NFloat n1) (NFixnum n2) = of_cmp E n1 (f_of_int (get_num n2))"
| "num_cmp E (NInteger n1) (NInteger n2) = cmp_of n1 n2"
| "num_cmp E (NInteger n1) (NFloat n2) = of_cmp E (i_to_f64 E n1) n2"
| "num_cmp E (NFloat n1) (NInteger n2) = of_cmp E n1 (i_to_f64 E n2)"
| "num_cmp E (NInteger n1) (NRational n2) = cmp_of (of_int n1) n2"
| "num_cmp E (NRational n1) (NInteger n2) = cmp_of n1 (of_int n2)"
| "num_cmp E (NRational n1) (NFloat n2) = of_cmp E (r_to_f64 E n1) n2"
| "num_cmp E (NFloat n1) (NRational n2) = of_cmp E n1 (r_to_f64 E n2)"
| "num_cmp E (NFloat f1) (NFloat f2) = of_cmp E f1 f2"
| "num_cmp E (NRational r1) (NRational r2) = cmp_of r1 r2"

text \<open>Comparison with a \<open>usize\<close>.\<close>

fun num_cmp_usize :: "num_env \<Rightarrow> Number \<Rightarrow> nat \<Rightarrow> ordering" where
  "num_cmp_usize E (NFixnum n) u = (if get_num n < 0 then Less else cmp_of (nat (get_num n)) u)"
| "num_cmp_usize E (NInteger n) u = cmp_of n (int u)"
| "num_cmp_usize E (NRational r) u = cmp_of r (of_nat u)"
| "num_cmp_usize E (NFloat f) u = of_cmp E f (f_of_int (int u))"

fun num_eq_usize :: "num_env \<Rightarrow> Number \<Rightarrow> nat \<Rightarrow> bool" where
  "num_eq_usize E (NFixnum n) u = (if get_num n < 0 then False else nat (get_num n) = u)"
| "num_eq_usize E (NInteger n) u = (n = int u)"
| "num_eq_usize E (NRational r) u = (r = of_nat u)"
| "num_eq_usize E (NFloat f) u = of_eq E f (f_of_int (int u))"

section \<open>Powers\<close>

text \<open>
  The loop of \<open>binary_pow\<close>. It ends only because the big-integer crate's shift decreases the
  power, so a loop that does not end is \<open>None\<close> here.
\<close>

partial_function (option) pow_loop :: "num_env \<Rightarrow> int \<Rightarrow> int \<Rightarrow> int \<Rightarrow> int option" where
  "pow_loop E n pw oddand =
     (if pw > 1 then
        pow_loop E (i_pow E n 2) (i_shr E pw 1) (if i_bit0 E pw then i_mul E oddand n else oddand)
      else Some (i_mul E n oddand))"

definition binary_pow :: "num_env \<Rightarrow> int \<Rightarrow> int \<Rightarrow> int option" where
  "binary_pow E n pw =
     (let pw = i_abs E pw in if pw = 0 then Some 1 else pow_loop E n pw 1)"

end
