(* ===== verification/ArithOps.thy ===== *)
theory ArithOps
  imports Numbers "HOL-Library.Signed_Division"
begin

text \<open>
  The evaluable functors of \<open>src/src/machine/arithmetic_ops.rs\<close>. An error generator
  (\<open>MachineStubGen\<close>) is the error term it builds: the kind of the error, its culprit and the
  predicate indicator of the stub. A panic is \<open>Panic\<close>.
\<close>

section \<open>Errors\<close>

datatype ValidType = VAtom | VAtomic | VByte | VCallable | VCharacter | VCompound | VEvaluable | VFloat
  | VInByte | VInCharacter | VInteger | VList | VNumber | VPair | VTcpListener | VProcess

type_synonym stub = "atom \<times> nat"

datatype arith_error =
    EvaluationError EvalError stub
  | TypeError ValidType Number stub
  | InstantiationError stub

definition functor_stub :: "string \<Rightarrow> nat \<Rightarrow> stub" where
  "functor_stub name arity = (atm name, arity)"

definition try_numeric_result :: "EvalError + 'a \<Rightarrow> stub \<Rightarrow> arith_error + 'a" where
  "try_numeric_result r st = (case r of Inl e \<Rightarrow> Inl (EvaluationError e st) | Inr v \<Rightarrow> Inr v)"

definition zero_divisor_eval_error :: "stub \<Rightarrow> arith_error" where
  "zero_divisor_eval_error st = EvaluationError ZeroDivisor st"

definition undefined_eval_error :: "stub \<Rightarrow> arith_error" where
  "undefined_eval_error st = EvaluationError Undefined st"

definition numerical_type_error :: "ValidType \<Rightarrow> Number \<Rightarrow> stub \<Rightarrow> arith_error" where
  "numerical_type_error t n st = TypeError t n st"

section \<open>Greatest common divisor of machine integers\<close>

partial_function (option) halve_both :: "int \<Rightarrow> int \<Rightarrow> nat \<Rightarrow> (int \<times> int \<times> nat) option" where
  "halve_both n1 n2 shift =
     (if (n1 OR n2) AND 1 = 0 then halve_both (drop_bit 1 n1) (drop_bit 1 n2) (shift + 1)
      else Some (n1, n2, shift))"

partial_function (option) halve :: "int \<Rightarrow> int option" where
  "halve n = (if n AND 1 = 0 then halve (drop_bit 1 n) else Some n)"

partial_function (option) gcd_loop :: "int \<Rightarrow> int \<Rightarrow> int option" where
  "gcd_loop n1 n2 =
     Option.bind (halve n2) (\<lambda>n2.
       let (n1, n2) = (if n1 > n2 then (n2, n1) else (n1, n2)); n2 = n2 - n1
       in if n2 = 0 then Some n1 else gcd_loop n1 n2)"

text \<open>The outer \<open>None\<close> is a loop that does not end, the inner one the result of the function.\<close>

definition isize_gcd :: "int \<Rightarrow> int \<Rightarrow> int option option" where
  "isize_gcd n1 n2 =
     (if n1 = 0 then Some (i64_checked \<bar>n2\<bar>)
      else if n2 = 0 then Some (i64_checked \<bar>n1\<bar>)
      else
        (case i64_checked \<bar>n1\<bar> of
           None \<Rightarrow> Some None
         | Some n1 \<Rightarrow>
             (case i64_checked \<bar>n2\<bar> of
                None \<Rightarrow> Some None
              | Some n2 \<Rightarrow>
                  Option.bind (halve_both n1 n2 0) (\<lambda>(n1, n2, shift).
                  Option.bind (halve n1) (\<lambda>n1.
                  Option.bind (gcd_loop n1 n2) (\<lambda>n1.
                    Some (Some (sint (word_of_int (push_bit shift n1) :: 64 word)))))))))"

section \<open>Sums and products\<close>

fun add :: "num_env \<Rightarrow> Number \<Rightarrow> Number \<Rightarrow> EvalError + Number" where
  "add E (NFixnum n1) (NFixnum n2) =
     Inr (case i64_checked (get_num n1 + get_num n2) of
            Some result \<Rightarrow> from_i64 result
          | None \<Rightarrow> from_integer (i_add E (get_num n1) (get_num n2)))"
| "add E (NFixnum n1) (NInteger n2) = Inr (from_integer (i_add E (get_num n1) n2))"
| "add E (NInteger n2) (NFixnum n1) = Inr (from_integer (i_add E (get_num n1) n2))"
| "add E (NFixnum n1) (NRational n2) = Inr (from_rational (r_add E (of_int (get_num n1)) n2))"
| "add E (NRational n2) (NFixnum n1) = Inr (from_rational (r_add E (of_int (get_num n1)) n2))"
| "add E (NFixnum n1) (NFloat n2) =
     and_then (float_fn_to_f E (get_num n1)) (\<lambda>f1. map_sum id NFloat (add_f E f1 n2))"
| "add E (NFloat n2) (NFixnum n1) =
     and_then (float_fn_to_f E (get_num n1)) (\<lambda>f1. map_sum id NFloat (add_f E f1 n2))"
| "add E (NInteger n1) (NInteger n2) = Inr (from_integer (i_add E n1 n2))"
| "add E (NInteger n1) (NFloat n2) =
     and_then (float_i_to_f E n1) (\<lambda>f1. map_sum id NFloat (add_f E f1 n2))"
| "add E (NFloat n2) (NInteger n1) =
     and_then (float_i_to_f E n1) (\<lambda>f1. map_sum id NFloat (add_f E f1 n2))"
| "add E (NInteger n1) (NRational n2) = Inr (from_rational (r_add E (of_int n1) n2))"
| "add E (NRational n2) (NInteger n1) = Inr (from_rational (r_add E (of_int n1) n2))"
| "add E (NRational n1) (NFloat n2) =
     and_then (float_r_to_f E n1) (\<lambda>f1. map_sum id NFloat (add_f E f1 n2))"
| "add E (NFloat n2) (NRational n1) =
     and_then (float_r_to_f E n1) (\<lambda>f1. map_sum id NFloat (add_f E f1 n2))"
| "add E (NFloat f1) (NFloat f2) = map_sum id NFloat (add_f E f1 f2)"
| "add E (NRational r1) (NRational r2) = Inr (from_rational (r_add E r1 r2))"

fun neg :: "num_env \<Rightarrow> Number \<Rightarrow> Number" where
  "neg E (NFixnum n) =
     (case i64_checked (- get_num n) of
        Some m \<Rightarrow> from_i64 m
      | None \<Rightarrow> from_integer (i_neg E (get_num n)))"
| "neg E (NInteger n) = from_integer (i_neg E n)"
| "neg E (NFloat f) = NFloat (f_neg f)"
| "neg E (NRational r) = from_rational (r_neg E r)"

fun abs_num :: "num_env \<Rightarrow> Number \<Rightarrow> Number" where
  "abs_num E (NFixnum n) =
     (case checked_abs n of
        Some n \<Rightarrow> NFixnum n
      | None \<Rightarrow> from_integer (Fixnum_MAX + 1))"
| "abs_num E (NInteger n) = from_integer (i_abs E n)"
| "abs_num E (NFloat f) = NFloat (f_abs f)"
| "abs_num E (NRational r) = from_rational (r_abs E r)"

definition sub :: "num_env \<Rightarrow> Number \<Rightarrow> Number \<Rightarrow> EvalError + Number" where
  "sub E lhs rhs = add E lhs (neg E rhs)"

fun mul :: "num_env \<Rightarrow> Number \<Rightarrow> Number \<Rightarrow> EvalError + Number" where
  "mul E (NFixnum n1) (NFixnum n2) =
     Inr (case i64_checked (get_num n1 * get_num n2) of
            Some result \<Rightarrow> from_i64 result
          | None \<Rightarrow> from_integer (i_mul E (get_num n1) (get_num n2)))"
| "mul E (NFixnum n1) (NInteger n2) = Inr (from_integer (i_mul E (get_num n1) n2))"
| "mul E (NInteger n2) (NFixnum n1) = Inr (from_integer (i_mul E (get_num n1) n2))"
| "mul E (NFixnum n1) (NRational n2) = Inr (from_rational (r_mul E (of_int (get_num n1)) n2))"
| "mul E (NRational n2) (NFixnum n1) = Inr (from_rational (r_mul E (of_int (get_num n1)) n2))"
| "mul E (NFixnum n1) (NFloat n2) =
     and_then (float_fn_to_f E (get_num n1)) (\<lambda>f1. map_sum id NFloat (mul_f E f1 n2))"
| "mul E (NFloat n2) (NFixnum n1) =
     and_then (float_fn_to_f E (get_num n1)) (\<lambda>f1. map_sum id NFloat (mul_f E f1 n2))"
| "mul E (NInteger n1) (NInteger n2) = Inr (from_integer (i_mul E n1 n2))"
| "mul E (NInteger n1) (NFloat n2) =
     and_then (float_i_to_f E n1) (\<lambda>f1. map_sum id NFloat (mul_f E f1 n2))"
| "mul E (NFloat n2) (NInteger n1) =
     and_then (float_i_to_f E n1) (\<lambda>f1. map_sum id NFloat (mul_f E f1 n2))"
| "mul E (NInteger n1) (NRational n2) = Inr (from_rational (r_mul E (of_int n1) n2))"
| "mul E (NRational n2) (NInteger n1) = Inr (from_rational (r_mul E (of_int n1) n2))"
| "mul E (NRational n1) (NFloat n2) =
     and_then (float_r_to_f E n1) (\<lambda>f1. map_sum id NFloat (mul_f E f1 n2))"
| "mul E (NFloat n2) (NRational n1) =
     and_then (float_r_to_f E n1) (\<lambda>f1. map_sum id NFloat (mul_f E f1 n2))"
| "mul E (NFloat f1) (NFloat f2) = map_sum id NFloat (mul_f E f1 f2)"
| "mul E (NRational r1) (NRational r2) = Inr (from_rational (r_mul E r1 r2))"

definition div_num :: "num_env \<Rightarrow> Number \<Rightarrow> Number \<Rightarrow> arith_error + Number" where
  "div_num E n1 n2 =
     (let st = functor_stub ''/'' 2
      in if num_is_zero n2 then Inl (zero_divisor_eval_error st)
         else try_numeric_result (num_div E n1 n2) st)"

section \<open>Powers\<close>

definition float_of_num :: "num_env \<Rightarrow> Number \<Rightarrow> arith_error + f64" where
  "float_of_num E n = try_numeric_result (result_f E n) (functor_stub ''is'' 2)"

definition unary_float_fn_template :: "num_env \<Rightarrow> Number \<Rightarrow> (f64 \<Rightarrow> f64) \<Rightarrow> arith_error + f64" where
  "unary_float_fn_template E n1 f =
     (let st = functor_stub ''is'' 2
      in and_then (try_numeric_result (result_f E n1) st) (\<lambda>f1.
           try_numeric_result (result_f E (NFloat (f f1))) st))"

definition float_pow :: "num_env \<Rightarrow> Number \<Rightarrow> Number \<Rightarrow> arith_error + Number" where
  "float_pow E n1 n2 =
     (let st = functor_stub ''**'' 2
      in and_then (try_numeric_result (result_f E n1) st) (\<lambda>f1.
         and_then (try_numeric_result (result_f E n2) st) (\<lambda>f2.
         and_then (try_numeric_result (result_f E (NFloat (f_powf E f1 f2))) st) (\<lambda>f. Inr (NFloat f)))))"

definition pow_num :: "num_env \<Rightarrow> Number \<Rightarrow> Number \<Rightarrow> atom \<Rightarrow> arith_error + Number" where
  "pow_num E n1 n2 culprit =
     (if num_is_negative n2 \<and> num_is_zero n1 then Inl (undefined_eval_error (culprit, 2))
      else float_pow E n1 n2)"

text \<open>The base is neither 1, 0 nor -1 and the exponent is negative.\<close>

definition no_integer_power :: "int \<Rightarrow> int \<Rightarrow> bool" where
  "no_integer_power n1 n2 \<longleftrightarrow> \<not> (n1 = 1 \<or> n1 = 0 \<or> n1 = - 1) \<and> n2 < 0"

definition u32_MAX :: int where "u32_MAX = 2 ^ 32 - 1"
definition usize_MAX :: int where "usize_MAX = 2 ^ 64 - 1"

definition checked_pow :: "int \<Rightarrow> int \<Rightarrow> int option" where
  "checked_pow n1 n2 = (if 0 \<le> n2 \<and> n2 \<le> u32_MAX then i64_checked (n1 ^ nat n2) else None)"

text \<open>\<open>None\<close> is a power loop that does not end.\<close>

definition int_pow :: "num_env \<Rightarrow> Number \<Rightarrow> Number \<Rightarrow> (arith_error + Number) option" where
  "int_pow E n1 n2 =
     (if num_is_zero n1 \<and> num_is_negative n2 then Some (Inl (undefined_eval_error (functor_stub ''is'' 2)))
      else
        let st = functor_stub ''^'' 2
        in case (n1, n2) of
          (NFixnum m1, NFixnum m2) \<Rightarrow>
            if no_integer_power (get_num m1) (get_num m2) then Some (Inl (numerical_type_error VFloat n1 st))
            else (case checked_pow (get_num m1) (get_num m2) of
                    Some result \<Rightarrow> Some (Inr (from_i64 result))
                  | None \<Rightarrow> map_option (Inr \<circ> from_integer) (binary_pow E (get_num m1) (get_num m2)))
        | (NFixnum m1, NInteger i2) \<Rightarrow>
            if no_integer_power (get_num m1) i2 then Some (Inl (numerical_type_error VFloat n1 st))
            else map_option (Inr \<circ> from_integer) (binary_pow E (get_num m1) i2)
        | (NInteger i1, NFixnum m2) \<Rightarrow>
            if no_integer_power i1 (get_num m2) then Some (Inl (numerical_type_error VFloat n1 st))
            else map_option (Inr \<circ> from_integer) (binary_pow E i1 (get_num m2))
        | (NInteger i1, NInteger i2) \<Rightarrow>
            if no_integer_power i1 i2 then Some (Inl (numerical_type_error VFloat n1 st))
            else map_option (Inr \<circ> from_integer) (binary_pow E i1 i2)
        | (_, NInteger i2) \<Rightarrow>
            Some (and_then (float_of_num E n1) (\<lambda>f1. and_then (float_of_num E n2) (\<lambda>f2.
              map_sum id NFloat (unary_float_fn_template E (NFloat f1) (\<lambda>f. f_powf E f f2)))))
        | _ \<Rightarrow>
            Some (and_then (float_of_num E n2) (\<lambda>f2.
              if num_is_negative n1 \<and> \<not> f_eq f2 (f_floor f2) then Inl (undefined_eval_error st)
              else and_then (float_of_num E n1) (\<lambda>f1.
                map_sum id NFloat (unary_float_fn_template E (NFloat f1) (\<lambda>f. f_powf E f f2))))))"

section \<open>Maximum and minimum\<close>

definition max_num :: "num_env \<Rightarrow> Number \<Rightarrow> Number \<Rightarrow> arith_error + Number" where
  "max_num E n1 n2 =
     (case (n1, n2) of
        (NFixnum m1, NFixnum m2) \<Rightarrow> Inr (if get_num m1 > get_num m2 then n1 else n2)
      | (NFixnum m1, NInteger i2) \<Rightarrow> Inr (if i2 > get_num m1 then n2 else n1)
      | (NInteger i1, NFixnum m2) \<Rightarrow> Inr (if i1 > get_num m2 then n1 else n2)
      | (NInteger i1, NInteger i2) \<Rightarrow> Inr (NInteger (max i1 i2))
      | (NRational r1, NRational r2) \<Rightarrow> Inr (NRational (max r1 r2))
      | _ \<Rightarrow>
          let st = functor_stub ''max'' 2
          in and_then (try_numeric_result (result_f E n1) st) (\<lambda>f1.
             and_then (try_numeric_result (result_f E n2) st) (\<lambda>f2.
               Inr (case of_cmp E f1 f2 of Less \<Rightarrow> n2 | Equal \<Rightarrow> NFloat f2 | Greater \<Rightarrow> n1))))"

definition min_num :: "num_env \<Rightarrow> Number \<Rightarrow> Number \<Rightarrow> arith_error + Number" where
  "min_num E n1 n2 =
     (case (n1, n2) of
        (NFixnum m1, NFixnum m2) \<Rightarrow> Inr (if get_num m1 < get_num m2 then n1 else n2)
      | (NFixnum m1, NInteger i2) \<Rightarrow> Inr (if i2 < get_num m1 then n2 else n1)
      | (NInteger i1, NFixnum m2) \<Rightarrow> Inr (if i1 < get_num m2 then n1 else n2)
      | (NInteger i1, NInteger i2) \<Rightarrow> Inr (NInteger (min i1 i2))
      | (NRational r1, NRational r2) \<Rightarrow> Inr (NRational (min r1 r2))
      | _ \<Rightarrow>
          let st = functor_stub ''min'' 2
          in and_then (try_numeric_result (result_f E n1) st) (\<lambda>f1.
             and_then (try_numeric_result (result_f E n2) st) (\<lambda>f2.
               Inr (case of_cmp E f1 f2 of Less \<Rightarrow> n1 | Equal \<Rightarrow> NFloat f1 | Greater \<Rightarrow> n2))))"

section \<open>Rationals\<close>

definition rational_from_number :: "num_env \<Rightarrow> Number \<Rightarrow> stub \<Rightarrow> arith_error + rat" where
  "rational_from_number E n st =
     (case n of
        NFixnum n \<Rightarrow> Inr (of_int (get_num n))
      | NRational r \<Rightarrow> Inr r
      | NFloat f \<Rightarrow> (case r_of_f64 E f of Some r \<Rightarrow> Inr r | None \<Rightarrow> Inl (InstantiationError st))
      | NInteger n \<Rightarrow> Inr (of_int n))"

definition rdiv :: "num_env \<Rightarrow> rat \<Rightarrow> rat \<Rightarrow> arith_error + rat" where
  "rdiv E r1 r2 =
     (if r2 = 0 then Inl (zero_divisor_eval_error (functor_stub ''rdiv'' 2)) else Inr (r_div E r1 r2))"

section \<open>Integer division\<close>

definition idiv :: "num_env \<Rightarrow> Number \<Rightarrow> Number \<Rightarrow> arith_error + Number" where
  "idiv E n1 n2 =
     (let st = functor_stub ''//'' 2
      in case (n1, n2) of
        (NFixnum m1, NFixnum m2) \<Rightarrow>
          if get_num m2 = 0 then Inl (zero_divisor_eval_error st)
          else (case i64_checked (get_num m1 sdiv get_num m2) of
                  Some result \<Rightarrow> Inr (from_i64 result)
                | None \<Rightarrow> Inr (from_integer (i_div E (get_num m1) (get_num m2))))
      | (NFixnum m1, NInteger i2) \<Rightarrow>
          if i2 = 0 then Inl (zero_divisor_eval_error st)
          else Inr (from_integer (i_div E (get_num m1) i2))
      | (NInteger i1, NFixnum m2) \<Rightarrow>
          if get_num m2 = 0 then Inl (zero_divisor_eval_error st)
          else Inr (from_integer (i_div E i1 (get_num m2)))
      | (NInteger i1, NInteger i2) \<Rightarrow>
          if i2 = 0 then Inl (zero_divisor_eval_error st) else Inr (from_integer (i_div E i1 i2))
      | (NFixnum _, _) \<Rightarrow> Inl (numerical_type_error VInteger n2 st)
      | (NInteger _, _) \<Rightarrow> Inl (numerical_type_error VInteger n2 st)
      | _ \<Rightarrow> Inl (numerical_type_error VInteger n1 st))"

definition ibig_rem_floor :: "num_env \<Rightarrow> int \<Rightarrow> int \<Rightarrow> int" where
  "ibig_rem_floor E n1 n2 =
     (let unsigned_result = ring_residue E \<bar>n2\<bar> n1
      in if n2 < 0 then (if unsigned_result = 0 then unsigned_result else i_add E unsigned_result n2)
         else unsigned_result)"

definition modulus :: "num_env \<Rightarrow> Number \<Rightarrow> Number \<Rightarrow> arith_error + Number" where
  "modulus E x y =
     (let st = functor_stub ''mod'' 2
      in case (x, y) of
        (NFixnum m1, NFixnum m2) \<Rightarrow>
          if get_num m2 = 0 then Inl (zero_divisor_eval_error st)
          else Inr (from_i64 (rem_floor E (get_num m1) (get_num m2)))
      | (NFixnum m1, NInteger i2) \<Rightarrow>
          if i2 = 0 then Inl (zero_divisor_eval_error st)
          else Inr (from_integer (ibig_rem_floor E (get_num m1) i2))
      | (NInteger i1, NFixnum m2) \<Rightarrow>
          if get_num m2 = 0 then Inl (zero_divisor_eval_error st)
          else Inr (from_integer (ibig_rem_floor E i1 (get_num m2)))
      | (NInteger i1, NInteger i2) \<Rightarrow>
          if i2 = 0 then Inl (zero_divisor_eval_error st) else Inr (from_integer (ibig_rem_floor E i1 i2))
      | (NInteger _, _) \<Rightarrow> Inl (numerical_type_error VInteger y st)
      | (NFixnum _, _) \<Rightarrow> Inl (numerical_type_error VInteger y st)
      | _ \<Rightarrow> Inl (numerical_type_error VInteger x st))"

definition remainder :: "num_env \<Rightarrow> Number \<Rightarrow> Number \<Rightarrow> arith_error + Number" where
  "remainder E x y =
     (let st = functor_stub ''rem'' 2
      in case (x, y) of
        (NFixnum m1, NFixnum m2) \<Rightarrow>
          if get_num m2 = 0 then Inl (zero_divisor_eval_error st)
          else Inr (from_i64 (get_num m1 smod get_num m2))
      | (NFixnum m1, NInteger i2) \<Rightarrow>
          if i2 = 0 then Inl (zero_divisor_eval_error st)
          else Inr (from_integer (i_rem E (get_num m1) i2))
      | (NInteger i1, NFixnum m2) \<Rightarrow>
          if get_num m2 = 0 then Inl (zero_divisor_eval_error st)
          else Inr (from_integer (i_rem E i1 (get_num m2)))
      | (NInteger i1, NInteger i2) \<Rightarrow>
          if i2 = 0 then Inl (zero_divisor_eval_error st) else Inr (from_integer (i_rem E i1 i2))
      | (NInteger _, _) \<Rightarrow> Inl (numerical_type_error VInteger y st)
      | (NFixnum _, _) \<Rightarrow> Inl (numerical_type_error VInteger y st)
      | _ \<Rightarrow> Inl (numerical_type_error VInteger x st))"

definition int_floor_div :: "num_env \<Rightarrow> Number \<Rightarrow> Number \<Rightarrow> arith_error + Number" where
  "int_floor_div E n1 n2 =
     and_then (modulus E n1 n2) (\<lambda>m.
     and_then (try_numeric_result (sub E n1 m) (functor_stub ''div'' 2)) (\<lambda>n1'. idiv E n1' n2))"

section \<open>Shifts\<close>

definition leading_zeros :: "int \<Rightarrow> nat" where
  "leading_zeros x = 64 - bit_length (nat x)"

function checked_signed_shl :: "int \<Rightarrow> nat \<Rightarrow> int option" where
  "checked_signed_shl x shift =
     (if shift = 0 then Some x
      else if x \<ge> 0 then (if shift < leading_zeros x then Some (push_bit shift x) else None)
      else Option.bind (i64_checked (- x)) (\<lambda>y.
        Option.bind (checked_signed_shl y shift) (\<lambda>res. i64_checked (- res))))"
  by pat_completeness auto
termination
  by (relation "measure (\<lambda>(x, shift). if x < 0 then 1 else 0)") (auto simp: i64_checked_def split: if_splits)

declare checked_signed_shl.simps [simp del]

definition to_u32 :: "int \<Rightarrow> nat" where
  "to_u32 n = nat (if 0 \<le> n \<and> n \<le> u32_MAX then n else u32_MAX)"

definition to_usize :: "int \<Rightarrow> nat" where
  "to_usize n = nat (if 0 \<le> n \<and> n \<le> usize_MAX then n else usize_MAX)"

definition checked_shr :: "int \<Rightarrow> nat \<Rightarrow> int option" where
  "checked_shr x k = (if k < 64 then Some (drop_bit k x) else None)"

text \<open>The bodies of \<open>shr\<close> and \<open>shl\<close> after the test of the sign of the right operand.\<close>

definition shr_body :: "num_env \<Rightarrow> Number \<Rightarrow> Number \<Rightarrow> arith_error + Number" where
  "shr_body E lhs rhs =
     (let st = functor_stub ''>>'' 2
      in case lhs of
        NFixnum l \<Rightarrow>
          (case rhs of
             NFixnum r \<Rightarrow> Inr (from_i64 (case checked_shr (get_num l) (to_u32 (get_num r)) of Some v \<Rightarrow> v | None \<Rightarrow> 0))
           | NInteger r \<Rightarrow> Inr (from_i64 (case checked_shr (get_num l) (to_u32 r) of Some v \<Rightarrow> v | None \<Rightarrow> 0))
           | _ \<Rightarrow> Inl (numerical_type_error VInteger rhs st))
      | NInteger l \<Rightarrow>
          (case rhs of
             NFixnum r \<Rightarrow> Inr (from_integer (i_shr E l (to_usize (get_num r))))
           | NInteger r \<Rightarrow> Inr (from_integer (i_shr E l (to_usize r)))
           | _ \<Rightarrow> Inl (numerical_type_error VInteger rhs st))
      | _ \<Rightarrow> Inl (numerical_type_error VInteger lhs st))"

definition shl_by :: "num_env \<Rightarrow> Number \<Rightarrow> nat \<Rightarrow> arith_error + Number" where
  "shl_by E lhs k =
     (case lhs of
        NFixnum l \<Rightarrow>
          (case checked_signed_shl (get_num l) k of
             Some res \<Rightarrow> Inr (from_i64 res)
           | None \<Rightarrow> Inr (from_integer (i_shl E (get_num l) k)))
      | NInteger l \<Rightarrow> Inr (from_integer (i_shl E l k))
      | _ \<Rightarrow> Inl (numerical_type_error VInteger lhs (functor_stub ''<<'' 2)))"

definition shl_body :: "num_env \<Rightarrow> Number \<Rightarrow> Number \<Rightarrow> arith_error + Number" where
  "shl_body E lhs rhs =
     (case rhs of
        NFixnum r \<Rightarrow> shl_by E lhs (to_usize (get_num r))
      | NInteger r \<Rightarrow> shl_by E lhs (to_usize r)
      | _ \<Rightarrow> Inl (numerical_type_error VInteger rhs (functor_stub ''<<'' 2)))"

text \<open>
  \<open>shr\<close> and \<open>shl\<close> call each other with the negated operand; one function with the
  direction as an argument, \<open>None\<close> if the calls do not end.
\<close>

partial_function (option) shift_num :: "bool \<Rightarrow> num_env \<Rightarrow> Number \<Rightarrow> Number \<Rightarrow> (arith_error + Number) option" where
  "shift_num left E lhs rhs =
     (if num_is_integer rhs \<and> num_is_negative rhs then shift_num (\<not> left) E lhs (neg E rhs)
      else Some (if left then shl_body E lhs rhs else shr_body E lhs rhs))"

definition shr :: "num_env \<Rightarrow> Number \<Rightarrow> Number \<Rightarrow> (arith_error + Number) option" where
  "shr E lhs rhs = shift_num False E lhs rhs"

definition shl :: "num_env \<Rightarrow> Number \<Rightarrow> Number \<Rightarrow> (arith_error + Number) option" where
  "shl E lhs rhs = shift_num True E lhs rhs"

section \<open>Bits\<close>

definition and_num :: "num_env \<Rightarrow> Number \<Rightarrow> Number \<Rightarrow> arith_error + Number" where
  "and_num E n1 n2 =
     (let st = functor_stub (CHR ''/'' # [CHR 0x5C]) 2
      in case (n1, n2) of
        (NFixnum m1, NFixnum m2) \<Rightarrow> Inr (from_i64 (get_num m1 AND get_num m2))
      | (NFixnum m1, NInteger i2) \<Rightarrow> Inr (from_integer (i_and E (get_num m1) i2))
      | (NInteger i1, NFixnum m2) \<Rightarrow> Inr (from_integer (i_and E i1 (get_num m2)))
      | (NInteger i1, NInteger i2) \<Rightarrow> Inr (from_integer (i_and E i1 i2))
      | (NInteger _, _) \<Rightarrow> Inl (numerical_type_error VInteger n2 st)
      | (NFixnum _, _) \<Rightarrow> Inl (numerical_type_error VInteger n2 st)
      | _ \<Rightarrow> Inl (numerical_type_error VInteger n1 st))"

definition or_num :: "num_env \<Rightarrow> Number \<Rightarrow> Number \<Rightarrow> arith_error + Number" where
  "or_num E n1 n2 =
     (let st = functor_stub (CHR 0x5C # ''/'') 2
      in case (n1, n2) of
        (NFixnum m1, NFixnum m2) \<Rightarrow> Inr (from_i64 (get_num m1 OR get_num m2))
      | (NFixnum m1, NInteger i2) \<Rightarrow> Inr (from_integer (i_or E (get_num m1) i2))
      | (NInteger i1, NFixnum m2) \<Rightarrow> Inr (from_integer (i_or E i1 (get_num m2)))
      | (NInteger i1, NInteger i2) \<Rightarrow> Inr (from_integer (i_or E i1 i2))
      | (NInteger _, _) \<Rightarrow> Inl (numerical_type_error VInteger n2 st)
      | (NFixnum _, _) \<Rightarrow> Inl (numerical_type_error VInteger n2 st)
      | _ \<Rightarrow> Inl (numerical_type_error VInteger n1 st))"

definition xor_num :: "num_env \<Rightarrow> Number \<Rightarrow> Number \<Rightarrow> arith_error + Number" where
  "xor_num E n1 n2 =
     (let st = functor_stub ''xor'' 2
      in case (n1, n2) of
        (NFixnum m1, NFixnum m2) \<Rightarrow> Inr (from_i64 (get_num m1 XOR get_num m2))
      | (NFixnum m1, NInteger i2) \<Rightarrow> Inr (from_integer (i_xor E (get_num m1) i2))
      | (NInteger i1, NFixnum m2) \<Rightarrow> Inr (from_integer (i_xor E i1 (get_num m2)))
      | (NInteger i1, NInteger i2) \<Rightarrow> Inr (from_integer (i_xor E i1 i2))
      | (NInteger _, _) \<Rightarrow> Inl (numerical_type_error VInteger n2 st)
      | (NFixnum _, _) \<Rightarrow> Inl (numerical_type_error VInteger n2 st)
      | _ \<Rightarrow> Inl (numerical_type_error VInteger n1 st))"

definition bitwise_complement :: "num_env \<Rightarrow> Number \<Rightarrow> arith_error + Number" where
  "bitwise_complement E n1 =
     (case n1 of
        NFixnum n \<Rightarrow> Inr (NFixnum (fixnum_not n))
      | NInteger i \<Rightarrow> Inr (from_integer (i_not E i))
      | _ \<Rightarrow> Inl (numerical_type_error VInteger n1 (functor_stub [CHR 0x5C] 2)))"

section \<open>Greatest common divisor\<close>

definition gcd_num :: "num_env \<Rightarrow> Number \<Rightarrow> Number \<Rightarrow> (arith_error + Number) option" where
  "gcd_num E n1 n2 =
     (let st = functor_stub ''gcd'' 2
      in case (n1, n2) of
        (NFixnum m1, NFixnum m2) \<Rightarrow>
          map_option
            (\<lambda>r. case r of Some result \<Rightarrow> Inr (from_i64 result)
                 | None \<Rightarrow> Inr (from_integer (i_gcd E (get_num m1) (get_num m2))))
            (isize_gcd (get_num m1) (get_num m2))
      | (NFixnum m1, NInteger i2) \<Rightarrow> Some (Inr (from_integer (i_gcd E i2 (get_num m1))))
      | (NInteger i2, NFixnum m1) \<Rightarrow> Some (Inr (from_integer (i_gcd E i2 (get_num m1))))
      | (NInteger i1, NInteger i2) \<Rightarrow> Some (Inr (from_integer (i_gcd E i1 i2)))
      | (NFloat f, _) \<Rightarrow> Some (Inl (numerical_type_error VInteger (NFloat f) st))
      | (_, NFloat f) \<Rightarrow> Some (Inl (numerical_type_error VInteger (NFloat f) st))
      | (NRational r, _) \<Rightarrow> Some (Inl (numerical_type_error VInteger (NRational r) st))
      | (_, NRational r) \<Rightarrow> Some (Inl (numerical_type_error VInteger (NRational r) st)))"

section \<open>Functions on floats\<close>

definition atan2 :: "num_env \<Rightarrow> Number \<Rightarrow> Number \<Rightarrow> arith_error + f64" where
  "atan2 E n1 n2 =
     (if num_is_zero n1 \<and> num_is_zero n2 then Inl (undefined_eval_error (functor_stub ''is'' 2))
      else and_then (float_of_num E n1) (\<lambda>f1. and_then (float_of_num E n2) (\<lambda>f2.
        unary_float_fn_template E (NFloat f1) (\<lambda>f. f_atan2 E f f2))))"

definition sin_num :: "num_env \<Rightarrow> Number \<Rightarrow> arith_error + f64" where
  "sin_num E n1 = unary_float_fn_template E n1 (f_sin E)"
definition cos_num :: "num_env \<Rightarrow> Number \<Rightarrow> arith_error + f64" where
  "cos_num E n1 = unary_float_fn_template E n1 (f_cos E)"
definition tan_num :: "num_env \<Rightarrow> Number \<Rightarrow> arith_error + f64" where
  "tan_num E n1 = unary_float_fn_template E n1 (f_tan E)"
definition log_num :: "num_env \<Rightarrow> Number \<Rightarrow> arith_error + f64" where
  "log_num E n1 = unary_float_fn_template E n1 (\<lambda>f. f_log E f f64_E)"
definition exp_num :: "num_env \<Rightarrow> Number \<Rightarrow> arith_error + f64" where
  "exp_num E n1 = unary_float_fn_template E n1 (f_exponential E)"
definition asin_num :: "num_env \<Rightarrow> Number \<Rightarrow> arith_error + f64" where
  "asin_num E n1 = unary_float_fn_template E n1 (f_asin E)"
definition acos_num :: "num_env \<Rightarrow> Number \<Rightarrow> arith_error + f64" where
  "acos_num E n1 = unary_float_fn_template E n1 (f_acos E)"
definition atan_num :: "num_env \<Rightarrow> Number \<Rightarrow> arith_error + f64" where
  "atan_num E n1 = unary_float_fn_template E n1 (f_atan E)"
definition float_fractional_part :: "num_env \<Rightarrow> Number \<Rightarrow> arith_error + f64" where
  "float_fractional_part E n1 = unary_float_fn_template E n1 f_fract"
definition float_integer_part :: "num_env \<Rightarrow> Number \<Rightarrow> arith_error + f64" where
  "float_integer_part E n1 = unary_float_fn_template E n1 f_trunc"

definition sqrt_num :: "num_env \<Rightarrow> Number \<Rightarrow> arith_error + f64" where
  "sqrt_num E n1 =
     (if num_is_negative n1 then Inl (undefined_eval_error (functor_stub ''is'' 2))
      else unary_float_fn_template E n1 (f_sqrt E))"

section \<open>Rounding\<close>

definition floor_num :: "num_env \<Rightarrow> Number \<Rightarrow> (arith_error, Number) outcome" where
  "floor_num E n1 = (case rnd_i E n1 of Done (Inr n) \<Rightarrow> Done (Inr n) | _ \<Rightarrow> Panic)"

definition map_done :: "('a \<Rightarrow> 'b) \<Rightarrow> ('e, 'a) outcome \<Rightarrow> ('e, 'b) outcome" where
  "map_done f x = (case x of Panic \<Rightarrow> Panic | Done r \<Rightarrow> Done (map_sum id f r))"

definition ceiling_num :: "num_env \<Rightarrow> Number \<Rightarrow> (arith_error, Number) outcome" where
  "ceiling_num E n1 = map_done (neg E) (floor_num E (neg E n1))"

definition truncate_num :: "num_env \<Rightarrow> Number \<Rightarrow> (arith_error, Number) outcome" where
  "truncate_num E n =
     (if num_is_negative n then map_done (neg E) (floor_num E (abs_num E n)) else floor_num E n)"

definition round_num :: "num_env \<Rightarrow> Number \<Rightarrow> (arith_error, Number) outcome" where
  "round_num E n0 =
     (let res = (case n0 of
                   NFixnum _ \<Rightarrow> n0
                 | NInteger _ \<Rightarrow> n0
                 | NRational r \<Rightarrow> from_integer (r_round E r)
                 | NFloat f \<Rightarrow> NFloat (f_round_half f))
      in case rnd_i E res of
           Panic \<Rightarrow> Panic
         | Done r \<Rightarrow> Done (try_numeric_result r (functor_stub ''round'' 1)))"

end
