(* ===== verification/Arithmetic.thy ===== *)
theory Arithmetic
  imports ArithOps
begin

text \<open>
  What the evaluable functors compute. The promises of the big-number crates are the locale
  \<open>exact_numbers\<close>; inside it every operation on integers is shown to return the integer it should
  whatever the representation of its operands, machine-integer overflow included.
\<close>

section \<open>What the number crates promise\<close>

locale exact_numbers =
  fixes E :: num_env
  assumes add_law [simp]: "i_add E a b = a + b"
    and mul_law [simp]: "i_mul E a b = a * b"
    and neg_law [simp]: "i_neg E a = - a"
    and abs_law [simp]: "i_abs E a = \<bar>a\<bar>"
    and div_law [simp]: "b \<noteq> 0 \<Longrightarrow> i_div E a b = a sdiv b"
    and rem_law [simp]: "b \<noteq> 0 \<Longrightarrow> i_rem E a b = a smod b"
    and and_law [simp]: "i_and E a b = a AND b"
    and or_law [simp]: "i_or E a b = a OR b"
    and xor_law [simp]: "i_xor E a b = a XOR b"
    and not_law [simp]: "i_not E a = NOT a"
    and shl_law [simp]: "i_shl E a k = push_bit k a"
    and shr_law [simp]: "i_shr E a k = drop_bit k a"
    and pow_law [simp]: "i_pow E a k = a ^ k"
    and gcd_law [simp]: "a \<noteq> 0 \<or> b \<noteq> 0 \<Longrightarrow> i_gcd E a b = gcd a b"
    and bit0_law [simp]: "i_bit0 E a = odd a"
    and residue_law [simp]: "0 < m \<Longrightarrow> ring_residue E m a = a mod m"
    and to_f64_law [simp]: "i_to_f64 E a = f_of_int a"
    and of_f64_law: "is_finite x \<Longrightarrow> one_units dvd f_units x \<Longrightarrow> i_of_f64 E x = Some (f_units x div one_units)"
    and r_floor_law [simp]: "r_floor E r = \<lfloor>r\<rfloor>"
    and rem_floor_law [simp]: "b \<noteq> 0 \<Longrightarrow> rem_floor E a b = a mod b"
    and of_cmp_law: "\<not> is_nan x \<Longrightarrow> \<not> is_nan y \<Longrightarrow> of_cmp E x y = cmp_of (f_units x) (f_units y)"

text \<open>The integer a number stands for, and results that are a given integer.\<close>

fun int_of :: "Number \<Rightarrow> int option" where
  "int_of (NFixnum n) = Some (get_num n)"
| "int_of (NInteger i) = Some i"
| "int_of _ = None"

definition yields :: "'e + Number \<Rightarrow> int \<Rightarrow> bool" where
  "yields r i \<longleftrightarrow> (\<exists>n. r = Inr n \<and> int_of n = Some i)"

lemma yields_Inr [simp]: "yields (Inr n) i \<longleftrightarrow> int_of n = Some i"
  by (simp add: yields_def)

lemma int_of_from [simp]:
  "int_of (from_i64 i) = Some i" "int_of (from_integer i) = Some i"
  by (auto simp: from_i64_def from_integer_def build_with_checked_Some get_num_build_with_unchecked
      split: option.splits)

lemma int_of_cases:
  assumes "int_of n = Some i"
  obtains f where "n = NFixnum f" "get_num f = i" | "n = NInteger i"
  using assms by (cases n) auto

lemma i64_checked_cases [simp]:
  "i64_checked n = Some m \<longleftrightarrow> n = m \<and> - (2 ^ 63) \<le> m \<and> m < 2 ^ 63"
  "i64_checked n = None \<longleftrightarrow> \<not> (- (2 ^ 63) \<le> n \<and> n < 2 ^ 63)"
  by (auto simp: i64_checked_def)

lemma get_num_i64: "- (2 ^ 55) \<le> get_num f \<and> get_num f < 2 ^ 55"
  using get_num_range [of f] by (simp add: Fixnum_MIN_def Fixnum_MAX_def)

text \<open>What a shift to the right yields.\<close>

definition shifted_right :: "Number \<Rightarrow> int \<Rightarrow> int \<Rightarrow> int" where
  "shifted_right n1 a b = (if 0 \<le> a \<or> b < 64 \<or> n1 = NInteger a then a div 2 ^ nat b else 0)"

section \<open>Integer operations\<close>

context exact_numbers
begin

lemma add_int:
  assumes "int_of n1 = Some a" and "int_of n2 = Some b"
  shows "yields (add E n1 n2) (a + b)"
  using assms by (auto elim!: int_of_cases split: option.splits)

lemma neg_int: "int_of n = Some a \<Longrightarrow> int_of (neg E n) = Some (- a)"
  by (auto elim!: int_of_cases split: option.splits)

lemma abs_int: "int_of n = Some a \<Longrightarrow> int_of (abs_num E n) = Some \<bar>a\<bar>"
proof (erule int_of_cases)
  fix f
  assume f: "n = NFixnum f" "get_num f = a"
  then show ?thesis
    using get_num_range [of f]
    by (auto simp: checked_abs_def build_with_checked_Some build_with_checked_None
        get_num_build_with_unchecked Fixnum_MAX_def Fixnum_MIN_def split: option.splits)
qed simp

lemma sub_int: "int_of n1 = Some a \<Longrightarrow> int_of n2 = Some b \<Longrightarrow> yields (sub E n1 n2) (a - b)"
  using add_int neg_int by (fastforce simp: sub_def)

lemma mul_int:
  assumes "int_of n1 = Some a" and "int_of n2 = Some b"
  shows "yields (mul E n1 n2) (a * b)"
  using assms by (auto elim!: int_of_cases simp: mult.commute split: option.splits)

lemma ibig_rem_floor: "b \<noteq> 0 \<Longrightarrow> ibig_rem_floor E a b = a mod b"
proof (cases "b < 0")
  case True
  then have "a mod b = - ((- a) mod (- b))" by (simp add: mod_minus_minus)
  moreover have "(- a) mod (- b) = (if a mod (- b) = 0 then 0 else - b - a mod (- b))"
    by (rule zmod_zminus1_eq_if)
  ultimately show ?thesis using True by (auto simp: ibig_rem_floor_def Let_def split: if_splits)
qed (simp add: ibig_rem_floor_def)

lemma idiv_int:
  assumes "int_of n1 = Some a" and "int_of n2 = Some b" and "b \<noteq> 0"
  shows "yields (idiv E n1 n2) (a sdiv b)"
  using assms by (auto elim!: int_of_cases simp: idiv_def split: option.splits)

lemma modulus_int:
  assumes "int_of n1 = Some a" and "int_of n2 = Some b" and "b \<noteq> 0"
  shows "yields (modulus E n1 n2) (a mod b)"
  using assms by (auto elim!: int_of_cases simp: modulus_def ibig_rem_floor)

lemma remainder_int:
  assumes "int_of n1 = Some a" and "int_of n2 = Some b" and "b \<noteq> 0"
  shows "yields (remainder E n1 n2) (a smod b)"
  using assms by (auto elim!: int_of_cases simp: remainder_def)

lemma sdiv_exact: "b dvd a \<Longrightarrow> a sdiv b = a div (b :: int)"
proof (cases "b = 0")
  case False
  assume "b dvd a"
  then obtain k where a: "a = b * k" by (elim dvdE)
  have "sgn b * sgn b = 1" using False by (simp add: sgn_if)
  then have "sgn (b * k) * sgn b = sgn k" by (metis mult.assoc mult.commute mult_1_left sgn_mult)
  moreover have "\<bar>b * k\<bar> div \<bar>b\<bar> = \<bar>k\<bar>" using False by (simp add: abs_mult)
  ultimately show ?thesis using False by (simp add: a signed_divide_int_def sgn_mult_abs)
qed (simp add: signed_divide_int_def)

lemma int_floor_div_int:
  assumes "int_of n1 = Some a" and "int_of n2 = Some b" and "b \<noteq> 0"
  shows "yields (int_floor_div E n1 n2) (a div b)"
proof -
  from modulus_int [OF assms] obtain m where m: "modulus E n1 n2 = Inr m" "int_of m = Some (a mod b)"
    by (auto simp: yields_def)
  from sub_int [OF assms(1) m(2)] obtain n where
    n: "sub E n1 m = Inr n" "int_of n = Some (a - a mod b)" by (auto simp: yields_def)
  have "(a - a mod b) sdiv b = a div b"
    using assms(3) by (simp add: sdiv_exact minus_mod_eq_mult_div)
  with idiv_int [OF n(2) assms(2,3)] m n show ?thesis
    by (simp add: int_floor_div_def try_numeric_result_def)
qed

lemma bits_int:
  assumes "int_of n1 = Some a" and "int_of n2 = Some b"
  shows "yields (and_num E n1 n2) (a AND b)" "yields (or_num E n1 n2) (a OR b)"
    "yields (xor_num E n1 n2) (a XOR b)"
  using assms by (auto elim!: int_of_cases simp: and_num_def or_num_def xor_num_def)

lemma complement_int: "int_of n = Some a \<Longrightarrow> yields (bitwise_complement E n) (NOT a)"
proof (erule int_of_cases)
  fix f
  assume f: "n = NFixnum f" "get_num f = a"
  have "get_num (build_with_unchecked (- a - 1)) = - a - 1"
    using get_num_range [of f] f(2)
    by (intro get_num_build_with_unchecked) (simp_all add: Fixnum_MIN_def Fixnum_MAX_def)
  with f show ?thesis by (simp add: bitwise_complement_def fixnum_not_def not_int_def)
qed (simp add: bitwise_complement_def)

end

section \<open>The loops\<close>

lemma drop_bit_1: "drop_bit 1 n = n div (2 :: int)"
  by (simp add: drop_bit_eq_div)

lemma low_bit: "(n AND 1 = 0) = even (n :: int)" "((n1 OR n2) AND 1 = 0) = (even n1 \<and> even (n2 :: int))"
  by (simp_all add: and_one_eq even_iff_mod_2_eq_zero [symmetric] even_or_iff)

lemma halve_even [simp]: "halve (2 * h) = halve h"
  by (subst halve.simps) (simp add: low_bit drop_bit_eq_div)

lemma halve_both_even [simp]: "halve_both (2 * h1) (2 * h2) s = halve_both h1 h2 (Suc s)"
  by (subst halve_both.simps) (simp add: low_bit(1) even_or_iff drop_bit_eq_div)

lemma halve_total:
  assumes "0 < n"
  shows "\<exists>m k. halve n = Some m \<and> n = m * 2 ^ k \<and> odd m \<and> 0 < m \<and> m \<le> n"
  using assms
proof (induction "nat n" arbitrary: n rule: less_induct)
  case less
  show ?case
  proof (cases "even n")
    case True
    then obtain h where h: "n = 2 * h" by (elim evenE)
    then have "0 < h" "nat h < nat n" using less.prems by auto
    from less.hyps [OF this(2,1)] obtain m k where
      m: "halve h = Some m" "h = m * 2 ^ k" "odd m" "0 < m" "m \<le> h" by blast
    then have "halve n = Some m" by (simp add: h)
    moreover have "m \<le> n" using m(5) h \<open>0 < h\<close> by linarith
    ultimately show ?thesis using m(2,3,4) h by (intro exI [of _ m] exI [of _ "Suc k"]) simp
  next
    case False
    with less.prems show ?thesis
      by (intro exI [of _ n] exI [of _ 0]) (simp add: halve.simps [of n] low_bit)
  qed
qed

lemma halve_both_total:
  assumes "0 < n1" and "0 < n2"
  shows "\<exists>m1 m2 k. halve_both n1 n2 s = Some (m1, m2, s + k) \<and> n1 = m1 * 2 ^ k \<and> n2 = m2 * 2 ^ k \<and>
    (odd m1 \<or> odd m2) \<and> 0 < m1 \<and> 0 < m2"
  using assms
proof (induction "nat n1" arbitrary: n1 n2 s rule: less_induct)
  case less
  show ?case
  proof (cases "even n1 \<and> even n2")
    case True
    then obtain h1 h2 where h: "n1 = 2 * h1" "n2 = 2 * h2" by (elim conjE evenE)
    then have pos: "0 < h1" "0 < h2" "nat h1 < nat n1" using less.prems by auto
    from less.hyps [OF pos(3,1,2), of "s + 1"] obtain m1 m2 k where
      m: "halve_both h1 h2 (s + 1) = Some (m1, m2, s + 1 + k)" "h1 = m1 * 2 ^ k" "h2 = m2 * 2 ^ k"
        "odd m1 \<or> odd m2" "0 < m1" "0 < m2" by blast
    then have "halve_both n1 n2 s = Some (m1, m2, s + Suc k)" by (simp add: h)
    with m h show ?thesis by (intro exI [of _ m1] exI [of _ m2] exI [of _ "Suc k"]) auto
  next
    case False
    with less.prems show ?thesis
      by (subst halve_both.simps, rule_tac exI [of _ n1], rule_tac exI [of _ n2], rule_tac exI [of _ 0])
         (auto simp: low_bit(1) even_or_iff)
  qed
qed

lemma gcd_odd_shift: "odd n \<Longrightarrow> gcd n (m * 2 ^ k) = gcd n (m :: int)"
  by (metis coprime_power_right_iff coprime_right_2_iff_odd gcd_mult_right_right_cancel)

lemma gcd_loop_total:
  assumes "odd n1" and "0 < n1" and "0 < n2"
  shows "gcd_loop n1 n2 = Some (gcd n1 n2)"
  using assms
proof (induction "nat (n1 + n2)" arbitrary: n1 n2 rule: less_induct)
  case less
  from halve_total [OF less.prems(3)] obtain m k where
    m: "halve n2 = Some m" "n2 = m * 2 ^ k" "odd m" "0 < m" "m \<le> n2" by blast
  define lo hi where "lo = min n1 m" and "hi = max n1 m"
  have g: "gcd n1 n2 = gcd lo (hi - lo)"
  proof -
    have "gcd n1 n2 = gcd hi lo"
      using gcd_odd_shift [OF less.prems(1), of m k] m(2) by (auto simp: lo_def hi_def min_def max_def gcd.commute)
    then show ?thesis using gcd_diff1 [of hi lo] by (simp add: gcd.commute)
  qed
  have step: "gcd_loop n1 n2 = (if hi - lo = 0 then Some lo else gcd_loop lo (hi - lo))"
    using m(1) by (auto simp: gcd_loop.simps [of n1 n2] lo_def hi_def Let_def)
  show ?case
  proof (cases "hi = lo")
    case True
    with g step less.prems m show ?thesis by (simp add: lo_def)
  next
    case False
    then have lt: "lo < hi" by (auto simp: lo_def hi_def)
    have "odd lo" "0 < lo" using less.prems m by (auto simp: lo_def min_def)
    moreover have "nat (lo + (hi - lo)) < nat (n1 + n2)"
      using less.prems(2,3) m(5) by (simp add: hi_def)
    ultimately have "gcd_loop lo (hi - lo) = Some (gcd lo (hi - lo))"
      using less.hyps lt by simp
    with False step g show ?thesis by simp
  qed
qed

lemma isize_gcd_total:
  assumes "\<bar>a\<bar> < 2 ^ 63" and "\<bar>b\<bar> < 2 ^ 63"
  shows "isize_gcd a b = Some (Some (gcd a b))"
proof (cases "a = 0 \<or> b = 0")
  case True
  with assms show ?thesis by (auto simp: isize_gcd_def)
next
  case False
  then have pos: "0 < \<bar>a\<bar>" "0 < \<bar>b\<bar>" by auto
  from halve_both_total [OF pos, of 0] obtain m1 m2 k where
    m: "halve_both \<bar>a\<bar> \<bar>b\<bar> 0 = Some (m1, m2, k)" "\<bar>a\<bar> = m1 * 2 ^ k" "\<bar>b\<bar> = m2 * 2 ^ k"
      "odd m1 \<or> odd m2" "0 < m1" "0 < m2" by auto
  from halve_total [OF m(5)] obtain h j where
    h: "halve m1 = Some h" "m1 = h * 2 ^ j" "odd h" "0 < h" by blast
  have "gcd h m2 = gcd m1 m2"
  proof (cases "odd m1")
    case True
    with h have "j = 0" by (cases j) auto
    with h show ?thesis by simp
  next
    case False
    with m(4) have "odd m2" by simp
    from gcd_odd_shift [OF this, of h j] h(2) show ?thesis by (metis gcd.commute)
  qed
  with gcd_loop_total [OF h(3,4) m(6)] have loop: "gcd_loop h m2 = Some (gcd m1 m2)" by simp
  have "gcd a b = gcd \<bar>a\<bar> \<bar>b\<bar>" by simp
  also have "\<dots> = gcd m1 m2 * 2 ^ k" unfolding m(2,3) by (simp add: gcd_mult_right gcd.commute)
  finally have g: "gcd a b = gcd m1 m2 * 2 ^ k" .
  have "gcd a b \<le> \<bar>a\<bar>" using False by (intro zdvd_imp_le) auto
  then have "0 \<le> gcd a b" "gcd a b < 2 ^ 63" using assms by auto
  moreover from this have "- (2 ^ 63) \<le> gcd a b" by linarith
  ultimately have "sint (word_of_int (gcd a b) :: 64 word) = gcd a b"
    using signed_take_bit_int_eq_self [of 63 "gcd a b"] by (simp add: sint_sbintrunc')
  moreover have "i64_checked \<bar>a\<bar> = Some \<bar>a\<bar>" "i64_checked \<bar>b\<bar> = Some \<bar>b\<bar>" using assms by auto
  ultimately show ?thesis
    using False m(1) h(1) loop g by (simp add: isize_gcd_def push_bit_eq_mult del: i64_checked_cases)
qed

context exact_numbers
begin

lemma pow_loop_total:
  assumes "1 \<le> pw"
  shows "pow_loop E n pw oddand = Some (n ^ nat pw * oddand)"
  using assms
proof (induction "nat pw" arbitrary: n pw oddand rule: less_induct)
  case less
  show ?case
  proof (cases "pw > 1")
    case True
    have "1 \<le> pw div 2" "nat (pw div 2) < nat pw" using True by auto
    note ih = less.hyps [OF this(2,1)]
    have "nat pw = 2 * nat (pw div 2) + (if odd pw then 1 else 0)"
    proof (cases "even pw")
      case True
      then show ?thesis by (auto elim!: evenE)
    next
      case False
      then obtain q where "pw = 2 * q + 1" by (elim oddE)
      with \<open>pw > 1\<close> show ?thesis by (simp add: nat_add_distrib nat_mult_distrib)
    qed
    then have "n ^ nat pw = (n ^ 2) ^ nat (pw div 2) * (if odd pw then n else 1)"
      by (cases "odd pw") (simp_all add: power_mult power_add)
    with True ih show ?thesis by (cases "odd pw") (simp_all add: pow_loop.simps [of E n] drop_bit_1 [unfolded One_nat_def] mult_ac)
  next
    case False
    with less.prems have "pw = 1" by simp
    then show ?thesis by (simp add: pow_loop.simps [of E n])
  qed
qed

lemma binary_pow_total: "binary_pow E n pw = Some (n ^ nat \<bar>pw\<bar>)"
  using pow_loop_total [of "\<bar>pw\<bar>" n 1] by (cases "pw = 0") (auto simp: binary_pow_def)

end

section \<open>Powers, common divisors and shifts\<close>

lemma push_bit_checked: "checked_signed_shl x k = Some r \<Longrightarrow> r = push_bit k x"
proof (induction x k arbitrary: r rule: checked_signed_shl.induct)
  case (1 x k)
  then show ?case
    by (subst (asm) (2) checked_signed_shl.simps)
       (auto simp: bind_eq_Some_conv push_bit_eq_mult split: if_splits)
qed

context exact_numbers
begin

lemma int_pow_int:
  assumes "int_of n1 = Some a" and "int_of n2 = Some b" and "0 \<le> b \<or> a = 1 \<or> a = - 1"
  shows "\<exists>r. int_pow E n1 n2 = Some r \<and> yields r (a ^ nat \<bar>b\<bar>)"
proof -
  have "\<not> (a = 0 \<and> b < 0)" "\<not> no_integer_power a b" using assms(3) by (auto simp: no_integer_power_def)
  moreover have "checked_pow a b = Some r \<Longrightarrow> r = a ^ nat \<bar>b\<bar>" for r
    by (auto simp: checked_pow_def split: if_splits)
  ultimately show ?thesis
    using assms(1,2)
    by (auto elim!: int_of_cases simp: int_pow_def binary_pow_total split: option.splits)
qed

lemma gcd_int:
  assumes "int_of n1 = Some a" and "int_of n2 = Some b" and "a \<noteq> 0 \<or> b \<noteq> 0"
  shows "\<exists>r. gcd_num E n1 n2 = Some r \<and> yields r (gcd a b)"
proof -
  have "isize_gcd (get_num f) (get_num g) = Some (Some (gcd (get_num f) (get_num g)))" for f g
    using get_num_i64 [of f] get_num_i64 [of g] by (intro isize_gcd_total) auto
  with assms show ?thesis
    by (auto elim!: int_of_cases simp: gcd_num_def gcd.commute)
qed

lemma shl_by_int: "int_of n = Some a \<Longrightarrow> yields (shl_by E n k) (push_bit k a)"
  by (auto elim!: int_of_cases simp: shl_by_def split: option.splits dest: push_bit_checked)

lemma to_usize_small: "0 \<le> b \<Longrightarrow> b \<le> usize_MAX \<Longrightarrow> to_usize b = nat b"
  by (simp add: to_usize_def)

lemma shl_body_int:
  assumes "int_of n1 = Some a" and "int_of n2 = Some b" and "0 \<le> b" and "b \<le> usize_MAX"
  shows "yields (shl_body E n1 n2) (push_bit (nat b) a)"
  using assms shl_by_int [OF assms(1)]
  by (auto elim!: int_of_cases [of n2] simp: shl_body_def to_usize_small)

lemma checked_shr_value:
  assumes "0 \<le> b" and "0 \<le> get_num f \<or> b < 64"
  shows "(case checked_shr (get_num f) (to_u32 b) of Some v \<Rightarrow> v | None \<Rightarrow> 0) = drop_bit (nat b) (get_num f)"
proof (cases "b < 64")
  case True
  then have "to_u32 b = nat b" using assms(1) by (simp add: to_u32_def u32_MAX_def)
  moreover have "nat b < 64" using True assms(1) by (simp add: nat_less_iff)
  ultimately show ?thesis by (simp add: checked_shr_def)
next
  case False
  then have "\<not> to_u32 b < 64" using assms(1) by (simp add: to_u32_def u32_MAX_def nat_less_iff)
  moreover have "drop_bit (nat b) (get_num f) = 0"
  proof -
    have "(2::int) ^ 64 \<le> 2 ^ nat b" using False by (intro power_increasing) auto
    then have "get_num f < 2 ^ nat b" using get_num_i64 [of f] by simp
    with False assms(2) show ?thesis by (simp add: drop_bit_eq_div)
  qed
  ultimately show ?thesis by (simp add: checked_shr_def)
qed

lemma shr_body_int:
  assumes "int_of n1 = Some a" and "int_of n2 = Some b" and "0 \<le> b" and "b \<le> usize_MAX"
    and "0 \<le> a \<or> b < 64 \<or> n1 = NInteger a"
  shows "yields (shr_body E n1 n2) (drop_bit (nat b) a)"
  using assms
  by (auto elim!: int_of_cases simp: shr_body_def to_usize_small checked_shr_value)

lemma shr_body_lost:
  assumes "int_of n1 = Some a" and "int_of n2 = Some b" and "0 \<le> b" and "\<not> (0 \<le> a \<or> b < 64 \<or> n1 = NInteger a)"
  shows "yields (shr_body E n1 n2) 0"
proof -
  have "\<not> to_u32 b < 64" using assms(4) by (simp add: to_u32_def u32_MAX_def nat_less_iff)
  then show ?thesis using assms by (auto elim!: int_of_cases simp: shr_body_def checked_shr_def)
qed

lemma shr_body_yields:
  assumes "int_of n1 = Some a" and "int_of n2 = Some b" and "0 \<le> b" and "b \<le> usize_MAX"
  shows "yields (shr_body E n1 n2) (shifted_right n1 a b)"
  using shr_body_int [OF assms] shr_body_lost [OF assms(1-3)] by (auto simp: shifted_right_def drop_bit_eq_div)

lemma neg_nonneg: "int_of n = Some b \<Longrightarrow> b < 0 \<Longrightarrow> \<not> (num_is_integer (neg E n) \<and> num_is_negative (neg E n))"
  using neg_int [of n b] by (auto elim!: int_of_cases)

lemma is_negative_int: "int_of n = Some b \<Longrightarrow> num_is_integer n \<and> (num_is_negative n \<longleftrightarrow> b < 0)"
  by (auto elim!: int_of_cases)

lemma shift_num_int:
  assumes "int_of n2 = Some b"
  shows "shift_num left E n1 n2 =
    Some (if b < 0 then (if left then shr_body E n1 (neg E n2) else shl_body E n1 (neg E n2))
          else (if left then shl_body E n1 n2 else shr_body E n1 n2))"
  using is_negative_int [OF assms] neg_nonneg [OF assms]
  by (auto simp: shift_num.simps [of left] shift_num.simps [of "\<not> left"])

end

section \<open>Well-formed numbers\<close>

text \<open>Small integers carry the tag of small integers and floats are finite.\<close>

fun num_ok :: "Number \<Rightarrow> bool" where
  "num_ok (NFixnum f) = (ftag f = TagFixnum)"
| "num_ok (NFloat f) = is_finite f"
| "num_ok _ = True"

definition ok_result :: "'e + Number \<Rightarrow> bool" where
  "ok_result r \<longleftrightarrow> (\<forall>n. r = Inr n \<longrightarrow> num_ok n)"

definition ok_float :: "'e + f64 \<Rightarrow> bool" where
  "ok_float r \<longleftrightarrow> (\<forall>f. r = Inr f \<longrightarrow> is_finite f)"

lemma ok_result_simps [simp]:
  "ok_result (Inl e)" "ok_result (Inr n) = num_ok n" "ok_float (Inl e)" "ok_float (Inr f) = is_finite f"
  by (simp_all add: ok_result_def ok_float_def)

lemma ok_result_map [simp]: "ok_result (map_sum id NFloat r) = ok_float r"
  by (cases r) simp_all

lemma ok_try [simp]:
  "ok_result (try_numeric_result r st) = ok_result r" "ok_float (try_numeric_result r' st) = ok_float r'"
  by (cases r; simp add: try_numeric_result_def) (cases r'; simp add: try_numeric_result_def)

lemma ok_and_then:
  "ok_float r \<Longrightarrow> (\<And>f. is_finite f \<Longrightarrow> ok_result (g f)) \<Longrightarrow> ok_result (and_then r g)"
  "ok_float r \<Longrightarrow> (\<And>f. is_finite f \<Longrightarrow> ok_float (h f)) \<Longrightarrow> ok_float (and_then r h)"
  by (cases r; simp)+

lemma num_ok_from [simp]:
  "num_ok (from_i64 i)" "num_ok (from_integer i)" "num_ok (from_rational q)" "num_ok (from_i32 i)"
  by (auto simp: from_i64_def from_integer_def from_rational_def from_i32_def build_with_checked_Some
      build_with_unchecked_def split: option.splits)

lemma f64_MAX_fields: "f_exp f64_MAX = 2046" "f_man f64_MAX = 2 ^ 52 - 1" "\<not> is_sign_negative f64_MAX"
  using float_fields [of "2046 * 2 ^ 52 + (2 ^ 52 - 1)" False] by (simp_all add: f64_MAX_def)

lemma f_neg_fields [simp]:
  "f_exp (f_neg x) = f_exp x" "f_man (f_neg x) = f_man x"
  "is_sign_negative (f_neg x) = (\<not> is_sign_negative x)"
proof -
  have m: "(0x8000000000000000 :: f64) = push_bit 63 1" by (simp add: push_bit_eq_mult)
  have bit: "bit (f_neg x) i = (bit x i \<noteq> (i = 63))" for i
    unfolding f_neg_def m bit_xor_iff bit_push_bit_iff bit_1_iff by auto
  have "take_bit 11 (drop_bit 52 (f_neg x)) = take_bit 11 (drop_bit 52 x)"
    by (rule bit_eqI) (auto simp: bit_take_bit_iff bit_drop_bit_eq bit)
  then show "f_exp (f_neg x) = f_exp x" by (simp add: f_exp_def)
  have "take_bit 52 (f_neg x) = take_bit 52 x" by (rule bit_eqI) (auto simp: bit_take_bit_iff bit)
  then show "f_man (f_neg x) = f_man x" by (simp add: f_man_def)
  show "is_sign_negative (f_neg x) = (\<not> is_sign_negative x)" by (simp add: is_sign_negative_def bit)
qed

lemma f_abs_fields [simp]:
  "f_exp (f_abs x) = f_exp x" "f_man (f_abs x) = f_man x" "\<not> is_sign_negative (f_abs x)"
proof -
  have m: "(0x7FFFFFFFFFFFFFFF :: f64) = mask 63" by (simp add: mask_eq_exp_minus_1)
  have bit: "bit (f_abs x) i = (bit x i \<and> i < 63)" for i
    unfolding f_abs_def m bit_and_iff bit_mask_iff by auto
  have "take_bit 11 (drop_bit 52 (f_abs x)) = take_bit 11 (drop_bit 52 x)"
    by (rule bit_eqI) (auto simp: bit_take_bit_iff bit_drop_bit_eq bit)
  then show "f_exp (f_abs x) = f_exp x" by (simp add: f_exp_def)
  have "take_bit 52 (f_abs x) = take_bit 52 x" by (rule bit_eqI) (auto simp: bit_take_bit_iff bit)
  then show "f_man (f_abs x) = f_man x" by (simp add: f_man_def)
  show "\<not> is_sign_negative (f_abs x)" by (simp add: is_sign_negative_def bit)
qed

lemma f_of_int_small: "\<bar>i\<bar> \<le> 2 ^ 53 \<Longrightarrow> is_finite (f_of_int i) \<and> f_units (f_of_int i) = i * one_units"
proof -
  assume "\<bar>i\<bar> \<le> 2 ^ 53"
  then have "nat \<bar>i\<bar> \<le> 2 ^ 53" by simp
  then have "representable (nat (\<bar>i\<bar> * one_units))"
    unfolding nat_abs_one_units by (rule representable_shift)
  from f_units_of_int [OF this] show ?thesis by simp
qed

context exact_numbers
begin

lemma classify_float_Inr: "classify_float E f = Inr g \<Longrightarrow> g = f \<and> is_finite f"
proof -
  assume c: "classify_float E f = Inr g"
  show ?thesis
  proof (cases "f_exp f = 2047 \<and> f_man f = 0")
    case True
    then have "f_magnitude f = 2 ^ 52 * 2 ^ 2046" by (simp add: f_magnitude_def)
    moreover have "f_magnitude f64_MAX = (2 ^ 53 - 1) * 2 ^ 2045"
      by (simp add: f_magnitude_def f64_MAX_fields)
    ultimately have "f_units f \<noteq> f_units f64_MAX" by (simp add: f_units_def f64_MAX_fields)
    with True have "\<not> of_eq E f f64_MAX"
      by (simp add: of_eq_def of_cmp_law is_nan_def f64_MAX_fields cmp_of_def)
    with True c show ?thesis by (simp add: classify_float_def classify_def)
  next
    case False
    with c show ?thesis
      by (auto simp: classify_float_def classify_def is_finite_def split: if_splits)
  qed
qed

lemma ok_classify [simp]: "ok_float (classify_float E f)"
  by (auto simp: ok_float_def dest: classify_float_Inr)

lemma ok_floats [simp]:
  "ok_float (result_f E n)" "ok_float (float_fn_to_f E i)" "ok_float (float_i_to_f E i)"
  "ok_float (float_r_to_f E q)" "ok_float (add_f E f1 f2)" "ok_float (mul_f E f1 f2)"
  "ok_float (div_f E f1 f2)" "ok_float (float_of_num E n)" "ok_float (unary_float_fn_template E n g)"
  by (simp_all add: result_f_def float_fn_to_f_def float_i_to_f_def float_r_to_f_def add_f_def mul_f_def
      div_f_def float_of_num_def unary_float_fn_template_def Let_def ok_and_then)

lemma ok_div_operand: "num_ok n \<Longrightarrow> ok_float (div_operand E n)"
  by (cases n) simp_all

lemma ok_add: "ok_result (add E n1 n2)"
  by (cases n1; cases n2) (auto intro!: ok_and_then split: option.splits)

lemma ok_mul: "ok_result (mul E n1 n2)"
  by (cases n1; cases n2) (auto intro!: ok_and_then split: option.splits)

lemma ok_neg: "num_ok n \<Longrightarrow> num_ok (neg E n)"
  by (cases n) (auto simp: is_finite_def split: option.splits)

lemma ok_abs: "num_ok n \<Longrightarrow> num_ok (abs_num E n)"
  by (cases n) (auto simp: is_finite_def checked_abs_def build_with_checked_Some build_with_unchecked_def
      split: option.splits)

lemma ok_div: "num_ok n1 \<Longrightarrow> num_ok n2 \<Longrightarrow> ok_result (div_num E n1 n2)"
  by (auto simp: div_num_def num_div_def Let_def intro!: ok_and_then ok_div_operand)

lemma ok_pow: "ok_result (pow_num E n1 n2 c)"
  by (auto simp: pow_num_def float_pow_def Let_def intro!: ok_and_then)

end

section \<open>Rounding floats to integers\<close>

lemma bit_length_eq: "2 ^ k \<le> n \<Longrightarrow> n < 2 ^ Suc k \<Longrightarrow> bit_length n = Suc k"
proof -
  assume n: "2 ^ k \<le> n" "n < 2 ^ Suc k"
  then have "0 < n" by (metis not_gr0 not_less zero_less_numeral zero_less_power)
  note b = bit_length_bounds [OF this]
  have "(2::nat) ^ k < 2 ^ bit_length n" using n(1) b by linarith
  then have "k < bit_length n" by simp
  moreover have "bit_length n \<le> Suc k" using n(2) by (rule bit_length_le)
  ultimately show ?thesis by simp
qed

lemma f_round_units_carry:
  assumes "bit_length n - 53 = s" and "2 ^ s = 4 * u" and "n = (2 ^ 55 - 1) * u" and "0 < u" and "s < 2000"
  shows "f_round_units n 1 = s * 2 ^ 52 + 2 ^ 53"
proof -
  have "n div (4 * u) = (2 ^ 55 - 1) div 4" "n mod (4 * u) = (2 ^ 55 - 1) mod 4 * u"
    unfolding assms(3) using assms(4) by (simp_all only: div_mult_mult2 mod_mult_mult2 neq0_conv simp_thms)
  then have "n div (1 * 2 ^ s) = 2 ^ 53 - 1" "n mod (1 * 2 ^ s) = 3 * u"
    by (simp_all add: assms(2))
  with assms show ?thesis by (simp add: f_round_units_def Let_def)
qed

text \<open>The largest small integer is not a float: it is rounded up to the next power of two.\<close>

lemma FIXNUM_TO_F:
  "is_finite FIXNUM_MIN_TO_F" "f_units FIXNUM_MIN_TO_F = - (2 ^ 55) * one_units"
  "is_finite FIXNUM_MAX_TO_F" "f_units FIXNUM_MAX_TO_F = 2 ^ 55 * one_units"
proof -
  have "representable (nat (\<bar>Fixnum_MIN\<bar> * one_units))"
    unfolding representable_def
    by (intro exI [of _ 1] exI [of _ 1129]) (simp add: Fixnum_MIN_def one_units_def)
  from f_units_of_int [OF this]
  show "is_finite FIXNUM_MIN_TO_F" "f_units FIXNUM_MIN_TO_F = - (2 ^ 55) * one_units"
    by (simp_all add: FIXNUM_MIN_TO_F_def Fixnum_MIN_def)
  let ?n = "(2 ^ 55 - 1) * 2 ^ 1074 :: nat"
  have "bit_length ?n = Suc 1128" by (rule bit_length_eq) simp_all
  then have "f_round_units ?n 1 = 1076 * 2 ^ 52 + 2 ^ 53"
    by (intro f_round_units_carry [where u = "2 ^ 1074"]) simp_all
  then have w: "f_round_units ?n 1 = 1078 * 2 ^ 52" by simp
  have x: "FIXNUM_MAX_TO_F = f_round False ?n 1"
    by (simp add: FIXNUM_MAX_TO_F_def f_of_int_def Fixnum_MAX_def one_units_def)
  note ff = float_fields [of "1078 * 2 ^ 52" False]
  show "is_finite FIXNUM_MAX_TO_F"
    unfolding x f_round_def w using ff(1) by (simp add: is_finite_def)
  show "f_units FIXNUM_MAX_TO_F = 2 ^ 55 * one_units"
    unfolding x f_round_def w f_units_def one_units_def using ff(3,4) by (simp add: field_magnitude_def)
qed

lemma is_finite_not_nan: "is_finite x \<Longrightarrow> \<not> is_nan x"
  by (simp add: is_finite_def is_nan_def)

lemma f_as_i64_integral:
  assumes "is_finite x" and "f_units x = i * one_units" and "\<bar>i\<bar> < 2 ^ 63"
  shows "f_as_i64 x = i"
proof -
  have "f_trunc_int x = i"
  proof (cases "is_sign_negative x")
    case True
    with assms(2) have "int (f_magnitude x) = (- i) * one_units" by (simp add: f_units_def)
    then have "int (f_magnitude x) div one_units = - i"
      using one_units_pos by (metis less_irrefl nonzero_mult_div_cancel_right)
    with True show ?thesis by (simp add: f_trunc_int_def)
  next
    case False
    with assms(2) one_units_pos show ?thesis by (simp add: f_trunc_int_def f_units_def)
  qed
  with assms(1,3) show ?thesis by (auto simp: f_as_i64_def is_finite_not_nan)
qed

context exact_numbers
begin

lemma of_le_finite: "is_finite x \<Longrightarrow> is_finite y \<Longrightarrow> of_le E x y \<longleftrightarrow> f_units x \<le> f_units y"
  by (auto simp: of_le_def of_cmp_law is_finite_not_nan cmp_of_def)

lemma rnd_i_float:
  assumes "is_finite f"
  defines "i \<equiv> f_units f div one_units"
  shows "rnd_i E (NFloat f) =
    Done (Inr (if - (2 ^ 55) \<le> i \<and> i \<le> 2 ^ 55 then NFixnum (build_with_unchecked i) else NInteger i))"
proof -
  have fl: "is_finite (f_floor f)" "f_units (f_floor f) = i * one_units"
    using f_floor_value [OF assms(1)] by (simp_all add: i_def)
  have range: "of_le E FIXNUM_MIN_TO_F (f_floor f) \<and> of_le E (f_floor f) FIXNUM_MAX_TO_F \<longleftrightarrow>
      - (2 ^ 55) \<le> i \<and> i \<le> 2 ^ 55"
  proof -
    have "- (2 ^ 55) * one_units \<le> i * one_units \<longleftrightarrow> - (2 ^ 55) \<le> i"
      using one_units_pos by (rule mult_le_cancel_right_pos)
    moreover have "i * one_units \<le> 2 ^ 55 * one_units \<longleftrightarrow> i \<le> 2 ^ 55"
      using one_units_pos by (rule mult_le_cancel_right_pos)
    ultimately show ?thesis using fl FIXNUM_TO_F by (simp only: of_le_finite)
  qed
  show ?thesis
  proof (cases "- (2 ^ 55) \<le> i \<and> i \<le> 2 ^ 55")
    case True
    then have "f_as_i64 (f_floor f) = i" by (intro f_as_i64_integral fl) auto
    with True range show ?thesis by (simp add: rnd_i_def Let_def)
  next
    case False
    have "classify_float E (f_floor f) = Inr (f_floor f)"
      using fl(1) by (auto simp: classify_float_def classify_def is_finite_def)
    moreover have "i_of_f64 E (f_floor f) = Some i"
      using of_f64_law [of "f_floor f"] fl one_units_pos by simp
    ultimately show ?thesis using False range by (auto simp: rnd_i_def Let_def)
  qed
qed

end

section \<open>Order\<close>

text \<open>The rational an exact number stands for.\<close>

fun rat_of :: "Number \<Rightarrow> rat option" where
  "rat_of (NFixnum n) = Some (of_int (get_num n))"
| "rat_of (NInteger i) = Some (of_int i)"
| "rat_of (NRational r) = Some r"
| "rat_of (NFloat f) = None"

lemma cmp_of_of_int [simp]: "cmp_of (of_int a) (of_int b :: rat) = cmp_of a b"
  by (simp add: cmp_of_def)

lemma num_cmp_exact:
  assumes "rat_of n1 = Some p" and "rat_of n2 = Some q"
  shows "num_cmp E n1 n2 = cmp_of p q"
  using assms by (cases n1; cases n2) auto

lemma fixnum_eq_iff: "ftag f = ftag g \<Longrightarrow> f = g \<longleftrightarrow> get_num f = get_num g"
  by (cases f; cases g) (auto simp: get_num_def dest: signed_word_eqI)

lemma num_eq_exact:
  assumes "rat_of n1 = Some p" and "rat_of n2 = Some q" and "num_ok n1" and "num_ok n2"
  shows "num_eq E n1 n2 \<longleftrightarrow> p = q"
  using assms by (cases n1; cases n2) (auto simp: fixnum_eq_iff)

section \<open>An environment that keeps the promises\<close>

definition exact_env :: num_env where
  "exact_env =
     \<lparr>i_add = (+), i_mul = (*), i_neg = uminus, i_abs = abs, i_div = (\<lambda>a b. a sdiv b), i_rem = (\<lambda>a b. a smod b),
      i_and = and, i_or = or, i_xor = xor, i_not = not, i_shl = (\<lambda>a k. push_bit k a),
      i_shr = (\<lambda>a k. drop_bit k a), i_pow = (^), i_gcd = gcd, i_bit0 = odd, ring_residue = (\<lambda>m a. a mod m),
      i_to_f64 = f_of_int,
      i_of_f64 = (\<lambda>x. if is_finite x \<and> one_units dvd f_units x then Some (f_units x div one_units) else None),
      r_add = (+), r_mul = (*), r_div = (/), r_neg = uminus, r_abs = abs, r_floor = floor,
      r_round = (\<lambda>r. if r < 0 then - \<lfloor>- r + 1 / 2\<rfloor> else \<lfloor>r + 1 / 2\<rfloor>),
      r_to_f64 = (\<lambda>r. case quotient_of r of (n, d) \<Rightarrow> f_round (n < 0) (nat \<bar>n\<bar> * 2 ^ 1074) (nat d)),
      r_of_f64 = (\<lambda>x. if is_finite x then Some (of_int (f_units x) / of_int one_units) else None),
      rem_floor = (mod),
      of_cmp = (\<lambda>x y. if is_nan x then (if is_nan y then Equal else Greater)
                 else if is_nan y then Less else cmp_of (f_units x) (f_units y)),
      f_powf = f_mul, f_atan2 = f_div, f_log = f_div, f_sin = id, f_cos = id, f_tan = id, f_exponential = id,
      f_asin = id, f_acos = id, f_atan = id, f_sqrt = id\<rparr>"

interpretation exact: exact_numbers exact_env
  by unfold_locales (simp_all add: exact_env_def)

section \<open>Rounding and well-formedness of all operations\<close>

lemma f_units_neg [simp]: "f_units (f_neg f) = - f_units f"
  by (simp add: f_units_def f_magnitude_def)

lemma f_units_abs [simp]: "f_units (f_abs f) = \<bar>f_units f\<bar>"
  by (simp add: f_units_def f_magnitude_def)

lemma is_finite_neg_abs [simp]: "is_finite (f_neg f) = is_finite f" "is_finite (f_abs f) = is_finite f"
  by (simp_all add: is_finite_def)

lemma is_finite_f_integral_part:
  assumes "is_finite f" and "\<bar>i\<bar> \<le> int (f_magnitude f) div one_units + 1"
    and "one_units dvd int (f_magnitude f) \<Longrightarrow> \<bar>i\<bar> * one_units = int (f_magnitude f)"
  shows "is_finite (f_integral sg i)"
  using f_units_integral(1) [OF representable_integral_part [OF assms]] .

lemma round_half_bounds:
  fixes m u :: int
  assumes "0 < u" and "0 \<le> m"
  shows "0 \<le> (2 * m + u) div (2 * u)" "(2 * m + u) div (2 * u) \<le> m div u + 1"
    "u dvd m \<Longrightarrow> (2 * m + u) div (2 * u) * u = m"
proof -
  show "0 \<le> (2 * m + u) div (2 * u)" using assms by (simp add: pos_imp_zdiv_nonneg_iff)
  have "m div u * u + m mod u = m" by (rule div_mult_mod_eq)
  moreover have "m mod u < u" using assms(1) by simp
  ultimately have "m < m div u * u + u" by linarith
  then have "m < (m div u + 1) * u" by (simp add: distrib_right)
  then have "2 * m + u < (m div u + 2) * (2 * u)" using assms(1) by (simp add: algebra_simps)
  with assms(1) show "(2 * m + u) div (2 * u) \<le> m div u + 1"
    using div_less_of_less_mult [of "2 * u" "2 * m + u" "m div u + 2"] by simp
  assume "u dvd m"
  then obtain k where k: "m = u * k" by (elim dvdE)
  have "(2 * m + u) div (2 * u) = k"
    unfolding k using assms(1) by (intro int_div_pos_eq [where r = u]) (simp_all add: algebra_simps)
  then show "(2 * m + u) div (2 * u) * u = m" by (simp add: k)
qed

lemma is_finite_round_half: "is_finite f \<Longrightarrow> is_finite (f_round_half f)"
proof -
  assume f: "is_finite f"
  let ?i = "(2 * int (f_magnitude f) + one_units) div (2 * one_units)"
  have "is_finite (f_integral sg i)" if "\<bar>i\<bar> = ?i" for sg i
    using round_half_bounds [OF one_units_pos, of "int (f_magnitude f)"] that
    by (intro is_finite_f_integral_part [OF f]) auto
  with round_half_bounds(1) [OF one_units_pos, of "int (f_magnitude f)"] f show ?thesis
    by (simp add: f_round_half_def Let_def)
qed

context exact_numbers
begin

lemma rnd_i_ok: "num_ok n \<Longrightarrow> \<exists>m. rnd_i E n = Done (Inr m) \<and> num_ok m"
proof (cases n)
  case (NFloat f)
  assume "num_ok n"
  with NFloat have "is_finite f" by simp
  from rnd_i_float [OF this] NFloat show ?thesis by (auto simp: build_with_unchecked_def)
qed (auto simp: rnd_i_def build_with_checked_Some build_with_unchecked_def split: option.splits)

lemma floor_ok: "num_ok n \<Longrightarrow> \<exists>m. floor_num E n = Done (Inr m) \<and> num_ok m"
  using rnd_i_ok [of n] by (auto simp: floor_num_def)

lemma ceiling_ok: "num_ok n \<Longrightarrow> \<exists>m. ceiling_num E n = Done (Inr m) \<and> num_ok m"
  using floor_ok [OF ok_neg [of n]] by (auto simp: ceiling_num_def map_done_def ok_neg)

lemma truncate_ok: "num_ok n \<Longrightarrow> \<exists>m. truncate_num E n = Done (Inr m) \<and> num_ok m"
  using floor_ok [OF ok_abs [of n]] floor_ok [of n] by (auto simp: truncate_num_def map_done_def ok_neg)

lemma round_ok: "num_ok n \<Longrightarrow> \<exists>m. round_num E n = Done (Inr m) \<and> num_ok m"
proof -
  assume n: "num_ok n"
  let ?res = "case n of NFixnum _ \<Rightarrow> n | NInteger _ \<Rightarrow> n | NRational r \<Rightarrow> from_integer (r_round E r)
    | NFloat f \<Rightarrow> NFloat (f_round_half f)"
  have "num_ok ?res" using n by (cases n) (simp_all add: is_finite_round_half)
  from rnd_i_ok [OF this] show ?thesis by (auto simp: round_num_def Let_def try_numeric_result_def)
qed

lemma ok_max_min: "num_ok n1 \<Longrightarrow> num_ok n2 \<Longrightarrow> ok_result (max_num E n1 n2) \<and> ok_result (min_num E n1 n2)"
  by (cases n1; cases n2)
     (auto simp: max_num_def min_num_def Let_def intro!: ok_and_then split: ordering.splits)

lemma ok_int_pow: "int_pow E n1 n2 = Some r \<Longrightarrow> ok_result r"
  by (cases n1; cases n2)
     (auto simp: int_pow_def Let_def intro!: ok_and_then split: if_splits option.splits)

lemma ok_integer_ops:
  "ok_result (idiv E n1 n2)" "ok_result (modulus E n1 n2)" "ok_result (remainder E n1 n2)"
  "ok_result (and_num E n1 n2)" "ok_result (or_num E n1 n2)" "ok_result (xor_num E n1 n2)"
  by (cases n1; cases n2; auto simp: idiv_def modulus_def remainder_def and_num_def or_num_def xor_num_def
      Let_def split: option.splits)+

lemma ok_int_floor_div: "ok_result (int_floor_div E n1 n2)"
proof (cases "modulus E n1 n2")
  case (Inr m)
  then show ?thesis
    by (cases "sub E n1 m") (simp_all add: int_floor_div_def try_numeric_result_def ok_integer_ops)
qed (simp add: int_floor_div_def)

end

lemma float_is_negative: "is_finite f \<Longrightarrow> num_is_negative (NFloat f) \<longleftrightarrow> f_units f < 0"
proof -
  assume "is_finite f"
  then have "f_eq f (f_zero True) \<longleftrightarrow> f_units f = 0" by (simp add: f_eq_def is_finite_not_nan)
  moreover have "f_units f < 0 \<longleftrightarrow> is_sign_negative f \<and> f_units f \<noteq> 0" by (auto simp: f_units_def)
  ultimately show ?thesis by simp
qed

lemma sign_ok: "num_ok n \<Longrightarrow> num_ok (num_sign n)"
  using f_of_int_small [of 1] f_of_int_small [of "- 1"]
  by (cases n) (auto simp: num_sign_def f_signum_def is_finite_not_nan)

context exact_numbers
begin

lemma floor_float:
  assumes "is_finite f" and "f_units f div one_units \<noteq> 2 ^ 55"
  shows "\<exists>n. floor_num E (NFloat f) = Done (Inr n) \<and> int_of n = Some (f_units f div one_units)"
  using rnd_i_float [OF assms(1)] assms(2)
  by (auto simp: floor_num_def get_num_build_with_unchecked Fixnum_MIN_def Fixnum_MAX_def)

text \<open>The first integer beyond the small ones is taken for a small one and becomes the least of them.\<close>

lemma floor_any_float:
  assumes "is_finite f"
  shows "\<exists>n. floor_num E (NFloat f) = Done (Inr n) \<and>
    int_of n = Some (if f_units f div one_units = 2 ^ 55 then - (2 ^ 55) else f_units f div one_units)"
proof (cases "f_units f div one_units = 2 ^ 55")
  case True
  then show ?thesis using rnd_i_float [OF assms] by (simp add: floor_num_def get_num_def build_with_unchecked_def)
next
  case False
  then show ?thesis using floor_float [OF assms] by simp
qed

end

lemma f_round_units_tie:
  assumes "bit_length n - 53 = s" and "2 ^ s = 2 * u" and "n = (2 ^ 53 + d) * u" and "0 < u" and "s < 2000"
    and "d < 2"
  shows "f_round_units n 1 = s * 2 ^ 52 + 2 ^ 52"
proof -
  have "n div (2 * u) = (2 ^ 53 + d) div 2" "n mod (2 * u) = (2 ^ 53 + d) mod 2 * u"
    unfolding assms(3) using assms(4) by (simp_all only: div_mult_mult2 mod_mult_mult2 neq0_conv simp_thms)
  then have "n div (1 * 2 ^ s) = 2 ^ 52" "n mod (1 * 2 ^ s) = d * u"
    using assms(6) by (auto simp: assms(2) less_2_cases_iff)
  with assms show ?thesis by (simp add: f_round_units_def Let_def)
qed

lemma f_of_int_tie: "f_of_int (2 ^ 53 + 1) = f_of_int (2 ^ 53)"
proof -
  have "bit_length ((2 ^ 53 + 1) * 2 ^ 1074) = Suc 1127" "bit_length ((2 ^ 53 + 0) * 2 ^ 1074) = Suc 1127"
    by (rule bit_length_eq; simp)+
  then have "f_round_units ((2 ^ 53 + 1) * 2 ^ 1074) 1 = f_round_units ((2 ^ 53 + 0) * 2 ^ 1074) 1"
    using f_round_units_tie [of "(2 ^ 53 + 1) * 2 ^ 1074" 1075 "2 ^ 1074" 1]
      f_round_units_tie [of "(2 ^ 53 + 0) * 2 ^ 1074" 1075 "2 ^ 1074" 0] by simp
  then show ?thesis by (simp add: f_of_int_def f_round_def one_units_def)
qed

section \<open>Properties\<close>

lemma max_int:
  assumes "int_of n1 = Some a" and "int_of n2 = Some b"
  shows "yields (max_num E n1 n2) (max a b)"
  using assms by (auto elim!: int_of_cases simp: max_num_def)

lemma min_int:
  assumes "int_of n1 = Some a" and "int_of n2 = Some b"
  shows "yields (min_num E n1 n2) (min a b)"
  using assms by (auto elim!: int_of_cases simp: min_num_def)

lemma fixnum_value: "\<bar>i\<bar> \<le> 2 ^ 54 \<Longrightarrow> get_num (build_with_unchecked i) = i"
  by (rule get_num_build_with_unchecked) (auto simp: Fixnum_MIN_def Fixnum_MAX_def)

text \<open>
  C19: Sums, differences, products, negation, absolute value, maximum, minimum and the bitwise
  operations on integers return the exact integer, whichever of the two representations the operands
  have and also where the machine integers overflow.
\<close>
theorem integer_arithmetic_is_exact:
  assumes "exact_numbers E" and "int_of n1 = Some a" and "int_of n2 = Some b"
  shows "yields (add E n1 n2) (a + b) \<and> yields (sub E n1 n2) (a - b) \<and> yields (mul E n1 n2) (a * b) \<and>
    int_of (neg E n1) = Some (- a) \<and> int_of (abs_num E n1) = Some \<bar>a\<bar> \<and>
    yields (max_num E n1 n2) (max a b) \<and> yields (min_num E n1 n2) (min a b) \<and>
    yields (and_num E n1 n2) (a AND b) \<and> yields (or_num E n1 n2) (a OR b) \<and>
    yields (xor_num E n1 n2) (a XOR b) \<and> yields (bitwise_complement E n1) (NOT a)"
  using assms
  by (auto intro: exact_numbers.add_int exact_numbers.sub_int exact_numbers.mul_int exact_numbers.neg_int
      exact_numbers.abs_int exact_numbers.bits_int exact_numbers.complement_int max_int min_int)

theorem integer_arithmetic_is_exact_witness:
  "yields (mul exact_env (NFixnum (build_with_unchecked (2 ^ 54))) (NFixnum (build_with_unchecked (2 ^ 54))))
     (2 ^ 108)"
  using integer_arithmetic_is_exact [OF exact.exact_numbers_axioms,
    of "NFixnum (build_with_unchecked (2 ^ 54))" "2 ^ 54" "NFixnum (build_with_unchecked (2 ^ 54))" "2 ^ 54"]
  by (simp add: fixnum_value)

text \<open>
  C20: Integer division: \<open>//\<close> truncates, \<open>div\<close> rounds down, and \<open>rem\<close> and \<open>mod\<close> are
  the remainders of these two divisions, for every combination of signs and representations.
\<close>
theorem integer_division_is_exact:
  assumes "exact_numbers E" and "int_of n1 = Some a" and "int_of n2 = Some b" and "b \<noteq> 0"
  shows "yields (idiv E n1 n2) (a sdiv b) \<and> yields (remainder E n1 n2) (a smod b) \<and>
    yields (int_floor_div E n1 n2) (a div b) \<and> yields (modulus E n1 n2) (a mod b)"
  using assms by (auto intro: exact_numbers.idiv_int exact_numbers.remainder_int
      exact_numbers.int_floor_div_int exact_numbers.modulus_int)

theorem integer_division_is_exact_witness:
  "yields (int_floor_div exact_env (NInteger (- 7)) (NFixnum (build_with_unchecked 2))) (- 4) \<and>
   yields (idiv exact_env (NInteger (- 7)) (NFixnum (build_with_unchecked 2))) (- 3)"
  using integer_division_is_exact [OF exact.exact_numbers_axioms,
    of "NInteger (- 7)" "- 7" "NFixnum (build_with_unchecked 2)" 2]
  by (simp add: fixnum_value signed_divide_int_def)

text \<open>
  C21: The divisions \<open>//\<close>, \<open>rem\<close>, \<open>mod\<close>, \<open>div\<close> and the bitwise \<open>/\\<close>, \<open>\\/\<close>, \<open>xor\<close> on operands that are not
  both integers raise a type error for the first one that is not, and the divisions raise an evaluation error
  for a zero divisor; \<open>div\<close> names \<open>mod\<close> in its errors. The shifts and \<open>gcd\<close> choose the operand they report
  differently and are not covered.
\<close>
theorem integer_operation_errors:
  assumes "int_of n1 = None \<or> int_of n2 = None \<or> int_of n2 = Some 0"
  shows "let culprit = (\<lambda>name.
          if int_of n1 = None then TypeError VInteger n1 (functor_stub name 2)
          else if int_of n2 = None then TypeError VInteger n2 (functor_stub name 2)
          else EvaluationError ZeroDivisor (functor_stub name 2))
    in idiv E n1 n2 = Inl (culprit ''//'') \<and> remainder E n1 n2 = Inl (culprit ''rem'') \<and>
       modulus E n1 n2 = Inl (culprit ''mod'') \<and> int_floor_div E n1 n2 = Inl (culprit ''mod'') \<and>
       (int_of n1 = None \<or> int_of n2 = None \<longrightarrow>
          xor_num E n1 n2 = Inl (culprit ''xor'') \<and> and_num E n1 n2 = Inl (culprit [CHR ''/'', CHR 0x5C]) \<and>
          or_num E n1 n2 = Inl (culprit [CHR 0x5C, CHR ''/'']))"
  using assms
  by (cases n1; cases n2)
     (auto simp: Let_def idiv_def remainder_def modulus_def int_floor_div_def xor_num_def and_num_def or_num_def
       numerical_type_error_def zero_divisor_eval_error_def)

theorem integer_operation_errors_witness:
  "modulus exact_env (NInteger 5) (NInteger 0) = Inl (EvaluationError ZeroDivisor (functor_stub ''mod'' 2))"
  using integer_operation_errors [of "NInteger 5" "NInteger 0" exact_env] by (simp add: Let_def)

text \<open>
  C22: The binary algorithm of \<open>isize_gcd\<close> ends and returns the greatest common divisor of two
  machine integers, and so \<open>gcd\<close> is exact for all integers that are not both zero.
\<close>
theorem common_divisor_is_found:
  assumes "exact_numbers E" and "int_of n1 = Some a" and "int_of n2 = Some b" and "a \<noteq> 0 \<or> b \<noteq> 0"
    and "\<bar>x\<bar> < 2 ^ 63" and "\<bar>y\<bar> < 2 ^ 63"
  shows "isize_gcd x y = Some (Some (gcd x y)) \<and>
    (\<exists>r. gcd_num E n1 n2 = Some r \<and> yields r (gcd a b))"
  using assms by (auto intro: isize_gcd_total exact_numbers.gcd_int)

theorem common_divisor_is_found_witness:
  "isize_gcd 12 (- 18) = Some (Some 6)"
  using common_divisor_is_found [OF exact.exact_numbers_axioms, of "NInteger 1" 1 "NInteger 1" 1 12 "- 18"]
  by (simp add: gcd_non_0_int)

text \<open>
  C23: An integer to the power of a natural number is exact, by repeated multiplication of machine
  integers or, on overflow, by \<open>binary_pow\<close>, whose loop ends; to a negative power it is a type error
  for any base but -1, 0 and 1, and undefined for 0.
\<close>
theorem integer_power_is_exact:
  assumes "exact_numbers E" and "int_of n1 = Some a" and "int_of n2 = Some b"
  shows "if 0 \<le> b \<or> \<bar>a\<bar> = 1 then \<exists>r. int_pow E n1 n2 = Some r \<and> yields r (a ^ nat \<bar>b\<bar>)
    else if a = 0 then int_pow E n1 n2 = Some (Inl (EvaluationError Undefined (functor_stub ''is'' 2)))
    else int_pow E n1 n2 = Some (Inl (TypeError VFloat n1 (functor_stub ''^'' 2)))"
proof (cases "0 \<le> b \<or> \<bar>a\<bar> = 1")
  case True
  then have "0 \<le> b \<or> a = 1 \<or> a = - 1" by auto
  from exact_numbers.int_pow_int [OF assms this] True show ?thesis by simp
next
  case False
  then have "b < 0" "a \<noteq> 1" "a \<noteq> - 1" by auto
  with assms(2,3) show ?thesis
    by (auto elim!: int_of_cases simp: int_pow_def no_integer_power_def numerical_type_error_def
        undefined_eval_error_def Let_def)
qed

theorem integer_power_is_exact_witness:
  "\<exists>r. int_pow exact_env (NInteger 3) (NInteger 5) = Some r \<and> yields r 243"
  using integer_power_is_exact [OF exact.exact_numbers_axioms, of "NInteger 3" 3 "NInteger 5" 5] by simp

text \<open>
  C24: Shifts by at most the greatest machine word are exact but in one case: \<open><<\<close> multiplies by the power of two and
  \<open>>>\<close> divides by it, rounding down, a negative amount shifts the other way in both, and the case is a right
  shift of a negative small integer by 64 bits or more, which yields 0 instead of -1.
\<close>
theorem shifts_are_exact:
  assumes "exact_numbers E" and "int_of n1 = Some a" and "int_of n2 = Some b" and "0 \<le> b" and "b \<le> usize_MAX"
  shows "(\<exists>r. shl E n1 n2 = Some r \<and> yields r (a * 2 ^ nat b)) \<and>
    (\<exists>r. shr E n1 (neg E n2) = Some r \<and> yields r (a * 2 ^ nat b)) \<and>
    (let q = if 0 \<le> a \<or> b < 64 \<or> n1 = NInteger a then a div 2 ^ nat b else 0
     in (\<exists>r. shr E n1 n2 = Some r \<and> yields r q) \<and> (\<exists>r. shl E n1 (neg E n2) = Some r \<and> yields r q))"
proof -
  note ops = exact_numbers.shift_num_int [OF assms(1)] exact_numbers.neg_int [OF assms(1)]
    exact_numbers.shl_body_int [OF assms(1)] exact_numbers.shr_body_yields [OF assms(1)]
  have n: "int_of (neg E n2) = Some (- b)" "int_of (neg E (neg E n2)) = Some b" using ops(2) assms(3) by fastforce+
  have l: "\<exists>r. shl E n1 n2 = Some r \<and> yields r (a * 2 ^ nat b)"
    using ops(1) [OF assms(3), of True n1] ops(3) [OF assms(2-5)] assms(4) by (simp add: shl_def push_bit_eq_mult)
  have r: "\<exists>r. shr E n1 n2 = Some r \<and> yields r (shifted_right n1 a b)"
    using ops(1) [OF assms(3), of False n1] ops(4) [OF assms(2-5)] assms(4) by (simp add: shr_def)
  have "(\<exists>r. shr E n1 (neg E n2) = Some r \<and> yields r (a * 2 ^ nat b)) \<and>
      (\<exists>r. shl E n1 (neg E n2) = Some r \<and> yields r (shifted_right n1 a b))"
  proof (cases "b = 0")
    case True
    then show ?thesis
      using ops(1) [OF n(1), of _ n1] ops(3,4) [OF assms(2) n(1)] by (simp add: shr_def shl_def usize_MAX_def shifted_right_def)
  next
    case False
    then show ?thesis
      using ops(1) [OF n(1), of _ n1] ops(3,4) [OF assms(2) n(2) assms(4,5)] assms(4) by (simp add: shr_def shl_def push_bit_eq_mult)
  qed
  with l r show ?thesis by (simp add: shifted_right_def Let_def)
qed

theorem shifts_are_exact_witness:
  "\<exists>r. shl exact_env (NInteger (- 3)) (NInteger 70) = Some r \<and> yields r (- 3 * 2 ^ 70)"
  using shifts_are_exact [OF exact.exact_numbers_axioms, of "NInteger (- 3)" "- 3" "NInteger 70" 70]
  by (simp add: usize_MAX_def)

text \<open>
  C25: The operations keep numbers well-formed: from numbers whose floats are finite they return
  numbers whose floats are finite, never an infinity or a NaN, and rounding to an integer always
  returns, so that the panic of \<open>floor\<close> is never reached.
\<close>
theorem numbers_stay_well_formed:
  assumes "exact_numbers E" and "num_ok n1" and "num_ok n2"
  shows "ok_result (add E n1 n2) \<and> ok_result (sub E n1 n2) \<and> ok_result (mul E n1 n2) \<and>
    ok_result (div_num E n1 n2) \<and> ok_result (pow_num E n1 n2 c) \<and>
    (\<forall>r. int_pow E n1 n2 = Some r \<longrightarrow> ok_result r) \<and>
    ok_result (max_num E n1 n2) \<and> ok_result (min_num E n1 n2) \<and>
    ok_result (idiv E n1 n2) \<and> ok_result (int_floor_div E n1 n2) \<and>
    num_ok (neg E n1) \<and> num_ok (abs_num E n1) \<and> num_ok (num_sign n1) \<and>
    ok_float (sqrt_num E n1) \<and> ok_float (atan2 E n1 n2) \<and>
    (\<exists>m. floor_num E n1 = Done (Inr m) \<and> num_ok m) \<and> (\<exists>m. ceiling_num E n1 = Done (Inr m) \<and> num_ok m) \<and>
    (\<exists>m. truncate_num E n1 = Done (Inr m) \<and> num_ok m) \<and> (\<exists>m. round_num E n1 = Done (Inr m) \<and> num_ok m)"
  using assms sign_ok [OF assms(2)] exact_numbers.ok_max_min [OF assms]
  by (auto simp: sub_def sqrt_num_def atan2_def exact_numbers.ok_floats intro!: ok_and_then
      intro: exact_numbers.ok_add exact_numbers.ok_mul exact_numbers.ok_div exact_numbers.ok_pow
        exact_numbers.ok_int_pow exact_numbers.ok_integer_ops
        exact_numbers.ok_int_floor_div exact_numbers.ok_neg exact_numbers.ok_abs exact_numbers.floor_ok
        exact_numbers.ceiling_ok exact_numbers.truncate_ok exact_numbers.round_ok)

theorem numbers_stay_well_formed_witness:
  "\<exists>m. round_num exact_env (NFloat f64_MAX) = Done (Inr m) \<and> num_ok m"
  using numbers_stay_well_formed [OF exact.exact_numbers_axioms, of "NFloat f64_MAX" "NInteger 1"]
  by (simp add: is_finite_def f64_MAX_fields)

text \<open>
  C26: On integers and rationals, in any mixture of representations, \<open>cmp\<close> is the order of the
  values, \<open>eq\<close> is equality of the values, and both agree.
\<close>
theorem exact_numbers_are_ordered:
  assumes "rat_of n1 = Some p" and "rat_of n2 = Some q" and "num_ok n1" and "num_ok n2"
  shows "num_cmp E n1 n2 = cmp_of p q \<and> num_eq E n1 n2 = (p = q) \<and>
    (num_eq E n1 n2 \<longleftrightarrow> num_cmp E n1 n2 = Equal)"
  using num_cmp_exact [OF assms(1,2)] num_eq_exact [OF assms] by (auto simp: cmp_of_def)

theorem exact_numbers_are_ordered_witness:
  "num_cmp exact_env (NInteger 1) (NRational 2) = Less"
  using exact_numbers_are_ordered [of "NInteger 1" 1 "NRational 2" 2 exact_env] by (simp add: cmp_of_def)

text \<open>
  C27: Rounding a finite float: \<open>floor\<close>, \<open>ceiling\<close> and \<open>truncate\<close> return the greatest integer below, the least
  integer above and the integer part, but with the wrong sign where that integer is \<open>2 ^ 55\<close> (\<open>floor\<close>),
  \<open>- (2 ^ 55)\<close> (\<open>ceiling\<close>) or either of the two (\<open>truncate\<close>).
\<close>
theorem floats_are_rounded:
  assumes "exact_numbers E" and "is_finite f"
  shows "(let v = f_units f div one_units
      in \<exists>n. floor_num E (NFloat f) = Done (Inr n) \<and> int_of n = Some (if v = 2 ^ 55 then - v else v)) \<and>
    (let v = - (- f_units f div one_units)
      in \<exists>n. ceiling_num E (NFloat f) = Done (Inr n) \<and> int_of n = Some (if v = - (2 ^ 55) then - v else v)) \<and>
    (let v = f_units f sdiv one_units
      in \<exists>n. truncate_num E (NFloat f) = Done (Inr n) \<and> int_of n = Some (if \<bar>v\<bar> = 2 ^ 55 then - v else v))"
proof -
  note fl = exact_numbers.floor_any_float [OF assms(1)] and ng = exact_numbers.neg_int [OF assms(1)]
  have "\<exists>n. floor_num E (NFloat f) = Done (Inr n) \<and>
      int_of n = Some (if f_units f div one_units = 2 ^ 55 then - (f_units f div one_units) else f_units f div one_units)"
    using fl [OF assms(2)] by auto
  moreover have "\<exists>n. ceiling_num E (NFloat f) = Done (Inr n) \<and>
      int_of n = Some (if - (- f_units f div one_units) = - (2 ^ 55) then - (- (- f_units f div one_units)) else - (- f_units f div one_units))"
    using fl [of "f_neg f"] assms(2) by (auto simp: ceiling_num_def map_done_def dest: ng split: if_splits)
  moreover have "\<exists>n. truncate_num E (NFloat f) = Done (Inr n) \<and>
      int_of n = Some (if \<bar>f_units f sdiv one_units\<bar> = 2 ^ 55 then - (f_units f sdiv one_units) else f_units f sdiv one_units)"
  proof (cases "num_is_negative (NFloat f)")
    case True
    then have "f_units f < 0" by (simp only: float_is_negative [OF assms(2)])
    then have "f_units f sdiv one_units = - (\<bar>f_units f\<bar> div one_units)" "0 \<le> \<bar>f_units f\<bar> div one_units"
      using one_units_pos by (simp_all add: signed_divide_int_def pos_imp_zdiv_nonneg_iff)
    with True fl [of "f_abs f"] assms(2) show ?thesis
      by (auto simp: truncate_num_def map_done_def dest: ng split: if_splits)
  next
    case False
    then have p: "0 \<le> f_units f" by (simp only: float_is_negative [OF assms(2)] not_less)
    then have "f_units f sdiv one_units = f_units f div one_units" "0 \<le> f_units f div one_units"
      using one_units_pos by (auto simp: signed_divide_int_def sgn_if pos_imp_zdiv_nonneg_iff)
    with False fl [OF assms(2)] show ?thesis by (auto simp: truncate_num_def split: if_splits)
  qed
  ultimately show ?thesis by (simp add: Let_def)
qed

theorem floats_are_rounded_witness:
  "\<exists>n. ceiling_num exact_env (NFloat (f_of_int 3)) = Done (Inr n) \<and> int_of n = Some 3"
proof -
  have "is_finite (f_of_int 3)" "f_units (f_of_int 3) = 3 * one_units" using f_of_int_small [of 3] by simp_all
  moreover have "- (3 * one_units) div one_units = - 3"
    using one_units_pos by (metis less_irrefl mult_minus_left nonzero_mult_div_cancel_right)
  ultimately show ?thesis
    using floats_are_rounded [OF exact.exact_numbers_axioms, of "f_of_int 3"] one_units_pos by (simp add: Let_def)
qed

text \<open>
  The float 2.0 ** 55 is rounded to the least small integer: the upper bound of the test for
  small integers is itself rounded up when it is converted to a float.
\<close>
theorem floor_wraps_at_fixnum_bound:
  "floor_num exact_env (NFloat FIXNUM_MAX_TO_F) = Done (Inr (NFixnum (build_with_unchecked (2 ^ 55)))) \<and>
   int_of (NFixnum (build_with_unchecked (2 ^ 55))) = Some (- (2 ^ 55))"
proof
  have "f_units FIXNUM_MAX_TO_F div one_units = 2 ^ 55"
    unfolding FIXNUM_TO_F(4) using one_units_pos by simp
  with exact.rnd_i_float [OF FIXNUM_TO_F(3)]
  show "floor_num exact_env (NFloat FIXNUM_MAX_TO_F) = Done (Inr (NFixnum (build_with_unchecked (2 ^ 55))))"
    by (simp add: floor_num_def)
qed (simp add: get_num_def build_with_unchecked_def)

text \<open>
  A negative small integer shifted right by 64 bits or more becomes 0, while shifted by 63 bits,
  or as a big integer, it becomes -1.
\<close>
theorem negative_shift_loses_sign:
  "shr exact_env (NFixnum (build_with_unchecked (- 1))) (NFixnum (build_with_unchecked 64)) = Some (Inr (from_i64 0)) \<and>
   shr exact_env (NFixnum (build_with_unchecked (- 1))) (NFixnum (build_with_unchecked 63)) = Some (Inr (from_i64 (- 1))) \<and>
   shr exact_env (NInteger (- 1)) (NFixnum (build_with_unchecked 64)) = Some (Inr (from_integer (- 1)))"
  by (simp add: shr_def shift_num.simps shr_body_def fixnum_value checked_shr_def to_u32_def to_usize_def
      u32_MAX_def usize_MAX_def drop_bit_eq_div exact_env_def)

text \<open>
  With floats the order is not transitive: two different integers both compare equal to the float
  between which they are rounded.
\<close>
theorem float_comparison_not_transitive:
  "num_cmp exact_env (NInteger (2 ^ 53)) (NFloat (f_of_int (2 ^ 53))) = Equal \<and>
   num_cmp exact_env (NFloat (f_of_int (2 ^ 53))) (NInteger (2 ^ 53 + 1)) = Equal \<and>
   num_cmp exact_env (NInteger (2 ^ 53)) (NInteger (2 ^ 53 + 1)) = Less"
proof -
  have "is_finite (f_of_int (2 ^ 53))" using f_of_int_small [of "2 ^ 53"] by simp
  moreover have "f_of_int (2 ^ 53 + 1) = f_of_int (2 ^ 53)" by (rule f_of_int_tie)
  ultimately show ?thesis by (simp add: exact.of_cmp_law is_finite_not_nan cmp_of_def)
qed

end
