(* ===== verification/Bytes.thy ===== *)
theory Bytes
  imports Prelude
begin

text \<open>
  Numbers as little-endian bytes (\<open>to_le_bytes\<close>, \<open>from_le_bytes\<close>), the rounding of sizes to an
  alignment and the split of a byte sequence at its first zero byte, shared by the atom table and the heap.
\<close>

fun le_bytes :: "nat \<Rightarrow> nat \<Rightarrow> nat list" where
  "le_bytes 0 n = []"
| "le_bytes (Suc k) n = n mod 256 # le_bytes k (n div 256)"

fun le_nat :: "nat list \<Rightarrow> nat" where
  "le_nat [] = 0"
| "le_nat (b # bs) = b + 256 * le_nat bs"

definition next_multiple_of :: "nat \<Rightarrow> nat \<Rightarrow> nat" where
  "next_multiple_of n k = (n + (k - 1)) div k * k"

definition until_zero :: "nat list \<Rightarrow> nat list" where
  "until_zero bs = takeWhile (\<lambda>b. b \<noteq> 0) bs"

definition zero_free :: "nat list \<Rightarrow> bool" where
  "zero_free bs \<longleftrightarrow> list_all (\<lambda>b. b \<noteq> 0) bs"

definition is_bytes :: "nat list \<Rightarrow> bool" where
  "is_bytes bs \<longleftrightarrow> list_all (\<lambda>b. b < 256) bs"

lemma length_le_bytes [simp]: "length (le_bytes k n) = k"
  by (induction k arbitrary: n) auto

lemma is_bytes_simps [simp]:
  "is_bytes []" "is_bytes (b # bs) \<longleftrightarrow> b < 256 \<and> is_bytes bs" "is_bytes (bs @ cs) \<longleftrightarrow> is_bytes bs \<and> is_bytes cs"
  "is_bytes (replicate n b) \<longleftrightarrow> n = 0 \<or> b < 256"
  by (auto simp: is_bytes_def list_all_iff)

lemma is_bytes_take_drop [simp]: "is_bytes bs \<Longrightarrow> is_bytes (take n bs)" "is_bytes bs \<Longrightarrow> is_bytes (drop n bs)"
  by (auto simp: is_bytes_def list_all_iff dest: in_set_takeD in_set_dropD)

lemma zero_free_simps [simp]:
  "zero_free []" "zero_free (b # bs) \<longleftrightarrow> b \<noteq> 0 \<and> zero_free bs"
  "zero_free (bs @ cs) \<longleftrightarrow> zero_free bs \<and> zero_free cs"
  by (auto simp: zero_free_def)

lemma is_bytes_le_bytes [simp]: "is_bytes (le_bytes k n)"
  by (induction k arbitrary: n) auto

lemma le_nat_le_bytes: "n < 256 ^ k \<Longrightarrow> le_nat (le_bytes k n) = n"
proof (induction k arbitrary: n)
  case (Suc k)
  then have "n div 256 < 256 ^ k" by (simp add: less_mult_imp_div_less mult.commute)
  with Suc.IH show ?case by (simp add: mult.commute)
qed simp

lemma le_nat_less: "is_bytes bs \<Longrightarrow> le_nat bs < 256 ^ length bs"
proof (induction bs)
  case (Cons b bs)
  then have "le_nat bs + 1 \<le> 256 ^ length bs" and "b < 256" by simp_all
  then have "256 * (le_nat bs + 1) \<le> 256 * 256 ^ length bs" by (simp only: mult_le_mono2)
  with \<open>b < 256\<close> show ?case by simp
qed simp

lemma le_bytes_le_nat: "is_bytes bs \<Longrightarrow> le_bytes (length bs) (le_nat bs) = bs"
  by (induction bs) auto

lemma le_nat_append: "le_nat (bs @ cs) = le_nat bs + 256 ^ length bs * le_nat cs"
  by (induction bs) (auto simp: algebra_simps)

lemma le_nat_zeros [simp]: "le_nat (replicate n 0) = 0"
  by (induction n) auto

lemma le_nat_pad: "le_nat (bs @ replicate n 0) = le_nat bs"
  by (simp add: le_nat_append)

text \<open>Bytes padded with zeros are read from the number they make.\<close>

lemma le_bytes_pad:
  assumes "is_bytes bs" and "length bs \<le> k"
  shows "le_bytes k (le_nat bs) = bs @ replicate (k - length bs) 0"
proof -
  have "le_bytes (length (bs @ replicate (k - length bs) 0)) (le_nat (bs @ replicate (k - length bs) 0)) =
      bs @ replicate (k - length bs) 0"
    using assms(1) by (intro le_bytes_le_nat) simp
  then show ?thesis using assms(2) by (simp add: le_nat_append)
qed

lemma until_zero_append [simp]: "zero_free bs \<Longrightarrow> until_zero (bs @ cs) = bs @ until_zero cs"
  by (simp add: until_zero_def zero_free_def list_all_iff)

lemma until_zero_simps [simp]: "until_zero [] = []" "until_zero (0 # bs) = []"
  "b \<noteq> 0 \<Longrightarrow> until_zero (b # bs) = b # until_zero bs" "until_zero (replicate n 0) = []"
  by (cases n; simp add: until_zero_def)+

lemma zero_free_until_zero [simp]: "zero_free (until_zero bs)"
  by (induction bs) (auto simp: until_zero_def)

lemma until_zero_zero_free: "zero_free bs \<Longrightarrow> until_zero bs = bs"
  using until_zero_append [of bs "[]"] by simp

lemma length_until_zero: "length (until_zero bs) \<le> length bs"
  by (simp add: until_zero_def length_takeWhile_le)

lemma next_multiple_of_8:
  "n \<le> next_multiple_of n 8" "next_multiple_of n 8 < n + 8" "8 dvd next_multiple_of n 8"
  unfolding next_multiple_of_def by presburger+

lemma next_multiple_of_dvd: "8 dvd n \<Longrightarrow> next_multiple_of n 8 = n"
  unfolding next_multiple_of_def by presburger

end
