(* ===== verification/Cells.thy ===== *)
theory Cells
  imports Prelude
begin

text \<open>
  The tagged 64-bit cells of \<open>src/src/types.rs\<close> and the atom cells of \<open>src/src/atom_table.rs\<close>,
  bit for bit. A field of a bit-field structure occupies the bits after those of the fields before it,
  the first field starting at the lowest bit: a cell is a 56-bit value, the forwarding bit, the mark bit
  and a six-bit tag. A pointer cell overlays this with a 61-bit address, its own two bits and a single
  tag bit, an atom cell with 48 bits of name, 8 bits of arity, the two bits, a bit for inlined names
  and a five-bit tag; the tags are chosen so that the three readings of a cell never disagree.
\<close>

unbundle bit_operations_syntax

section \<open>Tags\<close>

datatype HeapCellValueTag =
    TStr | TLis | TVar | TStackVar | TAttrVar | TPStrLoc
  | TCons | TF64Offset | TFixnum | TCodeIndexOffset | TAtom | TCutPoint
  | TrailedHeapVar | TrailedStackVar | TrailedAttrVar | TrailedAttrVarListLink
  | TrailedAttachedValue | TrailedBlackboardEntry | TrailedBlackboardOffset

fun tag_bits :: "HeapCellValueTag \<Rightarrow> nat" where
  "tag_bits TStr = 1" | "tag_bits TLis = 5" | "tag_bits TVar = 11" | "tag_bits TStackVar = 13"
| "tag_bits TAttrVar = 17" | "tag_bits TPStrLoc = 19" | "tag_bits TCons = 0" | "tag_bits TF64Offset = 21"
| "tag_bits TFixnum = 25" | "tag_bits TCodeIndexOffset = 27" | "tag_bits TAtom = 31" | "tag_bits TCutPoint = 29"
| "tag_bits TrailedHeapVar = 33" | "tag_bits TrailedStackVar = 35" | "tag_bits TrailedAttrVar = 37"
| "tag_bits TrailedAttrVarListLink = 41" | "tag_bits TrailedAttachedValue = 43"
| "tag_bits TrailedBlackboardEntry = 45" | "tag_bits TrailedBlackboardOffset = 49"

definition all_tags :: "HeapCellValueTag list" where
  "all_tags = [TStr, TLis, TVar, TStackVar, TAttrVar, TPStrLoc, TCons, TF64Offset, TFixnum, TCodeIndexOffset,
     TAtom, TCutPoint, TrailedHeapVar, TrailedStackVar, TrailedAttrVar, TrailedAttrVarListLink,
     TrailedAttachedValue, TrailedBlackboardEntry, TrailedBlackboardOffset]"

text \<open>The generated \<open>tag_or_err\<close>: the tag with these bits, if there is one.\<close>

definition tag_of_bits :: "nat \<Rightarrow> HeapCellValueTag option" where
  "tag_of_bits n = find (\<lambda>t. tag_bits t = n) all_tags"

section \<open>Cells\<close>

type_synonym HeapCellValue = "64 word"

definition cell_val :: "HeapCellValue \<Rightarrow> nat" where
  "cell_val w = unat (take_bit 56 w)"

definition cell_tag_bits :: "HeapCellValue \<Rightarrow> nat" where
  "cell_tag_bits w = unat (drop_bit 58 w)"

definition set_to :: "nat \<Rightarrow> bool \<Rightarrow> 64 word \<Rightarrow> 64 word" where
  "set_to n b w = (if b then set_bit n w else unset_bit n w)"

text \<open>\<open>HeapCellValue::build_with\<close>; the value is below $2^{56}$, or \<open>with_val\<close> panics (\<open>None\<close>).\<close>

definition cell_build_with :: "HeapCellValueTag \<Rightarrow> nat \<Rightarrow> HeapCellValue option" where
  "cell_build_with tag v =
     (if v < 2 ^ 56 then Some (push_bit 58 (of_nat (tag_bits tag)) OR of_nat v) else None)"

definition cell_get_tag :: "HeapCellValue \<Rightarrow> HeapCellValueTag" where
  "cell_get_tag w =
     (case tag_of_bits (cell_tag_bits w) of
        Some tag \<Rightarrow> tag
      | None \<Rightarrow> if bit w 63 then TAtom else TCons)"

definition get_forwarding_bit :: "HeapCellValue \<Rightarrow> bool" where
  "get_forwarding_bit w = (if cell_get_tag w = TCons then bit w 61 else bit w 56)"

definition set_forwarding_bit :: "bool \<Rightarrow> HeapCellValue \<Rightarrow> HeapCellValue" where
  "set_forwarding_bit f w = (if cell_get_tag w = TCons then set_to 61 f w else set_to 56 f w)"

definition get_mark_bit :: "HeapCellValue \<Rightarrow> bool" where
  "get_mark_bit w = (if cell_get_tag w = TCons then bit w 62 else bit w 57)"

definition set_mark_bit :: "bool \<Rightarrow> HeapCellValue \<Rightarrow> HeapCellValue" where
  "set_mark_bit m w = (if cell_get_tag w = TCons then set_to 62 m w else set_to 57 m w)"

text \<open>The address of a pointer cell.\<close>

definition cons_ptr_address :: "HeapCellValue \<Rightarrow> nat" where
  "cons_ptr_address w = unat (take_bit 61 w)"

definition is_ref :: "HeapCellValue \<Rightarrow> bool" where
  "is_ref w \<longleftrightarrow> cell_get_tag w \<in> {TStr, TLis, TVar, TStackVar, TAttrVar, TPStrLoc}"

definition is_var :: "HeapCellValue \<Rightarrow> bool" where
  "is_var w \<longleftrightarrow> cell_get_tag w \<in> {TVar, TAttrVar, TStackVar}"

text \<open>Relocation of a cell: \<open>Add<usize>\<close> and \<open>Sub<usize>\<close>; \<open>None\<close> is a panic of \<open>build_with\<close> or an underflow.\<close>

definition cell_add :: "HeapCellValue \<Rightarrow> nat \<Rightarrow> HeapCellValue option" where
  "cell_add w rhs =
     (case cell_get_tag w of
        TStr \<Rightarrow> cell_build_with TStr (cell_val w + rhs)
      | TLis \<Rightarrow> cell_build_with TLis (cell_val w + rhs)
      | TVar \<Rightarrow> cell_build_with TVar (cell_val w + rhs)
      | TAttrVar \<Rightarrow> cell_build_with TAttrVar (cell_val w + rhs)
      | TPStrLoc \<Rightarrow> cell_build_with TPStrLoc (cell_val w + 8 * rhs)
      | _ \<Rightarrow> Some w)"

definition cell_sub :: "HeapCellValue \<Rightarrow> nat \<Rightarrow> HeapCellValue option" where
  "cell_sub w rhs =
     (let minus = (\<lambda>tag k. if k \<le> cell_val w then cell_build_with tag (cell_val w - k) else None)
      in case cell_get_tag w of
           TStr \<Rightarrow> minus TStr rhs
         | TLis \<Rightarrow> minus TLis rhs
         | TVar \<Rightarrow> minus TVar rhs
         | TAttrVar \<Rightarrow> minus TAttrVar rhs
         | TPStrLoc \<Rightarrow> minus TPStrLoc (8 * rhs)
         | _ \<Rightarrow> Some w)"

section \<open>Atom cells\<close>

text \<open>An atom is an index whose lowest bit tells an inlined name; \<open>None\<close> is a name or arity out of range.\<close>

definition atom_cell_build_with :: "nat \<Rightarrow> nat \<Rightarrow> HeapCellValue option" where
  "atom_cell_build_with index arity =
     (if index div 2 < 2 ^ 48 \<and> arity < 2 ^ 8 then
        Some (of_nat (index div 2) OR push_bit 48 (of_nat arity) OR push_bit 58 (of_nat (index mod 2)) OR
              push_bit 59 (of_nat (tag_bits TAtom)))
      else None)"

definition atom_get_name :: "HeapCellValue \<Rightarrow> nat" where
  "atom_get_name w = 2 * unat (take_bit 48 w) + of_bool (bit w 58)"

definition atom_get_arity :: "HeapCellValue \<Rightarrow> nat" where
  "atom_get_arity w = unat (take_bit 8 (drop_bit 48 w))"

section \<open>References and their order\<close>

datatype RefTag = HeapCell | StackCell | AttrVarRef

record Ref =
  ref_tag :: RefTag
  ref_val :: nat

text \<open>\<open>impl Ord for Ref\<close>: every heap reference is older than every stack reference.\<close>

definition ref_less :: "Ref \<Rightarrow> Ref \<Rightarrow> bool" where
  "ref_less r s \<longleftrightarrow>
     (if ref_tag r = StackCell then ref_tag s = StackCell \<and> ref_val r < ref_val s
      else ref_tag s = StackCell \<or> ref_val r < ref_val s)"

definition as_var :: "HeapCellValue \<Rightarrow> Ref option" where
  "as_var w =
     (case cell_get_tag w of
        TVar \<Rightarrow> Some \<lparr>ref_tag = HeapCell, ref_val = cell_val w\<rparr>
      | TAttrVar \<Rightarrow> Some \<lparr>ref_tag = AttrVarRef, ref_val = cell_val w\<rparr>
      | TStackVar \<Rightarrow> Some \<lparr>ref_tag = StackCell, ref_val = cell_val w\<rparr>
      | _ \<Rightarrow> None)"

fun as_heap_cell_value :: "Ref \<Rightarrow> HeapCellValue option" where
  "as_heap_cell_value r =
     cell_build_with (case ref_tag r of HeapCell \<Rightarrow> TVar | StackCell \<Rightarrow> TStackVar | AttrVarRef \<Rightarrow> TAttrVar) (ref_val r)"

section \<open>Reading back what was built\<close>

lemma tag_of_bits_tag_bits [simp]: "tag_of_bits (tag_bits t) = Some t"
  by (cases t) (simp_all add: tag_of_bits_def all_tags_def)

lemma tag_bits_less: "tag_bits t < 2 ^ 6"
  by (cases t) simp_all

text \<open>No tag but that of pointer cells has an even number, none is 62 or 63.\<close>

lemma tag_of_bits_Some: "tag_of_bits n = Some t \<Longrightarrow> tag_bits t = n"
  by (simp add: tag_of_bits_def find_Some_iff) blast

lemma tag_of_bits_None:
  assumes "even n" and "n \<noteq> 0"
  shows "tag_of_bits n = None"
proof (rule ccontr)
  assume "tag_of_bits n \<noteq> None"
  then obtain t where "tag_of_bits n = Some t" by auto
  then have "tag_bits t = n" by (rule tag_of_bits_Some)
  with assms show False by (cases t) auto
qed

lemma bit_of_nat_word: "bit (of_nat n :: 64 word) i \<longleftrightarrow> i < 64 \<and> bit n i"
  using bit_word_of_int_iff [of "int n" i, where 'a = 64] by (simp add: bit_of_nat_iff_bit)

lemma bit_nat_less: "n < 2 ^ k \<Longrightarrow> bit (n :: nat) i \<Longrightarrow> i < k"
  by (metis bit_take_bit_iff take_bit_nat_eq_self)

text \<open>The three parts of a cell determine its readings.\<close>

lemma cell_tag_bits_eq:
  assumes "\<And>i. i < 6 \<Longrightarrow> bit w (58 + i) = bit n i" and "n < 2 ^ 6"
  shows "cell_tag_bits w = n"
proof -
  have "drop_bit 58 w = of_nat n"
  proof (rule bit_word_eqI)
    fix i
    assume "i < LENGTH(64)"
    show "bit (drop_bit 58 w) i = bit (of_nat n :: 64 word) i"
    proof (cases "i < 6")
      case False
      then have "\<not> bit n i" using bit_nat_less [OF assms(2)] by blast
      with False show ?thesis by (simp add: bit_drop_bit_eq bit_of_nat_word bit_imp_le_length [where 'a = 64] impossible_bit)
    qed (simp add: bit_drop_bit_eq bit_of_nat_word assms(1))
  qed
  then show ?thesis using assms(2) by (simp add: cell_tag_bits_def unat_of_nat)
qed

lemma cell_val_eq:
  assumes "\<And>i. i < 56 \<Longrightarrow> bit w i = bit v i" and "v < 2 ^ 56"
  shows "cell_val w = v"
proof -
  have "take_bit 56 w = of_nat v"
    using assms(1) bit_nat_less [OF assms(2)]
    by (intro bit_word_eqI) (auto simp: bit_take_bit_iff bit_of_nat_word)
  then show ?thesis using assms(2) by (simp add: cell_val_def unat_of_nat)
qed

lemma bit_built:
  assumes "cell_build_with tag v = Some w" and "i < 64"
  shows "bit w i \<longleftrightarrow> (if i < 56 then bit v i else 58 \<le> i \<and> bit (tag_bits tag) (i - 58))"
proof -
  from assms have v: "v < 2 ^ 56" and w: "w = push_bit 58 (of_nat (tag_bits tag)) OR of_nat v"
    by (auto simp: cell_build_with_def split: if_splits)
  from assms(2) bit_nat_less [OF v, of i] show ?thesis
    by (auto simp: w bit_or_iff bit_push_bit_iff bit_of_nat_word)
qed

lemma built_small: "cell_build_with tag v = Some w \<Longrightarrow> v < 2 ^ 56"
  by (simp add: cell_build_with_def split: if_splits)

lemma bit_set_to: "i < 64 \<Longrightarrow> bit (set_to n b w) i \<longleftrightarrow> (if i = n then b else bit w i)"
  by (simp add: set_to_def bit_set_bit_iff bit_unset_bit_iff)

lemma get_tag_of_bits:
  assumes "\<And>i. i < 6 \<Longrightarrow> bit w (58 + i) = bit (tag_bits t) i"
  shows "cell_get_tag w = t"
  using cell_tag_bits_eq [OF assms tag_bits_less] by (simp add: cell_get_tag_def)

text \<open>A pointer cell stays one whatever its two bits are.\<close>

lemma get_tag_pointer:
  assumes "\<not> bit w 58" and "\<not> bit w 59" and "\<not> bit w 60" and "\<not> bit w 63"
  shows "cell_get_tag w = TCons"
proof -
  let ?n = "8 * of_bool (bit w 61) + 16 * of_bool (bit w 62) :: nat"
  have "cell_tag_bits w = ?n"
  proof (rule cell_tag_bits_eq)
    fix i :: nat
    assume "i < 6"
    then have "i \<in> {0, 1, 2, 3, 4, 5}" by auto
    with assms show "bit w (58 + i) = bit ?n i"
      by (cases "bit w 61"; cases "bit w 62") (auto simp: bit_iff_odd [of ?n] bit_iff_odd [where 'a = nat])
  qed simp
  moreover have "even ?n" by simp
  ultimately show ?thesis using assms tag_of_bits_None [of ?n]
    by (cases "?n = 0") (auto simp: cell_get_tag_def tag_of_bits_def all_tags_def)
qed

lemma built_readings:
  assumes "cell_build_with tag v = Some w"
  shows "cell_get_tag w = tag" "cell_val w = v"
proof -
  show "cell_get_tag w = tag" by (rule get_tag_of_bits) (simp add: bit_built [OF assms])
  show "cell_val w = v" by (rule cell_val_eq) (simp_all add: bit_built [OF assms] built_small [OF assms, simplified])
qed

text \<open>Changing the two bits of a cell changes no other reading.\<close>

lemma marked_readings:
  assumes "cell_build_with tag v = Some w"
    and "\<And>i. i < 64 \<Longrightarrow> bit w' i = (if i = fb then f else if i = mb then m else bit w i)"
    and "(fb, mb) = (if tag = TCons then (61, 62) else (56, 57))"
  shows "cell_get_tag w' = tag \<and> cell_val w' = v"
proof
  note built = bit_built [OF assms(1)]
  show "cell_val w' = v"
    using assms(2,3) by (intro cell_val_eq) (auto simp: built built_small [OF assms(1), simplified] split: if_splits)
  show "cell_get_tag w' = tag"
  proof (cases "tag = TCons")
    case True
    then show ?thesis using assms(2,3) get_tag_pointer [of w'] by (simp add: built)
  next
    case False
    then show ?thesis using assms(2,3) by (intro get_tag_of_bits) (simp add: built)
  qed
qed

lemma set_forwarding_readings:
  assumes "cell_build_with tag v = Some w"
  shows "cell_get_tag (set_forwarding_bit f w) = tag \<and> cell_val (set_forwarding_bit f w) = v"
  using built_readings(1) [OF assms]
  by (intro marked_readings [OF assms, where f = f and m = "bit w (if tag = TCons then 62 else 57)" and
        fb = "if tag = TCons then 61 else 56" and mb = "if tag = TCons then 62 else 57"])
     (auto simp: set_forwarding_bit_def bit_set_to)

lemma set_both_readings:
  assumes "cell_build_with tag v = Some w"
  shows "cell_get_tag (set_mark_bit m (set_forwarding_bit f w)) = tag \<and>
    cell_val (set_mark_bit m (set_forwarding_bit f w)) = v"
  using built_readings(1) [OF assms] set_forwarding_readings [OF assms, of f]
  by (intro marked_readings [OF assms, where f = f and m = m and
        fb = "if tag = TCons then 61 else 56" and mb = "if tag = TCons then 62 else 57"])
     (auto simp: set_mark_bit_def, auto simp: set_forwarding_bit_def bit_set_to)

lemma bit_built_atom:
  assumes "atom_cell_build_with index arity = Some w" and "i < 64"
  shows "bit w i \<longleftrightarrow> (if i < 48 then bit (index div 2) i else if i < 56 then bit arity (i - 48)
    else if i < 58 then False else if i = 58 then odd index else True)"
proof -
  from assms(1) have n: "index div 2 < 2 ^ 48" and a: "arity < 2 ^ 8" and
    w: "w = of_nat (index div 2) OR push_bit 48 (of_nat arity) OR push_bit 58 (of_nat (index mod 2)) OR
      push_bit 59 (of_nat 31)"
    by (auto simp: atom_cell_build_with_def split: if_splits)
  have "(31 :: nat) = mask 5" by (simp add: mask_eq_exp_minus_1)
  then have m: "bit (31 :: nat) j \<longleftrightarrow> j < 5" for j by (simp only: bit_mask_iff) simp
  have o: "bit (index mod 2) j \<longleftrightarrow> j = 0 \<and> odd index" for j
    by (cases "odd index") (auto simp: mod_2_eq_odd bit_Suc_0_iff)
  from bit_nat_less [OF n, of i] bit_nat_less [OF a, of "i - 48"] assms(2) show ?thesis
    unfolding w bit_or_iff bit_push_bit_iff bit_of_nat_word m o
    by (cases "i < 48"; cases "i < 56"; cases "i < 58") auto
qed

lemma atom_cell_readings:
  assumes "atom_cell_build_with index arity = Some w"
  shows "atom_get_name w = index \<and> atom_get_arity w = arity \<and> cell_get_tag w = TAtom"
proof -
  note bits = bit_built_atom [OF assms]
  from assms have n: "index div 2 < 2 ^ 48" and a: "arity < 2 ^ 8" by (auto simp: atom_cell_build_with_def split: if_splits)
  have "take_bit 48 w = of_nat (index div 2)"
    using bit_nat_less [OF n] by (intro bit_word_eqI) (auto simp: bit_take_bit_iff bit_of_nat_word bits)
  then have "unat (take_bit 48 w) = index div 2" using n by (simp add: unat_of_nat)
  then have "atom_get_name w = index" by (simp add: atom_get_name_def bits mod_2_eq_odd [symmetric])
  moreover have "take_bit 8 (drop_bit 48 w) = of_nat arity"
  proof (rule bit_word_eqI)
    fix i
    show "bit (take_bit 8 (drop_bit 48 w)) i = bit (of_nat arity :: 64 word) i"
      using bit_nat_less [OF a, of i]
      by (cases "i < 8") (auto simp: bit_take_bit_iff bit_drop_bit_eq bit_of_nat_word bits)
  qed
  then have "atom_get_arity w = arity" using a by (simp add: atom_get_arity_def unat_of_nat)
  moreover have "cell_tag_bits w = 62 + index mod 2"
  proof (rule cell_tag_bits_eq)
    fix i :: nat
    assume "i < 6"
    then have "i \<in> {0, 1, 2, 3, 4, 5}" by auto
    then show "bit w (58 + i) = bit (62 + index mod 2) i"
      by (cases "odd index") (auto simp: bits mod_2_eq_odd bit_iff_odd [where 'a = nat])
  qed (simp add: mod_2_eq_odd)
  then have "cell_get_tag w = TAtom"
    by (simp add: cell_get_tag_def mod_2_eq_odd tag_of_bits_def all_tags_def bits split: if_splits)
  ultimately show ?thesis by simp
qed

section \<open>Properties\<close>

text \<open>
  C28: A cell built from a tag and a value has this tag and value, also after its forwarding and mark
  bits were set or cleared in any way, and these bits read back as they were set, for pointer cells,
  which keep them elsewhere and under their own tag, as for all others.
\<close>
theorem cell_fields_round_trip:
  fixes m f :: bool
  assumes "cell_build_with tag v = Some w"
  defines "w' \<equiv> set_mark_bit m (set_forwarding_bit f w)"
  shows "cell_get_tag w' = tag \<and> cell_val w' = v \<and> get_mark_bit w' = m \<and> get_forwarding_bit w' = f \<and>
    (as_var w' = as_var w) \<and> (is_ref w' = is_ref w)"
proof -
  note both = set_both_readings [OF assms(1), of m f] and fwd = set_forwarding_readings [OF assms(1), of f]
    and built = built_readings [OF assms(1)]
  have "get_mark_bit w' = m" "get_forwarding_bit w' = f"
    using both fwd built unfolding w'_def get_mark_bit_def get_forwarding_bit_def
    by (auto simp: set_mark_bit_def, auto simp: set_forwarding_bit_def bit_set_to)
  moreover have "cell_get_tag w' = tag" "cell_val w' = v" using both by (simp_all add: w'_def)
  ultimately show ?thesis using built by (cases tag) (simp_all add: as_var_def is_ref_def)
qed

theorem cell_fields_round_trip_witness:
  "cell_get_tag (set_mark_bit True (set_forwarding_bit False (push_bit 58 11 OR 42))) = TVar"
  using cell_fields_round_trip [of TVar 42 "push_bit 58 11 OR 42" True False]
  by (simp add: cell_build_with_def)

text \<open>
  C29: An atom cell keeps the index and the arity of its atom, inlined or not, and every reader of
  cells takes it for an atom although its tag is one bit shorter.
\<close>
theorem atom_cell_round_trip:
  assumes "atom_cell_build_with index arity = Some w"
  shows "atom_get_name w = index \<and> atom_get_arity w = arity \<and> cell_get_tag w = TAtom \<and>
    \<not> get_mark_bit w \<and> \<not> get_forwarding_bit w"
  using atom_cell_readings [OF assms] by (simp add: get_mark_bit_def get_forwarding_bit_def bit_built_atom [OF assms])

theorem atom_cell_round_trip_witness:
  "\<exists>w. atom_cell_build_with 17 3 = Some w \<and> atom_get_name w = 17 \<and> atom_get_arity w = 3"
proof -
  obtain w where w: "atom_cell_build_with 17 3 = Some w" by (simp add: atom_cell_build_with_def)
  from atom_cell_round_trip [OF this] w show ?thesis by auto
qed

end
