(* ===== verification/HeapMem.thy ===== *)
theory HeapMem
  imports Bytes Cells
begin

text \<open>
  The heap as memory (\<open>src/src/machine/heap.rs\<close>): the bytes written so far, eight to a cell, and the
  capacity of the block they lie in. The base address is a multiple of eight, so that the alignment of an
  address is that of its index. Whether the allocator can provide a capacity is the argument \<open>avail\<close>;
  \<open>None\<close> is an \<open>AllocError\<close>, or the panic of \<open>grow\<close> on a capacity no allocator can provide. Cells
  outside the bytes written, which the program never reads, are zero here.
\<close>

record Heap =
  mem :: "nat list"
  byte_cap :: nat

definition ALIGN :: nat where "ALIGN = 8"

definition cell_index :: "nat \<Rightarrow> nat" where "cell_index n = n div 8"
definition heap_index :: "nat \<Rightarrow> nat" where "heap_index n = n * 8"

definition byte_len :: "Heap \<Rightarrow> nat" where
  "byte_len h = length (mem h)"

definition cell_len :: "Heap \<Rightarrow> nat" where
  "cell_len h = cell_index (byte_len h)"

definition free_space :: "Heap \<Rightarrow> nat" where
  "free_space h = byte_cap h - byte_len h"

definition Heap_new :: Heap where
  "Heap_new = \<lparr>mem = [], byte_cap = 0\<rparr>"

definition with_cell_capacity :: "(nat \<Rightarrow> bool) \<Rightarrow> nat \<Rightarrow> Heap option" where
  "with_cell_capacity avail cap =
     (if avail (heap_index cap) then Some \<lparr>mem = [], byte_cap = heap_index cap\<rparr> else None)"

definition heap_grow :: "(nat \<Rightarrow> bool) \<Rightarrow> Heap \<Rightarrow> Heap option" where
  "heap_grow avail h =
     (let new_cap = (if byte_cap h = 0 then 256 * 256 * 8 else 2 * byte_cap h)
      in if avail new_cap then Some (h\<lparr>byte_cap := new_cap\<rparr>) else None)"

text \<open>The loop of the operations that append: grow until the bytes fit, or fail.\<close>

function grow_until :: "(nat \<Rightarrow> bool) \<Rightarrow> nat \<Rightarrow> Heap \<Rightarrow> Heap option" where
  "grow_until avail n h =
     (if n \<le> free_space h then Some h
      else case heap_grow avail h of Some h' \<Rightarrow> grow_until avail n h' | None \<Rightarrow> None)"
  by pat_completeness auto
termination
  by (relation "measure (\<lambda>(_, n, h). n + byte_len h - byte_cap h)")
     (auto simp: heap_grow_def free_space_def byte_len_def Let_def split: if_splits)

declare grow_until.simps [simp del]

section \<open>Cells in memory\<close>

definition cell_bytes :: "HeapCellValue \<Rightarrow> nat list" where
  "cell_bytes w = le_bytes 8 (unat w)"

definition hcell :: "Heap \<Rightarrow> nat \<Rightarrow> HeapCellValue" where
  "hcell h i = of_nat (le_nat (take 8 (drop (heap_index i) (mem h))))"

definition set_hcell :: "nat \<Rightarrow> HeapCellValue \<Rightarrow> Heap \<Rightarrow> Heap" where
  "set_hcell i w h =
     h\<lparr>mem := take (heap_index i) (mem h) @ cell_bytes w @ drop (heap_index i + 8) (mem h)\<rparr>"

text \<open>\<open>ReservedHeapSection::push_cell\<close> writes without looking at the capacity, \<open>Heap::push_cell\<close> grows when full.\<close>

definition section_push_cell :: "HeapCellValue \<Rightarrow> Heap \<Rightarrow> Heap" where
  "section_push_cell c h = h\<lparr>mem := mem h @ cell_bytes c\<rparr>"

definition push_cell :: "(nat \<Rightarrow> bool) \<Rightarrow> HeapCellValue \<Rightarrow> Heap \<Rightarrow> Heap option" where
  "push_cell avail c h =
     map_option (section_push_cell c) (if byte_len h = byte_cap h then heap_grow avail h else Some h)"

definition last_cell :: "Heap \<Rightarrow> HeapCellValue option" where
  "last_cell h = (if byte_len h = 0 then None else Some (of_nat (le_nat (drop (byte_len h - heap_index 1) (mem h)))))"

text \<open>\<open>reserve\<close> takes a number of cells.\<close>

definition reserve :: "(nat \<Rightarrow> bool) \<Rightarrow> nat \<Rightarrow> Heap \<Rightarrow> Heap option" where
  "reserve avail num_cells h = grow_until avail (heap_index num_cells) h"

definition heap_append :: "(nat \<Rightarrow> bool) \<Rightarrow> Heap \<Rightarrow> Heap \<Rightarrow> Heap option" where
  "heap_append avail other h =
     (let other_len = heap_index (cell_len other)
      in map_option (\<lambda>h. h\<lparr>mem := mem h @ mem other\<rparr>) (grow_until avail other_len h))"

definition copy_slice_to_end :: "(nat \<Rightarrow> bool) \<Rightarrow> nat \<Rightarrow> nat \<Rightarrow> Heap \<Rightarrow> Heap option" where
  "copy_slice_to_end avail start end' h =
     (let len = end' - start
      in map_option (\<lambda>h. h\<lparr>mem := mem h @ take (heap_index len) (drop (heap_index start) (mem h))\<rparr>)
           (grow_until avail (heap_index len) h))"

definition heap_truncate :: "nat \<Rightarrow> Heap \<Rightarrow> Heap" where
  "heap_truncate cell_offset h = h\<lparr>mem := take (heap_index cell_offset) (mem h)\<rparr>"

section \<open>Following references\<close>

text \<open>\<open>heap_bound_deref\<close> follows variables to the last one; it does not return (\<open>None\<close>) on a cycle of variables.\<close>

definition var_target :: "Heap \<Rightarrow> HeapCellValue \<Rightarrow> HeapCellValue" where
  "var_target h value = (if cell_get_tag value \<in> {TAttrVar, TVar} then hcell h (cell_val value) else value)"

partial_function (option) heap_bound_deref :: "Heap \<Rightarrow> HeapCellValue \<Rightarrow> HeapCellValue option" where
  "heap_bound_deref h value =
     (let new_value = var_target h value
      in if new_value \<noteq> value \<and> is_var new_value then heap_bound_deref h new_value else Some value)"

definition heap_bound_store :: "Heap \<Rightarrow> HeapCellValue \<Rightarrow> HeapCellValue" where
  "heap_bound_store h value = var_target h value"

section \<open>Lists\<close>

fun push_list_cells :: "nat \<Rightarrow> HeapCellValue list \<Rightarrow> Heap \<Rightarrow> Heap option" where
  "push_list_cells h0 [] h = Some h"
| "push_list_cells h0 (v # vs) h =
     (case cell_build_with TLis h0 of
        None \<Rightarrow> None
      | Some c \<Rightarrow> push_list_cells (h0 + 2) vs (section_push_cell v (section_push_cell c h)))"

definition sized_iter_to_heap_list ::
  "(nat \<Rightarrow> bool) \<Rightarrow> HeapCellValue \<Rightarrow> nat \<Rightarrow> HeapCellValue list \<Rightarrow> Heap \<Rightarrow> (HeapCellValue \<times> Heap) option" where
  "sized_iter_to_heap_list avail empty_list_as_cell sz values h =
     (if sz > 0 then
        case reserve avail (1 + sz * 2) h of
          None \<Rightarrow> None
        | Some h1 \<Rightarrow>
            (case push_list_cells (cell_len h + 1) values h1 of
               None \<Rightarrow> None
             | Some h2 \<Rightarrow>
                 (case cell_build_with TVar (cell_len h) of
                    None \<Rightarrow> None
                  | Some c \<Rightarrow> Some (c, section_push_cell empty_list_as_cell h2)))
      else Some (empty_list_as_cell, h))"

section \<open>The memory invariant\<close>

definition wf_heap :: "Heap \<Rightarrow> bool" where
  "wf_heap h \<longleftrightarrow> is_bytes (mem h) \<and> 8 dvd length (mem h) \<and> length (mem h) \<le> byte_cap h \<and> 8 dvd byte_cap h"

lemmas index_defs = cell_index_def heap_index_def ALIGN_def byte_len_def cell_len_def

lemma hcell_beyond: "length (mem h) \<le> 8 * x \<Longrightarrow> hcell h x = 0"
  by (simp add: hcell_def index_defs mult.commute)

lemma length_cell_bytes [simp]: "length (cell_bytes w) = 8"
  by (simp add: cell_bytes_def)

lemma is_bytes_cell_bytes [simp]: "is_bytes (cell_bytes w)"
  by (simp add: cell_bytes_def)

lemma cell_bytes_round_trip [simp]: "of_nat (le_nat (cell_bytes w)) = (w :: 64 word)"
proof -
  have "unat w < 2 ^ LENGTH(64)" by (rule unsigned_less)
  then have "unat w < 256 ^ 8" by simp
  then show ?thesis by (simp add: cell_bytes_def le_nat_le_bytes)
qed

lemma hcell_append: "i < cell_len h \<Longrightarrow> mem h' = mem h @ xs \<Longrightarrow> hcell h' i = hcell h i"
  by (simp add: hcell_def index_defs)

lemma hcell_at_end: "8 dvd length (mem h) \<Longrightarrow> mem h' = mem h @ cell_bytes c @ xs \<Longrightarrow> hcell h' (cell_len h) = c"
  by (auto simp: hcell_def index_defs)

lemma byte_cap_section_push_cell [simp]: "byte_cap (section_push_cell c h) = byte_cap h"
  by (simp add: section_push_cell_def)

lemma mem_section_push_cell [simp]: "mem (section_push_cell c h) = mem h @ cell_bytes c"
  by (simp add: section_push_cell_def)

lemma cell_len_section_push_cell [simp]: "cell_len (section_push_cell c h) = Suc (cell_len h)"
  by (simp add: index_defs)

lemma hcell_set_same:
  assumes "i < cell_len h"
  shows "hcell (set_hcell i w h) i = w"
proof -
  have "8 * i + 8 \<le> length (mem h)" using assms by (simp add: index_defs)
  then show ?thesis by (simp add: hcell_def set_hcell_def index_defs mult.commute)
qed

lemma length_set_hcell: "i < cell_len h \<Longrightarrow> length (mem (set_hcell i w h)) = length (mem h)"
  by (simp add: set_hcell_def index_defs)

lemma hcell_set_other:
  assumes "i < cell_len h" and "i \<noteq> j"
  shows "hcell (set_hcell i w h) j = hcell h j"
proof -
  have len: "8 * i + 8 \<le> length (mem h)" using assms by (simp add: index_defs)
  have "take 8 (drop (8 * j) (take (8 * i) (mem h) @ cell_bytes w @ drop (8 * i + 8) (mem h))) = take 8 (drop (8 * j) (mem h))"
  proof (cases "j < i")
    case True
    then have "8 * j + 8 \<le> 8 * i" by simp
    then show ?thesis using len by (simp add: take_drop min_absorb1 min_absorb2)
  next
    case False
    then have "i < j" using assms(2) by simp
    then have "8 * i + 8 \<le> 8 * j" by simp
    then show ?thesis using len by (simp add: drop_take)
  qed
  then show ?thesis by (simp add: hcell_def set_hcell_def index_defs mult.commute)
qed

lemma wf_heap_set_hcell: "i < cell_len h \<Longrightarrow> wf_heap h \<Longrightarrow> wf_heap (set_hcell i w h)"
  using length_set_hcell [of i h w]
  by (simp add: wf_heap_def set_hcell_def)

text \<open>Growing keeps the bytes, and afterwards there is room.\<close>

lemma grow_until_Some:
  "grow_until avail n h = Some h' \<Longrightarrow> wf_heap h \<Longrightarrow> mem h' = mem h \<and> n \<le> free_space h' \<and> wf_heap h'"
proof (induction avail n h rule: grow_until.induct)
  case (1 avail n h)
  show ?case
  proof (cases "n \<le> free_space h")
    case True
    with 1 show ?thesis by (simp add: grow_until.simps [of _ _ h])
  next
    case False
    with "1.prems" obtain h1 where h1: "heap_grow avail h = Some h1" "grow_until avail n h1 = Some h'"
      by (auto simp: grow_until.simps [of _ _ h] split: option.splits)
    then have "mem h1 = mem h" "wf_heap h1"
      using "1.prems"(2) by (auto simp: heap_grow_def wf_heap_def Let_def split: if_splits)
    with "1.IH" [OF False h1(1,2)] show ?thesis by simp
  qed
qed

lemma grow_until_total: "\<exists>h'. grow_until (\<lambda>_. True) n h = Some h'"
proof (induction "\<lambda>_ :: nat. True" n h rule: grow_until.induct)
  case (1 n h)
  then show ?case by (cases "n \<le> free_space h") (auto simp: grow_until.simps [of _ _ h] heap_grow_def Let_def)
qed

end
