(* ===== verification/AtomTable.thy ===== *)
theory AtomTable
  imports Bytes
begin

text \<open>
  The table of atoms (\<open>src/src/atom_table.rs\<close>), the block of memory it keeps their names in
  (\<open>src/src/raw_block.rs\<close>) and the numbering of the names known at build time
  (\<open>src/build/static_string_indexing.rs\<close>). An atom is a number. When it is odd, its upper bits are the
  name itself, up to six bytes; otherwise they are an index into the static names, or, beyond these, the
  offset of a length and a name in the block. The static names are generated by the build and are the
  argument \<open>strings\<close>; whether the allocator can provide a size is the argument \<open>avail\<close>.

  Tables are shared between threads and replaced as a whole under a lock, so one call of
  \<open>build_with\<close> is one step here; its retry after a lost race is the same step taken later.
\<close>

type_synonym Atom = nat

definition INLINED_ATOM_MAX_LEN :: nat where "INLINED_ATOM_MAX_LEN = 6"

definition inlinable :: "nat list \<Rightarrow> bool" where
  "inlinable s \<longleftrightarrow> s \<noteq> [] \<and> length s \<le> INLINED_ATOM_MAX_LEN \<and> 0 \<notin> set s"

section \<open>Names known at build time\<close>

definition static_string_index :: "nat list \<Rightarrow> nat \<Rightarrow> Atom" where
  "static_string_index s index =
     (if inlinable s then 2 * le_nat (s @ replicate (8 - length s) 0) + 1 else 2 * index)"

text \<open>The names that get a place in \<open>STRINGS\<close>: those that are not inlined, once each.\<close>

definition index_static_strings :: "nat list list \<Rightarrow> nat list list" where
  "index_static_strings ss = remdups (filter (\<lambda>s. \<not> inlinable s) ss)"

definition STATIC_ATOMS_MAP :: "nat list list \<Rightarrow> nat list \<Rightarrow> Atom option" where
  "STATIC_ATOMS_MAP strings = map_of (zip strings (map (\<lambda>i. static_string_index (strings ! i) i) [0..<length strings]))"

section \<open>The block\<close>

record RawBlock =
  blk_bytes :: "nat list"
  blk_size :: nat

definition ATOM_TABLE_INIT_SIZE :: nat where "ATOM_TABLE_INIT_SIZE = 2 ^ 16"

definition init_at_size :: "(nat \<Rightarrow> bool) \<Rightarrow> nat \<Rightarrow> RawBlock option" where
  "init_at_size avail cap = (if avail cap then Some \<lparr>blk_bytes = [], blk_size = cap\<rparr> else None)"

definition RawBlock_new :: "(nat \<Rightarrow> bool) \<Rightarrow> RawBlock option" where
  "RawBlock_new avail = init_at_size avail ATOM_TABLE_INIT_SIZE"

text \<open>A block of size zero stands for a null pointer.\<close>

definition grow_new :: "(nat \<Rightarrow> bool) \<Rightarrow> RawBlock \<Rightarrow> RawBlock option" where
  "grow_new avail blk =
     (if blk_size blk = 0 then RawBlock_new avail
      else map_option (\<lambda>new. new\<lparr>blk_bytes := blk_bytes blk\<rparr>) (init_at_size avail (blk_size blk * 2)))"

definition blk_free_space :: "RawBlock \<Rightarrow> nat" where
  "blk_free_space blk = blk_size blk - length (blk_bytes blk)"

text \<open>The offset of the new memory; its content, which nothing reads before it is written, is zero here.\<close>

definition blk_alloc :: "nat \<Rightarrow> RawBlock \<Rightarrow> (nat \<times> RawBlock) option" where
  "blk_alloc sz blk =
     (let aligned_size = next_multiple_of sz sz
      in if aligned_size \<le> blk_free_space blk
         then Some (length (blk_bytes blk), blk\<lparr>blk_bytes := blk_bytes blk @ replicate aligned_size 0\<rparr>)
         else None)"

function alloc_loop :: "(nat \<Rightarrow> bool) \<Rightarrow> nat \<Rightarrow> RawBlock \<Rightarrow> (nat \<times> RawBlock) option" where
  "alloc_loop avail sz blk =
     (case blk_alloc sz blk of
        Some r \<Rightarrow> Some r
      | None \<Rightarrow> (case grow_new avail blk of None \<Rightarrow> None | Some blk' \<Rightarrow> alloc_loop avail sz blk'))"
  by pat_completeness auto
termination
  by (relation "measure (\<lambda>(_, sz, blk). next_multiple_of sz sz + length (blk_bytes blk) - blk_size blk)")
     (auto simp: blk_alloc_def grow_new_def RawBlock_new_def init_at_size_def ATOM_TABLE_INIT_SIZE_def
       blk_free_space_def Let_def split: if_splits)

declare alloc_loop.simps [simp del]

definition write_to_ptr :: "nat list \<Rightarrow> nat \<Rightarrow> RawBlock \<Rightarrow> RawBlock" where
  "write_to_ptr s off blk =
     (let bs = blk_bytes blk
      in blk\<lparr>blk_bytes := take off bs @ le_bytes 8 (2 * length s) @ s @ drop (off + 8 + length s) bs\<rparr>)"

section \<open>Atoms\<close>

definition atom_new_inlined :: "nat list \<Rightarrow> Atom" where
  "atom_new_inlined s = 2 * le_nat (s @ replicate (8 - length s) 0) + 1"

definition flat_index :: "Atom \<Rightarrow> nat" where "flat_index a = a div 2"

definition is_inlined :: "Atom \<Rightarrow> bool" where "is_inlined a = odd a"

definition is_static :: "nat list list \<Rightarrow> Atom \<Rightarrow> bool" where
  "is_static strings a = (if is_inlined a then True else flat_index a < length strings)"

definition inlined_to_str :: "nat list \<Rightarrow> nat list" where
  "inlined_to_str bs = take (if 0 \<in> set bs then length (until_zero bs) else INLINED_ATOM_MAX_LEN) bs"

text \<open>\<open>as_ptr\<close>: the length in the header at the offset (after the unused mark bit) and the name after it.\<close>

definition dynamic_str :: "RawBlock \<Rightarrow> nat \<Rightarrow> nat list" where
  "dynamic_str blk off =
     (let bs = drop off (blk_bytes blk); len = le_nat (take 8 bs) div 2 mod 2 ^ 50
      in take len (drop 8 bs))"

definition atom_as_str :: "nat list list \<Rightarrow> RawBlock \<Rightarrow> Atom \<Rightarrow> nat list" where
  "atom_as_str strings blk a =
     (if is_inlined a then inlined_to_str (le_bytes 8 (flat_index a))
      else if is_static strings a then strings ! flat_index a
      else dynamic_str blk (flat_index a - length strings))"

record AtomTable =
  at_block :: RawBlock
  at_table :: "Atom list"

definition AtomTable_new :: "(nat \<Rightarrow> bool) \<Rightarrow> AtomTable option" where
  "AtomTable_new avail = map_option (\<lambda>blk. \<lparr>at_block = blk, at_table = []\<rparr>) (RawBlock_new avail)"

definition as_str :: "nat list list \<Rightarrow> AtomTable \<Rightarrow> Atom \<Rightarrow> nat list" where
  "as_str strings t a = atom_as_str strings (at_block t) a"

definition lookup_str :: "nat list list \<Rightarrow> AtomTable \<Rightarrow> nat list \<Rightarrow> Atom option" where
  "lookup_str strings t s =
     (case STATIC_ATOMS_MAP strings s of
        Some a \<Rightarrow> Some a
      | None \<Rightarrow> find (\<lambda>a. as_str strings t a = s) (at_table t))"

text \<open>\<open>build_with\<close>; \<open>None\<close> is a panic: no memory, or a length or an offset too big for its field.\<close>

definition build_with :: "(nat \<Rightarrow> bool) \<Rightarrow> nat list list \<Rightarrow> nat list \<Rightarrow> AtomTable \<Rightarrow> (Atom \<times> AtomTable) option" where
  "build_with avail strings s t =
     (if inlinable s then Some (atom_new_inlined s, t)
      else case lookup_str strings t s of
             Some a \<Rightarrow> Some (a, t)
           | None \<Rightarrow>
               (case alloc_loop avail (next_multiple_of (8 + length s) 8) (at_block t) of
                  None \<Rightarrow> None
                | Some (off, blk) \<Rightarrow>
                    if length s < 2 ^ 50 \<and> length strings + off < 2 ^ 48 then
                      let a = 2 * (length strings + off)
                      in Some (a, \<lparr>at_block = write_to_ptr s off blk,
                                   at_table = (if a \<in> set (at_table t) then at_table t else at_table t @ [a])\<rparr>)
                    else None))"

definition defrock_brackets :: "(nat \<Rightarrow> bool) \<Rightarrow> nat list list \<Rightarrow> Atom \<Rightarrow> AtomTable \<Rightarrow> (Atom \<times> AtomTable) option" where
  "defrock_brackets avail strings a t =
     (let s = as_str strings t a
      in if s \<noteq> [] \<and> hd s = 40 \<and> last s = 41
         then build_with avail strings (take (length s - 2) (drop 1 s)) t
         else Some (a, t))"

text \<open>\<open>impl Ord for Atom\<close>: the order of the names, byte by byte.\<close>

fun str_less :: "nat list \<Rightarrow> nat list \<Rightarrow> bool" where
  "str_less xs [] = False"
| "str_less [] (y # ys) = True"
| "str_less (x # xs) (y # ys) = (x < y \<or> x = y \<and> str_less xs ys)"

definition atom_less :: "nat list list \<Rightarrow> AtomTable \<Rightarrow> Atom \<Rightarrow> Atom \<Rightarrow> bool" where
  "atom_less strings t a b = str_less (as_str strings t a) (as_str strings t b)"

section \<open>The contract of an interning table\<close>

text \<open>Interning several names one after the other.\<close>

fun intern_all :: "('s \<Rightarrow> 't \<Rightarrow> ('a \<times> 't) option) \<Rightarrow> 's list \<Rightarrow> 't \<Rightarrow> ('a list \<times> 't) option" where
  "intern_all intern [] t = Some ([], t)"
| "intern_all intern (s # ss) t =
     (case intern s t of
        None \<Rightarrow> None
      | Some (a, t') \<Rightarrow>
          (case intern_all intern ss t' of None \<Rightarrow> None | Some (as, t'') \<Rightarrow> Some (a # as, t'')))"

text \<open>
  What the machine relies on when it compares atoms by their number: an interned name is found under its
  atom, also after other names were interned, and two atoms of a table with one name are the same atom.
\<close>

locale interner =
  fixes intern :: "'s \<Rightarrow> 't \<Rightarrow> ('a \<times> 't) option"
    and str :: "'t \<Rightarrow> 'a \<Rightarrow> 's"
    and ok :: "'t \<Rightarrow> bool"
    and valid :: "'t \<Rightarrow> 'a \<Rightarrow> bool"
    and name :: "'s \<Rightarrow> bool"
  assumes intern_ok: "ok t \<Longrightarrow> name s \<Longrightarrow> intern s t = Some (a, t') \<Longrightarrow> ok t' \<and> valid t' a \<and> str t' a = s"
    and intern_keeps: "ok t \<Longrightarrow> name s \<Longrightarrow> intern s t = Some (a, t') \<Longrightarrow> valid t b \<Longrightarrow>
      valid t' b \<and> str t' b = str t b"
    and str_inj: "ok t \<Longrightarrow> valid t a \<Longrightarrow> valid t b \<Longrightarrow> str t a = str t b \<Longrightarrow> a = b"
begin

lemma intern_all_keeps:
  "intern_all intern ss t = Some (as, t') \<Longrightarrow> ok t \<Longrightarrow> list_all name ss \<Longrightarrow> valid t b \<Longrightarrow>
    ok t' \<and> valid t' b \<and> str t' b = str t b"
proof (induction ss arbitrary: t as)
  case (Cons s ss)
  then obtain a t1 bs where s: "intern s t = Some (a, t1)" and ss: "intern_all intern ss t1 = Some (bs, t')"
    by (auto split: option.splits)
  with Cons.prems intern_ok [of t s a t1] intern_keeps [of t s a t1 b] Cons.IH [OF ss] show ?case by simp
qed simp

lemma intern_all_ok:
  "intern_all intern ss t = Some (as, t') \<Longrightarrow> ok t \<Longrightarrow> list_all name ss \<Longrightarrow>
    ok t' \<and> list_all (valid t') as \<and> map (str t') as = ss"
proof (induction ss arbitrary: t as)
  case (Cons s ss)
  then obtain a t1 bs where s: "intern s t = Some (a, t1)" and ss: "intern_all intern ss t1 = Some (bs, t')"
    and as: "as = a # bs" by (auto split: option.splits)
  from s Cons.prems have t1: "ok t1" "valid t1 a" "str t1 a = s" using intern_ok [of t s a t1] by auto
  with ss Cons.prems have "ok t' \<and> valid t' a \<and> str t' a = s" using intern_all_keeps [OF ss t1(1), of a] by simp
  with Cons.IH [OF ss t1(1)] Cons.prems as show ?case by simp
qed simp

text \<open>Atoms are equal exactly when their names are, whenever they were made.\<close>

lemma intern_all_injective:
  assumes "intern_all intern ss t = Some (as, t')" and "ok t" and "list_all name ss"
    and "i < length ss" and "j < length ss"
  shows "as ! i = as ! j \<longleftrightarrow> ss ! i = ss ! j"
proof -
  from intern_all_ok [OF assms(1-3)] have ok: "ok t'" and v: "list_all (valid t') as" and ss: "map (str t') as = ss" by auto
  from ss assms(4,5) have ij: "i < length as" "j < length as" by auto
  moreover from ij ss have "str t' (as ! i) = ss ! i" "str t' (as ! j) = ss ! j" by auto
  moreover from v ij have "valid t' (as ! i)" "valid t' (as ! j)"
    by (simp_all add: list_all_length)
  ultimately show ?thesis using str_inj [OF ok, of "as ! i" "as ! j"] by metis
qed

end

section \<open>Well-formed tables\<close>

definition entry_len :: "nat list \<Rightarrow> nat \<Rightarrow> nat" where
  "entry_len bs off = le_nat (take 8 (drop off bs)) div 2 mod 2 ^ 50"

definition wf_block :: "RawBlock \<Rightarrow> bool" where
  "wf_block blk \<longleftrightarrow> length (blk_bytes blk) \<le> blk_size blk"

definition wf_entry :: "nat list list \<Rightarrow> RawBlock \<Rightarrow> Atom \<Rightarrow> bool" where
  "wf_entry strings blk a \<longleftrightarrow>
     even a \<and> length strings \<le> flat_index a \<and>
     (let off = flat_index a - length strings in off + 8 + entry_len (blk_bytes blk) off \<le> length (blk_bytes blk)) \<and>
     \<not> inlinable (atom_as_str strings blk a) \<and> atom_as_str strings blk a \<notin> set strings"

definition wf_table :: "nat list list \<Rightarrow> AtomTable \<Rightarrow> bool" where
  "wf_table strings t \<longleftrightarrow>
     wf_block (at_block t) \<and> list_all (wf_entry strings (at_block t)) (at_table t) \<and>
     distinct (map (as_str strings t) (at_table t))"

text \<open>The atoms a table has given out.\<close>

definition valid_atom :: "nat list list \<Rightarrow> AtomTable \<Rightarrow> Atom \<Rightarrow> bool" where
  "valid_atom strings t a \<longleftrightarrow>
     (if odd a then
        let s = as_str strings t a in inlinable s \<and> is_bytes s \<and> atom_new_inlined s = a
      else flat_index a < length strings \<or> a \<in> set (at_table t))"

definition wf_strings :: "nat list list \<Rightarrow> bool" where
  "wf_strings strings \<longleftrightarrow> distinct strings \<and> list_all (\<lambda>s. \<not> inlinable s) strings"

lemma index_static_strings_wf: "wf_strings (index_static_strings ss)"
  by (simp add: wf_strings_def index_static_strings_def list_all_iff)

lemma inlined_round_trip:
  assumes "inlinable s" and "is_bytes s"
  shows "inlined_to_str (le_bytes 8 (le_nat (s @ replicate (8 - length s) 0))) = s"
proof -
  from assms(1) have len: "length s \<le> 6" and z: "zero_free s"
    by (auto simp: inlinable_def INLINED_ATOM_MAX_LEN_def zero_free_def list_all_iff gr0_conv_Suc [symmetric] intro: gr0I)
  from len have "0 < 8 - length s" by simp
  then obtain k where k: "8 - length s = Suc k" by (cases "8 - length s") auto
  have "le_bytes 8 (le_nat (s @ replicate (8 - length s) 0)) = s @ replicate (8 - length s) 0"
    using le_bytes_le_nat [of "s @ replicate (8 - length s) 0"] assms(2) len by simp
  then show ?thesis using z k by (simp add: inlined_to_str_def)
qed

lemma as_str_inlined:
  "inlinable s \<Longrightarrow> is_bytes s \<Longrightarrow> atom_as_str strings blk (atom_new_inlined s) = s"
  using inlined_round_trip [of s] by (simp add: atom_as_str_def atom_new_inlined_def is_inlined_def flat_index_def)

lemma STATIC_ATOMS_MAP_Some:
  assumes "wf_strings strings"
  shows "STATIC_ATOMS_MAP strings s = Some a \<longleftrightarrow> (\<exists>i<length strings. strings ! i = s \<and> a = 2 * i)"
proof -
  have d: "distinct (map fst (zip strings (map (\<lambda>i. static_string_index (strings ! i) i) [0..<length strings])))"
    using assms by (simp add: wf_strings_def)
  have "static_string_index (strings ! i) i = 2 * i" if "i < length strings" for i
    using assms that by (simp add: wf_strings_def static_string_index_def list_all_length)
  then show ?thesis
    unfolding STATIC_ATOMS_MAP_def map_of_eq_Some_iff [OF d] by (auto simp: in_set_zip)
qed

lemma STATIC_ATOMS_MAP_None: "wf_strings strings \<Longrightarrow> STATIC_ATOMS_MAP strings s = None \<longleftrightarrow> s \<notin> set strings"
  by (simp add: STATIC_ATOMS_MAP_def map_of_eq_None_iff flip: set_map)

section \<open>Names in the block\<close>

lemma alloc_loop_appends:
  "alloc_loop avail sz blk = Some (off, blk') \<Longrightarrow> wf_block blk \<Longrightarrow>
    off = length (blk_bytes blk) \<and> blk_bytes blk' = blk_bytes blk @ replicate (next_multiple_of sz sz) 0 \<and> wf_block blk'"
proof (induction avail sz blk rule: alloc_loop.induct)
  case (1 avail sz blk)
  show ?case
  proof (cases "blk_alloc sz blk")
    case (Some r)
    with 1 show ?thesis
      by (auto simp: alloc_loop.simps [of _ _ blk] blk_alloc_def Let_def wf_block_def blk_free_space_def split: if_splits)
  next
    case None
    with "1.prems" obtain b where b: "grow_new avail blk = Some b" "alloc_loop avail sz b = Some (off, blk')"
      by (auto simp: alloc_loop.simps [of _ _ blk] split: option.splits)
    moreover have "blk_bytes b = blk_bytes blk" "wf_block b"
      using b(1) "1.prems"(2)
      by (auto simp: grow_new_def RawBlock_new_def init_at_size_def wf_block_def split: if_splits)
    ultimately show ?thesis using "1.IH" None by simp
  qed
qed

text \<open>Appending to the block changes no name in it.\<close>

lemma dynamic_str_append:
  assumes "off + 8 + entry_len (blk_bytes blk) off \<le> length (blk_bytes blk)"
    and "blk_bytes blk' = blk_bytes blk @ xs"
  shows "entry_len (blk_bytes blk') off = entry_len (blk_bytes blk) off \<and> dynamic_str blk' off = dynamic_str blk off"
proof -
  have "take 8 (drop off (blk_bytes blk @ xs)) = take 8 (drop off (blk_bytes blk))" using assms(1) by simp
  then show ?thesis using assms by (simp add: entry_len_def dynamic_str_def Let_def)
qed

lemma wf_entry_append:
  assumes "wf_entry strings blk a" and "blk_bytes blk' = blk_bytes blk @ xs"
  shows "wf_entry strings blk' a \<and> atom_as_str strings blk' a = atom_as_str strings blk a"
proof -
  from assms(1) have a: "even a" "length strings \<le> flat_index a"
    and off: "flat_index a - length strings + 8 + entry_len (blk_bytes blk) (flat_index a - length strings)
      \<le> length (blk_bytes blk)" unfolding wf_entry_def Let_def by blast+
  note same = dynamic_str_append [OF off assms(2)]
  then have "atom_as_str strings blk' a = atom_as_str strings blk a"
    using a by (simp add: atom_as_str_def is_inlined_def is_static_def)
  with same assms off show ?thesis by (simp add: wf_entry_def Let_def)
qed

lemma write_to_ptr_appends:
  assumes "off = length (blk_bytes blk)" and "blk_bytes blk' = blk_bytes blk @ replicate n 0" and "8 + length s \<le> n"
  shows "blk_bytes (write_to_ptr s off blk') =
    blk_bytes blk @ le_bytes 8 (2 * length s) @ s @ replicate (n - 8 - length s) 0"
  using assms by (simp add: write_to_ptr_def Let_def)

lemma written_entry:
  assumes "blk_bytes blk = bs @ le_bytes 8 (2 * length s) @ s @ xs" and "length s < 2 ^ 50"
  shows "entry_len (blk_bytes blk) (length bs) = length s \<and> dynamic_str blk (length bs) = s"
proof -
  have "le_nat (le_bytes 8 (2 * length s)) = 2 * length s" using assms(2) by (intro le_nat_le_bytes) simp
  then show ?thesis using assms by (simp add: entry_len_def dynamic_str_def Let_def)
qed

lemma next_multiple_of_self: "0 < n \<Longrightarrow> next_multiple_of n n = n"
proof -
  assume "0 < n"
  then have "(n + (n - 1)) div n = 1" by (intro div_nat_eqI) auto
  then show ?thesis by (simp add: next_multiple_of_def)
qed

section \<open>The contract holds\<close>

lemma find_Some_in: "find P xs = Some x \<Longrightarrow> x \<in> set xs \<and> P x"
  by (induction xs) (auto split: if_splits)

lemma wf_table_entry: "wf_table strings t \<Longrightarrow> a \<in> set (at_table t) \<Longrightarrow> wf_entry strings (at_block t) a"
  by (simp add: wf_table_def list_all_iff)

lemma valid_static: "i < length strings \<Longrightarrow> valid_atom strings t (2 * i) \<and> as_str strings t (2 * i) = strings ! i"
  by (simp add: valid_atom_def as_str_def atom_as_str_def is_inlined_def is_static_def flat_index_def)

lemma lookup_str_found:
  assumes "lookup_str strings t s = Some a" and "wf_strings strings" and "wf_table strings t"
  shows "valid_atom strings t a \<and> as_str strings t a = s"
proof (cases "STATIC_ATOMS_MAP strings s")
  case (Some b)
  with assms(1,2) show ?thesis
    by (auto simp: lookup_str_def STATIC_ATOMS_MAP_Some valid_static)
next
  case None
  with assms(1) have "a \<in> set (at_table t)" "as_str strings t a = s"
    using find_Some_in [of _ "at_table t" a] by (auto simp: lookup_str_def)
  with wf_table_entry [OF assms(3)] show ?thesis by (auto simp: valid_atom_def wf_entry_def)
qed

lemma lookup_str_missing:
  assumes "lookup_str strings t s = None" and "wf_strings strings"
  shows "s \<notin> set strings \<and> (\<forall>a\<in>set (at_table t). as_str strings t a \<noteq> s)"
  using assms by (auto simp: lookup_str_def STATIC_ATOMS_MAP_None find_None_iff split: option.splits)

text \<open>The table after a new name was written.\<close>

lemma wf_table_extend:
  assumes wf: "wf_table strings t" and s: "\<not> inlinable s" "s \<notin> set strings" "\<forall>a\<in>set (at_table t). as_str strings t a \<noteq> s"
    and blk: "blk_bytes blk = blk_bytes (at_block t) @ le_bytes 8 (2 * length s) @ s @ xs" "wf_block blk" "length s < 2 ^ 50"
  defines "a \<equiv> 2 * (length strings + length (blk_bytes (at_block t)))"
  defines "t' \<equiv> \<lparr>at_block = blk, at_table = at_table t @ [a]\<rparr>"
  shows "a \<notin> set (at_table t) \<and> wf_table strings t' \<and> as_str strings t' a = s \<and>
    (\<forall>b. valid_atom strings t b \<longrightarrow> valid_atom strings t' b \<and> as_str strings t' b = as_str strings t b)"
proof -
  note old = wf_entry_append [OF wf_table_entry [OF wf] blk(1)]
  have flat: "flat_index a = length strings + length (blk_bytes (at_block t))" "even a"
    by (simp_all add: a_def flat_index_def)
  have str: "atom_as_str strings blk a = s"
    using written_entry [OF blk(1,3)] flat by (simp add: atom_as_str_def is_inlined_def is_static_def)
  moreover have "wf_entry strings blk a"
    using written_entry [OF blk(1,3)] flat s str blk(1) by (simp add: wf_entry_def Let_def)
  moreover have fresh: "a \<notin> set (at_table t)"
  proof
    assume "a \<in> set (at_table t)"
    from wf_table_entry [OF wf this] flat show False by (simp add: wf_entry_def Let_def)
  qed
  moreover have keep: "as_str strings t' b = as_str strings t b" if "b \<in> set (at_table t)" for b
    using old [OF that] by (simp add: as_str_def t'_def)
  moreover have "distinct (map (as_str strings t') (at_table t'))"
  proof -
    have "map (as_str strings t') (at_table t) = map (as_str strings t) (at_table t)" using keep by simp
    moreover have "as_str strings t' a = s" "at_table t' = at_table t @ [a]" using str by (simp_all add: as_str_def t'_def)
    ultimately show ?thesis using wf s(3) by (auto simp: wf_table_def simp del: map_eq_conv)
  qed
  ultimately have "wf_table strings t'"
    using old blk(2) by (simp add: wf_table_def t'_def list_all_iff)
  moreover have "valid_atom strings t' b \<and> as_str strings t' b = as_str strings t b" if "valid_atom strings t b" for b
    using that keep
    by (cases "b \<in> set (at_table t)")
       (auto simp: valid_atom_def as_str_def t'_def atom_as_str_def is_inlined_def is_static_def split: if_splits)
  ultimately show ?thesis using fresh str by (simp add: as_str_def t'_def)
qed

lemma next_multiple_of_header: "next_multiple_of (next_multiple_of (8 + n) 8) (next_multiple_of (8 + n) 8) = next_multiple_of (8 + n) 8"
  by (rule next_multiple_of_self) (use next_multiple_of_8 [of "8 + n"] in linarith)

text \<open>The three ways a name gets its atom.\<close>

lemma build_with_cases [consumes 3, case_names inlined known new]:
  assumes "build_with avail strings s t = Some (a, t')" and "wf_strings strings" and "wf_table strings t"
  obtains "inlinable s" "a = atom_new_inlined s" "t' = t"
  | "\<not> inlinable s" "lookup_str strings t s = Some a" "t' = t"
  | "\<not> inlinable s" "lookup_str strings t s = None" "a \<notin> set (at_table t)" "wf_table strings t'"
    "as_str strings t' a = s" "at_table t' = at_table t @ [a]" "even a"
    "\<forall>b. valid_atom strings t b \<longrightarrow> valid_atom strings t' b \<and> as_str strings t' b = as_str strings t b"
proof -
  consider "inlinable s" | "\<not> inlinable s" "lookup_str strings t s \<noteq> None" | "\<not> inlinable s" "lookup_str strings t s = None"
    by blast
  then show ?thesis
  proof cases
    case 3
    define n where "n = next_multiple_of (8 + length s) 8"
    from 3 assms(1) obtain off blk where al: "alloc_loop avail n (at_block t) = Some (off, blk)"
      and lim: "length s < 2 ^ 50" and a: "a = 2 * (length strings + off)"
      and t': "t' = \<lparr>at_block = write_to_ptr s off blk,
        at_table = (if a \<in> set (at_table t) then at_table t else at_table t @ [a])\<rparr>"
      by (auto simp: build_with_def n_def Let_def split: option.splits if_splits)
    from assms(3) have "wf_block (at_block t)" by (simp add: wf_table_def)
    from alloc_loop_appends [OF al this] have off: "off = length (blk_bytes (at_block t))"
      and bytes: "blk_bytes blk = blk_bytes (at_block t) @ replicate n 0" and wf: "wf_block blk"
      by (simp_all add: n_def next_multiple_of_header)
    have n: "8 + length s \<le> n" unfolding n_def by (rule next_multiple_of_8(1))
    note w = write_to_ptr_appends [OF off bytes n]
    have wf': "wf_block (write_to_ptr s off blk)"
      using wf w bytes n by (simp add: wf_block_def write_to_ptr_def Let_def)
    from lookup_str_missing [OF 3(2) assms(2)] have miss: "s \<notin> set strings" "\<forall>a\<in>set (at_table t). as_str strings t a \<noteq> s"
      by auto
    from wf_table_extend [OF assms(3) 3(1) miss w wf' lim] a t' show ?thesis
      using 3 by (intro that(3)) (auto simp: off)
  next
    case 1
    then show ?thesis using assms(1) by (intro that(1)) (simp_all add: build_with_def)
  next
    case 2
    then obtain b where "lookup_str strings t s = Some b" by blast
    with 2 show ?thesis using assms(1) by (intro that(2)) (simp_all add: build_with_def)
  qed
qed

lemma build_with_valid:
  assumes "build_with avail strings s t = Some (a, t')" and "wf_strings strings" and "wf_table strings t" and "is_bytes s"
  shows "wf_table strings t' \<and> valid_atom strings t' a \<and> as_str strings t' a = s"
  using assms(1-3)
proof (cases rule: build_with_cases)
  case inlined
  with assms(3,4) as_str_inlined [of s] show ?thesis
    by (simp add: valid_atom_def as_str_def) (simp add: atom_new_inlined_def)
next
  case known
  with assms(3) lookup_str_found [OF known(2) assms(2,3)] show ?thesis by simp
next
  case new
  then show ?thesis by (simp add: valid_atom_def)
qed

lemma build_with_keeps:
  assumes "build_with avail strings s t = Some (a, t')" and "wf_strings strings" and "wf_table strings t"
    and "valid_atom strings t b"
  shows "valid_atom strings t' b \<and> as_str strings t' b = as_str strings t b"
  using assms(1-3) by (cases rule: build_with_cases) (use assms(4) in auto)

lemma valid_even:
  assumes "valid_atom strings t a" and "even a" and "wf_strings strings" and "wf_table strings t"
  shows "\<not> inlinable (as_str strings t a) \<and> (as_str strings t a \<in> set strings \<longleftrightarrow> flat_index a < length strings)"
proof (cases "flat_index a < length strings")
  case True
  then have "as_str strings t a = strings ! flat_index a"
    using assms(2) by (simp add: as_str_def atom_as_str_def is_inlined_def is_static_def)
  with True assms(3) show ?thesis by (auto simp: wf_strings_def list_all_iff)
next
  case False
  then have "a \<in> set (at_table t)" using assms(1,2) by (simp add: valid_atom_def)
  with False wf_table_entry [OF assms(4)] show ?thesis by (simp add: wf_entry_def as_str_def)
qed

lemma as_str_injective:
  assumes wf: "wf_strings strings" "wf_table strings t" and v: "valid_atom strings t a" "valid_atom strings t b"
    and eq: "as_str strings t a = as_str strings t b"
  shows "a = b"
proof (cases "odd a \<or> odd b")
  case True
  have inl: "inlinable (as_str strings t c)" if "valid_atom strings t c" "odd c" for c
    using that by (simp add: valid_atom_def Let_def)
  from True have "odd a \<and> odd b" using v eq inl valid_even [OF v(1) _ wf] valid_even [OF v(2) _ wf] by metis
  with v eq show ?thesis by (auto simp: valid_atom_def Let_def)
next
  case False
  note even = valid_even [OF v(1) _ wf] valid_even [OF v(2) _ wf]
  show ?thesis
  proof (cases "flat_index a < length strings")
    case True
    then have "flat_index b < length strings" using even eq False by simp
    with True eq False wf(1) have "flat_index a = flat_index b"
      by (simp add: as_str_def atom_as_str_def is_inlined_def is_static_def wf_strings_def nth_eq_iff_index_eq)
    with False show ?thesis by (auto simp: flat_index_def elim!: evenE)
  next
    case nst: False
    then have "\<not> flat_index b < length strings" using even eq False by simp
    with nst v False have "a \<in> set (at_table t)" "b \<in> set (at_table t)" by (simp_all add: valid_atom_def)
    with wf(2) eq show ?thesis by (auto simp: wf_table_def distinct_map dest: inj_onD)
  qed
qed

interpretation atoms: interner "build_with avail (index_static_strings names)"
  "as_str (index_static_strings names)" "wf_table (index_static_strings names)"
  "valid_atom (index_static_strings names)" is_bytes for avail names
  by unfold_locales
    (use index_static_strings_wf [of names] build_with_valid build_with_keeps as_str_injective in blast)+

lemma wf_table_new: "AtomTable_new avail = Some t \<Longrightarrow> wf_table strings t"
  by (auto simp: AtomTable_new_def RawBlock_new_def init_at_size_def wf_table_def wf_block_def split: if_splits)

lemma alloc_loop_total: "\<exists>off blk'. alloc_loop (\<lambda>_. True) sz blk = Some (off, blk')"
proof (induction "\<lambda>_ :: nat. True" sz blk rule: alloc_loop.induct)
  case (1 sz blk)
  show ?case
  proof (cases "blk_alloc sz blk")
    case None
    moreover obtain b where "grow_new (\<lambda>_. True) blk = Some b"
      by (cases "blk_size blk = 0") (simp_all add: grow_new_def RawBlock_new_def init_at_size_def)
    ultimately show ?thesis using 1 by (subst alloc_loop.simps) simp
  qed (auto simp: alloc_loop.simps [of _ _ blk])
qed

lemma build_with_again:
  assumes "build_with avail strings s t = Some (a, t')" and "wf_strings strings" and "wf_table strings t" and "is_bytes s"
  shows "build_with avail' strings s t' = Some (a, t')"
  using assms(1-3)
proof (cases rule: build_with_cases)
  case new
  from build_with_valid [OF assms] have "wf_table strings t'" "as_str strings t' a = s" by auto
  moreover have "STATIC_ATOMS_MAP strings s = None" "\<forall>b\<in>set (at_table t). as_str strings t b \<noteq> s"
    using lookup_str_missing [OF new(2) assms(2)] STATIC_ATOMS_MAP_None [OF assms(2)] by auto
  moreover have "as_str strings t' b = as_str strings t b" if "b \<in> set (at_table t)" for b
    using new(8) that wf_table_entry [OF assms(3) that] by (auto simp: valid_atom_def wf_entry_def)
  then have "find (\<lambda>b. as_str strings t' b = s) (at_table t) = None"
    using \<open>\<forall>b\<in>set (at_table t). as_str strings t b \<noteq> s\<close> by (simp add: find_None_iff)
  moreover have "find P (xs @ ys) = (case find P xs of Some x \<Rightarrow> Some x | None \<Rightarrow> find P ys)" for P and xs ys :: "nat list"
    by (induction xs) auto
  ultimately have "lookup_str strings t' s = Some a" using new(6) by (simp add: lookup_str_def)
  with new(1) show ?thesis by (simp add: build_with_def)
qed (use assms(1) in \<open>auto simp: build_with_def\<close>)

section \<open>Properties\<close>

text \<open>
  C30: Any names interned one after the other in a well-formed table get atoms under which they are read
  back from the final table, and two of these atoms are the same number exactly when their names are the
  same, be they inlined, static or in the block and whether or not the block was moved in between; the
  table stays well-formed.
\<close>
theorem interned_names_read_back:
  assumes "intern_all (build_with avail (index_static_strings names)) ss t = Some (as, t')"
    and "wf_table (index_static_strings names) t" and "list_all is_bytes ss"
  shows "wf_table (index_static_strings names) t' \<and> map (as_str (index_static_strings names) t') as = ss \<and>
    (\<forall>i<length ss. \<forall>j<length ss. as ! i = as ! j \<longleftrightarrow> ss ! i = ss ! j)"
  using atoms.intern_all_ok [OF assms] atoms.intern_all_injective [OF assms] by simp

theorem interned_names_read_back_witness:
  "\<exists>t as t'. AtomTable_new (\<lambda>_. True) = Some t \<and>
     intern_all (build_with (\<lambda>_. True) (index_static_strings [[0], [97]])) [[98, 99], [0], [97, 98, 99, 100, 101, 102, 103], [98, 99]] t =
       Some (as, t') \<and>
     as ! 0 = as ! 3 \<and> as ! 1 \<noteq> as ! 2"
proof -
  let ?str = "index_static_strings [[0], [97]]" and ?ss = "[[98, 99], [0], [97, 98, 99, 100, 101, 102, 103], [98, 99]] :: nat list list"
  obtain t where t: "AtomTable_new (\<lambda>_. True) = Some t" by (auto simp: AtomTable_new_def RawBlock_new_def init_at_size_def)
  then obtain as t' where r: "intern_all (build_with (\<lambda>_. True) ?str) ?ss t = Some (as, t')"
    by (auto simp: AtomTable_new_def RawBlock_new_def init_at_size_def ATOM_TABLE_INIT_SIZE_def build_with_def lookup_str_def
        STATIC_ATOMS_MAP_def inlinable_def INLINED_ATOM_MAX_LEN_def index_static_strings_def static_string_index_def
        next_multiple_of_def alloc_loop.simps blk_alloc_def blk_free_space_def)
  have "list_all is_bytes ?ss" by simp
  from interned_names_read_back [OF r wf_table_new [OF t] this]
  have "\<forall>i<length ?ss. \<forall>j<length ?ss. as ! i = as ! j \<longleftrightarrow> ?ss ! i = ?ss ! j" by blast
  from this [rule_format, of 0 3] this [rule_format, of 1 2] t r show ?thesis by (intro exI conjI) simp_all
qed

text \<open>
  C31: While memory lasts, interning a name that fits its header in a table whose block fits the name field
  of a cell returns an atom, and interning the same name again returns the same atom, needs no memory and
  leaves the table as it is.
\<close>
theorem interning_succeeds_once:
  assumes "wf_table (index_static_strings names) t" and "is_bytes s" and "length s < 2 ^ 50"
    and "length (index_static_strings names) + length (blk_bytes (at_block t)) < 2 ^ 48"
  shows "\<exists>a t'. build_with (\<lambda>_. True) (index_static_strings names) s t = Some (a, t') \<and>
    build_with (\<lambda>_. False) (index_static_strings names) s t' = Some (a, t')"
proof -
  obtain off blk where al: "alloc_loop (\<lambda>_. True) (next_multiple_of (8 + length s) 8) (at_block t) = Some (off, blk)"
    using alloc_loop_total by blast
  with assms(1) have "off = length (blk_bytes (at_block t))" using alloc_loop_appends by (simp add: wf_table_def)
  with al assms(3,4) have "build_with (\<lambda>_. True) (index_static_strings names) s t \<noteq> None"
    by (simp add: build_with_def Let_def split: option.splits)
  then obtain a t' where b: "build_with (\<lambda>_. True) (index_static_strings names) s t = Some (a, t')" by auto
  with build_with_again [OF this index_static_strings_wf assms(1,2)] show ?thesis by blast
qed

theorem interning_succeeds_once_witness:
  "\<exists>t a t'. AtomTable_new (\<lambda>_. True) = Some t \<and>
     build_with (\<lambda>_. True) (index_static_strings [[0]]) [97, 98, 99, 100, 101, 102, 103] t = Some (a, t') \<and>
     build_with (\<lambda>_. False) (index_static_strings [[0]]) [97, 98, 99, 100, 101, 102, 103] t' = Some (a, t')"
proof -
  obtain t where t: "AtomTable_new (\<lambda>_. True) = Some t" by (auto simp: AtomTable_new_def RawBlock_new_def init_at_size_def)
  then have "blk_bytes (at_block t) = []" by (auto simp: AtomTable_new_def RawBlock_new_def init_at_size_def)
  with interning_succeeds_once [of "[[0]]" t "[97, 98, 99, 100, 101, 102, 103]"] wf_table_new [OF t] t show ?thesis
    by (auto simp: index_static_strings_def inlinable_def)
qed

end
