(* ===== verification/HeapStrings.thy ===== *)
theory HeapStrings
  imports Utf8 HeapMem AtomTable
begin

text \<open>
  Strings in the heap (\<open>src/src/machine/heap.rs\<close>). A segment is the UTF-8 bytes of a string without
  null characters, from a cell boundary on, followed by at least two zero bytes up to the cell that holds
  its tail; a \<open>PStrLoc\<close> cell may point at any character inside. A null character is an element of a list
  between two segments.
\<close>

section \<open>String segments\<close>

definition pstr_sentinel_length :: "nat \<Rightarrow> nat" where
  "pstr_sentinel_length chunk_len =
     (let res = next_multiple_of chunk_len ALIGN - chunk_len in if res = 0 then ALIGN else res)"

text \<open>
  \<open>scan_slice_to_str\<close> of the slice \<open>bs\<close> that starts at the byte \<open>loc\<close> of the heap: its string
  and how many cells after that of \<open>loc\<close> the tail is.
\<close>

definition scan_slice :: "nat \<Rightarrow> byte list \<Rightarrow> byte list \<times> nat" where
  "scan_slice loc bs =
     (let string_len = length (until_zero bs);
          sentinel_len = pstr_sentinel_length (loc + string_len);
          tail_idx = cell_index (next_multiple_of (string_len + sentinel_len) ALIGN +
            (if sentinel_len \<le> 1 then heap_index 1 else 0))
      in (until_zero bs, tail_idx))"

definition scan_slice_from_start :: "byte list \<Rightarrow> byte list \<times> nat" where
  "scan_slice_from_start bs =
     (let string_len = length (until_zero bs);
          sentinel_len = pstr_sentinel_length string_len;
          tail_idx = cell_index (next_multiple_of (string_len + sentinel_len) ALIGN +
            (if sentinel_len \<le> 1 then heap_index 1 else 0))
      in (until_zero bs, tail_idx))"

definition scan_slice_to_str :: "Heap \<Rightarrow> nat \<Rightarrow> byte list \<times> nat" where
  "scan_slice_to_str h slice_loc =
     (case scan_slice slice_loc (drop slice_loc (mem h)) of
        (string, tail_idx) \<Rightarrow> (string, cell_index slice_loc + tail_idx))"

definition pstr_tail_idx :: "nat \<Rightarrow> nat" where
  "pstr_tail_idx pstr_zero_byte_loc =
     (if (pstr_zero_byte_loc + 1) mod ALIGN = 0
      then cell_index pstr_zero_byte_loc + 2 else cell_index pstr_zero_byte_loc + 1)"

text \<open>\<open>push_pstr_segment\<close> appends to a reserved section, at a cell boundary; it returns the cells written.\<close>

definition push_pstr_segment :: "byte list \<Rightarrow> Heap \<Rightarrow> nat \<times> Heap" where
  "push_pstr_segment src h =
     (if src = [] then (0, h)
      else
        let align_offset = pstr_sentinel_length (byte_len h + length src);
            zeros = align_offset + (if align_offset = 1 then 8 else 0)
        in (cell_index (length src + zeros), h\<lparr>mem := mem h @ src @ replicate zeros 0\<rparr>))"

text \<open>\<open>char_iter\<close>: the characters from a byte on, up to a zero byte.\<close>

definition char_iter :: "Heap \<Rightarrow> nat \<Rightarrow> uchar list" where
  "char_iter h pstr_loc = takeWhile (\<lambda>c. c \<noteq> 0) (fst (utf8_prefix (drop pstr_loc (mem h))))"

datatype pstr_succ = SuccVar nat | SuccPStr nat

text \<open>The first character at a byte and the cell for what follows it.\<close>

definition last_str_char_and_tail :: "Heap \<Rightarrow> nat \<Rightarrow> (uchar \<times> pstr_succ) option" where
  "last_str_char_and_tail h loc =
     (let slice = drop loc (mem h)
      in case fst (utf8_prefix slice) of
           [] \<Rightarrow> None
         | c # cs \<Rightarrow>
             if cs = [] \<or> hd cs = 0
             then Some (c, SuccVar (snd (scan_slice loc slice) + cell_index loc))
             else Some (c, SuccPStr (loc + len_utf8 c)))"

definition copy_pstr_within :: "(nat \<Rightarrow> bool) \<Rightarrow> nat \<Rightarrow> Heap \<Rightarrow> (nat \<times> Heap) option" where
  "copy_pstr_within avail pstr_loc h =
     (case scan_slice_to_str h pstr_loc of
        (string, tail_idx) \<Rightarrow>
          let align_offset = pstr_sentinel_length (length string);
              copy_size = length string + align_offset
          in map_option
               (\<lambda>h. (tail_idx,
                  h\<lparr>mem := mem h @ string @ replicate (align_offset + (if align_offset = 1 then 8 else 0)) 0\<rparr>))
               (grow_until avail copy_size h))"

text \<open>The size in bytes that \<open>allocate_pstr\<close> reserves; a zero byte takes two cells of a list.\<close>

function compute_pstr_size_from :: "byte list \<Rightarrow> nat" where
  "compute_pstr_size_from src =
     (case src of
        [] \<Rightarrow> 0
      | b # rest \<Rightarrow>
          if b = 0 then heap_index 2 + compute_pstr_size_from rest
          else (case scan_slice_from_start src of
                  (string, tail_idx) \<Rightarrow>
                    compute_pstr_size_from (drop (length string) src) + heap_index tail_idx))"
  by pat_completeness auto
termination
  by (relation "measure length") (auto simp: scan_slice_from_start_def until_zero_def Let_def)

declare compute_pstr_size_from.simps [simp del]

definition compute_pstr_size :: "byte list \<Rightarrow> nat" where
  "compute_pstr_size src = compute_pstr_size_from src + heap_index 1"

section \<open>Whole strings\<close>

text \<open>The cells of atoms and characters; the null character is the one that is not inlined.\<close>

definition atom_as_cell :: "Atom \<Rightarrow> HeapCellValue option" where
  "atom_as_cell a = atom_cell_build_with a 0"

definition NULL_ATOM :: "nat list list \<Rightarrow> Atom" where
  "NULL_ATOM strings = (case STATIC_ATOMS_MAP strings [0] of Some a \<Rightarrow> a | None \<Rightarrow> 0)"

definition char_as_cell :: "nat list list \<Rightarrow> uchar \<Rightarrow> HeapCellValue option" where
  "char_as_cell strings c =
     (if c = 0 then atom_as_cell (NULL_ATOM strings) else atom_as_cell (atom_new_inlined (encode_utf8 c)))"

definition empty_list_atom :: Atom where
  "empty_list_atom = atom_new_inlined (encode_all (atm ''[]''))"

definition dot_atom :: Atom where
  "dot_atom = atom_new_inlined (encode_all (atm ''.''))"

definition empty_list_as_cell :: "HeapCellValue option" where
  "empty_list_as_cell = atom_as_cell empty_list_atom"

text \<open>\<open>push_pstr\<close>: the cell for the string (none for the empty string) and the section after it.\<close>

definition pstr_entry :: "HeapCellValueTag \<Rightarrow> (nat \<Rightarrow> nat) \<Rightarrow> HeapCellValue option \<Rightarrow> Heap \<Rightarrow> (HeapCellValue option \<times> Heap) option" where
  "pstr_entry tag loc r h =
     (case r of
        Some _ \<Rightarrow> map_option (\<lambda>c. (r, section_push_cell c h)) (cell_build_with tag (loc (cell_len h + 1)))
      | None \<Rightarrow> map_option (\<lambda>c. (Some c, h)) (cell_build_with tag (loc (cell_len h))))"

function push_pstr_loop ::
  "nat list list \<Rightarrow> nat list \<Rightarrow> HeapCellValue option \<Rightarrow> Heap \<Rightarrow> (HeapCellValue option \<times> Heap) option" where
  "push_pstr_loop strings [] r h = Some (r, h)"
| "push_pstr_loop strings (b # src) r h =
     (if b = 0 then
        (case (pstr_entry TLis (\<lambda>n. n) r h, char_as_cell strings 0) of
           (Some (r', h1), Some null) \<Rightarrow> push_pstr_loop strings src r' (section_push_cell null h1)
         | _ \<Rightarrow> None)
      else
        (case pstr_entry TPStrLoc heap_index r h of
           None \<Rightarrow> None
         | Some (r', h1) \<Rightarrow>
             let string = until_zero (b # src); h2 = snd (push_pstr_segment string h1)
             in (case drop (length string) (b # src) of
                   [] \<Rightarrow> Some (r', h2)
                 | _ # rest \<Rightarrow>
                     (case (cell_build_with TLis (cell_len h2 + 1), char_as_cell strings 0) of
                        (Some c, Some null) \<Rightarrow>
                          push_pstr_loop strings rest r' (section_push_cell null (section_push_cell c h2))
                      | _ \<Rightarrow> None))))"
  by pat_completeness auto
termination
  by (relation "measure (\<lambda>(_, src, _, _). length src)")
     (auto simp: until_zero_def dest!: arg_cong [where f = length])

declare push_pstr_loop.simps(2) [simp del]

definition push_pstr :: "nat list list \<Rightarrow> nat list \<Rightarrow> Heap \<Rightarrow> (HeapCellValue option \<times> Heap) option" where
  "push_pstr strings src h = push_pstr_loop strings src None h"

text \<open>\<open>compute_pstr_size\<close> counts bytes, \<open>reserve\<close> takes cells.\<close>

definition allocate_pstr :: "(nat \<Rightarrow> bool) \<Rightarrow> nat list list \<Rightarrow> nat list \<Rightarrow> Heap \<Rightarrow> (HeapCellValue \<times> Heap) option" where
  "allocate_pstr avail strings src h =
     (case reserve avail (compute_pstr_size src) h of
        None \<Rightarrow> None
      | Some h1 \<Rightarrow>
          (case push_pstr strings src h1 of
             None \<Rightarrow> None
           | Some (None, h2) \<Rightarrow> map_option (\<lambda>c. (c, h2)) empty_list_as_cell
           | Some (Some cell, h2) \<Rightarrow> Some (cell, h2)))"

definition allocate_cstr :: "(nat \<Rightarrow> bool) \<Rightarrow> nat list list \<Rightarrow> nat list \<Rightarrow> Heap \<Rightarrow> (HeapCellValue \<times> Heap) option" where
  "allocate_cstr avail strings src h =
     (case reserve avail (compute_pstr_size src + 1) h of
        None \<Rightarrow> None
      | Some h1 \<Rightarrow>
          (case (push_pstr strings src h1, empty_list_as_cell) of
             (Some (None, h2), Some nil) \<Rightarrow> Some (nil, h2)
           | (Some (Some cell, h2), Some nil) \<Rightarrow> Some (cell, section_push_cell nil h2)
           | _ \<Rightarrow> None))"

text \<open>\<open>as_char\<close> of a cell: the character of an atom with a name of one character.\<close>

definition atom_as_char :: "nat list list \<Rightarrow> AtomTable \<Rightarrow> Atom \<Rightarrow> uchar option" where
  "atom_as_char strings t a = (case fst (utf8_prefix (as_str strings t a)) of [c] \<Rightarrow> Some c | _ \<Rightarrow> None)"

definition cell_as_char :: "nat list list \<Rightarrow> AtomTable \<Rightarrow> HeapCellValue \<Rightarrow> uchar option" where
  "cell_as_char strings t w =
     (if cell_get_tag w = TAtom \<and> atom_get_arity w = 0 then atom_as_char strings t (atom_get_name w) else None)"

section \<open>Comparing segments\<close>

datatype PStrContinuable = PStrOffset nat | TailIndex nat

fun offset_by :: "PStrContinuable \<Rightarrow> nat \<Rightarrow> pstr_succ" where
  "offset_by (PStrOffset off) pstr_loc = SuccPStr (pstr_loc + off)"
| "offset_by (TailIndex tail_idx) pstr_loc = SuccVar (tail_idx + cell_index pstr_loc)"

datatype PStrSegmentCmpResult = CmpLess | CmpGreater | Continue PStrContinuable PStrContinuable | CmpUnreachable

text \<open>
  \<open>utf8_chunks\<close> of the standard library: the valid parts between the invalid sequences, of which
  each is the longest beginning of a character, of one to three bytes.
\<close>

definition invalid_len :: "byte list \<Rightarrow> nat" where
  "invalid_len bs =
     (case bs of
        b0 # b1 # rest \<Rightarrow>
          if 0xE0 \<le> b0 \<and> b0 < 0xF0 \<and> is_cont b1 \<and> (b0 = 0xE0 \<longrightarrow> 0xA0 \<le> b1) \<and> (b0 = 0xED \<longrightarrow> b1 < 0xA0) then 2
          else if 0xF0 \<le> b0 \<and> b0 < 0xF5 \<and> is_cont b1 \<and> (b0 = 0xF0 \<longrightarrow> 0x90 \<le> b1) \<and> (b0 = 0xF4 \<longrightarrow> b1 < 0x90) then
            (case rest of b2 # _ \<Rightarrow> if is_cont b2 then 3 else 2 | [] \<Rightarrow> 2)
          else 1
      | _ \<Rightarrow> 1)"

lemma invalid_len_pos: "0 < invalid_len bs"
  by (simp add: invalid_len_def split: list.splits)

function utf8_chunks :: "byte list \<Rightarrow> byte list list" where
  "utf8_chunks bs =
     (if bs = [] then []
      else let n = snd (utf8_prefix bs); rest = drop n bs
           in take n bs # utf8_chunks (drop (invalid_len rest) rest))"
  by pat_completeness auto
termination
  by (relation "measure length") (auto simp: invalid_len_pos less_diff_conv2 Let_def intro!: diff_less)

declare utf8_chunks.simps [simp del]

text \<open>The order of the first chunks that differ (byte by byte, which is the order of the characters).\<close>

fun bytes_less :: "byte list \<Rightarrow> byte list \<Rightarrow> bool" where
  "bytes_less [] ys = (ys \<noteq> [])"
| "bytes_less (x # xs) [] = False"
| "bytes_less (x # xs) (y # ys) = (x < y \<or> x = y \<and> bytes_less xs ys)"

fun compare_chunks :: "byte list list \<Rightarrow> byte list list \<Rightarrow> PStrSegmentCmpResult" where
  "compare_chunks (c1 # cs1) (c2 # cs2) =
     (if c1 = c2 then compare_chunks cs1 cs2 else if bytes_less c2 c1 then CmpGreater else CmpLess)"
| "compare_chunks _ _ = CmpUnreachable"

text \<open>The first position at which the slices differ or end.\<close>

fun diff_pos :: "byte list \<Rightarrow> byte list \<Rightarrow> nat" where
  "diff_pos (b1 # bs1) (b2 # bs2) = (if b1 \<noteq> b2 \<or> b1 = 0 \<or> b2 = 0 then 0 else Suc (diff_pos bs1 bs2))"
| "diff_pos _ _ = 0"

definition byte_at :: "byte list \<Rightarrow> nat \<Rightarrow> byte" where
  "byte_at bs i = (if i < length bs then bs ! i else 0)"

text \<open>
  \<open>compare_pstr_slices\<close>; \<open>loc1\<close> and \<open>loc2\<close> are the addresses of the slices. The offset
  of the address in its cell is added to the position of a tail in all cases but one.
\<close>

definition compare_pstr_slices :: "nat \<Rightarrow> byte list \<Rightarrow> nat \<Rightarrow> byte list \<Rightarrow> PStrSegmentCmpResult" where
  "compare_pstr_slices loc1 sl1 loc2 sl2 =
     (let pos = diff_pos sl1 sl2;
          tail1_idx = snd (scan_slice (loc1 + pos) (drop pos sl1));
          tail2_idx = snd (scan_slice (loc2 + pos) (drop pos sl2));
          offset_pos_1 = loc1 mod ALIGN;
          offset_pos_2 = loc2 mod ALIGN
      in if byte_at sl1 pos = 0 then
           if byte_at sl2 pos = 0 then
             Continue (TailIndex (tail1_idx + cell_index (pos + offset_pos_1)))
               (TailIndex (tail2_idx + cell_index (pos + offset_pos_2)))
           else Continue (TailIndex (tail1_idx + cell_index pos)) (PStrOffset pos)
         else if byte_at sl2 pos = 0 then
           Continue (PStrOffset pos) (TailIndex (tail2_idx + cell_index (pos + offset_pos_2)))
         else compare_chunks (utf8_chunks (take (min (pos + 4) (length sl1) - (pos - 3)) (drop (pos - 3) sl1)))
                (utf8_chunks (take (min (pos + 4) (length sl2) - (pos - 3)) (drop (pos - 3) sl2))))"

definition compare_pstr_segments :: "Heap \<Rightarrow> nat \<Rightarrow> nat \<Rightarrow> PStrSegmentCmpResult" where
  "compare_pstr_segments h pstr_loc1 pstr_loc2 =
     compare_pstr_slices pstr_loc1 (drop pstr_loc1 (mem h)) pstr_loc2 (drop pstr_loc2 (mem h))"

section \<open>Where a segment ends\<close>

lemma next_multiple_of_split:
  assumes "b < 8"
  shows "next_multiple_of (8 * a + b) 8 = (if b = 0 then 8 * a else 8 * (a + 1))"
proof -
  have "(8 * a + b + 7) div 8 = a + (b + 7) div 8" by simp
  moreover have "(b + 7) div 8 = (if b = 0 then 0 else 1)" using assms by (auto intro!: div_nat_eqI)
  ultimately show ?thesis by (simp add: next_multiple_of_def)
qed

lemma sentinel_split: "b < 8 \<Longrightarrow> pstr_sentinel_length (8 * a + b) = 8 - b"
  by (simp add: pstr_sentinel_length_def ALIGN_def next_multiple_of_split)

lemma sentinel_eq: "pstr_sentinel_length n = 8 - n mod 8"
  using sentinel_split [of "n mod 8" "n div 8"] by simp

text \<open>A scan that starts \<open>k\<close> bytes after a cell boundary finds the tail after the first zero byte.\<close>

lemma scan_tail_idx:
  assumes "length (until_zero bs) = n"
  shows "cell_index loc + snd (scan_slice loc bs) = pstr_tail_idx (loc + n)"
proof -
  define r where "r = loc mod 8"
  define q where "q = loc div 8"
  have loc: "loc = 8 * q + r" "r < 8" by (simp_all add: q_def r_def)
  define m where "m = (r + n) mod 8"
  define d where "d = (r + n) div 8"
  have rn: "r + n = 8 * d + m" "m < 8" by (simp_all add: m_def d_def)
  have "loc + n = 8 * (q + d) + m" using rn loc(1) by simp
  then have s: "pstr_sentinel_length (loc + n) = 8 - m" by (simp only: sentinel_split [OF rn(2)])
  have up: "next_multiple_of (n + (8 - m)) 8 = 8 * (d + 1)"
  proof (cases "r = 0")
    case True
    then have "n + (8 - m) = 8 * (d + 1) + 0" using rn by simp
    then show ?thesis using next_multiple_of_split [of 0 "d + 1"] by simp
  next
    case False
    then have "n + (8 - m) = 8 * d + (8 - r)" using rn loc(2) by simp
    then show ?thesis using next_multiple_of_split [of "8 - r" d] loc(2) False by simp
  qed
  have tail: "pstr_tail_idx (loc + n) = q + d + (if m = 7 then 2 else 1)"
  proof -
    have sum: "loc + n = 8 * (q + d) + m" using rn loc(1) by simp
    have "(loc + n) div 8 = q + d" unfolding sum using rn(2) by simp
    moreover have "loc + n + 1 = m + 1 + (q + d) * 8" using sum by simp
    then have "(loc + n + 1) mod 8 = (m + 1) mod 8" by (simp only: mod_mult_self1)
    moreover have "(m + 1) mod 8 = 0 \<longleftrightarrow> m = 7" using rn(2) by presburger
    ultimately show ?thesis by (simp add: pstr_tail_idx_def index_defs)
  qed
  have "snd (scan_slice loc bs) = cell_index (next_multiple_of (n + (8 - m)) ALIGN + (if 8 - m \<le> 1 then heap_index 1 else 0))"
    by (simp only: scan_slice_def Let_def snd_conv assms s)
  also have "\<dots> = (8 * (d + 1) + (if 8 - m \<le> 1 then 8 else 0)) div 8"
    by (simp only: ALIGN_def up cell_index_def heap_index_def mult_1)
  also have "\<dots> = d + (if m = 7 then 2 else 1)" using rn(2) by auto
  finally have "snd (scan_slice loc bs) = d + (if m = 7 then 2 else 1)" .
  then show ?thesis using tail by (simp add: index_defs q_def)
qed

section \<open>Reading segments back\<close>

text \<open>A later heap that still has the bytes of an earlier one from an offset on.\<close>

definition keeps :: "nat \<Rightarrow> Heap \<Rightarrow> Heap \<Rightarrow> bool" where
  "keeps off h H \<longleftrightarrow> length (mem h) \<le> length (mem H) \<and> (\<forall>i. off \<le> i \<and> i < length (mem h) \<longrightarrow> mem H ! i = mem h ! i)"

lemma keeps_prefix: "keeps off h2 H \<Longrightarrow> mem h2 = mem h @ bs \<Longrightarrow> keeps off h H"
  by (auto simp: keeps_def nth_append)

lemma keeps_bytes:
  assumes "keeps off h2 H" and "mem h2 = mem h @ bs" and "off \<le> length (mem h)"
  shows "\<exists>rest. drop (length (mem h)) (mem H) = bs @ rest"
proof -
  have len: "length (mem h) + length bs \<le> length (mem H)" using assms(1,2) by (simp add: keeps_def)
  have "mem H ! (length (mem h) + i) = bs ! i" if "i < length bs" for i
    using assms that by (simp add: keeps_def)
  then have "take (length bs) (drop (length (mem h)) (mem H)) = bs"
    using len by (intro nth_equalityI) simp_all
  then show ?thesis by (metis append_take_drop_id)
qed

lemma keeps_cell:
  assumes "keeps off h2 H" and "mem h2 = mem h @ cell_bytes c @ bs" and "off \<le> length (mem h)" and "8 dvd length (mem h)"
  shows "hcell H (cell_len h) = c"
proof -
  obtain rest where "drop (length (mem h)) (mem H) = (cell_bytes c @ bs) @ rest"
    using keeps_bytes [OF assms(1-3)] by blast
  moreover have "heap_index (cell_len h) = length (mem h)" using assms(4) by (simp add: index_defs)
  ultimately show ?thesis by (simp add: hcell_def)
qed

lemma push_pstr_segment_mem:
  assumes "src \<noteq> []"
  obtains zeros where "2 \<le> zeros" "mem (snd (push_pstr_segment src h)) = mem h @ src @ replicate zeros 0"
    "byte_cap (snd (push_pstr_segment src h)) = byte_cap h"
    "8 dvd length (mem h) + length src + zeros" "zeros \<le> 9"
    "cell_len (snd (push_pstr_segment src h)) = pstr_tail_idx (length (mem h) + length src)"
proof -
  define z where "z = length (mem h) + length src"
  define zeros where "zeros = (8 - z mod 8) + (if 8 - z mod 8 = 1 then 8 else 0)"
  define q where "q = z div 8"
  define m where "m = z mod 8"
  have zq: "z = 8 * q + m" "m < 8" by (simp_all add: q_def m_def)
  have mem: "mem (snd (push_pstr_segment src h)) = mem h @ src @ replicate zeros 0"
    using assms by (simp add: push_pstr_segment_def Let_def sentinel_eq zeros_def z_def byte_len_def)
  have zeros: "zeros = (if m = 7 then 9 else 8 - m)" using zq(2) by (auto simp: zeros_def m_def [symmetric])
  have sum: "z + zeros = 8 * (q + (if m = 7 then 2 else 1))" using zq zeros by auto
  have "pstr_tail_idx z = q + (if m = 7 then 2 else 1)"
  proof -
    have "z div 8 = q" by (simp add: q_def)
    moreover have "(z + 1) mod 8 = 0 \<longleftrightarrow> m = 7"
    proof -
      have "z + 1 = m + 1 + q * 8" using zq(1) by simp
      then have "(z + 1) mod 8 = (m + 1) mod 8" by (simp only: mod_mult_self1)
      moreover have "(m + 1) mod 8 = 0 \<longleftrightarrow> m = 7" using zq(2) by presburger
      ultimately show ?thesis by simp
    qed
    ultimately show ?thesis by (simp add: pstr_tail_idx_def index_defs)
  qed
  moreover have "cell_len (snd (push_pstr_segment src h)) = (z + zeros) div 8"
    using mem by (simp add: index_defs z_def)
  ultimately have "cell_len (snd (push_pstr_segment src h)) = pstr_tail_idx z" unfolding sum by simp
  moreover have "8 dvd z + zeros" unfolding sum by simp
  moreover have "byte_cap (snd (push_pstr_segment src h)) = byte_cap h" by (simp add: push_pstr_segment_def Let_def)
  moreover have "2 \<le> zeros" "zeros \<le> 9" using zeros zq(2) by auto
  ultimately show thesis using that mem by (simp add: z_def)
qed

text \<open>From every byte of a segment the rest of its text and its tail are found.\<close>

lemma segment_scan:
  assumes "src \<noteq> []" and "zero_free src" and "8 dvd length (mem h)" and "k \<le> length src"
    and "keeps off (snd (push_pstr_segment src h)) H" and "off \<le> length (mem h)"
  shows "scan_slice_to_str H (length (mem h) + k) = (drop k src, cell_len (snd (push_pstr_segment src h)))"
proof -
  obtain zeros where z: "2 \<le> zeros" "mem (snd (push_pstr_segment src h)) = mem h @ src @ replicate zeros 0"
    "cell_len (snd (push_pstr_segment src h)) = pstr_tail_idx (length (mem h) + length src)"
    using push_pstr_segment_mem [OF assms(1)] by metis
  obtain rest where "drop (length (mem h)) (mem H) = (src @ replicate zeros 0) @ rest"
    using keeps_bytes [OF assms(5) z(2) assms(6)] by blast
  then have "drop (length (mem h) + k) (mem H) = drop k src @ replicate zeros 0 @ rest"
    using assms(4) by (simp add: drop_drop [symmetric] add.commute)
  moreover have "until_zero (drop k src @ replicate zeros 0 @ rest) = drop k src"
  proof -
    have "zero_free (drop k src)" using assms(2) by (auto simp: zero_free_def list_all_iff dest: in_set_dropD)
    moreover have "until_zero (replicate zeros 0 @ rest) = []" using z(1) by (cases zeros) auto
    ultimately show ?thesis by simp
  qed
  moreover from this assms(4) have "length (until_zero (drop k src @ replicate zeros 0 @ rest)) = length src - k" by simp
  note scan_tail_idx [OF this, of "length (mem h) + k"]
  ultimately show ?thesis using z(3) assms(4)
    by (simp add: scan_slice_to_str_def) (simp add: scan_slice_def Let_def)
qed

section \<open>Comparing and copying\<close>

lemma byte_at_zero: "byte_at bs pos = 0 \<Longrightarrow> until_zero (drop pos bs) = []"
  by (cases "drop pos bs") (auto simp: byte_at_def hd_drop_conv_nth [symmetric] split: if_splits)

lemma cell_index_add: "cell_index (pos + loc mod 8) + cell_index loc = cell_index (loc + pos)"
proof -
  have "loc + pos = (pos + loc mod 8) + (loc div 8) * 8" by simp
  then have "(loc + pos) div 8 = (pos + loc mod 8) div 8 + loc div 8" by (simp only: div_mult_self1)
  then show ?thesis by (simp add: cell_index_def)
qed

text \<open>The tail a comparison computes for a slice that ends at a position.\<close>

lemma compare_tail:
  assumes "byte_at sl pos = 0"
  shows "offset_by (TailIndex (snd (scan_slice (loc + pos) (drop pos sl)) + cell_index (pos + loc mod ALIGN))) loc =
    SuccVar (pstr_tail_idx (loc + pos))"
  using scan_tail_idx [of "drop pos sl" 0 "loc + pos"] byte_at_zero [OF assms] cell_index_add [of pos loc]
  by (simp add: ALIGN_def)

lemma compare_tail_without_offset:
  assumes "byte_at sl pos = 0"
  shows "offset_by (TailIndex (snd (scan_slice (loc + pos) (drop pos sl)) + cell_index pos)) loc =
    SuccVar (pstr_tail_idx (loc + pos)) \<longleftrightarrow> loc mod 8 + pos mod 8 < 8"
proof -
  have "snd (scan_slice (loc + pos) (drop pos sl)) + cell_index (loc + pos) = pstr_tail_idx (loc + pos)"
    using scan_tail_idx [of "drop pos sl" 0 "loc + pos"] byte_at_zero [OF assms] by simp
  moreover have "cell_index (loc + pos) = cell_index pos + cell_index loc + (if loc mod 8 + pos mod 8 < 8 then 0 else 1)"
    by (simp add: cell_index_def div_add1_eq [of loc pos] div_nat_eqI)
  ultimately show ?thesis by (simp split: if_splits)
qed

section \<open>Properties\<close>

text \<open>
  C33: When one of two compared segments ends, the comparison goes on with the other at the position
  reached and with the ended one at the cell of its tail, except that the tail of a first segment that
  ends before the second is missed, by one cell, exactly when the positions inside their cells of the start of
  the segment and of its end add up to a carry.
\<close>
theorem comparison_continues_at_tails:
  fixes h :: Heap and loc1 loc2 :: nat
  defines "sl1 \<equiv> drop loc1 (mem h)" and "sl2 \<equiv> drop loc2 (mem h)"
  defines "pos \<equiv> diff_pos sl1 sl2"
  shows "(byte_at sl1 pos = 0 \<and> byte_at sl2 pos = 0 \<longrightarrow>
      (\<exists>c1 c2. compare_pstr_segments h loc1 loc2 = Continue c1 c2 \<and>
        offset_by c1 loc1 = SuccVar (pstr_tail_idx (loc1 + pos)) \<and> offset_by c2 loc2 = SuccVar (pstr_tail_idx (loc2 + pos)))) \<and>
    (byte_at sl1 pos \<noteq> 0 \<and> byte_at sl2 pos = 0 \<longrightarrow>
      (\<exists>c1 c2. compare_pstr_segments h loc1 loc2 = Continue c1 c2 \<and>
        offset_by c1 loc1 = SuccPStr (loc1 + pos) \<and> offset_by c2 loc2 = SuccVar (pstr_tail_idx (loc2 + pos)))) \<and>
    (byte_at sl1 pos = 0 \<and> byte_at sl2 pos \<noteq> 0 \<longrightarrow>
      (\<exists>c1 c2. compare_pstr_segments h loc1 loc2 = Continue c1 c2 \<and>
        (offset_by c1 loc1 = SuccVar (pstr_tail_idx (loc1 + pos)) \<longleftrightarrow> loc1 mod 8 + pos mod 8 < 8) \<and>
        offset_by c2 loc2 = SuccPStr (loc2 + pos)))"
  unfolding compare_pstr_segments_def compare_pstr_slices_def Let_def sl1_def [symmetric] sl2_def [symmetric] pos_def [symmetric]
  using compare_tail [of sl1 pos loc1] compare_tail [of sl2 pos loc2] compare_tail_without_offset [of sl1 pos loc1]
  by (simp del: offset_by.simps(2))

theorem comparison_continues_at_tails_witness:
  "\<exists>c1 c2. compare_pstr_segments \<lparr>mem = [97, 0, 0, 0, 0, 0, 0, 0, 97, 98, 0, 0, 0, 0, 0, 0], byte_cap = 16\<rparr> 8 0 =
    Continue c1 c2 \<and> offset_by c1 8 = SuccPStr 9 \<and> offset_by c2 0 = SuccVar 1"
  using comparison_continues_at_tails [of 8 "\<lparr>mem = [97, 0, 0, 0, 0, 0, 0, 0, 97, 98, 0, 0, 0, 0, 0, 0], byte_cap = 16\<rparr>" 0]
  by (simp add: byte_at_def pstr_tail_idx_def index_defs del: offset_by.simps)

text \<open>
  The text \<open>efgh\<close> from the middle of a segment compared with \<open>efghi\<close>: the first ends, and the
  comparison goes on in the padding of its segment (cell 1) instead of at its tail (cell 2).
\<close>
theorem shorter_segment_misses_tail:
  "\<exists>h c1 c2. h = \<lparr>mem = [97, 98, 99, 100, 101, 102, 103, 104, 0, 0, 0, 0, 0, 0, 0, 0, 0, 0, 0, 0, 0, 0, 0, 0,
      101, 102, 103, 104, 105, 0, 0, 0], byte_cap = 32\<rparr> \<and> scan_slice_to_str h 4 = ([101, 102, 103, 104], 2) \<and>
    compare_pstr_segments h 4 24 = Continue c1 c2 \<and> offset_by c1 4 = SuccVar 1"
proof -
  let ?h = "\<lparr>mem = [97, 98, 99, 100, 101, 102, 103, 104, 0, 0, 0, 0, 0, 0, 0, 0, 0, 0, 0, 0, 0, 0, 0, 0,
      101, 102, 103, 104, 105, 0, 0, 0], byte_cap = 32\<rparr>"
  have "scan_slice_to_str ?h 4 = ([101, 102, 103, 104], 2)" by code_simp
  moreover have "compare_pstr_segments ?h 4 24 = Continue (TailIndex 1) (PStrOffset 4)" by code_simp
  moreover have "offset_by (TailIndex 1) 4 = SuccVar 1" by code_simp
  ultimately show ?thesis by blast
qed

text \<open>
  Copying a segment whose text ends one byte before a cell boundary when just its bytes and that byte are free
  writes eight bytes beyond the capacity of the heap.
\<close>
theorem segment_copy_overruns:
  "\<exists>h h'. wf_heap h \<and> copy_pstr_within avail 0 h = Some (2, h') \<and> byte_cap h' < byte_len h'"
proof -
  let ?h = "\<lparr>mem = [97, 98, 99, 100, 101, 102, 103, 0, 0, 0, 0, 0, 0, 0, 0, 0], byte_cap = 24\<rparr>"
  have "wf_heap ?h" by code_simp
  moreover have "copy_pstr_within avail 0 ?h = Some (2, ?h\<lparr>mem := mem ?h @ [97, 98, 99, 100, 101, 102, 103] @ replicate 9 0\<rparr>)"
    by (simp add: copy_pstr_within_def scan_slice_to_str_def scan_slice_def index_defs sentinel_eq next_multiple_of_def
        grow_until.simps free_space_def Let_def)
  ultimately show ?thesis by (intro exI conjI) (auto simp: byte_len_def)
qed

end
