(* ===== verification/ListCycles.thy ===== *)
theory ListCycles
  imports HeapStrings
begin

text \<open>
  Walking along lists that may be cyclic: Brent's algorithm as the machine runs it
  (\<open>BrentAlgState\<close> of \<open>src/src/machine/system_calls.rs\<close>), which \<open>'$skip_max_list'\<close>, and with
  it \<open>length/2\<close> and the list checks of the error handling, is built on. A location is the index of a
  heap cell that holds a list or a tail. \<open>None\<close> stands for a call that does not return, which happens
  on a cycle of variables, or panics, which happens on a string segment without characters.
\<close>

section \<open>The algorithm\<close>

datatype CycleSearchResult =
    Cyclic nat
  | EmptyList
  | NotList nat HeapCellValue
  | PartialList nat HeapCellValue
  | ProperList nat
  | PStrLocation nat HeapCellValue
  | UntouchedList nat nat

record BrentAlgState =
  hare :: nat
  tortoise :: nat
  pwr :: nat
  lam :: nat
  pstr_chars :: nat
  max_steps :: int

definition BrentAlgState_new :: "nat \<Rightarrow> BrentAlgState" where
  "BrentAlgState_new hare0 =
     \<lparr>hare = hare0, tortoise = hare0, pwr = 1, lam = 0, pstr_chars = 0, max_steps = -1\<rparr>"

definition teleport_tortoise :: "BrentAlgState \<Rightarrow> BrentAlgState" where
  "teleport_tortoise st =
     (if lam st = pwr st then st\<lparr>tortoise := hare st, pwr := 2 * pwr st, lam := 0\<rparr> else st)"

definition brent_step :: "nat \<Rightarrow> BrentAlgState \<Rightarrow> CycleSearchResult option \<times> BrentAlgState" where
  "brent_step hare' st =
     (let st = st\<lparr>hare := hare', lam := lam st + 1\<rparr>
      in if tortoise st = hare st then (Some (Cyclic (lam st)), st) else (None, teleport_tortoise st))"

definition num_steps :: "BrentAlgState \<Rightarrow> nat" where
  "num_steps st = lam st + pstr_chars st + pwr st - 1"

definition exhausted_max_steps :: "BrentAlgState \<Rightarrow> bool" where
  "exhausted_max_steps st \<longleftrightarrow> max_steps st > -1 \<and> int (num_steps st) \<ge> max_steps st"

section \<open>Segments\<close>

definition pstr_segment_char_count_and_tail :: "Heap \<Rightarrow> nat \<Rightarrow> nat \<times> nat" where
  "pstr_segment_char_count_and_tail h pstr_loc =
     (let cs = char_iter h pstr_loc
      in (length cs, pstr_tail_idx (pstr_loc + sum_list (map len_utf8 cs))))"

datatype PStrSegmentCountResult = Mid nat nat | End nat nat

definition pstr_segment_char_count_up_to :: "Heap \<Rightarrow> nat \<Rightarrow> nat \<Rightarrow> PStrSegmentCountResult" where
  "pstr_segment_char_count_up_to h pstr_loc max_chars =
     (let all = char_iter h pstr_loc; cs = take max_chars all; byte_offset = sum_list (map len_utf8 cs)
      in if drop max_chars all \<noteq> [] then Mid (length cs) (pstr_loc + byte_offset)
         else End (length cs) (pstr_tail_idx (pstr_loc + byte_offset)))"

definition add_pstr_chars :: "Heap \<Rightarrow> nat \<Rightarrow> BrentAlgState \<Rightarrow> (CycleSearchResult option \<times> BrentAlgState) option" where
  "add_pstr_chars h pstr_loc st =
     (if max_steps st = -1 then
        (case pstr_segment_char_count_and_tail h pstr_loc of
           (num_chars, next_cell_loc) \<Rightarrow>
             if num_chars = 0 then None
             else Some (brent_step next_cell_loc (st\<lparr>pstr_chars := pstr_chars st + (num_chars - 1)\<rparr>)))
      else if max_steps st < int (num_steps st) then None
      else
        (case pstr_segment_char_count_up_to h pstr_loc (nat (max_steps st) - num_steps st) of
           Mid char_count pstr_loc' \<Rightarrow>
             let st = st\<lparr>pstr_chars := pstr_chars st + char_count\<rparr>
             in map_option (\<lambda>c. (Some (PStrLocation (num_steps st) c), st)) (cell_build_with TPStrLoc pstr_loc')
         | End char_count tail_loc \<Rightarrow>
             Some (brent_step tail_loc (st\<lparr>pstr_chars := pstr_chars st + (char_count - 1)\<rparr>))))"

section \<open>Steps along the heap\<close>

definition is_dot2 :: "HeapCellValue \<Rightarrow> bool" where
  "is_dot2 w \<longleftrightarrow> atom_get_name w = dot_atom \<and> atom_get_arity w = 2"

definition is_nil :: "HeapCellValue \<Rightarrow> bool" where
  "is_nil w \<longleftrightarrow> atom_get_name w = empty_list_atom"

partial_function (option) cycle_step ::
  "Heap \<Rightarrow> BrentAlgState \<Rightarrow> (CycleSearchResult option \<times> BrentAlgState) option" where
  "cycle_step h st =
     (let value = hcell h (hare st); v = cell_val value
      in case cell_get_tag value of
           TPStrLoc \<Rightarrow> add_pstr_chars h v st
         | TLis \<Rightarrow> Some (brent_step (v + 1) st)
         | TStr \<Rightarrow>
             if is_dot2 (hcell h v) then Some (brent_step (v + 2) st)
             else Some (Some (NotList (num_steps st) value), st)
         | TAtom \<Rightarrow>
             if is_nil value then Some (Some (ProperList (num_steps st)), st)
             else Some (Some (NotList (num_steps st) value), st)
         | TAttrVar \<Rightarrow>
             if hare st = v then Some (Some (PartialList (num_steps st) value), st) else cycle_step h (st\<lparr>hare := v\<rparr>)
         | TVar \<Rightarrow>
             if hare st = v then Some (Some (PartialList (num_steps st) value), st) else cycle_step h (st\<lparr>hare := v\<rparr>)
         | _ \<Rightarrow> Some (Some (NotList (num_steps st) value), st))"

partial_function (option) to_result :: "Heap \<Rightarrow> BrentAlgState \<Rightarrow> CycleSearchResult option" where
  "to_result h st =
     (let value = hcell h (hare st); v = cell_val value; n = num_steps st
      in case cell_get_tag value of
           TPStrLoc \<Rightarrow> Some (PStrLocation n value)
         | TAtom \<Rightarrow>
             if is_nil value \<and> atom_get_arity value = 0 then Some (ProperList n)
             else map_option (NotList n)
               (cell_build_with (if atom_get_arity value > 0 then TStr else TVar) (hare st))
         | TStr \<Rightarrow>
             if is_nil (hcell h v) \<and> atom_get_arity (hcell h v) = 0 then Some (ProperList n)
             else Some (NotList n value)
         | TLis \<Rightarrow> Some (UntouchedList n v)
         | TAttrVar \<Rightarrow> if v = hare st then Some (PartialList n value) else to_result h (st\<lparr>hare := v\<rparr>)
         | TVar \<Rightarrow> if v = hare st then Some (PartialList n value) else to_result h (st\<lparr>hare := v\<rparr>)
         | _ \<Rightarrow> map_option (NotList n) (cell_build_with TVar (hare st)))"

partial_function (option) detect_loop :: "Heap \<Rightarrow> BrentAlgState \<Rightarrow> CycleSearchResult option" where
  "detect_loop h st =
     (case cycle_step h st of
        None \<Rightarrow> None
      | Some (Some r, st') \<Rightarrow> Some r
      | Some (None, st') \<Rightarrow> detect_loop h st')"

partial_function (option) detect_loop_with_max :: "Heap \<Rightarrow> BrentAlgState \<Rightarrow> CycleSearchResult option" where
  "detect_loop_with_max h st =
     (if exhausted_max_steps st then to_result h st
      else case cycle_step h st of
             None \<Rightarrow> None
           | Some (Some r, st') \<Rightarrow> Some r
           | Some (None, st') \<Rightarrow> detect_loop_with_max h st')"

text \<open>Where the search starts: a result at once, or the location of the first tail and the characters before it.\<close>

definition brent_init :: "nat \<Rightarrow> nat \<Rightarrow> int \<Rightarrow> BrentAlgState" where
  "brent_init hare0 chars max' =
     (let st = BrentAlgState_new hare0 in st\<lparr>pwr := pwr st + 1, pstr_chars := chars, max_steps := max'\<rparr>)"

definition detect_cycles :: "Heap \<Rightarrow> HeapCellValue \<Rightarrow> CycleSearchResult option" where
  "detect_cycles h value =
     (let v = cell_val value
      in case cell_get_tag value of
           TLis \<Rightarrow> detect_loop h (brent_init (v + 1) 0 (-1))
         | TPStrLoc \<Rightarrow>
             (case pstr_segment_char_count_and_tail h v of
                (char_count, tail_idx) \<Rightarrow>
                  if Some (hcell h tail_idx) = empty_list_as_cell then Some (ProperList char_count)
                  else detect_loop h (brent_init tail_idx (char_count - 1) (-1)))
         | TStr \<Rightarrow>
             if is_nil (hcell h v) \<and> atom_get_arity (hcell h v) = 0 then Some EmptyList
             else if is_dot2 (hcell h v) then detect_loop h (brent_init (v + 2) 0 (-1))
             else Some (NotList 0 value)
         | TAtom \<Rightarrow>
             if is_nil value \<and> atom_get_arity value = 0 then Some EmptyList else Some (NotList 0 value)
         | TAttrVar \<Rightarrow> Some (PartialList 0 value)
         | TStackVar \<Rightarrow> Some (PartialList 0 value)
         | TVar \<Rightarrow> Some (PartialList 0 value)
         | _ \<Rightarrow> Some (NotList 0 value))"

definition detect_cycles_with_max :: "Heap \<Rightarrow> nat \<Rightarrow> HeapCellValue \<Rightarrow> CycleSearchResult option" where
  "detect_cycles_with_max h max' value =
     (let v = cell_val value
      in case cell_get_tag value of
           TLis \<Rightarrow>
             if max' > 0 then detect_loop_with_max h (brent_init (v + 1) 0 (int max'))
             else Some (UntouchedList 0 v)
         | TPStrLoc \<Rightarrow>
             (case pstr_segment_char_count_up_to h v max' of
                Mid char_count pstr_loc \<Rightarrow> map_option (PStrLocation char_count) (cell_build_with TPStrLoc pstr_loc)
              | End num_chars tail_loc \<Rightarrow>
                  if num_chars = 0 then None
                  else detect_loop_with_max h (brent_init tail_loc (num_chars - 1) (int max')))
         | TStr \<Rightarrow>
             if is_nil (hcell h v) \<and> atom_get_arity (hcell h v) = 0 then Some EmptyList
             else if is_dot2 (hcell h v) then
               if max' > 0 then detect_loop_with_max h (brent_init (v + 2) 0 (int max'))
               else Some (UntouchedList 0 (v + 1))
             else Some (NotList 0 value)
         | TAtom \<Rightarrow>
             if is_nil value \<and> atom_get_arity value = 0 then Some EmptyList else Some (NotList 0 value)
         | TAttrVar \<Rightarrow> Some (PartialList 0 value)
         | TStackVar \<Rightarrow> Some (PartialList 0 value)
         | TVar \<Rightarrow> Some (PartialList 0 value)
         | _ \<Rightarrow> Some (NotList 0 value))"

section \<open>The contract of a succession\<close>

text \<open>Following a successor function \<open>n\<close> times.\<close>

fun walk :: "(nat \<Rightarrow> nat option) \<Rightarrow> nat \<Rightarrow> nat \<Rightarrow> nat option" where
  "walk nxt x 0 = Some x"
| "walk nxt x (Suc n) = (case walk nxt x n of None \<Rightarrow> None | Some y \<Rightarrow> nxt y)"

lemma walk_add: "walk nxt x (m + n) = (case walk nxt x m of None \<Rightarrow> None | Some y \<Rightarrow> walk nxt y n)"
  by (induction n) (auto split: option.splits)

lemma walk_None_mono: "walk nxt x m = None \<Longrightarrow> m \<le> n \<Longrightarrow> walk nxt x n = None"
  using walk_add [of nxt x m "n - m"] by simp

lemma walk_repeats: "walk nxt x i = walk nxt x j \<Longrightarrow> walk nxt x (i + k) = walk nxt x (j + k)"
  by (simp add: walk_add)

lemma walk_Suc_Some: "walk nxt x (Suc n) = Some z \<longleftrightarrow> (\<exists>y. walk nxt x n = Some y \<and> nxt y = Some z)"
  by (auto split: option.splits)

text \<open>
  The state after \<open>k\<close> steps that found no cycle, when the first power was \<open>p0\<close>: the tortoise
  waits at the step \<open>pwr - p0\<close>, and the hare has met it neither since nor in the round before, when the
  power was half of what it is.
\<close>

definition unmet :: "(nat \<Rightarrow> nat option) \<Rightarrow> nat \<Rightarrow> nat \<Rightarrow> nat \<Rightarrow> bool" where
  "unmet nxt x t n \<longleftrightarrow> (\<forall>i. 0 < i \<and> i \<le> n \<longrightarrow> walk nxt x (t + i) \<noteq> walk nxt x t)"

definition brent_at :: "(nat \<Rightarrow> nat option) \<Rightarrow> nat \<Rightarrow> nat \<Rightarrow> nat \<Rightarrow> BrentAlgState \<Rightarrow> bool" where
  "brent_at nxt x p0 k st \<longleftrightarrow>
     0 < p0 \<and> p0 \<le> pwr st \<and> lam st < pwr st \<and> k = pwr st - p0 + lam st \<and>
     walk nxt x k = Some (hare st) \<and> walk nxt x (pwr st - p0) = Some (tortoise st) \<and>
     unmet nxt x (pwr st - p0) (lam st) \<and>
     (pwr st = p0 \<or> (\<exists>q. pwr st = 2 * q \<and> p0 \<le> q \<and> unmet nxt x (q - p0) q))"

text \<open>The cycle a search reports: \<open>l\<close> steps lead from some step back to it, and no fewer do.\<close>

definition has_period :: "(nat \<Rightarrow> nat option) \<Rightarrow> nat \<Rightarrow> nat \<Rightarrow> bool" where
  "has_period nxt x l \<longleftrightarrow>
     0 < l \<and> (\<exists>t. walk nxt x t \<noteq> None \<and> walk nxt x (t + l) = walk nxt x t \<and> unmet nxt x t (l - 1))"

text \<open>Only finitely many locations have a successor.\<close>

locale succession =
  fixes nxt :: "nat \<Rightarrow> nat option"
    and bound :: nat
  assumes bounded: "nxt x = Some y \<Longrightarrow> x < bound"
begin

lemma brent_at_start: "0 < p0 \<Longrightarrow> hare st = x \<Longrightarrow> tortoise st = x \<Longrightarrow> pwr st = p0 \<Longrightarrow> lam st = 0 \<Longrightarrow>
    brent_at nxt x p0 0 st"
  by (auto simp: brent_at_def unmet_def)

lemma brent_at_step:
  assumes "brent_at nxt x p0 k st" and "nxt (hare st) = Some y" and "brent_step y st = (None, st')"
  shows "brent_at nxt x p0 (Suc k) st'"
proof -
  from assms(1) have k: "k = pwr st - p0 + lam st" and w: "walk nxt x k = Some (hare st)"
    and t: "walk nxt x (pwr st - p0) = Some (tortoise st)" and un: "unmet nxt x (pwr st - p0) (lam st)"
    and p: "0 < p0" "p0 \<le> pwr st" "lam st < pwr st" unfolding brent_at_def by blast+
  have y: "walk nxt x (Suc k) = Some y" using w assms(2) by simp
  from assms(3) have ne: "tortoise st \<noteq> y" and st': "st' = teleport_tortoise (st\<lparr>hare := y, lam := lam st + 1\<rparr>)"
    by (auto simp: brent_step_def Let_def split: if_splits)
  have un': "unmet nxt x (pwr st - p0) (Suc (lam st))"
    using un y ne t k by (auto simp: unmet_def le_Suc_eq simp del: walk.simps)
  show ?thesis
  proof (cases "lam st + 1 = pwr st")
    case True
    then have "st' = st\<lparr>hare := y, tortoise := y, pwr := 2 * pwr st, lam := 0\<rparr>"
      by (simp add: st' teleport_tortoise_def)
    moreover have "2 * pwr st - p0 = Suc k" using True k p by linarith
    moreover have "unmet nxt x (pwr st - p0) (pwr st)" using un' True by simp
    ultimately show ?thesis using y p by (auto simp: brent_at_def unmet_def [of _ _ _ 0] simp del: walk.simps)
  next
    case False
    then have "st' = st\<lparr>hare := y, lam := lam st + 1\<rparr>" by (simp add: st' teleport_tortoise_def)
    moreover have "lam st + 1 < pwr st" using False p by linarith
    ultimately show ?thesis using assms(1) y un' k by (simp add: brent_at_def del: walk.simps)
  qed
qed

lemma brent_step_finds:
  assumes "brent_at nxt x p0 k st" and "nxt (hare st) = Some y" and "brent_step y st = (Some r, st')"
  shows "\<exists>l. r = Cyclic l \<and> has_period nxt x l \<and> walk nxt x (Suc k - l) = walk nxt x (Suc k) \<and> l \<le> Suc k \<and> hare st' = y \<and> lam st' = l"
proof -
  from assms(1) have k: "k = pwr st - p0 + lam st" and w: "walk nxt x k = Some (hare st)"
    and t: "walk nxt x (pwr st - p0) = Some (tortoise st)" and un: "unmet nxt x (pwr st - p0) (lam st)"
    unfolding brent_at_def by blast+
  have y: "walk nxt x (Suc k) = Some y" using w assms(2) by simp
  from assms(3) have "tortoise st = y" "r = Cyclic (lam st + 1)" "hare st' = y" "lam st' = lam st + 1"
    by (auto simp: brent_step_def Let_def split: if_splits)
  moreover have "has_period nxt x (lam st + 1)"
    unfolding has_period_def using t un y k \<open>tortoise st = y\<close>
    by (intro conjI exI [of _ "pwr st - p0"]) (simp_all del: walk.simps)
  moreover have "Suc k - (lam st + 1) = pwr st - p0" using k by simp
  ultimately show ?thesis using t y k by (simp del: walk.simps)
qed

text \<open>A walk that never ends comes back to a location.\<close>

lemma endless_walk_repeats:
  assumes "\<And>n. walk nxt x n \<noteq> None"
  obtains a b where "a < b" "b \<le> bound" "walk nxt x a = walk nxt x b"
proof -
  define f where "f n = the (walk nxt x n)" for n
  have f: "walk nxt x n = Some (f n)" for n using assms [of n] by (simp add: f_def)
  have "f n < bound" for n using f [of "Suc n"] f [of n] bounded [of "f n"] by simp
  then have "f ` {..bound} \<subseteq> {..<bound}" by auto
  then have "card (f ` {..bound}) \<le> bound" using card_mono [of "{..<bound}"] by fastforce
  then have "\<not> inj_on f {..bound}" using card_image [of f "{..bound}"] by auto
  then obtain a b where "a \<le> bound" "b \<le> bound" "a \<noteq> b" "f a = f b" by (auto simp: inj_on_def)
  then show thesis using that [of a b] that [of b a] f by (cases "a < b") auto
qed

lemma unmet_short:
  assumes "walk nxt x a = walk nxt x b" and "a < b" and "a \<le> t" and "unmet nxt x t n"
  shows "n < b - a"
proof (rule ccontr)
  assume "\<not> n < b - a"
  moreover have "walk nxt x (t + (b - a)) = walk nxt x t"
    using walk_repeats [OF assms(1), of "t - a"] assms(2,3) by (simp add: algebra_simps)
  moreover have "0 < b - a" using assms(2) by simp
  ultimately show False using assms(4) unfolding unmet_def by (meson not_less)
qed

text \<open>The search is over before the hare has gone four times around all locations.\<close>

lemma brent_at_bounded:
  assumes "brent_at nxt x p0 k st" and "\<And>n. walk nxt x n \<noteq> None"
  shows "k < 4 * (bound + p0)"
proof -
  from endless_walk_repeats [OF assms(2)] obtain a b where ab: "a < b" "b \<le> bound" "walk nxt x a = walk nxt x b" .
  from assms(1) have k: "k = pwr st - p0 + lam st" and p: "0 < p0" "p0 \<le> pwr st" "lam st < pwr st"
    and q: "pwr st = p0 \<or> (\<exists>q. pwr st = 2 * q \<and> p0 \<le> q \<and> unmet nxt x (q - p0) q)" unfolding brent_at_def by blast+
  have "pwr st \<le> 2 * (b + p0)" using q
  proof
    assume "\<exists>q. pwr st = 2 * q \<and> p0 \<le> q \<and> unmet nxt x (q - p0) q"
    then obtain q where q: "pwr st = 2 * q" "p0 \<le> q" "unmet nxt x (q - p0) q" by blast
    show ?thesis
    proof (cases "a \<le> q - p0")
      case True
      from unmet_short [OF ab(3,1) this q(3)] q(1) show ?thesis by simp
    next
      case False
      then have "q \<le> a + p0" using q(2) by simp
      then show ?thesis using q(1) ab(1) by simp
    qed
  qed simp
  moreover have "k + p0 = pwr st + lam st" using k p(2) by simp
  ultimately show ?thesis using p ab(2) unfolding distrib_left by linarith
qed

end

section \<open>Lists in the heap\<close>

text \<open>
  What the search walks along: from a location through variables to the cell that holds a list, and from
  there past its first elements, several for a string segment, to the location of the tail.
\<close>

partial_function (option) chase :: "Heap \<Rightarrow> nat \<Rightarrow> nat option" where
  "chase h x =
     (let w = hcell h x
      in if cell_get_tag w \<in> {TAttrVar, TVar} \<and> cell_val w \<noteq> x then chase h (cell_val w) else Some x)"

definition link :: "Heap \<Rightarrow> HeapCellValue \<Rightarrow> (nat \<times> nat) option" where
  "link h w =
     (let v = cell_val w
      in case cell_get_tag w of
           TPStrLoc \<Rightarrow> Some (pstr_segment_char_count_and_tail h v)
         | TLis \<Rightarrow> Some (1, v + 1)
         | TStr \<Rightarrow> if is_dot2 (hcell h v) then Some (1, v + 2) else None
         | _ \<Rightarrow> None)"

definition tail_of :: "Heap \<Rightarrow> nat \<Rightarrow> nat option" where
  "tail_of h x = (case chase h x of None \<Rightarrow> None | Some l \<Rightarrow> map_option snd (link h (hcell h l)))"

definition sane_lists :: "Heap \<Rightarrow> bool" where
  "sane_lists h \<longleftrightarrow>
     (\<forall>x. chase h x \<noteq> None) \<and>
     (\<forall>x. cell_get_tag (hcell h x) = TPStrLoc \<longrightarrow> 0 < fst (pstr_segment_char_count_and_tail h (cell_val (hcell h x))))"

text \<open>\<open>n\<close> elements lie between the location \<open>x\<close> and the end \<open>e\<close> of the list.\<close>

inductive list_ends :: "Heap \<Rightarrow> nat \<Rightarrow> nat \<Rightarrow> nat \<Rightarrow> bool" for h where
  list_end: "chase h x = Some e \<Longrightarrow> link h (hcell h e) = None \<Longrightarrow> list_ends h x 0 e"
| list_more: "chase h x = Some l \<Longrightarrow> link h (hcell h l) = Some (c, y) \<Longrightarrow> list_ends h y n e \<Longrightarrow> list_ends h x (c + n) e"

definition end_result :: "HeapCellValue \<Rightarrow> nat \<Rightarrow> CycleSearchResult" where
  "end_result w n =
     (if cell_get_tag w \<in> {TAttrVar, TVar} then PartialList n w
      else if cell_get_tag w = TAtom \<and> is_nil w then ProperList n else NotList n w)"

lemma cell_get_tag_0 [simp]: "cell_get_tag 0 = TCons"
  by (simp add: cell_get_tag_def cell_tag_bits_def tag_of_bits_def all_tags_def)

lemma tail_of_bounded: "tail_of h x = Some y \<Longrightarrow> x < length (mem h)"
proof (rule ccontr)
  assume "tail_of h x = Some y" and "\<not> x < length (mem h)"
  then have "hcell h x = 0" by (intro hcell_beyond) simp
  with \<open>tail_of h x = Some y\<close> show False by (simp add: tail_of_def chase.simps link_def)
qed

interpretation lists: succession "tail_of h" "length (mem h)" for h
  by unfold_locales (rule tail_of_bounded)

definition refers :: "Heap \<Rightarrow> nat \<Rightarrow> bool" where
  "refers h x \<longleftrightarrow> cell_get_tag (hcell h x) \<in> {TAttrVar, TVar} \<and> cell_val (hcell h x) \<noteq> x"

lemma chase_induct [consumes 1, case_names found refers]:
  assumes "chase h x = Some l"
    and "\<And>x. \<not> refers h x \<Longrightarrow> P x x"
    and "\<And>x l. refers h x \<Longrightarrow> P (cell_val (hcell h x)) l \<Longrightarrow> P x l"
  shows "P x l"
proof -
  have "(case (h, x) of (h', x) \<Rightarrow> \<lambda>l. h' = h \<longrightarrow> P x l) l"
    by (rule chase.raw_induct [of "\<lambda>h' x l. h' = h \<longrightarrow> P x l"])
       (use assms in \<open>auto simp: Let_def refers_def split: if_splits\<close>)
  then show ?thesis by simp
qed

lemma chase_refers: "chase h x = (if refers h x then chase h (cell_val (hcell h x)) else Some x)"
  by (subst chase.simps) (simp add: Let_def refers_def)

lemma chase_end: "chase h x = Some l \<Longrightarrow> \<not> refers h l"
  by (induction rule: chase_induct)

lemma brent_step_hare [simp]: "brent_step y (st\<lparr>hare := z\<rparr>) = brent_step y st"
  by (simp add: brent_step_def)

lemma num_steps_hare [simp]: "num_steps (st\<lparr>hare := z\<rparr>) = num_steps st"
  by (simp add: num_steps_def)

lemma cycle_step_chase:
  "chase h x = Some l \<Longrightarrow> hare st = x \<Longrightarrow> cycle_step h st = cycle_step h (st\<lparr>hare := l\<rparr>)"
proof (induction arbitrary: st rule: chase_induct)
  case (refers x l)
  then have "cycle_step h st = cycle_step h (st\<lparr>hare := cell_val (hcell h x)\<rparr>)"
    by (subst cycle_step.simps) (auto simp: Let_def refers_def)
  with refers.IH [of "st\<lparr>hare := cell_val (hcell h x)\<rparr>"] show ?case by simp
next
  case (found x)
  then have "st\<lparr>hare := x\<rparr> = st" by (cases st) simp
  then show ?case by simp
qed

text \<open>One step of an unbounded search.\<close>

lemma cycle_step_link:
  assumes "chase h (hare st) = Some l" and "max_steps st = -1"
  shows "cycle_step h st =
    (case link h (hcell h l) of
       Some (c, y) \<Rightarrow> if c = 0 then None else Some (brent_step y (st\<lparr>pstr_chars := pstr_chars st + (c - 1)\<rparr>))
     | None \<Rightarrow> Some (Some (end_result (hcell h l) (num_steps st)), st\<lparr>hare := l\<rparr>))"
proof -
  have "cycle_step h st = cycle_step h (st\<lparr>hare := l\<rparr>)" by (rule cycle_step_chase [OF assms(1) refl])
  also have "\<dots> = (case link h (hcell h l) of
       Some (c, y) \<Rightarrow> if c = 0 then None else Some (brent_step y (st\<lparr>pstr_chars := pstr_chars st + (c - 1)\<rparr>))
     | None \<Rightarrow> Some (Some (end_result (hcell h l) (num_steps st)), st\<lparr>hare := l\<rparr>))"
    using chase_end [OF assms(1)] assms(2)
    by (subst cycle_step.simps)
       (auto simp: Let_def refers_def link_def end_result_def add_pstr_chars_def brent_step_def
         split: HeapCellValueTag.splits prod.splits)
  finally show ?thesis .
qed

section \<open>What the search returns\<close>

lemma brent_at_ignores [simp]:
  "brent_at nxt x p0 k (st\<lparr>pstr_chars := c\<rparr>) = brent_at nxt x p0 k st"
  by (simp add: brent_at_def)

lemma brent_step_counts:
  assumes "brent_step y st = (r, st')" and "0 < pwr st"
  shows "pstr_chars st' = pstr_chars st \<and> max_steps st' = max_steps st \<and> hare st' = y \<and> num_steps st' = Suc (num_steps st)"
  using assms by (auto simp: brent_step_def Let_def teleport_tortoise_def num_steps_def split: if_splits)

lemma period_endless:
  assumes "has_period nxt x l"
  shows "walk nxt x n \<noteq> None"
proof -
  from assms obtain t where l: "0 < l" and t: "walk nxt x t \<noteq> None" "walk nxt x (t + l) = walk nxt x t"
    by (auto simp: has_period_def)
  have "walk nxt x (t + j * l) = walk nxt x t" for j
  proof (induction j)
    case (Suc j)
    have "walk nxt x (t + l + j * l) = walk nxt x (t + j * l)" by (rule walk_repeats [OF t(2)])
    with Suc show ?case by (simp add: ac_simps)
  qed simp
  then have "walk nxt x (t + n * l) \<noteq> None" using t(1) by simp
  moreover have "n \<le> t + n * l" by (rule trans_le_add2) (use l in simp)
  ultimately show ?thesis using walk_None_mono [of nxt x n "t + n * l"] by metis
qed

text \<open>The period is the least one, and from some step on the steps repeat exactly with its multiples.\<close>

lemma period_exact:
  assumes "has_period nxt x l"
  shows "\<exists>t0. \<forall>t\<ge>t0. \<forall>j. walk nxt x (t + j) = walk nxt x t \<longleftrightarrow> l dvd j"
proof -
  from assms obtain t0 where l: "0 < l" and t0: "walk nxt x (t0 + l) = walk nxt x t0" and un: "unmet nxt x t0 (l - 1)"
    by (auto simp: has_period_def)
  have round: "walk nxt x (t + m * l) = walk nxt x t" if "t0 \<le> t" for t m
  proof (induction m)
    case (Suc m)
    have "walk nxt x (t0 + l + (t - t0 + m * l)) = walk nxt x (t0 + (t - t0 + m * l))" by (rule walk_repeats [OF t0])
    moreover have "t0 + l + (t - t0 + m * l) = t + Suc m * l" "t0 + (t - t0 + m * l) = t + m * l" using that by simp_all
    ultimately show ?case using Suc by (simp only:)
  qed simp
  have "l dvd j" if t: "t0 \<le> t" and j: "walk nxt x (t + j) = walk nxt x t" for t j
  proof (rule ccontr)
    assume "\<not> l dvd j"
    then have r: "0 < j mod l" "j mod l \<le> l - 1" using l by (auto simp: dvd_eq_mod_eq_0 less_Suc_eq_le [symmetric])
    have "walk nxt x (t + j mod l + (j div l) * l) = walk nxt x (t + j mod l)" by (rule round) (use t in simp)
    then have "walk nxt x (t + j mod l) = walk nxt x t" using j by (simp add: add.assoc)
    then have "walk nxt x (t + j mod l + (t0 + t * l - t)) = walk nxt x (t + (t0 + t * l - t))" by (rule walk_repeats)
    moreover have "t \<le> t0 + t * l" by (rule trans_le_add2) (use l in simp)
    ultimately have "walk nxt x (t0 + j mod l + t * l) = walk nxt x (t0 + t * l)" by (simp add: ac_simps)
    then have "walk nxt x (t0 + j mod l) = walk nxt x t0" using round [of "t0 + j mod l" t] round [of t0 t] by simp
    with un r show False by (simp add: unmet_def)
  qed
  moreover have "walk nxt x (t + j) = walk nxt x t" if "t0 \<le> t" and "l dvd j" for t j
    using that round by (auto elim!: dvdE simp: mult.commute)
  ultimately show ?thesis by blast
qed

lemma brent_at_hare: "brent_at nxt x p0 k st \<Longrightarrow> walk nxt x k = Some (hare st)"
  unfolding brent_at_def by blast

lemma sane_step [consumes 1, case_names ends more]:
  assumes "sane_lists h"
  obtains l where "chase h x = Some l" "link h (hcell h l) = None" "tail_of h x = None"
  | l c y where "chase h x = Some l" "link h (hcell h l) = Some (c, y)" "0 < c" "tail_of h x = Some y"
proof -
  from assms obtain l where l: "chase h x = Some l" unfolding sane_lists_def by blast
  show thesis
  proof (cases "link h (hcell h l)")
    case None
    with that(1) l show thesis by (simp add: tail_of_def)
  next
    case (Some p)
    then obtain c y where p: "link h (hcell h l) = Some (c, y)" by (cases p) auto
    then have "0 < c" using assms l
      by (auto simp: sane_lists_def link_def Let_def split: HeapCellValueTag.splits if_splits)
    with that(2) l p show thesis by (simp add: tail_of_def)
  qed
qed

lemma list_ends_walk: "list_ends h x n e \<Longrightarrow> \<exists>m. walk (tail_of h) x m = None"
proof (induction rule: list_ends.induct)
  case (list_end x e)
  then have "walk (tail_of h) x 1 = None" by (simp add: tail_of_def)
  then show ?case ..
next
  case (list_more x l c y n e)
  then obtain m where "walk (tail_of h) y m = None" by blast
  moreover have "walk (tail_of h) x 1 = Some y" using list_more.hyps by (simp add: tail_of_def)
  ultimately have "walk (tail_of h) x (1 + m) = None" by (simp only: walk_add option.case)
  then show ?case ..
qed

lemma endless_or_ends:
  assumes "sane_lists h" and "\<nexists>n e. list_ends h x n e"
  shows "walk (tail_of h) x n \<noteq> None \<and> (\<forall>y. walk (tail_of h) x n = Some y \<longrightarrow> (\<nexists>m e. list_ends h y m e))"
proof (induction n)
  case (Suc n)
  then obtain y where y: "walk (tail_of h) x n = Some y" "\<nexists>m e. list_ends h y m e" by auto
  from assms(1) show ?case
  proof (cases rule: sane_step [of h y])
    case (ends l)
    with y(2) show ?thesis using list_end by blast
  next
    case (more l c z)
    have "\<nexists>m e. list_ends h z m e" using y(2) list_more [OF more(1,2)] by blast
    with y(1) more(4) show ?thesis by simp
  qed
qed (use assms(2) in simp)

lemma detect_loop_ends:
  assumes "list_ends h x n e" and "sane_lists h" and "hare st = x" and "max_steps st = -1"
    and "brent_at (tail_of h) x0 p0 k st"
  shows "detect_loop h st = Some (end_result (hcell h e) (num_steps st + n))"
  using assms
proof (induction arbitrary: st k rule: list_ends.induct)
  case (list_end x e)
  then show ?case by (subst detect_loop.simps) (simp add: cycle_step_link)
next
  case (list_more x l c y n e)
  from list_more.prems(1) have c: "0 < c" and tl: "tail_of h x = Some y"
    by (cases rule: sane_step [of h x]; use list_more.hyps in auto)+
  let ?st = "st\<lparr>pstr_chars := pstr_chars st + (c - 1)\<rparr>"
  obtain r st' where s: "brent_step y ?st = (r, st')" by fastforce
  have at: "brent_at (tail_of h) x0 p0 k ?st" using list_more.prems by simp
  have hare: "tail_of h (hare ?st) = Some y" using tl list_more.prems by simp
  have "r = None"
  proof (rule ccontr)
    assume "r \<noteq> None"
    then obtain r' where "r = Some r'" by blast
    with lists.brent_step_finds [OF at hare, of r' st'] s have "has_period (tail_of h) x0 (lam st')" by auto
    moreover obtain m where "walk (tail_of h) y m = None" using list_ends_walk [OF list_more.hyps(3)] ..
    moreover have "walk (tail_of h) x0 (Suc k) = Some y"
      using brent_at_hare [OF at] hare by simp
    ultimately have "walk (tail_of h) x0 (Suc k + m) = None" by (simp only: walk_add option.case)
    with period_endless [OF \<open>has_period (tail_of h) x0 (lam st')\<close>] show False by blast
  qed
  with s have s': "brent_step y ?st = (None, st')" by simp
  have pwr: "0 < pwr ?st" using at by (simp add: brent_at_def)
  from brent_step_counts [OF s' this] list_more.prems(3) have counts: "max_steps st' = -1" "hare st' = y"
    and n: "num_steps st' = Suc (num_steps ?st)" by simp_all
  have "num_steps ?st = num_steps st + (c - 1)" using pwr by (simp add: num_steps_def)
  with n c have counts': "num_steps st' = num_steps st + c" by (simp only:)
  have "cycle_step h st = Some (None, st')"
    using cycle_step_link [of h st l] list_more.hyps list_more.prems s' c by simp
  then have "detect_loop h st = detect_loop h st'" by (subst detect_loop.simps) simp
  also have "\<dots> = Some (end_result (hcell h e) (num_steps st' + n))"
    using list_more.IH [OF list_more.prems(1) counts(2,1) lists.brent_at_step [OF at hare s']] .
  finally show ?case using counts' by (simp add: ac_simps)
qed

lemma detect_loop_cyclic:
  assumes "\<And>n. walk (tail_of h) x0 n \<noteq> None" and "sane_lists h"
  shows "max_steps st = -1 \<Longrightarrow> brent_at (tail_of h) x0 p0 k st \<Longrightarrow>
    \<exists>l. detect_loop h st = Some (Cyclic l) \<and> has_period (tail_of h) x0 l"
proof (induction "4 * (length (mem h) + p0) - k" arbitrary: st k rule: less_induct)
  case less
  from brent_at_hare [OF less.prems(2)] assms(1) [of "Suc k"] obtain y where y: "tail_of h (hare st) = Some y" by auto
  from assms(2) obtain l c where l: "chase h (hare st) = Some l" and c: "link h (hcell h l) = Some (c, y)" "0 < c"
    by (cases rule: sane_step [of h "hare st"]) (use y in auto)
  let ?st = "st\<lparr>pstr_chars := pstr_chars st + (c - 1)\<rparr>"
  obtain r st' where s: "brent_step y ?st = (r, st')" by fastforce
  have at: "brent_at (tail_of h) x0 p0 k ?st" and hare: "tail_of h (hare ?st) = Some y" using less.prems y by simp_all
  have "cycle_step h st = Some (r, st')" using cycle_step_link [OF l less.prems(1)] c s by simp
  then have dl: "detect_loop h st = (case r of Some r' \<Rightarrow> Some r' | None \<Rightarrow> detect_loop h st')"
    by (subst detect_loop.simps) (simp split: option.splits)
  show ?case
  proof (cases r)
    case (Some r')
    with lists.brent_step_finds [OF at hare, of r' st'] s dl show ?thesis by auto
  next
    case None
    with s have s': "brent_step y ?st = (None, st')" by simp
    note at' = lists.brent_at_step [OF at hare s']
    have "0 < pwr ?st" using at by (simp add: brent_at_def)
    from brent_step_counts [OF s' this] less.prems(1) have "max_steps st' = -1" by simp
    moreover have "4 * (length (mem h) + p0) - Suc k < 4 * (length (mem h) + p0) - k"
      using lists.brent_at_bounded [OF less.prems(2) assms(1)] by simp
    ultimately show ?thesis using less.hyps [OF _ _ at'] dl None by simp
  qed
qed

lemma list_ends_unique:
  "list_ends h x n e \<Longrightarrow> list_ends h x n' e' \<Longrightarrow> n = n' \<and> e = e'"
proof (induction arbitrary: n' rule: list_ends.induct)
  case (list_end x e)
  from list_end.prems list_end.hyps show ?case by cases auto
next
  case (list_more x l c y n e)
  from list_more.prems list_more.hyps list_more.IH show ?case by cases auto
qed

lemma dot_not_nil: "dot_atom \<noteq> empty_list_atom"
  by (simp add: dot_atom_def empty_list_atom_def atom_new_inlined_def encode_utf8_def le_nat_append)

lemma detect_cycles_start:
  assumes "link h w = Some (c, x)"
  shows "detect_cycles h w =
    (if cell_get_tag w = TPStrLoc \<and> Some (hcell h x) = empty_list_as_cell then Some (ProperList c)
     else detect_loop h (brent_init x (c - 1) (-1)))"
  using assms dot_not_nil
  by (auto simp: link_def detect_cycles_def Let_def is_dot2_def split: HeapCellValueTag.splits if_splits prod.splits)

lemma brent_init_at:
  "brent_at (tail_of h) x 2 0 (brent_init x chars (-1)) \<and> num_steps (brent_init x chars (-1)) = chars + 1 \<and>
    hare (brent_init x chars (-1)) = x \<and> max_steps (brent_init x chars (-1)) = -1"
  using lists.brent_at_start [of 2 "brent_init x chars (-1)" x h]
  by (simp add: brent_init_def BrentAlgState_new_def num_steps_def)

lemma empty_list_cell:
  assumes "Some w = empty_list_as_cell"
  shows "cell_get_tag w = TAtom \<and> is_nil w"
proof -
  from assms have "atom_cell_build_with empty_list_atom 0 = Some w"
    by (simp add: empty_list_as_cell_def atom_as_cell_def)
  from atom_cell_readings [OF this] show ?thesis by (simp add: is_nil_def)
qed

section \<open>Properties\<close>

text \<open>
  C32: On every heap without cycles of variables and without empty string segments, the search along a list
  (of list cells, of \<open>'.'/2\<close> structures or of string segments, in any mixture) returns. If the list ends,
  it tells the number of its elements, each character of a segment counting as one, and whether the end
  is the empty list, a variable or something else; if it does not end, it tells the length of its cycle:
  from some step on the same location is reached again after exactly the multiples of it.
\<close>
theorem lists_are_classified:
  assumes "sane_lists h" and "link h w = Some (c, x)" and "0 < c"
  shows "(\<forall>n e. list_ends h x n e \<longrightarrow> detect_cycles h w = Some (end_result (hcell h e) (c + n))) \<and>
    ((\<nexists>n e. list_ends h x n e) \<longrightarrow>
      (\<exists>l t0. detect_cycles h w = Some (Cyclic l) \<and> 0 < l \<and>
        (\<forall>t\<ge>t0. walk (tail_of h) x t \<noteq> None \<and>
          (\<forall>j. walk (tail_of h) x (t + j) = walk (tail_of h) x t \<longleftrightarrow> l dvd j))))"
proof (intro conjI allI impI)
  note init = brent_init_at [of h x "c - 1"]
  have short: "list_ends h x 0 x" "end_result (hcell h x) c = ProperList c" if "Some (hcell h x) = empty_list_as_cell"
    using empty_list_cell [OF that]
    by (auto intro!: list_end simp: chase_refers refers_def link_def end_result_def)
  {
    fix n e
    assume ends: "list_ends h x n e"
    show "detect_cycles h w = Some (end_result (hcell h e) (c + n))"
    proof (cases "cell_get_tag w = TPStrLoc \<and> Some (hcell h x) = empty_list_as_cell")
      case True
      then have "n = 0 \<and> e = x" using list_ends_unique [OF ends] short by blast
      with True short show ?thesis by (simp add: detect_cycles_start [OF assms(2)])
    next
      case False
      with detect_loop_ends [OF ends assms(1), of "brent_init x (c - 1) (-1)" x 2 0] init assms(3) show ?thesis
        by (auto simp: detect_cycles_start [OF assms(2)])
    qed
  next
    assume endless: "\<nexists>n e. list_ends h x n e"
    have walk: "walk (tail_of h) x n \<noteq> None" for n using endless_or_ends [OF assms(1) endless] by blast
    from detect_loop_cyclic [OF walk assms(1), of "brent_init x (c - 1) (-1)" 2 0] init
    obtain l where l: "detect_loop h (brent_init x (c - 1) (-1)) = Some (Cyclic l)" "has_period (tail_of h) x l" by auto
    moreover have "detect_cycles h w = detect_loop h (brent_init x (c - 1) (-1))"
      using endless short by (auto simp: detect_cycles_start [OF assms(2)])
    moreover have "0 < l" using l(2) by (simp add: has_period_def)
    ultimately show "\<exists>l t0. detect_cycles h w = Some (Cyclic l) \<and> 0 < l \<and>
        (\<forall>t\<ge>t0. walk (tail_of h) x t \<noteq> None \<and>
          (\<forall>j. walk (tail_of h) x (t + j) = walk (tail_of h) x t \<longleftrightarrow> l dvd j))"
      using period_exact [OF l(2)] walk by metis
  }
qed

text \<open>A list of one element that is its own tail.\<close>

definition loop_heap :: Heap where
  "loop_heap = \<lparr>mem = cell_bytes 0 @ cell_bytes (push_bit 58 5), byte_cap = 16\<rparr>"

lemma lis_0: "cell_build_with TLis 0 = Some (push_bit 58 5)"
  by (simp add: cell_build_with_def)

lemma loop_heap_cells: "hcell loop_heap x = (if x = 1 then push_bit 58 5 else 0)"
proof -
  consider "x = 0" | "x = 1" | "2 \<le> x" by linarith
  then show ?thesis
    by cases (simp_all add: loop_heap_def hcell_def index_defs del: push_bit_numeral)
qed

lemma loop_heap_steps:
  "chase loop_heap x = Some x" "link loop_heap (hcell loop_heap x) = (if x = 1 then Some (1, 1) else None)"
  by (simp_all add: chase_refers [of _ x] refers_def link_def loop_heap_cells built_readings [OF lis_0] del: push_bit_numeral)

theorem lists_are_classified_witness:
  "\<exists>l. detect_cycles loop_heap (push_bit 58 5) = Some (Cyclic l) \<and> 0 < l"
proof -
  have sane: "sane_lists loop_heap"
    by (simp add: sane_lists_def loop_heap_steps loop_heap_cells built_readings [OF lis_0] del: push_bit_numeral)
  have link: "link loop_heap (push_bit 58 5) = Some (1, 1)"
    using loop_heap_steps(2) [of 1] by (simp add: loop_heap_cells del: push_bit_numeral)
  have "walk (tail_of loop_heap) 1 n = Some 1" for n
    by (induction n) (simp_all add: tail_of_def loop_heap_steps)
  then have "\<nexists>n e. list_ends loop_heap 1 n e" using list_ends_walk [of loop_heap 1] by auto
  with lists_are_classified [OF sane link] show ?thesis by auto
qed

end
