(* ===== verification/PStrIter.thy ===== *)
theory PStrIter
  imports ListCycles
begin

text \<open>
  Iterating over the text of a list of characters (\<open>HeapPStrIter\<close> of
  \<open>src/src/machine/partial_string.rs\<close>): the elements are characters and string segments, the iterator
  stops at the end of the list or, on a cyclic list, after whole rounds. The names of atoms are read from the
  static names and an atom table. \<open>None\<close> stands for a call that does not return, on a cycle of variables.
\<close>

section \<open>The iterator\<close>

datatype PStrIteratee = CharItem nat uchar | PStrSlice nat nat

record HeapPStrIter =
  orig_focus :: nat
  brent_st :: BrentAlgState
  post_cycle :: bool

definition HeapPStrIter_new :: "nat \<Rightarrow> HeapPStrIter" where
  "HeapPStrIter_new focus0 =
     \<lparr>orig_focus = focus0, brent_st = BrentAlgState_new focus0, post_cycle = False\<rparr>"

definition focus :: "HeapPStrIter \<Rightarrow> nat" where
  "focus it = hare (brent_st it)"

definition is_cyclic :: "HeapPStrIter \<Rightarrow> bool" where
  "is_cyclic it = post_cycle it"

text \<open>The character at the head of a list cell at \<open>loc\<close>, if there is one.\<close>

definition head_char :: "nat list list \<Rightarrow> AtomTable \<Rightarrow> Heap \<Rightarrow> nat \<Rightarrow> uchar option option" where
  "head_char strings t h loc =
     map_option (\<lambda>w. cell_as_char strings t (heap_bound_store h w)) (heap_bound_deref h (hcell h loc))"

text \<open>\<open>step\<close>: \<open>Inl\<close> is the location where the text ends, \<open>Inr\<close> an element and the location after it.\<close>

definition char_step :: "nat \<Rightarrow> nat \<Rightarrow> uchar option option \<Rightarrow> (nat + PStrIteratee \<times> nat) option" where
  "char_step curr_hare next_hare r =
     map_option (\<lambda>r. case r of Some c \<Rightarrow> Inr (CharItem curr_hare c, next_hare) | None \<Rightarrow> Inl curr_hare) r"

partial_function (option) iter_step ::
  "nat list list \<Rightarrow> AtomTable \<Rightarrow> Heap \<Rightarrow> nat \<Rightarrow> (nat + PStrIteratee \<times> nat) option" where
  "iter_step strings t h curr_hare =
     (let w = hcell h curr_hare; v = cell_val w
      in case cell_get_tag w of
           TPStrLoc \<Rightarrow>
             (case scan_slice_to_str h v of
                (string, tail_idx) \<Rightarrow> Some (Inr (PStrSlice v (length string), tail_idx)))
         | TLis \<Rightarrow> char_step curr_hare (v + 1) (head_char strings t h v)
         | TStr \<Rightarrow>
             if is_dot2 (hcell h v) then char_step curr_hare (v + 2) (head_char strings t h (v + 1))
             else Some (Inl curr_hare)
         | TAttrVar \<Rightarrow> if v = curr_hare then Some (Inl curr_hare) else iter_step strings t h v
         | TVar \<Rightarrow> if v = curr_hare then Some (Inl curr_hare) else iter_step strings t h v
         | _ \<Rightarrow> Some (Inl curr_hare))"

text \<open>The location after the next element, for a list known to be cyclic (\<open>step(..).unwrap().next_hare\<close>).\<close>

definition next_loc :: "nat list list \<Rightarrow> AtomTable \<Rightarrow> Heap \<Rightarrow> nat \<Rightarrow> nat option" where
  "next_loc strings t h x =
     (case iter_step strings t h x of Some (Inr (_, y)) \<Rightarrow> Some y | _ \<Rightarrow> None)"

partial_function (option) meet_loop ::
  "nat list list \<Rightarrow> AtomTable \<Rightarrow> Heap \<Rightarrow> nat \<Rightarrow> nat \<Rightarrow> nat option" where
  "meet_loop strings t h x y =
     (if x = y then Some y
      else case (next_loc strings t h y, next_loc strings t h x) of
             (Some y', Some x') \<Rightarrow> meet_loop strings t h x' y'
           | _ \<Rightarrow> None)"

text \<open>
  \<open>walk_hare_to_cycle_end\<close> leaves the hare where it is and puts the tortoise on the first location of
  the cycle.
\<close>

definition walk_hare_to_cycle_end ::
  "nat list list \<Rightarrow> AtomTable \<Rightarrow> Heap \<Rightarrow> HeapPStrIter \<Rightarrow> HeapPStrIter option" where
  "walk_hare_to_cycle_end strings t h it =
     (case walk (next_loc strings t h) (orig_focus it) (lam (brent_st it)) of
        None \<Rightarrow> None
      | Some hare' \<Rightarrow>
          map_option (\<lambda>y. it\<lparr>brent_st := (brent_st it)\<lparr>tortoise := y\<rparr>\<rparr>)
            (meet_loop strings t h hare' (orig_focus it)))"

definition pre_cycle_discovery_stepper ::
  "nat list list \<Rightarrow> AtomTable \<Rightarrow> Heap \<Rightarrow> HeapPStrIter \<Rightarrow> (PStrIteratee option \<times> HeapPStrIter) option" where
  "pre_cycle_discovery_stepper strings t h it =
     (case iter_step strings t h (focus it) of
        None \<Rightarrow> None
      | Some (Inl next_hare) \<Rightarrow> Some (None, it\<lparr>brent_st := (brent_st it)\<lparr>hare := next_hare\<rparr>\<rparr>)
      | Some (Inr (iteratee, next_hare)) \<Rightarrow>
          (case brent_step next_hare (brent_st it) of
             (Some _, st) \<Rightarrow>
               map_option (\<lambda>it. (Some iteratee, it\<lparr>post_cycle := True\<rparr>))
                 (walk_hare_to_cycle_end strings t h (it\<lparr>brent_st := st\<rparr>))
           | (None, st) \<Rightarrow> Some (Some iteratee, it\<lparr>brent_st := st\<rparr>)))"

definition post_cycle_discovery_stepper ::
  "nat list list \<Rightarrow> AtomTable \<Rightarrow> Heap \<Rightarrow> HeapPStrIter \<Rightarrow> (PStrIteratee option \<times> HeapPStrIter) option" where
  "post_cycle_discovery_stepper strings t h it =
     (if hare (brent_st it) = tortoise (brent_st it) then Some (None, it)
      else case iter_step strings t h (focus it) of
             None \<Rightarrow> None
           | Some (Inl next_hare) \<Rightarrow> Some (None, it\<lparr>brent_st := (brent_st it)\<lparr>hare := next_hare\<rparr>\<rparr>)
           | Some (Inr (iteratee, next_hare)) \<Rightarrow>
               Some (Some iteratee, it\<lparr>brent_st := (brent_st it)\<lparr>hare := next_hare\<rparr>\<rparr>))"

definition iter_next ::
  "nat list list \<Rightarrow> AtomTable \<Rightarrow> Heap \<Rightarrow> HeapPStrIter \<Rightarrow> (PStrIteratee option \<times> HeapPStrIter) option" where
  "iter_next strings t h it =
     (if post_cycle it then post_cycle_discovery_stepper strings t h it
      else pre_cycle_discovery_stepper strings t h it)"

definition slice_to_str :: "Heap \<Rightarrow> nat \<Rightarrow> nat \<Rightarrow> nat list" where
  "slice_to_str h slice_loc slice_len = take slice_len (drop slice_loc (mem h))"

fun item_text :: "Heap \<Rightarrow> PStrIteratee \<Rightarrow> nat list" where
  "item_text h (CharItem _ c) = encode_utf8 c"
| "item_text h (PStrSlice slice_loc slice_len) = slice_to_str h slice_loc slice_len"

partial_function (option) to_string_loop ::
  "nat list list \<Rightarrow> AtomTable \<Rightarrow> Heap \<Rightarrow> nat list \<Rightarrow> HeapPStrIter \<Rightarrow> nat list option" where
  "to_string_loop strings t h buf it =
     (case iter_next strings t h it of
        None \<Rightarrow> None
      | Some (None, it') \<Rightarrow> Some buf
      | Some (Some iteratee, it') \<Rightarrow> to_string_loop strings t h (buf @ item_text h iteratee) it')"

definition to_string_mut :: "nat list list \<Rightarrow> AtomTable \<Rightarrow> Heap \<Rightarrow> HeapPStrIter \<Rightarrow> nat list option" where
  "to_string_mut strings t h it = to_string_loop strings t h [] it"

section \<open>What is iterated over\<close>

text \<open>The text of the element at a location, and of the first elements of a list.\<close>

definition piece :: "nat list list \<Rightarrow> AtomTable \<Rightarrow> Heap \<Rightarrow> nat \<Rightarrow> nat list" where
  "piece strings t h x =
     (case iter_step strings t h x of Some (Inr (iteratee, _)) \<Rightarrow> item_text h iteratee | _ \<Rightarrow> [])"

definition pieces :: "nat list list \<Rightarrow> AtomTable \<Rightarrow> Heap \<Rightarrow> nat \<Rightarrow> nat \<Rightarrow> nat \<Rightarrow> nat list" where
  "pieces strings t h x m n =
     concat (map (\<lambda>i. case walk (next_loc strings t h) x i of Some y \<Rightarrow> piece strings t h y | None \<Rightarrow> []) [m..<n])"

lemma pieces_simps [simp]:
  "pieces strings t h x m m = []"
  "m < n \<Longrightarrow> walk (next_loc strings t h) x m = Some y \<Longrightarrow>
    pieces strings t h x m n = piece strings t h y @ pieces strings t h x (Suc m) n"
  by (simp_all add: pieces_def upt_conv_Cons)

lemma next_loc_bounded: "next_loc strings t h x = Some y \<Longrightarrow> x < length (mem h)"
proof (rule ccontr)
  assume "next_loc strings t h x = Some y" and "\<not> x < length (mem h)"
  then have "hcell h x = 0" by (intro hcell_beyond) simp
  with \<open>next_loc strings t h x = Some y\<close> show False by (simp add: next_loc_def iter_step.simps)
qed

interpretation texts: succession "next_loc strings t h" "length (mem h)" for strings t h
  by unfold_locales (rule next_loc_bounded)

lemma step_cases [consumes 1, case_names ends more]:
  assumes "iter_step strings t h x \<noteq> None"
  obtains z where "iter_step strings t h x = Some (Inl z)" "next_loc strings t h x = None"
  | iteratee y where "iter_step strings t h x = Some (Inr (iteratee, y))" "next_loc strings t h x = Some y"
    "piece strings t h x = item_text h iteratee"
  using assms by (cases "iter_step strings t h x"; cases "the (iter_step strings t h x)")
    (auto simp: next_loc_def piece_def)

section \<open>Cycles\<close>

lemma period_dvd:
  assumes "has_period nxt x l" and "walk nxt x (a + j) = walk nxt x a"
  shows "l dvd j"
proof -
  from period_exact [OF assms(1)] obtain t0 where
    t0: "\<And>t j. t0 \<le> t \<Longrightarrow> walk nxt x (t + j) = walk nxt x t \<longleftrightarrow> l dvd j" by blast
  have "walk nxt x (a + j + t0) = walk nxt x (a + t0)" by (rule walk_repeats [OF assms(2)])
  then have "walk nxt x (a + t0 + j) = walk nxt x (a + t0)" by (simp add: ac_simps)
  with t0 [of "a + t0" j] show ?thesis by simp
qed

lemma walk_rounds:
  assumes "walk nxt x (a + l) = walk nxt x a"
  shows "walk nxt x (a + m * l) = walk nxt x a"
proof (induction m)
  case (Suc m)
  have "walk nxt x (a + l + m * l) = walk nxt x (a + m * l)" by (rule walk_repeats [OF assms])
  with Suc show ?case by (simp add: ac_simps)
qed simp

text \<open>The list has \<open>mu\<close> locations before its cycle of \<open>l\<close> locations.\<close>

definition enters_cycle :: "(nat \<Rightarrow> nat option) \<Rightarrow> nat \<Rightarrow> nat \<Rightarrow> nat \<Rightarrow> bool" where
  "enters_cycle nxt x mu l \<longleftrightarrow>
     0 < l \<and> walk nxt x (mu + l) = walk nxt x mu \<and> distinct (map (walk nxt x) [0..<mu + l])"

lemma least_enters_cycle:
  assumes "has_period nxt x l" and "walk nxt x (mu + l) = walk nxt x mu"
    and "\<And>i. i < mu \<Longrightarrow> walk nxt x (i + l) \<noteq> walk nxt x i"
  shows "enters_cycle nxt x mu l"
proof -
  have "walk nxt x i \<noteq> walk nxt x j" if "i < j" "j < mu + l" for i j
  proof
    assume eq: "walk nxt x i = walk nxt x j"
    have "walk nxt x (i + (j - i)) = walk nxt x i" using eq that by simp
    from period_dvd [OF assms(1) this] obtain c where c: "j - i = l * c" by (elim dvdE)
    then have "0 < c" using that by (cases c) auto
    then have "l \<le> j - i" using c by simp
    then have "i < mu" using that by linarith
    have home: "walk nxt x (i + mu * (j - i)) = walk nxt x i"
      by (rule walk_rounds) (use eq that in simp)
    define d where "d = i + mu * (j - i) - mu"
    have "mu * 1 \<le> mu * (j - i)" using that by (intro mult_le_mono2) simp
    then have "mu \<le> i + mu * (j - i)" by (simp only: mult_1_right trans_le_add2)
    then have d: "mu + d = i + mu * (j - i)" unfolding d_def by (rule le_add_diff_inverse)
    have "walk nxt x (mu + l + d) = walk nxt x (mu + d)" by (rule walk_repeats [OF assms(2)])
    moreover have "mu + l + d = i + mu * (j - i) + l" using d by simp
    ultimately have "walk nxt x (i + mu * (j - i) + l) = walk nxt x i" using home d by (simp only:)
    moreover have "walk nxt x (i + mu * (j - i) + l) = walk nxt x (i + l)" by (rule walk_repeats [OF home])
    ultimately show False using assms(3) [OF \<open>i < mu\<close>] by simp
  qed
  then have "distinct (map (walk nxt x) [0..<mu + l])"
    by (auto simp: distinct_map inj_on_def) (metis nat_neq_iff)
  with assms(1,2) show ?thesis by (simp add: enters_cycle_def has_period_def)
qed

lemma meet_loop_meets:
  assumes "walk (next_loc strings t h) x (mu + l) = walk (next_loc strings t h) x mu"
    and "\<And>i. i < mu \<Longrightarrow> walk (next_loc strings t h) x (i + l) \<noteq> walk (next_loc strings t h) x i"
    and "\<And>n. walk (next_loc strings t h) x n \<noteq> None"
  shows "i \<le> mu \<Longrightarrow> walk (next_loc strings t h) x (i + l) = Some a \<Longrightarrow> walk (next_loc strings t h) x i = Some b \<Longrightarrow>
    meet_loop strings t h a b = walk (next_loc strings t h) x mu"
proof (induction "mu - i" arbitrary: i a b)
  case 0
  then have "i = mu" by simp
  with 0 assms(1) show ?case by (subst meet_loop.simps) simp
next
  case (Suc n)
  then have "i < mu" by simp
  with Suc assms(2) have "a \<noteq> b" by metis
  moreover obtain a' b' where "walk (next_loc strings t h) x (Suc i + l) = Some a'" "walk (next_loc strings t h) x (Suc i) = Some b'"
    using assms(3) [of "Suc i + l"] assms(3) [of "Suc i"] by auto
  moreover from this Suc.prems have "next_loc strings t h a = Some a'" "next_loc strings t h b = Some b'" by simp_all
  ultimately show ?case using Suc.hyps(1) [of "Suc i" a' b'] Suc.hyps(2) \<open>i < mu\<close>
    by (subst meet_loop.simps) simp
qed

section \<open>The loop\<close>

text \<open>After the cycle was found, the iterator goes on until it is at the start of the cycle.\<close>

lemma to_string_post:
  assumes "\<And>z. iter_step strings t h z \<noteq> None"
    and "walk (next_loc strings t h) x T = Some (tortoise (brent_st it))"
  shows "post_cycle it \<Longrightarrow> k \<le> T \<Longrightarrow> walk (next_loc strings t h) x k = Some (focus it) \<Longrightarrow>
    (\<And>i. k \<le> i \<Longrightarrow> i < T \<Longrightarrow> walk (next_loc strings t h) x i \<noteq> Some (tortoise (brent_st it))) \<Longrightarrow>
    to_string_loop strings t h acc it = Some (acc @ pieces strings t h x k T)"
  using assms(2)
proof (induction "T - k" arbitrary: k it acc)
  case 0
  then have "k = T" by simp
  with 0 show ?case
    by (subst to_string_loop.simps) (simp add: iter_next_def post_cycle_discovery_stepper_def focus_def)
next
  case (Suc n)
  then have kT: "k < T" by simp
  with Suc.prems(4) [of k] Suc.prems(3) have ne: "hare (brent_st it) \<noteq> tortoise (brent_st it)" by (auto simp: focus_def)
  from Suc.prems(5) walk_None_mono [of "next_loc strings t h" x "Suc k" T] kT
  have "walk (next_loc strings t h) x (Suc k) \<noteq> None" by auto
  then have "next_loc strings t h (focus it) \<noteq> None" using Suc.prems(3) by simp
  with assms(1) [of "focus it"] obtain iteratee y where s: "iter_step strings t h (focus it) = Some (Inr (iteratee, y))"
    and y: "next_loc strings t h (focus it) = Some y" and p: "piece strings t h (focus it) = item_text h iteratee"
    by (cases rule: step_cases) auto
  let ?it = "it\<lparr>brent_st := (brent_st it)\<lparr>hare := y\<rparr>\<rparr>"
  have "to_string_loop strings t h acc it = to_string_loop strings t h (acc @ item_text h iteratee) ?it"
    using Suc.prems(1) ne s
    by (subst to_string_loop.simps) (simp add: iter_next_def post_cycle_discovery_stepper_def)
  also have "\<dots> = Some ((acc @ item_text h iteratee) @ pieces strings t h x (Suc k) T)"
    using Suc.prems Suc.hyps(2) y by (intro Suc.hyps(1)) (auto simp: focus_def)
  finally show ?case using kT Suc.prems(3) p by simp
qed

text \<open>The step that finds the cycle, and all steps after it.\<close>

lemma to_string_found:
  assumes ret: "\<And>z. iter_step strings t h z \<noteq> None" and endless: "\<And>n. walk (next_loc strings t h) x n \<noteq> None"
    and per: "has_period (next_loc strings t h) x l" and l: "l = lam (brent_st it)" "l \<le> k"
    and meet: "walk (next_loc strings t h) x (k - l) = walk (next_loc strings t h) x k"
    and it: "orig_focus it = x" "walk (next_loc strings t h) x k = Some (focus it)"
  shows "\<exists>it' mu m. walk_hare_to_cycle_end strings t h it = Some it' \<and> enters_cycle (next_loc strings t h) x mu l \<and> 0 < m \<and>
    k \<le> mu + m * l \<and> to_string_loop strings t h acc (it'\<lparr>post_cycle := True\<rparr>) = Some (acc @ pieces strings t h x k (mu + m * l))"
proof -
  let ?w = "walk (next_loc strings t h) x"
  define mu where "mu = (LEAST i. ?w (i + l) = ?w i)"
  have ex: "?w (k - l + l) = ?w (k - l)" using meet l(2) by simp
  have mu: "?w (mu + l) = ?w mu" unfolding mu_def by (rule LeastI [of "\<lambda>i. ?w (i + l) = ?w i", OF ex])
  have least: "?w (i + l) \<noteq> ?w i" if "i < mu" for i using not_less_Least [of i] that unfolding mu_def by blast
  have mul: "mu \<le> k - l" unfolding mu_def by (rule Least_le [of "\<lambda>i. ?w (i + l) = ?w i", OF ex])
  have cyc: "enters_cycle (next_loc strings t h) x mu l" by (rule least_enters_cycle [OF per mu least])
  have lpos: "0 < l" using per by (simp add: has_period_def)
  obtain y where y: "?w mu = Some y" using endless [of mu] by auto
  obtain a where a: "?w l = Some a" using endless [of l] by auto
  have "meet_loop strings t h a x = Some y"
    using meet_loop_meets [OF mu least endless, of 0 a x] a y by simp
  then have wh: "walk_hare_to_cycle_end strings t h it = Some (it\<lparr>brent_st := (brent_st it)\<lparr>tortoise := y\<rparr>\<rparr>)"
    using a it(1) l(1) by (simp add: walk_hare_to_cycle_end_def)
  let ?it = "it\<lparr>brent_st := (brent_st it)\<lparr>tortoise := y\<rparr>, post_cycle := True\<rparr>"
  define m where "m = (LEAST m. k \<le> mu + m * l)"
  have "k \<le> mu + k * l" by (rule trans_le_add2) (use lpos in simp)
  then have m: "k \<le> mu + m * l" unfolding m_def by (rule LeastI)
  have "m \<noteq> 0"
  proof
    assume "m = 0"
    then show False using m mul lpos l(2) by simp
  qed
  have hit: "?w (mu + m * l) = Some y" using walk_rounds [OF mu, of m] y by simp
  have "?w i \<noteq> Some y" if "k \<le> i" "i < mu + m * l" for i
  proof
    assume "?w i = Some y"
    then have "?w (mu + (i - mu)) = ?w mu" using that mul y by simp
    from period_dvd [OF per this] obtain c where "i - mu = l * c" by (elim dvdE)
    moreover have "mu \<le> i" using that mul by simp
    ultimately have c: "i = mu + c * l" by (simp add: mult.commute)
    then have "m \<le> c" unfolding m_def using that(1) by (intro Least_le) simp
    then have "m * l \<le> c * l" by (rule mult_le_mono1)
    with c that(2) show False by simp
  qed
  then have "to_string_loop strings t h acc ?it = Some (acc @ pieces strings t h x k (mu + m * l))"
    using hit m it(2) by (intro to_string_post [OF ret]) (simp_all add: focus_def)
  with wh cyc m \<open>m \<noteq> 0\<close> show ?thesis by auto
qed

lemma brent_at_finds_not:
  assumes "brent_at nxt x 1 k st" and "walk nxt x n = None"
    and "succession nxt b" and "nxt (hare st) = Some y"
  shows "\<exists>st'. brent_step y st = (None, st')"
proof -
  obtain r st' where s: "brent_step y st = (r, st')" by fastforce
  have "r = None"
  proof (rule ccontr)
    assume "r \<noteq> None"
    then obtain r' where "r = Some r'" by blast
    with succession.brent_step_finds [OF assms(3,1,4), of r' st'] s have "has_period nxt x (lam st')" by auto
    from period_endless [OF this] assms(2) show False by blast
  qed
  with s show ?thesis by blast
qed

lemma to_string_ends:
  assumes ret: "\<And>i z. walk (next_loc strings t h) x i = Some z \<Longrightarrow> iter_step strings t h z \<noteq> None"
    and "walk (next_loc strings t h) x n \<noteq> None" and "walk (next_loc strings t h) x (Suc n) = None"
  shows "\<not> post_cycle it \<Longrightarrow> k \<le> n \<Longrightarrow> brent_at (next_loc strings t h) x 1 k (brent_st it) \<Longrightarrow>
    to_string_loop strings t h acc it = Some (acc @ pieces strings t h x k n)"
proof (induction "n - k" arbitrary: k it acc)
  case 0
  then have "k = n" by simp
  have w: "walk (next_loc strings t h) x k = Some (focus it)" using brent_at_hare [OF 0(4)] by (simp add: focus_def)
  from \<open>k = n\<close> have "next_loc strings t h (focus it) = None"
    using w assms(3) by simp
  with ret [OF w] obtain z where "iter_step strings t h (focus it) = Some (Inl z)"
    by (cases rule: step_cases) auto
  with \<open>k = n\<close> 0 show ?case
    by (subst to_string_loop.simps) (simp add: iter_next_def pre_cycle_discovery_stepper_def)
next
  case (Suc m)
  then have kn: "k < n" by simp
  have w: "walk (next_loc strings t h) x k = Some (focus it)" using brent_at_hare [OF Suc.prems(3)] by (simp add: focus_def)
  have "walk (next_loc strings t h) x (Suc k) \<noteq> None"
    using walk_None_mono [of "next_loc strings t h" x "Suc k" n] kn assms(2) by auto
  then have "next_loc strings t h (focus it) \<noteq> None" using w by simp
  with ret [OF w] obtain iteratee y where s: "iter_step strings t h (focus it) = Some (Inr (iteratee, y))"
    and y: "next_loc strings t h (focus it) = Some y" and p: "piece strings t h (focus it) = item_text h iteratee"
    by (cases rule: step_cases) auto
  have y': "next_loc strings t h (hare (brent_st it)) = Some y" using y by (simp add: focus_def)
  from brent_at_finds_not [OF Suc.prems(3) assms(3) texts.succession_axioms y'] obtain st' where
    st': "brent_step y (brent_st it) = (None, st')" by blast
  have "to_string_loop strings t h acc it = to_string_loop strings t h (acc @ item_text h iteratee) (it\<lparr>brent_st := st'\<rparr>)"
    using Suc.prems(1) s st' by (subst to_string_loop.simps) (simp add: iter_next_def pre_cycle_discovery_stepper_def)
  also have "\<dots> = Some ((acc @ item_text h iteratee) @ pieces strings t h x (Suc k) n)"
    using Suc.prems(1) Suc.hyps(2) kn texts.brent_at_step [OF Suc.prems(3) y' st'] by (intro Suc.hyps(1)) auto
  finally show ?case using kn w p by simp
qed

lemma to_string_cyclic:
  assumes ret: "\<And>z. iter_step strings t h z \<noteq> None" and endless: "\<And>n. walk (next_loc strings t h) x n \<noteq> None"
  shows "\<not> post_cycle it \<Longrightarrow> orig_focus it = x \<Longrightarrow> brent_at (next_loc strings t h) x 1 k (brent_st it) \<Longrightarrow>
    \<exists>mu l m. enters_cycle (next_loc strings t h) x mu l \<and> 0 < m \<and> k \<le> mu + m * l \<and>
      to_string_loop strings t h acc it = Some (acc @ pieces strings t h x k (mu + m * l))"
proof (induction "4 * (length (mem h) + 1) - k" arbitrary: k it acc rule: less_induct)
  case less
  have w: "walk (next_loc strings t h) x k = Some (focus it)" using brent_at_hare [OF less.prems(3)] by (simp add: focus_def)
  with endless [of "Suc k"] have "next_loc strings t h (focus it) \<noteq> None" by simp
  with ret [of "focus it"] obtain iteratee y where s: "iter_step strings t h (focus it) = Some (Inr (iteratee, y))"
    and y: "next_loc strings t h (focus it) = Some y" and p: "piece strings t h (focus it) = item_text h iteratee"
    by (cases rule: step_cases) auto
  have y': "next_loc strings t h (hare (brent_st it)) = Some y" using y by (simp add: focus_def)
  have wy: "walk (next_loc strings t h) x (Suc k) = Some y" using w y by simp
  obtain r st' where st': "brent_step y (brent_st it) = (r, st')" by fastforce
  let ?acc = "acc @ item_text h iteratee"
  have first: "pieces strings t h x k T = item_text h iteratee @ pieces strings t h x (Suc k) T" if "Suc k \<le> T" for T
    using that w p by simp
  show ?case
  proof (cases r)
    case None
    have "to_string_loop strings t h acc it = to_string_loop strings t h ?acc (it\<lparr>brent_st := st'\<rparr>)"
      using less.prems(1) s st' None
      by (subst to_string_loop.simps) (simp add: iter_next_def pre_cycle_discovery_stepper_def)
    moreover have "4 * (length (mem h) + 1) - Suc k < 4 * (length (mem h) + 1) - k"
      using texts.brent_at_bounded [OF less.prems(3) endless] by simp
    note IH = less.hyps [OF this, of "it\<lparr>brent_st := st'\<rparr>" ?acc]
    have at': "brent_at (next_loc strings t h) x 1 (Suc k) (brent_st (it\<lparr>brent_st := st'\<rparr>))"
      using texts.brent_at_step [OF less.prems(3) y'] st' None by simp
    from IH [OF _ _ at'] less.prems obtain mu l m where "enters_cycle (next_loc strings t h) x mu l" "0 < m"
      "Suc k \<le> mu + m * l" "to_string_loop strings t h ?acc (it\<lparr>brent_st := st'\<rparr>) =
        Some (?acc @ pieces strings t h x (Suc k) (mu + m * l))" by auto
    ultimately show ?thesis using first by (metis Suc_leD append.assoc)
  next
    case (Some r')
    let ?it = "it\<lparr>brent_st := st'\<rparr>"
    from texts.brent_step_finds [OF less.prems(3) y'] st' Some obtain l where l: "has_period (next_loc strings t h) x l"
      "walk (next_loc strings t h) x (Suc k - l) = walk (next_loc strings t h) x (Suc k)" "l \<le> Suc k"
      "hare st' = y" "lam st' = l" by metis
    have "walk (next_loc strings t h) x (Suc k) = Some (focus ?it)" using wy l(4) by (simp add: focus_def)
    from to_string_found [OF ret endless l(1) _ l(3,2), of ?it ?acc] this l(5) less.prems(2) obtain it' mu m where
      f: "walk_hare_to_cycle_end strings t h ?it = Some it'" "enters_cycle (next_loc strings t h) x mu l" "0 < m"
        "Suc k \<le> mu + m * l"
        "to_string_loop strings t h ?acc (it'\<lparr>post_cycle := True\<rparr>) = Some (?acc @ pieces strings t h x (Suc k) (mu + m * l))"
      by auto
    moreover have "to_string_loop strings t h acc it = to_string_loop strings t h ?acc (it'\<lparr>post_cycle := True\<rparr>)"
      using less.prems(1) s st' Some f(1)
      by (subst to_string_loop.simps) (simp add: iter_next_def pre_cycle_discovery_stepper_def)
    ultimately show ?thesis using first by (metis Suc_leD append.assoc)
  qed
qed

section \<open>Strings read back\<close>

text \<open>The steps from \<open>x\<close> spell a text and lead to \<open>e\<close>.\<close>

inductive spells :: "nat list list \<Rightarrow> AtomTable \<Rightarrow> Heap \<Rightarrow> nat \<Rightarrow> nat list \<Rightarrow> nat \<Rightarrow> bool" for strings t h where
  spells_nil: "spells strings t h x [] x"
| spells_step: "iter_step strings t h x = Some (Inr (iteratee, y)) \<Longrightarrow> spells strings t h y s e \<Longrightarrow>
    spells strings t h x (item_text h iteratee @ s) e"

lemma spells_walk:
  assumes "spells strings t h x s e" and "iter_step strings t h e = Some (Inl z)"
  shows "\<exists>n. walk (next_loc strings t h) x n = Some e \<and> walk (next_loc strings t h) x (Suc n) = None \<and>
    pieces strings t h x 0 n = s \<and> (\<forall>i y. walk (next_loc strings t h) x i = Some y \<longrightarrow> iter_step strings t h y \<noteq> None)"
  using assms
proof (induction rule: spells.induct)
  case (spells_nil x)
  then have n: "next_loc strings t h x = None" by (simp add: next_loc_def)
  have "iter_step strings t h y \<noteq> None" if "walk (next_loc strings t h) x i = Some y" for i y
  proof (cases i)
    case 0
    with that spells_nil show ?thesis by simp
  next
    case (Suc j)
    then show ?thesis using that n walk_None_mono [of "next_loc strings t h" x 1 i] by simp
  qed
  with n show ?case by (intro exI [of _ 0]) simp
next
  case (spells_step x iteratee y s e)
  then obtain n where n: "walk (next_loc strings t h) y n = Some e" "walk (next_loc strings t h) y (Suc n) = None"
    "pieces strings t h y 0 n = s" "\<forall>i z. walk (next_loc strings t h) y i = Some z \<longrightarrow> iter_step strings t h z \<noteq> None" by blast
  have y: "next_loc strings t h x = Some y" "piece strings t h x = item_text h iteratee"
    using spells_step.hyps(1) by (simp_all add: next_loc_def piece_def)
  have w: "walk (next_loc strings t h) x (Suc i) = walk (next_loc strings t h) y i" for i
    using walk_add [of "next_loc strings t h" x 1 i] y(1) by simp
  have "pieces strings t h x 0 (Suc n) = item_text h iteratee @ s"
  proof -
    have "pieces strings t h x 0 (Suc n) = piece strings t h x @ pieces strings t h x 1 (Suc n)"
      using pieces_simps(2) [of 0 "Suc n" strings t h x x] by simp
    moreover have "pieces strings t h x 1 (Suc n) = pieces strings t h y 0 n"
      unfolding pieces_def by (simp only: map_Suc_upt [of 0 n, symmetric] One_nat_def map_map comp_def w)
    ultimately show ?thesis using y(2) n(3) by simp
  qed
  moreover have "iter_step strings t h z \<noteq> None" if "walk (next_loc strings t h) x i = Some z" for i z
    using that n(4) w spells_step.hyps(1) by (cases i) (auto simp del: walk.simps(2))
  ultimately show ?case using n(1,2) w by (intro exI [of _ "Suc n"]) (simp del: walk.simps(2))
qed

lemma spells_collected:
  assumes "spells strings t h x s e" and "iter_step strings t h e = Some (Inl z)"
  shows "to_string_mut strings t h (HeapPStrIter_new x) = Some s"
proof -
  from spells_walk [OF assms] obtain n where n: "walk (next_loc strings t h) x n \<noteq> None"
    "walk (next_loc strings t h) x (Suc n) = None" "pieces strings t h x 0 n = s"
    "\<And>i y. walk (next_loc strings t h) x i = Some y \<Longrightarrow> iter_step strings t h y \<noteq> None" by blast
  have "brent_at (next_loc strings t h) x 1 0 (brent_st (HeapPStrIter_new x))"
    by (rule texts.brent_at_start) (simp_all add: HeapPStrIter_new_def BrentAlgState_new_def)
  from to_string_ends [OF n(4,1,2) _ _ this, where acc = "[]"] n(3) show ?thesis
    by (simp add: to_string_mut_def HeapPStrIter_new_def)
qed

lemma null_cell_char:
  assumes "char_as_cell strings 0 = Some null" and "wf_strings strings" and "[0] \<in> set strings"
  shows "cell_get_tag null = TAtom" "cell_as_char strings t null = Some 0"
proof -
  from assms(3) obtain i where i: "i < length strings" "strings ! i = [0]" by (auto simp: in_set_conv_nth)
  then have "STATIC_ATOMS_MAP strings [0] = Some (2 * i)" using STATIC_ATOMS_MAP_Some [OF assms(2)] by blast
  then have "atom_cell_build_with (2 * i) 0 = Some null"
    using assms(1) by (simp add: char_as_cell_def atom_as_cell_def NULL_ATOM_def)
  note n = atom_cell_readings [OF this]
  then show "cell_get_tag null = TAtom" by simp
  have "as_str strings t (2 * i) = [0]" using valid_static [OF i(1)] i(2) by simp
  moreover have "fst (utf8_prefix [0]) = [0]" by (simp add: utf8_prefix.simps utf8_first_def)
  ultimately show "cell_as_char strings t null = Some 0" using n by (simp add: cell_as_char_def atom_as_char_def)
qed

text \<open>The two kinds of steps a string takes.\<close>

lemma null_step:
  assumes "cell_build_with TLis v = Some (hcell H x)" and "char_as_cell strings 0 = Some (hcell H v)"
    and "wf_strings strings" and "[0] \<in> set strings"
  shows "iter_step strings t H x = Some (Inr (CharItem x 0, v + 1))"
proof -
  note null = null_cell_char [OF assms(2-4)]
  have "heap_bound_deref H (hcell H v) = Some (hcell H v)"
    using null(1) by (subst heap_bound_deref.simps) (simp add: var_target_def)
  then have "head_char strings t H v = Some (Some 0)"
    using null by (simp add: head_char_def heap_bound_store_def var_target_def)
  then show ?thesis using built_readings [OF assms(1)] by (simp add: iter_step.simps [of _ _ _ x] char_step_def)
qed

lemma segment_step:
  assumes "cell_build_with TPStrLoc v = Some (hcell H x)" and "scan_slice_to_str H v = (s, y)"
  shows "iter_step strings t H x = Some (Inr (PStrSlice v (length s), y)) \<and> item_text H (PStrSlice v (length s)) = s"
proof -
  have "s = until_zero (drop v (mem H))"
    using assms(2) by (auto simp: scan_slice_to_str_def scan_slice_def Let_def split: prod.splits)
  then have "take (length s) (drop v (mem H)) = s" by (metis until_zero_def takeWhile_eq_take)
  then show ?thesis using built_readings [OF assms(1)] assms(2)
    by (simp add: iter_step.simps [of _ _ _ x] slice_to_str_def)
qed

text \<open>The cell that leads to a part of a string, in the heap or returned.\<close>

lemma pstr_entry_cell:
  assumes "pstr_entry tag loc r h = Some (r', h1)" and "8 dvd length (mem h)"
  obtains c where "cell_build_with tag (loc (cell_len h1)) = Some c" "8 dvd length (mem h1)" "r' \<noteq> None"
    "byte_cap h1 = byte_cap h" "length (mem h1) \<le> length (mem h) + 8" "\<exists>bs. mem h1 = mem h @ bs" "r \<noteq> None \<Longrightarrow> r' = r"
    "is_bytes (mem h) \<Longrightarrow> is_bytes (mem h1)"
    "\<And>H off x h2 bs. keeps off h2 H \<Longrightarrow> mem h2 = mem h1 @ bs \<Longrightarrow> off \<le> length (mem h) \<Longrightarrow>
      (if r = None then Some (hcell H x) = r' else x = cell_len h) \<Longrightarrow> hcell H x = c"
proof (cases r)
  case None
  with assms obtain c where c: "cell_build_with tag (loc (cell_len h)) = Some c" "r' = Some c" "h1 = h"
    by (auto simp: pstr_entry_def)
  show thesis by (rule that [of c]) (use c None assms(2) in auto)
next
  case (Some a)
  with assms obtain c where c: "cell_build_with tag (loc (cell_len h + 1)) = Some c" "r' = r" "h1 = section_push_cell c h"
    by (auto simp: pstr_entry_def)
  show thesis
  proof (rule that [of c])
    fix H off x h2 bs
    assume "keeps off h2 H" "mem h2 = mem h1 @ bs" "off \<le> length (mem h)"
      "if r = None then Some (hcell H x) = r' else x = cell_len h"
    with keeps_cell [of off h2 H h c bs] assms(2) c Some show "hcell H x = c" by simp
  qed (use c Some assms(2) in auto)
qed

definition leads_to :: "HeapCellValue option \<Rightarrow> Heap \<Rightarrow> HeapCellValue option \<Rightarrow> Heap \<Rightarrow> nat \<Rightarrow> bool" where
  "leads_to r h r' H x \<longleftrightarrow> (if r = None then Some (hcell H x) = r' else x = cell_len h)"

lemma split_at_zero:
  assumes "drop (length (until_zero bs)) bs = y # ys"
  shows "y = 0 \<and> bs = until_zero bs @ 0 # ys"
proof -
  have "dropWhile (\<lambda>b. b \<noteq> 0) bs = y # ys" using assms by (simp add: until_zero_def dropWhile_eq_drop)
  then have "y = 0" using hd_dropWhile [of "\<lambda>b. b \<noteq> 0" bs] by auto
  then show ?thesis using assms by (metis append_take_drop_id takeWhile_eq_take until_zero_def)
qed

text \<open>
  Pushing \<open>src\<close> turned \<open>(r, h)\<close> into \<open>(r', h2)\<close>: the heap was appended to, and in every
  heap that keeps what was appended the text is read back from the cell returned or, if one was returned
  before, from the end of \<open>h\<close>.
\<close>

definition pushed ::
  "nat list list \<Rightarrow> AtomTable \<Rightarrow> nat list \<Rightarrow> HeapCellValue option \<Rightarrow> Heap \<Rightarrow> HeapCellValue option \<Rightarrow> Heap \<Rightarrow> bool" where
  "pushed strings t src r h r' h2 \<longleftrightarrow>
     8 dvd length (mem h2) \<and> byte_cap h2 = byte_cap h \<and> (\<exists>bs. mem h2 = mem h @ bs) \<and>
     (is_bytes (mem h) \<and> is_bytes src \<longrightarrow> is_bytes (mem h2)) \<and>
     (src \<noteq> [] \<or> r \<noteq> None \<longrightarrow> r' \<noteq> None) \<and> (r \<noteq> None \<longrightarrow> r' = r) \<and>
     (\<forall>H off x. keeps off h2 H \<longrightarrow> off \<le> length (mem h) \<longrightarrow> leads_to r h r' H x \<longrightarrow> src \<noteq> [] \<or> r \<noteq> None \<longrightarrow>
       spells strings t H x src (cell_len h2))"

lemma spells_append:
  "spells strings t h x s y \<Longrightarrow> spells strings t h y s' e \<Longrightarrow> spells strings t h x (s @ s') e"
  by (induction rule: spells.induct) (auto intro: spells_step)

lemma pushed_append:
  assumes p: "pushed strings t src r h r1 h1" and q: "pushed strings t src' r1 h1 r' h2" and "src \<noteq> []"
  shows "pushed strings t (src @ src') r h r' h2"
proof -
  from p assms(3) have "r1 \<noteq> None" by (simp add: pushed_def)
  with q have r': "r' = r1" by (simp add: pushed_def)
  from q obtain bs where bs: "mem h2 = mem h1 @ bs" by (auto simp: pushed_def)
  from p obtain bs1 where bs1: "mem h1 = mem h @ bs1" by (auto simp: pushed_def)
  have "spells strings t H x (src @ src') (cell_len h2)"
    if H: "keeps off h2 H" "off \<le> length (mem h)" "leads_to r h r' H x" for H off x
  proof (rule spells_append)
    have "keeps off h1 H" by (rule keeps_prefix [OF H(1) bs])
    with p H assms(3) r' show "spells strings t H x src (cell_len h1)" by (auto simp: pushed_def)
    have "leads_to r1 h1 r' H (cell_len h1)" using \<open>r1 \<noteq> None\<close> by (auto simp: leads_to_def)
    with q H bs1 \<open>r1 \<noteq> None\<close> show "spells strings t H (cell_len h1) src' (cell_len h2)"
      by (auto simp: pushed_def)
  qed
  with p q bs bs1 r' \<open>r1 \<noteq> None\<close> show ?thesis by (auto simp: pushed_def)
qed

lemma pushed_null:
  assumes strings: "wf_strings strings" "[0] \<in> set strings" and null: "char_as_cell strings 0 = Some null"
    and "pstr_entry TLis (\<lambda>n. n) r h = Some (r', h1)" and "8 dvd length (mem h)"
  shows "pushed strings t [0] r h r' (section_push_cell null h1)"
  using assms(4,5)
proof (cases rule: pstr_entry_cell)
  case (1 c)
  have "spells strings t H x [0] (Suc (cell_len h1))"
    if H: "keeps off (section_push_cell null h1) H" "off \<le> length (mem h)" "leads_to r h r' H x" for H off x
  proof -
    have c: "hcell H x = c" using 1(9) [OF H(1) _ H(2)] H(3) by (simp add: leads_to_def)
    have "off \<le> length (mem h1)" using H(2) 1(6) by auto
    then have "hcell H (cell_len h1) = null" using keeps_cell [OF H(1), of h1 null "[]"] 1(2) by simp
    with null_step [of "cell_len h1" H x strings t] 1(1) c null strings
    have "iter_step strings t H x = Some (Inr (CharItem x 0, cell_len h1 + 1))" by simp
    from spells_step [OF this spells_nil] show ?thesis by (simp add: encode_utf8_def)
  qed
  with 1 show ?thesis by (auto simp: pushed_def)
qed

lemma pushed_segment:
  assumes "pstr_entry TPStrLoc heap_index r h = Some (r', h1)" and "8 dvd length (mem h)"
    and seg: "src \<noteq> []" "zero_free src"
  shows "pushed strings t src r h r' (snd (push_pstr_segment src h1))"
  using assms(1,2)
proof (cases rule: pstr_entry_cell)
  case (1 c)
  obtain zeros where z: "mem (snd (push_pstr_segment src h1)) = mem h1 @ src @ replicate zeros 0"
    "byte_cap (snd (push_pstr_segment src h1)) = byte_cap h1" "8 dvd length (mem h1) + length src + zeros"
    using push_pstr_segment_mem [OF seg(1)] by metis
  have "spells strings t H x src (cell_len (snd (push_pstr_segment src h1)))"
    if H: "keeps off (snd (push_pstr_segment src h1)) H" "off \<le> length (mem h)" "leads_to r h r' H x" for H off x
  proof -
    have c: "hcell H x = c" using 1(9) [OF H(1) z(1) H(2)] H(3) by (simp add: leads_to_def)
    have off: "off \<le> length (mem h1)" using H(2) 1(6) by auto
    have "scan_slice_to_str H (length (mem h1)) = (src, cell_len (snd (push_pstr_segment src h1)))"
      using segment_scan [OF seg 1(2) _ H(1) off, of 0] by simp
    moreover have "heap_index (cell_len h1) = length (mem h1)" using 1(2) by (simp add: index_defs)
    ultimately have "iter_step strings t H x = Some (Inr (PStrSlice (length (mem h1)) (length src), cell_len (snd (push_pstr_segment src h1))))"
      and "item_text H (PStrSlice (length (mem h1)) (length src)) = src"
      using segment_step [of "length (mem h1)" H x] 1(1) c by simp_all
    with spells_step [OF _ spells_nil, of strings t H x] show ?thesis by fastforce
  qed
  with 1 z show ?thesis by (auto simp: pushed_def add.assoc)
qed

text \<open>What is pushed for a string is read back as that string.\<close>

lemma push_pstr_pushed:
  "push_pstr_loop strings src r h = Some (r', h2) \<Longrightarrow> wf_strings strings \<Longrightarrow> [0] \<in> set strings \<Longrightarrow> 8 dvd length (mem h) \<Longrightarrow>
    pushed strings t src r h r' h2"
proof (induction strings src r h arbitrary: r' h2 rule: push_pstr_loop.induct)
  case (1 strings r h)
  then show ?case by (auto simp: pushed_def leads_to_def intro: spells_nil)
next
  case (2 strings b src r h)
  note strings = "2.prems"(2,3)
  show ?case
  proof (cases "b = 0")
    case True
    with "2.prems"(1) obtain r1 h1 null where e: "pstr_entry TLis (\<lambda>n. n) r h = Some (r1, h1)" "char_as_cell strings 0 = Some null"
      and p: "push_pstr_loop strings src r1 (section_push_cell null h1) = Some (r', h2)"
      by (auto simp: push_pstr_loop.simps(2) split: option.splits)
    have n: "pushed strings t [0] r h r1 (section_push_cell null h1)" by (rule pushed_null [OF strings e(2,1) "2.prems"(4)])
    then have "8 dvd length (mem (section_push_cell null h1))" by (simp add: pushed_def)
    then have "pushed strings t src r1 (section_push_cell null h1) r' h2" using "2.IH"(1) True e p strings by simp
    from pushed_append [OF n this] True show ?thesis by simp
  next
    case False
    define seg where "seg = until_zero (b # src)"
    from False "2.prems"(1) obtain r1 h1 where e: "pstr_entry TPStrLoc heap_index r h = Some (r1, h1)"
      by (auto simp: push_pstr_loop.simps(2) split: option.splits)
    let ?h = "snd (push_pstr_segment seg h1)"
    have seg: "seg \<noteq> []" "zero_free seg" using False by (simp_all add: seg_def)
    have s: "pushed strings t seg r h r1 ?h" by (rule pushed_segment [OF e "2.prems"(4) seg])
    show ?thesis
    proof (cases "drop (length seg) (b # src)")
      case Nil
      have "seg = take (length seg) (b # src)" unfolding seg_def until_zero_def by (rule takeWhile_eq_take)
      also have "\<dots> = b # src" using append_take_drop_id [of "length seg" "b # src"] Nil by simp
      finally have "seg = b # src" .
      moreover have "r' = r1 \<and> h2 = ?h" using "2.prems"(1) False e Nil
        by (simp add: push_pstr_loop.simps(2) seg_def Let_def)
      ultimately show ?thesis using s by simp
    next
      case (Cons y rest)
      from split_at_zero [OF Cons [unfolded seg_def]] have split: "b # src = seg @ [0] @ rest"
        unfolding seg_def append_Cons append_Nil by (rule conjunct2)
      from "2.prems"(1) False e Cons obtain c null where n: "cell_build_with TLis (cell_len ?h + 1) = Some c"
        "char_as_cell strings 0 = Some null"
        and p: "push_pstr_loop strings rest r1 (section_push_cell null (section_push_cell c ?h)) = Some (r', h2)"
        by (auto simp: push_pstr_loop.simps(2) seg_def Let_def split: option.splits)
      have r1: "r1 \<noteq> None" "8 dvd length (mem ?h)" using s seg(1) by (simp_all add: pushed_def)
      then have "pstr_entry TLis (\<lambda>n. n) r1 ?h = Some (r1, section_push_cell c ?h)" using n(1) by (auto simp: pstr_entry_def)
      from pushed_append [OF s pushed_null [OF strings n(2) this r1(2)] seg(1)]
      have sn: "pushed strings t (seg @ [0]) r h r1 (section_push_cell null (section_push_cell c ?h))" .
      then have "8 dvd length (mem (section_push_cell null (section_push_cell c ?h)))" by (simp add: pushed_def)
      then have "pushed strings t rest r1 (section_push_cell null (section_push_cell c ?h)) r' h2"
        using "2.IH"(2) False e Cons n p strings by (simp add: seg_def)
      from pushed_append [OF sn this] show ?thesis unfolding split by simp
    qed
  qed
qed

section \<open>Room for strings\<close>

lemma segment_size: "n + 2 \<le> 8 * pstr_tail_idx n"
proof -
  define q where "q = n div 8"
  define m where "m = n mod 8"
  have n: "n = 8 * q + m" "m < 8" by (simp_all add: q_def m_def)
  have "n + 1 = m + 1 + q * 8" using n(1) by simp
  then have "(n + 1) mod 8 = (m + 1) mod 8" by (simp only: mod_mult_self1)
  then have "pstr_tail_idx n = q + (if m = 7 then 2 else 1)"
    using n(2) by (auto simp: pstr_tail_idx_def index_defs q_def [symmetric])
  then show ?thesis using n by auto
qed

lemma compute_pstr_size_null: "compute_pstr_size_from (0 # src) = 16 + compute_pstr_size_from src"
  by (subst compute_pstr_size_from.simps) (simp add: heap_index_def)

lemma compute_pstr_size_segment:
  fixes src :: "nat list"
  assumes "b \<noteq> 0"
  defines "seg \<equiv> until_zero (b # src)"
  shows "length seg + 2 + compute_pstr_size_from (drop (length seg) (b # src)) \<le> compute_pstr_size_from (b # src)"
proof -
  have "snd (scan_slice_from_start (b # src)) = pstr_tail_idx (length seg)"
    using scan_tail_idx [of "b # src" "length seg" 0]
    by (simp add: seg_def scan_slice_def scan_slice_from_start_def index_defs)
  moreover have "fst (scan_slice_from_start (b # src)) = seg" by (simp add: scan_slice_from_start_def Let_def seg_def)
  ultimately have "compute_pstr_size_from (b # src) =
      compute_pstr_size_from (drop (length seg) (b # src)) + heap_index (pstr_tail_idx (length seg))"
    using assms(1) by (subst compute_pstr_size_from.simps) (simp add: case_prod_unfold)
  with segment_size [of "length seg"] show ?thesis by (simp add: heap_index_def mult.commute)
qed

lemma pstr_entry_total:
  assumes "loc (cell_len h + 1) < 2 ^ 56" and "loc (cell_len h) < 2 ^ 56"
  shows "\<exists>r' h1. pstr_entry tag loc r h = Some (r', h1)"
  using assms by (cases r) (auto simp: pstr_entry_def cell_build_with_def)

text \<open>
  A string takes no more bytes than eight times its computed size, and as long as these can be addressed
  it is pushed.
\<close>

lemma push_pstr_room:
  "8 dvd length (mem h) \<Longrightarrow> push_pstr_loop strings src r h = Some (r', h2) \<Longrightarrow>
    length (mem h2) \<le> length (mem h) + 8 * compute_pstr_size_from src"
proof (induction strings src r h arbitrary: r' h2 rule: push_pstr_loop.induct)
  case (2 strings b src r h)
  show ?case
  proof (cases "b = 0")
    case True
    with "2.prems"(2) obtain r1 h1 null where e: "pstr_entry TLis (\<lambda>n. n) r h = Some (r1, h1)" "char_as_cell strings 0 = Some null"
      and p: "push_pstr_loop strings src r1 (section_push_cell null h1) = Some (r', h2)"
      by (auto simp: push_pstr_loop.simps(2) split: option.splits)
    from e(1) "2.prems"(1) have h1: "8 dvd length (mem h1)" "length (mem h1) \<le> length (mem h) + 8"
      by (cases rule: pstr_entry_cell; simp)+
    with "2.IH"(1) [OF True refl e(1) refl e(2) _ p] True show ?thesis by (simp add: compute_pstr_size_null)
  next
    case False
    define seg where "seg = until_zero (b # src)"
    from False "2.prems"(2) obtain r1 h1 where e: "pstr_entry TPStrLoc heap_index r h = Some (r1, h1)"
      by (auto simp: push_pstr_loop.simps(2) split: option.splits)
    from e "2.prems"(1) have h1: "8 dvd length (mem h1)" "length (mem h1) \<le> length (mem h) + 8"
      by (cases rule: pstr_entry_cell; simp)+
    let ?h = "snd (push_pstr_segment seg h1)"
    have seg: "seg \<noteq> []" using False by (simp add: seg_def)
    obtain zeros where z: "mem ?h = mem h1 @ seg @ replicate zeros 0" "8 dvd length (mem h1) + length seg + zeros" "zeros \<le> 9"
      using push_pstr_segment_mem [OF seg] by metis
    have "1 \<le> length seg" using seg by (cases seg) auto
    with compute_pstr_size_segment [OF False, of src] z(1,3) h1(2)
    have h: "length (mem ?h) + 8 * compute_pstr_size_from (drop (length seg) (b # src)) \<le>
        length (mem h) + 8 * compute_pstr_size_from (b # src)" by (simp add: seg_def)
    show ?thesis
    proof (cases "drop (length seg) (b # src)")
      case Nil
      then have "h2 = ?h" using "2.prems"(2) False e by (simp add: push_pstr_loop.simps(2) seg_def Let_def)
      with h show ?thesis by simp
    next
      case (Cons y rest)
      from split_at_zero [OF Cons [unfolded seg_def]] have "y = 0" by (rule conjunct1)
      from "2.prems"(2) False e Cons obtain c null where n: "cell_build_with TLis (cell_len ?h + 1) = Some c"
        "char_as_cell strings 0 = Some null"
        and p: "push_pstr_loop strings rest r1 (section_push_cell null (section_push_cell c ?h)) = Some (r', h2)"
        by (auto simp: push_pstr_loop.simps(2) seg_def Let_def split: option.splits)
      have "8 dvd length (mem ?h)" using z(1,2) by (simp add: add.assoc)
      then have "8 dvd length (mem (section_push_cell null (section_push_cell c ?h)))" by simp
      then have "length (mem h2) \<le> length (mem (section_push_cell null (section_push_cell c ?h))) + 8 * compute_pstr_size_from rest"
        using "2.IH"(2) False e Cons n p by (simp add: seg_def)
      with h Cons \<open>y = 0\<close> show ?thesis by (simp add: compute_pstr_size_null)
    qed
  qed
qed simp

lemma push_pstr_total:
  "8 dvd length (mem h) \<Longrightarrow> length (mem h) + 8 * compute_pstr_size_from src < 2 ^ 56 \<Longrightarrow>
    char_as_cell strings 0 = Some null \<Longrightarrow> push_pstr_loop strings src r h \<noteq> None"
proof (induction strings src r h rule: push_pstr_loop.induct)
  case (2 strings b src r h)
  note dvd = "2.prems"(1) and room = "2.prems"(2) and null = "2.prems"(3)
  show ?case
  proof (cases "b = 0")
    case True
    have "cell_len h + 1 < 2 ^ 56" using room True by (simp add: compute_pstr_size_null index_defs)
    then obtain r1 h1 where e: "pstr_entry TLis (\<lambda>n. n) r h = Some (r1, h1)" using pstr_entry_total [of "\<lambda>n. n" h TLis r] by auto
    from e dvd have h1: "8 dvd length (mem h1)" "length (mem h1) \<le> length (mem h) + 8" by (cases rule: pstr_entry_cell; simp)+
    have "push_pstr_loop strings src r1 (section_push_cell null h1) \<noteq> None"
      using "2.IH"(1) [OF True refl e refl null] h1 room null True by (simp add: compute_pstr_size_null)
    then show ?thesis using True e null by (simp add: push_pstr_loop.simps(2))
  next
    case False
    define seg where "seg = until_zero (b # src)"
    have seg: "seg \<noteq> []" using False by (simp add: seg_def)
    then have l: "1 \<le> length seg" by (cases seg) auto
    note sz = compute_pstr_size_segment [OF False, of src, folded seg_def]
    have idx: "heap_index (cell_len h) = length (mem h)" using dvd by (simp add: index_defs)
    then have "heap_index (cell_len h + 1) < 2 ^ 56" using room sz l by (simp add: heap_index_def)
    then obtain r1 h1 where e: "pstr_entry TPStrLoc heap_index r h = Some (r1, h1)"
      using pstr_entry_total [of heap_index h TPStrLoc r] by (auto simp: heap_index_def)
    from e dvd have h1: "8 dvd length (mem h1)" "length (mem h1) \<le> length (mem h) + 8" by (cases rule: pstr_entry_cell; simp)+
    let ?h = "snd (push_pstr_segment seg h1)"
    obtain zeros where z: "mem ?h = mem h1 @ seg @ replicate zeros 0" "8 dvd length (mem h1) + length seg + zeros" "zeros \<le> 9"
      using push_pstr_segment_mem [OF seg] by metis
    from z sz l h1(2) have h: "length (mem ?h) + 8 * compute_pstr_size_from (drop (length seg) (b # src)) \<le>
        length (mem h) + 8 * compute_pstr_size_from (b # src)" by simp
    show ?thesis
    proof (cases "drop (length seg) (b # src)")
      case Nil
      then show ?thesis using False e by (simp add: push_pstr_loop.simps(2) seg_def Let_def)
    next
      case (Cons y rest)
      from split_at_zero [OF Cons [unfolded seg_def]] have "y = 0" by (rule conjunct1)
      with h Cons room have r: "length (mem ?h) + 128 + 8 * compute_pstr_size_from rest < 2 ^ 56"
        by (simp add: compute_pstr_size_null)
      have "8 dvd length (mem ?h)" using z(1,2) by (simp add: add.assoc)
      moreover have "cell_len ?h + 1 < 2 ^ 56" using r by (simp add: index_defs)
      then obtain c where c: "cell_build_with TLis (cell_len ?h + 1) = Some c" by (auto simp: cell_build_with_def)
      ultimately have "push_pstr_loop strings rest r1 (section_push_cell null (section_push_cell c ?h)) \<noteq> None"
        using "2.IH"(2) False e Cons null r by (simp add: seg_def)
      then show ?thesis using False e Cons c null by (simp add: push_pstr_loop.simps(2) seg_def Let_def)
    qed
  qed
qed simp

section \<open>Allocation\<close>

lemma empty_list_cell_exists: "\<exists>nil. empty_list_as_cell = Some nil"
  by (simp add: empty_list_as_cell_def atom_as_cell_def atom_cell_build_with_def empty_list_atom_def atom_new_inlined_def
      encode_utf8_def le_nat_append)

lemma empty_list_ends: "hcell H x = nil \<Longrightarrow> empty_list_as_cell = Some nil \<Longrightarrow> iter_step strings t H x = Some (Inl x)"
  using empty_list_cell [of nil] by (simp add: iter_step.simps [of _ _ _ x])

lemma keeps_set_0: "8 \<le> length (mem h) \<Longrightarrow> keeps 8 h (set_hcell 0 w h)"
  by (auto simp: keeps_def set_hcell_def heap_index_def nth_append)

lemma pushed_wf:
  assumes "pushed strings t src r h r' h2" and "wf_heap h" and "is_bytes src" and "length (mem h2) \<le> byte_cap h"
  shows "wf_heap h2"
  using assms by (simp add: pushed_def wf_heap_def)

lemma wf_section_push_cell: "wf_heap h \<Longrightarrow> length (mem h) + 8 \<le> byte_cap h \<Longrightarrow> wf_heap (section_push_cell c h)"
  by (simp add: wf_heap_def)

text \<open>After the reservation there is room for the string and its tail.\<close>

lemma allocate_cstr_cases:
  assumes "allocate_cstr avail strings src h = Some (cell, h')" and "wf_heap h" and "is_bytes src"
    and "wf_strings strings" and "[0] \<in> set strings"
  obtains nil where "src = []" "empty_list_as_cell = Some nil" "cell = nil" "mem h' = mem h" "wf_heap h'"
  | nil h1 h2 where "src \<noteq> []" "empty_list_as_cell = Some nil" "mem h1 = mem h" "pushed strings t src None h1 (Some cell) h2"
    "h' = section_push_cell nil h2" "wf_heap h'"
proof -
  obtain nil where nil: "empty_list_as_cell = Some nil" using empty_list_cell_exists by blast
  from assms(1) obtain h1 r h2 where h1: "reserve avail (compute_pstr_size src + 1) h = Some h1"
    and p: "push_pstr strings src h1 = Some (r, h2)"
    and res: "(cell, h') = (case r of None \<Rightarrow> (nil, h2) | Some c \<Rightarrow> (c, section_push_cell nil h2))"
    by (auto simp: allocate_cstr_def nil split: option.splits)
  from grow_until_Some [of avail _ h h1] h1 assms(2) have m: "mem h1 = mem h" "wf_heap h1"
    and free: "heap_index (compute_pstr_size src + 1) \<le> free_space h1" by (auto simp: reserve_def)
  from p have pl: "push_pstr_loop strings src None h1 = Some (r, h2)" by (simp add: push_pstr_def)
  have dvd: "8 dvd length (mem h1)" using m(2) by (simp add: wf_heap_def)
  have push: "pushed strings t src None h1 r h2" by (rule push_pstr_pushed [OF pl assms(4,5) dvd])
  have len: "length (mem h2) + 8 \<le> byte_cap h1"
    using push_pstr_room [OF dvd pl] free m(2)
    by (simp add: compute_pstr_size_def heap_index_def free_space_def byte_len_def wf_heap_def)
  with pushed_wf [OF push m(2) assms(3)] have wf: "wf_heap h2" by simp
  have cap: "byte_cap h2 = byte_cap h1" using push by (simp add: pushed_def)
  show thesis
  proof (cases "src = []")
    case True
    with pl have "r = None" "h2 = h1" by simp_all
    with that(1) True nil res m show thesis by simp
  next
    case False
    with push obtain c where c: "r = Some c" by (auto simp: pushed_def)
    with that(2) False nil res m(1) push wf_section_push_cell [OF wf] len cap show thesis by simp
  qed
qed

lemma allocate_cstr_reads_back:
  assumes "allocate_cstr avail strings src h = Some (cell, h')" and "wf_heap h" and "is_bytes src"
    and "wf_strings strings" and "[0] \<in> set strings" and "0 < cell_len h"
  shows "wf_heap h' \<and> (\<exists>bs. mem h' = mem h @ bs) \<and>
      to_string_mut strings t (set_hcell 0 cell h') (HeapPStrIter_new 0) = Some src"
  using assms(1-5)
proof (cases rule: allocate_cstr_cases [where t = t])
  case (1 nil)
  have "0 < cell_len h'" using assms(6) 1 by (simp add: index_defs)
  from hcell_set_same [OF this, of cell] 1 have "iter_step strings t (set_hcell 0 cell h') 0 = Some (Inl 0)"
    by (intro empty_list_ends) simp_all
  from spells_collected [OF spells_nil this] 1 show ?thesis by simp
next
  case (2 nil h1 h2)
  have len: "8 \<le> length (mem h)" using assms(6) by (simp add: index_defs)
  obtain bs where bs: "mem h2 = mem h1 @ bs" "8 dvd length (mem h2)" using 2(4) by (auto simp: pushed_def)
  let ?H = "set_hcell 0 cell h'"
  have lh: "8 \<le> length (mem h')" "0 < cell_len h'" using len 2(3,5) bs by (simp_all add: index_defs)
  have k: "keeps 8 h' ?H" by (rule keeps_set_0 [OF lh(1)])
  have k2: "keeps 8 h2 ?H" using keeps_prefix [OF k] 2(5) by simp
  have "leads_to None h1 (Some cell) ?H 0" using hcell_set_same [OF lh(2)] by (simp add: leads_to_def)
  then have "spells strings t ?H 0 src (cell_len h2)" using 2(1,3,4) k2 len by (simp add: pushed_def)
  moreover have "hcell ?H (cell_len h2) = nil"
    using keeps_cell [OF k, of h2 nil "[]"] 2(3,5) bs len by simp
  then have "iter_step strings t ?H (cell_len h2) = Some (Inl (cell_len h2))" using 2(2) by (rule empty_list_ends)
  ultimately have "to_string_mut strings t ?H (HeapPStrIter_new 0) = Some src" by (rule spells_collected)
  with 2 bs show ?thesis by simp
qed

lemma allocate_cstr_total:
  assumes "wf_heap h" and "wf_strings strings" and "[0] \<in> set strings"
    and "length (mem h) + 8 * compute_pstr_size src < 2 ^ 56" and "length strings < 2 ^ 48"
  shows "allocate_cstr (\<lambda>_. True) strings src h \<noteq> None"
proof -
  obtain h1 where h1: "reserve (\<lambda>_. True) (compute_pstr_size src + 1) h = Some h1"
    using grow_until_total by (auto simp: reserve_def)
  with grow_until_Some [of _ _ h h1] assms(1) have m: "mem h1 = mem h" "8 dvd length (mem h1)"
    by (auto simp: reserve_def wf_heap_def)
  obtain i where "i < length strings" "strings ! i = [0]" using assms(3) by (auto simp: in_set_conv_nth)
  then have "STATIC_ATOMS_MAP strings [0] = Some (2 * i)" using STATIC_ATOMS_MAP_Some [OF assms(2)] by blast
  then obtain null where "char_as_cell strings 0 = Some null"
    using assms(5) \<open>i < length strings\<close>
    by (auto simp: char_as_cell_def NULL_ATOM_def atom_as_cell_def atom_cell_build_with_def)
  with push_pstr_total [OF m(2), of src strings null None] assms(4) m(1) have "push_pstr strings src h1 \<noteq> None"
    by (simp add: compute_pstr_size_def push_pstr_def)
  then show ?thesis using h1 empty_list_cell_exists by (auto simp: allocate_cstr_def split: option.splits)
qed

lemma static_null:
  "[0] \<in> set names \<Longrightarrow> wf_strings (index_static_strings names) \<and> [0] \<in> set (index_static_strings names)"
  using index_static_strings_wf [of names] by (simp add: index_static_strings_def inlinable_def)

section \<open>Properties\<close>

text \<open>
  C34: Collecting the text of a list returns on every heap on which its steps do. If the list ends, the
  text of all its elements is returned in their order. If it is cyclic, with \<open>mu\<close> locations before a
  cycle of \<open>l\<close>, all different, the iterator stops after the elements before the cycle and a
  positive number of whole rounds.
\<close>
theorem text_is_collected:
  assumes "\<And>z. iter_step strings t h z \<noteq> None"
  shows "(\<forall>n. walk (next_loc strings t h) x n \<noteq> None \<and> walk (next_loc strings t h) x (Suc n) = None \<longrightarrow>
      to_string_mut strings t h (HeapPStrIter_new x) = Some (pieces strings t h x 0 n)) \<and>
    ((\<forall>n. walk (next_loc strings t h) x n \<noteq> None) \<longrightarrow>
      (\<exists>mu l m. enters_cycle (next_loc strings t h) x mu l \<and> 0 < m \<and>
        to_string_mut strings t h (HeapPStrIter_new x) = Some (pieces strings t h x 0 (mu + m * l))))"
proof -
  have at: "brent_at (next_loc strings t h) x 1 0 (brent_st (HeapPStrIter_new x))"
    by (rule texts.brent_at_start) (simp_all add: HeapPStrIter_new_def BrentAlgState_new_def)
  have it: "\<not> post_cycle (HeapPStrIter_new x)" "orig_focus (HeapPStrIter_new x) = x"
    by (simp_all add: HeapPStrIter_new_def)
  have "to_string_mut strings t h (HeapPStrIter_new x) = Some (pieces strings t h x 0 n)"
    if "walk (next_loc strings t h) x n \<noteq> None" "walk (next_loc strings t h) x (Suc n) = None" for n
    using to_string_ends [OF assms that it(1) _ at, of "[]"] by (simp add: to_string_mut_def)
  moreover have "\<exists>mu l m. enters_cycle (next_loc strings t h) x mu l \<and> 0 < m \<and>
        to_string_mut strings t h (HeapPStrIter_new x) = Some (pieces strings t h x 0 (mu + m * l))"
    if "\<And>n. walk (next_loc strings t h) x n \<noteq> None"
    using to_string_cyclic [OF assms that it at, of "[]"] by (simp add: to_string_mut_def)
  ultimately show ?thesis by blast
qed

text \<open>A cyclic list of one character.\<close>

definition char_loop_heap :: Heap where
  "char_loop_heap = \<lparr>mem = cell_bytes (of_nat 97 OR push_bit 58 63) @ cell_bytes (push_bit 58 5), byte_cap = 16\<rparr>"

lemma char_a: "atom_cell_build_with (atom_new_inlined [97]) 0 = Some (of_nat 97 OR push_bit 58 63)"
  by (simp add: atom_cell_build_with_def atom_new_inlined_def le_nat_append)

lemma char_loop_cells:
  "hcell char_loop_heap x = (if x = 0 then of_nat 97 OR push_bit 58 63 else if x = 1 then push_bit 58 5 else 0)"
proof -
  consider "x = 0" | "x = 1" | "2 \<le> x" by linarith
  then show ?thesis by cases (simp_all add: char_loop_heap_def hcell_def index_defs del: push_bit_numeral)
qed

lemma char_loop_step:
  "iter_step [] t char_loop_heap x = Some (if x = 1 then Inr (CharItem 1 97, 1) else Inl x)"
proof -
  note a = atom_cell_readings [OF char_a] and l = built_readings [OF lis_0]
  have c: "cell_as_char [] t (of_nat 97 OR push_bit 58 63) = Some 97"
    using a as_str_inlined [of "[97]" "[]" "at_block t"]
    by (simp add: cell_as_char_def atom_as_char_def as_str_def inlinable_def INLINED_ATOM_MAX_LEN_def utf8_prefix.simps
        utf8_first_def del: push_bit_numeral)
  have "heap_bound_deref char_loop_heap (of_nat 97 OR push_bit 58 63) = Some (of_nat 97 OR push_bit 58 63)"
    using a by (subst heap_bound_deref.simps) (simp add: var_target_def del: push_bit_numeral)
  then have "head_char [] t char_loop_heap 0 = Some (Some 97)"
    using a c by (simp add: head_char_def char_loop_cells heap_bound_store_def var_target_def del: push_bit_numeral)
  then show ?thesis using a l
    by (auto simp: iter_step.simps [of _ _ _ x] char_loop_cells char_step_def simp del: push_bit_numeral)
qed

theorem text_is_collected_witness:
  "\<exists>t mu l m. enters_cycle (next_loc [] t char_loop_heap) 1 mu l \<and> 0 < m \<and>
     to_string_mut [] t char_loop_heap (HeapPStrIter_new 1) = Some (pieces [] t char_loop_heap 1 0 (mu + m * l))"
proof -
  fix t :: AtomTable
  have "walk (next_loc [] t char_loop_heap) 1 n = Some 1" for n
    by (induction n) (simp_all add: next_loc_def char_loop_step)
  with text_is_collected [of "[]" t char_loop_heap 1] show ?thesis by (auto simp: char_loop_step)
qed

text \<open>
  C37: A string that was allocated in a well-formed heap, null characters and all, stays within the
  capacity of the heap, changes nothing that was there, and is read back as it was by the iterator from the
  cell that was returned for it; and while memory lasts and the heap can be addressed it is allocated.
\<close>
theorem allocated_string_is_read_back:
  assumes "wf_heap h" and "is_bytes src" and "0 < cell_len h" and "[0] \<in> set names"
  defines "strings \<equiv> index_static_strings names"
  shows "(\<forall>avail cell h'. allocate_cstr avail strings src h = Some (cell, h') \<longrightarrow>
      wf_heap h' \<and> (\<exists>bs. mem h' = mem h @ bs) \<and>
      to_string_mut strings t (set_hcell 0 cell h') (HeapPStrIter_new 0) = Some src) \<and>
    (length (mem h) + 8 * compute_pstr_size src < 2 ^ 56 \<and> length strings < 2 ^ 48 \<longrightarrow>
      allocate_cstr (\<lambda>_. True) strings src h \<noteq> None)"
  using allocate_cstr_reads_back [OF _ assms(1,2) _ _ assms(3)] allocate_cstr_total [OF assms(1)] static_null [OF assms(4)]
  unfolding strings_def by blast

theorem allocated_string_is_read_back_witness:
  "\<exists>t h cell h'. allocate_cstr (\<lambda>_. True) (index_static_strings [[0]]) [97, 0, 98] h = Some (cell, h') \<and>
     to_string_mut (index_static_strings [[0]]) t (set_hcell 0 cell h') (HeapPStrIter_new 0) = Some [97, 0, 98]"
proof -
  fix t :: AtomTable
  define h where "h = \<lparr>mem = cell_bytes 0, byte_cap = 8\<rparr>"
  have wf: "wf_heap h" "is_bytes [97, 0, 98]" "0 < cell_len h" "[0] \<in> set [[0 :: nat]]"
    by (simp_all add: h_def wf_heap_def index_defs)
  have size: "compute_pstr_size [97, 0, 98] = 40"
    by (simp add: compute_pstr_size_def compute_pstr_size_from.simps scan_slice_from_start_def Let_def sentinel_eq
        next_multiple_of_def index_defs)
  have "length (mem h) = 8" "length (index_static_strings [[0 :: nat]]) = 1"
    by (simp_all add: h_def index_static_strings_def inlinable_def)
  with allocated_string_is_read_back [OF wf, of t] size show ?thesis by fastforce
qed

end
