(* ===== verification/Store.thy ===== *)
theory Store
  imports HeapStrings Numbers "HOL-Library.Monad_Syntax"
begin

text \<open>
  The store of the machine: heap, stack and trail, dereferencing, binding and undoing
  (\<open>src/src/machine/machine_state_impl.rs\<close>, \<open>unwind_trail\<close> of \<open>src/src/machine/mod.rs\<close>,
  \<open>push_attr_var_binding\<close> of \<open>src/src/machine/attributed_variables.rs\<close>). The stack is its cells; the
  index of a stack cell is its byte offset. The arena and the table of floats are only read: \<open>ms_arena\<close>
  gives what the header at an address describes. \<open>None\<close> stands for a panic, for a call that does not
  return (\<open>deref\<close> on a cycle of variables) and for a write outside the heap or the stack.
\<close>

unbundle bit_operations_syntax

section \<open>Trail entries\<close>

text \<open>
  A trail entry is packed like a cell, with numbers of its own for the tags: none of them is a number
  of a heap cell, so that a cell pushed on the trail as it is reads as an attached value.
\<close>

datatype TrailEntryTag =
    EHeapVar | EStackVar | EAttrVar | EAttrVarListLink | EAttachedValue | EBlackboardEntry | EBlackboardOffset

fun entry_tag_bits :: "TrailEntryTag \<Rightarrow> nat" where
  "entry_tag_bits EHeapVar = 47" | "entry_tag_bits EStackVar = 43" | "entry_tag_bits EAttrVar = 33"
| "entry_tag_bits EAttrVarListLink = 35" | "entry_tag_bits EAttachedValue = 37"
| "entry_tag_bits EBlackboardEntry = 39" | "entry_tag_bits EBlackboardOffset = 51"

type_synonym TrailEntry = "64 word"

definition entry_build_with :: "TrailEntryTag \<Rightarrow> nat \<Rightarrow> TrailEntry option" where
  "entry_build_with tag v =
     (if v < 2 ^ 56 then Some (push_bit 58 (of_nat (entry_tag_bits tag)) OR of_nat v) else None)"

definition entry_get_tag :: "TrailEntry \<Rightarrow> TrailEntryTag" where
  "entry_get_tag e =
     (case find (\<lambda>t. entry_tag_bits t = cell_tag_bits e)
        [EHeapVar, EStackVar, EAttrVar, EAttrVarListLink, EAttachedValue, EBlackboardEntry, EBlackboardOffset] of
        Some tag \<Rightarrow> tag
      | None \<Rightarrow> EAttachedValue)"

definition entry_get_value :: "TrailEntry \<Rightarrow> nat" where
  "entry_get_value e = cell_val e"

datatype TrailRef =
    TRef Ref
  | AttrVarListLink nat nat
  | BlackboardEntry Atom
  | BlackboardOffset Atom HeapCellValue

section \<open>The state\<close>

datatype ArenaItem = AInteger int | ARational rat | AStream "Atom option" | AOther

record AttrVarInitializer =
  av_bindings :: "(nat \<times> HeapCellValue) list"
  av_p :: nat
  av_cp :: nat
  av_queue :: "nat list"

record MachineState =
  ms_heap :: Heap
  ms_stack :: "HeapCellValue list"
  ms_arena :: "nat \<Rightarrow> ArenaItem"
  ms_f64_tbl :: "nat \<Rightarrow> f64"
  ms_atom_tbl :: AtomTable
  ms_trail :: "TrailEntry list"
  ms_tr :: nat
  ms_hb :: nat
  ms_b :: nat
  ms_pdl :: "HeapCellValue list"
  ms_fail :: bool
  ms_p :: nat
  ms_cp :: nat
  ms_attr :: AttrVarInitializer

record Machine =
  machine_st :: MachineState
  global_variables :: "Atom \<rightharpoonup> HeapCellValue option"

definition VERIFY_ATTR_INTERRUPT_LOC :: nat where
  "VERIFY_ATTR_INTERRUPT_LOC = 1"

definition heap_cell :: "nat \<Rightarrow> Ref" where "heap_cell h = \<lparr>ref_tag = HeapCell, ref_val = h\<rparr>"
definition stack_cell :: "nat \<Rightarrow> Ref" where "stack_cell s = \<lparr>ref_tag = StackCell, ref_val = s\<rparr>"
definition attr_var :: "nat \<Rightarrow> Ref" where "attr_var h = \<lparr>ref_tag = AttrVarRef, ref_val = h\<rparr>"

definition stack_at :: "HeapCellValue list \<Rightarrow> nat \<Rightarrow> HeapCellValue" where
  "stack_at st s = (if s mod 8 = 0 \<and> s div 8 < length st then st ! (s div 8) else 0)"

definition put_heap :: "nat \<Rightarrow> HeapCellValue \<Rightarrow> MachineState \<Rightarrow> MachineState option" where
  "put_heap h w st =
     (if h < cell_len (ms_heap st) then Some (st\<lparr>ms_heap := set_hcell h w (ms_heap st)\<rparr>) else None)"

definition put_stack :: "nat \<Rightarrow> HeapCellValue \<Rightarrow> MachineState \<Rightarrow> MachineState option" where
  "put_stack s w st =
     (if s mod 8 = 0 \<and> s div 8 < length (ms_stack st)
      then Some (st\<lparr>ms_stack := (ms_stack st)[s div 8 := w]\<rparr>) else None)"

section \<open>Dereferencing\<close>

definition store :: "MachineState \<Rightarrow> HeapCellValue \<Rightarrow> HeapCellValue" where
  "store st value =
     (case cell_get_tag value of
        TAttrVar \<Rightarrow> hcell (ms_heap st) (cell_val value)
      | TVar \<Rightarrow> hcell (ms_heap st) (cell_val value)
      | TStackVar \<Rightarrow> stack_at (ms_stack st) (cell_val value)
      | _ \<Rightarrow> value)"

partial_function (option) deref :: "MachineState \<Rightarrow> HeapCellValue \<Rightarrow> HeapCellValue option" where
  "deref st addr =
     (let value = store st addr
      in if is_var value \<and> value \<noteq> addr then deref st value else Some addr)"

section \<open>Trailing\<close>

definition push_entry :: "TrailEntryTag \<Rightarrow> nat \<Rightarrow> MachineState \<Rightarrow> MachineState option" where
  "push_entry tag v st =
     map_option (\<lambda>e. st\<lparr>ms_trail := ms_trail st @ [e], ms_tr := ms_tr st + 1\<rparr>) (entry_build_with tag v)"

fun trail :: "TrailRef \<Rightarrow> MachineState \<Rightarrow> MachineState option" where
  "trail (TRef r) st =
     (case ref_tag r of
        HeapCell \<Rightarrow> if ref_val r < ms_hb st then push_entry EHeapVar (ref_val r) st else Some st
      | StackCell \<Rightarrow> if ref_val r < ms_b st then push_entry EStackVar (ref_val r) st else Some st
      | AttrVarRef \<Rightarrow> if ref_val r < ms_hb st then push_entry EAttrVar (ref_val r) st else Some st)"
| "trail (AttrVarListLink h l) st =
     (if h < ms_hb st then push_entry EAttrVarListLink h st \<bind> push_entry EAttachedValue l else Some st)"
| "trail (BlackboardEntry key_atom) st = push_entry EBlackboardEntry key_atom st"
| "trail (BlackboardOffset key_atom value_cell) st =
     map_option (\<lambda>st. st\<lparr>ms_trail := ms_trail st @ [value_cell], ms_tr := ms_tr st + 1\<rparr>)
       (push_entry EBlackboardOffset key_atom st)"

section \<open>Binding\<close>

text \<open>\<open>PartialOrd<Ref> for HeapCellValue\<close>.\<close>

definition cell_cmp_ref :: "HeapCellValue \<Rightarrow> Ref \<Rightarrow> ordering option" where
  "cell_cmp_ref w r =
     (case cell_get_tag w of
        TStackVar \<Rightarrow> Some (if ref_tag r = StackCell then cmp_of (cell_val w) (ref_val r) else Greater)
      | TAttrVar \<Rightarrow> Some (if ref_tag r = StackCell then Less else cmp_of (cell_val w) (ref_val r))
      | TVar \<Rightarrow> Some (if ref_tag r = StackCell then Less else cmp_of (cell_val w) (ref_val r))
      | _ \<Rightarrow> None)"

definition push_attr_var_binding :: "nat \<Rightarrow> HeapCellValue \<Rightarrow> MachineState \<Rightarrow> MachineState" where
  "push_attr_var_binding h addr st =
     (let st = (if av_bindings (ms_attr st) = [] then
                  st\<lparr>ms_attr := (ms_attr st)\<lparr>av_p := ms_p st, av_cp := ms_cp st\<rparr>,
                     ms_p := VERIFY_ATTR_INTERRUPT_LOC - 1, ms_cp := VERIFY_ATTR_INTERRUPT_LOC\<rparr>
                else st)
      in st\<lparr>ms_attr := (ms_attr st)\<lparr>av_bindings := av_bindings (ms_attr st) @ [(h, addr)]\<rparr>\<rparr>)"

definition bind_attr_var :: "nat \<Rightarrow> HeapCellValue \<Rightarrow> MachineState \<Rightarrow> MachineState option" where
  "bind_attr_var h addr st =
     (let hc = cell_val addr
      in case cell_get_tag addr of
           TVar \<Rightarrow> do {
             c \<leftarrow> cell_build_with TAttrVar h;
             st \<leftarrow> put_heap hc c st;
             trail (TRef (heap_cell hc)) st }
         | TStackVar \<Rightarrow> do {
             c \<leftarrow> cell_build_with TAttrVar h;
             st \<leftarrow> put_stack hc c st;
             trail (TRef (stack_cell hc)) st }
         | _ \<Rightarrow> do {
             st \<leftarrow> put_heap h addr (push_attr_var_binding h addr st);
             trail (TRef (attr_var h)) st })"

definition machine_bind :: "Ref \<Rightarrow> HeapCellValue \<Rightarrow> MachineState \<Rightarrow> MachineState option" where
  "machine_bind r1 a2 st = do {
     c1 \<leftarrow> as_heap_cell_value r1;
     let t1 = store st c1;
     let t2 = store st a2;
     if is_var t1 \<and> (\<not> is_var t2 \<or> cell_cmp_ref a2 r1 = Some Less) then
       (case ref_tag r1 of
          StackCell \<Rightarrow> put_stack (ref_val r1) t2 st \<bind> trail (TRef r1)
        | HeapCell \<Rightarrow> put_heap (ref_val r1) t2 st \<bind> trail (TRef r1)
        | AttrVarRef \<Rightarrow> bind_attr_var (ref_val r1) t2 st)
     else
       (let v = cell_val a2
        in case cell_get_tag a2 of
             TStackVar \<Rightarrow> put_stack v t1 st \<bind> trail (TRef (stack_cell v))
           | TVar \<Rightarrow> put_heap v t1 st \<bind> trail (TRef (heap_cell v))
           | TAttrVar \<Rightarrow> bind_attr_var v t1 st
           | _ \<Rightarrow> None) }"

section \<open>Undoing\<close>

definition on_state :: "(MachineState \<Rightarrow> MachineState option) \<Rightarrow> Machine \<Rightarrow> Machine option" where
  "on_state f m = map_option (\<lambda>st. m\<lparr>machine_st := st\<rparr>) (f (machine_st m))"

definition put_loc :: "HeapCellValueTag \<Rightarrow> nat \<Rightarrow> nat \<Rightarrow> MachineState \<Rightarrow> MachineState option" where
  "put_loc tag h l st = cell_build_with tag l \<bind> (\<lambda>c. put_heap h c st)"

definition set_global :: "Atom \<Rightarrow> HeapCellValue option \<Rightarrow> Machine \<Rightarrow> Machine option" where
  "set_global key loc m =
     (if key \<in> dom (global_variables m)
      then Some (m\<lparr>global_variables := (global_variables m)(key \<mapsto> loc)\<rparr>) else None)"

definition unwind_entry :: "nat \<Rightarrow> Machine \<Rightarrow> Machine option" where
  "unwind_entry i m =
     (let st = machine_st m; entries = ms_trail st
      in if i < length entries then
           let h = entry_get_value (entries ! i)
           in case entry_get_tag (entries ! i) of
                EHeapVar \<Rightarrow> on_state (put_loc TVar h h) m
              | EStackVar \<Rightarrow> on_state (\<lambda>st. cell_build_with TStackVar h \<bind> (\<lambda>c. put_stack h c st)) m
              | EAttrVar \<Rightarrow> on_state (put_loc TAttrVar h h) m
              | EAttrVarListLink \<Rightarrow>
                  if i + 1 < length entries then
                    let l = entry_get_value (entries ! (i + 1))
                    in on_state
                         (if l < ms_hb st then
                            if h = l then put_loc TVar h h
                            else if cell_get_tag (hcell (ms_heap st) l) = TVar then put_loc TLis h l
                            else put_loc TVar h l
                          else put_loc TVar h h) m
                  else None
              | EBlackboardEntry \<Rightarrow> set_global h None m
              | EBlackboardOffset \<Rightarrow>
                  if i + 1 < length entries then set_global h (Some (entries ! (i + 1))) m else None
              | EAttachedValue \<Rightarrow> Some m
         else None)"

text \<open>The entries from \<open>a2\<close> (exclusive) down to \<open>a1\<close>.\<close>

fun unwind_trail :: "nat \<Rightarrow> nat \<Rightarrow> Machine \<Rightarrow> Machine option" where
  "unwind_trail a1 0 m = Some m"
| "unwind_trail a1 (Suc i) m = (if i < a1 then Some m else unwind_entry i m \<bind> unwind_trail a1 i)"


section \<open>Entries read back\<close>

lemma entry_readings:
  assumes "entry_build_with tag v = Some e"
  shows "entry_get_tag e = tag" "entry_get_value e = v"
proof -
  from assms have v: "v < 2 ^ 56" and e: "e = push_bit 58 (of_nat (entry_tag_bits tag)) OR of_nat v"
    by (auto simp: entry_build_with_def split: if_splits)
  have bits: "bit e i \<longleftrightarrow> (if i < 56 then bit v i else 58 \<le> i \<and> bit (entry_tag_bits tag) (i - 58))" if "i < 64" for i
    using that bit_nat_less [OF v, of i] by (auto simp: e bit_or_iff bit_push_bit_iff bit_of_nat_word)
  have "entry_tag_bits tag < 2 ^ 6" by (cases tag) simp_all
  then have "cell_tag_bits e = entry_tag_bits tag" by (intro cell_tag_bits_eq) (simp_all add: bits)
  then show "entry_get_tag e = tag" by (cases tag) (simp_all add: entry_get_tag_def)
  show "entry_get_value e = v"
    unfolding entry_get_value_def by (rule cell_val_eq) (simp_all add: bits v [simplified])
qed

text \<open>A value cell pushed after a blackboard entry is read as an attached value.\<close>

definition heap_tags :: "HeapCellValueTag set" where
  "heap_tags = {TStr, TLis, TVar, TStackVar, TAttrVar, TPStrLoc, TCons, TF64Offset, TFixnum, TCodeIndexOffset, TCutPoint}"

lemma value_cell_no_entry:
  assumes "(\<exists>tag\<in>heap_tags. cell_build_with tag v = Some w) \<or> atom_cell_build_with a n = Some w"
  shows "entry_get_tag w = EAttachedValue"
proof -
  have "cell_tag_bits w < 32 \<or> 62 \<le> cell_tag_bits w"
    using assms
  proof
    assume "\<exists>tag\<in>heap_tags. cell_build_with tag v = Some w"
    then obtain tag where tag: "tag \<in> heap_tags" "cell_build_with tag v = Some w" by blast
    have "cell_tag_bits w = tag_bits tag"
      by (rule cell_tag_bits_eq [OF _ tag_bits_less]) (simp add: bit_built [OF tag(2)])
    moreover have "tag_bits tag < 32" using tag(1) by (auto simp: heap_tags_def)
    ultimately show ?thesis by simp
  next
    assume a: "atom_cell_build_with a n = Some w"
    have "cell_tag_bits w = 62 + a mod 2"
    proof (rule cell_tag_bits_eq)
      fix i :: nat
      assume "i < 6"
      then have "i \<in> {0, 1, 2, 3, 4, 5}" by auto
      moreover have "a mod 2 = 0 \<or> a mod 2 = 1" by auto
      ultimately show "bit w (58 + i) = bit (62 + a mod 2) i"
        using bit_built_atom [OF a, of "58 + i"] by (auto simp: bit_iff_odd [where 'a = nat])
    qed auto
    then show ?thesis by simp
  qed
  then show ?thesis by (auto simp: entry_get_tag_def)
qed

section \<open>Locations\<close>

datatype loc = HLoc nat | SLoc nat

fun rd :: "MachineState \<Rightarrow> loc \<Rightarrow> HeapCellValue" where
  "rd st (HLoc h) = hcell (ms_heap st) h"
| "rd st (SLoc s) = stack_at (ms_stack st) s"

fun valid_loc :: "MachineState \<Rightarrow> loc \<Rightarrow> bool" where
  "valid_loc st (HLoc h) \<longleftrightarrow> h < cell_len (ms_heap st)"
| "valid_loc st (SLoc s) \<longleftrightarrow> s mod 8 = 0 \<and> s div 8 < length (ms_stack st)"

text \<open>Whether a binding of the location has to be recorded.\<close>

fun old_loc :: "MachineState \<Rightarrow> loc \<Rightarrow> bool" where
  "old_loc st (HLoc h) \<longleftrightarrow> h < ms_hb st"
| "old_loc st (SLoc s) \<longleftrightarrow> s < ms_b st"

definition loc_of :: "HeapCellValue \<Rightarrow> loc option" where
  "loc_of c =
     (case cell_get_tag c of
        TVar \<Rightarrow> Some (HLoc (cell_val c)) | TAttrVar \<Rightarrow> Some (HLoc (cell_val c))
      | TStackVar \<Rightarrow> Some (SLoc (cell_val c)) | _ \<Rightarrow> None)"

text \<open>An unbound variable is a cell that refers to its own location; \<open>clean\<close> cells have no mark or forwarding bit.\<close>

definition unbound :: "MachineState \<Rightarrow> HeapCellValue \<Rightarrow> bool" where
  "unbound st c \<longleftrightarrow> (\<exists>l. loc_of c = Some l \<and> rd st l = c)"

definition clean :: "HeapCellValue \<Rightarrow> bool" where
  "clean c \<longleftrightarrow> cell_build_with (cell_get_tag c) (cell_val c) = Some c"

definition entry_of :: "HeapCellValue \<Rightarrow> TrailEntry option" where
  "entry_of c = entry_build_with
     (case cell_get_tag c of TVar \<Rightarrow> EHeapVar | TAttrVar \<Rightarrow> EAttrVar | _ \<Rightarrow> EStackVar) (cell_val c)"

lemma is_var_loc: "is_var c \<longleftrightarrow> loc_of c \<noteq> None"
  by (auto simp: is_var_def loc_of_def split: HeapCellValueTag.splits)

lemma store_eq: "store st c = (case loc_of c of Some l \<Rightarrow> rd st l | None \<Rightarrow> c)"
  by (simp add: store_def loc_of_def split: HeapCellValueTag.splits)

lemma store_unbound: "unbound st c \<Longrightarrow> store st c = c"
  by (auto simp: unbound_def store_eq)

lemma store_not_var: "\<not> is_var c \<Longrightarrow> store st c = c"
  by (simp add: store_eq is_var_loc)

lemma unbound_is_var: "unbound st c \<Longrightarrow> is_var c"
  by (auto simp: unbound_def is_var_loc)

lemma cell_val_less: "cell_val c < 2 ^ 56"
  unfolding cell_val_def unsigned_take_bit_eq by (rule take_bit_nat_less_exp)

lemma as_var_loc: "as_var c = Some r \<Longrightarrow> \<exists>l. loc_of c = Some l"
  by (auto simp: as_var_def loc_of_def split: HeapCellValueTag.splits)

text \<open>Outside the heap no cell refers to itself, as what is read there is zero.\<close>

lemma unbound_valid:
  assumes "unbound st c" and "wf_heap (ms_heap st)" and "loc_of c = Some l"
  shows "valid_loc st l"
proof (rule ccontr)
  assume no: "\<not> valid_loc st l"
  have "rd st l = 0"
  proof (cases l)
    case (HLoc h)
    with no have "length (mem (ms_heap st)) \<le> 8 * h" using assms(2) by (auto simp: index_defs wf_heap_def)
    then show ?thesis using HLoc by (simp add: hcell_def index_defs)
  next
    case (SLoc s)
    with no show ?thesis by (auto simp: stack_at_def)
  qed
  with assms(1,3) have "loc_of 0 = Some l" by (simp add: unbound_def)
  moreover have "cell_get_tag 0 = TCons" by (rule get_tag_pointer) simp_all
  ultimately show False by (simp add: loc_of_def)
qed

section \<open>What binding writes\<close>

text \<open>The parts of the state that binding leaves alone.\<close>

definition frame where
  "frame st = (cell_len (ms_heap st), length (ms_stack st), ms_arena st, ms_f64_tbl st, ms_atom_tbl st,
     (ms_hb st, ms_b st), ms_pdl st, ms_fail st)"

definition writes :: "HeapCellValue \<Rightarrow> HeapCellValue \<Rightarrow> MachineState \<Rightarrow> MachineState \<Rightarrow> bool" where
  "writes c w st st' \<longleftrightarrow>
     rd st' = (rd st)(the (loc_of c) := w) \<and> frame st' = frame st \<and> wf_heap (ms_heap st') \<and>
     ms_trail st' = ms_trail st @ (if old_loc st (the (loc_of c)) then [the (entry_of c)] else [])"

lemma entry_of_Some: "\<exists>e. entry_of c = Some e"
  using cell_val_less [of c] by (simp add: entry_of_def entry_build_with_def)

lemma rd_eqI: "(\<And>h. hcell (ms_heap st) h = hcell (ms_heap st') h) \<Longrightarrow> ms_stack st = ms_stack st' \<Longrightarrow> rd st = rd st'"
  by (rule ext) (metis loc.exhaust rd.simps)

lemma frame_simps:
  "frame (st\<lparr>ms_trail := t, ms_tr := n\<rparr>) = frame st"
  "rd (st\<lparr>ms_trail := t, ms_tr := n\<rparr>) = rd st"
  "frame (push_attr_var_binding h a st) = frame st"
  "rd (push_attr_var_binding h a st) = rd st"
  "ms_heap (push_attr_var_binding h a st) = ms_heap st"
  "ms_stack (push_attr_var_binding h a st) = ms_stack st"
  "ms_trail (push_attr_var_binding h a st) = ms_trail st"
  "ms_hb (push_attr_var_binding h a st) = ms_hb st"
  by (auto simp: frame_def push_attr_var_binding_def Let_def intro!: rd_eqI)

lemma put_heap_writes:
  assumes "h < cell_len (ms_heap st)" and "wf_heap (ms_heap st)"
  obtains st' where "put_heap h w st = Some st'" "rd st' = (rd st)(HLoc h := w)" "frame st' = frame st"
    "wf_heap (ms_heap st')" "ms_trail st' = ms_trail st"
proof
  let ?st = "st\<lparr>ms_heap := set_hcell h w (ms_heap st)\<rparr>"
  show "put_heap h w st = Some ?st" using assms by (simp add: put_heap_def)
  show "rd ?st = (rd st)(HLoc h := w)"
  proof
    fix l
    show "rd ?st l = ((rd st)(HLoc h := w)) l"
      using assms by (cases l) (auto simp: hcell_set_same hcell_set_other)
  qed
  show "frame ?st = frame st" "wf_heap (ms_heap ?st)" "ms_trail ?st = ms_trail st"
    using assms length_set_hcell [OF assms(1)] by (simp_all add: frame_def wf_heap_set_hcell index_defs)
qed

lemma put_stack_writes:
  assumes "valid_loc st (SLoc s)" and "wf_heap (ms_heap st)"
  obtains st' where "put_stack s w st = Some st'" "rd st' = (rd st)(SLoc s := w)" "frame st' = frame st"
    "wf_heap (ms_heap st')" "ms_trail st' = ms_trail st"
proof
  let ?st = "st\<lparr>ms_stack := (ms_stack st)[s div 8 := w]\<rparr>"
  show "put_stack s w st = Some ?st" using assms by (simp add: put_stack_def)
  show "rd ?st = (rd st)(SLoc s := w)"
  proof
    fix l
    have "s' mod 8 = 0 \<Longrightarrow> s' div 8 = s div 8 \<Longrightarrow> s' = s" for s' using assms by (metis div_mult_mod_eq valid_loc.simps(2))
    then show "rd ?st l = ((rd st)(SLoc s := w)) l"
      using assms by (cases l) (auto simp: stack_at_def nth_list_update)
  qed
  show "frame ?st = frame st" "wf_heap (ms_heap ?st)" "ms_trail ?st = ms_trail st"
    using assms by (simp_all add: frame_def)
qed

text \<open>Recording a variable that is about to be, or has just been, bound.\<close>

lemma frame_eqD:
  assumes "frame st' = frame st"
  shows "cell_len (ms_heap st') = cell_len (ms_heap st)" "length (ms_stack st') = length (ms_stack st)"
    "ms_arena st' = ms_arena st" "ms_f64_tbl st' = ms_f64_tbl st" "ms_atom_tbl st' = ms_atom_tbl st"
    "ms_hb st' = ms_hb st" "ms_b st' = ms_b st" "ms_pdl st' = ms_pdl st" "ms_fail st' = ms_fail st"
  using assms by (simp_all add: frame_def)

lemma frame_old_loc: "frame st' = frame st \<Longrightarrow> old_loc st' l = old_loc st l"
  by (cases l) (simp_all add: frame_def)

lemma frame_valid_loc: "frame st' = frame st \<Longrightarrow> valid_loc st' l = valid_loc st l"
  by (cases l) (simp_all add: frame_def)

lemma trail_records:
  assumes "as_var c = Some r" and "loc_of c = Some l"
  obtains st' where "trail (TRef r) st = Some st'" "rd st' = rd st" "frame st' = frame st" "ms_heap st' = ms_heap st"
    "ms_trail st' = ms_trail st @ (if old_loc st l then [the (entry_of c)] else [])"
proof -
  obtain e where e: "entry_of c = Some e" using entry_of_Some by blast
  let ?st = "if old_loc st l then st\<lparr>ms_trail := ms_trail st @ [e], ms_tr := ms_tr st + 1\<rparr> else st"
  have "trail (TRef r) st = Some ?st"
    using assms e by (auto simp: as_var_def loc_of_def entry_of_def push_entry_def split: HeapCellValueTag.splits)
  then show ?thesis by (rule that) (auto simp: frame_simps e)
qed

lemma put_then_trail:
  assumes "as_var c = Some r" and "loc_of c = Some l"
    and "put = Some st1" "rd st1 = (rd st)(l := w)" "frame st1 = frame st" "wf_heap (ms_heap st1)" "ms_trail st1 = ms_trail st"
  shows "\<exists>st'. (put \<bind> trail (TRef r)) = Some st' \<and> writes c w st st'"
proof -
  obtain st2 where st2: "trail (TRef r) st1 = Some st2" "rd st2 = rd st1" "frame st2 = frame st1" "ms_heap st2 = ms_heap st1"
    "ms_trail st2 = ms_trail st1 @ (if old_loc st1 l then [the (entry_of c)] else [])"
    using trail_records [OF assms(1,2)] by blast
  then have "writes c w st st2"
    unfolding writes_def using assms by (simp del: old_loc.simps add: frame_old_loc [OF assms(5)])
  with st2(1) assms(3) show ?thesis by auto
qed

lemma assign_heap:
  assumes "as_var c = Some r" and "unbound st c" and "wf_heap (ms_heap st)" and "loc_of c = Some (HLoc h)"
  shows "\<exists>st'. (put_heap h w st \<bind> trail (TRef r)) = Some st' \<and> writes c w st st'"
proof -
  have "h < cell_len (ms_heap st)" using unbound_valid [OF assms(2-4)] by simp
  then show ?thesis using put_heap_writes [OF _ assms(3)] put_then_trail [OF assms(1,4)] by metis
qed

lemma assign_stack:
  assumes "as_var c = Some r" and "unbound st c" and "wf_heap (ms_heap st)" and "loc_of c = Some (SLoc s)"
  shows "\<exists>st'. (put_stack s w st \<bind> trail (TRef r)) = Some st' \<and> writes c w st st'"
  using put_stack_writes [OF unbound_valid [OF assms(2-4)] assms(3)] put_then_trail [OF assms(1,4)] by metis

text \<open>A variable is bound to an older one, of the heap rather than the stack, and to an attributed one rather than not.\<close>

definition downward :: "HeapCellValue \<Rightarrow> HeapCellValue \<Rightarrow> bool" where
  "downward c w \<longleftrightarrow>
     (cell_get_tag w = TStackVar \<longrightarrow> cell_get_tag c = TStackVar \<and> cell_val w < cell_val c) \<and>
     (cell_get_tag w = TVar \<longrightarrow> cell_get_tag c \<noteq> TAttrVar \<and> (cell_get_tag c = TVar \<longrightarrow> cell_val w < cell_val c))"

lemma bind_attr_var_writes:
  assumes c: "cell_get_tag c = TAttrVar" "unbound st c" "clean c" and wf: "wf_heap (ms_heap st)"
    and a: "is_var a \<Longrightarrow> unbound st a \<and> a \<noteq> c"
  shows "\<exists>st'. bind_attr_var (cell_val c) a st = Some st' \<and>
    (writes c a st st' \<and> downward c a \<or> unbound st a \<and> writes a c st st' \<and> downward a c)"
proof -
  have built: "cell_build_with TAttrVar (cell_val c) = Some c" using c by (simp add: clean_def)
  let ?st = "push_attr_var_binding (cell_val c) a st"
  have "unbound ?st c" using c(2) by (simp add: unbound_def frame_simps)
  then have attr: "\<exists>st'. (put_heap (cell_val c) a ?st \<bind> trail (TRef (attr_var (cell_val c)))) = Some st' \<and> writes c a ?st st'"
    using c(1) wf by (intro assign_heap) (simp_all add: as_var_def loc_of_def attr_var_def frame_simps)
  have moved: "writes c a ?st st' \<Longrightarrow> writes c a st st'" for st'
    using c(1) by (simp add: writes_def loc_of_def frame_simps)
  show ?thesis
  proof (cases "cell_get_tag a \<in> {TVar, TStackVar}")
    case True
    then have "unbound st a" using a by (auto simp: is_var_def)
    with True built show ?thesis
      using assign_heap [of a "heap_cell (cell_val a)" st "cell_val a" c] assign_stack [of a "stack_cell (cell_val a)" st "cell_val a" c] wf
      by (auto simp: bind_attr_var_def as_var_def loc_of_def heap_cell_def stack_cell_def downward_def c(1))
  next
    case False
    then have "downward c a" by (simp add: downward_def)
    from False have "bind_attr_var (cell_val c) a st = (put_heap (cell_val c) a ?st \<bind> trail (TRef (attr_var (cell_val c))))"
      by (simp add: bind_attr_var_def Let_def split: HeapCellValueTag.splits)
    with \<open>downward c a\<close> show ?thesis using attr moved by auto
  qed
qed

text \<open>Binding an unbound variable writes it, or the other variable if that is one as well.\<close>

lemma machine_bind_writes:
  assumes c: "as_var c = Some r" "unbound st c" "clean c" and wf: "wf_heap (ms_heap st)"
    and a: "is_var a \<Longrightarrow> unbound st a \<and> a \<noteq> c \<and> clean a"
  shows "\<exists>st'. machine_bind r a st = Some st' \<and>
    (writes c a st st' \<and> downward c a \<or> unbound st a \<and> writes a c st st' \<and> downward a c)"
proof -
  have built: "as_heap_cell_value r = Some c"
    using c(1,3) by (auto simp: as_var_def clean_def split: HeapCellValueTag.splits)
  have vc: "is_var c" and sc: "store st c = c" using c(2) by (auto intro: unbound_is_var store_unbound)
  have sa: "store st a = a" using a by (cases "is_var a") (auto intro: store_unbound store_not_var)
  show ?thesis
  proof (cases "\<not> is_var a \<or> cell_cmp_ref a r = Some Less")
    case True
    then have eq: "machine_bind r a st = (case ref_tag r of
          StackCell \<Rightarrow> put_stack (ref_val r) a st \<bind> trail (TRef r)
        | HeapCell \<Rightarrow> put_heap (ref_val r) a st \<bind> trail (TRef r)
        | AttrVarRef \<Rightarrow> bind_attr_var (ref_val r) a st)"
      using vc by (simp add: machine_bind_def built sc sa del: as_heap_cell_value.simps)
    have "cell_get_tag c \<noteq> TAttrVar \<Longrightarrow> downward c a" using True c(1)
      by (auto simp: downward_def is_var_def cell_cmp_ref_def as_var_def cmp_of_def split: HeapCellValueTag.splits if_splits)
    with c(1) show ?thesis
      using assign_heap [OF c(1,2) wf, of _ a] assign_stack [OF c(1,2) wf, of _ a] bind_attr_var_writes [OF _ c(2,3) wf, of a] a
      unfolding eq by (auto simp: as_var_def loc_of_def split: HeapCellValueTag.splits)
  next
    case False
    then have u: "unbound st a" "clean a" "is_var a" "a \<noteq> c" using a by auto
    obtain r' where r': "as_var a = Some r'" using u(3) by (auto simp: as_var_def is_var_def)
    have eq: "machine_bind r a st = (case cell_get_tag a of
             TStackVar \<Rightarrow> put_stack (cell_val a) c st \<bind> trail (TRef (stack_cell (cell_val a)))
           | TVar \<Rightarrow> put_heap (cell_val a) c st \<bind> trail (TRef (heap_cell (cell_val a)))
           | TAttrVar \<Rightarrow> bind_attr_var (cell_val a) c st
           | _ \<Rightarrow> None)"
      using False by (simp add: machine_bind_def built sc sa Let_def del: as_heap_cell_value.simps split: HeapCellValueTag.splits)
    have "cell_get_tag a = cell_get_tag c \<Longrightarrow> cell_val a \<noteq> cell_val c" using u(2,4) c(3) by (auto simp: clean_def)
    then have "cell_get_tag a \<noteq> TAttrVar \<Longrightarrow> downward a c" using False c(1)
      by (auto simp: downward_def is_var_def cell_cmp_ref_def as_var_def cmp_of_def split: HeapCellValueTag.splits if_splits)
    then show ?thesis
      using assign_heap [OF r' u(1) wf, of _ c] assign_stack [OF r' u(1) wf, of _ c]
        bind_attr_var_writes [OF _ u(1,2) wf, of c] u c(2) r'
      unfolding eq by (auto simp: as_var_def loc_of_def is_var_def heap_cell_def stack_cell_def split: HeapCellValueTag.splits)
  qed
qed

section \<open>Dereferencing after a binding\<close>

lemma deref_induct [consumes 1, case_names found refers]:
  assumes "deref st x = Some r"
    and "\<And>x. \<not> (is_var (store st x) \<and> store st x \<noteq> x) \<Longrightarrow> P x x"
    and "\<And>x r. is_var (store st x) \<Longrightarrow> store st x \<noteq> x \<Longrightarrow> P (store st x) r \<Longrightarrow> P x r"
  shows "P x r"
proof -
  have "st = st \<longrightarrow> P x r"
    by (rule deref.raw_induct [of "\<lambda>st' x r. st' = st \<longrightarrow> P x r"])
       (use assms in \<open>auto simp: Let_def split: if_splits\<close>)
  then show ?thesis by simp
qed

lemma deref_unfold: "deref st x = (if is_var (store st x) \<and> store st x \<noteq> x then deref st (store st x) else Some x)"
  by (subst deref.simps) (simp add: Let_def)

text \<open>The value of a cell: what is stored where dereferencing ends.\<close>

definition look :: "MachineState \<Rightarrow> HeapCellValue \<Rightarrow> HeapCellValue" where
  "look st x = (case deref st x of Some r \<Rightarrow> store st r | None \<Rightarrow> x)"

lemma deref_end: "deref st x = Some r \<Longrightarrow> \<not> (is_var (store st r) \<and> store st r \<noteq> r)"
  by (induction rule: deref_induct)

lemma store_fixed_unbound: "is_var d \<Longrightarrow> store st d = d \<Longrightarrow> unbound st d"
  by (auto simp: is_var_loc store_eq unbound_def)

lemma deref_var:
  assumes "deref st x = Some r" and "is_var (store st r)"
  shows "r = store st r" "unbound st (store st r)"
  using deref_end [OF assms(1)] assms(2) by (auto intro: store_fixed_unbound)

lemma look_var: "deref st x \<noteq> None \<Longrightarrow> is_var (look st x) \<Longrightarrow> unbound st (look st x)"
  by (auto simp: look_def deref_var)

lemma look_not_var: "\<not> is_var d \<Longrightarrow> look st d = d"
  by (simp add: look_def deref_unfold store_not_var)

lemma look_unbound: "unbound st c \<Longrightarrow> look st c = c"
  by (simp add: look_def deref_unfold store_unbound)

lemma deref_unbound: "unbound st c \<Longrightarrow> deref st c = Some c"
  by (simp add: deref_unfold store_unbound)

definition writable :: "MachineState \<Rightarrow> HeapCellValue \<Rightarrow> HeapCellValue \<Rightarrow> bool" where
  "writable st c w \<longleftrightarrow> unbound st c \<and> (is_var w \<longrightarrow> unbound st w \<and> w \<noteq> c)"

lemma store_writes:
  assumes "writes c w st st'" and "unbound st c"
  shows "store st' x = (if loc_of x = loc_of c then w else store st x)"
  using assms by (auto simp: writes_def unbound_def store_eq split: option.splits)

lemma unbound_loc_inj: "unbound st c \<Longrightarrow> unbound st d \<Longrightarrow> loc_of c = loc_of d \<Longrightarrow> c = d"
  by (auto simp: unbound_def)

lemma deref_writes:
  assumes w: "writes c w st st'" and ok: "writable st c w" and "deref st x = Some r"
  shows "\<exists>r'. deref st' x = Some r' \<and> store st' r' = (if store st r = c then w else store st r)"
  using assms(3)
proof (induction rule: deref_induct)
  case (found x)
  have c: "unbound st c" using ok by (simp add: writable_def)
  note st' = store_writes [OF w c]
  show ?case
  proof (cases "loc_of x = loc_of c")
    case True
    then have "store st x = c" using c by (auto simp: store_eq unbound_def)
    moreover have "\<exists>r'. deref st' x = Some r' \<and> store st' r' = w"
    proof (cases "is_var w")
      case v: True
      then have u: "unbound st w" "w \<noteq> c" using ok by (auto simp: writable_def)
      then have "loc_of w \<noteq> loc_of c" using unbound_loc_inj [OF _ c] by blast
      then have "store st' w = w" using st' u by (simp add: store_unbound)
      then show ?thesis using st' True v by (auto simp: deref_unfold [of st' x] deref_unfold [of st' w])
    qed (use st' True in \<open>auto simp: deref_unfold [of st' x]\<close>)
    ultimately show ?thesis by simp
  next
    case False
    then have "store st' x = store st x" using st' by simp
    moreover have "store st x \<noteq> c" using False found c unbound_is_var [OF c] by auto
    ultimately show ?thesis using found by (auto simp: deref_unfold [of st' x])
  qed
next
  case (refers x r)
  have c: "unbound st c" using ok by (simp add: writable_def)
  note st' = store_writes [OF w c]
  show ?case
  proof (cases "loc_of x = loc_of c")
    case True
    then have sx: "store st x = c" using c by (auto simp: store_eq unbound_def)
    have "store st' c = w" using st' by simp
    show ?thesis
    proof (cases "is_var w")
      case v: True
      then have u: "unbound st w" "w \<noteq> c" using ok by (auto simp: writable_def)
      then have lw: "loc_of w \<noteq> loc_of c" using unbound_loc_inj [OF _ c] by blast
      then have "deref st' x = deref st' w" "deref st' c = deref st' w"
        using st' True v u by (auto simp: deref_unfold [of st' x] deref_unfold [of st' c])
      then show ?thesis using refers.IH sx by simp
    next
      case v: False
      have "deref st' x = Some x" "deref st' c = Some c" using st' True v by (simp_all add: deref_unfold)
      then show ?thesis using refers.IH sx st' True by simp
    qed
  next
    case False
    then have "store st' x = store st x" using st' by simp
    then show ?thesis using refers by (simp add: deref_unfold [of st' x])
  qed
qed

lemma look_writes:
  assumes "writes c w st st'" and "writable st c w" and "deref st x \<noteq> None"
  shows "deref st' x \<noteq> None" "look st' x = (if look st x = c then w else look st x)"
  using deref_writes [OF assms(1,2)] assms(3) by (fastforce simp: look_def)+

end
