(* ===== verification/Unify.thy ===== *)
theory Unify
  imports Store
begin

text \<open>
  Unification (\<open>src/src/machine/unify.rs\<close>). The operations of the trait \<open>Unifier\<close> take the binding
  operation of the implementing type as the argument \<open>bnd\<close>. The push-down list is a list whose head
  was pushed last. Of the environment, \<open>me_strings\<close> are the names compiled into the program and
  \<open>me_eq\<close> is the equality of \<open>OrderedFloat\<close>. \<open>None\<close> is a panic or a loop that does not end.
\<close>

record machine_env =
  me_strings :: "nat list list"
  me_eq :: "f64 \<Rightarrow> f64 \<Rightarrow> bool"

type_synonym bind_op = "Ref \<Rightarrow> HeapCellValue \<Rightarrow> MachineState \<Rightarrow> MachineState option"

definition failed :: "MachineState \<Rightarrow> MachineState" where
  "failed st = st\<lparr>ms_fail := True\<rparr>"

definition set_fail :: "bool \<Rightarrow> MachineState \<Rightarrow> MachineState" where
  "set_fail b st = st\<lparr>ms_fail := b\<rparr>"

definition push_pdl :: "HeapCellValueTag \<Rightarrow> nat \<Rightarrow> MachineState \<Rightarrow> MachineState option" where
  "push_pdl tag v st = map_option (\<lambda>c. st\<lparr>ms_pdl := c # ms_pdl st\<rparr>) (cell_build_with tag v)"

section \<open>Structures and lists\<close>

text \<open>The loop that pushes the arguments, the last one first.\<close>

fun push_args :: "nat \<Rightarrow> nat \<Rightarrow> nat \<Rightarrow> MachineState \<Rightarrow> MachineState option" where
  "push_args l2 l1 0 st = Some st"
| "push_args l2 l1 (Suc idx) st =
     push_pdl TVar (l2 + idx) st \<bind> push_pdl TVar (l1 + idx) \<bind> push_args l2 l1 idx"

definition functor_at :: "MachineState \<Rightarrow> nat \<Rightarrow> nat \<times> nat" where
  "functor_at st s = (atom_get_name (hcell (ms_heap st) s), atom_get_arity (hcell (ms_heap st) s))"

definition bind_loc :: "bind_op \<Rightarrow> Ref \<Rightarrow> HeapCellValueTag \<Rightarrow> nat \<Rightarrow> MachineState \<Rightarrow> MachineState option" where
  "bind_loc bnd r tag v st = cell_build_with tag v \<bind> (\<lambda>c. bnd r c st)"

definition unify_structure :: "bind_op \<Rightarrow> nat \<Rightarrow> HeapCellValue \<Rightarrow> MachineState \<Rightarrow> MachineState option" where
  "unify_structure bnd s1 value st =
     (let (n1, a1) = functor_at st s1; v = cell_val value
      in case cell_get_tag value of
           TStr \<Rightarrow>
             (let (n2, a2) = functor_at st v
              in if n1 = n2 \<and> a1 = a2 then push_args (v + 1) (s1 + 1) a1 st else Some (failed st))
         | TLis \<Rightarrow> if a1 = 2 \<and> n1 = dot_atom then push_args (v + 1) (s1 + 1) 2 st else Some (failed st)
         | TAtom \<Rightarrow>
             Some (set_fail (\<not> (a1 = 0 \<and> atom_get_arity value = 0 \<and> n1 = atom_get_name value)) st)
         | TAttrVar \<Rightarrow> bind_loc bnd (attr_var v) TStr s1 st
         | TVar \<Rightarrow> bind_loc bnd (heap_cell v) TStr s1 st
         | TStackVar \<Rightarrow> bind_loc bnd (stack_cell v) TStr s1 st
         | _ \<Rightarrow> Some (failed st))"

fun push_succ :: "pstr_succ \<Rightarrow> MachineState \<Rightarrow> MachineState option" where
  "push_succ (SuccVar l) st = push_pdl TVar l st"
| "push_succ (SuccPStr l) st = push_pdl TPStrLoc l st"

text \<open>\<open>last_str_char_and_tail\<close> panics where no character starts.\<close>

definition partial_string_to_pdl :: "machine_env \<Rightarrow> nat \<Rightarrow> nat \<Rightarrow> MachineState \<Rightarrow> MachineState option" where
  "partial_string_to_pdl E pstr_loc l st = do {
     (c, succ) \<leftarrow> last_str_char_and_tail (ms_heap st) pstr_loc;
     st \<leftarrow> push_pdl TVar (l + 1) st;
     st \<leftarrow> push_succ succ st;
     st \<leftarrow> push_pdl TVar l st;
     ch \<leftarrow> char_as_cell (me_strings E) c;
     Some (st\<lparr>ms_pdl := ch # ms_pdl st\<rparr>) }"

definition unify_partial_string :: "machine_env \<Rightarrow> bind_op \<Rightarrow> nat \<Rightarrow> HeapCellValue \<Rightarrow> MachineState \<Rightarrow> MachineState option" where
  "unify_partial_string E bnd pstr_loc value st =
     (case as_var value of
        Some r \<Rightarrow> bind_loc bnd r TPStrLoc pstr_loc st
      | None \<Rightarrow>
          let v = cell_val value
          in case cell_get_tag value of
               TStr \<Rightarrow>
                 if functor_at st v = (dot_atom, 2) then partial_string_to_pdl E pstr_loc (v + 1) st else Some (failed st)
             | TLis \<Rightarrow> partial_string_to_pdl E pstr_loc v st
             | TPStrLoc \<Rightarrow>
                 (case compare_pstr_segments (ms_heap st) pstr_loc v of
                    Continue v1 v2 \<Rightarrow> push_succ (offset_by v1 pstr_loc) st \<bind> push_succ (offset_by v2 v)
                  | _ \<Rightarrow> Some (failed st))
             | _ \<Rightarrow> Some (failed st))"

definition unify_list :: "machine_env \<Rightarrow> bind_op \<Rightarrow> nat \<Rightarrow> HeapCellValue \<Rightarrow> MachineState \<Rightarrow> MachineState option" where
  "unify_list E bnd l1 value st =
     (let v = cell_val value
      in case cell_get_tag value of
           TLis \<Rightarrow> push_args v l1 2 st
         | TStr \<Rightarrow> if functor_at st v = (dot_atom, 2) then push_args (v + 1) l1 2 st else Some (failed st)
         | TPStrLoc \<Rightarrow> cell_build_with TLis l1 \<bind> (\<lambda>c. unify_partial_string E bnd v c st)
         | TAttrVar \<Rightarrow> bind_loc bnd (attr_var v) TLis l1 st
         | TVar \<Rightarrow> bind_loc bnd (heap_cell v) TLis l1 st
         | TStackVar \<Rightarrow> bind_loc bnd (stack_cell v) TLis l1 st
         | _ \<Rightarrow> Some (failed st))"

section \<open>Constants\<close>

definition bind_const :: "bind_op \<Rightarrow> HeapCellValue \<Rightarrow> HeapCellValue option \<Rightarrow> MachineState \<Rightarrow> MachineState option" where
  "bind_const bnd value c st =
     (let v = cell_val value
      in case cell_get_tag value of
           TAttrVar \<Rightarrow> c \<bind> (\<lambda>c. bnd (attr_var v) c st)
         | TVar \<Rightarrow> c \<bind> (\<lambda>c. bnd (heap_cell v) c st)
         | TStackVar \<Rightarrow> c \<bind> (\<lambda>c. bnd (stack_cell v) c st)
         | _ \<Rightarrow> Some (failed st))"

definition unify_atom :: "bind_op \<Rightarrow> Atom \<Rightarrow> HeapCellValue \<Rightarrow> MachineState \<Rightarrow> MachineState option" where
  "unify_atom bnd atom value st =
     (case cell_get_tag value of
        TAtom \<Rightarrow> Some (set_fail (\<not> (atom_get_arity value = 0 \<and> atom_get_name value = atom)) st)
      | TStr \<Rightarrow>
          (let (name, arity) = functor_at st (cell_val value)
           in Some (set_fail (\<not> (arity = 0 \<and> name = atom)) st))
      | _ \<Rightarrow> bind_const bnd value (atom_as_cell atom) st)"

definition unify_char :: "machine_env \<Rightarrow> bind_op \<Rightarrow> uchar \<Rightarrow> HeapCellValue \<Rightarrow> MachineState \<Rightarrow> MachineState option" where
  "unify_char E bnd c value st =
     (let same = (\<lambda>(name, arity). case atom_as_char (me_strings E) (ms_atom_tbl st) name of
                    Some c2 \<Rightarrow> c = c2 \<and> arity = 0 | None \<Rightarrow> False)
      in case cell_get_tag value of
           TAtom \<Rightarrow> Some (set_fail (\<not> same (atom_get_name value, atom_get_arity value)) st)
         | TStr \<Rightarrow> Some (set_fail (\<not> same (functor_at st (cell_val value))) st)
         | _ \<Rightarrow> bind_const bnd value (char_as_cell (me_strings E) c) st)"

definition cell_fixnum :: "HeapCellValue \<Rightarrow> Fixnum" where
  "cell_fixnum w = \<lparr>num = ucast w, ftag = (if cell_get_tag w = TCutPoint then TagCutPoint else TagFixnum)\<rparr>"

text \<open>\<open>Number::try_from\<close> of a cell and the table of floats.\<close>

definition number_of_cell :: "MachineState \<Rightarrow> HeapCellValue \<Rightarrow> Number option" where
  "number_of_cell st value =
     (case cell_get_tag value of
        TCons \<Rightarrow>
          (case ms_arena st (cons_ptr_address value) of
             AInteger n \<Rightarrow> Some (NInteger n) | ARational r \<Rightarrow> Some (NRational r) | _ \<Rightarrow> None)
      | TF64Offset \<Rightarrow> Some (NFloat (ms_f64_tbl st (cell_val value)))
      | TFixnum \<Rightarrow> Some (NFixnum (cell_fixnum value))
      | TCutPoint \<Rightarrow> Some (NFixnum (cell_fixnum value))
      | _ \<Rightarrow> None)"

definition unify_fixnum :: "bind_op \<Rightarrow> HeapCellValue \<Rightarrow> HeapCellValue \<Rightarrow> MachineState \<Rightarrow> MachineState option" where
  "unify_fixnum bnd n1 value st =
     (case as_var value of
        Some r \<Rightarrow> bnd r n1 st
      | None \<Rightarrow>
          (let k = get_num (cell_fixnum n1)
           in case number_of_cell st value of
                Some (NFixnum n2) \<Rightarrow> Some (if k = get_num n2 then st else failed st)
              | Some (NInteger n2) \<Rightarrow> Some (if n2 = k then st else failed st)
              | Some (NRational n2) \<Rightarrow> Some (if n2 = of_int k then st else failed st)
              | _ \<Rightarrow> Some (failed st)))"

text \<open>A pointer cell made from an address.\<close>

definition from_ptr_addr :: "nat \<Rightarrow> HeapCellValue" where
  "from_ptr_addr addr = of_nat addr"

definition unify_big_integer :: "bind_op \<Rightarrow> nat \<Rightarrow> int \<Rightarrow> HeapCellValue \<Rightarrow> MachineState \<Rightarrow> MachineState option" where
  "unify_big_integer bnd addr n1 value st =
     (case as_var value of
        Some r \<Rightarrow> bnd r (from_ptr_addr addr) st
      | None \<Rightarrow>
          (case number_of_cell st value of
             Some (NFixnum n2) \<Rightarrow> Some (if n1 = get_num n2 then st else failed st)
           | Some (NInteger n2) \<Rightarrow> Some (if n1 = n2 then st else failed st)
           | Some (NRational n2) \<Rightarrow> Some (if n2 = of_int n1 then st else failed st)
           | _ \<Rightarrow> Some (failed st)))"

definition unify_big_rational :: "bind_op \<Rightarrow> nat \<Rightarrow> rat \<Rightarrow> HeapCellValue \<Rightarrow> MachineState \<Rightarrow> MachineState option" where
  "unify_big_rational bnd addr n1 value st =
     (case as_var value of
        Some r \<Rightarrow> bnd r (from_ptr_addr addr) st
      | None \<Rightarrow>
          (case number_of_cell st value of
             Some (NFixnum n2) \<Rightarrow> Some (if n1 = of_int (get_num n2) then st else failed st)
           | Some (NInteger n2) \<Rightarrow> Some (if n1 = of_int n2 then st else failed st)
           | Some (NRational n2) \<Rightarrow> Some (if n1 = n2 then st else failed st)
           | _ \<Rightarrow> Some (failed st)))"

definition unify_f64 :: "machine_env \<Rightarrow> bind_op \<Rightarrow> nat \<Rightarrow> HeapCellValue \<Rightarrow> MachineState \<Rightarrow> MachineState option" where
  "unify_f64 E bnd f1 value st =
     (case as_var value of
        Some r \<Rightarrow> bind_loc bnd r TF64Offset f1 st
      | None \<Rightarrow>
          (if cell_get_tag value = TF64Offset
           then Some (set_fail (\<not> me_eq E (ms_f64_tbl st f1) (ms_f64_tbl st (cell_val value))) st)
           else Some (failed st)))"

definition PLAUSIBLE_MIN :: nat where
  "PLAUSIBLE_MIN = 0x100000000"

text \<open>\<open>unify_constant\<close> of the pointer cell \<open>ptr\<close>.\<close>

definition unify_constant :: "bind_op \<Rightarrow> HeapCellValue \<Rightarrow> HeapCellValue \<Rightarrow> MachineState \<Rightarrow> MachineState option" where
  "unify_constant bnd ptr value st =
     (let raw = cons_ptr_address ptr
      in if raw < PLAUSIBLE_MIN then push_pdl TVar raw (st\<lparr>ms_pdl := value # ms_pdl st\<rparr>)
         else if raw mod 8 \<noteq> 0 then Some (failed st)
         else if cell_get_tag value = TCons \<and> cons_ptr_address value = raw then Some st
         else case ms_arena st raw of
                AInteger n \<Rightarrow> unify_big_integer bnd raw n value st
              | ARational n \<Rightarrow> unify_big_rational bnd raw n value st
              | AStream alias \<Rightarrow>
                  (case as_var value of
                     Some r \<Rightarrow> bnd r ptr st
                   | None \<Rightarrow>
                       Some (set_fail (\<not> (cell_get_tag value = TAtom \<and> atom_get_arity value = 0 \<and>
                         alias = Some (atom_get_name value))) st))
              | AOther \<Rightarrow>
                  (case as_var value of Some r \<Rightarrow> bnd r ptr st | None \<Rightarrow> Some (failed st)))"

section \<open>The loop\<close>

type_synonym tabu = "(HeapCellValue \<times> HeapCellValue) list"

definition is_constant :: "HeapCellValue \<Rightarrow> bool" where
  "is_constant w \<longleftrightarrow>
     cell_get_tag w \<in> {TCons, TF64Offset, TFixnum, TCutPoint} \<or> cell_get_tag w = TAtom \<and> atom_get_arity w = 0"

text \<open>After a pair of compound terms it is remembered, unless unifying it has failed.\<close>

definition remember :: "tabu \<Rightarrow> HeapCellValue \<Rightarrow> HeapCellValue \<Rightarrow> MachineState \<Rightarrow> tabu" where
  "remember tabu_list d1 d2 st = (if ms_fail st then tabu_list else List.insert (d1, store st d2) tabu_list)"

definition unify_pair :: "machine_env \<Rightarrow> bind_op \<Rightarrow> tabu \<Rightarrow> HeapCellValue \<Rightarrow> HeapCellValue \<Rightarrow> MachineState \<Rightarrow> (tabu \<times> MachineState) option" where
  "unify_pair E bnd tabu_list d1 d2 st =
     (let v = cell_val d1; keep = map_option (Pair tabu_list)
      in case cell_get_tag d1 of
           TAttrVar \<Rightarrow> keep (bnd (attr_var v) d2 st)
         | TVar \<Rightarrow> keep (bnd (heap_cell v) d2 st)
         | TStackVar \<Rightarrow> keep (bnd (stack_cell v) d2 st)
         | TAtom \<Rightarrow> keep (unify_atom bnd (atom_get_name d1) d2 st)
         | TStr \<Rightarrow>
             if (d1, d2) \<in> set tabu_list then Some (tabu_list, st)
             else map_option (\<lambda>st. (remember tabu_list d1 d2 st, st)) (unify_structure bnd v d2 st)
         | TLis \<Rightarrow>
             if is_ref d2 \<and> (d1, d2) \<in> set tabu_list then Some (tabu_list, st)
             else map_option (\<lambda>st. (remember tabu_list d1 d2 st, st)) (unify_list E bnd v d2 st)
         | TPStrLoc \<Rightarrow>
             if cell_get_tag d2 \<in> {TPStrLoc, TLis, TStr} \<and> (d1, d2) \<in> set tabu_list then Some (tabu_list, st)
             else if cell_get_tag d2 \<in> {TPStrLoc, TLis, TStr, TAttrVar, TVar, TStackVar} then
               map_option (\<lambda>st. (if is_constant d2 then tabu_list else remember tabu_list d1 d2 st, st))
                 (unify_partial_string E bnd v d2 st)
             else Some (tabu_list, failed st)
         | TF64Offset \<Rightarrow> keep (unify_f64 E bnd v d2 st)
         | TFixnum \<Rightarrow> keep (unify_fixnum bnd d1 d2 st)
         | TCons \<Rightarrow> keep (unify_constant bnd d1 d2 st)
         | TCutPoint \<Rightarrow> keep (unify_fixnum bnd d1 d2 st)
         | _ \<Rightarrow> None)"

definition unify_step :: "machine_env \<Rightarrow> bind_op \<Rightarrow> tabu \<Rightarrow> MachineState \<Rightarrow> (tabu \<times> MachineState) option" where
  "unify_step E bnd tabu_list st =
     (case ms_pdl st of
        x # y # rest \<Rightarrow> do {
          let st = st\<lparr>ms_pdl := rest\<rparr>;
          s1 \<leftarrow> deref st x;
          s2 \<leftarrow> deref st y;
          if s1 \<noteq> s2 then unify_pair E bnd tabu_list (store st s1) (store st s2) st else Some (tabu_list, st) }
      | _ \<Rightarrow> None)"

partial_function (option) unify_loop :: "machine_env \<Rightarrow> bind_op \<Rightarrow> tabu \<Rightarrow> MachineState \<Rightarrow> MachineState option" where
  "unify_loop E bnd tabu_list st =
     (if ms_pdl st = [] \<or> ms_fail st then Some st
      else case unify_step E bnd tabu_list st of
             None \<Rightarrow> None
           | Some (tabu_list', st') \<Rightarrow> unify_loop E bnd tabu_list' st')"

definition unify_internal :: "machine_env \<Rightarrow> bind_op \<Rightarrow> MachineState \<Rightarrow> MachineState option" where
  "unify_internal E bnd st = unify_loop E bnd [] st"

text \<open>\<open>DefaultUnifier\<close> binds with the operation of the machine.\<close>

definition unify :: "machine_env \<Rightarrow> MachineState \<Rightarrow> MachineState option" where
  "unify E st = unify_internal E machine_bind st"


section \<open>The contract of binding\<close>

text \<open>No variable that is still unbound has a mark.\<close>

definition vars_clean :: "MachineState \<Rightarrow> bool" where
  "vars_clean st \<longleftrightarrow> (\<forall>c. unbound st c \<longrightarrow> clean c)"

text \<open>A step changes only the push-down list and the flag, or binds one unbound variable.\<close>

definition quiet :: "MachineState \<Rightarrow> MachineState \<Rightarrow> bool" where
  "quiet st st' \<longleftrightarrow> (\<exists>pdl fl. st' = st\<lparr>ms_pdl := pdl, ms_fail := fl\<rparr>)"

definition moved :: "MachineState \<Rightarrow> MachineState \<Rightarrow> bool" where
  "moved st st' \<longleftrightarrow> quiet st st' \<or> (\<exists>c w. writable st c w \<and> writes c w st st' \<and> downward c w)"

lemma is_var_as_var: "is_var d \<longleftrightarrow> as_var d \<noteq> None"
  by (auto simp: as_var_def is_var_def split: HeapCellValueTag.splits)

lemma quiet_refl [simp]: "quiet st st"
  unfolding quiet_def by (rule exI [of _ "ms_pdl st"], rule exI [of _ "ms_fail st"]) simp

lemma quiet_update [simp]:
  "quiet st (failed st)" "quiet st (set_fail b st)" "quiet st (st\<lparr>ms_pdl := p\<rparr>)"
  unfolding quiet_def failed_def set_fail_def
  by (metis MachineState.surjective MachineState.update_convs(10) MachineState.update_convs(11))+

lemma quiet_moved [simp]: "quiet st st' \<Longrightarrow> moved st st'"
  by (simp add: moved_def)

lemma quiet_trans: "quiet st st1 \<Longrightarrow> quiet st1 st2 \<Longrightarrow> quiet st st2"
  by (auto simp: quiet_def) blast

lemma quiet_push_pdl: "push_pdl tag v st = Some st' \<Longrightarrow> quiet st st'"
  by (auto simp: push_pdl_def)

lemma quiet_push_succ: "push_succ sc st = Some st' \<Longrightarrow> quiet st st'"
  by (cases sc) (auto dest: quiet_push_pdl)

lemma quiet_push_args: "push_args l2 l1 n st = Some st' \<Longrightarrow> quiet st st'"
  by (induction n arbitrary: st) (auto simp: bind_eq_Some_conv dest!: quiet_push_pdl intro: quiet_trans)

lemma quiet_partial_string_to_pdl: "partial_string_to_pdl E l1 l2 st = Some st' \<Longrightarrow> quiet st st'"
  by (auto simp: partial_string_to_pdl_def bind_eq_Some_conv dest!: quiet_push_pdl quiet_push_succ)
     (rule quiet_trans [OF quiet_trans [OF quiet_trans]], assumption+, rule quiet_update)

lemma pointer_not_var: "\<not> is_var (from_ptr_addr (cons_ptr_address w))"
proof -
  let ?c = "from_ptr_addr (cons_ptr_address w)"
  have "?c = take_bit 61 w" by (simp add: from_ptr_addr_def cons_ptr_address_def)
  then have "drop_bit 58 ?c = take_bit 3 (drop_bit 58 w)" by (simp add: drop_bit_take_bit)
  then have "cell_tag_bits ?c < 2 ^ 3"
    unfolding cell_tag_bits_def by (simp only: unsigned_take_bit_eq) (rule take_bit_nat_less_exp)
  then show ?thesis
    by (auto simp: is_var_def cell_get_tag_def split: option.splits if_splits dest: tag_of_bits_Some)
qed

locale unifier =
  fixes bnd :: bind_op
  assumes bnd_writes:
    "as_var c = Some r \<Longrightarrow> unbound st c \<Longrightarrow> clean c \<Longrightarrow> wf_heap (ms_heap st) \<Longrightarrow>
     (is_var a \<Longrightarrow> unbound st a \<and> a \<noteq> c \<and> clean a) \<Longrightarrow>
     \<exists>st'. bnd r a st = Some st' \<and>
       (writes c a st st' \<and> downward c a \<or> unbound st a \<and> writes a c st st' \<and> downward a c)"
begin

lemma bnd_moved:
  assumes "bnd r a st = Some st'" and "as_var c = Some r" and "unbound st c" and "vars_clean st" and "wf_heap (ms_heap st)"
    and "is_var a \<Longrightarrow> unbound st a \<and> a \<noteq> c"
  shows "moved st st'"
  using bnd_writes [OF assms(2,3) _ assms(5), of a] assms unbound_is_var [of st]
  by (fastforce simp: moved_def writable_def vars_clean_def)

lemma bind_loc_moved:
  assumes "bind_loc bnd r tag v st = Some st'" and "as_var c = Some r" and "unbound st c" and "vars_clean st"
    and "wf_heap (ms_heap st)" and "tag \<notin> {TVar, TAttrVar, TStackVar}"
  shows "moved st st'"
  using assms(1) by (auto simp: bind_loc_def bind_eq_Some_conv intro!: bnd_moved [OF _ assms(2-5)])
    (use assms(6) in \<open>auto simp: is_var_def dest!: built_readings(1)\<close>)

text \<open>Every operation leaves memory alone or binds one variable.\<close>

lemma unify_structure_moved:
  assumes "unify_structure bnd s1 d st = Some st'" and "is_var d \<longrightarrow> unbound st d" and "vars_clean st"
    and "wf_heap (ms_heap st)"
  shows "moved st st'"
  using assms bind_loc_moved [of _ TStr s1 st st' d]
  by (auto simp: unify_structure_def Let_def as_var_def is_var_def moved_def attr_var_def heap_cell_def stack_cell_def
      split: HeapCellValueTag.splits prod.splits if_splits dest: quiet_push_args)

lemma unify_partial_string_moved:
  assumes "unify_partial_string E bnd l d st = Some st'" and "is_var d \<longrightarrow> unbound st d" and "vars_clean st"
    and "wf_heap (ms_heap st)"
  shows "moved st st'"
proof (cases "as_var d")
  case None
  then have "quiet st st'" using assms(1)
    by (auto simp: unify_partial_string_def Let_def bind_eq_Some_conv dest!: quiet_partial_string_to_pdl quiet_push_succ
        split: HeapCellValueTag.splits PStrSegmentCmpResult.splits if_splits intro: quiet_trans)
  then show ?thesis by (simp add: moved_def)
next
  case (Some r)
  then have "is_var d" by (simp add: is_var_as_var)
  then show ?thesis using assms Some bind_loc_moved [of r TPStrLoc l st st' d] by (auto simp: unify_partial_string_def)
qed

lemma unify_list_moved:
  assumes "unify_list E bnd l1 d st = Some st'" and "is_var d \<longrightarrow> unbound st d" and "vars_clean st"
    and "wf_heap (ms_heap st)"
  shows "moved st st'"
proof (cases "cell_get_tag d = TPStrLoc")
  case True
  then obtain c where c: "cell_build_with TLis l1 = Some c" "unify_partial_string E bnd (cell_val d) c st = Some st'"
    using assms(1) by (auto simp: unify_list_def Let_def bind_eq_Some_conv)
  show ?thesis by (rule unify_partial_string_moved [OF c(2) _ assms(3,4)])
      (use built_readings(1) [OF c(1)] in \<open>simp add: is_var_def\<close>)
next
  case False
  then show ?thesis using assms bind_loc_moved [of _ TLis l1 st st' d]
    by (auto simp: unify_list_def Let_def as_var_def is_var_def moved_def attr_var_def heap_cell_def stack_cell_def
        split: HeapCellValueTag.splits if_splits dest: quiet_push_args)
qed

lemma bind_const_moved:
  assumes "bind_const bnd d c st = Some st'" and "is_var d \<longrightarrow> unbound st d" and "vars_clean st"
    and "wf_heap (ms_heap st)" and "\<And>w. c = Some w \<Longrightarrow> \<not> is_var w"
  shows "moved st st'"
  using assms(1,2) bnd_moved [of _ _ st st' d, OF _ _ _ assms(3,4)] assms(5)
  by (auto simp: bind_const_def Let_def bind_eq_Some_conv as_var_def is_var_def moved_def attr_var_def heap_cell_def
      stack_cell_def split: HeapCellValueTag.splits)

lemma atom_as_cell_not_var: "atom_as_cell a = Some w \<Longrightarrow> \<not> is_var w"
  by (auto simp: atom_as_cell_def is_var_def dest!: atom_cell_readings)

lemma unify_atom_moved:
  assumes "unify_atom bnd a d st = Some st'" and "is_var d \<longrightarrow> unbound st d" and "vars_clean st" and "wf_heap (ms_heap st)"
  shows "moved st st'"
  using assms bind_const_moved [of d "atom_as_cell a" st st', OF _ assms(2-4)] atom_as_cell_not_var
  by (auto simp: unify_atom_def moved_def Let_def split: HeapCellValueTag.splits prod.splits)

lemma bind_or_quiet:
  assumes "(case as_var d of Some r \<Rightarrow> bnd r w st | None \<Rightarrow> k) = Some st'" and "k = Some st' \<Longrightarrow> quiet st st'"
    and "is_var d \<longrightarrow> unbound st d" and "vars_clean st" and "wf_heap (ms_heap st)" and "\<not> is_var w"
  shows "moved st st'"
  using assms bnd_moved [of _ w st st' d] by (auto simp: is_var_as_var moved_def split: option.splits)

lemma unify_constants_moved:
  assumes d: "is_var d \<longrightarrow> unbound st d" "vars_clean st" "wf_heap (ms_heap st)"
  shows "unify_fixnum bnd n1 d st = Some st' \<Longrightarrow> \<not> is_var n1 \<Longrightarrow> moved st st'"
    and "unify_big_integer bnd (cons_ptr_address w) i d st = Some st' \<Longrightarrow> moved st st'"
    and "unify_big_rational bnd (cons_ptr_address w) r d st = Some st' \<Longrightarrow> moved st st'"
    and "unify_f64 E bnd f d st = Some st' \<Longrightarrow> moved st st'"
proof -
  assume "unify_fixnum bnd n1 d st = Some st'" and "\<not> is_var n1"
  then show "moved st st'" unfolding unify_fixnum_def
    by (elim bind_or_quiet [OF _ _ d]) (auto simp: Let_def split: option.splits Number.splits if_splits)
next
  assume "unify_big_integer bnd (cons_ptr_address w) i d st = Some st'"
  then show "moved st st'" unfolding unify_big_integer_def
    by (elim bind_or_quiet [OF _ _ d]) (auto simp: pointer_not_var split: option.splits Number.splits if_splits)
next
  assume "unify_big_rational bnd (cons_ptr_address w) r d st = Some st'"
  then show "moved st st'" unfolding unify_big_rational_def
    by (elim bind_or_quiet [OF _ _ d]) (auto simp: pointer_not_var split: option.splits Number.splits if_splits)
next
  assume "unify_f64 E bnd f d st = Some st'"
  then show "moved st st'" using d bind_loc_moved [of _ TF64Offset f st st' d]
    by (auto simp: unify_f64_def is_var_as_var moved_def split: option.splits if_splits)
qed

lemma unify_constant_moved:
  assumes "unify_constant bnd ptr d st = Some st'" and "cell_get_tag ptr = TCons"
    and d: "is_var d \<longrightarrow> unbound st d" "vars_clean st" "wf_heap (ms_heap st)"
  shows "moved st st'"
proof -
  have nv: "\<not> is_var ptr" using assms(2) by (simp add: is_var_def)
  let ?raw = "cons_ptr_address ptr"
  have pushed: "push_pdl TVar ?raw (st\<lparr>ms_pdl := d # ms_pdl st\<rparr>) = Some st' \<Longrightarrow> quiet st st'"
    by (rule quiet_trans [OF quiet_update(3) quiet_push_pdl])
  have bound: "(case as_var d of Some r \<Rightarrow> bnd r ptr st | None \<Rightarrow> Some (set_fail b st)) = Some st' \<Longrightarrow> moved st st'"
    "(case as_var d of Some r \<Rightarrow> bnd r ptr st | None \<Rightarrow> Some (failed st)) = Some st' \<Longrightarrow> moved st st'" for b
    by (auto intro: bind_or_quiet [OF _ _ d nv])
  show ?thesis using assms(1) pushed bound unify_constants_moved(2,3) [OF d]
    by (auto simp: unify_constant_def Let_def moved_def split: if_splits ArenaItem.splits)
qed

lemma unify_pair_moved:
  assumes "unify_pair E bnd tabu_list d1 d2 st = Some (t', st')" and "vars_clean st" and "wf_heap (ms_heap st)"
    and d1: "is_var d1 \<Longrightarrow> unbound st d1 \<and> d1 \<noteq> d2" and d2: "is_var d2 \<longrightarrow> unbound st d2"
  shows "moved st st'"
proof (cases "is_var d1")
  case True
  then obtain r where r: "as_var d1 = Some r" "bnd r d2 st = Some st'"
    using assms(1) by (auto simp: unify_pair_def Let_def is_var_def as_var_def heap_cell_def stack_cell_def attr_var_def)
  then show ?thesis using bnd_moved [OF r(2,1) _ assms(2,3)] d1 d2 True by auto
next
  case False
  note rest = assms(2,3)
  show ?thesis
    using assms(1) False
    by (auto simp: unify_pair_def Let_def is_var_def [of d1] split: HeapCellValueTag.splits if_splits
        dest: unify_structure_moved [OF _ d2 rest] unify_list_moved [OF _ d2 rest]
          unify_partial_string_moved [OF _ d2 rest] unify_atom_moved [OF _ d2 rest] unify_constants_moved(4) [OF d2 rest]
          unify_constant_moved [OF _ _ d2 rest] unify_constants_moved(1) [OF d2 rest _ False])
qed

lemma unify_step_moved:
  assumes "unify_step E bnd tabu_list st = Some (t', st')" and "vars_clean st" and "wf_heap (ms_heap st)"
  shows "\<exists>st1. quiet st st1 \<and> moved st1 st'"
proof -
  obtain x y rest where p: "ms_pdl st = x # y # rest"
    using assms(1) by (auto simp: unify_step_def split: list.splits)
  let ?st = "st\<lparr>ms_pdl := rest\<rparr>"
  obtain s1 s2 where s: "deref ?st x = Some s1" "deref ?st y = Some s2"
    "(if s1 \<noteq> s2 then unify_pair E bnd tabu_list (store ?st s1) (store ?st s2) ?st else Some (tabu_list, ?st)) = Some (t', st')"
    using assms(1) p by (auto simp: unify_step_def bind_eq_Some_conv Let_def)
  have rd: "rd ?st = rd st" by (rule rd_eqI) simp_all
  have vc: "vars_clean ?st" using assms(2) by (simp add: vars_clean_def unbound_def rd)
  have "moved ?st st'"
  proof (cases "s1 = s2")
    case False
    show ?thesis
    proof (rule unify_pair_moved [OF _ vc])
      show "unify_pair E bnd tabu_list (store ?st s1) (store ?st s2) ?st = Some (t', st')" using s(3) False by simp
      show "is_var (store ?st s1) \<Longrightarrow> unbound ?st (store ?st s1) \<and> store ?st s1 \<noteq> store ?st s2"
        using deref_var [OF s(1)] deref_var [OF s(2)] False by force
    qed (use assms(3) deref_var [OF s(2)] in simp_all)
  qed (use s in \<open>auto simp: moved_def\<close>)
  then show ?thesis by (intro exI [of _ ?st]) simp
qed

end

interpretation machine: unifier machine_bind
  by unfold_locales (rule machine_bind_writes)

end
