(* ===== verification/Backtracking.thy ===== *)
theory Backtracking
  imports Unify
begin

text \<open>
  What unification leaves behind for backtracking: every binding of an older variable is on the trail, so
  that \<open>unwind_trail\<close> restores the older part of heap and stack, and references never lead from the heap
  to the stack. This holds for every store, strings and streams included, and for every binding
  operation that keeps the contract \<open>unifier\<close>.
\<close>

section \<open>Loops\<close>

lemma unify_loop_invariant:
  assumes "unify_loop E bnd t st = Some st'" and "I t st"
    and "\<And>t st t' st'. I t st \<Longrightarrow> ms_pdl st \<noteq> [] \<Longrightarrow> \<not> ms_fail st \<Longrightarrow> unify_step E bnd t st = Some (t', st') \<Longrightarrow> I t' st'"
  shows "\<exists>t'. I t' st' \<and> (ms_pdl st' = [] \<or> ms_fail st')"
proof -
  have "E = E \<longrightarrow> bnd = bnd \<longrightarrow> I t st \<longrightarrow> (\<exists>t'. I t' st' \<and> (ms_pdl st' = [] \<or> ms_fail st'))"
    using assms(1)
  proof (rule unify_loop.raw_induct [of "\<lambda>E' bnd' t st st'. E' = E \<longrightarrow> bnd' = bnd \<longrightarrow> I t st \<longrightarrow>
        (\<exists>t'. I t' st' \<and> (ms_pdl st' = [] \<or> ms_fail st'))", rotated])
    fix loop E' bnd' t0 st0 r0
    assume IH: "\<And>E' bnd' t st st'. loop E' bnd' t st = Some st' \<Longrightarrow> E' = E \<longrightarrow> bnd' = bnd \<longrightarrow> I t st \<longrightarrow>
        (\<exists>t'. I t' st' \<and> (ms_pdl st' = [] \<or> ms_fail st'))"
      and run: "(if ms_pdl st0 = [] \<or> ms_fail st0 then Some st0
        else case unify_step E' bnd' t0 st0 of None \<Rightarrow> None | Some (t', st') \<Rightarrow> loop E' bnd' t' st') = Some r0"
    show "E' = E \<longrightarrow> bnd' = bnd \<longrightarrow> I t0 st0 \<longrightarrow> (\<exists>t'. I t' r0 \<and> (ms_pdl r0 = [] \<or> ms_fail r0))"
    proof (intro impI)
      assume eq: "E' = E" "bnd' = bnd" and I: "I t0 st0"
      show "\<exists>t'. I t' r0 \<and> (ms_pdl r0 = [] \<or> ms_fail r0)"
      proof (cases "ms_pdl st0 = [] \<or> ms_fail st0")
        case False
        with run obtain t1 st1 where "unify_step E bnd t0 st0 = Some (t1, st1)" "loop E bnd t1 st1 = Some r0"
          by (auto simp: eq split: option.splits)
        with False IH assms(3) [OF I] show ?thesis by blast
      qed (use run I in auto)
    qed
  qed
  with assms(2) show ?thesis by simp
qed

section \<open>What has been recorded\<close>

text \<open>
  Since the state \<open>st0\<close>, only variables that were unbound there have changed, none of them to an
  unbound variable, and the older ones are among the new entries \<open>es\<close> of the trail.
\<close>

definition changed_var :: "MachineState \<Rightarrow> TrailEntry list \<Rightarrow> loc \<Rightarrow> bool" where
  "changed_var st0 es l \<longleftrightarrow>
     loc_of (rd st0 l) = Some l \<and> (old_loc st0 l \<longrightarrow> the (entry_of (rd st0 l)) \<in> set es)"

definition bounds :: "MachineState \<Rightarrow> nat \<times> nat \<times> nat \<times> nat" where
  "bounds st = (cell_len (ms_heap st), length (ms_stack st), ms_hb st, ms_b st)"

definition tracked :: "MachineState \<Rightarrow> TrailEntry list \<Rightarrow> MachineState \<Rightarrow> bool" where
  "tracked st0 es st \<longleftrightarrow>
     wf_heap (ms_heap st) \<and> bounds st = bounds st0 \<and> ms_trail st = ms_trail st0 @ es \<and>
     (\<forall>e\<in>set es. \<exists>c. unbound st0 c \<and> e = the (entry_of c)) \<and>
     (\<forall>l. rd st l = rd st0 l \<or> changed_var st0 es l \<and> loc_of (rd st l) \<noteq> Some l)"

lemma tracked_unbound: "tracked st0 es st \<Longrightarrow> unbound st c \<Longrightarrow> unbound st0 c"
  by (auto simp: tracked_def unbound_def) metis

lemma tracked_refl: "wf_heap (ms_heap st) \<Longrightarrow> tracked st [] st"
  by (simp add: tracked_def)

lemma bounds_old_loc: "bounds st' = bounds st \<Longrightarrow> old_loc st' l = old_loc st l"
  by (cases l) (simp_all add: bounds_def)

lemma bounds_valid_loc: "bounds st' = bounds st \<Longrightarrow> valid_loc st' l = valid_loc st l"
  by (cases l) (simp_all add: bounds_def)

lemma quiet_same: "quiet st st' \<Longrightarrow> rd st' = rd st \<and> bounds st' = bounds st \<and> ms_trail st' = ms_trail st \<and> ms_heap st' = ms_heap st"
  by (auto simp: quiet_def bounds_def intro!: rd_eqI)

lemma tracked_quiet: "tracked st0 es st \<Longrightarrow> quiet st st' \<Longrightarrow> tracked st0 es st'"
  by (simp add: tracked_def quiet_same)

lemma tracked_writes:
  assumes t: "tracked st0 es st" and w: "writes c w st st'" and ok: "writable st c w"
  shows "\<exists>es'. tracked st0 es' st'"
proof -
  obtain l where l: "loc_of c = Some l" "rd st l = c" using ok by (auto simp: writable_def unbound_def)
  have c0: "unbound st0 c" using tracked_unbound [OF t] ok by (simp add: writable_def)
  then have l0: "rd st0 l = c" using l by (simp add: unbound_def)
  let ?new = "if old_loc st l then [the (entry_of c)] else []"
  have b: "bounds st' = bounds st0" "old_loc st l = old_loc st0 l"
    using w t frame_eqD [of st' st] by (auto simp: writes_def tracked_def bounds_def intro!: bounds_old_loc)
  have "loc_of w \<noteq> Some l" using ok l by (auto simp: writable_def unbound_def is_var_loc)
  then have "rd st' k = rd st0 k \<or> changed_var st0 (es @ ?new) k \<and> loc_of (rd st' k) \<noteq> Some k" for k
    using t w l l0 b by (cases "k = l") (auto simp: writes_def tracked_def changed_var_def)
  moreover have "wf_heap (ms_heap st')" "ms_trail st' = ms_trail st0 @ es @ ?new"
    using w t l by (auto simp: writes_def tracked_def)
  ultimately have "tracked st0 (es @ ?new) st'"
    using t b c0 by (auto simp: tracked_def)
  then show ?thesis by blast
qed

lemma tracked_moved: "tracked st0 es st \<Longrightarrow> moved st st' \<Longrightarrow> \<exists>es'. tracked st0 es' st'"
  unfolding moved_def using tracked_quiet tracked_writes by blast

section \<open>The direction of references\<close>

definition layered :: "MachineState \<Rightarrow> bool" where
  "layered st \<longleftrightarrow>
     (\<forall>h. cell_get_tag (hcell (ms_heap st) h) \<noteq> TStackVar) \<and>
     (\<forall>s. cell_get_tag (stack_at (ms_stack st) s) = TStackVar \<longrightarrow> cell_val (stack_at (ms_stack st) s) \<le> s)"

lemma layered_rd:
  "layered st \<longleftrightarrow> (\<forall>l. cell_get_tag (rd st l) = TStackVar \<longrightarrow> (\<exists>s. l = SLoc s \<and> cell_val (rd st l) \<le> s))"
  (is "_ = (\<forall>l. ?P l)")
proof -
  have "?P l" if "\<forall>h. ?P (HLoc h)" "\<forall>s. ?P (SLoc s)" for l using that by (cases l) blast+
  then have "(\<forall>l. ?P l) = ((\<forall>h. ?P (HLoc h)) \<and> (\<forall>s. ?P (SLoc s)))" by blast
  then show ?thesis by (simp add: layered_def)
qed

lemma layered_quiet: "layered st \<Longrightarrow> quiet st st' \<Longrightarrow> layered st'"
  using quiet_same [of st st'] unfolding layered_rd by simp

lemma layered_moved:
  assumes "layered st" and "moved st st'"
  shows "layered st'"
  using assms(2) unfolding moved_def
proof (elim disjE exE conjE)
  fix c w
  assume ok: "writable st c w" and w: "writes c w st st'" and down: "downward c w"
  obtain l where l: "loc_of c = Some l" using ok by (auto simp: writable_def unbound_def)
  then have "cell_get_tag w = TStackVar \<longrightarrow> (\<exists>s. l = SLoc s \<and> cell_val w \<le> s)"
    using down by (auto simp: downward_def loc_of_def)
  then show ?thesis using assms(1) w l by (auto simp: layered_rd writes_def)
qed (rule layered_quiet [OF assms(1)])

section \<open>Undoing what has been recorded\<close>

lemma entry_of_loc:
  assumes "entry_of c = entry_of d" and "is_var c" and "is_var d"
  shows "loc_of c = loc_of d"
proof -
  obtain e where "entry_of c = Some e" "entry_of d = Some e" using entry_of_Some assms(1) by metis
  then have "(case cell_get_tag c of TVar \<Rightarrow> EHeapVar | TAttrVar \<Rightarrow> EAttrVar | _ \<Rightarrow> EStackVar) =
      (case cell_get_tag d of TVar \<Rightarrow> EHeapVar | TAttrVar \<Rightarrow> EAttrVar | _ \<Rightarrow> EStackVar)" "cell_val c = cell_val d"
    unfolding entry_of_def using entry_readings by metis+
  then show ?thesis using assms(2,3) by (auto simp: is_var_def loc_of_def)
qed

text \<open>One entry resets its variable.\<close>

lemma unwind_entry_resets:
  assumes "i < length (ms_trail (machine_st m))" and "ms_trail (machine_st m) ! i = the (entry_of c)"
    and "clean c" and "loc_of c = Some l" and "valid_loc (machine_st m) l" and "wf_heap (ms_heap (machine_st m))"
  shows "\<exists>st'. unwind_entry i m = Some (m\<lparr>machine_st := st'\<rparr>) \<and> rd st' = (rd (machine_st m))(l := c) \<and>
    bounds st' = bounds (machine_st m) \<and> wf_heap (ms_heap st') \<and> ms_trail st' = ms_trail (machine_st m)"
proof -
  let ?st = "machine_st m"
  obtain e where e: "entry_of c = Some e" using entry_of_Some by blast
  then have tag: "entry_get_tag e = (case cell_get_tag c of TVar \<Rightarrow> EHeapVar | TAttrVar \<Rightarrow> EAttrVar | _ \<Rightarrow> EStackVar)"
    and val: "entry_get_value e = cell_val c"
    unfolding entry_of_def by (rule entry_readings)+
  have built: "cell_build_with (cell_get_tag c) (cell_val c) = Some c" using assms(3) by (simp add: clean_def)
  have fr: "frame st' = frame ?st \<Longrightarrow> bounds st' = bounds ?st" for st' using frame_eqD [of st' ?st] by (simp add: bounds_def)
  show ?thesis
  proof (cases l)
    case (HLoc h)
    then have h: "cell_get_tag c \<in> {TVar, TAttrVar}" "cell_val c = h"
      using assms(4) by (auto simp: loc_of_def split: HeapCellValueTag.splits)
    have run: "unwind_entry i m = map_option (\<lambda>st. m\<lparr>machine_st := st\<rparr>) (put_heap h c ?st)"
      using assms(1,2) e tag val built h(1) unfolding h(2)
      by (elim insertE emptyE) (simp_all add: unwind_entry_def on_state_def put_loc_def)
    obtain st' where st': "put_heap h c ?st = Some st'" "rd st' = (rd ?st)(HLoc h := c)" "frame st' = frame ?st"
      "wf_heap (ms_heap st')" "ms_trail st' = ms_trail ?st"
      by (rule put_heap_writes [of h ?st c, OF _ assms(6)]) (use assms(5) HLoc in simp)
    with run HLoc fr [OF st'(3)] show ?thesis by (intro exI [of _ st']) simp
  next
    case (SLoc s)
    then have h: "cell_get_tag c = TStackVar" "cell_val c = s"
      using assms(4) by (auto simp: loc_of_def split: HeapCellValueTag.splits)
    have run: "unwind_entry i m = map_option (\<lambda>st. m\<lparr>machine_st := st\<rparr>) (put_stack s c ?st)"
      using assms(1,2) e tag val built h by (simp add: unwind_entry_def on_state_def)
    obtain st' where st': "put_stack s c ?st = Some st'" "rd st' = (rd ?st)(SLoc s := c)" "frame st' = frame ?st"
      "wf_heap (ms_heap st')" "ms_trail st' = ms_trail ?st"
      by (rule put_stack_writes [of ?st s c, OF _ assms(6)]) (use assms(5) SLoc in simp)
    with run SLoc fr [OF st'(3)] show ?thesis by (intro exI [of _ st']) simp
  qed
qed

text \<open>All entries from the end of the trail down to where it ended in \<open>st0\<close>.\<close>

lemma unwind_restores:
  assumes "vars_clean st0" and "wf_heap (ms_heap st0)"
    and "ms_trail (machine_st m) = ms_trail st0 @ es @ rest" and "bounds (machine_st m) = bounds st0"
    and "wf_heap (ms_heap (machine_st m))" and "\<forall>e\<in>set es. \<exists>c. unbound st0 c \<and> e = the (entry_of c)"
    and "\<forall>l. rd (machine_st m) l = rd st0 l \<or> changed_var st0 es l"
  shows "\<exists>st'. unwind_trail (length (ms_trail st0)) (length (ms_trail st0) + length es) m = Some (m\<lparr>machine_st := st'\<rparr>) \<and>
    bounds st' = bounds st0 \<and> (\<forall>l. old_loc st0 l \<longrightarrow> rd st' l = rd st0 l)"
  using assms(3-)
proof (induction es arbitrary: m rest rule: rev_induct)
  case Nil
  have "unwind_trail (length (ms_trail st0)) (length (ms_trail st0)) m = Some m"
    by (cases "length (ms_trail st0)") simp_all
  then show ?case using Nil by (intro exI [of _ "machine_st m"]) (auto simp: changed_var_def)
next
  case (snoc e es)
  let ?st = "machine_st m"
  let ?n = "length (ms_trail st0)"
  obtain c where c: "unbound st0 c" "e = the (entry_of c)" using snoc.prems by auto
  then obtain l where l: "loc_of c = Some l" "rd st0 l = c" by (auto simp: unbound_def)
  have cl: "clean c" using assms(1) c(1) by (simp add: vars_clean_def)
  have "valid_loc ?st l"
    using unbound_valid [OF c(1) assms(2) l(1)] snoc.prems(2) by (simp only: bounds_valid_loc [OF snoc.prems(2)])
  moreover have "?n + length es < length (ms_trail ?st)" "ms_trail ?st ! (?n + length es) = the (entry_of c)"
    using snoc.prems(1) c(2) by (simp_all add: nth_append)
  ultimately obtain st1 where st1: "unwind_entry (?n + length es) m = Some (m\<lparr>machine_st := st1\<rparr>)"
    "rd st1 = (rd ?st)(l := c)" "bounds st1 = bounds ?st" "wf_heap (ms_heap st1)" "ms_trail st1 = ms_trail ?st"
    using unwind_entry_resets [OF _ _ cl l(1) _ snoc.prems(3)] by blast
  have "rd st1 k = rd st0 k \<or> changed_var st0 es k" for k
  proof (cases "k = l")
    case False
    have "the (entry_of (rd st0 k)) \<noteq> e" if "loc_of (rd st0 k) = Some k"
    proof
      assume "the (entry_of (rd st0 k)) = e"
      then have "entry_of (rd st0 k) = entry_of c"
        using c(2) entry_of_Some [of c] entry_of_Some [of "rd st0 k"] by auto
      then have "loc_of (rd st0 k) = loc_of c" by (rule entry_of_loc) (use that l in \<open>simp_all add: is_var_loc\<close>)
      with that l False show False by simp
    qed
    then show ?thesis using snoc.prems(5) st1(2) False by (auto simp: changed_var_def)
  qed (use st1 l in simp)
  then have "\<exists>st'. unwind_trail ?n (?n + length es) (m\<lparr>machine_st := st1\<rparr>) = Some (m\<lparr>machine_st := st1\<rparr>\<lparr>machine_st := st'\<rparr>) \<and>
    bounds st' = bounds st0 \<and> (\<forall>l. old_loc st0 l \<longrightarrow> rd st' l = rd st0 l)"
    using snoc.prems st1 by (intro snoc.IH [where rest = "e # rest"]) auto
  then show ?case using st1(1) by auto
qed

context unifier
begin

lemma unify_step_tracked:
  assumes "unify_step E bnd t st = Some (t', st')" and "vars_clean st0" and "tracked st0 es st"
  shows "\<exists>es'. tracked st0 es' st'"
proof -
  have "vars_clean st" using assms(2) tracked_unbound [OF assms(3)] by (auto simp: vars_clean_def)
  moreover have "wf_heap (ms_heap st)" using assms(3) by (simp add: tracked_def)
  ultimately show ?thesis
    using unify_step_moved [OF assms(1)] tracked_quiet [OF assms(3)] tracked_moved by blast
qed

lemma unify_internal_tracked:
  assumes "unify_internal E bnd st = Some st'" and "vars_clean st" and "wf_heap (ms_heap st)"
  shows "\<exists>es. tracked st es st'"
proof -
  note inv = unify_loop_invariant [where I = "\<lambda>t s. \<exists>es. tracked st es s", OF assms(1) [unfolded unify_internal_def]]
  show ?thesis using inv tracked_refl [OF assms(3)] unify_step_tracked [OF _ assms(2)] by blast
qed

text \<open>Whatever unification did, unwinding the trail to its old length restores the older part of the store.\<close>

lemma unify_internal_undone:
  assumes "unify_internal E bnd (machine_st m) = Some st'" and "vars_clean (machine_st m)" and "wf_heap (ms_heap (machine_st m))"
  shows "\<exists>st''. unwind_trail (length (ms_trail (machine_st m))) (length (ms_trail st')) (m\<lparr>machine_st := st'\<rparr>) =
      Some (m\<lparr>machine_st := st''\<rparr>) \<and> bounds st'' = bounds (machine_st m) \<and>
    (\<forall>l. old_loc (machine_st m) l \<longrightarrow> rd st'' l = rd (machine_st m) l)"
proof -
  obtain es where "tracked (machine_st m) es st'" using unify_internal_tracked [OF assms] by blast
  then have "ms_trail st' = ms_trail (machine_st m) @ es"
    "\<exists>st''. unwind_trail (length (ms_trail (machine_st m))) (length (ms_trail (machine_st m)) + length es) (m\<lparr>machine_st := st'\<rparr>) =
      Some (m\<lparr>machine_st := st'\<rparr>\<lparr>machine_st := st''\<rparr>) \<and> bounds st'' = bounds (machine_st m) \<and>
    (\<forall>l. old_loc (machine_st m) l \<longrightarrow> rd st'' l = rd (machine_st m) l)"
    using unwind_restores [OF assms(2,3), of "m\<lparr>machine_st := st'\<rparr>" es "[]"] by (auto simp: tracked_def)
  then show ?thesis by simp
qed

text \<open>References lead from the stack to the heap and to lower addresses of the stack, never the other way.\<close>

lemma unify_internal_layered:
  assumes "unify_internal E bnd st = Some st'" and "vars_clean st" and "wf_heap (ms_heap st)" and "layered st"
  shows "layered st'"
proof -
  note inv = unify_loop_invariant [where I = "\<lambda>t s. (\<exists>es. tracked st es s) \<and> layered s", OF assms(1) [unfolded unify_internal_def]]
  have "(\<exists>es. tracked st es s2) \<and> layered s2"
    if I: "(\<exists>es. tracked st es s1) \<and> layered s1" and run: "unify_step E bnd t s1 = Some (t', s2)" for t s1 t' s2
  proof -
    obtain es where es: "tracked st es s1" "layered s1" using I by blast
    then have "vars_clean s1" "wf_heap (ms_heap s1)"
      using assms(2) tracked_unbound [OF es(1)] by (auto simp: vars_clean_def tracked_def)
    then obtain s where "quiet s1 s" "moved s s2" using unify_step_moved [OF run] by blast
    then show ?thesis using es layered_quiet layered_moved unify_step_tracked [OF run assms(2)] by blast
  qed
  then show ?thesis using inv tracked_refl [OF assms(3)] assms(4) by blast
qed

end

end
