(* ===== verification/UnifyTerms.thy ===== *)
theory UnifyTerms
  imports Backtracking
begin

text \<open>
  What unification computes. A cell of the store denotes a possibly infinite tree once a tree is
  assigned to every unbound variable; unification is the search for the assignments that make the trees
  of the given cells equal. The store is required to hold no strings, streams or other arena objects but
  numbers, and no structure \<open>'.'/2\<close> that is not a list cell: for those the program treats different
  trees as equal or unifies the wrong cells.
\<close>

section \<open>Terms in the store\<close>

datatype label = LFun Atom nat | LRat rat | LFloat "f64 set"

definition loc_cell :: "nat \<Rightarrow> HeapCellValue" where
  "loc_cell v = the (cell_build_with TVar v)"

definition number_label :: "ArenaItem \<Rightarrow> label" where
  "number_label i = (case i of AInteger n \<Rightarrow> LRat (of_int n) | ARational r \<Rightarrow> LRat r | _ \<Rightarrow> LFloat {})"

definition label_of :: "machine_env \<Rightarrow> MachineState \<Rightarrow> HeapCellValue \<Rightarrow> label" where
  "label_of E st d =
     (case cell_get_tag d of
        TStr \<Rightarrow> LFun (fst (functor_at st (cell_val d))) (snd (functor_at st (cell_val d)))
      | TLis \<Rightarrow> LFun dot_atom 2
      | TAtom \<Rightarrow> LFun (atom_get_name d) 0
      | TFixnum \<Rightarrow> LRat (of_int (get_num (cell_fixnum d)))
      | TCutPoint \<Rightarrow> LRat (of_int (get_num (cell_fixnum d)))
      | TF64Offset \<Rightarrow> LFloat {f. me_eq E (ms_f64_tbl st (cell_val d)) f}
      | TCons \<Rightarrow> number_label (ms_arena st (cons_ptr_address d))
      | _ \<Rightarrow> LFloat {})"

definition kids :: "MachineState \<Rightarrow> HeapCellValue \<Rightarrow> HeapCellValue list" where
  "kids st d =
     (case cell_get_tag d of
        TStr \<Rightarrow> map loc_cell [cell_val d + 1..<cell_val d + 1 + snd (functor_at st (cell_val d))]
      | TLis \<Rightarrow> map loc_cell [cell_val d..<cell_val d + 2]
      | _ \<Rightarrow> [])"

codatatype rtree = Node (root: label) (subtrees: "rtree list")

primcorec tree_of :: "(HeapCellValue \<Rightarrow> rtree) \<Rightarrow> machine_env \<Rightarrow> MachineState \<Rightarrow> HeapCellValue \<Rightarrow> rtree" where
  "tree_of s E st c =
     (if is_var (look st c) then s (look st c)
      else Node (label_of E st (look st c)) (map (tree_of s E st) (kids st (look st c))))"

section \<open>Well-formed stores\<close>

definition is_functor :: "HeapCellValue \<Rightarrow> bool" where
  "is_functor c \<longleftrightarrow> cell_get_tag c = TAtom \<and> 0 < atom_get_arity c"

definition args_ok :: "MachineState \<Rightarrow> nat \<Rightarrow> nat \<Rightarrow> bool" where
  "args_ok st l n \<longleftrightarrow> l + n \<le> cell_len (ms_heap st) \<and> (\<forall>i\<in>set [l..<l + n]. \<not> is_functor (hcell (ms_heap st) i))"

definition cell_ok :: "MachineState \<Rightarrow> HeapCellValue \<Rightarrow> bool" where
  "cell_ok st c \<longleftrightarrow>
     (case cell_get_tag c of
        TStr \<Rightarrow> clean c \<and> cell_get_tag (hcell (ms_heap st) (cell_val c)) = TAtom \<and>
          functor_at st (cell_val c) \<noteq> (dot_atom, 2) \<and> args_ok st (cell_val c + 1) (snd (functor_at st (cell_val c)))
      | TLis \<Rightarrow> clean c \<and> args_ok st (cell_val c) 2
      | TAtom \<Rightarrow> atom_as_cell (atom_get_name c) = Some c
      | TFixnum \<Rightarrow> clean c
      | TCutPoint \<Rightarrow> clean c
      | TF64Offset \<Rightarrow> clean c
      | TCons \<Rightarrow> c = from_ptr_addr (cons_ptr_address c) \<and> PLAUSIBLE_MIN \<le> cons_ptr_address c \<and>
          cons_ptr_address c mod 8 = 0 \<and> number_label (ms_arena st (cons_ptr_address c)) \<noteq> LFloat {}
      | TVar \<Rightarrow> clean c \<and> valid_loc st (HLoc (cell_val c)) \<and> \<not> is_functor (rd st (HLoc (cell_val c)))
      | TAttrVar \<Rightarrow> clean c \<and> valid_loc st (HLoc (cell_val c)) \<and> \<not> is_functor (rd st (HLoc (cell_val c)))
      | TStackVar \<Rightarrow> clean c \<and> valid_loc st (SLoc (cell_val c)) \<and> \<not> is_functor (rd st (SLoc (cell_val c)))
      | _ \<Rightarrow> False)"

definition store_ok :: "MachineState \<Rightarrow> bool" where
  "store_ok st \<longleftrightarrow>
     wf_heap (ms_heap st) \<and> cell_len (ms_heap st) \<le> 2 ^ 56 \<and> (\<forall>c. deref st c \<noteq> None) \<and>
     (\<forall>l. valid_loc st l \<longrightarrow> is_functor (rd st l) \<or> cell_ok st (rd st l))"

lemma cell_ok_var:
  assumes "loc_of c = Some l"
  shows "cell_ok st c \<longleftrightarrow> clean c \<and> valid_loc st l \<and> \<not> is_functor (rd st l)"
  using assms by (auto simp: cell_ok_def loc_of_def split: HeapCellValueTag.splits)

lemma cell_ok_not_functor: "cell_ok st c \<Longrightarrow> \<not> is_functor c"
  by (auto simp: cell_ok_def is_functor_def atom_as_cell_def dest: atom_cell_readings)

lemma cell_ok_tag:
  "cell_ok st c \<Longrightarrow> \<not> is_var c \<Longrightarrow> cell_get_tag c \<in> {TStr, TLis, TAtom, TFixnum, TCutPoint, TF64Offset, TCons}"
  by (auto simp: cell_ok_def is_var_def split: HeapCellValueTag.splits)

lemma store_ok_cell:
  assumes "store_ok st" and "cell_ok st c" and "loc_of c = Some l"
  shows "cell_ok st (rd st l)"
  using assms by (auto simp: store_ok_def cell_ok_var)

lemma store_ok_unbound:
  assumes "store_ok st" and "unbound st c"
  shows "cell_ok st c"
proof -
  obtain l where l: "loc_of c = Some l" "rd st l = c" using assms(2) by (auto simp: unbound_def)
  have "wf_heap (ms_heap st)" using assms(1) by (simp add: store_ok_def)
  then have "valid_loc st l" using unbound_valid assms(2) l(1) by blast
  then have "is_functor c \<or> cell_ok st c" using assms(1) l(2) by (auto simp: store_ok_def)
  moreover have "\<not> is_functor c" using l(1) by (auto simp: is_functor_def loc_of_def)
  ultimately show ?thesis by blast
qed

lemma store_ok_clean: "store_ok st \<Longrightarrow> vars_clean st"
  unfolding vars_clean_def using store_ok_unbound cell_ok_var unbound_def by metis

lemma look_ok:
  assumes "store_ok st" and "cell_ok st x"
  shows "cell_ok st (look st x)"
proof -
  have store: "cell_ok st (store st c)" if "cell_ok st c" for c
    using store_ok_cell [OF assms(1) that] that by (auto simp: store_eq split: option.splits)
  obtain r where r: "deref st x = Some r" using assms(1) by (auto simp: store_ok_def)
  then have "cell_ok st x \<longrightarrow> cell_ok st r" by (induction rule: deref_induct) (auto intro: store)
  then show ?thesis using assms(2) r store by (simp add: look_def)
qed

lemma look_var_ok: "store_ok st \<Longrightarrow> is_var (look st x) \<Longrightarrow> unbound st (look st x)"
  by (rule look_var) (simp_all add: store_ok_def)

lemma loc_cell_readings:
  assumes "v < 2 ^ 56"
  shows "cell_build_with TVar v = Some (loc_cell v)" "cell_get_tag (loc_cell v) = TVar" "cell_val (loc_cell v) = v"
proof -
  show c: "cell_build_with TVar v = Some (loc_cell v)" using assms by (simp add: loc_cell_def cell_build_with_def)
  show "cell_get_tag (loc_cell v) = TVar" "cell_val (loc_cell v) = v" using built_readings [OF c] .
qed

lemma args_ok_cells:
  assumes "args_ok st l n" and "cell_len (ms_heap st) \<le> 2 ^ 56" and "c \<in> set (map loc_cell [l..<l + n])"
  shows "cell_ok st c \<and> is_var c"
proof -
  obtain v where v: "c = loc_cell v" "l \<le> v" "v < l + n" using assms(3) by auto
  then have "v < 2 ^ 56" using assms(1,2) by (simp add: args_ok_def)
  note c = loc_cell_readings [OF this]
  show ?thesis using assms(1) v c by (auto simp: cell_ok_def clean_def args_ok_def is_var_def)
qed

lemma kids_vars: "store_ok st \<Longrightarrow> cell_ok st d \<Longrightarrow> c \<in> set (kids st d) \<Longrightarrow> cell_ok st c \<and> is_var c"
  using args_ok_cells [of st "cell_val d + 1" "snd (functor_at st (cell_val d))" c] args_ok_cells [of st "cell_val d" 2 c]
  by (cases "cell_get_tag d") (simp_all add: kids_def cell_ok_def [of st d] store_ok_def del: set_map)

lemmas kids_ok = kids_vars [THEN conjunct1]

section \<open>Binding keeps stores well-formed\<close>

lemma writes_functor_at:
  assumes "writes c w st st'" and "unbound st c" and "cell_get_tag (hcell (ms_heap st) s) = TAtom"
  shows "hcell (ms_heap st') s = hcell (ms_heap st) s"
proof -
  have "the (loc_of c) \<noteq> HLoc s" using assms(2,3) by (auto simp: unbound_def loc_of_def)
  then have "rd st' (HLoc s) = rd st (HLoc s)" using assms(1) by (simp add: writes_def)
  then show ?thesis by simp
qed

lemma writes_rd_functor:
  assumes "writes c w st st'" and "unbound st c" and "\<not> is_functor w" and "\<not> is_functor (rd st l)"
  shows "\<not> is_functor (rd st' l)"
  using assms by (auto simp: writes_def)

lemma writes_args_ok:
  assumes "writes c w st st'" and "unbound st c" and "\<not> is_functor w" and "args_ok st l n"
  shows "args_ok st' l n"
proof -
  have "\<not> is_functor (hcell (ms_heap st) i) \<Longrightarrow> \<not> is_functor (hcell (ms_heap st') i)" for i
    using writes_rd_functor [OF assms(1-3), of "HLoc i"] by simp
  moreover have "cell_len (ms_heap st') = cell_len (ms_heap st)"
    using assms(1) by (intro frame_eqD(1)) (simp add: writes_def)
  ultimately show ?thesis using assms(4) by (simp add: args_ok_def)
qed

lemma writes_cell_ok:
  assumes w: "writes c w st st'" "unbound st c" "\<not> is_functor w" and d: "cell_ok st d"
  shows "cell_ok st' d" "\<not> is_var d \<Longrightarrow> label_of E st' d = label_of E st d" "\<not> is_var d \<Longrightarrow> kids st' d = kids st d"
proof -
  have fr: "frame st' = frame st" using w(1) by (simp add: writes_def)
  note same = frame_eqD [OF fr] frame_valid_loc [OF fr]
  have fa: "cell_get_tag d = TStr \<Longrightarrow> hcell (ms_heap st') (cell_val d) = hcell (ms_heap st) (cell_val d)"
    using writes_functor_at [OF w(1,2)] d by (simp add: cell_ok_def)
  then have fa': "cell_get_tag d = TStr \<Longrightarrow> functor_at st' (cell_val d) = functor_at st (cell_val d)"
    by (simp add: functor_at_def)
  show "cell_ok st' d"
    using d fa fa' writes_args_ok [OF w] writes_rd_functor [OF w]
    by (auto simp: cell_ok_def same simp del: rd.simps valid_loc.simps split: HeapCellValueTag.splits)
  assume "\<not> is_var d"
  show "label_of E st' d = label_of E st d" "kids st' d = kids st d"
    using fa' by (auto simp: label_of_def kids_def same split: HeapCellValueTag.splits)
qed

lemma writes_store_ok:
  assumes ok: "store_ok st" and w: "writes c w st st'" "writable st c w" "cell_ok st w"
  shows "store_ok st'"
proof -
  have c: "unbound st c" "\<not> is_functor w" using w by (auto simp: writable_def cell_ok_not_functor)
  have fr: "frame st' = frame st" using w(1) by (simp add: writes_def)
  have "is_functor (rd st' l) \<or> cell_ok st' (rd st' l)" if "valid_loc st' l" for l
    using that ok w(1,3) writes_cell_ok(1) [OF w(1) c] by (auto simp: store_ok_def writes_def frame_valid_loc [OF fr])
  moreover have "wf_heap (ms_heap st')" "cell_len (ms_heap st') \<le> 2 ^ 56"
    using w(1) ok frame_eqD(1) [OF fr] by (auto simp: writes_def store_ok_def)
  moreover have "deref st' x \<noteq> None" for x
    using ok look_writes(1) [OF w(1,2)] by (simp add: store_ok_def)
  ultimately show ?thesis unfolding store_ok_def by blast
qed

section \<open>Only memory matters\<close>

lemma deref_cong:
  assumes "\<And>c. store st' c = store st c"
  shows "deref st' x = deref st x"
proof -
  have "deref st' x = Some r" if "deref st x = Some r" "\<And>c. store st' c = store st c" for st st' r
    using that
  proof (induction rule: deref_induct)
    case (found x)
    then show ?case using deref_unfold [of st' x] by auto
  next
    case (refers x r)
    then show ?case using deref_unfold [of st' x] by auto
  qed
  from this [of st _ st'] this [of st' _ st] assms show ?thesis by (metis not_None_eq)
qed

lemma quiet_memory:
  assumes "quiet st st'"
  shows "rd st' = rd st" "store st' = store st" "deref st' = deref st" "look st' = look st" "unbound st' = unbound st"
    "cell_ok st' = cell_ok st" "label_of E st' = label_of E st" "kids st' = kids st" "store_ok st' = store_ok st"
    "functor_at st' = functor_at st" "ms_heap st' = ms_heap st"
proof -
  obtain p fl where st': "st' = st\<lparr>ms_pdl := p, ms_fail := fl\<rparr>" using assms by (auto simp: quiet_def)
  show rd: "rd st' = rd st" unfolding st' by (rule rd_eqI) simp_all
  have val: "valid_loc st' l = valid_loc st l" for l unfolding st' by (cases l) simp_all
  show st: "store st' = store st" unfolding fun_eq_iff store_eq rd by simp
  show dr: "deref st' = deref st" unfolding fun_eq_iff using deref_cong st by metis
  show "look st' = look st" unfolding fun_eq_iff look_def dr st by simp
  show "unbound st' = unbound st" unfolding fun_eq_iff unbound_def rd by simp
  show fa: "functor_at st' = functor_at st" unfolding fun_eq_iff functor_at_def st' by simp
  show hp: "ms_heap st' = ms_heap st" unfolding st' by simp
  have tb: "ms_arena st' = ms_arena st" "ms_f64_tbl st' = ms_f64_tbl st" unfolding st' by simp_all
  show ok: "cell_ok st' = cell_ok st" unfolding fun_eq_iff cell_ok_def args_ok_def rd val fa hp tb by simp
  show "label_of E st' = label_of E st" "kids st' = kids st"
    unfolding fun_eq_iff label_of_def kids_def fa tb by simp_all
  from hp show "store_ok st' = store_ok st" unfolding store_ok_def rd val ok dr by simp
qed

lemmas pdl_memory [simp] = quiet_memory [OF quiet_update(3)]
lemmas fail_memory [simp] = quiet_memory [OF quiet_update(1)]

section \<open>Pairs of cells\<close>

fun pairs :: "'a list \<Rightarrow> ('a \<times> 'a) list" where
  "pairs (x # y # rest) = (x, y) # pairs rest"
| "pairs _ = []"

fun weave :: "'a list \<Rightarrow> 'a list \<Rightarrow> 'a list" where
  "weave (x # xs) (y # ys) = x # y # weave xs ys"
| "weave _ _ = []"

lemma pairs_weave: "pairs (weave xs ys @ p) = zip xs ys @ pairs p"
  by (induction xs ys rule: weave.induct) auto

lemma set_weave: "set (weave xs ys) \<subseteq> set xs \<union> set ys"
  by (induction xs ys rule: weave.induct) auto

lemma even_weave: "even (length (weave xs ys @ p)) = even (length p)"
  by (induction xs ys rule: weave.induct) auto

lemma weave_snoc: "length xs = length ys \<Longrightarrow> weave (xs @ [x]) (ys @ [y]) = weave xs ys @ [x, y]"
  by (induction xs ys rule: list_induct2) auto

lemma push_args_weave:
  assumes "l1 + n \<le> 2 ^ 56" and "l2 + n \<le> 2 ^ 56"
  shows "push_args l2 l1 n st =
    Some (st\<lparr>ms_pdl := weave (map loc_cell [l1..<l1 + n]) (map loc_cell [l2..<l2 + n]) @ ms_pdl st\<rparr>)"
  using assms
proof (induction n arbitrary: st)
  case (Suc n)
  have "push_pdl TVar (l2 + n) st \<bind> push_pdl TVar (l1 + n) =
      Some (st\<lparr>ms_pdl := [loc_cell (l1 + n), loc_cell (l2 + n)] @ ms_pdl st\<rparr>)"
    using Suc.prems by (simp add: push_pdl_def loc_cell_readings(1))
  then show ?case using Suc by (simp add: weave_snoc)
qed simp

section \<open>One pair\<close>

definition eq_ok :: "machine_env \<Rightarrow> bool" where
  "eq_ok E \<longleftrightarrow> equivp (me_eq E)"

lemma eq_ok_label: "eq_ok E \<Longrightarrow> {h. me_eq E f h} = {h. me_eq E g h} \<longleftrightarrow> me_eq E f g"
  unfolding eq_ok_def set_eq_iff mem_Collect_eq by (metis equivp_def)

text \<open>The comparison of the numbers of two cells, as the operations on constants do it.\<close>

lemma number_labels:
  assumes "cell_ok st d" and "cell_get_tag d = TCons"
  shows "\<exists>n. ms_arena st (cons_ptr_address d) = AInteger n \<and> label_of E st d = LRat (of_int n) \<or>
    (\<exists>r. ms_arena st (cons_ptr_address d) = ARational r \<and> label_of E st d = LRat r)"
  using assms by (auto simp: cell_ok_def label_of_def number_label_def split: ArenaItem.splits)

definition compound :: "HeapCellValue \<Rightarrow> bool" where
  "compound d \<longleftrightarrow> cell_get_tag d \<in> {TStr, TLis}"

lemma unify_structure_nonvar:
  assumes "store_ok st" "cell_ok st d1" "cell_get_tag d1 = TStr" "cell_ok st d2" "\<not> is_var d2" "\<not> ms_fail st"
  shows "unify_structure bnd (cell_val d1) d2 st = Some
    (if label_of E st d1 = label_of E st d2 then st\<lparr>ms_pdl := weave (kids st d1) (kids st d2) @ ms_pdl st\<rparr> else failed st)"
proof -
  have len: "cell_len (ms_heap st) \<le> 2 ^ 56" using assms(1) by (simp add: store_ok_def)
  let ?f = "\<lambda>d. functor_at st (cell_val d)"
  have d1: "?f d1 \<noteq> (dot_atom, 2)" "cell_val d1 + 1 + snd (?f d1) \<le> 2 ^ 56"
    using assms(2,3) len by (auto simp: cell_ok_def args_ok_def)
  consider "cell_get_tag d2 = TStr" | "cell_get_tag d2 = TLis" | "cell_get_tag d2 = TAtom" | "cell_get_tag d2 \<in> {TFixnum, TCutPoint, TF64Offset, TCons}"
    using cell_ok_tag [OF assms(4,5)] by blast
  then show ?thesis
  proof cases
    case 1
    then have "cell_val d2 + 1 + snd (?f d2) \<le> 2 ^ 56" using assms(4) len by (auto simp: cell_ok_def args_ok_def)
    with 1 d1(2) assms(3) show ?thesis
      using push_args_weave [of "cell_val d1 + 1" "snd (?f d1)" "cell_val d2 + 1" st]
      by (cases "?f d1"; cases "?f d2") (auto simp: unify_structure_def label_of_def kids_def Let_def simp del: upt_Suc)
  next
    case 2
    with d1(1) assms(3) show ?thesis by (auto simp: unify_structure_def label_of_def kids_def Let_def split: prod.splits)
  next
    case 3
    then have "atom_get_arity d2 = 0" using cell_ok_not_functor [OF assms(4)] by (simp add: is_functor_def)
    with 3 assms(3,6) show ?thesis
      by (auto simp: unify_structure_def label_of_def kids_def set_fail_def failed_def Let_def split: prod.splits)
  next
    case 4
    with assms(3) number_labels [OF assms(4), of E] show ?thesis
      by (auto simp: unify_structure_def label_of_def Let_def split: prod.splits)
  qed
qed

lemma unify_list_nonvar:
  assumes "store_ok st" "cell_ok st d1" "cell_get_tag d1 = TLis" "cell_ok st d2" "\<not> is_var d2" "\<not> ms_fail st"
  shows "unify_list E bnd (cell_val d1) d2 st = Some
    (if label_of E st d1 = label_of E st d2 then st\<lparr>ms_pdl := weave (kids st d1) (kids st d2) @ ms_pdl st\<rparr> else failed st)"
proof -
  have len: "cell_len (ms_heap st) \<le> 2 ^ 56" using assms(1) by (simp add: store_ok_def)
  have d1: "cell_val d1 + 2 \<le> 2 ^ 56" using assms(2,3) len by (auto simp: cell_ok_def args_ok_def)
  consider "cell_get_tag d2 = TLis" | "cell_get_tag d2 = TStr" | "cell_get_tag d2 \<in> {TAtom, TFixnum, TCutPoint, TF64Offset, TCons}"
    using cell_ok_tag [OF assms(4,5)] by blast
  then show ?thesis
  proof cases
    case 1
    then have "cell_val d2 + 2 \<le> 2 ^ 56" using assms(4) len by (auto simp: cell_ok_def args_ok_def)
    with 1 d1 assms(3) show ?thesis
      using push_args_weave [of "cell_val d1" 2 "cell_val d2" st] by (simp add: unify_list_def label_of_def kids_def)
  next
    case 2
    then have "functor_at st (cell_val d2) \<noteq> (dot_atom, 2)" using assms(4) by (simp add: cell_ok_def)
    with 2 assms(3) show ?thesis by (cases "functor_at st (cell_val d2)") (auto simp: unify_list_def label_of_def)
  next
    case 3
    with assms(3) number_labels [OF assms(4), of E] show ?thesis by (auto simp: unify_list_def label_of_def)
  qed
qed

lemma weave_Nil [simp]: "weave xs [] = []" "weave [] ys = []"
  by (cases xs; simp)+

lemma label_kids:
  assumes "label_of E st d1 = label_of E st d2" and "cell_ok st d1" "cell_ok st d2" "\<not> is_var d1" "\<not> is_var d2"
  shows "length (kids st d1) = length (kids st d2)"
  using assms(1) cell_ok_tag [OF assms(2,4)] cell_ok_tag [OF assms(3,5)]
    number_labels [OF assms(2), of E] number_labels [OF assms(3), of E]
  by (auto simp: label_of_def kids_def)

lemma unify_atom_nonvar:
  assumes "cell_ok st d1" "cell_get_tag d1 = TAtom" "cell_ok st d2" "\<not> is_var d2" "\<not> ms_fail st"
  shows "unify_atom bnd (atom_get_name d1) d2 st =
    Some (if label_of E st d1 = label_of E st d2 then st else failed st)"
proof -
  have "cell_get_tag d2 = TAtom \<Longrightarrow> atom_get_arity d2 = 0" using cell_ok_not_functor [OF assms(3)] by (simp add: is_functor_def)
  then show ?thesis
    using cell_ok_tag [OF assms(3,4)] assms(2,5) number_labels [OF assms(3), of E]
    by (auto simp: unify_atom_def bind_const_def label_of_def set_fail_def failed_def Let_def split: prod.splits)
qed

lemma number_view:
  assumes "cell_ok st d" and "\<not> is_var d"
  shows "case number_of_cell st d of
      Some (NFixnum n) \<Rightarrow> label_of E st d = LRat (of_int (get_num n))
    | Some (NInteger n) \<Rightarrow> label_of E st d = LRat (of_int n)
    | Some (NRational r) \<Rightarrow> label_of E st d = LRat r
    | Some (NFloat f) \<Rightarrow> cell_get_tag d = TF64Offset \<and> label_of E st d = LFloat {g. me_eq E f g}
    | None \<Rightarrow> \<exists>a n. label_of E st d = LFun a n"
  using cell_ok_tag [OF assms] number_labels [OF assms(1), of E]
  by (auto simp: number_of_cell_def label_of_def)

lemma unify_fixnum_nonvar:
  assumes "cell_get_tag d1 \<in> {TFixnum, TCutPoint}" "cell_ok st d2" "\<not> is_var d2"
  shows "unify_fixnum bnd d1 d2 st = Some (if label_of E st d1 = label_of E st d2 then st else failed st)"
proof -
  have "label_of E st d1 = LRat (of_int (get_num (cell_fixnum d1)))" using assms(1) by (auto simp: label_of_def)
  moreover have "as_var d2 = None" using assms(3) by (simp add: is_var_as_var)
  ultimately show ?thesis using number_view [OF assms(2,3), of E]
    by (auto simp: unify_fixnum_def Let_def split: option.splits Number.splits)
qed

lemma unify_f64_nonvar:
  assumes "eq_ok E" "cell_get_tag d1 = TF64Offset" "cell_ok st d2" "\<not> is_var d2" "\<not> ms_fail st"
  shows "unify_f64 E bnd (cell_val d1) d2 st = Some (if label_of E st d1 = label_of E st d2 then st else failed st)"
proof -
  have "label_of E st d1 = LFloat {g. me_eq E (ms_f64_tbl st (cell_val d1)) g}" using assms(2) by (simp add: label_of_def)
  moreover have "as_var d2 = None" using assms(4) by (simp add: is_var_as_var)
  moreover have "cell_get_tag d2 \<noteq> TF64Offset \<Longrightarrow> LFloat F \<noteq> label_of E st d2" for F
    using cell_ok_tag [OF assms(3,4)] number_labels [OF assms(3), of E] by (auto simp: label_of_def)
  moreover have "cell_get_tag d2 = TF64Offset \<Longrightarrow> label_of E st d2 = LFloat {g. me_eq E (ms_f64_tbl st (cell_val d2)) g}"
    by (simp add: label_of_def)
  ultimately show ?thesis using eq_ok_label [OF assms(1)] assms(5)
    by (auto simp: unify_f64_def set_fail_def failed_def)
qed

lemma unify_constant_nonvar:
  assumes "cell_ok st d1" "cell_get_tag d1 = TCons" "cell_ok st d2" "\<not> is_var d2"
  shows "unify_constant bnd d1 d2 st = Some (if label_of E st d1 = label_of E st d2 then st else failed st)"
proof (cases "cell_get_tag d2 = TCons \<and> cons_ptr_address d2 = cons_ptr_address d1")
  case True
  then have "label_of E st d1 = label_of E st d2" using assms(2) by (simp add: label_of_def)
  then show ?thesis using True assms(1,2) by (simp add: unify_constant_def cell_ok_def [of st d1])
next
  case False
  have "as_var d2 = None" using assms(4) by (simp add: is_var_as_var)
  then show ?thesis using False assms(1,2) number_view [OF assms(3,4), of E] number_labels [OF assms(1,2), of E]
    by (auto simp: unify_constant_def cell_ok_def [of st d1] unify_big_integer_def unify_big_rational_def Let_def
        split: option.splits Number.splits)
qed

text \<open>Two terms that are not variables: a clash, or their arguments are left to be unified.\<close>

lemma unify_pair_nonvar:
  assumes "eq_ok E" "store_ok st" "cell_ok st d1" "\<not> is_var d1" "cell_ok st d2" "\<not> is_var d2" "\<not> ms_fail st"
    and fresh: "\<not> (compound d1 \<and> (d1, d2) \<in> set t)"
  shows "unify_pair E bnd t d1 d2 st = Some
    (if label_of E st d1 = label_of E st d2
     then (if compound d1 then List.insert (d1, d2) t else t, st\<lparr>ms_pdl := weave (kids st d1) (kids st d2) @ ms_pdl st\<rparr>)
     else (t, failed st))"
proof -
  have nf: "\<not> ms_fail (st\<lparr>ms_pdl := p\<rparr>)" "ms_fail (failed st)" for p using assms(7) by (simp_all add: failed_def)
  have none: "\<not> compound d1 \<Longrightarrow> kids st d1 = []"
    using cell_ok_tag [OF assms(3,4)] by (auto simp: compound_def kids_def)
  have d2: "store (st\<lparr>ms_pdl := p\<rparr>) d2 = d2" for p by (rule store_not_var [OF assms(6)])
  show ?thesis
    using cell_ok_tag [OF assms(3,4)] fresh none nf d2
      unify_structure_nonvar [OF assms(2,3) _ assms(5,6,7), of bnd E] unify_list_nonvar [OF assms(2,3) _ assms(5,6,7), of E bnd]
      unify_atom_nonvar [OF assms(3) _ assms(5,6,7), of bnd E] unify_fixnum_nonvar [OF _ assms(5,6), of d1 bnd E]
      unify_f64_nonvar [OF assms(1) _ assms(5,6,7), of d1 bnd] unify_constant_nonvar [OF assms(3) _ assms(5,6), of bnd E]
    by (auto simp: unify_pair_def compound_def remember_def Let_def simp del: pdl_memory)
qed

lemma store_ok_deref: "store_ok st \<Longrightarrow> \<exists>r. deref st x = Some r"
  by (simp add: store_ok_def)

text \<open>A variable on either side is bound to the other.\<close>

lemma unify_pair_var_left:
  "as_var d1 = Some r \<Longrightarrow> unify_pair E bnd t d1 d2 st = map_option (Pair t) (bnd r d2 st)"
  by (auto simp: unify_pair_def as_var_def heap_cell_def stack_cell_def attr_var_def Let_def split: HeapCellValueTag.splits)

lemma unify_constant_var_right:
  assumes "cell_ok st d1" "cell_get_tag d1 = TCons" "as_var d2 = Some r"
  shows "unify_constant bnd d1 d2 st = bnd r d1 st"
proof -
  have "cell_get_tag d2 \<noteq> TCons" using assms(3) by (auto simp: as_var_def)
  moreover have "from_ptr_addr (cons_ptr_address d1) = d1" "PLAUSIBLE_MIN \<le> cons_ptr_address d1" "cons_ptr_address d1 mod 8 = 0"
    using assms(1,2) by (simp_all add: cell_ok_def)
  ultimately show ?thesis using number_labels [OF assms(1,2), of undefined] assms(3)
    by (auto simp: unify_constant_def unify_big_integer_def unify_big_rational_def Let_def)
qed

lemma unify_pair_var_right:
  assumes "cell_ok st d1" "\<not> is_var d1" "as_var d2 = Some r" "(d1, d2) \<notin> set t"
  shows "unify_pair E bnd t d1 d2 st =
    map_option (\<lambda>st'. (if compound d1 then remember t d1 d2 st' else t, st')) (bnd r d1 st)"
proof -
  have d2: "cell_get_tag d2 = TVar \<and> r = heap_cell (cell_val d2) \<or> cell_get_tag d2 = TAttrVar \<and> r = attr_var (cell_val d2) \<or>
      cell_get_tag d2 = TStackVar \<and> r = stack_cell (cell_val d2)"
    using assms(3) by (auto simp: as_var_def heap_cell_def stack_cell_def attr_var_def split: HeapCellValueTag.splits)
  show ?thesis
    using cell_ok_tag [OF assms(1,2)] assms(1,3,4) d2 unify_constant_var_right [OF assms(1) _ assms(3), of bnd]
    by (auto simp: unify_pair_def compound_def unify_structure_def unify_list_def unify_atom_def bind_const_def bind_loc_def
        unify_fixnum_def unify_f64_def cell_ok_def [of st d1] clean_def Let_def split: prod.splits)
qed

section \<open>Unification as a transition system\<close>

text \<open>
  A state is the list of remembered pairs and the machine state; the first two cells of the push-down
  list are taken and, if they do not have the same value already, one is bound, they clash, or their
  arguments take their place.
\<close>

inductive ustep :: "machine_env \<Rightarrow> tabu \<times> MachineState \<Rightarrow> tabu \<times> MachineState \<Rightarrow> bool" for E where
  skip: "ms_pdl st = x # y # rest \<Longrightarrow>
    look st x = look st y \<or> (look st x, look st y) \<in> set t \<Longrightarrow>
    ustep E (t, st) (t, st\<lparr>ms_pdl := rest\<rparr>)"
| bind: "ms_pdl st = x # y # rest \<Longrightarrow>
    c = look st x \<and> w = look st y \<or> c = look st y \<and> w = look st x \<Longrightarrow>
    writable st c w \<Longrightarrow> writes c w (st\<lparr>ms_pdl := rest\<rparr>) st' \<Longrightarrow>
    t' = t \<or> t' = List.insert (w, w) t \<and> \<not> is_var w \<Longrightarrow>
    ustep E (t, st) (t', st')"
| clash: "ms_pdl st = x # y # rest \<Longrightarrow>
    \<not> is_var (look st x) \<Longrightarrow> \<not> is_var (look st y) \<Longrightarrow> label_of E st (look st x) \<noteq> label_of E st (look st y) \<Longrightarrow>
    ustep E (t, st) (t, failed (st\<lparr>ms_pdl := rest\<rparr>))"
| descend: "ms_pdl st = x # y # rest \<Longrightarrow>
    \<not> is_var (look st x) \<Longrightarrow> \<not> is_var (look st y) \<Longrightarrow> label_of E st (look st x) = label_of E st (look st y) \<Longrightarrow>
    t' = t \<and> kids st (look st x) = [] \<or> (look st x, look st y) \<notin> set t \<and> t' = List.insert (look st x, look st y) t \<Longrightarrow>
    ustep E (t, st) (t', st\<lparr>ms_pdl := weave (kids st (look st x)) (kids st (look st y)) @ rest\<rparr>)"

definition search_ok :: "tabu \<Rightarrow> MachineState \<Rightarrow> bool" where
  "search_ok t st \<longleftrightarrow>
     store_ok st \<and> (\<forall>c\<in>set (ms_pdl st). cell_ok st c) \<and> even (length (ms_pdl st)) \<and>
     (\<forall>(a, b)\<in>set t. \<not> is_var a \<and> \<not> is_var b)"

context unifier
begin

lemma unify_pair_bind:
  assumes "store_ok st" "cell_ok st d1" "cell_ok st d2" "(d1, d2) \<notin> set t" "d1 \<noteq> d2" "\<not> ms_fail st"
    and "is_var d1 \<longrightarrow> unbound st d1" "is_var d2 \<longrightarrow> unbound st d2" "is_var d1 \<or> is_var d2"
  shows "\<exists>t' st' c w. unify_pair E bnd t d1 d2 st = Some (t', st') \<and> (c = d1 \<and> w = d2 \<or> c = d2 \<and> w = d1) \<and>
    writable st c w \<and> writes c w st st' \<and> (t' = t \<or> t' = List.insert (w, w) t \<and> \<not> is_var w)"
proof -
  have wf: "wf_heap (ms_heap st)" using assms(1) by (simp add: store_ok_def)
  have cl: "unbound st c \<Longrightarrow> clean c" for c using store_ok_clean [OF assms(1)] by (simp add: vars_clean_def)
  have "\<exists>st'. bnd r a st = Some st' \<and> (writes c a st st' \<and> writable st c a \<or> writes a c st st' \<and> writable st a c)"
    if "as_var c = Some r" "unbound st c" "c \<noteq> a" "is_var a \<longrightarrow> unbound st a" for c r a
    using bnd_writes [OF that(1,2) cl [OF that(2)] wf, of a] that cl unbound_is_var [of st] by (auto simp: writable_def)
  note bnd = this
  show ?thesis
  proof (cases "is_var d1")
    case True
    then obtain r where r: "as_var d1 = Some r" by (auto simp: is_var_as_var)
    then obtain st' where st': "bnd r d2 st = Some st'"
      "writes d1 d2 st st' \<and> writable st d1 d2 \<or> writes d2 d1 st st' \<and> writable st d2 d1"
      using bnd [OF r, of d2] True assms by auto
    then have "unify_pair E bnd t d1 d2 st = Some (t, st')" by (simp add: unify_pair_var_left [OF r])
    with st'(2) show ?thesis by blast
  next
    case False
    then obtain r where r: "as_var d2 = Some r" using assms(9) by (auto simp: is_var_as_var)
    then obtain st' where st': "bnd r d1 st = Some st'"
      "writes d2 d1 st st' \<and> writable st d2 d1 \<or> writes d1 d2 st st' \<and> writable st d1 d2"
      using bnd [OF r, of d1] False assms by auto
    then have w: "writes d2 d1 st st'" "writable st d2 d1" using False unbound_is_var by (auto simp: writable_def)
    then have "store st' d2 = d1" by (simp add: store_writes writable_def)
    moreover have "\<not> ms_fail st'" using w(1) assms(6) frame_eqD(9) [of st' st] by (simp add: writes_def)
    ultimately have "unify_pair E bnd t d1 d2 st = Some (if compound d1 then List.insert (d1, d1) t else t, st')"
      using unify_pair_var_right [OF assms(2) False r assms(4), of E bnd] st'(1) by (simp add: remember_def)
    with w False show ?thesis by (cases "compound d1") auto
  qed
qed

lemma unify_step_refines:
  assumes "eq_ok E" and ok: "search_ok t st" and "ms_pdl st \<noteq> []" and "\<not> ms_fail st"
  shows "\<exists>t' st'. unify_step E bnd t st = Some (t', st') \<and> ustep E (t, st) (t', st')"
proof -
  obtain x y rest where p: "ms_pdl st = x # y # rest"
    using assms(3) ok by (cases "ms_pdl st" rule: pairs.cases) (auto simp: search_ok_def)
  let ?st = "st\<lparr>ms_pdl := rest\<rparr>"
  have so: "store_ok st" "cell_ok st x" "cell_ok st y" using ok p by (auto simp: search_ok_def)
  obtain s1 s2 where s: "deref st x = Some s1" "deref st y = Some s2" using store_ok_deref [OF so(1)] by blast
  let ?d1 = "look st x"
  let ?d2 = "look st y"
  have step: "unify_step E bnd t st = (if s1 \<noteq> s2 then unify_pair E bnd t ?d1 ?d2 ?st else Some (t, ?st))"
    using s by (simp add: unify_step_def p look_def)
  have d: "cell_ok ?st ?d1" "cell_ok ?st ?d2" "store_ok ?st" "\<not> ms_fail ?st" using so look_ok assms(4) by simp_all
  have nv: "is_var ?d1 \<longrightarrow> unbound ?st ?d1" "is_var ?d2 \<longrightarrow> unbound ?st ?d2" using look_var_ok [OF so(1)] by simp_all
  consider "s1 = s2" | "s1 \<noteq> s2" "\<not> is_var ?d1" "\<not> is_var ?d2" | "s1 \<noteq> s2" "is_var ?d1 \<or> is_var ?d2" by blast
  then show ?thesis
  proof cases
    case 1
    then show ?thesis using step s ustep.skip [OF p, of t] by (simp add: look_def)
  next
    case 2
    show ?thesis
    proof (cases "compound ?d1 \<and> (?d1, ?d2) \<in> set t")
      case True
      show ?thesis
      proof (cases "cell_get_tag ?d1 = TLis \<and> \<not> is_ref ?d2")
        case False
        then have "unify_pair E bnd t ?d1 ?d2 ?st = Some (t, ?st)"
          using True by (auto simp: unify_pair_def compound_def Let_def)
        then show ?thesis using 2 step True ustep.skip [OF p, of t] by simp
      next
        case list: True
        then have "label_of E st ?d1 \<noteq> label_of E st ?d2"
          using cell_ok_tag [OF d(2) 2(3)] number_labels [of st ?d2 E] d(2) cell_ok_not_functor [OF d(2)]
          by (auto simp: is_ref_def label_of_def)
        moreover have "unify_list E bnd (cell_val ?d1) ?d2 ?st = Some (failed ?st)"
          using unify_list_nonvar [OF d(3,1) _ d(2) 2(3) d(4), of E bnd] list calculation by simp
        ultimately show ?thesis using 2 step list ustep.clash [OF p 2(2,3), of E t]
          by (auto simp: unify_pair_def remember_def failed_def Let_def)
      qed
    next
      case False
      show ?thesis
      proof (cases "label_of E st ?d1 = label_of E st ?d2")
        case True
        let ?t = "if compound ?d1 then List.insert (?d1, ?d2) t else t"
        have "unify_step E bnd t st = Some (?t, st\<lparr>ms_pdl := weave (kids st ?d1) (kids st ?d2) @ rest\<rparr>)"
          using step 2 True unify_pair_nonvar [OF assms(1) d(3,1) 2(2) d(2) 2(3) d(4) False] by simp
        moreover have "?t = t \<and> kids st ?d1 = [] \<or> (?d1, ?d2) \<notin> set t \<and> ?t = List.insert (?d1, ?d2) t"
          using False cell_ok_tag [OF d(1) 2(2)] by (auto simp: compound_def kids_def)
        ultimately show ?thesis using ustep.descend [OF p 2(2,3) True] by blast
      next
        case clash: False
        have "unify_step E bnd t st = Some (t, failed ?st)"
          using step 2 clash unify_pair_nonvar [OF assms(1) d(3,1) 2(2) d(2) 2(3) d(4) False] by simp
        then show ?thesis using ustep.clash [OF p 2(2,3) clash] by blast
      qed
    qed
  next
    case 3
    have ne: "?d1 \<noteq> ?d2"
      using 3 s deref_var(1) [OF s(1)] deref_var(1) [OF s(2)] by (auto simp: look_def)
    have "(?d1, ?d2) \<notin> set t" using 3(2) ok by (auto simp: search_ok_def)
    then obtain t' st' c w where r: "unify_pair E bnd t ?d1 ?d2 ?st = Some (t', st')"
      "c = ?d1 \<and> w = ?d2 \<or> c = ?d2 \<and> w = ?d1" "writable ?st c w" "writes c w ?st st'"
      "t' = t \<or> t' = List.insert (w, w) t \<and> \<not> is_var w"
      using unify_pair_bind [OF d(3,1,2) _ ne d(4) nv 3(2)] by blast
    have "writable st c w" using r(3) by (simp add: writable_def)
    then show ?thesis using step 3(1) r ustep.bind [OF p r(2) _ r(4,5)] by auto
  qed
qed

end

end
