(* ===== verification/UnifySearch.thy ===== *)
theory UnifySearch
  imports UnifyTerms
begin

text \<open>
  The search for a unifier keeps its invariants: the store stays well-formed, an assignment of trees that
  solves the pairs on the push-down list solves what is left of them, at the end the pairs that have been
  seen are a bisimulation, and every step makes a measure of variables, remembered pairs and pending cells
  smaller.
\<close>

section \<open>Trees and bindings\<close>

lemma tree_eqI [consumes 1, case_names step]:
  assumes "R a b" and "\<And>a b. R a b \<Longrightarrow> a = b \<or> root a = root b \<and> list_all2 R (subtrees a) (subtrees b)"
  shows "a = b"
  using assms(1)
proof (coinduction arbitrary: a b rule: rtree.coinduct_strong)
  case (Eq_rtree a b)
  from assms(2) [OF this] show ?case
  proof
    assume "a = b"
    then show ?thesis by (simp add: list.rel_refl_strong)
  qed (auto elim: list_all2_mono)
qed

text \<open>It is enough to relate the cells: the trees of related cells are equal or have related arguments.\<close>

lemma tree_of_eqI:
  assumes "R x y"
    and "\<And>x y. R x y \<Longrightarrow> tree_of s E st x = tree_of s' E st' y \<or>
      (\<exists>l xs ys. tree_of s E st x = Node l (map (tree_of s E st) xs) \<and> tree_of s' E st' y = Node l (map (tree_of s' E st') ys) \<and>
        list_all2 R xs ys)"
  shows "tree_of s E st x = tree_of s' E st' y"
proof (rule tree_eqI [where R = "\<lambda>a b. \<exists>x y. R x y \<and> a = tree_of s E st x \<and> b = tree_of s' E st' y"])
  show "\<exists>x' y'. R x' y' \<and> tree_of s E st x = tree_of s E st x' \<and> tree_of s' E st' y = tree_of s' E st' y'" using assms(1) by blast
next
  fix a b
  assume "\<exists>x y. R x y \<and> a = tree_of s E st x \<and> b = tree_of s' E st' y"
  then obtain x y where xy: "R x y" "a = tree_of s E st x" "b = tree_of s' E st' y" by blast
  from assms(2) [OF xy(1)]
  show "a = b \<or> root a = root b \<and> list_all2 (\<lambda>a b. \<exists>x y. R x y \<and> a = tree_of s E st x \<and> b = tree_of s' E st' y) (subtrees a) (subtrees b)"
  proof (elim disjE exE conjE)
    fix l xs ys
    assume t: "tree_of s E st x = Node l (map (tree_of s E st) xs)" "tree_of s' E st' y = Node l (map (tree_of s' E st') ys)"
      and r: "list_all2 R xs ys"
    from r have "list_all2 (\<lambda>a b. \<exists>x y. R x y \<and> a = tree_of s E st x \<and> b = tree_of s' E st' y)
        (map (tree_of s E st) xs) (map (tree_of s' E st') ys)"
      unfolding list_all2_map1 list_all2_map2 by (rule list_all2_mono) blast
    then show ?thesis using xy t by simp
  qed (use xy in simp)
qed

lemma list_all2_diag: "(\<forall>x\<in>set xs. P x) \<Longrightarrow> list_all2 (\<lambda>x y. x = y \<and> P x) xs xs"
  by (rule list.rel_refl_strong) simp

lemma tree_of_var: "is_var (look st c) \<Longrightarrow> tree_of s E st c = s (look st c)"
  by (subst tree_of.code) simp

lemma tree_of_node: "\<not> is_var (look st c) \<Longrightarrow>
    tree_of s E st c = Node (label_of E st (look st c)) (map (tree_of s E st) (kids st (look st c)))"
  by (subst tree_of.code) simp

lemma tree_of_look: "look st x = look st y \<Longrightarrow> tree_of s E st x = tree_of s E st y"
  by (cases "is_var (look st y)") (simp_all add: tree_of_var tree_of_node)

lemma tree_of_quiet:
  assumes "quiet st st'"
  shows "tree_of s E st' x = tree_of s E st x"
proof (rule tree_of_eqI [where R = "\<lambda>x y. x = y \<and> True"])
  fix x y :: HeapCellValue
  assume "x = y \<and> True"
  then show "tree_of s E st' x = tree_of s E st y \<or> (\<exists>l xs ys. tree_of s E st' x = Node l (map (tree_of s E st') xs) \<and>
      tree_of s E st y = Node l (map (tree_of s E st) ys) \<and> list_all2 (\<lambda>x y. x = y \<and> True) xs ys)"
    using list_all2_diag [of _ "\<lambda>_. True"] quiet_memory [OF assms]
    by (cases "is_var (look st x)") (auto simp: tree_of_var tree_of_node)
qed simp

lemma look_look: "store_ok st \<Longrightarrow> look st (look st x) = look st x"
  using look_var_ok [of st x] by (cases "is_var (look st x)") (auto simp: look_unbound look_not_var)

text \<open>Binding a variable to a cell with the tree assigned to it changes no tree.\<close>

lemma tree_of_writes:
  assumes ok: "store_ok st" and w: "writes c w st st'" "writable st c w" "cell_ok st w"
    and s: "s c = tree_of s E st w" and "cell_ok st x"
  shows "tree_of s E st' x = tree_of s E st x"
proof (rule tree_of_eqI [where R = "\<lambda>x y. x = y \<and> cell_ok st x"])
  fix x y
  assume "x = y \<and> cell_ok st x"
  then have xy: "y = x" "cell_ok st x" by auto
  have c: "unbound st c" "\<not> is_functor w" using w by (auto simp: writable_def cell_ok_not_functor)
  have lk: "look st' x = (if look st x = c then w else look st x)"
    using look_writes(2) [OF w(1,2)] ok by (simp add: store_ok_def)
  have ww: "look st w = w" using w(2) by (cases "is_var w") (auto simp: writable_def look_unbound look_not_var)
  have d: "cell_ok st (look st' x)" "look st (look st' x) = look st' x"
    using lk look_ok [OF ok xy(2)] look_look [OF ok] w(3) ww by auto
  have b: "tree_of s E st x = tree_of s E st (look st' x)"
    using lk s tree_of_var [of st x s E] unbound_is_var [OF c(1)] tree_of_look [OF look_look [OF ok, symmetric], of s E x]
    by (cases "look st x = c") simp_all
  show "tree_of s E st' x = tree_of s E st y \<or> (\<exists>l xs ys. tree_of s E st' x = Node l (map (tree_of s E st') xs) \<and>
      tree_of s E st y = Node l (map (tree_of s E st) ys) \<and> list_all2 (\<lambda>x y. x = y \<and> cell_ok st x) xs ys)"
  proof (cases "is_var (look st' x)")
    case True
    then show ?thesis unfolding xy(1) b using d(2) by (simp add: tree_of_var)
  next
    case False
    have "list_all2 (\<lambda>x y. x = y \<and> cell_ok st x) (kids st (look st' x)) (kids st (look st' x))"
      using kids_ok [OF ok d(1)] by (intro list_all2_diag) blast
    then show ?thesis
      unfolding xy(1) b using False d(2) writes_cell_ok(2,3) [OF w(1) c d(1) False]
      by (simp add: tree_of_node) blast
  qed
qed (use assms(6) in simp)

section \<open>Extensions of a store\<close>

definition extends :: "machine_env \<Rightarrow> MachineState \<Rightarrow> MachineState \<Rightarrow> bool" where
  "extends E st0 st \<longleftrightarrow>
     (\<forall>x. cell_ok st0 x \<longrightarrow> cell_ok st x) \<and>
     (\<forall>x. look st x = look st (look st0 x)) \<and>
     (\<forall>d. cell_ok st0 d \<and> \<not> is_var d \<longrightarrow> label_of E st d = label_of E st0 d \<and> kids st d = kids st0 d)"

lemma extends_refl: "store_ok st \<Longrightarrow> extends E st st"
  by (simp add: extends_def look_look)

lemma extends_quiet: "extends E st0 st \<Longrightarrow> quiet st st' \<Longrightarrow> extends E st0 st'"
  by (simp add: extends_def quiet_memory)

lemma extends_writes:
  assumes "extends E st0 st" and ok: "store_ok st" and w: "writes c w st st'" "writable st c w" "cell_ok st w"
  shows "extends E st0 st'"
proof -
  have c: "unbound st c" "\<not> is_functor w" using w by (auto simp: writable_def cell_ok_not_functor)
  have lk: "look st' x = (if look st x = c then w else look st x)" for x
    using look_writes(2) [OF w(1,2)] ok by (simp add: store_ok_def)
  show ?thesis
    unfolding extends_def lk
    using assms(1) writes_cell_ok [OF w(1) c] by (auto simp: extends_def)
qed

text \<open>The trees of the old store are those of the new one for the assignments the bindings allow.\<close>

lemma tree_of_extends:
  assumes ok: "store_ok st0" and ext: "extends E st0 st" and s: "\<forall>c. unbound st0 c \<longrightarrow> s c = tree_of s E st c" and "cell_ok st0 x"
  shows "tree_of s E st0 x = tree_of s E st x"
proof (rule tree_of_eqI [where R = "\<lambda>x y. x = y \<and> cell_ok st0 x"])
  fix x y
  assume "x = y \<and> cell_ok st0 x"
  then have xy: "y = x" "cell_ok st0 x" by auto
  have lk: "look st x = look st (look st0 x)" using ext by (simp add: extends_def)
  show "tree_of s E st0 x = tree_of s E st y \<or> (\<exists>l xs ys. tree_of s E st0 x = Node l (map (tree_of s E st0) xs) \<and>
      tree_of s E st y = Node l (map (tree_of s E st) ys) \<and> list_all2 (\<lambda>x y. x = y \<and> cell_ok st0 x) xs ys)"
  proof (cases "is_var (look st0 x)")
    case True
    then have "s (look st0 x) = tree_of s E st (look st0 x)" using s look_var_ok [OF ok] by blast
    then show ?thesis using True xy(1) tree_of_look [OF lk, of s E] by (simp add: tree_of_var [of st0])
  next
    case False
    have d: "cell_ok st0 (look st0 x)" by (rule look_ok [OF ok xy(2)])
    then have same: "look st x = look st0 x" "label_of E st (look st0 x) = label_of E st0 (look st0 x)"
      "kids st (look st0 x) = kids st0 (look st0 x)"
      using lk look_not_var [OF False] ext False by (auto simp: extends_def)
    have "list_all2 (\<lambda>x y. x = y \<and> cell_ok st0 x) (kids st0 (look st0 x)) (kids st0 (look st0 x))"
      using kids_ok [OF ok d] by (intro list_all2_diag) blast
    then show ?thesis using False xy(1) same by (simp add: tree_of_node) blast
  qed
qed (use assms(4) in simp)

section \<open>Invariants of the search\<close>

inductive_cases ustepE [consumes 1, case_names skip bind clash descend]: "ustep E (t, st) (t', st')"

lemma bind_facts:
  assumes ok: "search_ok t st" and p: "ms_pdl st = x # y # rest"
    and cw: "c = look st x \<and> w = look st y \<or> c = look st y \<and> w = look st x"
    and w: "writable st c w" "writes c w (st\<lparr>ms_pdl := rest\<rparr>) st'"
  shows "writable (st\<lparr>ms_pdl := rest\<rparr>) c w" "cell_ok (st\<lparr>ms_pdl := rest\<rparr>) w" "store_ok (st\<lparr>ms_pdl := rest\<rparr>)"
    "ms_pdl st' = rest" "ms_fail st' = ms_fail st" "unbound (st\<lparr>ms_pdl := rest\<rparr>) c" "\<not> is_functor w"
proof -
  have xy: "store_ok st" "cell_ok st x" "cell_ok st y" using ok p by (auto simp: search_ok_def)
  show "writable (st\<lparr>ms_pdl := rest\<rparr>) c w" "unbound (st\<lparr>ms_pdl := rest\<rparr>) c" using w(1) by (simp_all add: writable_def)
  have "cell_ok st w" using cw look_ok [OF xy(1)] xy by blast
  then show "cell_ok (st\<lparr>ms_pdl := rest\<rparr>) w" "\<not> is_functor w" by (simp_all add: cell_ok_not_functor)
  show "store_ok (st\<lparr>ms_pdl := rest\<rparr>)" using xy by simp
  have "frame st' = frame (st\<lparr>ms_pdl := rest\<rparr>)" using w(2) by (simp add: writes_def)
  from frame_eqD(8,9) [OF this] show "ms_pdl st' = rest" "ms_fail st' = ms_fail st" by simp_all
qed

lemma ustep_search_ok:
  assumes "ustep E (t, st) (t', st')" and ok: "search_ok t st"
  shows "search_ok t' st'"
  using assms(1)
proof (cases rule: ustepE)
  case (skip x y rest)
  then show ?thesis using ok by (auto simp: search_ok_def)
next
  case (bind x y rest c w)
  note b = bind_facts [OF ok bind(1-4)]
  have "store_ok st'" by (rule writes_store_ok [OF b(3) bind(4) b(1,2)])
  moreover have "cell_ok st' d" if "d \<in> set rest" for d
    using writes_cell_ok(1) [OF bind(4) b(6,7), of d] ok bind(1) that by (simp add: search_ok_def)
  ultimately show ?thesis using ok bind(1,5) b(4) by (auto simp: search_ok_def)
next
  case (clash x y rest)
  then show ?thesis using ok by (auto simp: search_ok_def failed_def quiet_memory [OF quiet_update(1), unfolded failed_def])
next
  case (descend x y rest)
  have xy: "store_ok st" "cell_ok st (look st x)" "cell_ok st (look st y)"
    using ok descend(2) look_ok by (auto simp: search_ok_def)
  have "cell_ok st d" if "d \<in> set (weave (kids st (look st x)) (kids st (look st y)) @ rest)" for d
    using that set_weave [of "kids st (look st x)" "kids st (look st y)"] kids_ok [OF xy(1,2)] kids_ok [OF xy(1,3)] ok descend(2)
    by (auto simp: search_ok_def)
  then show ?thesis using ok descend even_weave [of "kids st (look st x)" "kids st (look st y)" rest]
    by (auto simp: search_ok_def)
qed

lemma ustep_extends:
  assumes "ustep E (t, st) (t', st')" and ok: "search_ok t st" and ext: "extends E st0 st"
  shows "extends E st0 st'"
  using assms(1)
proof (cases rule: ustepE)
  case (bind x y rest c w)
  note b = bind_facts [OF ok bind(1-4)]
  show ?thesis by (rule extends_writes [OF extends_quiet [OF ext quiet_update(3)] b(3) bind(4) b(1,2)])
qed (use extends_quiet [OF ext] quiet_update quiet_trans [OF quiet_update(3) quiet_update(1)] in auto)

text \<open>
  Completeness: an assignment that makes the trees of all pairs equal keeps doing so, for all cells the
  trees stay as they are, and it excludes a clash.
\<close>

definition solves :: "(HeapCellValue \<Rightarrow> rtree) \<Rightarrow> machine_env \<Rightarrow> MachineState \<Rightarrow> (HeapCellValue \<times> HeapCellValue) list \<Rightarrow> bool" where
  "solves s E st ps \<longleftrightarrow> (\<forall>(x, y)\<in>set ps. tree_of s E st x = tree_of s E st y)"

lemma solves_Cons [simp]: "solves s E st ((x, y) # ps) \<longleftrightarrow> tree_of s E st x = tree_of s E st y \<and> solves s E st ps"
  by (simp add: solves_def)

lemma tree_of_looked: "store_ok st \<Longrightarrow> tree_of s E st (look st x) = tree_of s E st x"
  by (rule tree_of_look) (rule look_look)

lemma solves_zip: "solves s E st (zip xs ys) \<longleftrightarrow> (\<forall>i<min (length xs) (length ys). tree_of s E st (xs ! i) = tree_of s E st (ys ! i))"
  by (auto simp: solves_def set_zip)

lemma ustep_solves:
  assumes "ustep E (t, st) (t', st')" and ok: "search_ok t st" and s: "solves s E st (pairs (ms_pdl st))" and "\<not> ms_fail st"
  shows "\<not> ms_fail st' \<and> solves s E st' (pairs (ms_pdl st')) \<and> (\<forall>x. cell_ok st x \<longrightarrow> tree_of s E st' x = tree_of s E st x)"
  using assms(1)
proof (cases rule: ustepE)
  case (skip x y rest)
  then show ?thesis using s assms(4) by (simp add: tree_of_quiet [OF quiet_update(3)] solves_def)
next
  case (bind x y rest c w)
  note b = bind_facts [OF ok bind(1-4)]
  have so: "store_ok st" using ok by (simp add: search_ok_def)
  have "tree_of s E st c = tree_of s E st w" using bind(2) s bind(1) tree_of_looked [OF so, of s E] by auto
  moreover have "tree_of s E st c = s c"
    using bind(3) tree_of_var [of st c s E] by (auto simp: writable_def look_unbound unbound_is_var)
  ultimately have "s c = tree_of s E (st\<lparr>ms_pdl := rest\<rparr>) w" by (simp add: tree_of_quiet [OF quiet_update(3)])
  then have tr: "tree_of s E st' z = tree_of s E st z" if "cell_ok st z" for z
    using tree_of_writes [OF b(3) bind(4) b(1,2), of s E z] that by (simp add: tree_of_quiet [OF quiet_update(3)])
  have "\<forall>(x, y)\<in>set (pairs rest). cell_ok st x \<and> cell_ok st y"
  proof -
    have "set (pairs l) \<subseteq> set l \<times> set l" for l :: "HeapCellValue list" by (induction l rule: pairs.induct) auto
    then show ?thesis using ok bind(1) by (fastforce simp: search_ok_def)
  qed
  then have "solves s E st' (pairs rest)" using s bind(1) tr by (fastforce simp: solves_def)
  then show ?thesis using tr b assms(4) by simp
next
  case (clash x y rest)
  have so: "store_ok st" using ok by (simp add: search_ok_def)
  have "tree_of s E st x = tree_of s E st y" using s clash by simp
  then show ?thesis using clash by (simp add: tree_of_node)
next
  case (descend x y rest)
  have "map (tree_of s E st) (kids st (look st x)) = map (tree_of s E st) (kids st (look st y))"
    using s descend by (simp add: tree_of_node)
  then have "solves s E st (zip (kids st (look st x)) (kids st (look st y)))"
    unfolding solves_zip by (metis length_map min_less_iff_conj nth_map)
  then show ?thesis using s descend assms(4) by (auto simp: pairs_weave solves_def tree_of_quiet [OF quiet_update(3)])
qed

section \<open>Soundness\<close>

text \<open>
  All pairs seen so far are pending, or have the same value, or are terms with the same functor whose
  arguments have been seen: at the end, where nothing is pending, this makes their trees equal.
\<close>

definition matched :: "machine_env \<Rightarrow> MachineState \<Rightarrow> (HeapCellValue \<times> HeapCellValue) set \<Rightarrow> HeapCellValue \<Rightarrow> HeapCellValue \<Rightarrow> bool" where
  "matched E st D a b \<longleftrightarrow> a = b \<or>
     cell_ok st a \<and> cell_ok st b \<and> \<not> is_var a \<and> \<not> is_var b \<and> label_of E st a = label_of E st b \<and> set (zip (kids st a) (kids st b)) \<subseteq> D"

definition seen :: "machine_env \<Rightarrow> (HeapCellValue \<times> HeapCellValue) set \<Rightarrow> tabu \<Rightarrow> MachineState \<Rightarrow> bool" where
  "seen E D t st \<longleftrightarrow> set (pairs (ms_pdl st)) \<subseteq> D \<and>
     (\<forall>(x, y)\<in>D. (x, y) \<in> set (pairs (ms_pdl st)) \<or> matched E st D (look st x) (look st y)) \<and>
     (\<forall>(a, b)\<in>set t. matched E st D a b)"

lemma matched_mono: "matched E st D a b \<Longrightarrow> D \<subseteq> D' \<Longrightarrow> matched E st D' a b"
  by (auto simp: matched_def)

lemma matched_quiet: "quiet st st' \<Longrightarrow> matched E st' D a b = matched E st D a b"
  by (simp add: matched_def quiet_memory)

lemma matched_writes:
  assumes "writes c w st st'" "unbound st c" "\<not> is_functor w" and "matched E st D a b"
  shows "matched E st' D (if a = c then w else a) (if b = c then w else b)"
  using assms(4) writes_cell_ok [OF assms(1-3)] unbound_is_var [OF assms(2)] by (auto simp: matched_def)

lemma ustep_seen:
  assumes "ustep E (t, st) (t', st')" and ok: "search_ok t st" and sn: "seen E D t st" and "\<not> ms_fail st'"
  shows "\<exists>D'. D \<subseteq> D' \<and> seen E D' t' st'"
  using assms(1)
proof (cases rule: ustepE)
  case (skip x y rest)
  have "matched E st D (look st x) (look st y)" using skip(2) sn by (auto simp: seen_def matched_def)
  then have "seen E D t st'" using sn skip by (auto simp: seen_def matched_quiet [OF quiet_update(3)])
  then show ?thesis using skip by blast
next
  case (bind x y rest c w)
  note b = bind_facts [OF ok bind(1-4)]
  let ?st = "st\<lparr>ms_pdl := rest\<rparr>"
  have lk: "look st' z = (if look st z = c then w else look st z)" for z
    using look_writes(2) [OF bind(4) b(1)] b(3) by (simp add: store_ok_def)
  have mv: "matched E st D (look st z) (look st z') \<Longrightarrow> matched E st' D (look st' z) (look st' z')" for z z'
    using matched_writes [OF bind(4) b(6,7)] lk by (simp add: matched_quiet [OF quiet_update(3)])
  have "matched E st' D a b'" if "(a, b') \<in> set t'" for a b'
  proof (cases "(a, b') \<in> set t")
    case True
    then have "\<not> is_var a" "\<not> is_var b'" "matched E st D a b'" using ok sn by (auto simp: search_ok_def seen_def)
    then have ne: "a \<noteq> c" "b' \<noteq> c" and m: "matched E st D a b'" using unbound_is_var [OF b(6)] by auto
    then show ?thesis
      using matched_writes [OF bind(4) b(6,7), of E D a b'] by (simp add: matched_quiet [OF quiet_update(3)])
  next
    case False
    then show ?thesis using that bind(5) by (auto simp: matched_def)
  qed
  moreover have "matched E st' D (look st' x) (look st' y)" using bind(2) lk by (auto simp: matched_def)
  ultimately have "seen E D t' st'" using sn bind(1) b(4) mv by (auto simp: seen_def)
  then show ?thesis by blast
next
  case (clash x y rest)
  then show ?thesis using assms(4) by (simp add: failed_def)
next
  case (descend x y rest)
  let ?k = "set (zip (kids st (look st x)) (kids st (look st y)))"
  let ?D = "D \<union> ?k"
  have xy: "cell_ok st (look st x)" "cell_ok st (look st y)"
    using ok descend(2) look_ok by (auto simp: search_ok_def)
  then have m: "matched E st ?D (look st x) (look st y)" using descend by (auto simp: matched_def)
  have tm: "matched E st ?D a b" if "(a, b) \<in> set t'" for a b
  proof -
    have "matched E st D a b" if "(a, b) \<in> set t" using that sn by (auto simp: seen_def)
    then show ?thesis using that descend(6) m matched_mono [of E st D a b ?D] by auto
  qed
  have dm: "(a, b) \<in> set (pairs rest) \<or> matched E st ?D (look st a) (look st b)" if "(a, b) \<in> D" for a b
    using that sn descend(2) m matched_mono [of E st D "look st a" "look st b" ?D] by (auto simp: seen_def)
  have "seen E ?D t' st'"
    unfolding seen_def descend(1) using sn descend(2) tm dm
    by (auto simp: seen_def pairs_weave matched_quiet [OF quiet_update(3)])
  then show ?thesis by blast
qed

lemma seen_equal:
  assumes "seen E D t st" and "ms_pdl st = []" and "store_ok st" and "(x, y) \<in> D"
  shows "tree_of s E st x = tree_of s E st y"
proof (rule tree_of_eqI [where R = "\<lambda>x y. (x, y) \<in> D"])
  fix x y
  assume "(x, y) \<in> D"
  then have m: "matched E st D (look st x) (look st y)" using assms(1,2) by (auto simp: seen_def)
  show "tree_of s E st x = tree_of s E st y \<or> (\<exists>l xs ys. tree_of s E st x = Node l (map (tree_of s E st) xs) \<and>
      tree_of s E st y = Node l (map (tree_of s E st) ys) \<and> list_all2 (\<lambda>x y. (x, y) \<in> D) xs ys)"
  proof (cases "look st x = look st y")
    case True
    then show ?thesis using tree_of_look by blast
  next
    case False
    then have n: "\<not> is_var (look st x)" "\<not> is_var (look st y)" "label_of E st (look st x) = label_of E st (look st y)"
      "cell_ok st (look st x)" "cell_ok st (look st y)" "set (zip (kids st (look st x)) (kids st (look st y))) \<subseteq> D"
      using m by (auto simp: matched_def)
    have "list_all2 (\<lambda>x y. (x, y) \<in> D) (kids st (look st x)) (kids st (look st y))"
      using label_kids [OF n(3-5) n(1,2)] n(6) by (auto simp: list_all2_iff)
    then show ?thesis using tree_of_node [OF n(1)] tree_of_node [OF n(2)] n(3) by metis
  qed
qed (rule assms(4))

section \<open>Termination\<close>

definition unbound_locs :: "MachineState \<Rightarrow> loc set" where
  "unbound_locs st = {l. valid_loc st l \<and> loc_of (rd st l) = Some l}"

definition in_universe :: "HeapCellValue set \<Rightarrow> MachineState \<Rightarrow> bool" where
  "in_universe V st \<longleftrightarrow> (\<forall>l. valid_loc st l \<longrightarrow> rd st l \<in> V) \<and> (\<forall>c\<in>set (ms_pdl st). is_var c \<or> c \<in> V)"

lemma finite_valid: "finite {l. valid_loc st l}"
proof -
  have "{l. valid_loc st l} \<subseteq> HLoc ` {..<cell_len (ms_heap st)} \<union> SLoc ` {..8 * length (ms_stack st)}"
  proof
    fix l
    assume "l \<in> {l. valid_loc st l}"
    then show "l \<in> HLoc ` {..<cell_len (ms_heap st)} \<union> SLoc ` {..8 * length (ms_stack st)}"
      by (cases l) auto
  qed
  then show ?thesis by (rule finite_subset) simp
qed

lemma finite_unbound_locs: "finite (unbound_locs st)"
  by (rule finite_subset [OF _ finite_valid]) (auto simp: unbound_locs_def)

lemma writes_unbound_locs:
  assumes "writes c w st st'" and "writable st c w" and "wf_heap (ms_heap st)"
  shows "card (unbound_locs st') < card (unbound_locs st)"
proof -
  obtain l where l: "loc_of c = Some l" "rd st l = c" using assms(2) by (auto simp: writable_def unbound_def)
  have w: "loc_of w \<noteq> Some l" using assms(2) l by (auto simp: writable_def unbound_def is_var_loc)
  have fr: "frame st' = frame st" using assms(1) by (simp add: writes_def)
  have "valid_loc st l" using unbound_valid [OF _ assms(3) l(1)] assms(2) by (simp add: writable_def)
  then have "l \<in> unbound_locs st" using l by (simp add: unbound_locs_def)
  moreover have "unbound_locs st' \<subseteq> unbound_locs st - {l}"
    using assms(1) l w by (auto simp: unbound_locs_def writes_def frame_valid_loc [OF fr] split: if_splits)
  ultimately show ?thesis using psubset_card_mono [OF finite_unbound_locs, of "unbound_locs st'" st] by blast
qed

lemma look_in_universe:
  assumes "store_ok st" and "in_universe V st" and "cell_ok st x" and "is_var x \<or> x \<in> V"
  shows "look st x \<in> V"
proof (cases "is_var x")
  case False
  then show ?thesis using assms(4) by (simp add: look_not_var)
next
  case True
  obtain r where r: "deref st x = Some r" using store_ok_deref [OF assms(1)] by blast
  have step: "store st c \<in> V \<and> cell_ok st (store st c)" if c: "cell_ok st c" "is_var c" for c
  proof -
    obtain l where l: "loc_of c = Some l" using c by (auto simp: is_var_loc)
    then have "valid_loc st l" using c by (simp add: cell_ok_var [OF l])
    then show ?thesis using store_ok_cell [OF assms(1) c(1) l] assms(2) l by (simp add: store_eq in_universe_def)
  qed
  from r have "cell_ok st x \<and> is_var x \<longrightarrow> store st r \<in> V"
    by (induction rule: deref_induct) (auto dest: step)
  then show ?thesis using True assms(3) r by (simp add: look_def)
qed

definition remaining :: "HeapCellValue set \<Rightarrow> tabu \<times> MachineState \<Rightarrow> nat \<times> nat \<times> nat" where
  "remaining V = (\<lambda>(t, st). (card (unbound_locs st), card (V \<times> V - set t), length (ms_pdl st)))"

lemma quiet_unbound_locs: "quiet st st' \<Longrightarrow> unbound_locs st' = unbound_locs st"
  using quiet_same [of st st'] bounds_valid_loc [of st' st] by (auto simp: unbound_locs_def)

lemma quiet_valid_loc: "quiet st st' \<Longrightarrow> valid_loc st' l = valid_loc st l"
  using quiet_same [of st st'] bounds_valid_loc [of st' st] by blast

lemma ustep_decreases:
  assumes "ustep E (t, st) (t', st')" and ok: "search_ok t st" and V: "in_universe V st" "finite V"
  shows "(remaining V (t', st'), remaining V (t, st)) \<in> less_than <*lex*> less_than <*lex*> less_than"
    and "in_universe V st'"
proof -
  have so: "store_ok st" using ok by (simp add: search_ok_def)
  have lk: "look st c \<in> V" if "c \<in> set (ms_pdl st)" for c
    using look_in_universe [OF so V(1), of c] that ok V(1) by (auto simp: search_ok_def in_universe_def)
  have "(remaining V (t', st'), remaining V (t, st)) \<in> less_than <*lex*> less_than <*lex*> less_than \<and> in_universe V st'"
    using assms(1)
  proof (cases rule: ustepE)
    case (skip x y rest)
    then show ?thesis using V(1)
      by (auto simp: remaining_def quiet_unbound_locs [OF quiet_update(3)] in_universe_def quiet_valid_loc [OF quiet_update(3)])
  next
    case (bind x y rest c w)
    note b = bind_facts [OF ok bind(1-4)]
    have fr: "frame st' = frame (st\<lparr>ms_pdl := rest\<rparr>)" using bind(4) by (simp add: writes_def)
    have "card (unbound_locs st') < card (unbound_locs (st\<lparr>ms_pdl := rest\<rparr>))"
      by (rule writes_unbound_locs [OF bind(4) b(1)]) (use b(3) in \<open>simp add: store_ok_def\<close>)
    moreover have "w \<in> V" using bind(1,2) lk by auto
    ultimately show ?thesis using V(1) bind(1,4) b(4)
      by (auto simp: remaining_def quiet_unbound_locs [OF quiet_update(3)] in_universe_def writes_def
          frame_valid_loc [OF fr] quiet_valid_loc [OF quiet_update(3)])
  next
    case (clash x y rest)
    have q: "quiet st st'" unfolding clash(6) by (rule quiet_trans [OF quiet_update(3) quiet_update(1)])
    have "ms_pdl st' = rest" unfolding clash(6) by (simp add: failed_def)
    then show ?thesis using V(1) clash(1,5)
      by (simp add: remaining_def quiet_unbound_locs [OF q] in_universe_def quiet_valid_loc [OF q] quiet_memory [OF q])
  next
    case (descend x y rest)
    have q: "quiet st st'" unfolding descend(1) by (rule quiet_update)
    have xy: "cell_ok st (look st x)" "cell_ok st (look st y)" "look st x \<in> V" "look st y \<in> V"
      using ok descend(2) look_ok lk by (auto simp: search_ok_def)
    have "\<forall>c\<in>set (ms_pdl st'). is_var c \<or> c \<in> V"
      using set_weave [of "kids st (look st x)" "kids st (look st y)"] kids_vars [OF so] xy V(1) descend(2)
      unfolding descend(1) by (auto simp: in_universe_def)
    then have univ: "in_universe V st'"
      using V(1) by (simp add: in_universe_def quiet_valid_loc [OF q] quiet_memory [OF q])
    have "(look st x, look st y) \<notin> set t \<Longrightarrow>
        card (V \<times> V - set (List.insert (look st x, look st y) t)) < card (V \<times> V - set t)"
      using xy V(2) by (intro psubset_card_mono) auto
    then show ?thesis
      using descend univ by (auto simp: remaining_def quiet_unbound_locs [OF quiet_update(3)])
  qed
  then show "(remaining V (t', st'), remaining V (t, st)) \<in> less_than <*lex*> less_than <*lex*> less_than" "in_universe V st'"
    by blast+
qed

context unifier
begin

lemma unify_loop_total:
  assumes "eq_ok E" and "finite V" and "search_ok t st" and "in_universe V st"
  shows "\<exists>st'. unify_loop E bnd t st = Some st'"
  using assms(3,4)
proof (induction "(t, st)" arbitrary: t st
    rule: wf_induct_rule [OF wf_inv_image [where f = "remaining V", OF wf_lex_prod [OF wf_less_than wf_lex_prod [OF wf_less_than wf_less_than]]], case_names less])
  case (less t st)
  show ?case
  proof (cases "ms_pdl st = [] \<or> ms_fail st")
    case True
    then show ?thesis by (subst unify_loop.simps) simp
  next
    case False
    then obtain t' st' where s: "unify_step E bnd t st = Some (t', st')" "ustep E (t, st) (t', st')"
      using unify_step_refines [OF assms(1) less.prems(1)] by blast
    have "\<exists>r. unify_loop E bnd t' st' = Some r"
      using ustep_decreases [OF s(2) less.prems assms(2)] ustep_search_ok [OF s(2) less.prems(1)]
      by (intro less.hyps) (auto simp: in_inv_image)
    then show ?thesis using False s(1) by (subst unify_loop.simps) simp
  qed
qed

lemma unify_internal_solves:
  assumes E: "eq_ok E" and ok: "search_ok [] st" and nf: "\<not> ms_fail st"
  shows "\<exists>st'. unify_internal E bnd st = Some st' \<and> store_ok st' \<and>
    (if ms_fail st' then \<nexists>s. solves s E st (pairs (ms_pdl st))
     else \<forall>s. solves s E st (pairs (ms_pdl st)) \<longleftrightarrow> (\<forall>c. unbound st c \<longrightarrow> s c = tree_of s E st' c))"
proof -
  let ?P = "pairs (ms_pdl st)"
  have so: "store_ok st" using ok by (simp add: search_ok_def)
  let ?V = "rd st ` {l. valid_loc st l} \<union> set (ms_pdl st)"
  have "in_universe ?V st" "finite ?V" by (auto simp: in_universe_def finite_valid)
  then obtain st' where st': "unify_loop E bnd [] st = Some st'" using unify_loop_total [OF E _ ok] by blast
  let ?I = "\<lambda>t s'. search_ok t s' \<and> extends E st s' \<and> (\<not> ms_fail s' \<longrightarrow> (\<exists>D. set ?P \<subseteq> D \<and> seen E D t s')) \<and>
    (\<forall>s. solves s E st ?P \<longrightarrow> \<not> ms_fail s' \<and> solves s E s' (pairs (ms_pdl s')) \<and> (\<forall>x. cell_ok st x \<longrightarrow> tree_of s E s' x = tree_of s E st x))"
  have "seen E (set ?P) [] st" by (auto simp: seen_def)
  then have "?I [] st" using ok so nf extends_refl by blast
  moreover have "?I t2 s2"
    if I: "?I t1 s1" and run: "ms_pdl s1 \<noteq> []" "\<not> ms_fail s1" "unify_step E bnd t1 s1 = Some (t2, s2)" for t1 s1 t2 s2
  proof -
    have u: "ustep E (t1, s1) (t2, s2)" using unify_step_refines [OF E _ run(1,2)] I run(3) by force
    have ext: "cell_ok st x \<Longrightarrow> cell_ok s1 x" for x using I by (auto simp: extends_def)
    have "\<not> ms_fail s2 \<longrightarrow> (\<exists>D. set ?P \<subseteq> D \<and> seen E D t2 s2)"
      using I run(2) ustep_seen [OF u] by (meson subset_trans)
    moreover have "solves s E st ?P \<longrightarrow> \<not> ms_fail s2 \<and> solves s E s2 (pairs (ms_pdl s2)) \<and> (\<forall>x. cell_ok st x \<longrightarrow> tree_of s E s2 x = tree_of s E st x)" for s
      using I run(2) ustep_solves [OF u, of s] ext by force
    ultimately show ?thesis using I ustep_search_ok [OF u] ustep_extends [OF u] by blast
  qed
  ultimately obtain t where f: "?I t st'" and fin: "ms_pdl st' = [] \<or> ms_fail st'"
    using unify_loop_invariant [where I = ?I, OF st'] by blast
  have so': "store_ok st'" using f by (simp add: search_ok_def)
  show ?thesis
  proof (intro exI [of _ st'] conjI)
    show "unify_internal E bnd st = Some st'" using st' by (simp add: unify_internal_def)
    show "if ms_fail st' then \<nexists>s. solves s E st ?P else \<forall>s. solves s E st ?P \<longleftrightarrow> (\<forall>c. unbound st c \<longrightarrow> s c = tree_of s E st' c)"
    proof (cases "ms_fail st'")
      case True
      then show ?thesis using f by auto
    next
      case False
      then obtain D where D: "set ?P \<subseteq> D" "seen E D t st'" using f by blast
      have pdl: "ms_pdl st' = []" using fin False by simp
      have "solves s E st ?P \<longleftrightarrow> (\<forall>c. unbound st c \<longrightarrow> s c = tree_of s E st' c)" for s
      proof
        assume s: "solves s E st ?P"
        show "\<forall>c. unbound st c \<longrightarrow> s c = tree_of s E st' c"
        proof (intro allI impI)
          fix c
          assume c: "unbound st c"
          then have "tree_of s E st c = s c" using tree_of_var [of st c] by (simp add: look_unbound unbound_is_var)
          then show "s c = tree_of s E st' c" using f s store_ok_unbound [OF so c] by simp
        qed
      next
        assume a: "\<forall>c. unbound st c \<longrightarrow> s c = tree_of s E st' c"
        have "tree_of s E st x = tree_of s E st y" if "(x, y) \<in> set ?P" for x y
        proof -
          have "set (pairs l) \<subseteq> set l \<times> set l" for l :: "HeapCellValue list" by (induction l rule: pairs.induct) auto
          then have "cell_ok st x" "cell_ok st y" using that ok by (auto simp: search_ok_def)
          then show ?thesis
            using tree_of_extends [OF so _ a] f seen_equal [OF D(2) pdl so', of x y s] that D(1) by fastforce
        qed
        then show "solves s E st ?P" by (auto simp: solves_def)
      qed
      then show ?thesis using False by simp
    qed
  qed (rule so')
qed

end

end
