(* ===== verification/Unification.thy ===== *)
theory Unification
  imports UnifySearch
begin

text \<open>The properties of binding, trailing and unification, and stores they are applied to.\<close>

section \<open>Two stores\<close>

definition heap_of :: "HeapCellValue list \<Rightarrow> Heap" where
  "heap_of cs = \<lparr>mem = concat (map cell_bytes cs), byte_cap = 8 * length cs\<rparr>"

lemma hcell_heap_of: "hcell (heap_of cs) i = (if i < length cs then cs ! i else 0)"
proof -
  have "take 8 (drop (8 * i) (concat (map cell_bytes cs))) = (if i < length cs then cell_bytes (cs ! i) else [])"
  proof (induction cs arbitrary: i)
    case (Cons c cs)
    show ?case
    proof (cases i)
      case (Suc j)
      then show ?thesis using Cons [of j] by simp
    qed simp
  qed simp
  then show ?thesis by (simp add: hcell_def heap_of_def index_defs mult.commute)
qed

lemma heap_of_wf: "wf_heap (heap_of cs)" "cell_len (heap_of cs) = length cs"
proof -
  have "length (concat (map cell_bytes cs)) = 8 * length cs" "is_bytes (concat (map cell_bytes cs))"
    by (induction cs) simp_all
  then show "wf_heap (heap_of cs)" "cell_len (heap_of cs) = length cs"
    by (simp_all add: wf_heap_def heap_of_def index_defs)
qed

definition state_of :: "HeapCellValue list \<Rightarrow> HeapCellValue list \<Rightarrow> MachineState" where
  "state_of cs pdl =
     \<lparr>ms_heap = heap_of cs, ms_stack = [], ms_arena = (\<lambda>_. AOther), ms_f64_tbl = (\<lambda>_. 0),
      ms_atom_tbl = the (AtomTable_new (\<lambda>_. True)), ms_trail = [], ms_tr = 0, ms_hb = length cs, ms_b = 0, ms_pdl = pdl,
      ms_fail = False, ms_p = 0, ms_cp = 0, ms_attr = \<lparr>av_bindings = [], av_p = 0, av_cp = 0, av_queue = []\<rparr>\<rparr>"

definition demo_env :: machine_env where
  "demo_env = \<lparr>me_strings = [], me_eq = (=)\<rparr>"

text \<open>In a store without bound variables every reference ends.\<close>

lemma state_of_ok:
  assumes "\<forall>c\<in>set cs. is_functor c \<or> cell_ok (state_of cs p) c" and "length cs \<le> 2 ^ 56"
    and flat: "\<forall>i<length cs. is_var (cs ! i) \<longrightarrow> loc_of (cs ! i) = Some (HLoc i)"
    and "\<forall>c\<in>set p. cell_ok (state_of cs p) c" and "even (length p)"
  shows "search_ok [] (state_of cs p)"
proof -
  let ?st = "state_of cs p"
  have rd: "rd ?st (HLoc i) = (if i < length cs then cs ! i else 0)" "rd ?st (SLoc s) = 0" for i s
    by (simp_all add: state_of_def hcell_heap_of stack_at_def)
  have nv: "\<not> is_var 0" using get_tag_pointer [of 0] by (simp add: is_var_def)
  have "deref ?st c \<noteq> None" for c
  proof -
    have "is_var (store ?st c) \<Longrightarrow> store ?st c \<noteq> c \<Longrightarrow> unbound ?st (store ?st c)"
    proof -
      assume v: "is_var (store ?st c)" "store ?st c \<noteq> c"
      then obtain l where l: "loc_of c = Some l" "store ?st c = rd ?st l" by (auto simp: store_eq split: option.splits)
      then show ?thesis using v(1) flat nv rd by (cases l) (auto simp: unbound_def split: if_splits)
    qed
    then show ?thesis using deref_unbound [of ?st "store ?st c"] by (auto simp: deref_unfold [of ?st c])
  qed
  moreover have "is_functor (rd ?st l) \<or> cell_ok ?st (rd ?st l)" if "valid_loc ?st l" for l
    using that assms(1) rd by (cases l) (auto simp: state_of_def heap_of_wf)
  ultimately show ?thesis
    using assms(2,4,5) heap_of_wf by (simp add: search_ok_def store_ok_def state_of_def)
qed

definition atom_of :: "nat \<Rightarrow> nat \<Rightarrow> HeapCellValue" where
  "atom_of name arity = the (atom_cell_build_with name arity)"

definition str_of :: "nat \<Rightarrow> HeapCellValue" where
  "str_of s = the (cell_build_with TStr s)"

lemma atom_of_readings:
  assumes "name < 256" and "arity < 256"
  shows "atom_cell_build_with name arity = Some (atom_of name arity)"
    "atom_get_name (atom_of name arity) = name" "atom_get_arity (atom_of name arity) = arity" "cell_get_tag (atom_of name arity) = TAtom"
proof -
  show a: "atom_cell_build_with name arity = Some (atom_of name arity)" using assms by (simp add: atom_of_def atom_cell_build_with_def)
  show "atom_get_name (atom_of name arity) = name" "atom_get_arity (atom_of name arity) = arity" "cell_get_tag (atom_of name arity) = TAtom"
    using atom_cell_readings [OF a] by simp_all
qed

lemma str_of_readings:
  assumes "s < 2 ^ 56"
  shows "cell_build_with TStr s = Some (str_of s)" "cell_get_tag (str_of s) = TStr" "cell_val (str_of s) = s"
proof -
  show c: "cell_build_with TStr s = Some (str_of s)" using assms by (simp add: str_of_def cell_build_with_def)
  show "cell_get_tag (str_of s) = TStr" "cell_val (str_of s) = s" using built_readings [OF c] .
qed

text \<open>The terms \<open>f(X, a)\<close> and \<open>f(b, Y)\<close>.\<close>

definition demo_cells :: "HeapCellValue list" where
  "demo_cells = [atom_of 4 2, loc_cell 1, atom_of 6 0, atom_of 4 2, atom_of 8 0, loc_cell 5]"

definition demo :: MachineState where
  "demo = state_of demo_cells [str_of 0, str_of 3]"

lemma demo_search_ok: "search_ok [] demo"
  unfolding demo_def
proof (rule state_of_ok)
  let ?st = "state_of demo_cells [str_of 0, str_of 3]"
  have "dot_atom \<noteq> 4" unfolding dot_atom_def atom_new_inlined_def by presburger
  then have d: "(4, 2) \<noteq> (dot_atom, 2 :: nat)" by simp
  have hc: "hcell (ms_heap ?st) i = (if i < 6 then demo_cells ! i else 0)" for i
    by (simp add: state_of_def hcell_heap_of demo_cells_def)
  note a = atom_of_readings [of 4 2, simplified] atom_of_readings [of 6 0, simplified] atom_of_readings [of 8 0, simplified]
    loc_cell_readings [of 1, simplified] loc_cell_readings [of 5, simplified] str_of_readings [of 0, simplified] str_of_readings [of 3, simplified]
  have st: "hcell (ms_heap ?st) 0 = atom_of 4 2" "hcell (ms_heap ?st) (Suc 0) = loc_cell 1" "hcell (ms_heap ?st) 2 = atom_of 6 0"
    "hcell (ms_heap ?st) 3 = atom_of 4 2" "hcell (ms_heap ?st) 4 = atom_of 8 0" "hcell (ms_heap ?st) 5 = loc_cell 5" "cell_len (ms_heap ?st) = 6"
    by (simp_all add: state_of_def hcell_heap_of heap_of_wf demo_cells_def nth_Cons')
  have nf: "\<not> is_functor (loc_cell 1)" "\<not> is_functor (loc_cell 5)" "\<not> is_functor (atom_of 6 0)" "\<not> is_functor (atom_of 8 0)"
    using a by (simp_all add: is_functor_def)
  show "\<forall>c\<in>set demo_cells. is_functor c \<or> cell_ok ?st c"
    using a st nf by (simp add: demo_cells_def is_functor_def cell_ok_def clean_def atom_as_cell_def)
  show "\<forall>c\<in>set [str_of 0, str_of 3]. cell_ok ?st c"
    using a st nf d by (simp add: cell_ok_def clean_def functor_at_def args_ok_def upt_rec st(3) [unfolded numeral_2_eq_2])
  show "\<forall>i<length demo_cells. is_var (demo_cells ! i) \<longrightarrow> loc_of (demo_cells ! i) = Some (HLoc i)"
    using a by (auto simp: demo_cells_def is_var_def loc_of_def less_Suc_eq)
qed (simp_all add: demo_cells_def)

lemma demo_env_ok: "eq_ok demo_env"
  by (simp add: eq_ok_def demo_env_def identity_equivp)

lemma demo_fields: "ms_pdl demo = [str_of 0, str_of 3]" "\<not> ms_fail demo" "ms_trail demo = []" "ms_hb demo = 6"
  by (simp_all add: demo_def state_of_def demo_cells_def)

lemma demo_ok: "vars_clean demo" "wf_heap (ms_heap demo)" "\<exists>st'. unify demo_env demo = Some st'"
proof -
  have "store_ok demo" using demo_search_ok by (simp add: search_ok_def)
  then show "vars_clean demo" "wf_heap (ms_heap demo)" using store_ok_clean by (auto simp: store_ok_def)
  show "\<exists>st'. unify demo_env demo = Some st'"
    using machine.unify_internal_solves [OF demo_env_ok demo_search_ok demo_fields(2)] by (auto simp: unify_def)
qed

section \<open>Properties\<close>

text \<open>
  A trail entry gives back its tag and its value, whatever it records, and a value cell pushed behind a
  blackboard entry is never mistaken for an entry that unwinding acts on.
\<close>
theorem trail_entries_read_back:
  "(\<forall>tag v e. entry_build_with tag v = Some e \<longrightarrow> entry_get_tag e = tag \<and> entry_get_value e = v) \<and>
   (\<forall>tag v a n w. (tag \<in> heap_tags \<and> cell_build_with tag v = Some w \<or> atom_cell_build_with a n = Some w) \<longrightarrow>
      entry_get_tag w = EAttachedValue)"
  using entry_readings value_cell_no_entry by blast

theorem trail_entries_read_back_witness:
  "\<exists>e. entry_build_with EStackVar 8 = Some e \<and> entry_get_tag e = EStackVar \<and> entry_get_value e = 8"
proof -
  obtain e where "entry_build_with EStackVar 8 = Some e" by (simp add: entry_build_with_def)
  then show ?thesis using trail_entries_read_back by blast
qed


text \<open>
  C1: On a store that is \<open>store_ok\<close>, unification returns and leaves such a store. If it fails, no assignment of trees
  to the unbound variables makes the trees of all pairs on the push-down list equal; if it succeeds, the
  assignments that do are exactly those that give every variable the tree it has been bound to. The store, and
  the cells on the push-down list, hold variables, lists, structures, atoms and numbers only, so no strings and
  no streams, no structure \<open>'.'/2\<close> that is not a list cell, and every chain of references ends; the equality of
  floats is an equivalence.
\<close>
theorem unification_solves_equations:
  assumes "eq_ok E" and "search_ok [] st" and "\<not> ms_fail st"
  shows "\<exists>st'. unify E st = Some st' \<and> store_ok st' \<and>
    (if ms_fail st' then \<nexists>s. solves s E st (pairs (ms_pdl st))
     else \<forall>s. solves s E st (pairs (ms_pdl st)) \<longleftrightarrow> (\<forall>c. unbound st c \<longrightarrow> s c = tree_of s E st' c))"
  unfolding unify_def by (rule machine.unify_internal_solves [OF assms])

theorem unification_solves_equations_witness:
  "\<exists>st'. unify demo_env demo = Some st' \<and> store_ok st' \<and>
    (if ms_fail st' then \<nexists>s. solves s demo_env demo [(str_of 0, str_of 3)]
     else \<forall>s. solves s demo_env demo [(str_of 0, str_of 3)] \<longleftrightarrow> (\<forall>c. unbound demo c \<longrightarrow> s c = tree_of s demo_env st' c))"
  using unification_solves_equations [OF demo_env_ok demo_search_ok demo_fields(2)] unfolding demo_fields(1) pairs.simps .

text \<open>
  C38: Whatever unification did, on any heap with strings, streams and numbers and whether it failed or not,
  unwinding the trail to its old length restores every heap cell below the heap boundary and every stack cell
  below the last choice point, and touches nothing but the machine state.
\<close>
theorem unwinding_undoes_unification:
  assumes "unify E (machine_st m) = Some st'" and "vars_clean (machine_st m)" and "wf_heap (ms_heap (machine_st m))"
  shows "\<exists>st''. unwind_trail (length (ms_trail (machine_st m))) (length (ms_trail st')) (m\<lparr>machine_st := st'\<rparr>) =
      Some (m\<lparr>machine_st := st''\<rparr>) \<and>
    (\<forall>h<ms_hb (machine_st m). hcell (ms_heap st'') h = hcell (ms_heap (machine_st m)) h) \<and>
    (\<forall>s<ms_b (machine_st m). stack_at (ms_stack st'') s = stack_at (ms_stack (machine_st m)) s)"
proof -
  obtain st'' where st'': "unwind_trail (length (ms_trail (machine_st m))) (length (ms_trail st')) (m\<lparr>machine_st := st'\<rparr>) =
      Some (m\<lparr>machine_st := st''\<rparr>)" "\<forall>l. old_loc (machine_st m) l \<longrightarrow> rd st'' l = rd (machine_st m) l"
    using machine.unify_internal_undone [OF assms(1) [unfolded unify_def] assms(2,3)] by blast
  from st''(2) [rule_format, of "HLoc h" for h] st''(2) [rule_format, of "SLoc s" for s] st''(1) show ?thesis by auto
qed

theorem unwinding_undoes_unification_witness:
  "\<exists>st' st''. unify demo_env demo = Some st' \<and>
    unwind_trail 0 (length (ms_trail st')) \<lparr>machine_st = st', global_variables = Map.empty\<rparr> =
      Some \<lparr>machine_st = st'', global_variables = Map.empty\<rparr> \<and>
    (\<forall>h<6. hcell (ms_heap st'') h = hcell (ms_heap demo) h)"
proof -
  obtain st' where st': "unify demo_env demo = Some st'" using demo_ok by blast
  with unwinding_undoes_unification [of demo_env "\<lparr>machine_st = demo, global_variables = Map.empty\<rparr>" st'] demo_ok(1,2) demo_fields
  show ?thesis by auto
qed

text \<open>
  C39: Unification keeps references going in one direction: no cell of the heap refers to the stack, and no
  cell of the stack to a younger cell of the stack.
\<close>
theorem references_stay_layered:
  assumes "unify E st = Some st'" and "vars_clean st" and "wf_heap (ms_heap st)" and "layered st"
  shows "layered st'"
  by (rule machine.unify_internal_layered [OF assms(1) [unfolded unify_def] assms(2-)])

theorem references_stay_layered_witness: "\<exists>st'. unify demo_env demo = Some st' \<and> layered st'"
proof -
  obtain st' where st': "unify demo_env demo = Some st'" using demo_ok by blast
  have "layered demo"
  proof -
    have "cell_get_tag 0 \<noteq> TStackVar" using get_tag_pointer [of 0] by simp
    moreover have "cell_get_tag c \<noteq> TStackVar" if "c \<in> set demo_cells" for c
      using that loc_cell_readings(2) [of 1] loc_cell_readings(2) [of 5]
      by (auto simp: demo_cells_def atom_of_readings)
    ultimately show ?thesis by (auto simp: layered_def demo_def state_of_def hcell_heap_of stack_at_def)
  qed
  from references_stay_layered [OF st' demo_ok(1,2) this] st' show ?thesis by blast
qed

text \<open>
  A pointer cell below four gigabytes that lies at the heap index equal to its address makes unification
  with an atom run forever: the guard of unify_constant pushes the same pair again.
\<close>
theorem pointer_guard_loops:
  assumes "cell_get_tag (hcell (ms_heap st) k) = TCons" and "cons_ptr_address (hcell (ms_heap st) k) = k"
    and "k < PLAUSIBLE_MIN" and "ms_pdl st = [loc_cell k, y]" and "cell_get_tag y = TAtom" and "\<not> ms_fail st"
  shows "unify E st = None"
proof (rule ccontr)
  assume "unify E st \<noteq> None"
  then obtain st' where "unify_loop E machine_bind [] st = Some st'" by (auto simp: unify_def unify_internal_def)
  note inv = unify_loop_invariant [where I = "\<lambda>t s. t = [] \<and> s = st", OF this]
  have "k < 2 ^ 56" using assms(3) by (simp add: PLAUSIBLE_MIN_def)
  note k = loc_cell_readings [OF this]
  have "loc_cell k \<noteq> y" using k assms(5) by auto
  moreover have "st\<lparr>ms_pdl := [loc_cell k, y]\<rparr> = st" using assms(4) by (cases st) simp
  ultimately have "unify_step E machine_bind [] st = Some ([], st)"
    using assms k
    by (simp add: unify_step_def deref_unfold store_def is_var_def unify_pair_def unify_constant_def push_pdl_def Let_def)
  then show False using inv assms(4,6) by auto
qed

theorem pointer_guard_loops_witness: "unify demo_env (state_of [0] [loc_cell 0, atom_of 4 0]) = None"
proof (rule pointer_guard_loops)
  show "cell_get_tag (hcell (ms_heap (state_of [0] [loc_cell 0, atom_of 4 0])) 0) = TCons"
    by (simp add: state_of_def hcell_heap_of) (rule get_tag_pointer, simp_all)
  show "cell_get_tag (atom_of 4 0) = TAtom" by (rule atom_of_readings) simp_all
qed (simp_all add: state_of_def hcell_heap_of cons_ptr_address_def PLAUSIBLE_MIN_def)

section \<open>Lists written as structures\<close>

text \<open>The terms \<open>'.'(a, b)\<close> as a structure and as a list cell: they are the same tree, but unification fails.\<close>

definition dotted :: MachineState where
  "dotted = state_of [atom_of 93 2, atom_of 6 0, atom_of 8 0, atom_of 6 0, atom_of 8 0] [str_of 0, the (cell_build_with TLis 3)]"

lemma dot_atom_93: "dot_atom = 93"
  by (simp add: dot_atom_def atom_new_inlined_def encode_utf8_def atm_def)

lemma unify_loop_ends: "ms_pdl st = [] \<or> ms_fail st \<Longrightarrow> unify_loop E bnd t st = Some st"
  by (subst unify_loop.simps) simp

lemma unify_loop_step:
  "ms_pdl st \<noteq> [] \<Longrightarrow> \<not> ms_fail st \<Longrightarrow> unify_step E bnd t st = Some (t', st') \<Longrightarrow> unify_loop E bnd t st = unify_loop E bnd t' st'"
  by (subst unify_loop.simps) simp

text \<open>
  Unifying a structure with functor \<open>'.'/2\<close> with a list cell fails although both are the same term: the
  arguments are compared with the cells after the list's.
\<close>
theorem structure_misses_list:
  "(\<forall>s. solves s demo_env dotted (pairs (ms_pdl dotted))) \<and> (\<exists>st'. unify demo_env dotted = Some st' \<and> ms_fail st')"
proof
  let ?lis = "the (cell_build_with TLis 3)"
  have lis: "cell_build_with TLis 3 = Some ?lis" by (simp add: cell_build_with_def)
  note a = atom_of_readings [of 93 2, simplified] atom_of_readings [of 6 0, simplified] atom_of_readings [of 8 0, simplified]
    str_of_readings [of 0, simplified] built_readings [OF lis]
  have hc: "hcell (ms_heap dotted) 0 = atom_of 93 2" "hcell (ms_heap dotted) (Suc 0) = atom_of 6 0" "hcell (ms_heap dotted) 2 = atom_of 8 0"
    "hcell (ms_heap dotted) 3 = atom_of 6 0" "hcell (ms_heap dotted) 4 = atom_of 8 0"
    by (simp_all add: dotted_def state_of_def hcell_heap_of nth_Cons')
  have pdl: "ms_pdl dotted = [str_of 0, ?lis]" "\<not> ms_fail dotted" by (simp_all add: dotted_def state_of_def)
  have nv: "look dotted (str_of 0) = str_of 0" "look dotted ?lis = ?lis" using a by (simp_all add: look_not_var is_var_def)
  have lc: "deref dotted (loc_cell i) = Some (loc_cell i)" "store dotted (loc_cell i) = hcell (ms_heap dotted) i"
    "\<not> is_var (hcell (ms_heap dotted) i)" if "i \<in> {1, 2, 3, 4}" for i
  proof -
    have k: "cell_get_tag (loc_cell i) = TVar" "cell_val (loc_cell i) = i" using that loc_cell_readings(2,3) [of i] by auto
    then show st: "store dotted (loc_cell i) = hcell (ms_heap dotted) i" by (simp add: store_def)
    show n: "\<not> is_var (hcell (ms_heap dotted) i)" using that a hc by (auto simp: is_var_def)
    show "deref dotted (loc_cell i) = Some (loc_cell i)" using st n by (simp add: deref_unfold [of dotted "loc_cell i"])
  qed
  have leaf: "tree_of s demo_env dotted (loc_cell i) = Node (LFun (atom_get_name (hcell (ms_heap dotted) i)) 0) []" if "i \<in> {1, 2, 3, 4}" for i s
  proof -
    have "cell_get_tag (hcell (ms_heap dotted) i) = TAtom" using that a hc by auto
    then show ?thesis using lc [OF that] by (subst tree_of.code) (simp add: look_def label_of_def kids_def)
  qed
  have "tree_of s demo_env dotted (str_of 0) = tree_of s demo_env dotted ?lis" for s
    using a hc nv leaf [of 1 s] leaf [of 2 s] leaf [of 3 s] leaf [of 4 s]
    by (simp add: tree_of_node is_var_def label_of_def functor_at_def kids_def dot_atom_93 upt_rec numeral_eq_Suc)
  then show "\<forall>s. solves s demo_env dotted (pairs (ms_pdl dotted))" by (simp add: pdl solves_def)
  let ?st1 = "dotted\<lparr>ms_pdl := [loc_cell 1, loc_cell 4, loc_cell 2, loc_cell 5]\<rparr>"
  let ?t = "[(str_of 0, ?lis)]"
  have "unify_step demo_env machine_bind [] dotted = Some (?t, ?st1)"
  proof -
    let ?st = "dotted\<lparr>ms_pdl := []\<rparr>"
    have u: "[1..<1 + 2] = [1, 2 :: nat]" "[4..<4 + 2] = [4, 5 :: nat]" by code_simp+
    have "push_args 4 1 2 ?st = Some (?st\<lparr>ms_pdl := weave (map loc_cell [1..<1 + 2]) (map loc_cell [4..<4 + 2]) @ ms_pdl ?st\<rparr>)"
      by (rule push_args_weave) simp_all
    then have push: "push_args 4 1 2 ?st = Some ?st1" unfolding u by simp
    have "unify_structure machine_bind 0 ?lis ?st = Some ?st1"
      using a hc push by (simp add: unify_structure_def functor_at_def dot_atom_93)
    moreover have "store ?st1 ?lis = ?lis" "\<not> ms_fail ?st1" using a pdl(2) by (simp_all add: store_def)
    ultimately have "unify_pair demo_env machine_bind [] (str_of 0) ?lis ?st = Some (?t, ?st1)"
      using a by (simp add: unify_pair_def remember_def)
    moreover have "deref ?st (str_of 0) = Some (str_of 0)" "deref ?st ?lis = Some ?lis" "store ?st (str_of 0) = str_of 0"
      "store ?st ?lis = ?lis" "str_of 0 \<noteq> ?lis"
      using a by (auto simp: deref_unfold [of _ "str_of 0"] deref_unfold [of _ ?lis] store_def is_var_def)
    ultimately show ?thesis using pdl(1) by (simp add: unify_step_def)
  qed
  moreover have "unify_step demo_env machine_bind ?t ?st1 = Some (?t, failed (dotted\<lparr>ms_pdl := [loc_cell 2, loc_cell 5]\<rparr>))"
  proof -
    let ?st = "dotted\<lparr>ms_pdl := [loc_cell 2, loc_cell 5]\<rparr>"
    have "unify_pair demo_env machine_bind ?t (atom_of 6 0) (atom_of 8 0) ?st = Some (?t, failed ?st)"
      using a by (simp add: unify_pair_def unify_atom_def set_fail_def failed_def)
    moreover have "loc_cell 1 \<noteq> loc_cell 4" using loc_cell_readings(3) [of 1] loc_cell_readings(3) [of 4] by auto
    ultimately show ?thesis using lc [of 1] lc [of 4] hc by (simp add: unify_step_def)
  qed
  ultimately have "unify demo_env dotted = unify_loop demo_env machine_bind ?t (failed (dotted\<lparr>ms_pdl := [loc_cell 2, loc_cell 5]\<rparr>))"
    unfolding unify_def unify_internal_def
    using pdl unify_loop_step [of dotted demo_env machine_bind "[]" ?t ?st1]
      unify_loop_step [of ?st1 demo_env machine_bind ?t ?t "failed (dotted\<lparr>ms_pdl := [loc_cell 2, loc_cell 5]\<rparr>)"]
    by simp
  also have "\<dots> = Some (failed (dotted\<lparr>ms_pdl := [loc_cell 2, loc_cell 5]\<rparr>))"
    by (rule unify_loop_ends) (simp add: failed_def)
  finally have "unify demo_env dotted = \<dots>" .
  then show "\<exists>st'. unify demo_env dotted = Some st' \<and> ms_fail st'" by (simp add: failed_def)
qed

end
