(* ===== verification/Copier.thy ===== *)
theory Copier
  imports Unification
begin

text \<open>
  Copying of terms (\<open>src/src/machine/copier.rs\<close>). The copier scans the cells it has pushed behind the old
  end of the heap, as Cheney's collector does, and leaves in the old cells where their copies are: the new
  location in variables and functors, a marked list cell in one of the two cells of a list, a flag in the bytes
  of a string segment. A trail of what was there undoes this at the end.

  The trait \<open>CopierTarget\<close> is the record \<open>CopierTarget\<close> of its operations, with the targets \<open>CopyTerm\<close>
  and \<open>CopyBallTerm\<close> of \<open>src/src/machine/machine_state.rs\<close>. A result is a value or an \<open>AllocError\<close>,
  with the state in both cases; \<open>None\<close> is a panic or a call that does not return. The capacity a failing
  growth may have gained before is not kept.
\<close>

section \<open>State\<close>

datatype AllocError = AllocError

datatype AttrVarPolicy = DeepCopy | StripAttributes

datatype CopyTrailTag = TrHeapCell | TrStackCell | TrAttrVar | TrPStrLoc

record PStrData =
  pre_old_h_tail_loc :: nat
  post_old_h_tail_loc :: nat
  post_old_h_pstr_loc_locs :: "nat list"

record 't CopierTarget =
  ct_index :: "'t \<Rightarrow> nat \<Rightarrow> HeapCellValue"
  ct_set :: "nat \<Rightarrow> HeapCellValue \<Rightarrow> 't \<Rightarrow> 't option"
  ct_store :: "'t \<Rightarrow> HeapCellValue \<Rightarrow> HeapCellValue"
  ct_deref :: "'t \<Rightarrow> HeapCellValue \<Rightarrow> HeapCellValue option"
  ct_push_attr_var_queue :: "nat \<Rightarrow> 't \<Rightarrow> 't"
  ct_set_stack :: "nat \<Rightarrow> HeapCellValue \<Rightarrow> 't \<Rightarrow> 't option"
  ct_threshold :: "'t \<Rightarrow> nat"
  ct_as_slice_from :: "'t \<Rightarrow> nat \<Rightarrow> byte list option"
  ct_copy_pstr_to_threshold :: "nat \<Rightarrow> 't \<Rightarrow> (nat \<times> 't) option"
  ct_reserve :: "nat \<Rightarrow> 't \<Rightarrow> 't option"
  ct_push_cell :: "HeapCellValue \<Rightarrow> 't \<Rightarrow> 't"
  ct_copy_slice_to_end :: "nat \<Rightarrow> nat \<Rightarrow> 't \<Rightarrow> 't option"

text \<open>\<open>pstr_loc_locs\<close>, a \<open>BTreeMap\<close>, is the list of its entries in the order of the keys.\<close>

record 't CopyTermState =
  cs_trail :: "((CopyTrailTag \<times> nat) \<times> HeapCellValue) list"
  cs_scan :: nat
  cs_old_h :: nat
  cs_target :: 't
  cs_policy :: AttrVarPolicy
  cs_attr_var_list_locs :: "(nat \<times> HeapCellValue) list"
  cs_pstr_loc_locs :: "(nat \<times> PStrData) list"

type_synonym ('t, 'a) copying = "'t CopyTermState \<Rightarrow> ((AllocError + 'a) \<times> 't CopyTermState) option"

section \<open>Single actions\<close>

definition ok :: "'a \<Rightarrow> ('t, 'a) copying" where
  "ok a = (\<lambda>s. Some (Inr a, s))"

definition cthen :: "('t, 'a) copying \<Rightarrow> ('a \<Rightarrow> ('t, 'b) copying) \<Rightarrow> ('t, 'b) copying" where
  "cthen m f = (\<lambda>s. case m s of
     None \<Rightarrow> None
   | Some (r, s') \<Rightarrow> (case r of Inl e \<Rightarrow> Some (Inl e, s') | Inr a \<Rightarrow> f a s'))"

fun steps :: "('t, unit) copying list \<Rightarrow> ('t, unit) copying" where
  "steps [] = ok ()"
| "steps (m # ms) = cthen m (\<lambda>_. steps ms)"

definition cell_at :: "'t CopierTarget \<Rightarrow> 't CopyTermState \<Rightarrow> nat \<Rightarrow> HeapCellValue" where
  "cell_at T s i = ct_index T (cs_target s) i"

definition new_cell :: "HeapCellValueTag \<Rightarrow> nat \<Rightarrow> ('t, HeapCellValue) copying" where
  "new_cell tag v = (\<lambda>s. map_option (\<lambda>c. (Inr c, s)) (cell_build_with tag v))"

definition put :: "'t CopierTarget \<Rightarrow> nat \<Rightarrow> HeapCellValue \<Rightarrow> ('t, unit) copying" where
  "put T i c = (\<lambda>s. map_option (\<lambda>t. (Inr (), s\<lparr>cs_target := t\<rparr>)) (ct_set T i c (cs_target s)))"

definition put_new :: "'t CopierTarget \<Rightarrow> nat \<Rightarrow> HeapCellValueTag \<Rightarrow> nat \<Rightarrow> ('t, unit) copying" where
  "put_new T i tag v = cthen (new_cell tag v) (put T i)"

definition set_scanned :: "'t CopierTarget \<Rightarrow> HeapCellValue \<Rightarrow> ('t, unit) copying" where
  "set_scanned T c = (\<lambda>s. put T (cs_scan s) c s)"

definition scan_next :: "('t, unit) copying" where
  "scan_next = (\<lambda>s. Some (Inr (), s\<lparr>cs_scan := cs_scan s + 1\<rparr>))"

definition set_mark :: "'t CopierTarget \<Rightarrow> nat \<Rightarrow> bool \<Rightarrow> ('t, unit) copying" where
  "set_mark T i b = (\<lambda>s. put T i (set_mark_bit b (cell_at T s i)) s)"

definition set_forwarding :: "'t CopierTarget \<Rightarrow> nat \<Rightarrow> bool \<Rightarrow> ('t, unit) copying" where
  "set_forwarding T i b = (\<lambda>s. put T i (set_forwarding_bit b (cell_at T s i)) s)"

definition push_trail :: "CopyTrailTag \<Rightarrow> nat \<Rightarrow> HeapCellValue \<Rightarrow> ('t, unit) copying" where
  "push_trail tag i v =
     (\<lambda>s. if i < 2 ^ 56 then Some (Inr (), s\<lparr>cs_trail := cs_trail s @ [((tag, i), v)]\<rparr>) else None)"

definition reserve_and_push :: "'t CopierTarget \<Rightarrow> nat \<Rightarrow> HeapCellValue list \<Rightarrow> ('t, unit) copying" where
  "reserve_and_push T n cs =
     (\<lambda>s. case ct_reserve T n (cs_target s) of
        None \<Rightarrow> Some (Inl AllocError, s)
      | Some t \<Rightarrow> Some (Inr (), s\<lparr>cs_target := fold (ct_push_cell T) cs t\<rparr>))"

definition copy_slice :: "'t CopierTarget \<Rightarrow> nat \<Rightarrow> nat \<Rightarrow> ('t, unit) copying" where
  "copy_slice T start end' =
     (\<lambda>s. case ct_copy_slice_to_end T start end' (cs_target s) of
        None \<Rightarrow> Some (Inl AllocError, s)
      | Some t \<Rightarrow> Some (Inr (), s\<lparr>cs_target := t\<rparr>))"

definition deref_cell :: "'t CopierTarget \<Rightarrow> HeapCellValue \<Rightarrow> ('t, HeapCellValue \<times> HeapCellValue) copying" where
  "deref_cell T addr =
     (\<lambda>s. map_option (\<lambda>rd. (Inr (rd, ct_store T (cs_target s) rd), s)) (ct_deref T (cs_target s) addr))"

section \<open>Lists\<close>

definition trail_list_cell :: "'t CopierTarget \<Rightarrow> nat \<Rightarrow> nat \<Rightarrow> ('t, unit) copying" where
  "trail_list_cell T addr threshold =
     (\<lambda>s. steps [put_new T addr TLis threshold, push_trail TrHeapCell addr (cell_at T s addr)] s)"

definition back_edge :: "'t CopyTermState \<Rightarrow> HeapCellValue \<Rightarrow> bool" where
  "back_edge s c \<longleftrightarrow> cell_get_tag c = TLis \<and> cs_old_h s \<le> cell_val c"

definition scan_list :: "'t CopierTarget \<Rightarrow> nat \<Rightarrow> ('t, unit) copying" where
  "scan_list T h = cthen (new_cell TLis h) (\<lambda>c. steps [set_scanned T c, scan_next])"

definition mark_list :: "'t CopierTarget \<Rightarrow> nat \<Rightarrow> nat \<Rightarrow> ('t, unit) copying" where
  "mark_list T addr threshold =
     cthen (new_cell TVar (addr + 1)) (\<lambda>cdr_loc. cthen (deref_cell T cdr_loc) (\<lambda>(_, cdr).
       if \<not> is_var cdr then
         steps [trail_list_cell T (addr + 1) threshold, set_mark T (addr + 1) True, set_forwarding T (addr + 1) True]
       else
         cthen (new_cell TVar addr) (\<lambda>car_loc. cthen (deref_cell T car_loc) (\<lambda>(_, car).
           if \<not> is_var car then steps [trail_list_cell T addr threshold, set_mark T addr True] else ok ()))))"

definition copy_list :: "'t CopierTarget \<Rightarrow> nat \<Rightarrow> ('t, unit) copying" where
  "copy_list T addr =
     (\<lambda>s. if back_edge s (cell_at T s addr) then scan_list T (cell_val (cell_at T s addr)) s
          else if back_edge s (cell_at T s (addr + 1)) then scan_list T (cell_val (cell_at T s (addr + 1))) s
          else let threshold = ct_threshold T (cs_target s)
               in cthen (copy_slice T addr (addr + 2)) (\<lambda>_. cthen (new_cell TLis threshold) (\<lambda>c.
                    steps [set_scanned T c, mark_list T addr threshold, scan_next])) s)"

section \<open>Strings\<close>

text \<open>The map from the first byte of a segment, rounded down to its cell, to what is known of its copy.\<close>

definition last_up_to :: "nat \<Rightarrow> (nat \<times> 'a) list \<Rightarrow> (nat \<times> 'a) option" where
  "last_up_to k m = (case rev (filter (\<lambda>(i, _). i \<le> k) m) of [] \<Rightarrow> None | e # _ \<Rightarrow> Some e)"

definition map_remove :: "nat \<Rightarrow> (nat \<times> 'a) list \<Rightarrow> (nat \<times> 'a) list" where
  "map_remove k m = filter (\<lambda>(i, _). i \<noteq> k) m"

definition map_insert :: "nat \<Rightarrow> 'a \<Rightarrow> (nat \<times> 'a) list \<Rightarrow> (nat \<times> 'a) list" where
  "map_insert k v m = filter (\<lambda>(i, _). i < k) m @ (k, v) # filter (\<lambda>(i, _). k < i) m"

definition set_insert :: "nat \<Rightarrow> nat list \<Rightarrow> nat list" where
  "set_insert i xs = (if i \<in> set xs then xs else xs @ [i])"

definition add_loc :: "nat \<Rightarrow> PStrData \<Rightarrow> PStrData" where
  "add_loc i d = d\<lparr>post_old_h_pstr_loc_locs := set_insert i (post_old_h_pstr_loc_locs d)\<rparr>"

text \<open>\<open>u64::from_be_bytes\<close> of a cell's bytes, and the cell with the bytes of \<open>u64::to_be_bytes(1)\<close>.\<close>

definition be_value :: "HeapCellValue \<Rightarrow> nat" where
  "be_value c = le_nat (rev (cell_bytes c))"

definition flag_cell :: HeapCellValue where
  "flag_cell = of_nat (le_nat (rev (le_bytes 8 1)))"

definition set_pstrs :: "((nat \<times> PStrData) list \<Rightarrow> (nat \<times> PStrData) list) \<Rightarrow> ('t, unit) copying" where
  "set_pstrs f = (\<lambda>s. Some (Inr (), s\<lparr>cs_pstr_loc_locs := f (cs_pstr_loc_locs s)\<rparr>))"

definition flag_segment :: "'t CopierTarget \<Rightarrow> nat \<Rightarrow> ('t, unit) copying" where
  "flag_segment T i = (\<lambda>s. steps [put T i flag_cell, push_trail TrPStrLoc i (cell_at T s i)] s)"

definition copy_partial_string :: "'t CopierTarget \<Rightarrow> nat \<Rightarrow> ('t, unit) copying" where
  "copy_partial_string T pstr_loc =
     (\<lambda>s. let scan = cs_scan s; locs = cs_pstr_loc_locs s; idx = cell_index pstr_loc;
              here = last_up_to pstr_loc locs
          in if (case here of Some (_, d) \<Rightarrow> idx \<le> pre_old_h_tail_loc d | None \<Rightarrow> False) then
               (case here of
                  Some (k, d) \<Rightarrow> steps [set_pstrs (map_insert k (add_loc scan d)), scan_next] s
                | None \<Rightarrow> None)
             else
             case ct_as_slice_from T (cs_target s) pstr_loc of None \<Rightarrow> None | Some bytes \<Rightarrow>
               let offset = length (until_zero bytes);
                   left = cell_index (pstr_loc + offset)
               in if be_value (cell_at T s left) = 1 then
                    (case map_of locs (heap_index left) of
                       None \<Rightarrow> None
                     | Some d \<Rightarrow>
                         if left \<noteq> idx then
                           steps [set_pstrs (\<lambda>m. map_insert (heap_index idx) (add_loc scan d) (map_remove (heap_index left) m)),
                             flag_segment T idx, scan_next] s
                         else steps [set_pstrs (map_insert (heap_index left) (add_loc scan d)), scan_next] s)
                  else
                    cthen (flag_segment T idx) (\<lambda>_ s.
                      let old_tail_idx = (if (pstr_loc + offset + 1) mod ALIGN = 0
                                          then cell_index (pstr_loc + offset) + 2 else cell_index (pstr_loc + offset) + 1);
                          new_tail_idx = ct_threshold T (cs_target s);
                          d = \<lparr>pre_old_h_tail_loc = old_tail_idx, post_old_h_tail_loc = new_tail_idx,
                               post_old_h_pstr_loc_locs = [scan]\<rparr>
                      in steps [reserve_and_push T 1 [cell_at T s old_tail_idx],
                           set_pstrs (map_insert (heap_index idx) d), scan_next] s) s)"

section \<open>Variables\<close>

definition reinstantiate_var :: "'t CopierTarget \<Rightarrow> HeapCellValue \<Rightarrow> nat \<Rightarrow> ('t, unit) copying" where
  "reinstantiate_var T addr frontier =
     (let h = cell_val addr
      in case cell_get_tag addr of
           TVar \<Rightarrow> cthen (new_cell TVar h) (\<lambda>old.
             steps [put_new T frontier TVar frontier, put_new T h TVar frontier, push_trail TrHeapCell h old])
         | TStackVar \<Rightarrow> cthen (new_cell TVar frontier) (\<lambda>c. cthen (new_cell TStackVar h) (\<lambda>old.
             steps [put T frontier c,
               \<lambda>s. map_option (\<lambda>t. (Inr (), s\<lparr>cs_target := t\<rparr>)) (ct_set_stack T h c (cs_target s)),
               push_trail TrStackCell h old]))
         | TAttrVar \<Rightarrow> (\<lambda>s.
             let deep = (cs_policy s = DeepCopy);
                 threshold = (if deep then ct_threshold T (cs_target s) else frontier)
             in cthen (new_cell TAttrVar h) (\<lambda>old.
                  steps [put_new T frontier TVar threshold, put_new T h TVar threshold, push_trail TrAttrVar h old,
                    if deep then
                      cthen (new_cell TAttrVar threshold) (\<lambda>c1. cthen (new_cell TVar (threshold + 1)) (\<lambda>c2.
                        cthen (reserve_and_push T 2 [c1, c2]) (\<lambda>_ s.
                          let old_list_link = cell_at T s (h + 1)
                          in steps [push_trail TrHeapCell (h + 1) old_list_link, put T (h + 1) c2,
                               if cell_get_tag old_list_link = TLis then
                                 \<lambda>s. Some (Inr (), s\<lparr>cs_attr_var_list_locs :=
                                   cs_attr_var_list_locs s @ [(threshold + 1, old_list_link)]\<rparr>)
                               else ok ()] s)))
                    else ok ()]) s)
         | _ \<Rightarrow> (\<lambda>_. None))"

definition copy_var :: "'t CopierTarget \<Rightarrow> HeapCellValue \<Rightarrow> ('t, unit) copying" where
  "copy_var T addr =
     cthen (deref_cell T addr) (\<lambda>(rd, ra) s.
       let h = cell_val ra; index = cell_val addr
       in if cell_get_tag ra \<in> {TAttrVar, TVar} \<and> cs_old_h s \<le> h then steps [set_scanned T ra, scan_next] s
          else if cell_get_tag ra = TLis \<and> cs_old_h s \<le> h \<and> get_mark_bit (cell_at T s index) then
            cthen (new_cell TVar (if get_forwarding_bit ra then h + 1 else h)) (\<lambda>c. steps [set_scanned T c, scan_next]) s
          else if rd = ra then steps [reinstantiate_var T ra (cs_scan s), scan_next] s
          else set_scanned T ra s)"

section \<open>Structures\<close>

definition is_structure_index :: "HeapCellValue \<Rightarrow> bool" where
  "is_structure_index c \<longleftrightarrow> cell_get_tag c = TCodeIndexOffset"

definition copy_structure :: "'t CopierTarget \<Rightarrow> nat \<Rightarrow> ('t, unit) copying" where
  "copy_structure T addr =
     (\<lambda>s. let c = cell_at T s addr
          in case cell_get_tag c of
               TAtom \<Rightarrow>
                 (let threshold = ct_threshold T (cs_target s);
                      index_cell = cell_at T s (addr - 1)
                  in cthen (if is_structure_index index_cell
                            then cthen (reserve_and_push T 1 [index_cell]) (\<lambda>_. new_cell TStr (threshold + 1))
                            else new_cell TStr threshold) (\<lambda>str_cell.
                       steps [set_scanned T str_cell, copy_slice T addr (addr + 1 + atom_get_arity c),
                         \<lambda>s. steps [put T addr str_cell, push_trail TrHeapCell addr (cell_at T s addr)] s, scan_next]) s)
             | TStr \<Rightarrow> cthen (new_cell TStr (cell_val c)) (\<lambda>str_cell. steps [set_scanned T str_cell, scan_next]) s
             | _ \<Rightarrow> None)"

section \<open>Scanning\<close>

definition copy_step :: "'t CopierTarget \<Rightarrow> ('t, unit) copying" where
  "copy_step T =
     (\<lambda>s. let addr = cell_at T s (cs_scan s); h = cell_val addr
          in case cell_get_tag addr of
               TLis \<Rightarrow> if cs_old_h s \<le> h then scan_next s else copy_list T h s
             | TAttrVar \<Rightarrow> copy_var T addr s
             | TVar \<Rightarrow> copy_var T addr s
             | TStr \<Rightarrow> copy_structure T h s
             | TPStrLoc \<Rightarrow> copy_partial_string T h s
             | _ \<Rightarrow> scan_next s)"

partial_function (option) copy_loop ::
  "'t CopierTarget \<Rightarrow> 't CopyTermState \<Rightarrow> ((AllocError + unit) \<times> 't CopyTermState) option" where
  [code]: "copy_loop T s =
     (if cs_scan s < ct_threshold T (cs_target s) then
        (case copy_step T s of
           None \<Rightarrow> None
         | Some (r, s') \<Rightarrow> (case r of Inl e \<Rightarrow> Some (Inl e, s') | Inr _ \<Rightarrow> copy_loop T s'))
      else Some (Inr (), s))"

definition copy_term_impl :: "'t CopierTarget \<Rightarrow> HeapCellValue \<Rightarrow> ('t, unit) copying" where
  "copy_term_impl T addr =
     (\<lambda>s. steps [reserve_and_push T 1 [addr], copy_loop T] (s\<lparr>cs_scan := ct_threshold T (cs_target s)\<rparr>))"

section \<open>Attribute lists\<close>

text \<open>One round of \<open>copy_attr_var_list\<close>: an element is copied, the next cell of the list returned.\<close>

definition copy_attribute :: "'t CopierTarget \<Rightarrow> HeapCellValue \<Rightarrow> ('t, HeapCellValue) copying" where
  "copy_attribute T list_addr =
     (\<lambda>s. let threshold = ct_threshold T (cs_target s);
              heap_loc = cell_val list_addr;
              str_cell = cell_at T s (cell_val (cell_at T s heap_loc))
          in cthen (new_cell TVar (threshold + 2)) (\<lambda>c1. cthen (new_cell TVar (threshold + 1)) (\<lambda>c2.
               cthen (steps [reserve_and_push T 3 ([c1, c2] @ (if cell_get_tag str_cell = TAtom then [str_cell] else [])),
                        copy_term_impl T str_cell]) (\<lambda>_ s.
                 let next = cell_at T s (heap_loc + 1)
                 in cthen (if cell_get_tag next = TLis
                           then put_new T (threshold + 1) TLis (ct_threshold T (cs_target s)) else ok ()) (\<lambda>_. ok next) s))) s)"

partial_function (option) copy_attr_var_list ::
  "'t CopierTarget \<Rightarrow> HeapCellValue \<Rightarrow> 't CopyTermState \<Rightarrow> ((AllocError + unit) \<times> 't CopyTermState) option" where
  [code]: "copy_attr_var_list T list_addr s =
     (if cell_get_tag list_addr = TLis then
        (case copy_attribute T list_addr s of
           None \<Rightarrow> None
         | Some (r, s') \<Rightarrow> (case r of Inl e \<Rightarrow> Some (Inl e, s') | Inr next \<Rightarrow> copy_attr_var_list T next s'))
      else Some (Inr (), s))"

text \<open>The lists gathered so far, last first.\<close>

fun copy_gathered :: "'t CopierTarget \<Rightarrow> (nat \<times> HeapCellValue) list \<Rightarrow> ('t, unit) copying" where
  "copy_gathered T [] = ok ()"
| "copy_gathered T ((threshold, list_loc) # locs) =
     (\<lambda>s. steps [put_new T threshold TLis (ct_threshold T (cs_target s)),
        \<lambda>s. Some (Inr (), s\<lparr>cs_target := ct_push_attr_var_queue T (threshold - 1) (cs_target s)\<rparr>),
        copy_attr_var_list T list_loc, copy_gathered T locs] s)"

partial_function (option) copy_attr_var_lists ::
  "'t CopierTarget \<Rightarrow> 't CopyTermState \<Rightarrow> ((AllocError + unit) \<times> 't CopyTermState) option" where
  [code]: "copy_attr_var_lists T s =
     (if cs_attr_var_list_locs s = [] then Some (Inr (), s)
      else
        (case copy_gathered T (rev (cs_attr_var_list_locs s)) (s\<lparr>cs_attr_var_list_locs := []\<rparr>) of
           None \<Rightarrow> None
         | Some (r, s') \<Rightarrow> (case r of Inl e \<Rightarrow> Some (Inl e, s') | Inr _ \<Rightarrow> copy_attr_var_lists T s')))"

section \<open>Copying a term\<close>

fun relocate :: "'t CopierTarget \<Rightarrow> nat \<Rightarrow> nat \<Rightarrow> nat list \<Rightarrow> ('t, unit) copying" where
  "relocate T threshold least [] = ok ()"
| "relocate T threshold least (i # is) =
     (\<lambda>s. let pstr_loc = cell_val (cell_at T s i)
          in if least \<le> threshold + pstr_loc
             then steps [put_new T i TPStrLoc (threshold + pstr_loc - least), relocate T threshold least is] s else None)"

fun copy_pstrs_from :: "'t CopierTarget \<Rightarrow> (nat \<times> PStrData) list \<Rightarrow> ('t, unit) copying" where
  "copy_pstrs_from T [] = ok ()"
| "copy_pstrs_from T ((least, d) # rest) =
     cthen (\<lambda>s. relocate T (heap_index (ct_threshold T (cs_target s))) least (post_old_h_pstr_loc_locs d) s) (\<lambda>_.
       cthen (\<lambda>s. case ct_copy_pstr_to_threshold T least (cs_target s) of
                    None \<Rightarrow> Some (Inl AllocError, s)
                  | Some (_, t) \<Rightarrow> Some (Inr (), s\<lparr>cs_target := t\<rparr>)) (\<lambda>_.
         cthen (new_cell TVar (post_old_h_tail_loc d)) (\<lambda>c.
           steps [reserve_and_push T 1 [c], copy_pstrs_from T rest])))"

definition copy_pstrs :: "'t CopierTarget \<Rightarrow> ('t, unit) copying" where
  "copy_pstrs T = (\<lambda>s. copy_pstrs_from T (cs_pstr_loc_locs s) (s\<lparr>cs_pstr_loc_locs := []\<rparr>))"

fun unwind_copy_entries :: "'t CopierTarget \<Rightarrow> ((CopyTrailTag \<times> nat) \<times> HeapCellValue) list \<Rightarrow> ('t, unit) copying" where
  "unwind_copy_entries T [] = ok ()"
| "unwind_copy_entries T (((tag, index), value) # es) =
     steps
       [(case tag of
           TrStackCell \<Rightarrow> (\<lambda>s. map_option (\<lambda>t. (Inr (), s\<lparr>cs_target := t\<rparr>)) (ct_set_stack T index value (cs_target s)))
         | TrPStrLoc \<Rightarrow> put T index value
         | _ \<Rightarrow> steps [put T index value, set_mark T index False, set_forwarding T index False]),
        unwind_copy_entries T es]"

definition unwind_copy_trail :: "'t CopierTarget \<Rightarrow> ('t, unit) copying" where
  "unwind_copy_trail T = (\<lambda>s. unwind_copy_entries T (cs_trail s) (s\<lparr>cs_trail := []\<rparr>))"

definition CopyTermState_new :: "'t CopierTarget \<Rightarrow> 't \<Rightarrow> AttrVarPolicy \<Rightarrow> 't CopyTermState" where
  "CopyTermState_new T target attr_var_policy =
     \<lparr>cs_trail = [], cs_scan = 0, cs_old_h = ct_threshold T target, cs_target = target,
      cs_policy = attr_var_policy, cs_attr_var_list_locs = [], cs_pstr_loc_locs = []\<rparr>"

text \<open>The number of cells the copy takes without its string segments.\<close>

definition copy_term :: "'t CopierTarget \<Rightarrow> HeapCellValue \<Rightarrow> AttrVarPolicy \<Rightarrow> 't \<Rightarrow> ((AllocError + nat) \<times> 't) option" where
  "copy_term T addr attr_var_policy target =
     map_option (\<lambda>(r, s). (r, cs_target s))
       (cthen (steps [copy_term_impl T addr, copy_attr_var_lists T, unwind_copy_trail T]) (\<lambda>_ s.
          let new_threshold = ct_threshold T (cs_target s)
          in cthen (copy_pstrs T) (\<lambda>_. ok (new_threshold - ct_threshold T target)) s)
        (CopyTermState_new T target attr_var_policy))"

section \<open>The targets\<close>

text \<open>The slice \<open>bs[from..]\<close>.\<close>

definition slice_from :: "nat \<Rightarrow> byte list \<Rightarrow> byte list option" where
  "slice_from from bs = (if from \<le> length bs then Some (drop from bs) else None)"

definition CopyTerm :: "(nat \<Rightarrow> bool) \<Rightarrow> MachineState CopierTarget" where
  "CopyTerm avail =
     (let on_heap = (\<lambda>st. map_option (\<lambda>h. st\<lparr>ms_heap := h\<rparr>))
      in \<lparr>ct_index = (\<lambda>st. hcell (ms_heap st)), ct_set = put_heap, ct_store = store, ct_deref = deref,
          ct_push_attr_var_queue = (\<lambda>h st. st\<lparr>ms_attr := (ms_attr st)\<lparr>av_queue := av_queue (ms_attr st) @ [h]\<rparr>\<rparr>),
          ct_set_stack = put_stack,
          ct_threshold = (\<lambda>st. cell_len (ms_heap st)),
          ct_as_slice_from = (\<lambda>st from. slice_from from (mem (ms_heap st))),
          ct_copy_pstr_to_threshold = (\<lambda>loc st.
            map_option (\<lambda>(i, h). (i, st\<lparr>ms_heap := h\<rparr>)) (copy_pstr_within avail loc (ms_heap st))),
          ct_reserve = (\<lambda>n st. on_heap st (reserve avail n (ms_heap st))),
          ct_push_cell = (\<lambda>c st. st\<lparr>ms_heap := section_push_cell c (ms_heap st)\<rparr>),
          ct_copy_slice_to_end = (\<lambda>a b st. on_heap st (copy_slice_to_end avail a b (ms_heap st)))\<rparr>)"

text \<open>A ball is copied from the heap to a stub, whose cells are numbered on from those of the heap.\<close>

record CopyBallTerm =
  cb_attr_var_queue :: "nat list"
  cb_stack :: "HeapCellValue list"
  cb_heap :: Heap
  cb_stub :: Heap

definition ball_index :: "CopyBallTerm \<Rightarrow> nat \<Rightarrow> HeapCellValue" where
  "ball_index b i =
     (if i < cell_len (cb_heap b) then hcell (cb_heap b) i else hcell (cb_stub b) (i - cell_len (cb_heap b)))"

definition ball_set :: "nat \<Rightarrow> HeapCellValue \<Rightarrow> CopyBallTerm \<Rightarrow> CopyBallTerm option" where
  "ball_set i c b =
     (let n = cell_len (cb_heap b)
      in if i < n then Some (b\<lparr>cb_heap := set_hcell i c (cb_heap b)\<rparr>)
         else if i - n < cell_len (cb_stub b) then Some (b\<lparr>cb_stub := set_hcell (i - n) c (cb_stub b)\<rparr>) else None)"

definition ball_store :: "CopyBallTerm \<Rightarrow> HeapCellValue \<Rightarrow> HeapCellValue" where
  "ball_store b value =
     (case cell_get_tag value of
        TVar \<Rightarrow> ball_index b (cell_val value)
      | TAttrVar \<Rightarrow> ball_index b (cell_val value)
      | TStackVar \<Rightarrow> stack_at (cb_stack b) (cell_val value)
      | _ \<Rightarrow> value)"

partial_function (option) ball_deref :: "CopyBallTerm \<Rightarrow> HeapCellValue \<Rightarrow> HeapCellValue option" where
  [code]: "ball_deref b addr =
     (let value = ball_store b addr
      in if is_var value \<and> value \<noteq> addr then ball_deref b value else Some addr)"

definition ball_copy_slice :: "(nat \<Rightarrow> bool) \<Rightarrow> nat \<Rightarrow> nat \<Rightarrow> CopyBallTerm \<Rightarrow> CopyBallTerm option" where
  "ball_copy_slice avail start end' b =
     map_option (\<lambda>h. b\<lparr>cb_stub := fold (\<lambda>i. section_push_cell (hcell (cb_heap b) i)) [start..<end'] h\<rparr>)
       (reserve avail (end' - start) (cb_stub b))"

definition CopyBallTerm_target :: "(nat \<Rightarrow> bool) \<Rightarrow> nat list list \<Rightarrow> CopyBallTerm CopierTarget" where
  "CopyBallTerm_target avail strings =
     \<lparr>ct_index = ball_index, ct_set = ball_set, ct_store = ball_store, ct_deref = ball_deref,
      ct_push_attr_var_queue = (\<lambda>h b. b\<lparr>cb_attr_var_queue := cb_attr_var_queue b @ [h]\<rparr>),
      ct_set_stack = (\<lambda>i c b. if i mod 8 = 0 \<and> i div 8 < length (cb_stack b)
        then Some (b\<lparr>cb_stack := (cb_stack b)[i div 8 := c]\<rparr>) else None),
      ct_threshold = (\<lambda>b. cell_len (cb_heap b) + cell_len (cb_stub b)),
      ct_as_slice_from = (\<lambda>b from.
        if from < byte_len (cb_heap b) then map_option (\<lambda>bs. bs @ mem (cb_stub b)) (slice_from from (mem (cb_heap b)))
        else slice_from from (mem (cb_stub b))),
      ct_copy_pstr_to_threshold = (\<lambda>loc b. case scan_slice_to_str (cb_heap b) loc of
        (string, tail_idx) \<Rightarrow> map_option (\<lambda>(_, h). (tail_idx, b\<lparr>cb_stub := h\<rparr>)) (allocate_pstr avail strings string (cb_stub b))),
      ct_reserve = (\<lambda>n b. map_option (\<lambda>h. b\<lparr>cb_stub := h\<rparr>) (reserve avail n (cb_stub b))),
      ct_push_cell = (\<lambda>c b. b\<lparr>cb_stub := section_push_cell c (cb_stub b)\<rparr>),
      ct_copy_slice_to_end = ball_copy_slice avail\<rparr>"

end
