(* ===== verification/CopyWorld.thy ===== *)
theory CopyWorld
  imports Copier
begin

text \<open>
  What the copier requires of the cells it copies, and the invariant of its scan, in terms of the contents of
  cells alone. \<open>H0\<close> are the \<open>n\<close> cells before the copy, \<open>H\<close> the \<open>N\<close> cells during it, of which those
  below \<open>k\<close> are scanned; \<open>src j\<close> is the old value that the new cell \<open>j\<close> is to become a copy of.
\<close>

section \<open>Following references\<close>

partial_function (option) follow :: "(HeapCellValue \<Rightarrow> HeapCellValue) \<Rightarrow> HeapCellValue \<Rightarrow> HeapCellValue option" where
  "follow f addr =
     (let value = f addr in if is_var value \<and> value \<noteq> addr then follow f value else Some addr)"

definition vstore :: "(nat \<Rightarrow> HeapCellValue) \<Rightarrow> (nat \<Rightarrow> HeapCellValue) \<Rightarrow> HeapCellValue \<Rightarrow> HeapCellValue" where
  "vstore S H c =
     (case loc_of c of Some (HLoc h) \<Rightarrow> H h | Some (SLoc s) \<Rightarrow> S s | None \<Rightarrow> c)"

definition value_of :: "(nat \<Rightarrow> HeapCellValue) \<Rightarrow> (nat \<Rightarrow> HeapCellValue) \<Rightarrow> HeapCellValue \<Rightarrow> HeapCellValue" where
  "value_of S H c = (case follow (vstore S H) c of Some r \<Rightarrow> vstore S H r | None \<Rightarrow> c)"

lemma follow_unfold: "follow f c = (if is_var (f c) \<and> f c \<noteq> c then follow f (f c) else Some c)"
  by (subst follow.simps) (simp add: Let_def)

lemma follow_induct [consumes 1, case_names found refers]:
  assumes "follow f x = Some r"
    and "\<And>x. \<not> (is_var (f x) \<and> f x \<noteq> x) \<Longrightarrow> P x x"
    and "\<And>x r. is_var (f x) \<Longrightarrow> f x \<noteq> x \<Longrightarrow> P (f x) r \<Longrightarrow> P x r"
  shows "P x r"
proof -
  have "f = f \<longrightarrow> P x r"
    by (rule follow.raw_induct [of "\<lambda>f' x r. f' = f \<longrightarrow> P x r"])
       (use assms in \<open>auto simp: Let_def split: if_splits\<close>)
  then show ?thesis by simp
qed

lemma follow_end: "follow f x = Some r \<Longrightarrow> \<not> (is_var (f r) \<and> f r \<noteq> r)"
  by (induction rule: follow_induct)

lemma vstore_not_var: "\<not> is_var c \<Longrightarrow> vstore S H c = c"
  by (simp add: vstore_def is_var_loc)

lemma vstore_heap: "cell_get_tag c \<in> {TVar, TAttrVar} \<Longrightarrow> vstore S H c = H (cell_val c)"
  by (auto simp: vstore_def loc_of_def)

lemma value_of_not_var: "\<not> is_var c \<Longrightarrow> value_of S H c = c"
  by (simp add: value_of_def follow_unfold vstore_not_var)

lemma value_of_step:
  "is_var (vstore S H c) \<Longrightarrow> vstore S H c \<noteq> c \<Longrightarrow> value_of S H c =
    (if follow (vstore S H) (vstore S H c) = None then c else value_of S H (vstore S H c))"
  by (subst value_of_def, subst follow_unfold) (auto simp: value_of_def split: option.splits)

lemma value_of_stop: "\<not> (is_var (vstore S H c) \<and> vstore S H c \<noteq> c) \<Longrightarrow> value_of S H c = vstore S H c"
  by (auto simp: value_of_def follow_unfold [of "vstore S H" c])

section \<open>Cells\<close>

definition mk :: "HeapCellValueTag \<Rightarrow> nat \<Rightarrow> HeapCellValue" where
  "mk tag v = the (cell_build_with tag v)"

lemma mk_readings:
  assumes "v < 2 ^ 56"
  shows "cell_build_with tag v = Some (mk tag v)" "cell_get_tag (mk tag v) = tag" "cell_val (mk tag v) = v"
proof -
  show c: "cell_build_with tag v = Some (mk tag v)" using assms by (simp add: mk_def cell_build_with_def)
  show "cell_get_tag (mk tag v) = tag" "cell_val (mk tag v) = v" using built_readings [OF c] .
qed

lemma clean_mk: "clean c \<Longrightarrow> c = mk (cell_get_tag c) (cell_val c)"
  by (simp add: clean_def mk_def)

lemma clean_small: "clean c \<Longrightarrow> cell_val c < 2 ^ 56"
  unfolding clean_def by (rule built_small)

text \<open>The cell that leads from a list to its copy, with the forwarding bit in the tail of the list.\<close>

definition marked :: "nat \<Rightarrow> bool \<Rightarrow> HeapCellValue" where
  "marked t f = (if f then set_forwarding_bit True (set_mark_bit True (mk TLis t)) else set_mark_bit True (mk TLis t))"

lemma marked_readings':
  assumes "t < 2 ^ 56"
  shows "cell_get_tag (marked t f) = TLis" "cell_val (marked t f) = t" "get_mark_bit (marked t f)"
    "get_forwarding_bit (marked t f) = f"
proof -
  note c = mk_readings [OF assms, of TLis]
  have bits: "bit (marked t f) i = (if i = 56 then f else if i = 57 then True else bit (mk TLis t) i)" if "i < 64" for i
  proof -
    have m: "bit (set_mark_bit True (mk TLis t)) i = (if i = 57 then True else bit (mk TLis t) i)" if "i < 64" for i
      using that c(2) by (simp add: set_mark_bit_def bit_set_to)
    have "cell_get_tag (set_mark_bit True (mk TLis t)) = TLis"
      using marked_readings [OF c(1), of "set_mark_bit True (mk TLis t)" 56 False 57 True] m bit_built [OF c(1)] by simp
    then show ?thesis using that m bit_built [OF c(1), of 56]
      by (auto simp: marked_def set_forwarding_bit_def bit_set_to)
  qed
  show tag: "cell_get_tag (marked t f) = TLis" "cell_val (marked t f) = t"
    using marked_readings [OF c(1), of "marked t f" 56 f 57 True] bits by simp_all
  show "get_mark_bit (marked t f)" "get_forwarding_bit (marked t f) = f"
    using tag(1) bits by (simp_all add: get_mark_bit_def get_forwarding_bit_def)
qed

definition unmarked :: "HeapCellValue \<Rightarrow> bool" where
  "unmarked c \<longleftrightarrow> set_forwarding_bit False (set_mark_bit False c) = c"

section \<open>What can be copied\<close>

record origin =
  og_stack :: "nat \<Rightarrow> HeapCellValue"
  og_cells :: "nat \<Rightarrow> HeapCellValue"
  og_len :: nat
  og_start :: nat
  og_addr :: HeapCellValue

definition old_store :: "origin \<Rightarrow> HeapCellValue \<Rightarrow> HeapCellValue" where
  "old_store G = vstore (og_stack G) (og_cells G)"

definition old_value :: "origin \<Rightarrow> HeapCellValue \<Rightarrow> HeapCellValue" where
  "old_value G = value_of (og_stack G) (og_cells G)"

text \<open>The cells that stand for terms.\<close>

definition sources :: "origin \<Rightarrow> HeapCellValue list" where
  "sources G = og_addr G # filter (\<lambda>c. \<not> is_functor c) (map (og_cells G) [0..<og_len G])"

definition locs_of :: "HeapCellValueTag \<Rightarrow> origin \<Rightarrow> nat list" where
  "locs_of tag G = map cell_val (filter (\<lambda>c. cell_get_tag c = tag) (sources G))"

definition list_cells :: "origin \<Rightarrow> nat set" where
  "list_cells G = set (locs_of TLis G) \<union> Suc ` set (locs_of TLis G)"

definition struct_len :: "origin \<Rightarrow> nat \<Rightarrow> nat" where
  "struct_len G a = Suc (atom_get_arity (og_cells G a))"

definition source_ok :: "origin \<Rightarrow> bool \<Rightarrow> HeapCellValue \<Rightarrow> bool" where
  "source_ok G deep c \<longleftrightarrow>
     \<not> is_functor c \<and>
     (let v = cell_val c; n = og_len G; H = og_cells G
      in case cell_get_tag c of
           TStr \<Rightarrow> clean c \<and> is_functor (H v) \<and> v + struct_len G v \<le> n \<and> \<not> is_structure_index (H (v - 1)) \<and>
             (\<forall>i\<in>set [1..<struct_len G v]. \<not> is_functor (H (v + i)))
         | TLis \<Rightarrow> clean c \<and> v + 1 < n \<and> \<not> is_functor (H v) \<and> \<not> is_functor (H (v + 1))
         | TVar \<Rightarrow> clean c \<and> v < n \<and> \<not> is_functor (H v) \<and> follow (old_store G) c \<noteq> None
         | TAttrVar \<Rightarrow> clean c \<and> v < n \<and> \<not> is_functor (H v) \<and> follow (old_store G) c \<noteq> None \<and> \<not> deep
         | TStackVar \<Rightarrow> False
         | TPStrLoc \<Rightarrow> False
         | _ \<Rightarrow> True)"

text \<open>
  Lists share no cells with other lists or with structures, and no variable leads through another variable
  into a cell of a list that holds a term.
\<close>

definition tails_direct :: "origin \<Rightarrow> HeapCellValue \<Rightarrow> bool" where
  "tails_direct G c \<longleftrightarrow>
     (is_var c \<and> is_var (old_store G c) \<and> old_store G c \<noteq> c \<and> \<not> is_var (old_value G c) \<longrightarrow>
        cell_val (old_store G c) \<notin> list_cells G)"

definition copyable :: "origin \<Rightarrow> bool \<Rightarrow> bool" where
  "copyable G deep \<longleftrightarrow>
     og_len G \<le> og_start G \<and> og_start G + 8 * (og_len G + 1) \<le> 2 ^ 56 \<and>
     (\<forall>c\<in>set (sources G). source_ok G deep c \<and> tails_direct G c) \<and>
     (\<forall>i\<in>set [0..<og_len G]. unmarked (og_cells G i)) \<and>
     (\<forall>a\<in>set (locs_of TLis G).
        (\<forall>b\<in>set (locs_of TLis G). b \<noteq> a + 1) \<and>
        (\<forall>b\<in>set (locs_of TStr G). a + 1 < b \<or> b + struct_len G b \<le> a))"

lemma old_not_var: "\<not> is_var c \<Longrightarrow> old_store G c = c" "\<not> is_var c \<Longrightarrow> old_value G c = c"
  by (simp_all add: old_store_def old_value_def vstore_not_var value_of_not_var)

lemma source_cell: "i < og_len G \<Longrightarrow> \<not> is_functor (og_cells G i) \<Longrightarrow> og_cells G i \<in> set (sources G)"
  by (simp add: sources_def)

lemma source_addr: "og_addr G \<in> set (sources G)"
  by (simp add: sources_def)

lemma copyable_source: "copyable G deep \<Longrightarrow> c \<in> set (sources G) \<Longrightarrow> source_ok G deep c \<and> tails_direct G c"
  by (simp add: copyable_def)

lemma source_var:
  assumes "copyable G deep" "c \<in> set (sources G)" "is_var c"
  shows "cell_get_tag c = TVar \<or> cell_get_tag c = TAttrVar \<and> \<not> deep" "c = mk (cell_get_tag c) (cell_val c)"
    "cell_val c < og_len G" "old_store G c = og_cells G (cell_val c)" "og_cells G (cell_val c) \<in> set (sources G)"
    "follow (old_store G) c \<noteq> None"
proof -
  have ok: "source_ok G deep c" using copyable_source assms(1,2) by blast
  then have "clean c" using assms(3) by (auto simp: source_ok_def is_var_def Let_def)
  then show "c = mk (cell_get_tag c) (cell_val c)" by (rule clean_mk)
  show 1: "cell_get_tag c = TVar \<or> cell_get_tag c = TAttrVar \<and> \<not> deep" and 3: "cell_val c < og_len G" and "follow (old_store G) c \<noteq> None"
    using assms(3) ok by (auto simp: source_ok_def is_var_def Let_def)
  then show "old_store G c = og_cells G (cell_val c)" by (auto simp: old_store_def intro: vstore_heap)
  have "\<not> is_functor (og_cells G (cell_val c))" using 1 ok by (auto simp: source_ok_def Let_def)
  then show "og_cells G (cell_val c) \<in> set (sources G)" using 3 by (rule source_cell [rotated])
qed

lemma source_value:
  assumes "copyable G deep" "c \<in> set (sources G)"
  shows "old_value G c \<in> set (sources G)"
proof (cases "is_var c")
  case True
  obtain r where r: "follow (old_store G) c = Some r" using source_var(6) [OF assms True] by blast
  have "old_store G r \<in> set (sources G)"
    using r assms(2)
  proof (induction rule: follow_induct)
    case (found x)
    then show ?case using source_var(4,5) [OF assms(1) found(2)] by (cases "is_var x") (simp_all add: old_not_var)
  next
    case (refers x r)
    then have "is_var x" using old_not_var(1) [of x G] by metis
    then show ?case using refers source_var(4,5) [OF assms(1) refers(4)] by simp
  qed
  then show ?thesis using r by (simp add: old_value_def value_of_def old_store_def)
qed (simp add: old_not_var assms(2))

text \<open>A value that is a variable is unbound.\<close>

lemma value_unbound:
  assumes "copyable G deep" "c \<in> set (sources G)" "is_var (old_value G c)"
  shows "og_cells G (cell_val (old_value G c)) = old_value G c" "follow (old_store G) c = Some (old_value G c)"
proof -
  have "is_var c" using assms(3) old_not_var(2) [of c G] by metis
  then obtain r where r: "follow (old_store G) c = Some r" using source_var(6) [OF assms(1,2)] by blast
  then have v: "old_value G c = old_store G r" by (simp add: old_value_def value_of_def old_store_def)
  with follow_end [OF r] assms(3) have "old_store G r = r" by auto
  with v r show "follow (old_store G) c = Some (old_value G c)" by simp
  have "old_value G c \<in> set (sources G)" using source_value assms(1,2) by blast
  from source_var(4) [OF assms(1) this assms(3)] v \<open>old_store G r = r\<close>
  show "og_cells G (cell_val (old_value G c)) = old_value G c" by simp
qed

end
