(* ===== verification/CopyInvariant.thy ===== *)
theory CopyInvariant
  imports CopyWorld
begin

text \<open>
  The invariant of the copier's scan. Old cells hold what they held or lead to their copy; every overwritten
  cell is on the trail with its old contents; a scanned cell is the copy of its source, a cell still to be
  scanned holds its source or what the source was found to be.
\<close>

section \<open>The invariant\<close>

definition block :: "origin \<Rightarrow> (nat \<Rightarrow> HeapCellValue) \<Rightarrow> nat \<Rightarrow> nat \<Rightarrow> nat \<Rightarrow> nat \<Rightarrow> bool" where
  "block G src N a l t \<longleftrightarrow> og_start G \<le> t \<and> t + l \<le> N \<and> (\<forall>i<l. src (t + i) = og_cells G (a + i))"

definition renamed ::
  "origin \<Rightarrow> (nat \<Rightarrow> HeapCellValue) \<Rightarrow> (nat \<Rightarrow> HeapCellValue) \<Rightarrow> nat \<Rightarrow> HeapCellValue \<Rightarrow> nat \<Rightarrow> bool" where
  "renamed G src H k d m \<longleftrightarrow>
     og_start G \<le> m \<and> m < k \<and> H m = mk TVar m \<and> cell_val d < og_len G \<and> H (cell_val d) = mk TVar m \<and>
     \<not> is_functor (src m) \<and> old_value G (src m) = d"

definition copied_as :: "origin \<Rightarrow> (nat \<Rightarrow> HeapCellValue) \<Rightarrow> nat \<Rightarrow> HeapCellValue \<Rightarrow> HeapCellValue \<Rightarrow> bool" where
  "copied_as G src N d v \<longleftrightarrow>
     (case cell_get_tag d of
        TStr \<Rightarrow> \<exists>t. v = mk TStr t \<and> block G src N (cell_val d) (struct_len G (cell_val d)) t
      | TLis \<Rightarrow> \<exists>t. v = mk TLis t \<and> block G src N (cell_val d) 2 t
      | _ \<Rightarrow> v = d)"

definition scanned ::
  "origin \<Rightarrow> (nat \<Rightarrow> HeapCellValue) \<Rightarrow> (nat \<Rightarrow> HeapCellValue) \<Rightarrow> nat \<Rightarrow> nat \<Rightarrow> nat \<Rightarrow> bool" where
  "scanned G src H N k j \<longleftrightarrow>
     (if is_functor (src j) then H j = src j
      else if is_var (old_value G (src j)) then \<exists>m. renamed G src H k (old_value G (src j)) m \<and> H j = mk TVar m
      else copied_as G src N (old_value G (src j)) (H j) \<or>
        is_var (src j) \<and> cell_val (src j) \<in> list_cells G \<and>
        (\<exists>m. H j = mk TVar m \<and> og_start G \<le> m \<and> m < N \<and> src m = og_cells G (cell_val (src j))))"

definition pending ::
  "origin \<Rightarrow> (nat \<Rightarrow> HeapCellValue) \<Rightarrow> (nat \<Rightarrow> HeapCellValue) \<Rightarrow> nat \<Rightarrow> nat \<Rightarrow> bool" where
  "pending G src H k j \<longleftrightarrow>
     H j = src j \<or> \<not> is_functor (src j) \<and>
       (if is_var (old_value G (src j)) then \<exists>m. renamed G src H k (old_value G (src j)) m \<and> H j = mk TVar m
        else H j = old_value G (src j))"

definition forwarded ::
  "origin \<Rightarrow> (nat \<Rightarrow> HeapCellValue) \<Rightarrow> (nat \<Rightarrow> HeapCellValue) \<Rightarrow> nat \<Rightarrow> nat \<Rightarrow> nat \<Rightarrow> bool" where
  "forwarded G src H N k i \<longleftrightarrow>
     (is_var (og_cells G i) \<and> cell_val (og_cells G i) = i \<and> (\<exists>m. renamed G src H k (og_cells G i) m)) \<or>
     (i \<in> set (locs_of TStr G) \<and> (\<exists>t. H i = mk TStr t \<and> block G src N i (struct_len G i) t)) \<or>
     (\<exists>a\<in>set (locs_of TLis G). \<exists>t f. i = (if f then Suc a else a) \<and> \<not> is_var (old_value G (og_cells G i)) \<and>
        H i = marked t f \<and> block G src N a 2 t)"

type_synonym copy_trail = "((CopyTrailTag \<times> nat) \<times> HeapCellValue) list"

definition copy_inv ::
  "origin \<Rightarrow> (nat \<Rightarrow> HeapCellValue) \<Rightarrow> (nat \<Rightarrow> HeapCellValue) \<Rightarrow> nat \<Rightarrow> nat \<Rightarrow> copy_trail \<Rightarrow> bool" where
  "copy_inv G src H N k tr \<longleftrightarrow>
     og_start G \<le> k \<and> k \<le> N \<and> N < 2 ^ 56 \<and>
     (\<forall>j. og_start G \<le> j \<and> j < N \<and> \<not> is_functor (src j) \<longrightarrow> src j \<in> set (sources G)) \<and>
     (\<forall>i<og_len G. H i = og_cells G i \<or> forwarded G src H N k i) \<and>
     (\<forall>i. og_len G \<le> i \<and> i < og_start G \<longrightarrow> H i = og_cells G i) \<and>
     (\<forall>j. og_start G \<le> j \<and> j < k \<longrightarrow> scanned G src H N k j) \<and>
     (\<forall>j. k \<le> j \<and> j < N \<longrightarrow> pending G src H k j) \<and>
     (\<forall>i<og_len G. H i \<noteq> og_cells G i \<longrightarrow> (\<exists>tag. ((tag, i), og_cells G i) \<in> set tr)) \<and>
     (\<forall>((tag, i), v)\<in>set tr. tag \<in> {TrHeapCell, TrAttrVar} \<and> i < og_len G \<and> v = og_cells G i)"

lemma copy_invD:
  assumes "copy_inv G src H N k tr"
  shows "og_start G \<le> k" "k \<le> N" "N < 2 ^ 56"
    "\<And>j. og_start G \<le> j \<Longrightarrow> j < N \<Longrightarrow> \<not> is_functor (src j) \<Longrightarrow> src j \<in> set (sources G)"
    "\<And>i. i < og_len G \<Longrightarrow> H i = og_cells G i \<or> forwarded G src H N k i"
    "\<And>j. og_start G \<le> j \<Longrightarrow> j < k \<Longrightarrow> scanned G src H N k j"
    "\<And>j. k \<le> j \<Longrightarrow> j < N \<Longrightarrow> pending G src H k j"
  using assms by (simp_all add: copy_inv_def)

section \<open>Progress keeps what was established\<close>

definition grows where
  "grows G src H N k src' H' N' k' \<longleftrightarrow>
     N \<le> N' \<and> k \<le> k' \<and> (\<forall>j. og_start G \<le> j \<and> j < N \<longrightarrow> src' j = src j) \<and>
     (\<forall>j. og_start G \<le> j \<and> j < k \<longrightarrow> H' j = H j) \<and>
     (\<forall>i m. i < og_len G \<and> og_start G \<le> m \<and> m < N \<and> H i = mk TVar m \<longrightarrow> H' i = H i)"

lemma block_grows: "block G src N a l t \<Longrightarrow> grows G src H N k src' H' N' k' \<Longrightarrow> block G src' N' a l t"
  by (auto simp: block_def grows_def)

lemma renamed_grows:
  assumes "renamed G src H k d m" "grows G src H N k src' H' N' k'" "k \<le> N"
  shows "renamed G src' H' k' d m"
  using assms by (simp add: renamed_def grows_def)

lemma copied_as_grows: "copied_as G src N d v \<Longrightarrow> grows G src H N k src' H' N' k' \<Longrightarrow> copied_as G src' N' d v"
  by (auto simp: copied_as_def intro: block_grows split: HeapCellValueTag.splits)

lemma scanned_grows:
  assumes "scanned G src H N k j" "grows G src H N k src' H' N' k'" "og_start G \<le> j" "j < k" "k \<le> N"
  shows "scanned G src' H' N' k' j"
proof -
  have same: "src' j = src j" "H' j = H j" and m: "m < N \<Longrightarrow> og_start G \<le> m \<Longrightarrow> src' m = src m \<and> m < N'" for m
    using assms by (auto simp: grows_def)
  show ?thesis using assms(1) copied_as_grows [OF _ assms(2)] renamed_grows [OF _ assms(2,5)]
    unfolding scanned_def same by (metis m)
qed

lemma pending_grows:
  assumes "pending G src H k j" "grows G src H N k src' H' N' k'" "og_start G \<le> j" "j < N" "k \<le> N" "H' j = H j"
  shows "pending G src' H' k' j"
proof -
  have "src' j = src j" using assms by (simp add: grows_def)
  then show ?thesis using assms(1,6) renamed_grows [OF _ assms(2,5)] by (auto simp: pending_def split: if_splits)
qed

lemma forwarded_grows:
  assumes "forwarded G src H N k i" "grows G src H N k src' H' N' k'" "k \<le> N" "H' i = H i"
  shows "forwarded G src' H' N' k' i"
  using assms(1,4) block_grows [OF _ assms(2)] renamed_grows [OF _ assms(2,3)] unfolding forwarded_def by metis

lemma old_no_new_var:
  assumes "copyable G deep" "i < og_len G" "og_start G \<le> m" "m < 2 ^ 56"
  shows "og_cells G i \<noteq> mk TVar m"
proof
  assume v: "og_cells G i = mk TVar m"
  note r = mk_readings [OF assms(4), of TVar]
  have "og_cells G i \<in> set (sources G)" using v r assms(2) by (intro source_cell) (simp_all add: is_functor_def)
  from source_var(3) [OF assms(1) this] v r assms(1,3) show False by (simp add: is_var_def copyable_def)
qed

lemma copy_inv_step:
  assumes ok: "copyable G deep" and inv: "copy_inv G src H N k tr"
    and new: "k < N" "N \<le> N'" "N' < 2 ^ 56" "\<And>j. og_start G \<le> j \<Longrightarrow> j < N \<Longrightarrow> src' j = src j"
      "\<And>j. og_len G \<le> j \<Longrightarrow> j < N \<Longrightarrow> j \<noteq> k \<Longrightarrow> H' j = H j"
      "\<And>j. N \<le> j \<Longrightarrow> j < N' \<Longrightarrow> (\<not> is_functor (src' j) \<longrightarrow> src' j \<in> set (sources G)) \<and> pending G src' H' k' j"
    and here: "k' = Suc k \<and> scanned G src' H' N' k' k \<or> k' = k \<and> pending G src' H' k' k"
    and old: "\<And>i. i < og_len G \<Longrightarrow> i \<noteq> p \<Longrightarrow> H' i = H i"
      "H' p = H p \<and> tr' = tr \<or> p < og_len G \<and> H p = og_cells G p \<and> forwarded G src' H' N' k' p \<and>
        (\<exists>tag\<in>{TrHeapCell, TrAttrVar}. tr' = tr @ [((tag, p), og_cells G p)])"
  shows "copy_inv G src' H' N' k' tr'"
proof -
  note D = copy_invD [OF inv]
  have len: "og_len G \<le> og_start G" using ok by (simp add: copyable_def)
  have grows: "grows G src H N k src' H' N' k'"
  proof -
    have "H' i = H i" if "i < og_len G" "og_start G \<le> m" "m < N" "H i = mk TVar m" for i m
      using that old old_no_new_var [OF ok that(1,2)] D(3) by (cases "i = p") auto
    then show ?thesis unfolding grows_def using new(2,4,5) here D(2) len by auto
  qed
  have "H' i = og_cells G i \<or> forwarded G src' H' N' k' i" if i: "i < og_len G" for i
    using D(5) [OF i] old(1) [OF i] old(2) forwarded_grows [OF _ grows D(2), of i] by (cases "i = p") auto
  moreover have "scanned G src' H' N' k' j" if "og_start G \<le> j" "j < k'" for j
    using that here scanned_grows [OF D(6) grows _ _ D(2), of j] by (cases "j = k") auto
  moreover have "pending G src' H' k' j" if "k' \<le> j" "j < N'" for j
    using that here new(5) [of j] new(6) D(1) len pending_grows [OF D(7) grows _ _ D(2), of j] by (cases "j = k"; cases "j < N") auto
  moreover have "\<not> is_functor (src' j) \<longrightarrow> src' j \<in> set (sources G)" if "og_start G \<le> j" "j < N'" for j
    using that new(4,6) D(4) by (cases "j < N") auto
  moreover have "\<exists>tag. ((tag, i), og_cells G i) \<in> set tr'" if "i < og_len G" "H' i \<noteq> og_cells G i" for i
    using that old inv unfolding copy_inv_def by (cases "i = p") auto
  moreover have "H' i = og_cells G i" if "og_len G \<le> i" "i < og_start G" for i
    using that new(5) [of i] inv D(1,2) unfolding copy_inv_def by auto
  moreover have "\<forall>((tag, i), v)\<in>set tr'. tag \<in> {TrHeapCell, TrAttrVar} \<and> i < og_len G \<and> v = og_cells G i"
    using old(2) inv unfolding copy_inv_def by auto
  ultimately show ?thesis unfolding copy_inv_def using D(1,2) new here by auto
qed

section \<open>References during the copy\<close>

text \<open>What an old cell that is not a functor can have become.\<close>

lemma source_cell_now:
  assumes "copyable G deep" "copy_inv G src H N k tr" "x \<in> set (sources G)" "is_var x"
  shows "H (cell_val x) = old_store G x \<or>
    is_var (old_store G x) \<and> cell_val (old_store G x) = cell_val x \<and> old_value G x = old_store G x \<and>
      (\<exists>m. renamed G src H k (old_store G x) m) \<or>
    cell_val x \<in> list_cells G \<and> \<not> is_var (old_value G x) \<and>
      (\<exists>a\<in>set (locs_of TLis G). \<exists>t f. cell_val x = (if f then Suc a else a) \<and> H (cell_val x) = marked t f \<and> block G src N a 2 t)"
proof -
  note x = source_var [OF assms(1,3,4)]
  have val: "old_value G (old_store G x) = old_value G x"
  proof (cases "is_var (old_store G x) \<and> old_store G x \<noteq> x")
    case True
    then have "follow (old_store G) x = follow (old_store G) (old_store G x)" by (simp add: follow_unfold [of _ x])
    then show ?thesis using x(6) by (auto simp: old_value_def value_of_def old_store_def)
  next
    case False
    then show ?thesis
      using value_of_stop [of "og_stack G" "og_cells G" x] by (cases "is_var (old_store G x)") (auto simp: old_value_def old_store_def value_of_not_var)
  qed
  consider "H (cell_val x) = og_cells G (cell_val x)" | "forwarded G src H N k (cell_val x)"
    using copy_invD(5) [OF assms(2) x(3)] by blast
  then show ?thesis
  proof cases
    case 2
    have "\<not> is_functor (og_cells G (cell_val x))" using assms(1) x(5) by (auto simp: copyable_def source_ok_def)
    then have "cell_val x \<notin> set (locs_of TStr G)"
      using assms(1) by (auto simp: locs_of_def copyable_def source_ok_def Let_def)
    moreover have "is_var (old_store G x) \<Longrightarrow> cell_val (old_store G x) = cell_val x \<Longrightarrow> old_value G x = old_store G x"
    proof -
      assume v: "is_var (old_store G x)" "cell_val (old_store G x) = cell_val x"
      then have "old_store G (old_store G x) = old_store G x" using source_var(4) [OF assms(1) x(5)] x(4) by simp
      then show "old_value G x = old_store G x"
        using value_of_stop [of "og_stack G" "og_cells G" "old_store G x"] val by (simp add: old_value_def old_store_def)
    qed
    moreover have "i = (if f then Suc a else a) \<Longrightarrow> a \<in> set (locs_of TLis G) \<Longrightarrow> i \<in> list_cells G" for i a f
      by (auto simp: list_cells_def split: if_splits)
    ultimately show ?thesis using 2 x(4) val unfolding forwarded_def by metis
  qed (simp add: x(4))
qed

lemma follow_to_var:
  assumes "copyable G deep" "copy_inv G src H N k tr" "x \<in> set (sources G)" "is_var (old_value G x)"
  shows "follow (vstore (og_stack G) H) x = Some (old_value G x) \<and> H (cell_val (old_value G x)) = old_value G x \<or>
    (\<exists>m. renamed G src H k (old_value G x) m \<and> follow (vstore (og_stack G) H) x = Some (mk TVar m))"
proof -
  let ?f = "vstore (og_stack G) H"
  have isv: "is_var y" if "is_var (old_value G y)" for y using that old_not_var(2) [of y G] by metis
  have to_new: "follow ?f x = Some (mk TVar m)" if "x \<in> set (sources G)" "is_var x" "H (cell_val x) = mk TVar m" "renamed G src H k d m" for x d m
  proof -
    note x = source_var [OF assms(1) that(1,2)]
    have m: "og_start G \<le> m" "m < 2 ^ 56" "H m = mk TVar m"
      using that(4) copy_invD(2,3) [OF assms(2)] by (auto simp: renamed_def)
    note r = mk_readings [OF m(2), of TVar]
    have "?f x = mk TVar m" using x(1) that(3) by (auto simp: vstore_heap)
    moreover have "?f (mk TVar m) = mk TVar m" using r m(3) by (simp add: vstore_heap)
    ultimately show ?thesis using r by (simp add: follow_unfold [of ?f x] follow_unfold [of ?f "mk TVar m"] is_var_def)
  qed
  obtain r where "follow (old_store G) x = Some r" using source_var(6) [OF assms(1,3) isv [OF assms(4)]] by blast
  then show ?thesis
    using assms(3,4)
  proof (induction rule: follow_induct)
    case (found x)
    note x = source_var [OF assms(1) found(2) isv [OF found(3)]]
    have d: "old_value G x = x" "old_store G x = x"
      using value_unbound(2) [OF assms(1) found(2,3)] value_unbound(1) [OF assms(1) found(2,3)] found(1) x(4)
      by (auto simp: follow_unfold [of _ x])
    from source_cell_now [OF assms(1,2) found(2) isv [OF found(3)]] found(3) d
    consider "H (cell_val x) = x" | m where "renamed G src H k x m" by auto
    then show ?case
    proof cases
      case 1
      then have "?f x = x" using x(1) by (auto simp: vstore_heap)
      then show ?thesis using 1 d by (simp add: follow_unfold)
    next
      case 2
      then have "H (cell_val x) = mk TVar m" by (simp add: renamed_def)
      from to_new [OF found(2) isv [OF found(3)] this 2] 2 d show ?thesis by auto
    qed
  next
    case (refers x r)
    note x = source_var [OF assms(1) refers(4) isv [OF refers(5)]]
    have "follow (old_store G) x = follow (old_store G) (old_store G x)" using refers by (simp add: follow_unfold [of _ x])
    then have d: "old_value G (old_store G x) = old_value G x"
      using x(6) by (auto simp: old_value_def value_of_def old_store_def)
    from source_cell_now [OF assms(1,2) refers(4) isv [OF refers(5)]] refers(5)
    consider "H (cell_val x) = old_store G x" | m where "cell_val (old_store G x) = cell_val x" "old_value G x = old_store G x" "renamed G src H k (old_store G x) m" by auto
    then show ?case
    proof cases
      case 1
      then have "?f x = old_store G x" using x(1) by (auto simp: vstore_heap)
      then have "follow ?f x = follow ?f (old_store G x)" using refers(1,2) by (simp add: follow_unfold [of ?f x])
      then show ?thesis using refers(3) [unfolded x(4), OF x(5)] refers(5) d x(4) by simp
    next
      case 2
      then have "H (cell_val x) = mk TVar m" by (simp add: renamed_def)
      from to_new [OF refers(4) isv [OF refers(5)] this 2(3)] 2 show ?thesis by auto
    qed
  qed
qed

lemma follow_off_lists:
  assumes "copyable G deep" "copy_inv G src H N k tr" "x \<in> set (sources G)" "is_var x" "\<not> is_var (old_value G x)"
    "H (cell_val x) = old_store G x"
  shows "\<exists>r. follow (vstore (og_stack G) H) x = Some r \<and> vstore (og_stack G) H r = old_value G x \<and> is_var r"
proof -
  let ?f = "vstore (og_stack G) H"
  obtain r where "follow (old_store G) x = Some r" using source_var(6) [OF assms(1,3,4)] by blast
  then show ?thesis
    using assms(3-6)
  proof (induction rule: follow_induct)
    case (found x)
    note x = source_var [OF assms(1) found(2,3)]
    have f: "?f x = old_store G x" using x(1) found(5) by (auto simp: vstore_heap)
    have "old_value G x = old_store G x"
      using value_of_stop [of "og_stack G" "og_cells G" x] found(1) by (simp add: old_value_def old_store_def)
    then show ?case using f found by (simp add: follow_unfold [of ?f x])
  next
    case (refers x r)
    note x = source_var [OF assms(1) refers(4,5)]
    have f: "?f x = old_store G x" using x(1) refers(7) by (auto simp: vstore_heap)
    then have step: "follow ?f x = follow ?f (old_store G x)" using refers(1,2) by (simp add: follow_unfold [of ?f x])
    have "follow (old_store G) x = follow (old_store G) (old_store G x)" using refers by (simp add: follow_unfold [of _ x])
    then have d: "old_value G (old_store G x) = old_value G x"
      using x(6) by (auto simp: old_value_def value_of_def old_store_def)
    have src: "old_store G x \<in> set (sources G)" using x(4,5) by simp
    have "tails_direct G x" using copyable_source [OF assms(1) refers(4)] by simp
    then have "cell_val (old_store G x) \<notin> list_cells G" using refers by (simp add: tails_direct_def)
    moreover have "is_var (old_store G (old_store G x)) \<Longrightarrow> old_value G (old_store G x) \<noteq> old_store G (old_store G x)"
      using d refers(6) by metis
    ultimately have "H (cell_val (old_store G x)) = old_store G (old_store G x)"
      using source_cell_now [OF assms(1,2) src refers(1)] by blast
    from refers(3) [OF src refers(1) _ this] refers(6) d step show ?case by simp
  qed
qed

text \<open>All a reference can lead to.\<close>

lemma follow_now [consumes 4, case_names unbound renamed bound listed]:
  assumes "copyable G deep" "copy_inv G src H N k tr" "x \<in> set (sources G)" "is_var x"
  obtains "is_var (old_value G x)" "H (cell_val (old_value G x)) = old_value G x"
      "follow (vstore (og_stack G) H) x = Some (old_value G x)"
  | m where "is_var (old_value G x)" "renamed G src H k (old_value G x) m" "follow (vstore (og_stack G) H) x = Some (mk TVar m)"
  | r where "\<not> is_var (old_value G x)" "follow (vstore (og_stack G) H) x = Some r" "vstore (og_stack G) H r = old_value G x" "is_var r"
  | a t f where "\<not> is_var (old_value G x)" "a \<in> set (locs_of TLis G)" "cell_val x = (if f then Suc a else a)"
      "H (cell_val x) = marked t f" "block G src N a 2 t" "t < 2 ^ 56" "follow (vstore (og_stack G) H) x = Some x"
      "vstore (og_stack G) H x = marked t f"
proof (cases "is_var (old_value G x)")
  case True
  then show ?thesis using follow_to_var [OF assms(1-3) True] that(1,2) by blast
next
  case False
  from source_cell_now [OF assms] False
  consider "H (cell_val x) = old_store G x" | a t f where "a \<in> set (locs_of TLis G)" "cell_val x = (if f then Suc a else a)"
      "H (cell_val x) = marked t f" "block G src N a 2 t" by auto
  then show ?thesis
  proof cases
    case 1
    then show ?thesis using follow_off_lists [OF assms False] that(3) False by blast
  next
    case 2
    have t: "t < 2 ^ 56" using 2(4) copy_invD(3) [OF assms(2)] by (simp add: block_def)
    have f: "vstore (og_stack G) H x = marked t f"
      using source_var(1) [OF assms(1,3,4)] 2(3) by (auto simp: vstore_heap)
    then have "follow (vstore (og_stack G) H) x = Some x"
      using marked_readings'(1) [OF t] by (simp add: follow_unfold is_var_def)
    with f t 2 False that(4) show ?thesis by blast
  qed
qed

end
