(* ===== verification/CopySteps.thy ===== *)
theory CopySteps
  imports CopyInvariant
begin

text \<open>
  The steps of the scan on cells: each keeps the invariant, and a measure of the work left pays for the cells
  it appends.
\<close>

section \<open>Unforwarded cells\<close>

definition edge :: "origin \<Rightarrow> HeapCellValue \<Rightarrow> bool" where
  "edge G c \<longleftrightarrow> cell_get_tag c = TLis \<and> og_start G \<le> cell_val c"

lemma list_source:
  assumes "copyable G deep" "a \<in> set (locs_of TLis G)"
  shows "Suc a < og_len G" "\<not> is_functor (og_cells G a)" "\<not> is_functor (og_cells G (Suc a))" "mk TLis a \<in> set (sources G)"
proof -
  obtain c where c: "c \<in> set (sources G)" "cell_get_tag c = TLis" "cell_val c = a" using assms(2) by (auto simp: locs_of_def)
  then have ok: "source_ok G deep c" using copyable_source assms(1) by blast
  then show "Suc a < og_len G" "\<not> is_functor (og_cells G a)" "\<not> is_functor (og_cells G (Suc a))"
    using c by (simp_all add: source_ok_def Let_def)
  have "clean c" using ok c(2) by (simp add: source_ok_def Let_def)
  then show "mk TLis a \<in> set (sources G)" using clean_mk c by metis
qed

lemma struct_source:
  assumes "copyable G deep" "a \<in> set (locs_of TStr G)"
  shows "a + struct_len G a \<le> og_len G" "is_functor (og_cells G a)" "\<not> is_structure_index (og_cells G (a - 1))"
    "\<And>i. 0 < i \<Longrightarrow> i < struct_len G a \<Longrightarrow> \<not> is_functor (og_cells G (a + i))" "0 < struct_len G a"
proof -
  obtain c where c: "c \<in> set (sources G)" "cell_get_tag c = TStr" "cell_val c = a" using assms(2) by (auto simp: locs_of_def)
  then have "source_ok G deep c" using copyable_source assms(1) by blast
  then show "a + struct_len G a \<le> og_len G" "is_functor (og_cells G a)" "\<not> is_structure_index (og_cells G (a - 1))"
    "\<And>i. 0 < i \<Longrightarrow> i < struct_len G a \<Longrightarrow> \<not> is_functor (og_cells G (a + i))"
    using c by (simp_all add: source_ok_def Let_def)
  show "0 < struct_len G a" by (simp add: struct_len_def)
qed

lemma plain_now:
  assumes "copyable G deep" "copy_inv G src H N k tr" "q < og_len G" "\<not> is_functor (og_cells G q)" "\<not> edge G (H q)"
  shows "H q = og_cells G q \<or> is_var (og_cells G q) \<and> old_value G (og_cells G q) = og_cells G q \<and>
    (\<exists>m. renamed G src H k (og_cells G q) m \<and> H q = mk TVar m)"
proof -
  consider "H q = og_cells G q" | "forwarded G src H N k q" using copy_invD(5) [OF assms(2,3)] by blast
  then show ?thesis
  proof cases
    case 2
    have "q \<notin> set (locs_of TStr G)" using struct_source(2) [OF assms(1)] assms(4) by blast
    moreover have "\<not> (\<exists>a t f. H q = marked t f \<and> block G src N a 2 t)"
    proof
      assume "\<exists>a t f. H q = marked t f \<and> block G src N a 2 t"
      then obtain a t f where e: "H q = marked t f" "block G src N a 2 t" by blast
      then have "t < 2 ^ 56" "og_start G \<le> t" using copy_invD(3) [OF assms(2)] by (simp_all add: block_def)
      with e(1) assms(5) marked_readings'(1,2) [of t f] show False by (simp add: edge_def)
    qed
    ultimately obtain m where m: "is_var (og_cells G q)" "cell_val (og_cells G q) = q" "renamed G src H k (og_cells G q) m"
      using 2 unfolding forwarded_def by blast
    have "og_cells G q \<in> set (sources G)" by (rule source_cell [OF assms(3,4)])
    from source_var(4) [OF assms(1) this m(1)] m(2) have "old_store G (og_cells G q) = og_cells G q" by simp
    then have "old_value G (og_cells G q) = og_cells G q"
      using value_of_stop [of "og_stack G" "og_cells G" "og_cells G q"] by (simp add: old_value_def old_store_def)
    with m show ?thesis by (auto simp: renamed_def)
  qed simp
qed

lemma forwarded_tag:
  assumes "copy_inv G src H N k tr" "forwarded G src H N k i"
  shows "cell_get_tag (H i) \<in> {TVar, TStr, TLis}"
proof -
  note D = copy_invD(2,3) [OF assms(1)]
  have small: "block G src N a l t \<Longrightarrow> 0 < l \<Longrightarrow> t < 2 ^ 56" for a l t using D by (simp add: block_def)
  consider m where "H i = mk TVar m" "m < 2 ^ 56" | t where "H i = mk TStr t" "t < 2 ^ 56" | t f where "H i = marked t f" "t < 2 ^ 56"
    using assms(2) D small [of _ "struct_len G i"] small [of _ 2]
    by (fastforce simp: forwarded_def renamed_def struct_len_def)
  then show ?thesis using mk_readings(2) marked_readings'(1) by cases auto
qed

text \<open>An edge is found in a cell of a list only, and leads to its copy.\<close>

lemma edge_cases:
  assumes "copyable G deep" "copy_inv G src H N k tr" "q < og_len G" "\<not> is_functor (og_cells G q)" "edge G (H q)"
  obtains b t f where "b \<in> set (locs_of TLis G)" "q = (if f then Suc b else b)" "H q = marked t f" "block G src N b 2 t"
    "t < 2 ^ 56"
proof -
  have "og_cells G q \<noteq> H q"
  proof
    assume e: "og_cells G q = H q"
    then have "og_cells G q \<in> set (sources G)" using source_cell assms(3,4) by blast
    then have "cell_val (H q) \<in> set (locs_of TLis G)" using assms(5) e by (auto simp: locs_of_def edge_def)
    from list_source(1) [OF assms(1) this] assms(1,5) show False by (simp add: edge_def copyable_def)
  qed
  then have f: "forwarded G src H N k q" using copy_invD(5) [OF assms(2,3)] by auto
  moreover have "q \<notin> set (locs_of TStr G)" using struct_source(2) [OF assms(1)] assms(4) by blast
  moreover have "\<not> renamed G src H k (og_cells G q) m" if "cell_val (og_cells G q) = q" for m
  proof
    assume m: "renamed G src H k (og_cells G q) m"
    then have "m < 2 ^ 56" using copy_invD(2,3) [OF assms(2)] by (simp add: renamed_def)
    from mk_readings(2) [OF this, of TVar] m assms(5) that show False by (simp add: renamed_def edge_def)
  qed
  ultimately obtain b t f where b: "b \<in> set (locs_of TLis G)" "q = (if f then Suc b else b)" "H q = marked t f" "block G src N b 2 t"
    unfolding forwarded_def by blast
  have "t < 2 ^ 56" using b(4) copy_invD(3) [OF assms(2)] by (simp add: block_def)
  with b that show ?thesis by blast
qed

lemma edge_now:
  assumes "copyable G deep" "copy_inv G src H N k tr" "a \<in> set (locs_of TLis G)" "q \<in> {a, Suc a}" "edge G (H q)"
  shows "block G src N a 2 (cell_val (H q))"
proof -
  note a = list_source [OF assms(1,3)]
  have "q < og_len G" "\<not> is_functor (og_cells G q)" using a assms(4) by auto
  from edge_cases [OF assms(1,2) this assms(5)] obtain b t f where
    b: "b \<in> set (locs_of TLis G)" "q = (if f then Suc b else b)" "H q = marked t f" "block G src N b 2 t" "t < 2 ^ 56" .
  have "b = a" using b(1,2) assms(1,3,4) by (auto simp: copyable_def split: if_splits)
  moreover have "cell_val (H q) = t" using b(3,5) marked_readings'(2) by simp
  ultimately show ?thesis using b(4) by simp
qed

section \<open>The work left\<close>

definition weight :: "origin \<Rightarrow> (nat \<Rightarrow> HeapCellValue) \<Rightarrow> (nat \<Rightarrow> HeapCellValue) \<Rightarrow> nat \<Rightarrow> nat" where
  "weight G src H j =
     (if is_functor (src j) \<or> is_var (old_value G (src j)) then 1 else if is_var (src j) \<and> H j = src j then 6 else 5)"

definition uncopied :: "origin \<Rightarrow> (nat \<Rightarrow> HeapCellValue) \<Rightarrow> nat set" where
  "uncopied G H =
     (\<Union>a\<in>{a\<in>set (locs_of TStr G). H a = og_cells G a}. {a..<a + struct_len G a}) \<union>
     (\<Union>a\<in>{a\<in>set (locs_of TLis G). \<not> edge G (H a) \<and> \<not> edge G (H (Suc a))}. {a..<a + 2})"

definition work :: "origin \<Rightarrow> (nat \<Rightarrow> HeapCellValue) \<Rightarrow> (nat \<Rightarrow> HeapCellValue) \<Rightarrow> nat \<Rightarrow> nat \<Rightarrow> nat" where
  "work G src H N k = (\<Sum>j = k..<N. weight G src H j) + 7 * card (uncopied G H)"

lemma weight_bounds: "1 \<le> weight G src H j" "weight G src H j \<le> 6"
  by (simp_all add: weight_def)

lemma uncopied_bounded:
  assumes "copyable G deep"
  shows "uncopied G H \<subseteq> {..<og_len G}"
proof
  fix q
  assume "q \<in> uncopied G H"
  then consider a where "a \<in> set (locs_of TStr G)" "q < a + struct_len G a" | a where "a \<in> set (locs_of TLis G)" "q < a + 2"
    unfolding uncopied_def by auto
  then show "q \<in> {..<og_len G}"
    using struct_source(1) [OF assms] list_source(1) [OF assms] by cases fastforce+
qed

lemma finite_uncopied: "copyable G deep \<Longrightarrow> finite (uncopied G H)"
  by (rule finite_subset [OF uncopied_bounded]) simp_all

lemma work_next:
  assumes "k < N" "N \<le> N'" "\<And>j. k < j \<Longrightarrow> j < N \<Longrightarrow> src' j = src j \<and> H' j = H j"
  shows "work G src' H' N' (Suc k) + weight G src H k + 7 * card (uncopied G H) =
    work G src H N k + (\<Sum>j = N..<N'. weight G src' H' j) + 7 * card (uncopied G H')"
proof -
  have "(\<Sum>j = Suc k..<N'. weight G src' H' j) =
      (\<Sum>j = Suc k..<N. weight G src' H' j) + (\<Sum>j = N..<N'. weight G src' H' j)"
    using assms(1,2) by (simp add: sum.atLeastLessThan_concat)
  moreover have "(\<Sum>j = Suc k..<N. weight G src' H' j) = (\<Sum>j = Suc k..<N. weight G src H j)"
    using assms(3) by (intro sum.cong) (auto simp: weight_def)
  moreover have "(\<Sum>j = k..<N. weight G src H j) = weight G src H k + (\<Sum>j = Suc k..<N. weight G src H j)"
    using assms(1) by (simp add: sum.atLeast_Suc_lessThan)
  ultimately show ?thesis by (simp add: work_def)
qed

lemma block_weight: "(\<Sum>j = N..<N + l. weight G src H j) \<le> 6 * l"
  using sum_bounded_above [of "{N..<N + l}" "weight G src H" 6] weight_bounds(2) by simp

definition good_step where
  "good_step G src H N k src' H' N' k' tr' \<longleftrightarrow>
     copy_inv G src' H' N' k' tr' \<and> N \<le> N' \<and> (\<forall>j. og_start G \<le> j \<and> j < N \<longrightarrow> src' j = src j) \<and>
     N' + work G src' H' N' k' \<le> N + work G src H N k \<and> work G src' H' N' k' < work G src H N k"

lemma good_stepI:
  assumes "copy_inv G src' H' N' (Suc k) tr'" "k < N" "N \<le> N'" "\<And>j. og_start G \<le> j \<Longrightarrow> j < N \<Longrightarrow> src' j = src j"
    "og_start G \<le> k" "\<And>j. k < j \<Longrightarrow> j < N \<Longrightarrow> H' j = H j"
    "N' - N + (\<Sum>j = N..<N'. weight G src' H' j) + 7 * card (uncopied G H') < weight G src H k + 7 * card (uncopied G H) + 1"
    "(\<Sum>j = N..<N'. weight G src' H' j) + 7 * card (uncopied G H') < weight G src H k + 7 * card (uncopied G H)"
  shows "good_step G src H N k src' H' N' (Suc k) tr'"
proof -
  have "work G src' H' N' (Suc k) + weight G src H k + 7 * card (uncopied G H) =
      work G src H N k + (\<Sum>j = N..<N'. weight G src' H' j) + 7 * card (uncopied G H')"
    using assms(2-6) by (intro work_next) auto
  with assms show ?thesis unfolding good_step_def by auto
qed

lemma uncopied_mono:
  assumes "\<And>a. a \<in> set (locs_of TStr G) \<Longrightarrow> H' a = og_cells G a \<Longrightarrow> H a = og_cells G a"
    and "\<And>a. a \<in> set (locs_of TLis G) \<Longrightarrow> \<not> edge G (H' a) \<and> \<not> edge G (H' (Suc a)) \<Longrightarrow> \<not> edge G (H a) \<and> \<not> edge G (H (Suc a))"
  shows "uncopied G H' \<subseteq> uncopied G H"
  unfolding uncopied_def by (rule Un_mono; rule UN_mono) (use assms in auto)

lemma struct_less: "copyable G deep \<Longrightarrow> a \<in> set (locs_of TStr G) \<Longrightarrow> a < og_len G"
  using struct_source(1,5) [of G deep a] by simp

lemma uncopied_cong:
  assumes "copyable G deep" "\<And>q. q < og_len G \<Longrightarrow> H' q = H q"
  shows "uncopied G H' = uncopied G H"
proof (rule antisym)
  have l: "a \<in> set (locs_of TLis G) \<Longrightarrow> H' a = H a \<and> H' (Suc a) = H (Suc a)" for a
    using list_source(1) [OF assms(1), of a] assms(2) by simp
  have t: "a \<in> set (locs_of TStr G) \<Longrightarrow> H' a = H a" for a
    using struct_less [OF assms(1), of a] assms(2) by simp
  show "uncopied G H' \<subseteq> uncopied G H" "uncopied G H \<subseteq> uncopied G H'"
    by (rule uncopied_mono; use l t in simp)+
qed

section \<open>Scanning without copying\<close>

lemma step_set:
  assumes ok: "copyable G deep" and inv: "copy_inv G src H N k tr" and k: "k < N"
    and "scanned G src (H(k := v)) N (Suc k) k"
  shows "good_step G src H N k src (H(k := v)) N (Suc k) tr"
proof (rule good_stepI)
  note D = copy_invD(1-3) [OF inv]
  have len: "og_len G \<le> og_start G" using ok by (simp add: copyable_def)
  show "copy_inv G src (H(k := v)) N (Suc k) tr"
    using assms D len by (intro copy_inv_step [OF ok inv, where p = N and N' = N and k' = "Suc k"]) auto
  have "uncopied G (H(k := v)) = uncopied G H" using D len by (intro uncopied_cong [OF ok]) auto
  then show "N - N + (\<Sum>j = N..<N. weight G src (H(k := v)) j) + 7 * card (uncopied G (H(k := v))) <
      weight G src H k + 7 * card (uncopied G H) + 1"
    "(\<Sum>j = N..<N. weight G src (H(k := v)) j) + 7 * card (uncopied G (H(k := v))) < weight G src H k + 7 * card (uncopied G H)"
    using weight_bounds(1) [of G src H k] by simp_all
qed (use k copy_invD(1) [OF inv] in auto)

lemma step_value:
  assumes ok: "copyable G deep" and inv: "copy_inv G src H N k tr" and k: "k < N"
    and "H k = src k" "is_var (src k)" "\<not> is_var (old_value G (src k))"
  shows "good_step G src H N k src (H(k := old_value G (src k))) N k tr"
proof -
  note D = copy_invD(1-3) [OF inv]
  let ?H = "H(k := old_value G (src k))"
  have len: "og_len G \<le> og_start G" using ok by (simp add: copyable_def)
  have nf: "\<not> is_functor (src k)" using assms(5) by (auto simp: is_functor_def is_var_def)
  have "copy_inv G src ?H N k tr"
    using D len assms nf by (intro copy_inv_step [OF ok inv, where p = N and N' = N and k' = k]) (auto simp: pending_def)
  moreover have "uncopied G ?H = uncopied G H" using D len by (intro uncopied_cong [OF ok]) auto
  moreover have "(\<Sum>j = k..<N. weight G src ?H j) < (\<Sum>j = k..<N. weight G src H j)"
  proof (rule sum_strict_mono_ex1)
    have less: "weight G src ?H k < weight G src H k" using assms(4-6) nf by (auto simp: weight_def)
    then show "\<exists>j\<in>{k..<N}. weight G src ?H j < weight G src H j" using k by (intro bexI [of _ k]) auto
    have "weight G src ?H j = weight G src H j" if "j \<noteq> k" for j using that by (simp add: weight_def)
    then show "\<forall>j\<in>{k..<N}. weight G src ?H j \<le> weight G src H j" using less by (metis order.refl less_imp_le)
  qed simp
  ultimately show ?thesis by (simp add: good_step_def work_def)
qed

text \<open>An unbound variable gets its copy.\<close>

lemma step_rename:
  assumes ok: "copyable G deep" and inv: "copy_inv G src H N k tr" and k: "k < N" and nf: "\<not> is_functor (src k)"
    and d: "d = old_value G (src k)" "is_var d" "H (cell_val d) = d" and tag: "tag \<in> {TrHeapCell, TrAttrVar}"
  shows "good_step G src H N k src (H(k := mk TVar k, cell_val d := mk TVar k)) N (Suc k) (tr @ [((tag, cell_val d), d)])"
proof (rule good_stepI)
  note D = copy_invD(1-4) [OF inv]
  let ?H = "H(k := mk TVar k, cell_val d := mk TVar k)"
  have len: "og_len G \<le> og_start G" using ok by (simp add: copyable_def)
  have x: "src k \<in> set (sources G)" using D(1,4) k nf by simp
  have ds: "d \<in> set (sources G)" using source_value [OF ok x] d(1) by simp
  have p: "cell_val d < og_len G" by (rule source_var(3) [OF ok ds d(2)])
  have og: "og_cells G (cell_val d) = d" using value_unbound(1) [OF ok x] d by simp
  have kp: "k \<noteq> cell_val d" using D(1) p len by simp
  have r: "renamed G src ?H (Suc k) d k" using D(1) p kp nf d(1) by (simp add: renamed_def)
  then have sc: "scanned G src ?H N (Suc k) k" using nf d kp by (auto simp: scanned_def)
  have fw: "forwarded G src ?H N (Suc k) (cell_val d)" using r og d(2) by (auto simp: forwarded_def)
  show "copy_inv G src ?H N (Suc k) (tr @ [((tag, cell_val d), d)])"
    using D len k sc fw p og d(3) tag kp by (intro copy_inv_step [OF ok inv, where p = "cell_val d" and N' = N and k' = "Suc k"]) auto
  have "uncopied G ?H \<subseteq> uncopied G H"
  proof (rule uncopied_mono)
    fix a
    assume a: "a \<in> set (locs_of TStr G)"
    have "a \<noteq> k" using struct_less [OF ok a] D(1) len by simp
    moreover have "a \<noteq> cell_val d" using struct_source(2) [OF ok a] og d(2) by (auto simp: is_functor_def is_var_def)
    ultimately show "?H a = og_cells G a \<Longrightarrow> H a = og_cells G a" by simp
  next
    fix a
    assume a: "a \<in> set (locs_of TLis G)"
    have "Suc a < k" using list_source(1) [OF ok a] D(1) len by simp
    moreover have "\<not> edge G d" using d(2) by (auto simp: edge_def is_var_def)
    ultimately show "\<not> edge G (?H a) \<and> \<not> edge G (?H (Suc a)) \<Longrightarrow> \<not> edge G (H a) \<and> \<not> edge G (H (Suc a))"
      using d(3) by (auto split: if_splits)
  qed
  then have "card (uncopied G ?H) \<le> card (uncopied G H)" by (rule card_mono [OF finite_uncopied [OF ok]])
  then show "N - N + (\<Sum>j = N..<N. weight G src ?H j) + 7 * card (uncopied G ?H) < weight G src H k + 7 * card (uncopied G H) + 1"
    "(\<Sum>j = N..<N. weight G src ?H j) + 7 * card (uncopied G ?H) < weight G src H k + 7 * card (uncopied G H)"
    using weight_bounds(1) [of G src H k] by simp_all
qed (use k copy_invD(1) [OF inv] source_var(3) [OF ok source_value [OF ok copy_invD(4) [OF inv _ k nf]]] d ok in \<open>auto simp: copyable_def\<close>)

section \<open>Copying structures and lists\<close>

definition open_node :: "origin \<Rightarrow> (nat \<Rightarrow> HeapCellValue) \<Rightarrow> nat \<Rightarrow> nat \<Rightarrow> bool" where
  "open_node G H a l \<longleftrightarrow>
     a \<in> set (locs_of TStr G) \<and> l = struct_len G a \<and> H a = og_cells G a \<or>
     a \<in> set (locs_of TLis G) \<and> l = 2 \<and> \<not> edge G (H a) \<and> \<not> edge G (H (Suc a))"

lemma uncopied_iff: "q \<in> uncopied G H \<longleftrightarrow> (\<exists>b m. open_node G H b m \<and> b \<le> q \<and> q < b + m)"
proof -
  have "q \<in> uncopied G H \<longleftrightarrow>
      (\<exists>b\<in>set (locs_of TStr G). H b = og_cells G b \<and> b \<le> q \<and> q < b + struct_len G b) \<or>
      (\<exists>b\<in>set (locs_of TLis G). \<not> edge G (H b) \<and> \<not> edge G (H (Suc b)) \<and> b \<le> q \<and> q < b + 2)"
    by (auto simp: uncopied_def)
  then show ?thesis unfolding open_node_def by blast
qed

lemma open_struct:
  "copyable G deep \<Longrightarrow> a \<in> set (locs_of TStr G) \<Longrightarrow> open_node G H a l \<longleftrightarrow> l = struct_len G a \<and> H a = og_cells G a"
  using struct_source(2) [of G deep a] list_source(2) [of G deep a] by (auto simp: open_node_def)

lemma open_list:
  "copyable G deep \<Longrightarrow> a \<in> set (locs_of TLis G) \<Longrightarrow> open_node G H a l \<longleftrightarrow> l = 2 \<and> \<not> edge G (H a) \<and> \<not> edge G (H (Suc a))"
  using struct_source(2) [of G deep a] list_source(2) [of G deep a] by (auto simp: open_node_def)

lemma open_bound: "copyable G deep \<Longrightarrow> open_node G H a l \<Longrightarrow> a + l \<le> og_len G"
  using struct_source(1) [of G deep a] list_source(1) [of G deep a] by (auto simp: open_node_def)

lemma nodes_apart:
  assumes "copyable G deep" "open_node G H a l" "open_node G H' b m" "a \<noteq> b"
  shows "a + l \<le> b \<or> b + m \<le> a"
proof -
  have lists: "b \<noteq> Suc a" if "a \<in> set (locs_of TLis G)" "b \<in> set (locs_of TLis G)" for a b
    using assms(1) that by (simp add: copyable_def)
  have mixed: "Suc a < b \<or> b + struct_len G b \<le> a" if "a \<in> set (locs_of TLis G)" "b \<in> set (locs_of TStr G)" for a b
    using assms(1) that by (simp add: copyable_def)
  have structs: "a + struct_len G a \<le> b" if "a \<in> set (locs_of TStr G)" "b \<in> set (locs_of TStr G)" "a < b" for a b
  proof (rule ccontr)
    assume "\<not> a + struct_len G a \<le> b"
    then have "\<not> is_functor (og_cells G b)" using struct_source(4) [OF assms(1) that(1), of "b - a"] that(3) by simp
    with struct_source(2) [OF assms(1) that(2)] show False by simp
  qed
  show ?thesis
    using assms(2-4) lists [of a b] lists [of b a] mixed [of a b] mixed [of b a] structs [of a b] structs [of b a]
    unfolding open_node_def by (cases "a < b") auto
qed

lemma uncopied_removed:
  assumes ok: "copyable G deep" and a: "open_node G H a l" "\<And>m. \<not> open_node G H' a m"
    and other: "\<And>b m. b \<noteq> a \<Longrightarrow> open_node G H' b m \<Longrightarrow> open_node G H b m"
  shows "card (uncopied G H') + l \<le> card (uncopied G H)"
proof -
  have "{a..<a + l} \<subseteq> uncopied G H" using a(1) unfolding subset_iff uncopied_iff by auto
  moreover have "uncopied G H' \<subseteq> uncopied G H - {a..<a + l}"
  proof
    fix q
    assume "q \<in> uncopied G H'"
    then obtain b m where b: "open_node G H' b m" "b \<le> q" "q < b + m" by (auto simp: uncopied_iff)
    then have "b \<noteq> a" using a(2) by blast
    then have "q \<notin> {a..<a + l}" "open_node G H b m" using nodes_apart [OF ok a(1) b(1)] other [OF _ b(1)] b by auto
    with b(2,3) show "q \<in> uncopied G H - {a..<a + l}" unfolding Diff_iff uncopied_iff by blast
  qed
  ultimately have "card (uncopied G H') \<le> card (uncopied G H - {a..<a + l})" "card (uncopied G H - {a..<a + l}) = card (uncopied G H) - l"
    "l \<le> card (uncopied G H)"
    using finite_uncopied [OF ok, of H] card_mono [of "uncopied G H - {a..<a + l}" "uncopied G H'"]
      card_Diff_subset [of "{a..<a + l}" "uncopied G H"] card_mono [of "uncopied G H" "{a..<a + l}"] by auto
  then show ?thesis by simp
qed

definition sliced :: "(nat \<Rightarrow> HeapCellValue) \<Rightarrow> nat \<Rightarrow> nat \<Rightarrow> nat \<Rightarrow> nat \<Rightarrow> HeapCellValue" where
  "sliced H a l N i = (if N \<le> i \<and> i < N + l then H (a + (i - N)) else H i)"

definition sliced_src :: "origin \<Rightarrow> (nat \<Rightarrow> HeapCellValue) \<Rightarrow> nat \<Rightarrow> nat \<Rightarrow> nat \<Rightarrow> nat \<Rightarrow> HeapCellValue" where
  "sliced_src G src a l N i = (if N \<le> i \<and> i < N + l then og_cells G (a + (i - N)) else src i)"

lemma slice_inv:
  assumes ok: "copyable G deep" and inv: "copy_inv G src H N k tr" and k: "k < N" and nf: "\<not> is_functor (src k)"
    and d: "d = old_value G (src k)" "cell_val d = a"
      "cell_get_tag d = TStr \<and> l = struct_len G a \<or> cell_get_tag d = TLis \<and> l = 2"
    and room: "N + l < 2 ^ 56"
    and plain: "\<And>i. i < l \<Longrightarrow> H (a + i) = og_cells G (a + i) \<or> \<not> is_functor (og_cells G (a + i)) \<and> \<not> edge G (H (a + i))"
  shows "copy_inv G (sliced_src G src a l N) ((sliced H a l N)(k := mk (cell_get_tag d) N)) (N + l) (Suc k) tr"
    (is "copy_inv G ?src ?H _ _ _")
proof (rule copy_inv_step [OF ok inv, where p = "N + l"])
  note D = copy_invD(1-4) [OF inv]
  have len: "og_len G \<le> og_start G" using ok by (simp add: copyable_def)
  have nv: "\<not> is_var d" using d(3) by (auto simp: is_var_def)
  have x: "src k \<in> set (sources G)" using D(1,4) k nf by simp
  then have "d \<in> set (sources G)" using source_value [OF ok] d(1) by simp
  then have a: "a \<in> set (locs_of (cell_get_tag d) G)" using d(2) by (auto simp: locs_of_def)
  have al: "a + l \<le> og_len G"
    using d(3) a struct_source(1) [OF ok] list_source(1) [OF ok, of a] by auto
  have srck: "?src k = src k" using k by (simp add: sliced_src_def)
  show "?src j = src j" if "og_start G \<le> j" "j < N" for j using that by (simp add: sliced_src_def)
  show "?H j = H j" if "og_len G \<le> j" "j < N" "j \<noteq> k" for j using that by (simp add: sliced_def)
  show "?H i = H i" if "i < og_len G" "i \<noteq> N + l" for i using that D(1,2) len by (simp add: sliced_def)
  have "block G ?src (N + l) a l N" using D(1,2) by (auto simp: block_def sliced_src_def)
  then have "scanned G ?src ?H (N + l) (Suc k) k"
    using nf d srck nv by (auto simp: scanned_def copied_as_def)
  then show "Suc k = Suc k \<and> scanned G ?src ?H (N + l) (Suc k) k \<or> Suc k = k \<and> pending G ?src ?H (Suc k) k" by simp
  have "?H (N + l) = H (N + l)" using k by (simp add: sliced_def)
  then show "?H (N + l) = H (N + l) \<and> tr = tr \<or>
      N + l < og_len G \<and> H (N + l) = og_cells G (N + l) \<and> forwarded G ?src ?H (N + l) (Suc k) (N + l) \<and>
      (\<exists>tag\<in>{TrHeapCell, TrAttrVar}. tr = tr @ [((tag, N + l), og_cells G (N + l))])" by simp
  fix j
  assume j: "N \<le> j" "j < N + l"
  define q where "q = a + (j - N)"
  have q: "q < og_len G" "?src j = og_cells G q" "?H j = H q" using j k al by (auto simp: q_def sliced_src_def sliced_def)
  have "pending G ?src ?H (Suc k) j"
  proof (cases "H q = og_cells G q")
    case False
    then have "\<not> is_functor (og_cells G q)" "\<not> edge G (H q)" using plain [of "j - N"] j by (auto simp: q_def)
    then obtain m where m: "is_var (og_cells G q)" "old_value G (og_cells G q) = og_cells G q"
      "renamed G src H k (og_cells G q) m" "H q = mk TVar m"
      using plain_now [OF ok inv q(1)] False by blast
    have "renamed G ?src ?H (Suc k) (og_cells G q) m"
      using m(3) k D(1,2) len by (auto simp: renamed_def sliced_src_def sliced_def)
    then show ?thesis using m False \<open>\<not> is_functor (og_cells G q)\<close> unfolding pending_def q(2,3) by auto
  next
    case True
    then show ?thesis unfolding pending_def q(2,3) by simp
  qed
  then show "(\<not> is_functor (?src j) \<longrightarrow> ?src j \<in> set (sources G)) \<and> pending G ?src ?H (Suc k) j"
    using source_cell q by auto
qed (use k room in auto)

lemma forward_inv:
  assumes "copyable G deep" "copy_inv G src H N k tr" "k < N" "p < og_len G" "H p = og_cells G p"
    and "forwarded G src (H(p := v)) N k p"
  shows "copy_inv G src (H(p := v)) N k (tr @ [((TrHeapCell, p), og_cells G p)])"
proof (rule copy_inv_step [OF assms(1,2), where p = p])
  note D = copy_invD(1-3,7) [OF assms(2)]
  have len: "og_len G \<le> og_start G" using assms(1) by (simp add: copyable_def)
  have "p \<noteq> k" using assms(4) D(1) len by simp
  have gr: "grows G src H N k src (H(p := v)) N k"
    using old_no_new_var [OF assms(1,4)] assms(4,5) D(1-3) len unfolding grows_def by (auto, metis less_trans)
  then have "pending G src (H(p := v)) k k"
    using pending_grows [OF D(4) gr] assms(3) D(1,2) \<open>p \<noteq> k\<close> by simp
  then show "k = Suc k \<and> scanned G src (H(p := v)) N k k \<or> k = k \<and> pending G src (H(p := v)) k k" by simp
qed (use assms copy_invD(3) [OF assms(2)] in auto)

lemma open_room:
  assumes "copyable G deep" "open_node G H a l"
  shows "l \<le> work G src H N k"
proof -
  have "{a..<a + l} \<subseteq> uncopied G H" using assms(2) unfolding subset_iff uncopied_iff by auto
  then have "card {a..<a + l} \<le> card (uncopied G H)" by (rule card_mono [OF finite_uncopied [OF assms(1)]])
  then show ?thesis by (simp add: work_def)
qed

lemma node_cells:
  assumes ok: "copyable G deep" and inv: "copy_inv G src H N k tr" and a: "open_node G H a l" and i: "i < l"
  shows "H (a + i) = og_cells G (a + i) \<or> \<not> is_functor (og_cells G (a + i)) \<and> \<not> edge G (H (a + i))"
proof (cases "a \<in> set (locs_of TStr G)")
  case True
  have l: "l = struct_len G a" "H a = og_cells G a" using open_struct [OF ok True] a by auto
  show ?thesis
  proof (cases "i = 0")
    case False
    have nf: "\<not> is_functor (og_cells G (a + i))" using struct_source(4) [OF ok True, of i] False i l by simp
    have "\<not> edge G (H (a + i))"
    proof
      assume e: "edge G (H (a + i))"
      have q: "a + i < og_len G" using open_bound [OF ok a] i by simp
      obtain b f where b: "b \<in> set (locs_of TLis G)" "a + i = (if f then Suc b else b)"
        by (rule edge_cases [OF ok inv q nf e])
      then have "Suc b < a \<or> a + struct_len G a \<le> b" using ok True by (simp add: copyable_def)
      with b(2) i l show False by (auto split: if_splits)
    qed
    with nf show ?thesis by simp
  qed (simp add: l)
next
  case False
  then have "a \<in> set (locs_of TLis G)" using a by (simp add: open_node_def)
  then show ?thesis using list_source [OF ok, of a] open_list [OF ok, of a H l] a i by (cases i) auto
qed

text \<open>A node is copied and leads to its copy from the cell \<open>p\<close>.\<close>

lemma step_node:
  assumes ok: "copyable G deep" and inv: "copy_inv G src H N k tr" and k: "k < N" and nf: "\<not> is_functor (src k)"
    and d: "d = old_value G (src k)" "cell_val d = a"
      "cell_get_tag d = TStr \<and> l = struct_len G a \<or> cell_get_tag d = TLis \<and> l = 2"
    and room: "N + work G src H N k < 2 ^ 56" and a: "open_node G H a l"
    and p: "a \<le> p" "p < a + l" "H p = og_cells G p"
    and fw: "cell_get_tag d = TStr \<and> p = a \<and> v = mk TStr N \<or>
      cell_get_tag d = TLis \<and> \<not> is_var (old_value G (og_cells G p)) \<and> p = (if f then Suc a else a) \<and> v = marked N f"
  shows "good_step G src H N k (sliced_src G src a l N) ((sliced H a l N)(k := mk (cell_get_tag d) N, p := v)) (N + l) (Suc k)
    (tr @ [((TrHeapCell, p), og_cells G p)])"
proof (rule good_stepI)
  let ?src = "sliced_src G src a l N" and ?H1 = "(sliced H a l N)(k := mk (cell_get_tag d) N)"
  let ?H = "?H1(p := v)"
  note D = copy_invD(1-4) [OF inv]
  have len: "og_len G \<le> og_start G" using ok by (simp add: copyable_def)
  have l: "N + l < 2 ^ 56" using open_room [OF ok a, of src N k] room by simp
  have N: "N < 2 ^ 56" using l by simp
  have "src k \<in> set (sources G)" using D(1,4) k nf by simp
  then have "d \<in> set (sources G)" using source_value [OF ok] d(1) by simp
  then have mem: "a \<in> set (locs_of (cell_get_tag d) G)" using d(2) by (auto simp: locs_of_def)
  have al: "a + l \<le> og_len G" using d(3) mem struct_source(1) [OF ok, of a] list_source(1) [OF ok, of a] by auto
  have "H (a + i) = og_cells G (a + i) \<or> \<not> is_functor (og_cells G (a + i)) \<and> \<not> edge G (H (a + i))" if i: "i < l" for i
    by (rule node_cells [OF ok inv a i])
  then have inv1: "copy_inv G ?src ?H1 (N + l) (Suc k) tr" by (rule slice_inv [OF ok inv k nf d l])
  have H1: "?H1 q = H q" if "q < og_len G" for q using that D(1,2) len k by (auto simp: sliced_def)
  have pl: "p < og_len G" using p al by simp
  have Hk: "?H k = mk (cell_get_tag d) N" using pl D(1) len by simp
  have "block G ?src (N + l) a l N" using D(1,2) by (auto simp: block_def sliced_src_def)
  then have "forwarded G ?src ?H (N + l) (Suc k) p" using fw d(3) mem unfolding forwarded_def by fastforce
  moreover have "?H1 p = og_cells G p" using H1 [OF pl] p(3) by simp
  moreover have "Suc k < N + l \<or> l = 0" using k by auto
  ultimately show "copy_inv G ?src ?H (N + l) (Suc k) (tr @ [((TrHeapCell, p), og_cells G p)])"
    using forward_inv [OF ok inv1 _ pl] k p by simp
  have "card (uncopied G ?H) + l \<le> card (uncopied G H)"
  proof (rule uncopied_removed [OF ok a])
    fix m
    have "cell_get_tag (mk TStr N) = TStr" "cell_get_tag (marked N f) = TLis" "cell_val (marked N f) = N"
      using mk_readings [OF N, of TStr] marked_readings' [OF N, of f] by auto
    note tags = this
    from fw consider "cell_get_tag d = TStr" "p = a" "v = mk TStr N"
      | "cell_get_tag d = TLis" "p = (if f then Suc a else a)" "v = marked N f" by blast
    then show "\<not> open_node G ?H a m"
    proof cases
      case 1
      then have "?H a \<noteq> og_cells G a" using struct_source(2) [OF ok, of a] mem tags by (auto simp: is_functor_def)
      then show ?thesis using open_struct [OF ok, of a] mem 1(1) by simp
    next
      case 2
      then have "edge G (?H p)" using tags D(1,2) by (simp add: edge_def)
      then have "edge G (?H a) \<or> edge G (?H (Suc a))" using 2(2) by (simp split: if_splits)
      then show ?thesis using open_list [OF ok, of a ?H m] mem 2(1) by simp
    qed
  next
    fix b m
    assume b: "b \<noteq> a" "open_node G ?H b m"
    have "?H q = H q" if "b \<le> q" "q < b + m" for q
      using that nodes_apart [OF ok a b(2)] b(1) p open_bound [OF ok b(2)] H1 [of q] by auto
    then show "open_node G H b m" using b(2) struct_source(5) [OF ok] by (auto simp: open_node_def)
  qed
  moreover have "(\<Sum>j = N..<N + l. weight G ?src ?H j) \<le> 6 * l" by (rule block_weight)
  moreover have "0 < l" using p by simp
  ultimately show "N + l - N + (\<Sum>j = N..<N + l. weight G ?src ?H j) + 7 * card (uncopied G ?H) <
      weight G src H k + 7 * card (uncopied G H) + 1"
    "(\<Sum>j = N..<N + l. weight G ?src ?H j) + 7 * card (uncopied G ?H) < weight G src H k + 7 * card (uncopied G H)"
    using weight_bounds(1) [of G src H k] by simp_all
  show "?H j = H j" if "k < j" "j < N" for j using that pl D(1) len by (simp add: sliced_def)
  show "?src j = src j" if "og_start G \<le> j" "j < N" for j using that by (simp add: sliced_src_def)
qed (use k copy_invD(1) [OF inv] in auto)

text \<open>A list of two unbound variables is copied without a trace.\<close>

lemma step_list_open:
  assumes ok: "copyable G deep" and inv: "copy_inv G src H N k tr" and k: "k < N" and nf: "\<not> is_functor (src k)"
    and d: "d = old_value G (src k)" "cell_val d = a" "cell_get_tag d = TLis"
    and room: "N + work G src H N k < 2 ^ 56" and a: "open_node G H a 2"
    and vars: "is_var (old_value G (og_cells G a))" "is_var (old_value G (og_cells G (Suc a)))"
  shows "good_step G src H N k (sliced_src G src a 2 N) ((sliced H a 2 N)(k := mk TLis N)) (N + 2) (Suc k) tr"
proof (rule good_stepI)
  let ?src = "sliced_src G src a 2 N" and ?H = "(sliced H a 2 N)(k := mk TLis N)"
  note D = copy_invD(1-4) [OF inv]
  have len: "og_len G \<le> og_start G" using ok by (simp add: copyable_def)
  have l: "N + 2 < 2 ^ 56" using open_room [OF ok a, of src N k] room by simp
  show "copy_inv G ?src ?H (N + 2) (Suc k) tr"
    using slice_inv [OF ok inv k nf d(1,2) _ l node_cells [OF ok inv a]] d(3) by simp
  have "uncopied G ?H = uncopied G H" using D(1,2) len k by (intro uncopied_cong [OF ok]) (auto simp: sliced_def)
  moreover have "{N..<N + 2} = {N, Suc N}" by auto
  then have "(\<Sum>j = N..<N + 2. weight G ?src ?H j) = weight G ?src ?H N + weight G ?src ?H (Suc N)" by simp
  moreover have "weight G ?src ?H N = 1" "weight G ?src ?H (Suc N) = 1" using vars by (simp_all add: weight_def sliced_src_def)
  moreover have "5 \<le> weight G src H k" using nf d by (auto simp: weight_def is_var_def)
  ultimately show "N + 2 - N + (\<Sum>j = N..<N + 2. weight G ?src ?H j) + 7 * card (uncopied G ?H) <
      weight G src H k + 7 * card (uncopied G H) + 1"
    "(\<Sum>j = N..<N + 2. weight G ?src ?H j) + 7 * card (uncopied G ?H) < weight G src H k + 7 * card (uncopied G H)"
    by simp_all
  show "?H j = H j" if "k < j" "j < N" for j using that by (simp add: sliced_def)
  show "?src j = src j" if "og_start G \<le> j" "j < N" for j using that by (simp add: sliced_src_def)
qed (use k copy_invD(1) [OF inv] in auto)

section \<open>What the copier looks at\<close>

text \<open>The value of a cell of a list that no edge has replaced.\<close>

lemma list_cell_value:
  assumes ok: "copyable G deep" and inv: "copy_inv G src H N k tr" and q: "q < og_len G" "\<not> is_functor (og_cells G q)" "\<not> edge G (H q)"
  shows "\<exists>r. follow (vstore (og_stack G) H) (mk TVar q) = Some r \<and>
    (is_var (vstore (og_stack G) H r) \<longleftrightarrow> is_var (old_value G (og_cells G q)))"
proof -
  let ?f = "vstore (og_stack G) H" and ?y = "og_cells G q"
  note D = copy_invD(1-3) [OF inv]
  have q56: "q < 2 ^ 56" using q(1) ok by (simp add: copyable_def)
  note x = mk_readings [OF q56, of TVar]
  have fx: "?f (mk TVar q) = H q" using x by (simp add: vstore_heap)
  have src: "?y \<in> set (sources G)" by (rule source_cell [OF q(1,2)])
  have new: "follow ?f (mk TVar q) = Some (mk TVar m) \<and> is_var (?f (mk TVar m))" if m: "renamed G src H k d m" "H q = mk TVar m" for m d
  proof -
    have "m < 2 ^ 56" "H m = mk TVar m" using m(1) D by (auto simp: renamed_def)
    note r = mk_readings [OF this(1), of TVar] this(2)
    then have "?f (mk TVar m) = mk TVar m" by (simp add: vstore_heap)
    then show ?thesis using r fx m(2) by (simp add: follow_unfold [of ?f "mk TVar q"] follow_unfold [of ?f "mk TVar m"] is_var_def)
  qed
  from plain_now [OF ok inv q] consider "H q = ?y" | m where "is_var ?y" "old_value G ?y = ?y" "renamed G src H k ?y m" "H q = mk TVar m"
    by blast
  then show ?thesis
  proof cases
    case 1
    show ?thesis
    proof (cases "is_var ?y \<and> ?y \<noteq> mk TVar q")
      case False
      then have "follow ?f (mk TVar q) = Some (mk TVar q)" using fx 1 by (subst follow_unfold) auto
      moreover have "is_var ?y \<Longrightarrow> is_var (old_value G ?y)"
      proof -
        assume v: "is_var ?y"
        then have "old_store G ?y = ?y" using False source_var(4) [OF ok src v] x by simp
        then have "old_value G ?y = ?y" using value_of_stop [of "og_stack G" "og_cells G" ?y] by (simp add: old_value_def old_store_def)
        then show "is_var (old_value G ?y)" using v by simp
      qed
      moreover have "\<not> is_var ?y \<Longrightarrow> \<not> is_var (old_value G ?y)" by (simp add: old_not_var)
      ultimately show ?thesis using fx 1 by auto
    next
      case True
      then have step: "follow ?f (mk TVar q) = follow ?f ?y" using fx 1 by (simp add: follow_unfold [of ?f "mk TVar q"])
      show ?thesis
        using ok inv src True [THEN conjunct1]
      proof (cases rule: follow_now)
        case unbound
        have "old_value G ?y \<in> set (sources G)" by (rule source_value [OF ok src])
        then have "?f (old_value G ?y) = old_value G ?y"
          using source_var(1) [OF ok _ unbound(1)] unbound(2) by (auto simp: vstore_heap)
        then show ?thesis using unbound step by auto
      next
        case (renamed m)
        then have "m < 2 ^ 56" "H m = mk TVar m" using D by (auto simp: renamed_def)
        then have "?f (mk TVar m) = mk TVar m" "is_var (mk TVar m)" using mk_readings [of m TVar] by (simp_all add: vstore_heap is_var_def)
        then show ?thesis using renamed step by auto
      next
        case (bound r)
        then show ?thesis using step by auto
      next
        case (listed a t f)
        then have "\<not> is_var (marked t f)" using marked_readings'(1) by (simp add: is_var_def)
        then show ?thesis using listed step by auto
      qed
    qed
  next
    case 2
    then show ?thesis using new by auto
  qed
qed

end
