(* ===== verification/CopyLoop.thy ===== *)
theory CopyLoop
  imports CopySteps
begin

text \<open>
  The copier over any target that keeps the contract \<open>copier_target\<close>: a row of cells that can be read,
  overwritten and extended, with references followed as the machine follows them. Every operation of the
  copier is shown to be a step of the scan, so that copying ends with a copy and with the old cells as they
  were.
\<close>

section \<open>Runs without an error\<close>

definition runs :: "('t, unit) copying \<Rightarrow> 't CopyTermState \<Rightarrow> ('t CopyTermState \<Rightarrow> bool) \<Rightarrow> bool" where
  "runs m s Q \<longleftrightarrow> (\<exists>s'. m s = Some (Inr (), s') \<and> Q s')"

lemma runs_mono: "runs m s Q \<Longrightarrow> (\<And>s'. Q s' \<Longrightarrow> Q' s') \<Longrightarrow> runs m s Q'"
  by (auto simp: runs_def)

lemma runs_done: "Q s \<Longrightarrow> runs (steps []) s Q"
  by (simp add: runs_def ok_def)

lemma runs_more: "runs m s (\<lambda>s'. runs (steps ms) s' Q) \<Longrightarrow> runs (steps (m # ms)) s Q"
  by (auto simp: runs_def cthen_def)

lemma cthen_new_cell: "v < 2 ^ 56 \<Longrightarrow> cthen (new_cell tag v) f s = f (mk tag v) s"
  by (simp add: cthen_def new_cell_def mk_readings)

lemma put_new_mk: "v < 2 ^ 56 \<Longrightarrow> put_new T i tag v = put T i (mk tag v)"
  by (rule ext) (simp add: put_new_def cthen_new_cell)

lemma steps_ok: "steps [a, b, c, ok ()] = steps [a, b, c]"
  by (simp add: cthen_def ok_def)

declare steps.simps [simp del]

section \<open>The contract of a target\<close>

locale copier_target =
  fixes T :: "'t CopierTarget" and valid :: "'t \<Rightarrow> bool" and stack_of :: "'t \<Rightarrow> nat \<Rightarrow> HeapCellValue"
    and limit :: "'t \<Rightarrow> nat" and frame :: "'t \<Rightarrow> 'r"
  assumes store_law: "valid t \<Longrightarrow> ct_store T t c = vstore (stack_of t) (ct_index T t) c"
    and deref_law: "valid t \<Longrightarrow> ct_deref T t c = follow (ct_store T t) c"
    and set_law: "valid t \<Longrightarrow> i < ct_threshold T t \<Longrightarrow>
      \<exists>t'. ct_set T i c t = Some t' \<and> valid t' \<and> stack_of t' = stack_of t \<and> frame t' = frame t \<and> limit t \<le> limit t' \<and>
        ct_threshold T t' = ct_threshold T t \<and> ct_index T t' = (ct_index T t)(i := c)"
    and push_law: "valid t \<Longrightarrow>
      \<exists>t'. ct_reserve T 1 t = Some t' \<and> valid (ct_push_cell T c t') \<and> stack_of (ct_push_cell T c t') = stack_of t \<and>
        frame (ct_push_cell T c t') = frame t \<and> limit t \<le> limit (ct_push_cell T c t') \<and>
        ct_threshold T (ct_push_cell T c t') = Suc (ct_threshold T t) \<and>
        ct_index T (ct_push_cell T c t') = (ct_index T t)(ct_threshold T t := c)"
    and slice_law: "valid t \<Longrightarrow> a + l \<le> limit t \<Longrightarrow>
      \<exists>t'. ct_copy_slice_to_end T a (a + l) t = Some t' \<and> valid t' \<and> stack_of t' = stack_of t \<and> frame t' = frame t \<and>
        limit t \<le> limit t' \<and> ct_threshold T t' = ct_threshold T t + l \<and>
        ct_index T t' = sliced (ct_index T t) a l (ct_threshold T t)"
begin

definition view :: "origin \<Rightarrow> AttrVarPolicy \<Rightarrow> 'r \<Rightarrow> 't CopyTermState \<Rightarrow> (nat \<Rightarrow> HeapCellValue) \<Rightarrow> nat \<Rightarrow> nat \<Rightarrow> copy_trail \<Rightarrow> bool" where
  "view G P R s H N k tr \<longleftrightarrow>
     valid (cs_target s) \<and> ct_index T (cs_target s) = H \<and> ct_threshold T (cs_target s) = N \<and> cs_scan s = k \<and> cs_trail s = tr \<and>
     stack_of (cs_target s) = og_stack G \<and> cs_old_h s = og_start G \<and> og_len G \<le> limit (cs_target s) \<and>
     cs_policy s = P \<and> frame (cs_target s) = R \<and> cs_attr_var_list_locs s = [] \<and> cs_pstr_loc_locs s = []"

lemma runs_put: "view G P R s H N k tr \<Longrightarrow> i < N \<Longrightarrow> (\<And>s'. view G P R s' (H(i := c)) N k tr \<Longrightarrow> Q s') \<Longrightarrow> runs (put T i c) s Q"
  using set_law [of "cs_target s" i c] by (fastforce simp: view_def runs_def put_def)

lemma runs_scan_next: "view G P R s H N k tr \<Longrightarrow> (\<And>s'. view G P R s' H N (Suc k) tr \<Longrightarrow> Q s') \<Longrightarrow> runs scan_next s Q"
  by (fastforce simp: view_def runs_def scan_next_def)

lemma runs_push_trail:
  "view G P R s H N k tr \<Longrightarrow> i < 2 ^ 56 \<Longrightarrow> (\<And>s'. view G P R s' H N k (tr @ [((tag, i), v)]) \<Longrightarrow> Q s') \<Longrightarrow>
   runs (push_trail tag i v) s Q"
  by (fastforce simp: view_def runs_def push_trail_def)

lemma runs_slice:
  "view G P R s H N k tr \<Longrightarrow> a + l \<le> og_len G \<Longrightarrow> (\<And>s'. view G P R s' (sliced H a l N) (N + l) k tr \<Longrightarrow> Q s') \<Longrightarrow>
   runs (copy_slice T a (a + l)) s Q"
  using slice_law [of "cs_target s" a l] by (fastforce simp: view_def runs_def copy_slice_def)

lemma runs_push:
  "view G P R s H N k tr \<Longrightarrow> (\<And>s'. view G P R s' (H(N := c)) (Suc N) k tr \<Longrightarrow> Q s') \<Longrightarrow> runs (reserve_and_push T 1 [c]) s Q"
  using push_law [of "cs_target s" c] by (fastforce simp: view_def runs_def reserve_and_push_def)

lemma runs_set_scanned:
  "view G P R s H N k tr \<Longrightarrow> k < N \<Longrightarrow> (\<And>s'. view G P R s' (H(k := c)) N k tr \<Longrightarrow> Q s') \<Longrightarrow> runs (set_scanned T c) s Q"
  using runs_put [of G P R s H N k tr k c Q] by (simp add: runs_def set_scanned_def view_def)

lemma runs_set_mark:
  "view G P R s H N k tr \<Longrightarrow> i < N \<Longrightarrow> (\<And>s'. view G P R s' (H(i := set_mark_bit b (H i))) N k tr \<Longrightarrow> Q s') \<Longrightarrow>
   runs (set_mark T i b) s Q"
  using runs_put [of G P R s H N k tr i "set_mark_bit b (H i)" Q] by (simp add: runs_def set_mark_def view_def cell_at_def)

lemma runs_set_forwarding:
  "view G P R s H N k tr \<Longrightarrow> i < N \<Longrightarrow> (\<And>s'. view G P R s' (H(i := set_forwarding_bit b (H i))) N k tr \<Longrightarrow> Q s') \<Longrightarrow>
   runs (set_forwarding T i b) s Q"
  using runs_put [of G P R s H N k tr i "set_forwarding_bit b (H i)" Q]
  by (simp add: runs_def set_forwarding_def view_def cell_at_def)

lemma cthen_deref_cell:
  "view G P R s H N k tr \<Longrightarrow> follow (vstore (og_stack G) H) c = Some r \<Longrightarrow>
   cthen (deref_cell T c) f s = f (r, vstore (og_stack G) H r) s"
proof -
  assume v: "view G P R s H N k tr" and r: "follow (vstore (og_stack G) H) c = Some r"
  have "ct_store T (cs_target s) = vstore (og_stack G) H" using v store_law by (auto simp: view_def)
  then show ?thesis using v r deref_law [of "cs_target s" c] by (simp add: view_def cthen_def deref_cell_def)
qed

lemma view_cell_at: "view G P R s H N k tr \<Longrightarrow> cell_at T s = H"
  by (auto simp: view_def cell_at_def)

definition advanced :: "origin \<Rightarrow> AttrVarPolicy \<Rightarrow> 'r \<Rightarrow> (nat \<Rightarrow> HeapCellValue) \<Rightarrow> (nat \<Rightarrow> HeapCellValue) \<Rightarrow> nat \<Rightarrow> nat \<Rightarrow> 't CopyTermState \<Rightarrow> bool" where
  "advanced G P R src H N k s' \<longleftrightarrow>
     (\<exists>src' H' N' k' tr'. view G P R s' H' N' k' tr' \<and> good_step G src H N k src' H' N' k' tr')"

lemma advancedI:
  "view G P R s' H' N' k' tr' \<Longrightarrow> good_step G src H N k src' H' N' k' tr' \<Longrightarrow> advanced G P R src H N k s'"
  unfolding advanced_def by blast

lemma scan_with:
  assumes "view G P R s H N k tr" "copyable G deep" "copy_inv G src H N k tr" "k < N" "scanned G src (H(k := c)) N (Suc k) k"
  shows "runs (steps [set_scanned T c, scan_next]) s (advanced G P R src H N k)"
proof (rule runs_more, rule runs_set_scanned [OF assms(1,4)])
  fix s'
  assume v: "view G P R s' (H(k := c)) N k tr"
  show "runs (steps [scan_next]) s' (advanced G P R src H N k)"
  proof (rule runs_more, rule runs_scan_next [OF v], rule runs_done)
    fix s2
    assume "view G P R s2 (H(k := c)) N (Suc k) tr"
    with step_set [OF assms(2-5)] show "advanced G P R src H N k s2" unfolding advanced_def by blast
  qed
qed

lemma scan_past:
  assumes "view G P R s H N k tr" "copyable G deep" "copy_inv G src H N k tr" "k < N" "scanned G src H N (Suc k) k"
  shows "runs scan_next s (advanced G P R src H N k)"
proof (intro runs_scan_next [OF assms(1)])
  fix s'
  assume "view G P R s' H N (Suc k) tr"
  moreover have "good_step G src H N k src H N (Suc k) tr" using step_set [OF assms(2-4), of "H k"] assms(5) by simp
  ultimately show "advanced G P R src H N k s'" unfolding advanced_def by blast
qed

text \<open>The cell to be scanned.\<close>

lemma scan_cases [consumes 3, case_names header source fresh]:
  assumes "copyable G deep" "copy_inv G src H N k tr" "k < N"
  obtains "is_functor (src k)" "H k = src k"
  | "\<not> is_functor (src k)" "src k \<in> set (sources G)" "H k = src k \<or> \<not> is_var (H k)"
      "\<not> is_var (H k) \<Longrightarrow> H k = old_value G (src k)"
  | m where "\<not> is_functor (src k)" "is_var (old_value G (src k))" "renamed G src H k (old_value G (src k)) m" "H k = mk TVar m"
      "m < 2 ^ 56"
proof -
  note D = copy_invD [OF assms(2)]
  have p: "pending G src H k k" using D(7) assms(3) by simp
  have src: "\<not> is_functor (src k) \<Longrightarrow> src k \<in> set (sources G)" using D(1,4) assms(3) by simp
  consider "is_functor (src k)" "H k = src k" | "\<not> is_functor (src k)" "H k = src k"
    | m where "\<not> is_functor (src k)" "is_var (old_value G (src k))" "renamed G src H k (old_value G (src k)) m" "H k = mk TVar m"
    | "\<not> is_functor (src k)" "\<not> is_var (old_value G (src k))" "H k = old_value G (src k)"
    using p by (auto simp: pending_def split: if_splits)
  then show ?thesis
  proof cases
    case 2
    show ?thesis by (rule that(2)) (use 2 src old_not_var(2) [of "src k" G] in auto)
  next
    case (3 m)
    then have "m < 2 ^ 56" using D(2,3) by (simp add: renamed_def)
    then show ?thesis using that(3) 3 by blast
  next
    case 4
    show ?thesis by (rule that(2)) (use 4 src in auto)
  qed (use that(1) in blast)
qed

lemma copy_var_step:
  assumes v: "view G P R s H N k tr" and ok: "copyable G (P = DeepCopy)" and inv: "copy_inv G src H N k tr" and k: "k < N"
    and c: "is_var (H k)"
  shows "runs (copy_var T (H k)) s (advanced G P R src H N k)"
proof -
  let ?f = "vstore (og_stack G) H"
  note D = copy_invD [OF inv]
  have len: "og_len G \<le> og_start G" using ok by (simp add: copyable_def)
  have start: "cs_old_h s = og_start G" "cs_scan s = k" "cs_policy s = P" using v by (simp_all add: view_def)
  have k56: "k < 2 ^ 56" using D(3) k by simp
  let ?body = "\<lambda>rd ra s. let h = cell_val ra; index = cell_val (H k)
       in if cell_get_tag ra \<in> {TAttrVar, TVar} \<and> cs_old_h s \<le> h then steps [set_scanned T ra, scan_next] s
          else if cell_get_tag ra = TLis \<and> cs_old_h s \<le> h \<and> get_mark_bit (cell_at T s index) then
            cthen (new_cell TVar (if get_forwarding_bit ra then h + 1 else h)) (\<lambda>c. steps [set_scanned T c, scan_next]) s
          else if rd = ra then steps [reinstantiate_var T ra (cs_scan s), scan_next] s
          else set_scanned T ra s"
  have body: "copy_var T (H k) s = ?body r (?f r) s" if "follow ?f (H k) = Some r" for r
    unfolding copy_var_def cthen_deref_cell [OF v that] by simp
  have newvar: "?thesis" if m: "is_var (old_value G (src k))" "renamed G src H k (old_value G (src k)) m" "follow ?f (H k) = Some (mk TVar m)" "\<not> is_functor (src k)" for m
  proof -
    have m56: "m < 2 ^ 56" "H m = mk TVar m" "og_start G \<le> m" "m < k" using m(2) D(2,3) by (simp_all add: renamed_def)
    note r = mk_readings [OF m56(1), of TVar]
    have "?f (mk TVar m) = mk TVar m" using r m56(2) by (simp add: vstore_heap)
    then have run: "copy_var T (H k) s = steps [set_scanned T (mk TVar m), scan_next] s"
      using body [OF m(3)] r m56(3) start by (simp add: Let_def)
    have "renamed G src (H(k := mk TVar m)) (Suc k) (old_value G (src k)) m"
      using m(2) m56 D(1) len by (auto simp: renamed_def)
    then have "scanned G src (H(k := mk TVar m)) N (Suc k) k" using m(1,4) by (auto simp: scanned_def)
    from scan_with [OF v ok inv k this] run show ?thesis by (simp add: runs_def)
  qed
  show ?thesis
    using ok inv k
  proof (cases rule: scan_cases)
    case header
    then show ?thesis using c by (simp add: is_functor_def is_var_def)
  next
    case (fresh m)
    note r = mk_readings [OF fresh(5), of TVar]
    have "H m = mk TVar m" using fresh(3) by (simp add: renamed_def)
    then have "?f (H k) = H k" using r fresh(4) by (simp add: vstore_heap)
    then have "follow ?f (H k) = Some (mk TVar m)" using fresh(4) by (subst follow_unfold) simp
    then show ?thesis using newvar [OF fresh(2,3) _ fresh(1)] by blast
  next
    case source
    then have x: "H k = src k" "is_var (src k)" using c by auto
    note nf = source(1)
    show ?thesis
      using ok inv source(2) x(2)
    proof (cases rule: follow_now)
      case unbound
      let ?d = "old_value G (src k)"
      have ds: "?d \<in> set (sources G)" by (rule source_value [OF ok source(2)])
      note dv = source_var [OF ok ds unbound(1)]
      have fd: "?f ?d = ?d" using dv(1) unbound(2) by (auto simp: vstore_heap)
      have p: "cell_val ?d < N" "cell_val ?d < 2 ^ 56" "cell_val ?d \<noteq> k" using dv(3) D(1-3) len by simp_all
      let ?tag = "if cell_get_tag ?d = TVar then TrHeapCell else TrAttrVar"
      have run: "copy_var T (H k) s = steps [reinstantiate_var T ?d k, scan_next] s"
        using body [of ?d] unbound(3) x(1) fd dv(1,3) start len by (auto simp: Let_def)
      have re: "reinstantiate_var T ?d k s = steps [put T k (mk TVar k), put T (cell_val ?d) (mk TVar k), push_trail ?tag (cell_val ?d) ?d] s"
      proof (cases "cell_get_tag ?d = TVar")
        case True
        then have "?d = mk TVar (cell_val ?d)" using dv(2) by simp
        then show ?thesis using True k56 p(2) by (simp add: reinstantiate_var_def Let_def cthen_new_cell put_new_mk)
      next
        case False
        then have "cell_get_tag ?d = TAttrVar" "P \<noteq> DeepCopy" using dv(1) by simp_all
        moreover from this have "?d = mk TAttrVar (cell_val ?d)" using dv(2) by simp
        ultimately show ?thesis
          using False k56 p(2) start by (simp add: reinstantiate_var_def Let_def cthen_new_cell put_new_mk steps_ok)
      qed
      let ?H = "H(k := mk TVar k, cell_val ?d := mk TVar k)"
      have good: "good_step G src H N k src ?H N (Suc k) (tr @ [((?tag, cell_val ?d), ?d)])"
        by (rule step_rename [OF ok inv k nf refl unbound(1,2)]) simp
      have "runs (steps [put T k (mk TVar k), put T (cell_val ?d) (mk TVar k), push_trail ?tag (cell_val ?d) ?d]) s
          (\<lambda>s'. runs (steps [scan_next]) s' (advanced G P R src H N k))"
      proof (rule runs_more, rule runs_put [OF v k])
        fix s1
        assume v1: "view G P R s1 (H(k := mk TVar k)) N k tr"
        show "runs (steps [put T (cell_val ?d) (mk TVar k), push_trail ?tag (cell_val ?d) ?d]) s1
            (\<lambda>s'. runs (steps [scan_next]) s' (advanced G P R src H N k))"
        proof (rule runs_more, rule runs_put [OF v1 p(1)], rule runs_more, rule runs_push_trail [OF _ p(2)], assumption,
            rule runs_done, rule runs_more, rule runs_scan_next, assumption, rule runs_done)
          fix s2
          assume "view G P R s2 ?H N (Suc k) (tr @ [((?tag, cell_val ?d), ?d)])"
          with good show "advanced G P R src H N k s2" unfolding advanced_def by blast
        qed
      qed
      then have "runs (reinstantiate_var T ?d k) s (\<lambda>s'. runs (steps [scan_next]) s' (advanced G P R src H N k))"
        using re by (simp add: runs_def)
      from runs_more [OF this] run show ?thesis by (simp add: runs_def)
    next
      case (renamed m)
      then show ?thesis using newvar [OF renamed(1,2) _ nf] x(1) by simp
    next
      case (bound r)
      let ?d = "old_value G (src k)"
      have ds: "?d \<in> set (sources G)" by (rule source_value [OF ok source(2)])
      have "cell_get_tag ?d = TLis \<Longrightarrow> cell_val ?d < og_start G"
        using copyable_source [OF ok ds] len by (auto simp: source_ok_def Let_def)
      then have run: "copy_var T (H k) s = set_scanned T ?d s"
        using body [of r] bound x(1) start by (auto simp: Let_def is_var_def)
      show ?thesis
        unfolding runs_def run
        by (fold runs_def, rule runs_set_scanned [OF v k])
          (use step_value [OF ok inv k x bound(1)] in \<open>unfold advanced_def, blast\<close>)
    next
      case (listed a t f)
      note r = marked_readings' [OF listed(6), of f]
      have t: "og_start G \<le> t" "t + 1 < N" "t + 1 < 2 ^ 56" using listed(5) D(3) by (simp_all add: block_def)
      let ?m = "if f then t + 1 else t"
      have run: "copy_var T (H k) s = steps [set_scanned T (mk TVar ?m), scan_next] s"
        using body [of "src k"] listed(4,7,8) x(1) start r t view_cell_at [OF v] by (simp add: Let_def cthen_new_cell)
      have "src ?m = og_cells G (cell_val (src k))" using listed(3,5) by (auto simp: block_def split: if_splits dest: spec [of _ 0] spec [of _ 1])
      moreover have "cell_val (src k) \<in> list_cells G" using listed(2,3) by (auto simp: list_cells_def split: if_splits)
      ultimately have "scanned G src (H(k := mk TVar ?m)) N (Suc k) k"
        using nf listed(1) x(2) t by (auto simp: scanned_def split: if_splits)
      from scan_with [OF v ok inv k this] run show ?thesis by (simp add: runs_def)
    qed
  qed
qed

lemma copy_structure_step:
  assumes v: "view G P R s H N k tr" and ok: "copyable G deep" and inv: "copy_inv G src H N k tr" and k: "k < N"
    and nf: "\<not> is_functor (src k)" and c: "H k = old_value G (src k)" "cell_get_tag (H k) = TStr"
    and room: "N + work G src H N k < 2 ^ 56"
  shows "runs (copy_structure T (cell_val (H k))) s (advanced G P R src H N k)"
proof -
  note D = copy_invD [OF inv]
  let ?d = "old_value G (src k)"
  define a where "a = cell_val (H k)"
  define l where "l = struct_len G a"
  have len: "og_len G \<le> og_start G" using ok by (simp add: copyable_def)
  have "src k \<in> set (sources G)" using D(1,4) k nf by simp
  then have "?d \<in> set (sources G)" by (rule source_value [OF ok])
  then have a: "a \<in> set (locs_of TStr G)" unfolding a_def c(1) using c by (force simp: locs_of_def)
  note st = struct_source [OF ok a]
  have al: "a < og_len G" "a + l \<le> og_len G" using st(1,5) by (simp_all add: l_def)
  have dtag: "cell_get_tag ?d = TStr" "cell_val ?d = a" using c by (simp_all add: a_def)
  have nv: "\<not> is_var ?d" using dtag by (simp add: is_var_def)
  have scn: "cs_scan s = k" "ct_threshold T (cs_target s) = N" using v by (simp_all add: view_def)
  consider "H a = og_cells G a" | t where "H a = mk TStr t" "block G src N a l t"
  proof -
    have "\<not> is_var (og_cells G a)" using st(2) by (auto simp: is_functor_def is_var_def)
    moreover have "\<not> (\<exists>b\<in>set (locs_of TLis G). \<exists>f. a = (if f then Suc b else b))"
      using list_source(2,3) [OF ok] st(2) by (auto split: if_splits)
    ultimately show ?thesis using D(5) [OF al(1)] that unfolding forwarded_def l_def by blast
  qed
  then show ?thesis
  proof cases
    case 1
    have ha: "cell_get_tag (H a) = TAtom" "l = Suc (atom_get_arity (H a))"
      using st(2) 1 by (simp_all add: is_functor_def l_def struct_len_def)
    have "\<not> is_structure_index (H (a - 1))"
    proof (cases "H (a - 1) = og_cells G (a - 1)")
      case False
      then have "forwarded G src H N k (a - 1)" using D(5) [of "a - 1"] al(1) by simp
      from forwarded_tag [OF inv this] show ?thesis by (auto simp: is_structure_index_def)
    qed (use st(3) in simp)
    then have run: "copy_structure T (cell_val (H k)) s =
        steps [set_scanned T (mk TStr N), copy_slice T a (a + l),
          \<lambda>s. steps [put T a (mk TStr N), push_trail TrHeapCell a (cell_at T s a)] s, scan_next] s"
      using ha scn view_cell_at [OF v] D(3) by (simp add: copy_structure_def a_def [symmetric] Let_def cthen_new_cell)
    have on: "open_node G H a l" using open_struct [OF ok a] 1 by (simp add: l_def)
    have room': "a < 2 ^ 56" "k < N + l" "a \<noteq> k" using al D(1,3) len k by simp_all
    let ?H = "(sliced H a l N)(k := mk TStr N, a := mk TStr N)"
    have good: "good_step G src H N k (sliced_src G src a l N) ?H (N + l) (Suc k) (tr @ [((TrHeapCell, a), og_cells G a)])"
      using step_node [OF ok inv k nf refl dtag(2) _ room on le_refl _ 1] dtag st(5) by (simp add: l_def)
    have slice: "sliced (H(k := mk TStr N)) a l N = (sliced H a l N)(k := mk TStr N)"
      using al D(1) len k by (auto simp: sliced_def fun_eq_iff)
    have "runs (steps [set_scanned T (mk TStr N), copy_slice T a (a + l),
          \<lambda>s. steps [put T a (mk TStr N), push_trail TrHeapCell a (cell_at T s a)] s, scan_next]) s (advanced G P R src H N k)"
    proof (rule runs_more, rule runs_set_scanned [OF v k], rule runs_more, rule runs_slice [OF _ al(2)], assumption, rule runs_more)
      fix s1
      assume v1: "view G P R s1 (sliced (H(k := mk TStr N)) a l N) (N + l) k tr"
      have at: "cell_at T s1 a = og_cells G a"
        using view_cell_at [OF v1] 1 room' al(1) D(1,2) len by (simp add: slice sliced_def)
      have "runs (steps [put T a (mk TStr N), push_trail TrHeapCell a (og_cells G a)]) s1
          (\<lambda>s'. runs (steps [scan_next]) s' (advanced G P R src H N k))"
      proof (rule runs_more, rule runs_put [OF v1], use al D(1,2) len in simp, rule runs_more, rule runs_push_trail [OF _ room'(1)], assumption,
          rule runs_done, rule runs_more, rule runs_scan_next, assumption, rule runs_done)
        fix s2
        assume "view G P R s2 ((sliced (H(k := mk TStr N)) a l N)(a := mk TStr N)) (N + l) (Suc k) (tr @ [((TrHeapCell, a), og_cells G a)])"
        then show "advanced G P R src H N k s2" unfolding slice by (rule advancedI [OF _ good])
      qed
      then show "runs (\<lambda>s. steps [put T a (mk TStr N), push_trail TrHeapCell a (cell_at T s a)] s) s1
          (\<lambda>s'. runs (steps [scan_next]) s' (advanced G P R src H N k))"
        using at by (simp add: runs_def)
    qed
    with run show ?thesis by (simp add: runs_def)
  next
    case (2 t)
    have t: "t < 2 ^ 56" using 2(2) D(3) st(5) by (simp add: block_def l_def)
    have run: "copy_structure T (cell_val (H k)) s = steps [set_scanned T (mk TStr t), scan_next] s"
      using 2(1) t view_cell_at [OF v] mk_readings [OF t, of TStr]
      by (simp add: copy_structure_def a_def [symmetric] Let_def cthen_new_cell)
    have "scanned G src (H(k := mk TStr t)) N (Suc k) k"
      using nf nv dtag 2(2) by (auto simp: scanned_def copied_as_def l_def)
    from scan_with [OF v ok inv k this] run show ?thesis by (simp add: runs_def)
  qed
qed

lemma runs_cthen: "runs m s (\<lambda>s'. runs (f ()) s' Q) \<Longrightarrow> runs (cthen m f) s Q"
  by (auto simp: runs_def cthen_def)

lemma runs_mark:
  assumes v: "view G P R s H N k tr" and q: "q < N" "q < 2 ^ 56" "t < 2 ^ 56"
    and Q: "\<And>s'. view G P R s' (H(q := marked t f)) N k (tr @ [((TrHeapCell, q), H q)]) \<Longrightarrow> Q s'"
  shows "runs (steps ([trail_list_cell T q t, set_mark T q True] @ (if f then [set_forwarding T q True] else []))) s Q"
proof -
  have at: "cell_at T s q = H q" using view_cell_at [OF v] by simp
  have "runs (steps [put T q (mk TLis t), push_trail TrHeapCell q (H q)]) s
      (\<lambda>s'. runs (steps ([set_mark T q True] @ (if f then [set_forwarding T q True] else []))) s' Q)"
  proof (rule runs_more, rule runs_put [OF v q(1)], rule runs_more, rule runs_push_trail [OF _ q(2)], assumption, rule runs_done)
    fix s1
    assume v1: "view G P R s1 (H(q := mk TLis t)) N k (tr @ [((TrHeapCell, q), H q)])"
    show "runs (steps ([set_mark T q True] @ (if f then [set_forwarding T q True] else []))) s1 Q"
    proof (simp only: append_Cons append_Nil, rule runs_more, rule runs_set_mark [OF v1 q(1)])
      fix s2
      assume v2: "view G P R s2 (H(q := mk TLis t, q := set_mark_bit True ((H(q := mk TLis t)) q))) N k (tr @ [((TrHeapCell, q), H q)])"
      show "runs (steps (if f then [set_forwarding T q True] else [])) s2 Q"
      proof (cases f)
        case True
        have "runs (steps [set_forwarding T q True]) s2 Q"
          by (rule runs_more, rule runs_set_forwarding [OF v2 q(1)], rule runs_done, rule Q) (simp add: marked_def True)
        with True show ?thesis by simp
      next
        case False
        then show ?thesis using v2 by (auto simp: marked_def intro!: runs_done Q)
      qed
    qed
  qed
  then have "runs (trail_list_cell T q t) s (\<lambda>s'. runs (steps ([set_mark T q True] @ (if f then [set_forwarding T q True] else []))) s' Q)"
    using at q(3) by (simp add: runs_def trail_list_cell_def put_new_mk)
  from runs_more [OF this] show ?thesis by simp
qed

lemma copy_list_step:
  assumes v: "view G P R s H N k tr" and ok: "copyable G deep" and inv: "copy_inv G src H N k tr" and k: "k < N"
    and nf: "\<not> is_functor (src k)" and c: "H k = old_value G (src k)" "cell_get_tag (H k) = TLis"
    and room: "N + work G src H N k < 2 ^ 56"
  shows "runs (copy_list T (cell_val (H k))) s (advanced G P R src H N k)"
proof -
  note D = copy_invD [OF inv]
  let ?d = "old_value G (src k)"
  define a where "a = cell_val (H k)"
  have len: "og_len G \<le> og_start G" using ok by (simp add: copyable_def)
  have "src k \<in> set (sources G)" using D(1,4) k nf by simp
  then have "?d \<in> set (sources G)" by (rule source_value [OF ok])
  then have a: "a \<in> set (locs_of TLis G)" unfolding a_def c(1) using c by (force simp: locs_of_def)
  note ls = list_source [OF ok a]
  have dtag: "cell_get_tag ?d = TLis" "cell_val ?d = a" using c by (simp_all add: a_def)
  have nv: "\<not> is_var ?d" using dtag by (simp add: is_var_def)
  have scn: "cs_scan s = k" "ct_threshold T (cs_target s) = N" "cell_at T s = H" "cs_old_h s = og_start G"
    using v view_cell_at [OF v] by (simp_all add: view_def)
  have be: "back_edge s c = edge G c" for c using scn(4) by (simp add: back_edge_def edge_def)
  have again: ?thesis if q: "q \<in> {a, Suc a}" "edge G (H q)" and run: "copy_list T a s = scan_list T (cell_val (H q)) s" for q
  proof -
    have b: "block G src N a 2 (cell_val (H q))" by (rule edge_now [OF ok inv a q])
    then have t: "cell_val (H q) < 2 ^ 56" using D(3) by (simp add: block_def)
    have "scanned G src (H(k := mk TLis (cell_val (H q)))) N (Suc k) k"
      using nf nv dtag b by (auto simp: scanned_def copied_as_def)
    from scan_with [OF v ok inv k this] run t show ?thesis
      by (simp add: runs_def scan_list_def cthen_new_cell a_def)
  qed
  consider "edge G (H a)" | "\<not> edge G (H a)" "edge G (H (Suc a))" | "\<not> edge G (H a)" "\<not> edge G (H (Suc a))" by blast
  then show ?thesis
  proof cases
    case 1
    then show ?thesis using again [of a] scn be by (simp add: copy_list_def)
  next
    case 2
    then show ?thesis using again [of "Suc a"] scn be by (simp add: copy_list_def)
  next
    case 3
    have on: "open_node G H a 2" using open_list [OF ok a] 3 by simp
    have N2: "N + 2 < 2 ^ 56" using open_room [OF ok on, of src N k] room by simp
    let ?src = "sliced_src G src a 2 N" and ?H = "(sliced H a 2 N)(k := mk TLis N)"
    have inv1: "copy_inv G ?src ?H (N + 2) (Suc k) tr"
      using slice_inv [OF ok inv k nf refl dtag(2) _ N2 node_cells [OF ok inv on]] dtag(1) by simp
    have H1: "?H q = H q" if "q < og_len G" for q using that D(1,2) len k by (auto simp: sliced_def)
    have val: "\<exists>r. follow (vstore (og_stack G) ?H) (mk TVar q) = Some r \<and>
        (is_var (vstore (og_stack G) ?H r) \<longleftrightarrow> is_var (old_value G (og_cells G q)))" if "q \<in> {a, Suc a}" for q
    proof (rule list_cell_value [OF ok inv1])
      show q: "q < og_len G" "\<not> is_functor (og_cells G q)" using that ls by auto
      show "\<not> edge G (?H q)" unfolding H1 [OF q(1)] using that 3 by auto
    qed
    obtain r1 where r1: "follow (vstore (og_stack G) ?H) (mk TVar (Suc a)) = Some r1"
      "is_var (vstore (og_stack G) ?H r1) \<longleftrightarrow> is_var (old_value G (og_cells G (Suc a)))" using val [of "Suc a"] by blast
    obtain r0 where r0: "follow (vstore (og_stack G) ?H) (mk TVar a) = Some r0"
      "is_var (vstore (og_stack G) ?H r0) \<longleftrightarrow> is_var (old_value G (og_cells G a))" using val [of a] by blast
    have a56: "Suc a < 2 ^ 56" using ls(1) len D(1-3) by simp
    have run: "copy_list T a s = cthen (copy_slice T a (a + 2)) (\<lambda>_. cthen (new_cell TLis N) (\<lambda>c.
        steps [set_scanned T c, mark_list T a N, scan_next])) s"
      using 3 scn be by (simp add: copy_list_def Let_def)
    have plain: "H q = og_cells G q" if "q \<in> {a, Suc a}" "\<not> is_var (old_value G (og_cells G q))" for q
    proof -
      have "q < og_len G" "\<not> is_functor (og_cells G q)" "\<not> edge G (H q)" using that(1) ls 3 by auto
      from plain_now [OF ok inv this] that(2) show ?thesis by auto
    qed
    have good: "good_step G src H N k ?src (?H(q := marked N f)) (N + 2) (Suc k) (tr @ [((TrHeapCell, q), H q)])"
      if "q = (if f then Suc a else a)" "\<not> is_var (old_value G (og_cells G q))" for q f
      using step_node [OF ok inv k nf refl dtag(2) _ room on, of q "marked N f" f] that plain [of q] dtag(1)
      by (auto split: if_splits)
    have marking: "runs (steps [mark_list T a N, scan_next]) s1 (advanced G P R src H N k)"
      if v1: "view G P R s1 ?H (N + 2) k tr" for s1
    proof (rule runs_more)
      have scan_next: "runs (steps [scan_next]) s2 (advanced G P R src H N k)"
        if "view G P R s2 H' N' k tr'" "good_step G src H N k ?src H' N' (Suc k) tr'" for s2 H' N' tr'
        by (rule runs_more, rule runs_scan_next [OF that(1)], rule runs_done, rule advancedI [OF _ that(2)])
      have mark: "runs (steps ([trail_list_cell T q N, set_mark T q True] @ (if f then [set_forwarding T q True] else []))) s1
          (\<lambda>s'. runs (steps [scan_next]) s' (advanced G P R src H N k))"
        if q: "q = (if f then Suc a else a)" "\<not> is_var (old_value G (og_cells G q))" for q f
      proof (rule runs_mark [OF v1])
        have "q < og_len G" using q(1) ls(1) by (simp split: if_splits)
        then show "q < N + 2" "q < 2 ^ 56" "N < 2 ^ 56" using D(1-3) len by simp_all
        fix s'
        assume "view G P R s' (?H(q := marked N f)) (N + 2) k (tr @ [((TrHeapCell, q), ?H q)])"
        then show "runs (steps [scan_next]) s' (advanced G P R src H N k)"
          using scan_next [OF _ good [OF q]] H1 \<open>q < og_len G\<close> by simp
      qed
      consider "\<not> is_var (old_value G (og_cells G (Suc a)))"
        | "is_var (old_value G (og_cells G (Suc a)))" "\<not> is_var (old_value G (og_cells G a))"
        | "is_var (old_value G (og_cells G (Suc a)))" "is_var (old_value G (og_cells G a))" by blast
      then show "runs (mark_list T a N) s1 (\<lambda>s'. runs (steps [scan_next]) s' (advanced G P R src H N k))"
      proof cases
        case 1
        then show ?thesis using mark [of "Suc a" True] r1 a56
          by (simp add: runs_def mark_list_def cthen_new_cell cthen_deref_cell [OF v1])
      next
        case 2
        then show ?thesis using mark [of a False] r1 r0 a56
          by (simp add: runs_def mark_list_def cthen_new_cell cthen_deref_cell [OF v1])
      next
        case 3
        then have "mark_list T a N s1 = ok () s1"
          using r1 r0 a56 by (simp add: mark_list_def cthen_new_cell cthen_deref_cell [OF v1])
        moreover have "good_step G src H N k ?src ?H (N + 2) (Suc k) tr"
          by (rule step_list_open [OF ok inv k nf refl dtag(2,1) room on 3(2,1)])
        ultimately show ?thesis using scan_next [OF v1] by (simp add: runs_def ok_def)
      qed
    qed
    have "runs (cthen (copy_slice T a (a + 2)) (\<lambda>_. cthen (new_cell TLis N) (\<lambda>c.
        steps [set_scanned T c, mark_list T a N, scan_next]))) s (advanced G P R src H N k)"
    proof (rule runs_cthen, rule runs_slice [OF v], use ls(1) in simp)
      fix s0
      assume v0: "view G P R s0 (sliced H a 2 N) (N + 2) k tr"
      have "runs (steps [set_scanned T (mk TLis N), mark_list T a N, scan_next]) s0 (advanced G P R src H N k)"
        by (rule runs_more, rule runs_set_scanned [OF v0], use k in simp, rule marking)
      then show "runs (cthen (new_cell TLis N) (\<lambda>c. steps [set_scanned T c, mark_list T a N, scan_next])) s0 (advanced G P R src H N k)"
        using N2 by (simp add: runs_def cthen_new_cell)
    qed
    with run show ?thesis by (simp add: runs_def a_def)
  qed
qed

lemma copy_step_advances:
  assumes v: "view G P R s H N k tr" and ok: "copyable G (P = DeepCopy)" and inv: "copy_inv G src H N k tr" and k: "k < N"
    and room: "N + work G src H N k < 2 ^ 56"
  shows "runs (copy_step T) s (advanced G P R src H N k)"
proof -
  note D = copy_invD [OF inv]
  have len: "og_len G \<le> og_start G" using ok by (simp add: copyable_def)
  have scn: "cs_scan s = k" "cell_at T s = H" "cs_old_h s = og_start G" using v view_cell_at [OF v] by (simp_all add: view_def)
  have var: ?thesis if "cell_get_tag (H k) = TVar \<or> cell_get_tag (H k) = TAttrVar"
  proof -
    have "copy_step T s = copy_var T (H k) s" using that scn by (auto simp: copy_step_def Let_def)
    then show ?thesis using copy_var_step [OF v ok inv k] that by (auto simp: runs_def is_var_def)
  qed
  show ?thesis
    using ok inv k
  proof (cases rule: scan_cases)
    case header
    then have "copy_step T s = scan_next s" using scn by (simp add: copy_step_def is_functor_def)
    moreover have "scanned G src H N (Suc k) k" using header by (simp add: scanned_def)
    ultimately show ?thesis using scan_past [OF v ok inv k] by (simp add: runs_def)
  next
    case (fresh m)
    then show ?thesis using var mk_readings(2) [OF fresh(5), of TVar] by simp
  next
    case source
    show ?thesis
    proof (cases "is_var (H k)")
      case True
      then have "H k = src k" using source(3) by blast
      then show ?thesis using var source_var(1) [OF ok source(2)] True by auto
    next
      case False
      then have d: "H k = old_value G (src k)" using source(4) by blast
      then have ds: "H k \<in> set (sources G)" using source_value [OF ok source(2)] by simp
      have so: "source_ok G (P = DeepCopy) (H k)" using copyable_source [OF ok ds] by simp
      show ?thesis
      proof (cases "cell_get_tag (H k) = TLis \<or> cell_get_tag (H k) = TStr")
        case True
        have "cell_get_tag (H k) = TLis \<Longrightarrow> \<not> og_start G \<le> cell_val (H k)"
          using so len by (auto simp: source_ok_def Let_def)
        then have "copy_step T s = (if cell_get_tag (H k) = TLis then copy_list T (cell_val (H k)) s else copy_structure T (cell_val (H k)) s)"
          using True scn by (auto simp: copy_step_def Let_def)
        then show ?thesis
          using copy_list_step [OF v ok inv k source(1) d _ room] copy_structure_step [OF v ok inv k source(1) d _ room] True
          by (auto simp: runs_def)
      next
        case const: False
        then have "copy_step T s = scan_next s"
          using so False scn by (auto simp: copy_step_def source_ok_def Let_def is_var_def split: HeapCellValueTag.splits)
        moreover have "copied_as G src N (H k) (H k)" using const by (auto simp: copied_as_def split: HeapCellValueTag.splits)
        then have "scanned G src H N (Suc k) k" using source(1) False d by (simp add: scanned_def)
        ultimately show ?thesis using scan_past [OF v ok inv k] by (simp add: runs_def)
      qed
    qed
  qed
qed

lemma copy_loop_runs:
  assumes "view G P R s H N k tr" "copyable G (P = DeepCopy)" "copy_inv G src H N k tr" "N + work G src H N k < 2 ^ 56"
  shows "runs (copy_loop T) s (\<lambda>s'. \<exists>src' H' N' tr'. view G P R s' H' N' N' tr' \<and> copy_inv G src' H' N' N' tr' \<and>
    (og_start G < N \<longrightarrow> og_start G < N' \<and> src' (og_start G) = src (og_start G)))"
  using assms
proof (induction "work G src H N k" arbitrary: s H N k tr src rule: less_induct)
  case less
  have scn: "cs_scan s = k" "ct_threshold T (cs_target s) = N" using less.prems(1) by (simp_all add: view_def)
  show ?case
  proof (cases "k < N")
    case True
    obtain s' src' H' N' k' tr' where s': "copy_step T s = Some (Inr (), s')" "view G P R s' H' N' k' tr'"
      "good_step G src H N k src' H' N' k' tr'"
      using copy_step_advances [OF less.prems(1-3) True less.prems(4)] by (auto simp: runs_def advanced_def)
    then have g: "copy_inv G src' H' N' k' tr'" "N' + work G src' H' N' k' < 2 ^ 56" "work G src' H' N' k' < work G src H N k"
      "\<And>j. og_start G \<le> j \<Longrightarrow> j < N \<Longrightarrow> src' j = src j"
      using less.prems(4) by (auto simp: good_step_def)
    have "copy_loop T s = copy_loop T s'" using s'(1) scn True by (simp add: copy_loop.simps [of T s])
    moreover have keep: "og_start G < N \<longrightarrow> og_start G < N' \<and> src' (og_start G) = src (og_start G)"
      using g(4) s'(3) by (auto simp: good_step_def)
    have "runs (copy_loop T) s' (\<lambda>s'. \<exists>src' H' N' tr'. view G P R s' H' N' N' tr' \<and> copy_inv G src' H' N' N' tr' \<and>
        (og_start G < N \<longrightarrow> og_start G < N' \<and> src' (og_start G) = src (og_start G)))"
      by (rule runs_mono [OF less.hyps [OF g(3) s'(2) less.prems(2) g(1,2)]]) (use keep in metis)
    ultimately show ?thesis by (simp add: runs_def)
  next
    case False
    then have "k = N" using copy_invD(2) [OF less.prems(3)] by simp
    then show ?thesis using less.prems(1,3) scn by (auto simp: runs_def copy_loop.simps [of T s])
  qed
qed

lemma runs_restore:
  assumes v: "view G P R s H N k tr" and i: "i < N" and u: "unmarked w"
    and Q: "\<And>s'. view G P R s' (H(i := w)) N k tr \<Longrightarrow> Q s'"
  shows "runs (steps [put T i w, set_mark T i False, set_forwarding T i False]) s Q"
proof (rule runs_more, rule runs_put [OF v i], rule runs_more, rule runs_set_mark [OF _ i], assumption, rule runs_more,
    rule runs_set_forwarding [OF _ i], assumption, rule runs_done, rule Q)
qed (use u in \<open>simp add: unmarked_def\<close>)

lemma unwind_runs:
  assumes "view G P R s H N k []" "\<forall>((tag, i), v)\<in>set es. tag \<in> {TrHeapCell, TrAttrVar} \<and> i < N \<and> unmarked v \<and> v = W i"
  shows "runs (unwind_copy_entries T es) s (\<lambda>s'. view G P R s' (\<lambda>i. if \<exists>tag. ((tag, i), W i) \<in> set es then W i else H i) N k [])"
  using assms
proof (induction es arbitrary: s H)
  case (Cons e es)
  obtain tag i v where e: "e = ((tag, i), v)" by (metis prod.exhaust)
  have ok: "tag = TrHeapCell \<or> tag = TrAttrVar" "i < N" "unmarked v" "v = W i" using Cons.prems(2) e by auto
  have "runs (steps [put T i v, set_mark T i False, set_forwarding T i False]) s (\<lambda>s1. runs (steps [unwind_copy_entries T es]) s1
      (\<lambda>s'. view G P R s' (\<lambda>j. if \<exists>tag. ((tag, j), W j) \<in> set (e # es) then W j else H j) N k []))"
  proof (rule runs_restore [OF Cons.prems(1) ok(2,3)], rule runs_more)
    fix s1
    assume v1: "view G P R s1 (H(i := v)) N k []"
    have eq: "(if \<exists>tag. ((tag, j), W j) \<in> set es then W j else (H(i := v)) j) =
        (if \<exists>tag. ((tag, j), W j) \<in> set (e # es) then W j else H j)" for j
      using ok(4) e by auto
    have "runs (unwind_copy_entries T es) s1 (\<lambda>s'. view G P R s' (\<lambda>j. if \<exists>tag. ((tag, j), W j) \<in> set es then W j else (H(i := v)) j) N k [])"
      using Cons.IH [OF v1] Cons.prems(2) by simp
    then show "runs (unwind_copy_entries T es) s1 (\<lambda>s2. runs (steps []) s2
        (\<lambda>s'. view G P R s' (\<lambda>j. if \<exists>tag. ((tag, j), W j) \<in> set (e # es) then W j else H j) N k []))"
      unfolding eq by (rule runs_mono) (rule runs_done)
  qed
  from runs_more [OF this] ok(1) show ?case unfolding e by auto
qed (simp add: runs_def ok_def)

end

section \<open>The result\<close>

text \<open>
  What copying leaves behind, the old cells restored: the cell \<open>og_start\<close> is the copy of the term, and every
  new cell the copy of its source; \<open>V\<close> gives an unbound variable its copy.
\<close>

definition copied ::
  "origin \<Rightarrow> (nat \<Rightarrow> HeapCellValue) \<Rightarrow> (HeapCellValue \<Rightarrow> nat) \<Rightarrow> (nat \<Rightarrow> HeapCellValue) \<Rightarrow> nat \<Rightarrow> bool" where
  "copied G src V H N \<longleftrightarrow>
     og_start G < N \<and> N < 2 ^ 56 \<and> src (og_start G) = og_addr G \<and> (\<forall>i<og_start G. H i = og_cells G i) \<and>
     (\<forall>j. og_start G \<le> j \<and> j < N \<longrightarrow>
        (let d = old_value G (src j)
         in if is_functor (src j) then H j = src j
            else src j \<in> set (sources G) \<and>
              (if is_var d then H j = mk TVar (V d) \<and> og_start G \<le> V d \<and> V d < N \<and> H (V d) = mk TVar (V d) \<and>
                 \<not> is_functor (src (V d)) \<and> old_value G (src (V d)) = d
               else copied_as G src N d (H j) \<or>
                 is_var (src j) \<and> cell_val (src j) \<in> list_cells G \<and>
                 (\<exists>m. H j = mk TVar m \<and> og_start G \<le> m \<and> m < N \<and> src m = og_cells G (cell_val (src j))))))"

lemma copied_after:
  assumes inv: "copy_inv G src H N N tr" and start: "og_start G < N" "src (og_start G) = og_addr G"
    and after: "\<And>i. i < og_start G \<Longrightarrow> H' i = og_cells G i" "\<And>i. og_start G \<le> i \<Longrightarrow> H' i = H i"
  shows "copied G src (\<lambda>d. cell_val (H (cell_val d))) H' N"
proof -
  note D = copy_invD [OF inv]
  let ?V = "\<lambda>d. cell_val (H (cell_val d))"
  have new: "m = ?V d \<and> og_start G \<le> m \<and> m < N \<and> H' m = mk TVar m \<and> \<not> is_functor (src m) \<and> old_value G (src m) = d"
    if "renamed G src H N d m" for d m
    using that D(3) after(2) mk_readings(3) [of m TVar] by (simp add: renamed_def)
  show ?thesis
    unfolding copied_def Let_def
  proof (intro conjI allI impI)
    fix j
    assume j: "og_start G \<le> j \<and> j < N"
    let ?d = "old_value G (src j)"
    have sc: "scanned G src H N N j" "\<not> is_functor (src j) \<Longrightarrow> src j \<in> set (sources G)" "H' j = H j"
      using D(4,6) j after(2) by simp_all
    have "H' j = mk TVar (?V ?d) \<and> og_start G \<le> ?V ?d \<and> ?V ?d < N \<and> H' (?V ?d) = mk TVar (?V ?d) \<and>
        \<not> is_functor (src (?V ?d)) \<and> old_value G (src (?V ?d)) = ?d" if "\<not> is_functor (src j)" "is_var ?d"
    proof -
      obtain m where m: "renamed G src H N ?d m" "H j = mk TVar m" using sc(1) \<open>\<not> is_functor (src j)\<close> \<open>is_var ?d\<close> by (auto simp: scanned_def)
      from new [OF m(1)] have "?V ?d = m" by simp
      with new [OF m(1)] m(2) sc(3) show ?thesis by simp
    qed
    then show "if is_functor (src j) then H' j = src j
      else src j \<in> set (sources G) \<and>
        (if is_var ?d then H' j = mk TVar (?V ?d) \<and> og_start G \<le> ?V ?d \<and> ?V ?d < N \<and> H' (?V ?d) = mk TVar (?V ?d) \<and>
           \<not> is_functor (src (?V ?d)) \<and> old_value G (src (?V ?d)) = ?d
         else copied_as G src N ?d (H' j) \<or>
           is_var (src j) \<and> cell_val (src j) \<in> list_cells G \<and>
           (\<exists>m. H' j = mk TVar m \<and> og_start G \<le> m \<and> m < N \<and> src m = og_cells G (cell_val (src j))))"
      using sc unfolding scanned_def by (simp split: if_splits)
  qed (use start after D(3) in auto)
qed

context copier_target
begin

lemma copy_term_copies:
  assumes t: "valid t" "ct_index T t = og_cells G" "stack_of t = og_stack G" "ct_threshold T t = og_start G" "og_len G \<le> limit t"
    and ok: "copyable G (P = DeepCopy)"
  shows "\<exists>t' src V N. copy_term T (og_addr G) P t = Some (Inr (N - og_start G), t') \<and> valid t' \<and> stack_of t' = og_stack G \<and>
    frame t' = frame t \<and> ct_threshold T t' = N \<and> copied G src V (ct_index T t') N"
proof -
  define n where "n = og_start G"
  define s0 where "s0 = (CopyTermState_new T t P)\<lparr>cs_scan := n\<rparr>"
  have len: "og_len G \<le> n" "n + 8 * (og_len G + 1) \<le> 2 ^ 56" using ok by (simp_all add: copyable_def n_def)
  have v0: "view G P (frame t) s0 (og_cells G) n n []"
    using t by (simp add: view_def s0_def CopyTermState_new_def n_def)
  let ?H = "(og_cells G)(n := og_addr G)" and ?src = "\<lambda>_. og_addr G"
  have nf: "\<not> is_functor (og_addr G)" using copyable_source [OF ok source_addr] by (simp add: source_ok_def)
  have inv: "copy_inv G ?src ?H (Suc n) n []"
    using len source_addr by (auto simp: copy_inv_def pending_def n_def)
  have "work G ?src ?H (Suc n) n \<le> 6 + 7 * og_len G"
  proof -
    have "card (uncopied G ?H) \<le> og_len G"
      using card_mono [OF _ uncopied_bounded [OF ok], of ?H] by simp
    then show ?thesis using weight_bounds(2) [of G ?src ?H n] by (simp add: work_def)
  qed
  then have room: "Suc n + work G ?src ?H (Suc n) n < 2 ^ 56" using len by simp
  have "runs (steps [copy_term_impl T (og_addr G), copy_attr_var_lists T, unwind_copy_trail T]) (CopyTermState_new T t P)
      (\<lambda>s. \<exists>src V N. view G P (frame t) s (ct_index T (cs_target s)) N N [] \<and> copied G src V (ct_index T (cs_target s)) N)"
  proof (rule runs_more)
    have "runs (steps [reserve_and_push T 1 [og_addr G], copy_loop T]) s0
        (\<lambda>s1. runs (steps [copy_attr_var_lists T, unwind_copy_trail T]) s1
          (\<lambda>s. \<exists>src V N. view G P (frame t) s (ct_index T (cs_target s)) N N [] \<and> copied G src V (ct_index T (cs_target s)) N))"
    proof (rule runs_more, rule runs_push [OF v0], rule runs_more, rule runs_mono)
      fix s1
      assume "view G P (frame t) s1 ?H (Suc n) n []"
      from copy_loop_runs [OF this ok inv room]
      show "runs (copy_loop T) s1 (\<lambda>s'. \<exists>src' H' N' tr'. view G P (frame t) s' H' N' N' tr' \<and> copy_inv G src' H' N' N' tr' \<and>
          (og_start G < Suc n \<longrightarrow> og_start G < N' \<and> src' (og_start G) = og_addr G))" .
    next
      fix s1 s2
      assume "\<exists>src' H' N' tr'. view G P (frame t) s2 H' N' N' tr' \<and> copy_inv G src' H' N' N' tr' \<and>
          (og_start G < Suc n \<longrightarrow> og_start G < N' \<and> src' (og_start G) = og_addr G)"
      then obtain src H N tr where v: "view G P (frame t) s2 H N N tr" and inv: "copy_inv G src H N N tr"
        and start: "og_start G < N" "src (og_start G) = og_addr G" by (auto simp: n_def)
      have trail: "\<forall>((tag, i), v)\<in>set tr. tag \<in> {TrHeapCell, TrAttrVar} \<and> i < N \<and> unmarked v \<and> v = og_cells G i"
        using inv ok start(1) len(1) unfolding copy_inv_def copyable_def by (auto simp: n_def)
      have v': "view G P (frame t) (s2\<lparr>cs_trail := []\<rparr>) H N N []" "cs_trail s2 = tr" "cs_attr_var_list_locs s2 = []"
        using v by (simp_all add: view_def)
      let ?H' = "\<lambda>i. if \<exists>tag. ((tag, i), og_cells G i) \<in> set tr then og_cells G i else H i"
      have "?H' i = og_cells G i" if "i < og_start G" for i
        using inv that unfolding copy_inv_def by (cases "i < og_len G") auto
      moreover have "?H' i = H i" if "og_start G \<le> i" for i
        using inv that len(1) unfolding copy_inv_def n_def by fastforce
      ultimately have cp: "copied G src (\<lambda>d. cell_val (H (cell_val d))) ?H' N" by (rule copied_after [OF inv start])
      have undone: "runs (unwind_copy_trail T) s2 (\<lambda>s. \<exists>src V N. view G P (frame t) s (ct_index T (cs_target s)) N N [] \<and>
          copied G src V (ct_index T (cs_target s)) N)"
      proof -
        have "runs (unwind_copy_entries T tr) (s2\<lparr>cs_trail := []\<rparr>) (\<lambda>s. \<exists>src V N. view G P (frame t) s (ct_index T (cs_target s)) N N [] \<and>
            copied G src V (ct_index T (cs_target s)) N)"
        proof (rule runs_mono [OF unwind_runs [OF v'(1) trail]])
          fix s'
          assume v3: "view G P (frame t) s' ?H' N N []"
          then have "ct_index T (cs_target s') = ?H'" by (simp add: view_def)
          with v3 cp show "\<exists>src V N. view G P (frame t) s' (ct_index T (cs_target s')) N N [] \<and>
              copied G src V (ct_index T (cs_target s')) N" by metis
        qed
        then show ?thesis using v'(2) by (simp add: unwind_copy_trail_def runs_def)
      qed
      have lists: "copy_attr_var_lists T s2 = Some (Inr (), s2)" using v'(3) by (simp add: copy_attr_var_lists.simps [of T s2])
      have "runs (steps [unwind_copy_trail T]) s2 (\<lambda>s. \<exists>src V N. view G P (frame t) s (ct_index T (cs_target s)) N N [] \<and>
          copied G src V (ct_index T (cs_target s)) N)"
        by (rule runs_more, rule runs_mono [OF undone], rule runs_done)
      then show "runs (steps []) s2 (\<lambda>s1. runs (steps [copy_attr_var_lists T, unwind_copy_trail T]) s1
          (\<lambda>s. \<exists>src V N. view G P (frame t) s (ct_index T (cs_target s)) N N [] \<and> copied G src V (ct_index T (cs_target s)) N))"
        using lists by (intro runs_done runs_more) (simp add: runs_def)
    qed
    then show "runs (copy_term_impl T (og_addr G)) (CopyTermState_new T t P)
        (\<lambda>s1. runs (steps [copy_attr_var_lists T, unwind_copy_trail T]) s1
          (\<lambda>s. \<exists>src V N. view G P (frame t) s (ct_index T (cs_target s)) N N [] \<and> copied G src V (ct_index T (cs_target s)) N))"
      using t(4) by (simp add: runs_def copy_term_impl_def s0_def n_def CopyTermState_new_def)
  qed
  then obtain s src V N where s: "steps [copy_term_impl T (og_addr G), copy_attr_var_lists T, unwind_copy_trail T] (CopyTermState_new T t P) = Some (Inr (), s)"
    "view G P (frame t) s (ct_index T (cs_target s)) N N []" "copied G src V (ct_index T (cs_target s)) N"
    by (auto simp: runs_def)
  then have "copy_term T (og_addr G) P t = Some (Inr (N - og_start G), cs_target s)"
    using t(4) by (simp add: copy_term_def cthen_def copy_pstrs_def ok_def view_def Let_def)
  then show ?thesis using s(2,3) by (auto simp: view_def)
qed

end

end
