(* ===== verification/CopyTerms.thy ===== *)
theory CopyTerms
  imports CopyLoop
begin

text \<open>
  The two targets of the copier, the heap of the machine and the stub of a ball behind it, keep the copier's
  contract: cells that are overwritten, pushed and sliced appear where the copier expects them, and nothing
  else of the target changes.
\<close>

section \<open>Cells appended to a heap\<close>

lemma hcell_pushed:
  assumes "wf_heap h"
  shows "hcell (section_push_cell c h) = (hcell h)(cell_len h := c)" "wf_heap (section_push_cell c h) \<longleftrightarrow> length (mem h) + 8 \<le> byte_cap h"
proof -
  have len: "length (mem h) = 8 * cell_len h" using assms by (simp add: wf_heap_def index_defs)
  show "hcell (section_push_cell c h) = (hcell h)(cell_len h := c)"
  proof
    fix i
    consider "i < cell_len h" | "i = cell_len h" | "cell_len h < i" by linarith
    then show "hcell (section_push_cell c h) i = ((hcell h)(cell_len h := c)) i"
    proof cases
      case 1
      then show ?thesis using hcell_append [OF 1, of "section_push_cell c h" "cell_bytes c"] by simp
    next
      case 2
      then show ?thesis using hcell_at_end [of h "section_push_cell c h" c "[]"] assms by (simp add: wf_heap_def)
    next
      case 3
      then show ?thesis using len hcell_beyond [of h i] hcell_beyond [of "section_push_cell c h" i] by simp
    qed
  qed
  show "wf_heap (section_push_cell c h) \<longleftrightarrow> length (mem h) + 8 \<le> byte_cap h"
    using assms by (auto simp: wf_heap_def)
qed

lemma hcell_set: "i < cell_len h \<Longrightarrow> hcell (set_hcell i c h) = (hcell h)(i := c)"
  by (auto simp: fun_eq_iff hcell_set_same hcell_set_other)

lemma hcell_sliced:
  assumes "wf_heap h" "a + l \<le> cell_len h" "mem h' = mem h @ take (8 * l) (drop (8 * a) (mem h))"
  shows "hcell h' = sliced (hcell h) a l (cell_len h)" "cell_len h' = cell_len h + l"
proof -
  have len: "length (mem h) = 8 * cell_len h" using assms(1) by (simp add: wf_heap_def index_defs)
  then have len': "length (mem h') = 8 * (cell_len h + l)" using assms(2,3) by simp
  then show "cell_len h' = cell_len h + l" by (simp add: index_defs)
  show "hcell h' = sliced (hcell h) a l (cell_len h)"
  proof
    fix i
    consider "i < cell_len h" | "cell_len h \<le> i" "i < cell_len h + l" | "cell_len h + l \<le> i" by linarith
    then show "hcell h' i = sliced (hcell h) a l (cell_len h) i"
    proof cases
      case 1
      then show ?thesis using hcell_append [OF 1 assms(3)] by (simp add: sliced_def)
    next
      case 2
      define k where "k = i - cell_len h"
      have k: "k < l" "i = cell_len h + k" using 2 by (simp_all add: k_def)
      have "take 8 (drop (8 * i) (mem h')) = take 8 (drop (8 * k) (take (8 * l) (drop (8 * a) (mem h))))"
        using k len assms(3) by simp
      also have "\<dots> = take 8 (drop (8 * (a + k)) (mem h))"
        using k(1) by (simp add: drop_take take_take min_absorb1 algebra_simps)
      finally show ?thesis using 2 k by (simp add: sliced_def hcell_def index_defs mult.commute)
    next
      case 3
      then show ?thesis using len len' hcell_beyond [of h' i] hcell_beyond [of h i] by (simp add: sliced_def)
    qed
  qed
qed

lemma reserve_total:
  assumes "wf_heap h"
  shows "\<exists>h'. reserve (\<lambda>_. True) n h = Some h' \<and> mem h' = mem h \<and> wf_heap h' \<and> length (mem h) + 8 * n \<le> byte_cap h'"
proof -
  obtain h' where h': "reserve (\<lambda>_. True) n h = Some h'" using grow_until_total by (auto simp: reserve_def)
  then have "mem h' = mem h \<and> heap_index n \<le> free_space h' \<and> wf_heap h'"
    unfolding reserve_def using grow_until_Some assms by blast
  then show ?thesis using h' by (auto simp: free_space_def wf_heap_def index_defs)
qed

lemma hcell_mem: "mem h = mem h' \<Longrightarrow> hcell h = hcell h'" "mem h = mem h' \<Longrightarrow> cell_len h = cell_len h'"
  by (auto simp: fun_eq_iff hcell_def index_defs)

lemma push_total:
  assumes "wf_heap h"
  shows "\<exists>h'. reserve (\<lambda>_. True) 1 h = Some h' \<and> wf_heap (section_push_cell c h') \<and>
    cell_len (section_push_cell c h') = Suc (cell_len h) \<and> hcell (section_push_cell c h') = (hcell h)(cell_len h := c)"
proof -
  obtain h' where h': "reserve (\<lambda>_. True) 1 h = Some h'" "mem h' = mem h" "wf_heap h'" "length (mem h) + 8 * 1 \<le> byte_cap h'"
    using reserve_total [OF assms] by blast
  with hcell_pushed [OF h'(3), of c] hcell_mem [OF h'(2)] show ?thesis by auto
qed

lemma slice_total:
  assumes "wf_heap h" "a + l \<le> cell_len h"
  shows "\<exists>h'. copy_slice_to_end (\<lambda>_. True) a (a + l) h = Some h' \<and> wf_heap h' \<and> cell_len h' = cell_len h + l \<and>
    hcell h' = sliced (hcell h) a l (cell_len h)"
proof -
  obtain h1 where h1: "grow_until (\<lambda>_. True) (heap_index l) h = Some h1" "mem h1 = mem h" "wf_heap h1" "length (mem h) + 8 * l \<le> byte_cap h1"
    using reserve_total [OF assms(1), of l] unfolding reserve_def by blast
  let ?h = "h1\<lparr>mem := mem h1 @ take (heap_index l) (drop (heap_index a) (mem h1))\<rparr>"
  have m: "mem ?h = mem h @ take (8 * l) (drop (8 * a) (mem h))" using h1(2) by (simp add: index_defs mult.commute)
  have bytes: "is_bytes (mem h)" and len: "length (mem h) = 8 * cell_len h" and al: "8 dvd byte_cap h1"
    using assms(1) h1(3) by (simp_all add: wf_heap_def index_defs)
  have l8: "length (mem ?h) = 8 * (cell_len h + l)" unfolding m using len assms(2) by simp
  have "is_bytes (mem ?h)" unfolding m using bytes by simp
  then have "wf_heap ?h" using l8 h1(4) al len by (simp add: wf_heap_def)
  moreover have "copy_slice_to_end (\<lambda>_. True) a (a + l) h = Some ?h" using h1(1) by (simp add: copy_slice_to_end_def del: grow_until.simps)
  ultimately show ?thesis using hcell_sliced [OF assms m] by metis
qed

section \<open>The machine's heap as a target\<close>

lemma deref_follow: "deref st c = follow (store st) c"
proof -
  have "follow (store st) c = Some r" if "deref st c = Some r" for r
    using that by (induction rule: deref_induct; subst follow_unfold; auto)
  moreover have "deref st c = Some r" if "follow (store st) c = Some r" for r
    using that by (induction rule: follow_induct; subst deref_unfold; auto)
  ultimately show ?thesis by (metis not_None_eq)
qed

lemma store_vstore: "store st c = vstore (stack_at (ms_stack st)) (hcell (ms_heap st)) c"
  by (simp add: store_eq vstore_def split: option.splits loc.splits)

interpretation heap_target: copier_target "CopyTerm (\<lambda>_. True)" "\<lambda>st. wf_heap (ms_heap st)" "\<lambda>st. stack_at (ms_stack st)"
  "\<lambda>st. cell_len (ms_heap st)" "\<lambda>st h. st\<lparr>ms_heap := h\<rparr>"
proof unfold_locales
  fix st :: MachineState and c
  show "ct_store (CopyTerm (\<lambda>_. True)) st c = vstore (stack_at (ms_stack st)) (ct_index (CopyTerm (\<lambda>_. True)) st) c"
    by (simp add: CopyTerm_def store_vstore)
  show "ct_deref (CopyTerm (\<lambda>_. True)) st c = follow (ct_store (CopyTerm (\<lambda>_. True)) st) c"
    by (simp add: CopyTerm_def deref_follow)
next
  fix st :: MachineState and i c
  assume "wf_heap (ms_heap st)" "i < ct_threshold (CopyTerm (\<lambda>_. True)) st"
  then show "\<exists>t'. ct_set (CopyTerm (\<lambda>_. True)) i c st = Some t' \<and> wf_heap (ms_heap t') \<and> stack_at (ms_stack t') = stack_at (ms_stack st) \<and>
      (\<lambda>h. t'\<lparr>ms_heap := h\<rparr>) = (\<lambda>h. st\<lparr>ms_heap := h\<rparr>) \<and> cell_len (ms_heap st) \<le> cell_len (ms_heap t') \<and>
      ct_threshold (CopyTerm (\<lambda>_. True)) t' = ct_threshold (CopyTerm (\<lambda>_. True)) st \<and>
      ct_index (CopyTerm (\<lambda>_. True)) t' = (ct_index (CopyTerm (\<lambda>_. True)) st)(i := c)"
    using length_set_hcell [of i "ms_heap st" c]
    by (simp add: CopyTerm_def put_heap_def wf_heap_set_hcell hcell_set cell_len_def byte_len_def)
next
  fix st :: MachineState and c
  assume "wf_heap (ms_heap st)"
  from push_total [OF this, of c]
  show "\<exists>t'. ct_reserve (CopyTerm (\<lambda>_. True)) 1 st = Some t' \<and> wf_heap (ms_heap (ct_push_cell (CopyTerm (\<lambda>_. True)) c t')) \<and>
      stack_at (ms_stack (ct_push_cell (CopyTerm (\<lambda>_. True)) c t')) = stack_at (ms_stack st) \<and>
      (\<lambda>h. (ct_push_cell (CopyTerm (\<lambda>_. True)) c t')\<lparr>ms_heap := h\<rparr>) = (\<lambda>h. st\<lparr>ms_heap := h\<rparr>) \<and>
      cell_len (ms_heap st) \<le> cell_len (ms_heap (ct_push_cell (CopyTerm (\<lambda>_. True)) c t')) \<and>
      ct_threshold (CopyTerm (\<lambda>_. True)) (ct_push_cell (CopyTerm (\<lambda>_. True)) c t') = Suc (ct_threshold (CopyTerm (\<lambda>_. True)) st) \<and>
      ct_index (CopyTerm (\<lambda>_. True)) (ct_push_cell (CopyTerm (\<lambda>_. True)) c t') =
        (ct_index (CopyTerm (\<lambda>_. True)) st)(ct_threshold (CopyTerm (\<lambda>_. True)) st := c)"
    by (auto simp: CopyTerm_def)
next
  fix st :: MachineState and a l
  assume "wf_heap (ms_heap st)" "a + l \<le> cell_len (ms_heap st)"
  from slice_total [OF this]
  show "\<exists>t'. ct_copy_slice_to_end (CopyTerm (\<lambda>_. True)) a (a + l) st = Some t' \<and> wf_heap (ms_heap t') \<and>
      stack_at (ms_stack t') = stack_at (ms_stack st) \<and> (\<lambda>h. t'\<lparr>ms_heap := h\<rparr>) = (\<lambda>h. st\<lparr>ms_heap := h\<rparr>) \<and>
      cell_len (ms_heap st) \<le> cell_len (ms_heap t') \<and>
      ct_threshold (CopyTerm (\<lambda>_. True)) t' = ct_threshold (CopyTerm (\<lambda>_. True)) st + l \<and>
      ct_index (CopyTerm (\<lambda>_. True)) t' = sliced (ct_index (CopyTerm (\<lambda>_. True)) st) a l (ct_threshold (CopyTerm (\<lambda>_. True)) st)"
    by (auto simp: CopyTerm_def)
qed

section \<open>The stub of a ball as a target\<close>

lemma fold_pushed:
  "wf_heap h \<Longrightarrow> length (mem h) + 8 * length cs \<le> byte_cap h \<Longrightarrow>
   wf_heap (fold section_push_cell cs h) \<and> cell_len (fold section_push_cell cs h) = cell_len h + length cs \<and>
   hcell (fold section_push_cell cs h) i =
     (if cell_len h \<le> i \<and> i < cell_len h + length cs then cs ! (i - cell_len h) else hcell h i)"
proof (induction cs arbitrary: h)
  case (Cons c cs)
  let ?h = "section_push_cell c h"
  have len: "cell_len ?h = Suc (cell_len h)" by (simp add: index_defs)
  have "wf_heap ?h" using hcell_pushed(2) [OF Cons.prems(1)] Cons.prems(2) by simp
  moreover have "length (mem ?h) + 8 * length cs \<le> byte_cap ?h" using Cons.prems(2) by simp
  ultimately have ih: "wf_heap (fold section_push_cell cs ?h)" "cell_len (fold section_push_cell cs ?h) = cell_len ?h + length cs"
    "hcell (fold section_push_cell cs ?h) i =
      (if cell_len ?h \<le> i \<and> i < cell_len ?h + length cs then cs ! (i - cell_len ?h) else hcell ?h i)"
    using Cons.IH [of ?h] by simp_all
  then show ?case using hcell_pushed(1) [OF Cons.prems(1), of c] unfolding len
    by (auto simp: nth_Cons' not_less less_Suc_eq)
qed auto

lemma ball_follow: "ball_deref b c = follow (ball_store b) c"
proof -
  have "follow (ball_store b) c = Some r" if "ball_deref b c = Some r" for r
  proof -
    have "b = b \<longrightarrow> follow (ball_store b) c = Some r"
      by (rule ball_deref.raw_induct [of "\<lambda>b' c r. b' = b \<longrightarrow> follow (ball_store b) c = Some r", OF _ that])
         (subst follow_unfold, auto simp: Let_def split: if_splits)
    then show ?thesis by simp
  qed
  moreover have "ball_deref b c = Some r" if "follow (ball_store b) c = Some r" for r
    using that by (induction rule: follow_induct; subst ball_deref.simps; auto)
  ultimately show ?thesis by (metis not_None_eq)
qed

lemma ball_store_vstore: "ball_store b c = vstore (stack_at (cb_stack b)) (ball_index b) c"
  by (simp add: ball_store_def vstore_def loc_of_def split: HeapCellValueTag.splits)

abbreviation ball_valid :: "CopyBallTerm \<Rightarrow> bool" where
  "ball_valid b \<equiv> wf_heap (cb_heap b) \<and> wf_heap (cb_stub b)"

abbreviation ball_frame :: "CopyBallTerm \<Rightarrow> nat list \<times> HeapCellValue list \<times> nat" where
  "ball_frame b \<equiv> (cb_attr_var_queue b, cb_stack b, cell_len (cb_heap b))"

lemma ball_index_set:
  assumes "i < cell_len (cb_heap b) + cell_len (cb_stub b)" "ball_valid b"
  obtains b' where "ball_set i c b = Some b'" "ball_valid b'" "ball_frame b' = ball_frame b" "cell_len (cb_stub b') = cell_len (cb_stub b)"
    "ball_index b' = (ball_index b)(i := c)"
proof (cases "i < cell_len (cb_heap b)")
  case True
  let ?b = "b\<lparr>cb_heap := set_hcell i c (cb_heap b)\<rparr>"
  have len: "cell_len (set_hcell i c (cb_heap b)) = cell_len (cb_heap b)"
    using length_set_hcell [of i "cb_heap b" c] True by (simp add: cell_len_def byte_len_def)
  show ?thesis
    by (rule that [of ?b]) (use True assms in \<open>auto simp: ball_set_def ball_index_def wf_heap_set_hcell hcell_set len fun_eq_iff\<close>)
next
  case False
  let ?j = "i - cell_len (cb_heap b)"
  let ?b = "b\<lparr>cb_stub := set_hcell ?j c (cb_stub b)\<rparr>"
  have j: "?j < cell_len (cb_stub b)" using assms(1) False by linarith
  have len: "cell_len (set_hcell ?j c (cb_stub b)) = cell_len (cb_stub b)"
    using length_set_hcell [of ?j "cb_stub b" c] j by (simp add: cell_len_def byte_len_def)
  show ?thesis
    by (rule that [of ?b]) (use False j assms in \<open>auto simp: ball_set_def ball_index_def wf_heap_set_hcell hcell_set len fun_eq_iff\<close>)
qed

lemma ball_slice:
  assumes "ball_valid b" "a + l \<le> cell_len (cb_heap b)"
  obtains b' where "ball_copy_slice (\<lambda>_. True) a (a + l) b = Some b'" "ball_valid b'" "ball_frame b' = ball_frame b"
    "cell_len (cb_stub b') = cell_len (cb_stub b) + l"
    "ball_index b' = sliced (ball_index b) a l (cell_len (cb_heap b) + cell_len (cb_stub b))"
proof -
  obtain h where h: "reserve (\<lambda>_. True) l (cb_stub b) = Some h" "mem h = mem (cb_stub b)" "wf_heap h"
    "length (mem (cb_stub b)) + 8 * l \<le> byte_cap h"
    using reserve_total assms(1) by blast
  let ?cs = "map (hcell (cb_heap b)) [a..<a + l]"
  let ?h = "fold section_push_cell ?cs h"
  let ?b = "b\<lparr>cb_stub := ?h\<rparr>"
  have f: "wf_heap ?h" "cell_len ?h = cell_len (cb_stub b) + l"
    "hcell ?h i = (if cell_len (cb_stub b) \<le> i \<and> i < cell_len (cb_stub b) + l then hcell (cb_heap b) (a + (i - cell_len (cb_stub b)))
       else hcell (cb_stub b) i)" for i
    using fold_pushed [OF h(3), of ?cs i] h(4) hcell_mem [OF h(2)] by (auto simp: h(2) add_diff_assoc)
  show ?thesis
  proof (rule that [of ?b])
    show "ball_copy_slice (\<lambda>_. True) a (a + l) b = Some ?b" using h(1) by (simp add: ball_copy_slice_def fold_map comp_def del: upt_Suc)
    show "ball_index ?b = sliced (ball_index b) a l (cell_len (cb_heap b) + cell_len (cb_stub b))"
    proof
      fix i
      show "ball_index ?b i = sliced (ball_index b) a l (cell_len (cb_heap b) + cell_len (cb_stub b)) i"
        using assms(2) f(3) [of "i - cell_len (cb_heap b)"] by (auto simp: ball_index_def sliced_def)
    qed
  qed (use assms(1) f in simp_all)
qed

interpretation ball_target: copier_target "CopyBallTerm_target (\<lambda>_. True) strings" ball_valid "\<lambda>b. stack_at (cb_stack b)"
  "\<lambda>b. cell_len (cb_heap b)" ball_frame for strings
proof unfold_locales
  fix b c
  show "ct_store (CopyBallTerm_target (\<lambda>_. True) strings) b c =
      vstore (stack_at (cb_stack b)) (ct_index (CopyBallTerm_target (\<lambda>_. True) strings) b) c"
    by (simp add: CopyBallTerm_target_def ball_store_vstore)
  show "ct_deref (CopyBallTerm_target (\<lambda>_. True) strings) b c = follow (ct_store (CopyBallTerm_target (\<lambda>_. True) strings) b) c"
    by (simp add: CopyBallTerm_target_def ball_follow)
next
  fix b i c
  assume "ball_valid b" "i < ct_threshold (CopyBallTerm_target (\<lambda>_. True) strings) b"
  then obtain b' where "ball_set i c b = Some b'" "ball_valid b'" "ball_frame b' = ball_frame b" "cell_len (cb_stub b') = cell_len (cb_stub b)"
    "ball_index b' = (ball_index b)(i := c)"
    using ball_index_set [of i b c thesis] by (auto simp: CopyBallTerm_target_def)
  then show "\<exists>t'. ct_set (CopyBallTerm_target (\<lambda>_. True) strings) i c b = Some t' \<and> ball_valid t' \<and>
      stack_at (cb_stack t') = stack_at (cb_stack b) \<and> ball_frame t' = ball_frame b \<and> cell_len (cb_heap b) \<le> cell_len (cb_heap t') \<and>
      ct_threshold (CopyBallTerm_target (\<lambda>_. True) strings) t' = ct_threshold (CopyBallTerm_target (\<lambda>_. True) strings) b \<and>
      ct_index (CopyBallTerm_target (\<lambda>_. True) strings) t' = (ct_index (CopyBallTerm_target (\<lambda>_. True) strings) b)(i := c)"
    by (auto simp: CopyBallTerm_target_def)
next
  fix b c
  assume v: "ball_valid b"
  obtain h where h: "reserve (\<lambda>_. True) 1 (cb_stub b) = Some h" "wf_heap (section_push_cell c h)"
    "cell_len (section_push_cell c h) = Suc (cell_len (cb_stub b))"
    "hcell (section_push_cell c h) = (hcell (cb_stub b))(cell_len (cb_stub b) := c)"
    using push_total v by blast
  have "ball_index (b\<lparr>cb_stub := section_push_cell c h\<rparr>) = (ball_index b)(cell_len (cb_heap b) + cell_len (cb_stub b) := c)"
    using h(4) by (auto simp: ball_index_def fun_eq_iff)
  with v h show "\<exists>t'. ct_reserve (CopyBallTerm_target (\<lambda>_. True) strings) 1 b = Some t' \<and>
      ball_valid (ct_push_cell (CopyBallTerm_target (\<lambda>_. True) strings) c t') \<and>
      stack_at (cb_stack (ct_push_cell (CopyBallTerm_target (\<lambda>_. True) strings) c t')) = stack_at (cb_stack b) \<and>
      ball_frame (ct_push_cell (CopyBallTerm_target (\<lambda>_. True) strings) c t') = ball_frame b \<and>
      cell_len (cb_heap b) \<le> cell_len (cb_heap (ct_push_cell (CopyBallTerm_target (\<lambda>_. True) strings) c t')) \<and>
      ct_threshold (CopyBallTerm_target (\<lambda>_. True) strings) (ct_push_cell (CopyBallTerm_target (\<lambda>_. True) strings) c t') =
        Suc (ct_threshold (CopyBallTerm_target (\<lambda>_. True) strings) b) \<and>
      ct_index (CopyBallTerm_target (\<lambda>_. True) strings) (ct_push_cell (CopyBallTerm_target (\<lambda>_. True) strings) c t') =
        (ct_index (CopyBallTerm_target (\<lambda>_. True) strings) b)(ct_threshold (CopyBallTerm_target (\<lambda>_. True) strings) b := c)"
    by (auto simp: CopyBallTerm_target_def)
next
  fix b a l
  assume v: "ball_valid b" "a + l \<le> cell_len (cb_heap b)"
  obtain b' where "ball_copy_slice (\<lambda>_. True) a (a + l) b = Some b'" "ball_valid b'" "ball_frame b' = ball_frame b"
    "cell_len (cb_stub b') = cell_len (cb_stub b) + l"
    "ball_index b' = sliced (ball_index b) a l (cell_len (cb_heap b) + cell_len (cb_stub b))"
    by (rule ball_slice [OF v])
  then show "\<exists>t'. ct_copy_slice_to_end (CopyBallTerm_target (\<lambda>_. True) strings) a (a + l) b = Some t' \<and> ball_valid t' \<and>
      stack_at (cb_stack t') = stack_at (cb_stack b) \<and> ball_frame t' = ball_frame b \<and> cell_len (cb_heap b) \<le> cell_len (cb_heap t') \<and>
      ct_threshold (CopyBallTerm_target (\<lambda>_. True) strings) t' = ct_threshold (CopyBallTerm_target (\<lambda>_. True) strings) b + l \<and>
      ct_index (CopyBallTerm_target (\<lambda>_. True) strings) t' =
        sliced (ct_index (CopyBallTerm_target (\<lambda>_. True) strings) b) a l (ct_threshold (CopyBallTerm_target (\<lambda>_. True) strings) b)"
    by (auto simp: CopyBallTerm_target_def)
qed

end
