(* ===== verification/CopyTrees.thy ===== *)
theory CopyTrees
  imports CopyTerms
begin

text \<open>
  What the copier builds denotes the term it copied: the same possibly infinite tree, up to a one-to-one
  renaming of the unbound variables. Properties and concrete copies are at the end.
\<close>

section \<open>The values of the copied cells\<close>

lemma look_value: "look st c = value_of (stack_at (ms_stack st)) (hcell (ms_heap st)) c"
proof -
  have "store st = vstore (stack_at (ms_stack st)) (hcell (ms_heap st))" by (rule ext) (rule store_vstore)
  then show ?thesis unfolding look_def value_of_def deref_follow by (simp split: option.split)
qed

lemma mk_loc_cell: "mk TVar = loc_cell"
  by (rule ext) (simp add: mk_def loc_cell_def)

lemma copied_as_not_var:
  assumes "copied_as G src N d v" "\<not> is_var d" "N < 2 ^ 56"
  shows "\<not> is_var v"
proof -
  have "t < 2 ^ 56" if "block G src N a l t" for a l t using that assms(3) by (simp add: block_def)
  then have "\<not> is_var (mk TStr t) \<and> \<not> is_var (mk TLis t)" if "block G src N a l t" for a l t
    using that mk_readings(2) [of t] by (simp add: is_var_def)
  then show ?thesis using assms(1,2) by (auto simp: copied_as_def split: HeapCellValueTag.splits)
qed

lemma value_of_new:
  assumes "j < 2 ^ 56"
  shows "vstore S H (mk TVar j) = H j"
  using mk_readings(2,3) [OF assms, of TVar] by (simp add: vstore_heap)

lemma value_of_leaf: "j < 2 ^ 56 \<Longrightarrow> \<not> is_var (H j) \<or> H j = mk TVar j \<Longrightarrow> value_of S H (mk TVar j) = H j"
  by (rule value_of_stop [THEN trans]) (auto simp: value_of_new)

lemma value_of_through:
  assumes "vstore S H c = w" "is_var w" "w \<noteq> c" "follow (vstore S H) w \<noteq> None"
  shows "value_of S H c = value_of S H w"
  using value_of_step [of S H c] assms unfolding assms(1) by (simp only: if_False simp_thms not_False_eq_True)

lemma value_of_hop:
  assumes "j < 2 ^ 56" "m < 2 ^ 56" "H j = mk TVar m" "\<not> is_var (H m) \<or> H m = mk TVar m"
  shows "value_of S H (mk TVar j) = H m"
proof (cases "m = j")
  case True
  then show ?thesis using value_of_leaf [of j H] assms by simp
next
  case False
  note r = mk_readings(2,3) [OF assms(2), of TVar] mk_readings(3) [OF assms(1), of TVar]
  have "vstore S H (mk TVar j) = mk TVar m" using value_of_new [OF assms(1)] assms(3) by metis
  moreover have "is_var (mk TVar m)" "mk TVar m \<noteq> mk TVar j" using r False by (auto simp: is_var_def)
  moreover have "follow (vstore S H) (mk TVar m) \<noteq> None"
    using assms(2,4) by (subst follow_unfold) (auto simp: value_of_new)
  ultimately show ?thesis using value_of_through [of S H "mk TVar j"] value_of_leaf [OF assms(2), of H S] assms(4) by metis
qed

text \<open>
  A new cell stands for the copy of what its source stands for: a variable for the variable's copy, a
  structure or a list for its copied cells. It is that copy, or refers to the cell that is.
\<close>

lemma new_cell_cases [consumes 4, case_names header variable copy hop]:
  assumes "copyable G deep" "copied G src V H N" "og_start G \<le> j" "j < N"
  obtains "is_functor (src j)" "H j = src j"
  | "\<not> is_functor (src j)" "src j \<in> set (sources G)" "is_var (old_value G (src j))" "H j = mk TVar (V (old_value G (src j)))"
      "og_start G \<le> V (old_value G (src j))" "V (old_value G (src j)) < N" 
      "H (V (old_value G (src j))) = mk TVar (V (old_value G (src j)))" "old_value G (src (V (old_value G (src j)))) = old_value G (src j)"
  | "\<not> is_functor (src j)" "src j \<in> set (sources G)" "\<not> is_var (old_value G (src j))" "copied_as G src N (old_value G (src j)) (H j)"
  | m where "\<not> is_functor (src j)" "src j \<in> set (sources G)" "\<not> is_var (old_value G (src j))" "is_var (src j)"
      "cell_val (src j) \<in> list_cells G" "H j = mk TVar m" "og_start G \<le> m" "m < N" "src m = og_cells G (cell_val (src j))"
proof -
  let ?d = "old_value G (src j)"
  have "if is_functor (src j) then H j = src j
      else src j \<in> set (sources G) \<and>
        (if is_var ?d then H j = mk TVar (V ?d) \<and> og_start G \<le> V ?d \<and> V ?d < N \<and> H (V ?d) = mk TVar (V ?d) \<and>
           \<not> is_functor (src (V ?d)) \<and> old_value G (src (V ?d)) = ?d
         else copied_as G src N ?d (H j) \<or>
           is_var (src j) \<and> cell_val (src j) \<in> list_cells G \<and>
           (\<exists>m. H j = mk TVar m \<and> og_start G \<le> m \<and> m < N \<and> src m = og_cells G (cell_val (src j))))"
    using assms(2-4) unfolding copied_def Let_def by blast
  then show ?thesis using that by (auto split: if_splits)
qed

lemma old_value_next:
  assumes "copyable G deep" "c \<in> set (sources G)" "is_var c" "\<not> is_var (old_value G c)"
  shows "og_cells G (cell_val c) \<noteq> c \<and> old_value G (og_cells G (cell_val c)) = old_value G c"
proof -
  let ?w = "og_cells G (cell_val c)"
  note v = source_var [OF assms(1-3)]
  have w: "vstore (og_stack G) (og_cells G) c = ?w" using v(4) by (simp add: old_store_def)
  have ne: "?w \<noteq> c"
  proof
    assume "?w = c"
    then have "old_value G c = c" using value_of_stop [of "og_stack G" "og_cells G" c] w by (simp add: old_value_def)
    then show False using assms(3,4) by simp
  qed
  have "old_value G ?w = old_value G c"
  proof (cases "is_var ?w")
    case True
    then have "follow (vstore (og_stack G) (og_cells G)) ?w \<noteq> None" using source_var(6) [OF assms(1) v(5)] by (simp add: old_store_def)
    then show ?thesis using value_of_through [OF w True ne] by (simp add: old_value_def)
  next
    case False
    then show ?thesis using value_of_stop [of "og_stack G" "og_cells G" c] w old_not_var(2) [OF False, of G] by (simp add: old_value_def)
  qed
  then show ?thesis using ne by simp
qed

lemma new_end:
  assumes ok: "copyable G deep" and cp: "copied G src V H N" and j: "og_start G \<le> j" "j < N" "\<not> is_functor (src j)"
  defines "d \<equiv> old_value G (src j)"
  obtains m where "og_start G \<le> m" "m < N" "m = j \<or> H j = mk TVar m"
    "is_var d \<Longrightarrow> m = V d \<and> H m = mk TVar m \<and> old_value G (src m) = d" "\<not> is_var d \<Longrightarrow> copied_as G src N d (H m)"
  using ok cp j(1,2)
proof (cases rule: new_cell_cases)
  case header
  then show ?thesis using j(3) by simp
next
  case variable
  show ?thesis by (rule that [of "V d"]) (use variable in \<open>simp_all add: d_def\<close>)
next
  case copy
  show ?thesis by (rule that [OF j(1,2)]) (use copy(3,4) in \<open>simp_all only: d_def simp_thms\<close>)
next
  case (hop m)
  note onward = old_value_next [OF ok hop(2,4,3)]
  have "old_store G (src j) = src m" using source_var(4) [OF ok hop(2,4)] hop(9) by simp
  moreover have "src m \<noteq> src j" using onward hop(9) by simp
  moreover have "tails_direct G (src j)" using copyable_source [OF ok hop(2)] by simp
  ultimately have "\<not> (is_var (src m) \<and> cell_val (src m) \<in> list_cells G)" using hop(3,4) by (auto simp: tails_direct_def)
  moreover have "old_value G (src m) = d" using onward hop(9) by (simp add: d_def)
  moreover have "src m \<in> set (sources G)" using source_var(5) [OF ok hop(2,4)] hop(9) by simp
  then have "\<not> is_functor (src m)" using copyable_source [OF ok] by (auto simp: source_ok_def)
  ultimately have "copied_as G src N d (H m)"
    using hop(3) new_cell_cases [OF ok cp hop(7,8), of "copied_as G src N d (H m)"] unfolding d_def by metis
  then show ?thesis using that [OF hop(7,8)] hop(3,6) unfolding d_def by metis
qed

section \<open>Copies that have been moved\<close>

text \<open>
  A ball is copied to the cells behind the heap and later moved to the end of another heap. The new cells are
  laid out at \<open>h\<close> when each of them is there with its references moved along.
\<close>

definition place :: "origin \<Rightarrow> nat \<Rightarrow> nat \<Rightarrow> nat" where
  "place G h j = h + (j - og_start G)"

definition moved :: "origin \<Rightarrow> nat \<Rightarrow> HeapCellValue \<Rightarrow> HeapCellValue" where
  "moved G h c = (if cell_get_tag c \<in> {TStr, TLis, TVar} then mk (cell_get_tag c) (place G h (cell_val c)) else c)"

definition laid :: "origin \<Rightarrow> (nat \<Rightarrow> HeapCellValue) \<Rightarrow> nat \<Rightarrow> nat \<Rightarrow> (nat \<Rightarrow> HeapCellValue) \<Rightarrow> bool" where
  "laid G H N h H' \<longleftrightarrow>
     h + (N - og_start G) \<le> 2 ^ 56 \<and> (\<forall>j. og_start G \<le> j \<and> j < N \<longrightarrow> H' (place G h j) = moved G h (H j))"

lemma place_less: "laid G H N h H' \<Longrightarrow> og_start G \<le> j \<Longrightarrow> j < N \<Longrightarrow> place G h j < 2 ^ 56"
  using diff_less_mono [of j N "og_start G"] unfolding laid_def place_def by linarith

lemma moved_mk: "j < 2 ^ 56 \<Longrightarrow> tag \<in> {TStr, TLis, TVar} \<Longrightarrow> moved G h (mk tag j) = mk tag (place G h j)"
  using mk_readings(2,3) [of j tag] by (simp add: moved_def)

lemma moved_is_var:
  assumes "laid G H N h H'" "og_start G \<le> cell_val c" "cell_val c < N" "cell_get_tag c \<in> {TStr, TLis, TVar}"
  shows "cell_get_tag (moved G h c) = cell_get_tag c"
  using assms(4) mk_readings(2) [OF place_less [OF assms(1-3)], of "cell_get_tag c"] by (simp add: moved_def)

lemma laid_value:
  assumes ok: "copyable G deep" and cp: "copied G src V H N" and l: "laid G H N h H'" and j: "og_start G \<le> j" "j < N"
    and m: "og_start G \<le> m" "m < N" "m = j \<or> H j = mk TVar m" "H m = mk TVar m \<or> \<not> is_var (moved G h (H m)) \<and> \<not> is_var (H m)"
  shows "value_of S H' (mk TVar (place G h j)) = moved G h (H m)"
proof -
  have N: "m < 2 ^ 56" using cp m(2) by (simp add: copied_def)
  have at: "H' (place G h j) = moved G h (H j)" "H' (place G h m) = moved G h (H m)" using l j m by (simp_all add: laid_def)
  have pl: "place G h j < 2 ^ 56" "place G h m < 2 ^ 56" using place_less [OF l] j m by blast+
  have stop: "\<not> is_var (H' (place G h m)) \<or> H' (place G h m) = mk TVar (place G h m)" using m(4) at(2) moved_mk [OF N] by auto
  from m(3) show ?thesis
  proof
    assume "m = j"
    then show ?thesis using value_of_leaf [of "place G h j" H' S] pl(1) stop at by simp
  next
    assume "H j = mk TVar m"
    then have "H' (place G h j) = mk TVar (place G h m)" using at(1) moved_mk [OF N] by simp
    then show ?thesis using value_of_hop [OF pl, of H' S] stop at(2) by simp
  qed
qed

section \<open>The copy denotes the same tree\<close>

lemma old_look:
  assumes "copyable G deep" "q < og_len G" "\<not> is_functor (og_cells G q)"
  shows "old_value G (mk TVar q) = old_value G (og_cells G q)"
proof -
  have q: "q < 2 ^ 56" using assms(1,2) by (simp add: copyable_def)
  have src: "og_cells G q \<in> set (sources G)" using assms(2,3) by (rule source_cell)
  show ?thesis
  proof (cases "is_var (og_cells G q) \<and> og_cells G q \<noteq> mk TVar q")
    case True
    have "follow (vstore (og_stack G) (og_cells G)) (og_cells G q) \<noteq> None"
      using source_var(6) [OF assms(1) src] True by (simp add: old_store_def)
    from value_of_through [OF value_of_new [OF q] _ _ this] show ?thesis using True by (simp add: old_value_def)
  next
    case False
    then have "\<not> is_var (og_cells G q) \<or> og_cells G q = mk TVar q" by blast
    then show ?thesis using value_of_leaf [OF q, of "og_cells G" "og_stack G"] old_not_var(2) [of "og_cells G q" G]
      by (auto simp: old_value_def)
  qed
qed

lemma copied_header:
  assumes "copied G src V H N" "og_start G \<le> j" "j < N" "is_functor (src j)"
  shows "H j = src j"
  using assms unfolding copied_def Let_def by (metis (no_types, lifting))

text \<open>The copied cells of a structure or a list, each the copy of its old cell.\<close>

definition kin :: "origin \<Rightarrow> (nat \<Rightarrow> HeapCellValue) \<Rightarrow> nat \<Rightarrow> nat \<Rightarrow> HeapCellValue \<Rightarrow> HeapCellValue \<Rightarrow> bool" where
  "kin G src N h x y \<longleftrightarrow>
     (\<exists>j. x = loc_cell (place G h j) \<and> og_start G \<le> j \<and> j < N \<and> \<not> is_functor (src j) \<and> old_value G y = old_value G (src j))"

lemma kin_cells:
  assumes "copyable G deep" "block G src N a l t" "a + l \<le> og_len G" "i \<le> l" "\<forall>k\<in>set [i..<l]. \<not> is_functor (og_cells G (a + k))"
  shows "list_all2 (kin G src N h) (map loc_cell [place G h t + i..<place G h t + l]) (map loc_cell [a + i..<a + l])"
proof (rule list_all2_all_nthI)
  fix n
  assume "n < length (map loc_cell [place G h t + i..<place G h t + l])"
  then have n: "i + n < l" by simp
  then have nf: "\<not> is_functor (og_cells G (a + (i + n)))" using assms(5) by simp
  have s: "src (t + (i + n)) = og_cells G (a + (i + n))" "og_start G \<le> t + (i + n)" "t + (i + n) < N" "og_start G \<le> t"
    using assms(2) n by (auto simp: block_def)
  have p: "place G h (t + (i + n)) = place G h t + i + n" using s(4) by (simp add: place_def)
  have "old_value G (loc_cell (a + (i + n))) = old_value G (og_cells G (a + (i + n)))"
    using old_look [OF assms(1) _ nf] n assms(3) by (simp add: mk_loc_cell)
  then have "kin G src N h (loc_cell (place G h t + i + n)) (loc_cell (a + (i + n)))"
    using nf s(1-3) unfolding kin_def p [symmetric] by metis
  then show "kin G src N h (map loc_cell [place G h t + i..<place G h t + l] ! n) (map loc_cell [a + i..<a + l] ! n)"
    using n by (simp add: add.assoc)
qed simp

text \<open>Two states with the same cells outside the heap.\<close>

definition same_rest :: "MachineState \<Rightarrow> MachineState \<Rightarrow> bool" where
  "same_rest st st' \<longleftrightarrow> st' = st\<lparr>ms_heap := ms_heap st'\<rparr>"

lemma copied_node:
  assumes ok: "copyable G deep" and cp: "copied G src V H N" and l: "laid G H N h (hcell (ms_heap st'))"
    and cells: "og_cells G = hcell (ms_heap st)"
    and rest: "same_rest st st'" and d: "d \<in> set (sources G)" "\<not> is_var d" and v: "copied_as G src N d v"
  shows "label_of E st' (moved G h v) = label_of E st d \<and> list_all2 (kin G src N h) (kids st' (moved G h v)) (kids st d)"
proof -
  have N: "N < 2 ^ 56" using cp by (simp add: copied_def)
  have so: "source_ok G deep d" using copyable_source [OF ok d(1)] by blast
  have st': "ms_arena st' = ms_arena st" "ms_f64_tbl st' = ms_f64_tbl st"
    using rest unfolding same_rest_def by (metis MachineState.simps(3) MachineState.select_convs MachineState.update_convs(1) MachineState.surjective)+
  have at: "cell_get_tag (moved G h (mk tag t)) = tag" "cell_val (moved G h (mk tag t)) = place G h t"
    if "og_start G \<le> t" "t < N" "tag \<in> {TStr, TLis}" for t tag
    using mk_readings(2,3) [OF place_less [OF l that(1,2)], of tag] moved_mk [of t tag G h] that N by auto
  consider "cell_get_tag d = TStr" | "cell_get_tag d = TLis" | "cell_get_tag d \<notin> {TStr, TLis}" by blast
  then show ?thesis
  proof cases
    case 1
    let ?a = "cell_val d"
    obtain t where t: "v = mk TStr t" "block G src N ?a (struct_len G ?a) t" using v 1 by (auto simp: copied_as_def)
    have f: "is_functor (og_cells G ?a)" "?a + struct_len G ?a \<le> og_len G"
      "\<forall>i\<in>set [1..<struct_len G ?a]. \<not> is_functor (og_cells G (?a + i))"
      using so 1 by (simp_all add: source_ok_def Let_def)
    have tN: "og_start G \<le> t" "t < N" using t(2) by (auto simp: block_def struct_len_def)
    have "src t = og_cells G ?a" using t(2) by (auto simp: block_def struct_len_def)
    then have "H t = og_cells G ?a" using copied_header [OF cp tN] f(1) by simp
    moreover have "moved G h (og_cells G ?a) = og_cells G ?a" using f(1) by (simp add: moved_def is_functor_def)
    ultimately have "hcell (ms_heap st') (place G h t) = hcell (ms_heap st) ?a" using l tN cells by (simp add: laid_def)
    then have fa: "functor_at st' (place G h t) = functor_at st ?a" by (simp add: functor_at_def)
    have "list_all2 (kin G src N h) (map loc_cell [place G h t + 1..<place G h t + struct_len G ?a]) (map loc_cell [?a + 1..<?a + struct_len G ?a])"
      by (rule kin_cells [OF ok t(2) f(2) _ f(3)]) (simp add: struct_len_def)
    moreover have "snd (functor_at st ?a) = atom_get_arity (og_cells G ?a)" using cells by (simp add: functor_at_def)
    ultimately show ?thesis using 1 t(1) at [OF tN, of TStr] fa by (simp add: label_of_def kids_def struct_len_def)
  next
    case 2
    let ?a = "cell_val d"
    obtain t where t: "v = mk TLis t" "block G src N ?a 2 t" using v 2 by (auto simp: copied_as_def)
    have f: "?a + 2 \<le> og_len G" "\<forall>i\<in>set [0..<2]. \<not> is_functor (og_cells G (?a + i))"
      using so 2 by (auto simp: source_ok_def Let_def less_2_cases_iff)
    have tN: "og_start G \<le> t" "t < N" using t(2) by (auto simp: block_def)
    show ?thesis using kin_cells [OF ok t(2) f(1) _ f(2), of h] 2 t(1) at [OF tN, of TLis] by (simp add: label_of_def kids_def)
  next
    case 3
    then have "v = d" using v by (auto simp: copied_as_def split: HeapCellValueTag.splits)
    then have "moved G h v = d" using 3 d(2) by (simp add: moved_def is_var_def)
    then show ?thesis using 3 st' by (auto simp: label_of_def kids_def split: HeapCellValueTag.splits)
  qed
qed

text \<open>What the cell at the end of a new cell's references is, and that a variable stays one when it is moved.\<close>

lemma copied_moved:
  assumes c: "copied_as G src N d v" and nv: "\<not> is_var d" and l: "laid G H N h H'" and N: "N < 2 ^ 56"
  shows "\<not> is_var (moved G h v)"
proof (cases "cell_get_tag v \<in> {TStr, TLis}")
  case True
  have "cell_get_tag d \<in> {TStr, TLis}" using True c by (auto simp: copied_as_def split: HeapCellValueTag.splits)
  then obtain tag t a k where t: "v = mk tag t" "block G src N a (Suc k) t" "tag \<in> {TStr, TLis}"
    using c by (auto simp: copied_as_def struct_len_def numeral_2_eq_2)
  then have tN: "og_start G \<le> t" "t < N" by (auto simp: block_def)
  then have "cell_get_tag v = tag" "cell_val v = t" using mk_readings(2,3) [of t tag] N t(1) by simp_all
  then have "cell_get_tag (moved G h v) = tag" using moved_is_var [OF l, of v] tN True by auto
  then show ?thesis using t(3) by (auto simp: is_var_def)
next
  case False
  then show ?thesis using copied_as_not_var [OF c nv N] by (auto simp: moved_def is_var_def)
qed

lemma laid_end:
  assumes ok: "copyable G deep" and cp: "copied G src V H N" and l: "laid G H N h H'" and j: "og_start G \<le> j" "j < N" "\<not> is_functor (src j)"
  defines "d \<equiv> old_value G (src j)"
  shows "is_var d \<Longrightarrow> og_start G \<le> V d \<and> V d < N \<and> old_value G (src (V d)) = d \<and> H' (place G h (V d)) = mk TVar (place G h (V d)) \<and> value_of S H' (mk TVar (place G h j)) = mk TVar (place G h (V d))"
    and "\<not> is_var d \<Longrightarrow> \<exists>v. copied_as G src N d v \<and> \<not> is_var (moved G h v) \<and> value_of S H' (mk TVar (place G h j)) = moved G h v"
proof -
  have N: "N < 2 ^ 56" using cp by (simp add: copied_def)
  obtain m where m: "og_start G \<le> m" "m < N" "m = j \<or> H j = mk TVar m"
    "is_var d \<Longrightarrow> m = V d \<and> H m = mk TVar m \<and> old_value G (src m) = d" "\<not> is_var d \<Longrightarrow> copied_as G src N d (H m)"
    using new_end [OF ok cp j] unfolding d_def by blast
  note val = laid_value [OF ok cp l j(1,2) m(1-3)]
  show "is_var d \<Longrightarrow> og_start G \<le> V d \<and> V d < N \<and> old_value G (src (V d)) = d \<and> H' (place G h (V d)) = mk TVar (place G h (V d)) \<and> value_of S H' (mk TVar (place G h j)) = mk TVar (place G h (V d))"
    using m val moved_mk [of m TVar G h] N l by (auto simp: laid_def)
  show "\<exists>v. copied_as G src N d v \<and> \<not> is_var (moved G h v) \<and> value_of S H' (mk TVar (place G h j)) = moved G h v" if nv: "\<not> is_var d"
  proof -
    have c: "copied_as G src N d (H m)" "\<not> is_var (H m)" using m(5) nv copied_as_not_var [OF _ nv N] by blast+
    have "\<not> is_var (moved G h (H m))" by (rule copied_moved [OF c(1) nv l N])
    then show ?thesis using val c by blast
  qed
qed

text \<open>The unbound variables among the cells from \<open>n\<close> on.\<close>

definition fresh_vars :: "MachineState \<Rightarrow> nat \<Rightarrow> HeapCellValue set" where
  "fresh_vars st n = {v. unbound st v \<and> (\<exists>j\<ge>n. loc_of v = Some (HLoc j))}"

lemma copied_tree:
  assumes ok: "copyable G deep" and cp: "copied G src V H N" and l: "laid G H N h (hcell (ms_heap st'))"
    and st: "og_cells G = hcell (ms_heap st)" "og_stack G = stack_at (ms_stack st)" and rest: "same_rest st st'"
    and t: "\<forall>v\<in>fresh_vars st' h. t v = s (old_value G (src (og_start G + (cell_val v - h))))"
  shows "tree_of t E st' (loc_cell h) = tree_of s E st (og_addr G)"
proof (rule tree_of_eqI [where R = "kin G src N h"])
  have look: "look st c = old_value G c" for c using st by (simp add: look_value old_value_def)
  have N: "og_start G < N" "N < 2 ^ 56" "src (og_start G) = og_addr G" using cp by (auto simp: copied_def)
  have "\<not> is_functor (og_addr G)" using copyable_source [OF ok source_addr] by (simp add: source_ok_def)
  then show "kin G src N h (loc_cell h) (og_addr G)" using N by (auto simp: kin_def place_def intro!: exI [of _ "og_start G"])
  fix x y
  assume "kin G src N h x y"
  then obtain j where j: "x = loc_cell (place G h j)" "og_start G \<le> j" "j < N" "\<not> is_functor (src j)" "old_value G y = old_value G (src j)"
    by (auto simp: kin_def)
  let ?d = "old_value G (src j)"
  note new = laid_end [OF ok cp l j(2-4), of "stack_at (ms_stack st')"]
  have lx: "look st' x = value_of (stack_at (ms_stack st')) (hcell (ms_heap st')) (mk TVar (place G h j))" by (simp add: look_value j(1) mk_loc_cell)
  have ly: "look st y = ?d" using look j(5) by simp
  show "tree_of t E st' x = tree_of s E st y \<or>
      (\<exists>l xs ys. tree_of t E st' x = Node l (map (tree_of t E st') xs) \<and> tree_of s E st y = Node l (map (tree_of s E st) ys) \<and>
        list_all2 (kin G src N h) xs ys)"
  proof (cases "is_var ?d")
    case True
    note m = new(1) [OF True]
    then have x: "look st' x = mk TVar (place G h (V ?d))" "place G h (V ?d) < 2 ^ 56" using lx place_less [OF l] by auto
    have p: "og_start G + (place G h (V ?d) - h) = V ?d" "h \<le> place G h (V ?d)" using m unfolding place_def by linarith+
    have "unbound st' (look st' x)" using m x mk_readings(2,3) [OF x(2), of TVar] by (simp add: unbound_def loc_of_def)
    then have "look st' x \<in> fresh_vars st' h" using x mk_readings(2,3) [OF x(2), of TVar] p(2) by (simp add: fresh_vars_def loc_of_def)
    then have "t (look st' x) = s (old_value G (src (og_start G + (cell_val (look st' x) - h))))" using t by blast
    with p mk_readings(2,3) [OF x(2), of TVar] m x(1) tree_of_var [of st' x t E] tree_of_var [of st y s E] True ly
    show ?thesis by (simp add: is_var_def)
  next
    case False
    obtain v where v: "copied_as G src N ?d v" "\<not> is_var (moved G h v)" "look st' x = moved G h v" using new(2) [OF False] lx by auto
    have "src j \<in> set (sources G)" using cp j(2-4) unfolding copied_def Let_def by metis
    then have "?d \<in> set (sources G)" using source_value [OF ok] by blast
    note same = copied_node [OF ok cp l st(1) rest this False v(1), of E]
    have "tree_of s E st y = Node (label_of E st ?d) (map (tree_of s E st) (kids st ?d))" using tree_of_node [of st y s E] False ly by simp
    moreover have "tree_of t E st' x = Node (label_of E st ?d) (map (tree_of t E st') (kids st' (look st' x)))"
      using tree_of_node [of st' x t E] v same by simp
    ultimately show ?thesis using same v(3) by metis
  qed
qed

section \<open>Copies as variants\<close>

text \<open>
  The term at the cell \<open>n\<close> of \<open>st'\<close> is the term \<open>c\<close> of \<open>st\<close> with its unbound variables renamed one to one
  to variables of the cells from \<open>n\<close> on: the trees are the same whenever each of these new variables is given the
  tree of the old one it stands for, whatever is given to any other variable.
\<close>

definition variant_copy :: "machine_env \<Rightarrow> MachineState \<Rightarrow> HeapCellValue \<Rightarrow> MachineState \<Rightarrow> nat \<Rightarrow> bool" where
  "variant_copy E st c st' n \<longleftrightarrow>
     (\<exists>r. inj_on r (fresh_vars st' n) \<and> (\<forall>v\<in>fresh_vars st' n. unbound st (r v)) \<and>
        (\<forall>s t. (\<forall>v\<in>fresh_vars st' n. t v = s (r v)) \<longrightarrow> tree_of t E st' (loc_cell n) = tree_of s E st c))"

lemma renaming:
  assumes ok: "copyable G deep" and cp: "copied G src V H N" and l: "laid G H N h (hcell (ms_heap st'))"
    and len: "cell_len (ms_heap st') \<le> h + (N - og_start G)" "wf_heap (ms_heap st')"
    and st: "og_cells G = hcell (ms_heap st)" "og_stack G = stack_at (ms_stack st)"
    and v: "v \<in> fresh_vars st' h"
  defines "d \<equiv> old_value G (src (og_start G + (cell_val v - h)))"
  shows "unbound st d \<and> v = mk TVar (place G h (V d))"
proof -
  obtain i where i: "h \<le> i" "loc_of v = Some (HLoc i)" "unbound st' v" using v by (auto simp: fresh_vars_def)
  then have iv: "cell_val v = i" "is_var v" by (auto simp: loc_of_def is_var_def split: HeapCellValueTag.splits)
  have "valid_loc st' (HLoc i)" using unbound_valid [OF i(3) len(2) i(2)] .
  define j where "j = og_start G + (i - h)"
  have N: "N < 2 ^ 56" "og_start G < N" using cp by (simp_all add: copied_def)
  have j: "og_start G \<le> j" "j < N" "place G h j = i"
    using len(1) \<open>valid_loc st' (HLoc i)\<close> i(1) N(2) by (simp_all add: j_def place_def)
  have Hi: "moved G h (H j) = v" using i(2,3) l j by (auto simp: unbound_def laid_def)
  show ?thesis
    using ok cp j(1,2)
  proof (cases rule: new_cell_cases)
    case header
    then show ?thesis using Hi iv(2) by (auto simp: is_functor_def is_var_def moved_def)
  next
    case variable
    let ?d = "old_value G (src j)"
    have "?d \<in> set (sources G)" by (rule source_value [OF ok variable(2)])
    note dv = source_var(1) [OF ok this variable(3)]
    have "og_cells G (cell_val ?d) = ?d" using value_unbound(1) [OF ok variable(2,3)] .
    then have "unbound st ?d" using st(1) dv by (auto simp: unbound_def loc_of_def)
    moreover have "V ?d < 2 ^ 56" using variable(6) N by simp
    ultimately show ?thesis using variable(4) Hi iv(1) moved_mk [of "V ?d" TVar G h] by (simp add: d_def j_def)
  next
    case copy
    show ?thesis using copied_moved [OF copy(4,3) l N(1)] Hi iv(2) by simp
  next
    case (hop m)
    have m56: "m < 2 ^ 56" using hop(8) N by simp
    have "place G h m = i" using Hi hop(6) iv(1) moved_mk [OF m56, of TVar G h] mk_readings(3) [OF place_less [OF l hop(7,8)], of TVar] by simp
    then have "m = j" using j hop(7) by (simp add: place_def)
    then show ?thesis using hop(9) old_value_next [OF ok hop(2,4,3)] by simp
  qed
qed

lemma copied_variant:
  assumes ok: "copyable G deep" and cp: "copied G src V H N" and l: "laid G H N h (hcell (ms_heap st'))"
    and len: "cell_len (ms_heap st') \<le> h + (N - og_start G)" "wf_heap (ms_heap st')"
    and st: "og_cells G = hcell (ms_heap st)" "og_stack G = stack_at (ms_stack st)" and rest: "same_rest st st'"
  shows "variant_copy E st (og_addr G) st' h"
proof -
  note r = renaming [OF ok cp l len st]
  let ?r = "\<lambda>v. old_value G (src (og_start G + (cell_val v - h)))"
  have "inj_on ?r (fresh_vars st' h)" using r by (intro inj_onI) metis
  then show ?thesis using r copied_tree [OF ok cp l st rest] unfolding variant_copy_def by (intro exI [of _ ?r]) blast
qed

text \<open>A cell that, if it refers to the store at all, refers to cells of the heap in the given range.\<close>

definition refers_within :: "nat \<Rightarrow> nat \<Rightarrow> HeapCellValue \<Rightarrow> bool" where
  "refers_within a b c \<longleftrightarrow>
     (if cell_get_tag c \<in> {TStr, TLis, TVar} then clean c \<and> a \<le> cell_val c \<and> cell_val c < b
      else cell_get_tag c \<notin> {TAttrVar, TStackVar, TPStrLoc})"

lemma new_cell_within:
  assumes ok: "copyable G deep" and cp: "copied G src V H N" and j: "og_start G \<le> j" "j < N"
  shows "refers_within (og_start G) N (H j)"
proof -
  have N: "N < 2 ^ 56" using cp by (simp add: copied_def)
  have mk: "refers_within (og_start G) N (mk tag t)" if "tag \<in> {TStr, TLis, TVar}" "og_start G \<le> t" "t < N" for tag t
    using that mk_readings [of t tag] N by (simp add: refers_within_def clean_def)
  show ?thesis
    using ok cp j
  proof (cases rule: new_cell_cases)
    case header
    then show ?thesis by (simp add: refers_within_def is_functor_def)
  next
    case variable
    then show ?thesis using mk by simp
  next
    case copy
    let ?d = "old_value G (src j)"
    have so: "source_ok G deep ?d" using copyable_source [OF ok] source_value [OF ok copy(2)] by blast
    have "t < N" if "block G src N a (Suc l) t" for a l t using that by (simp add: block_def)
    then have b: "og_start G \<le> t \<and> t < N" if "block G src N a l t" "0 < l" for a l t
      using that by (cases l) (auto simp: block_def)
    show ?thesis
    proof (cases "cell_get_tag ?d \<in> {TStr, TLis}")
      case True
      then obtain tag t a l where "H j = mk tag t" "tag \<in> {TStr, TLis}" "block G src N a l t" "0 < l"
        using copy(4) by (auto simp: copied_as_def struct_len_def)
      then show ?thesis using mk b by auto
    next
      case False
      then have "H j = ?d" using copy(4) by (auto simp: copied_as_def split: HeapCellValueTag.splits)
      then show ?thesis using False copy(3) so
        by (auto simp: refers_within_def source_ok_def is_var_def Let_def split: HeapCellValueTag.splits)
    qed
  next
    case (hop m)
    then show ?thesis using mk by simp
  qed
qed

lemma laid_here:
  assumes "copyable G deep" "copied G src V H N"
  shows "laid G H N (og_start G) H"
proof -
  have "moved G (og_start G) (H j) = H j" if "og_start G \<le> j" "j < N" for j
    using new_cell_within [OF assms that] clean_mk [of "H j"] by (auto simp: refers_within_def moved_def place_def)
  then show ?thesis using assms(2) by (auto simp: laid_def place_def copied_def)
qed

section \<open>The heap and the joined heap of a ball\<close>

definition heap_origin :: "MachineState \<Rightarrow> HeapCellValue \<Rightarrow> origin" where
  "heap_origin st c =
     \<lparr>og_stack = stack_at (ms_stack st), og_cells = hcell (ms_heap st), og_len = cell_len (ms_heap st),
      og_start = cell_len (ms_heap st), og_addr = c\<rparr>"

lemma heap_copy:
  assumes "wf_heap (ms_heap st)" "copyable (heap_origin st c) (P = DeepCopy)"
  obtains st' src V where "copy_term (CopyTerm (\<lambda>_. True)) c P st = Some (Inr (cell_len (ms_heap st') - cell_len (ms_heap st)), st')"
    "wf_heap (ms_heap st')" "same_rest st st'"
    "copied (heap_origin st c) src V (hcell (ms_heap st')) (cell_len (ms_heap st'))"
proof -
  let ?G = "heap_origin st c" and ?T = "CopyTerm (\<lambda>_. True)"
  have st: "ct_index ?T st = og_cells ?G" "stack_at (ms_stack st) = og_stack ?G" "ct_threshold ?T st = og_start ?G"
    "og_len ?G \<le> cell_len (ms_heap st)" "og_addr ?G = c" "og_start ?G = cell_len (ms_heap st)"
    by (simp_all add: heap_origin_def CopyTerm_def)
  obtain st' src V N where c: "copy_term ?T c P st = Some (Inr (N - cell_len (ms_heap st)), st')" "wf_heap (ms_heap st')"
      "(\<lambda>h. st'\<lparr>ms_heap := h\<rparr>) = (\<lambda>h. st\<lparr>ms_heap := h\<rparr>)" "ct_threshold ?T st' = N" "copied ?G src V (ct_index ?T st') N"
    using heap_target.copy_term_copies [OF assms(1) st(1-4) assms(2)] unfolding st(5,6) by blast
  have "N = cell_len (ms_heap st')" "ct_index ?T st' = hcell (ms_heap st')" using c(4) by (simp_all add: CopyTerm_def)
  moreover have "same_rest st st'" unfolding same_rest_def using fun_cong [OF c(3), of "ms_heap st'"] by simp
  ultimately show ?thesis using that [of st' src V] c(1,2,5) by simp
qed

definition ball_origin :: "CopyBallTerm \<Rightarrow> HeapCellValue \<Rightarrow> origin" where
  "ball_origin b c =
     \<lparr>og_stack = stack_at (cb_stack b), og_cells = ball_index b, og_len = cell_len (cb_heap b),
      og_start = cell_len (cb_heap b) + cell_len (cb_stub b), og_addr = c\<rparr>"

text \<open>The heap with the stub behind it, where the cells of the stub have the numbers the copier gives them.\<close>

definition joined :: "MachineState \<Rightarrow> CopyBallTerm \<Rightarrow> MachineState" where
  "joined st b =
     (let bytes = mem (cb_heap b) @ mem (cb_stub b)
      in st\<lparr>ms_heap := \<lparr>mem = bytes, byte_cap = length bytes\<rparr>, ms_stack := cb_stack b\<rparr>)"

lemma joined_heap:
  assumes "wf_heap (cb_heap b)" "wf_heap (cb_stub b)"
  shows "hcell (ms_heap (joined st b)) = ball_index b" "wf_heap (ms_heap (joined st b))"
    "cell_len (ms_heap (joined st b)) = cell_len (cb_heap b) + cell_len (cb_stub b)"
proof -
  have len: "length (mem (cb_heap b)) = 8 * cell_len (cb_heap b)" "length (mem (cb_stub b)) = 8 * cell_len (cb_stub b)"
    using assms by (simp_all add: wf_heap_def index_defs)
  have at: "hcell h i = of_nat (le_nat (take 8 (drop (8 * i) (mem h))))"
    "mem (ms_heap (joined st b)) = mem (cb_heap b) @ mem (cb_stub b)" for h i
    by (simp_all add: hcell_def joined_def index_defs mult.commute Let_def)
  show "hcell (ms_heap (joined st b)) = ball_index b"
  proof
    fix i
    show "hcell (ms_heap (joined st b)) i = ball_index b i"
    proof (cases "i < cell_len (cb_heap b)")
      case True
      then have "8 * i + 8 \<le> length (mem (cb_heap b))" using len(1) by linarith
      then have "take 8 (drop (8 * i) (mem (cb_heap b) @ mem (cb_stub b))) = take 8 (drop (8 * i) (mem (cb_heap b)))" by simp
      then show ?thesis using True by (simp only: at ball_index_def if_True)
    next
      case False
      then have "drop (8 * i) (mem (cb_heap b)) = []" "8 * i - length (mem (cb_heap b)) = 8 * (i - cell_len (cb_heap b))"
        using len(1) by simp_all
      then have "drop (8 * i) (mem (cb_heap b) @ mem (cb_stub b)) = drop (8 * (i - cell_len (cb_heap b))) (mem (cb_stub b))" by simp
      then show ?thesis using False by (simp only: at ball_index_def if_False)
    qed
  qed
  show "wf_heap (ms_heap (joined st b))" using assms by (simp add: joined_def wf_heap_def Let_def)
  have "8 * cell_len (ms_heap (joined st b)) = length (mem (cb_heap b)) + length (mem (cb_stub b))"
    using assms by (auto simp: joined_def index_defs wf_heap_def Let_def)
  then show "cell_len (ms_heap (joined st b)) = cell_len (cb_heap b) + cell_len (cb_stub b)" using len by linarith
qed

section \<open>A store\<close>

lemma unmarkedI: "\<not> get_mark_bit c \<Longrightarrow> \<not> get_forwarding_bit c \<Longrightarrow> unmarked c"
proof -
  assume b: "\<not> get_mark_bit c" "\<not> get_forwarding_bit c"
  have same: "set_to i False w = w" if "\<not> bit w i" "i < 64" for i w
    using that by (intro bit_word_eqI) (auto simp: bit_set_to)
  have "set_mark_bit False c = c" using b(1) by (auto simp: set_mark_bit_def get_mark_bit_def intro: same split: if_splits)
  moreover have "set_forwarding_bit False c = c"
    using b(2) by (auto simp: set_forwarding_bit_def get_forwarding_bit_def intro: same split: if_splits)
  ultimately show ?thesis by (simp add: unmarked_def)
qed

lemma unmarked_built: "cell_build_with tag v = Some c \<Longrightarrow> tag \<noteq> TCons \<Longrightarrow> unmarked c"
  using built_readings(1) [of tag v c] by (intro unmarkedI) (simp_all add: get_mark_bit_def get_forwarding_bit_def bit_built)

lemma unmarked_atom: "atom_cell_build_with i a = Some c \<Longrightarrow> unmarked c"
  using atom_cell_readings [of i a c] bit_built_atom [of i a c] by (intro unmarkedI) (simp_all add: get_mark_bit_def get_forwarding_bit_def)

text \<open>The term \<open>f(X, [a|X])\<close>.\<close>

definition shared_cells :: "HeapCellValue list" where
  "shared_cells = [atom_of 4 2, loc_cell 1, mk TLis 3, atom_of 8 0, loc_cell 1]"

definition shared :: MachineState where
  "shared = state_of shared_cells []"

lemma shared_copyable: "copyable (heap_origin shared (str_of 0)) deep"
proof -
  let ?G = "heap_origin shared (str_of 0)"
  note a = atom_of_readings [of 4 2, simplified] atom_of_readings [of 8 0, simplified] loc_cell_readings [of 1, simplified]
    str_of_readings [of 0, simplified] mk_readings [of 3 TLis, simplified]
  have cell: "og_cells ?G i = (if i < 5 then shared_cells ! i else 0)" for i
    by (simp add: heap_origin_def shared_def state_of_def hcell_heap_of shared_cells_def)
  have len: "og_len ?G = 5" "og_start ?G = 5" "og_addr ?G = str_of 0"
    by (simp_all add: heap_origin_def shared_def state_of_def heap_of_wf shared_cells_def)
  have nf: "is_functor (atom_of 4 2)" "\<not> is_functor (loc_cell (Suc 0))" "\<not> is_functor (mk TLis 3)" "\<not> is_functor (atom_of 8 0)"
    using a by (simp_all add: is_functor_def)
  have five: "[0..<5] = [0, 1, 2, 3, 4]" by (simp add: upt_rec)
  have src: "sources ?G = [str_of 0, loc_cell 1, mk TLis 3, atom_of 8 0, loc_cell 1]"
    using nf by (simp add: sources_def len five cell shared_cells_def)
  have store: "old_store ?G (loc_cell (Suc 0)) = loc_cell (Suc 0)"
    using a by (simp add: old_store_def vstore_heap cell shared_cells_def)
  have follow: "follow (old_store ?G) (loc_cell (Suc 0)) = Some (loc_cell (Suc 0))" by (subst follow_unfold) (simp add: store)
  have locs: "locs_of TLis ?G = [3]" "locs_of TStr ?G = [0]" using a by (simp_all add: locs_of_def src)
  have sl: "struct_len ?G 0 = 3" using a by (simp add: struct_len_def cell shared_cells_def)
  have "source_ok ?G deep c \<and> tails_direct ?G c" if c: "c \<in> set (sources ?G)" for c
  proof -
    consider "c = str_of 0" | "c = loc_cell 1" | "c = mk TLis 3" | "c = atom_of 8 0" using c unfolding src by auto
    then show ?thesis
    proof cases
      case 1
      have "{Suc 0..<3} = {1, 2 :: nat}" by auto
      then show ?thesis using 1 a nf sl by (simp add: source_ok_def tails_direct_def is_functor_def is_var_def clean_def len cell shared_cells_def is_structure_index_def)
    qed (use a nf store follow in \<open>simp_all add: source_ok_def tails_direct_def is_functor_def is_var_def clean_def len cell shared_cells_def\<close>)
  qed
  moreover have "unmarked (og_cells ?G i)" if "i < 5" for i
  proof -
    have "\<forall>c\<in>set shared_cells. unmarked c" using a unmarked_built unmarked_atom by (auto simp: shared_cells_def)
    moreover have "shared_cells ! i \<in> set shared_cells" using that by (intro nth_mem) (simp add: shared_cells_def)
    ultimately show ?thesis using that by (simp add: cell)
  qed
  ultimately show ?thesis by (simp add: copyable_def len locs sl)
qed

lemma shared_wf: "wf_heap (ms_heap shared)" "cell_len (ms_heap shared) = 5"
  by (simp_all add: shared_def state_of_def heap_of_wf shared_cells_def)

definition shared_ball :: CopyBallTerm where
  "shared_ball = \<lparr>cb_attr_var_queue = [], cb_stack = [], cb_heap = ms_heap shared, cb_stub = heap_of []\<rparr>"

lemma shared_ball_copyable: "copyable (ball_origin shared_ball (str_of 0)) deep"
proof -
  have "ball_index shared_ball = hcell (ms_heap shared)"
    using hcell_heap_of by (auto simp: fun_eq_iff ball_index_def shared_ball_def shared_def state_of_def heap_of_wf)
  then have "ball_origin shared_ball (str_of 0) = heap_origin shared (str_of 0)"
    by (simp add: ball_origin_def heap_origin_def shared_ball_def heap_of_wf) (simp add: shared_def state_of_def)
  then show ?thesis using shared_copyable by simp
qed

section \<open>Properties\<close>

text \<open>
  C2: Copying a term on a \<open>copyable\<close> heap returns, and the first new cell denotes the copied term, cyclic or not, with
  its unbound variables renamed one to one to unbound variables among the new cells, none of the old being
  shared. The allocator always provides, and the heap has room, is free of marks and
  holds no strings, no references to the stack, no attributed variables unless attributes are stripped, no list
  cells that overlap one another or a structure, and no reference that reaches a cell of a list through a second
  variable (\<open>copyable\<close>); outside this the program is known to go wrong.
\<close>
theorem copied_term_is_variant:
  assumes "wf_heap (ms_heap st)" and "copyable (heap_origin st c) (P = DeepCopy)"
  shows "\<exists>n st'. copy_term (CopyTerm (\<lambda>_. True)) c P st = Some (Inr n, st') \<and> variant_copy E st c st' (cell_len (ms_heap st))"
proof -
  obtain st' src V where c: "copy_term (CopyTerm (\<lambda>_. True)) c P st = Some (Inr (cell_len (ms_heap st') - cell_len (ms_heap st)), st')"
    "wf_heap (ms_heap st')" "same_rest st st'" "copied (heap_origin st c) src V (hcell (ms_heap st')) (cell_len (ms_heap st'))"
    by (rule heap_copy [OF assms])
  have "variant_copy E st (og_addr (heap_origin st c)) st' (og_start (heap_origin st c))"
    by (rule copied_variant [OF assms(2) c(4) laid_here [OF assms(2) c(4)] _ c(2) _ _ c(3)]) (simp_all add: heap_origin_def)
  then show ?thesis using c(1) by (auto simp: heap_origin_def)
qed

theorem copied_term_is_variant_witness:
  "\<exists>n st'. copy_term (CopyTerm (\<lambda>_. True)) (str_of 0) DeepCopy shared = Some (Inr n, st') \<and>
    variant_copy demo_env shared (str_of 0) st' 5"
  using copied_term_is_variant [OF shared_wf(1) shared_copyable, where P = DeepCopy and E = demo_env] unfolding shared_wf(2) .

text \<open>
  C3: Copying a term on a \<open>copyable\<close> heap changes no old cell and nothing but the heap, reports the number of cells it
  has added, and the new cells refer to new cells only. The allocator always provides, and the heap has room, is free of marks and
  holds no strings, no references to the stack, no attributed variables unless attributes are stripped, no list
  cells that overlap one another or a structure, and no reference that reaches a cell of a list through a second
  variable (\<open>copyable\<close>); outside this the program is known to go wrong.
\<close>
theorem copying_keeps_the_store:
  assumes "wf_heap (ms_heap st)" and "copyable (heap_origin st c) (P = DeepCopy)"
  shows "\<exists>n st'. copy_term (CopyTerm (\<lambda>_. True)) c P st = Some (Inr n, st') \<and> wf_heap (ms_heap st') \<and> same_rest st st' \<and>
    cell_len (ms_heap st') = cell_len (ms_heap st) + n \<and>
    (\<forall>i<cell_len (ms_heap st). hcell (ms_heap st') i = hcell (ms_heap st) i) \<and>
    (\<forall>i\<in>set [cell_len (ms_heap st)..<cell_len (ms_heap st) + n].
       refers_within (cell_len (ms_heap st)) (cell_len (ms_heap st) + n) (hcell (ms_heap st') i))"
proof -
  obtain st' src V where c: "copy_term (CopyTerm (\<lambda>_. True)) c P st = Some (Inr (cell_len (ms_heap st') - cell_len (ms_heap st)), st')"
    "wf_heap (ms_heap st')" "same_rest st st'" "copied (heap_origin st c) src V (hcell (ms_heap st')) (cell_len (ms_heap st'))"
    by (rule heap_copy [OF assms])
  have G: "og_start (heap_origin st c) = cell_len (ms_heap st)" "og_cells (heap_origin st c) = hcell (ms_heap st)"
    by (simp_all add: heap_origin_def)
  have "cell_len (ms_heap st) < cell_len (ms_heap st')" "\<forall>i<cell_len (ms_heap st). hcell (ms_heap st') i = hcell (ms_heap st) i"
    using c(4) unfolding copied_def G by blast+
  moreover have "refers_within (cell_len (ms_heap st)) (cell_len (ms_heap st')) (hcell (ms_heap st') i)"
    if "i \<in> set [cell_len (ms_heap st)..<cell_len (ms_heap st')]" for i
    using new_cell_within [OF assms(2) c(4), of i] that unfolding G by simp
  ultimately show ?thesis using c(1-3)
    by (intro exI [of _ "cell_len (ms_heap st') - cell_len (ms_heap st)"] exI [of _ st']) simp
qed

theorem copying_keeps_the_store_witness:
  "\<exists>n st'. copy_term (CopyTerm (\<lambda>_. True)) (str_of 0) StripAttributes shared = Some (Inr n, st') \<and> cell_len (ms_heap st') = 5 + n \<and>
    hcell (ms_heap st') 2 = mk TLis 3 \<and> (\<forall>i\<in>set [5..<5 + n]. refers_within 5 (5 + n) (hcell (ms_heap st') i))"
proof -
  have "hcell (ms_heap shared) 2 = mk TLis 3" by (simp add: shared_def state_of_def hcell_heap_of shared_cells_def)
  then show ?thesis
    using copying_keeps_the_store [OF shared_wf(1) shared_copyable, where P = StripAttributes] unfolding shared_wf(2) by fastforce
qed

text \<open>
  Copying a ball returns, leaves the heap's cells, the stack and the earlier cells of the stub as they
  were, and the new cells of the stub denote the ball with its unbound variables renamed one to one.
\<close>
theorem copied_ball_is_variant:
  assumes "wf_heap (cb_heap b)" and "wf_heap (cb_stub b)" and "copyable (ball_origin b c) (P = DeepCopy)"
  shows "\<exists>n b'. copy_term (CopyBallTerm_target (\<lambda>_. True) strings) c P b = Some (Inr n, b') \<and>
    cb_stack b' = cb_stack b \<and> cell_len (cb_heap b') = cell_len (cb_heap b) \<and> cell_len (cb_stub b') = cell_len (cb_stub b) + n \<and>
    (\<forall>i<cell_len (cb_heap b) + cell_len (cb_stub b). ball_index b' i = ball_index b i) \<and>
    variant_copy E (joined st b) c (joined st b') (cell_len (cb_heap b) + cell_len (cb_stub b))"
proof -
  let ?G = "ball_origin b c" and ?T = "CopyBallTerm_target (\<lambda>_. True) strings"
  have b: "ball_valid b" "ct_index ?T b = og_cells ?G" "stack_at (cb_stack b) = og_stack ?G" "ct_threshold ?T b = og_start ?G"
    "og_len ?G \<le> cell_len (cb_heap b)" "og_addr ?G = c" "og_start ?G = cell_len (cb_heap b) + cell_len (cb_stub b)"
    using assms(1,2) by (simp_all add: ball_origin_def CopyBallTerm_target_def)
  obtain b' src V N where c: "copy_term ?T c P b = Some (Inr (N - og_start ?G), b')" "ball_valid b'"
      "ball_frame b' = ball_frame b" "ct_threshold ?T b' = N" "copied ?G src V (ct_index ?T b') N"
    using ball_target.copy_term_copies [OF b(1-5) assms(3)] unfolding b(6) by blast
  have idx: "ct_index ?T b' = ball_index b'" by (simp add: CopyBallTerm_target_def)
  have N: "N = cell_len (cb_heap b) + cell_len (cb_stub b')" using c(3,4) by (simp add: CopyBallTerm_target_def)
  have j: "hcell (ms_heap (joined st b')) = ball_index b'" "wf_heap (ms_heap (joined st b'))" "cell_len (ms_heap (joined st b')) = N"
    "hcell (ms_heap (joined st b)) = ball_index b"
    using joined_heap assms(1,2) c(2,3) N by simp_all
  have cp: "copied ?G src V (hcell (ms_heap (joined st b'))) N" using c(5) idx j(1) by simp
  have "same_rest (joined st b) (joined st b')" using c(3) by (simp add: same_rest_def joined_def Let_def)
  then have "variant_copy E (joined st b) (og_addr ?G) (joined st b') (og_start ?G)"
    using copied_variant [OF assms(3) cp laid_here [OF assms(3) cp]] j c(5) by (simp add: ball_origin_def joined_def Let_def copied_def)
  moreover have "og_start ?G < N" "\<forall>i<og_start ?G. ball_index b' i = ball_index b i"
    using c(5) unfolding copied_def idx by (simp_all add: ball_origin_def)
  ultimately show ?thesis using c(1,3) N unfolding b(6,7) by (intro exI [of _ "N - (cell_len (cb_heap b) + cell_len (cb_stub b))"] exI [of _ b']) simp
qed

theorem copied_ball_is_variant_witness:
  "\<exists>n b'. copy_term (CopyBallTerm_target (\<lambda>_. True) []) (str_of 0) DeepCopy shared_ball = Some (Inr n, b') \<and>
    cell_len (cb_stub b') = n \<and> variant_copy demo_env (joined shared shared_ball) (str_of 0) (joined shared b') 5"
proof -
  have wf: "wf_heap (cb_heap shared_ball)" "wf_heap (cb_stub shared_ball)" and
    len: "cell_len (cb_heap shared_ball) = 5" "cell_len (cb_stub shared_ball) = 0"
    using shared_wf by (simp_all add: shared_ball_def heap_of_wf)
  show ?thesis
    using copied_ball_is_variant [OF wf shared_ball_copyable, where P = DeepCopy and E = demo_env and st = shared and strings = "[]"]
    unfolding len by fastforce
qed

end
