(* ===== verification/Balls.thy ===== *)
theory Balls
  imports CopyTrees
begin

text \<open>
  Terms that outlive backtracking: the ball of an exception and the value of a global variable are copied to a
  stub (\<open>set_ball\<close> of \<open>src/src/machine/machine_state_impl.rs\<close>) and brought back to the heap by \<open>Ball\<close> of
  \<open>src/src/machine/machine_state.rs\<close> and \<open>get_ball\<close> of \<open>src/src/machine/system_calls.rs\<close>. The registers
  these functions read are arguments. A stub starts without memory; the one of the program, when it is reset,
  keeps what it has and asks for memory less often.
\<close>

section \<open>Balls\<close>

record Ball =
  boundary :: nat
  pstr_boundary :: nat
  ball_stub :: Heap

text \<open>\<open>Sub<i64>\<close> for cells.\<close>

definition cell_sub_i64 :: "HeapCellValue \<Rightarrow> int \<Rightarrow> HeapCellValue option" where
  "cell_sub_i64 w rhs = (if rhs < 0 then cell_add w (nat (- rhs)) else cell_sub w (nat rhs))"

fun align_cells :: "int \<Rightarrow> HeapCellValue list \<Rightarrow> Heap \<Rightarrow> Heap option" where
  "align_cells diff [] h = Some h"
| "align_cells diff (c # cs) h =
     (case cell_sub_i64 c diff of None \<Rightarrow> None | Some c' \<Rightarrow> align_cells diff cs (section_push_cell c' h))"

partial_function (option) align_strings :: "nat list list \<Rightarrow> Heap \<Rightarrow> int \<Rightarrow> nat \<Rightarrow> Heap \<Rightarrow> Heap option" where
  [code]: "align_strings strings stub diff pstr_threshold h =
     (if pstr_threshold < heap_index (cell_len stub) then
        (case scan_slice_to_str stub pstr_threshold of (string, tail_idx) \<Rightarrow>
          (case push_pstr strings string h of
             None \<Rightarrow> None
           | Some (pushed, h1) \<Rightarrow>
               (case (if pushed = None then Some h1 else align_cells diff [hcell stub tail_idx] h1) of
                  None \<Rightarrow> None
                | Some h2 \<Rightarrow> align_strings strings stub diff (pstr_threshold + (byte_len h2 - byte_len h)) h2)))
      else Some h)"

definition copy_and_align_to ::
  "(nat \<Rightarrow> bool) \<Rightarrow> nat list list \<Rightarrow> Ball \<Rightarrow> Heap \<Rightarrow> ((AllocError + nat) \<times> Heap) option" where
  "copy_and_align_to avail strings ball dest =
     (let h = cell_len dest;
          stub = ball_stub ball;
          diff = int (boundary ball) - int h
      in case reserve avail (cell_len stub) dest of
           None \<Rightarrow> Some (Inl AllocError, dest)
         | Some dest1 \<Rightarrow>
             (case align_cells diff (map (hcell stub) [0..<pstr_boundary ball]) dest1 of
                None \<Rightarrow> None
              | Some dest2 \<Rightarrow>
                  map_option (\<lambda>dest3. (Inr h, dest3)) (align_strings strings stub diff (heap_index (pstr_boundary ball)) dest2)))"

section \<open>Throwing and catching\<close>

definition set_ball ::
  "(nat \<Rightarrow> bool) \<Rightarrow> nat list list \<Rightarrow> HeapCellValue \<Rightarrow> MachineState \<Rightarrow> ((AllocError + unit) \<times> MachineState \<times> Ball) option" where
  "set_ball avail strings addr st =
     map_option (\<lambda>(r, b).
         (map_sum id (\<lambda>_. ()) r,
          st\<lparr>ms_heap := cb_heap b, ms_stack := cb_stack b, ms_attr := (ms_attr st)\<lparr>av_queue := cb_attr_var_queue b\<rparr>\<rparr>,
          \<lparr>boundary = cell_len (ms_heap st), pstr_boundary = (case r of Inl _ \<Rightarrow> 0 | Inr n \<Rightarrow> n), ball_stub = cb_stub b\<rparr>))
       (copy_term (CopyBallTerm_target avail strings) addr DeepCopy
          \<lparr>cb_attr_var_queue = av_queue (ms_attr st), cb_stack = ms_stack st, cb_heap = ms_heap st, cb_stub = Heap_new\<rparr>)"

definition get_ball ::
  "(nat \<Rightarrow> bool) \<Rightarrow> nat list list \<Rightarrow> HeapCellValue \<Rightarrow> Ball \<Rightarrow> MachineState \<Rightarrow> ((AllocError + unit) \<times> MachineState) option" where
  "get_ball avail strings register1 ball st =
     (case map_option (store st) (deref st register1) of
        None \<Rightarrow> None
      | Some addr \<Rightarrow>
          if mem (ball_stub ball) = [] then Some (Inr (), st\<lparr>ms_fail := True\<rparr>)
          else
            (case copy_and_align_to avail strings ball (ms_heap st) of
               None \<Rightarrow> None
             | Some (r, heap) \<Rightarrow>
                 let st' = st\<lparr>ms_heap := heap\<rparr>
                 in (case r of
                       Inl e \<Rightarrow> Some (Inl e, st')
                     | Inr h \<Rightarrow>
                         (case as_var addr of
                            Some v \<Rightarrow> map_option (\<lambda>st. (Inr (), st)) (machine_bind v (hcell heap h) st')
                          | None \<Rightarrow> Some (Inr (), st'\<lparr>ms_fail := True\<rparr>)))))"

section \<open>The copy in another heap\<close>

lemma align_one:
  assumes "refers_within (og_start G) N c" "h + (N - og_start G) \<le> 2 ^ 56"
  shows "cell_sub_i64 c (int (og_start G) - int h) = Some (moved G h c)"
proof (cases "cell_get_tag c \<in> {TStr, TLis, TVar}")
  case True
  let ?n = "og_start G" and ?v = "cell_val c" and ?t = "cell_get_tag c"
  have v: "?n \<le> ?v" "?v < N" using assms(1) True by (auto simp: refers_within_def)
  have pl: "place G h ?v < 2 ^ 56" using assms(2) diff_less_mono [OF v(2,1)] unfolding place_def by linarith
  have b: "cell_build_with ?t (place G h ?v) = Some (moved G h c)" using mk_readings(1) [OF pl, of ?t] True by (simp add: moved_def)
  show ?thesis
  proof (cases "?n < h")
    case less: True
    then have "?v + nat (- (int ?n - int h)) = place G h ?v" using v(1) by (simp add: place_def nat_diff_distrib)
    then show ?thesis using less True b by (auto simp: cell_sub_i64_def cell_add_def)
  next
    case False
    then have "nat (int ?n - int h) \<le> ?v" "?v - nat (int ?n - int h) = place G h ?v" using v(1) by (simp_all add: place_def nat_diff_distrib)
    then show ?thesis using False True b by (auto simp: cell_sub_i64_def cell_sub_def Let_def)
  qed
next
  case False
  then have "cell_get_tag c \<notin> {TStr, TLis, TVar, TAttrVar, TStackVar, TPStrLoc}" using assms(1) by (auto simp: refers_within_def)
  then show ?thesis using False
    by (auto simp: cell_sub_i64_def cell_add_def cell_sub_def moved_def Let_def split: HeapCellValueTag.splits)
qed

lemma align_all: "\<forall>c\<in>set cs. cell_sub_i64 c diff = Some (f c) \<Longrightarrow> align_cells diff cs h = Some (fold section_push_cell (map f cs) h)"
  by (induction cs arbitrary: h) simp_all

text \<open>The copied cells, moved to the end of a heap.\<close>

lemma aligned:
  assumes ok: "copyable G deep" and cp: "copied G src V H N" and stub: "wf_heap (ball_stub ball)" "cell_len (ball_stub ball) = N - og_start G"
      "\<And>i. i < N - og_start G \<Longrightarrow> hcell (ball_stub ball) i = H (og_start G + i)"
    and ball: "boundary ball = og_start G" "pstr_boundary ball = N - og_start G"
    and dest: "wf_heap dest" "cell_len dest + (N - og_start G) \<le> 2 ^ 56"
  obtains dest' where "copy_and_align_to (\<lambda>_. True) strings ball dest = Some (Inr (cell_len dest), dest')" "wf_heap dest'"
    "cell_len dest' = cell_len dest + (N - og_start G)" "\<And>i. i < cell_len dest \<Longrightarrow> hcell dest' i = hcell dest i"
    "laid G H N (cell_len dest) (hcell dest')"
proof -
  let ?n = "N - og_start G" and ?h = "cell_len dest"
  obtain d1 where d1: "reserve (\<lambda>_. True) ?n dest = Some d1" "mem d1 = mem dest" "wf_heap d1" "length (mem dest) + 8 * ?n \<le> byte_cap d1"
    using reserve_total [OF dest(1)] by blast
  let ?cs = "map (moved G ?h) (map (hcell (ball_stub ball)) [0..<?n])"
  let ?d = "fold section_push_cell ?cs d1"
  have f: "wf_heap ?d" "cell_len ?d = ?h + ?n"
    "hcell ?d i = (if ?h \<le> i \<and> i < ?h + ?n then moved G ?h (H (og_start G + (i - ?h))) else hcell dest i)" for i
    using fold_pushed [OF d1(3), of ?cs i] d1(4) hcell_mem [OF d1(2)] stub(3) by (auto simp: d1(2))
  have "cell_sub_i64 (hcell (ball_stub ball) i) (int (og_start G) - int ?h) = Some (moved G ?h (hcell (ball_stub ball) i))" if "i < ?n" for i
    using align_one [OF new_cell_within [OF ok cp, of "og_start G + i"] dest(2)] that stub(3) by simp
  then have "align_cells (int (og_start G) - int ?h) (map (hcell (ball_stub ball)) [0..<?n]) d1 = Some ?d"
    by (intro align_all) auto
  moreover have "align_strings strings (ball_stub ball) diff (heap_index ?n) ?d = Some ?d" for diff
    using stub(2) by (subst align_strings.simps) simp
  ultimately have run: "copy_and_align_to (\<lambda>_. True) strings ball dest = Some (Inr ?h, ?d)"
    using d1(1) stub(2) ball by (simp add: copy_and_align_to_def Let_def del: map_map)
  have "laid G H N ?h (hcell ?d)"
    unfolding laid_def
  proof (intro conjI allI impI)
    fix j
    assume j: "og_start G \<le> j \<and> j < N"
    then have "j - og_start G < ?n" by (intro diff_less_mono) simp_all
    then have "place G ?h j - ?h = j - og_start G" "?h \<le> place G ?h j" "place G ?h j < ?h + ?n" unfolding place_def by linarith+
    then show "hcell ?d (place G ?h j) = moved G ?h (H j)" using f(3) [of "place G ?h j"] j by simp
  qed (rule dest(2))
  then show ?thesis using that [of ?d] run f by simp
qed

lemma hcell_new: "hcell Heap_new i = 0" "cell_len Heap_new = 0" "wf_heap Heap_new"
  by (simp_all add: hcell_def Heap_new_def index_defs wf_heap_def)

lemma set_ball_copies:
  assumes "wf_heap (ms_heap st)" "copyable (heap_origin st c) True"
  obtains st' ball src V H N where "set_ball (\<lambda>_. True) strings c st = Some (Inr (), st', ball)"
    "\<And>i. i < cell_len (ms_heap st) \<Longrightarrow> hcell (ms_heap st') i = hcell (ms_heap st) i" "cell_len (ms_heap st') = cell_len (ms_heap st)"
    "st' = st\<lparr>ms_heap := ms_heap st'\<rparr>" "copied (heap_origin st c) src V H N" "wf_heap (ball_stub ball)"
    "cell_len (ball_stub ball) = N - cell_len (ms_heap st)" "boundary ball = cell_len (ms_heap st)" "pstr_boundary ball = N - cell_len (ms_heap st)"
    "\<And>i. i < N - cell_len (ms_heap st) \<Longrightarrow> hcell (ball_stub ball) i = H (cell_len (ms_heap st) + i)"
proof -
  let ?n = "cell_len (ms_heap st)" and ?G = "heap_origin st c" and ?T = "CopyBallTerm_target (\<lambda>_. True) strings"
  let ?b = "\<lparr>cb_attr_var_queue = av_queue (ms_attr st), cb_stack = ms_stack st, cb_heap = ms_heap st, cb_stub = Heap_new\<rparr>"
  have wf: "length (mem (ms_heap st)) = 8 * ?n" using assms(1) by (simp add: wf_heap_def index_defs)
  have "hcell (ms_heap st) i = 0" if "\<not> i < ?n" for i using hcell_beyond [of "ms_heap st" i] wf that by simp
  then have idx: "ball_index ?b = hcell (ms_heap st)" by (auto simp: fun_eq_iff ball_index_def hcell_new)
  have b: "ball_valid ?b" "ct_index ?T ?b = og_cells ?G" "stack_at (cb_stack ?b) = og_stack ?G" "ct_threshold ?T ?b = og_start ?G"
    "og_len ?G \<le> cell_len (cb_heap ?b)" "og_addr ?G = c" "og_start ?G = ?n"
    using assms(1) idx by (simp_all add: heap_origin_def CopyBallTerm_target_def hcell_new)
  have deep: "copyable ?G (DeepCopy = DeepCopy)" using assms(2) by simp
  obtain b' src V N where c: "copy_term ?T c DeepCopy ?b = Some (Inr (N - ?n), b')" "ball_valid b'"
      "ball_frame b' = ball_frame ?b" "ct_threshold ?T b' = N" "copied ?G src V (ct_index ?T b') N"
    using ball_target.copy_term_copies [OF b(1-5) deep] unfolding b(6,7) by blast
  have i': "ct_index ?T b' = ball_index b'" by (simp add: CopyBallTerm_target_def)
  have N: "N = ?n + cell_len (cb_stub b')" "cell_len (cb_heap b') = ?n" using c(3,4) by (simp_all add: CopyBallTerm_target_def)
  have "\<forall>i<?n. ball_index b' i = hcell (ms_heap st) i"
    using c(5) unfolding copied_def i' by (simp add: heap_origin_def)
  then have old: "hcell (cb_heap b') i = hcell (ms_heap st) i" if "i < ?n" for i using that N(2) by (auto simp: ball_index_def)
  let ?st = "st\<lparr>ms_heap := cb_heap b'\<rparr>" and ?ball = "\<lparr>boundary = ?n, pstr_boundary = N - ?n, ball_stub = cb_stub b'\<rparr>"
  have "set_ball (\<lambda>_. True) strings c st = Some (Inr (), ?st, ?ball)" using c(1,3) by (simp add: set_ball_def)
  then show ?thesis using that [of ?st ?ball src V "ball_index b'" N] c(2,5) i' N old by (simp add: ball_index_def)
qed

section \<open>Properties\<close>

text \<open>
  C36: A term of a \<open>copyable\<close> heap, deep copies being made, can be set as the ball and brought back to any heap that has
  room for it, whatever has become of the heap it was made from: the new cells denote the term the ball was set to,
  with its unbound variables renamed one to one to variables among them, and the cells that were there before are
  untouched. Setting the ball changes no cell of the heap. The allocator always provides; strings, attributed
  variables, references to the stack and to a cell of a list through a second variable are excluded.
\<close>
theorem thrown_ball_is_caught:
  assumes "wf_heap (ms_heap st)" and "copyable (heap_origin st c) True"
  shows "\<exists>st' ball. set_ball (\<lambda>_. True) strings c st = Some (Inr (), st', ball) \<and>
    cell_len (ms_heap st) + pstr_boundary ball \<le> 2 ^ 56 \<and>
    cell_len (ms_heap st') = cell_len (ms_heap st) \<and> (\<forall>i<cell_len (ms_heap st). hcell (ms_heap st') i = hcell (ms_heap st) i) \<and>
    (\<forall>dest. wf_heap dest \<and> cell_len dest + pstr_boundary ball \<le> 2 ^ 56 \<longrightarrow>
       (\<exists>dest'. copy_and_align_to (\<lambda>_. True) strings ball dest = Some (Inr (cell_len dest), dest') \<and>
          (\<forall>i<cell_len dest. hcell dest' i = hcell dest i) \<and> variant_copy E st c (st\<lparr>ms_heap := dest'\<rparr>) (cell_len dest)))"
proof -
  let ?G = "heap_origin st c" and ?n = "cell_len (ms_heap st)"
  obtain st' ball src V H N where b: "set_ball (\<lambda>_. True) strings c st = Some (Inr (), st', ball)"
    "\<And>i. i < ?n \<Longrightarrow> hcell (ms_heap st') i = hcell (ms_heap st) i" "cell_len (ms_heap st') = ?n"
    "copied ?G src V H N" "wf_heap (ball_stub ball)" "cell_len (ball_stub ball) = N - ?n" "boundary ball = ?n" "pstr_boundary ball = N - ?n"
    "\<And>i. i < N - ?n \<Longrightarrow> hcell (ball_stub ball) i = H (?n + i)"
    by (rule set_ball_copies [OF assms]) blast
  have n: "og_start ?G = ?n" "og_addr ?G = c" by (simp_all add: heap_origin_def)
  have "\<exists>dest'. copy_and_align_to (\<lambda>_. True) strings ball dest = Some (Inr (cell_len dest), dest') \<and>
      (\<forall>i<cell_len dest. hcell dest' i = hcell dest i) \<and> variant_copy E st c (st\<lparr>ms_heap := dest'\<rparr>) (cell_len dest)"
    if dest: "wf_heap dest" "cell_len dest + pstr_boundary ball \<le> 2 ^ 56" for dest
  proof -
    have b': "cell_len (ball_stub ball) = N - og_start ?G" "boundary ball = og_start ?G" "pstr_boundary ball = N - og_start ?G"
      "cell_len dest + (N - og_start ?G) \<le> 2 ^ 56"
      using b(6-8) dest(2) n by simp_all
    have cells: "hcell (ball_stub ball) i = H (og_start ?G + i)" if "i < N - og_start ?G" for i using b(9) that n by simp
    obtain dest' where d: "copy_and_align_to (\<lambda>_. True) strings ball dest = Some (Inr (cell_len dest), dest')" "wf_heap dest'"
      "cell_len dest' = cell_len dest + (N - og_start ?G)" "\<And>i. i < cell_len dest \<Longrightarrow> hcell dest' i = hcell dest i"
      "laid ?G H N (cell_len dest) (hcell dest')"
      using aligned [where strings = strings, OF assms(2) b(4,5) b'(1) cells b'(2,3) dest(1) b'(4)] by metis
    have "variant_copy E st (og_addr ?G) (st\<lparr>ms_heap := dest'\<rparr>) (cell_len dest)"
      by (rule copied_variant [OF assms(2) b(4)]) (use d(2,3,5) in \<open>simp_all add: heap_origin_def same_rest_def\<close>)
    then show ?thesis using d(1,4) n by auto
  qed
  moreover have "?n + pstr_boundary ball \<le> 2 ^ 56" using b(4,8) n by (simp add: copied_def)
  ultimately show ?thesis using b(1-3) by blast
qed

theorem thrown_ball_is_caught_witness:
  "\<exists>st' ball dest'. set_ball (\<lambda>_. True) [] (str_of 0) shared = Some (Inr (), st', ball) \<and>
    copy_and_align_to (\<lambda>_. True) [] ball (heap_of [loc_cell 0]) = Some (Inr 1, dest') \<and> hcell dest' 0 = loc_cell 0 \<and>
    variant_copy demo_env shared (str_of 0) (shared\<lparr>ms_heap := dest'\<rparr>) 1"
proof -
  obtain st' ball where b: "set_ball (\<lambda>_. True) [] (str_of 0) shared = Some (Inr (), st', ball)" "5 + pstr_boundary ball \<le> 2 ^ 56"
    "\<forall>dest. wf_heap dest \<and> cell_len dest + pstr_boundary ball \<le> 2 ^ 56 \<longrightarrow>
       (\<exists>dest'. copy_and_align_to (\<lambda>_. True) [] ball dest = Some (Inr (cell_len dest), dest') \<and>
          (\<forall>i<cell_len dest. hcell dest' i = hcell dest i) \<and>
          variant_copy demo_env shared (str_of 0) (shared\<lparr>ms_heap := dest'\<rparr>) (cell_len dest))"
    using thrown_ball_is_caught [OF shared_wf(1) shared_copyable, where E = demo_env and strings = "[]"] unfolding shared_wf(2) by blast
  have h: "wf_heap (heap_of [loc_cell 0])" "cell_len (heap_of [loc_cell 0]) = 1" "hcell (heap_of [loc_cell 0]) 0 = loc_cell 0"
    by (simp_all add: heap_of_wf hcell_heap_of)
  then show ?thesis using b(3) [rule_format, of "heap_of [loc_cell 0]"] b(1,2) by auto
qed

end
