(* ===== verification/TermOrder.thy ===== *)
theory TermOrder
  imports Backtracking "HOL-Library.Option_ord" "HOL-Library.List_Lexorder" "HOL-Library.Product_Lexorder"
begin

text \<open>
  The comparison of terms: \<open>ParallelHeapIter\<close> of \<open>src/src/heap_iter.rs\<close>, \<open>order_category\<close> of
  \<open>src/src/types.rs\<close>, \<open>compare_term_test\<close> and \<open>eq_test\<close> of \<open>src/src/machine/machine_state_impl.rs\<close>.
  The stack of the iterator is a list whose head was pushed last. Of the environment, \<open>of_cmp\<close> is the order of
  floats of the ordered-float crate and \<open>strings\<close> are the names compiled into the program. \<open>None\<close> is a panic or
  a call that does not return.
\<close>

section \<open>Categories\<close>

datatype TermOrderCategory = CatVariable | CatFloatingPoint | CatInteger | CatAtom | CatCompound

fun category_rank :: "TermOrderCategory \<Rightarrow> nat" where
  "category_rank CatVariable = 0" | "category_rank CatFloatingPoint = 1" | "category_rank CatInteger = 2"
| "category_rank CatAtom = 3" | "category_rank CatCompound = 4"

lemma category_rank_inject: "category_rank a = category_rank b \<longleftrightarrow> a = b"
  by (cases a; cases b) simp_all

instantiation TermOrderCategory :: linorder
begin

definition less_eq_TermOrderCategory :: "TermOrderCategory \<Rightarrow> TermOrderCategory \<Rightarrow> bool" where
  "less_eq_TermOrderCategory a b \<longleftrightarrow> category_rank a \<le> category_rank b"

definition less_TermOrderCategory :: "TermOrderCategory \<Rightarrow> TermOrderCategory \<Rightarrow> bool" where
  "less_TermOrderCategory a b \<longleftrightarrow> category_rank a < category_rank b"

instance
  by standard (auto simp: less_eq_TermOrderCategory_def less_TermOrderCategory_def category_rank_inject)

end

lemmas category_order = less_eq_TermOrderCategory_def less_TermOrderCategory_def

definition order_category :: "MachineState \<Rightarrow> HeapCellValue \<Rightarrow> TermOrderCategory option" where
  "order_category st w =
     (case cell_get_tag w of
        TCons \<Rightarrow>
          (case ms_arena st (cons_ptr_address w) of
             AInteger _ \<Rightarrow> Some CatInteger | ARational _ \<Rightarrow> Some CatInteger | _ \<Rightarrow> None)
      | TF64Offset \<Rightarrow> Some CatFloatingPoint
      | TFixnum \<Rightarrow> Some CatInteger
      | TCutPoint \<Rightarrow> Some CatInteger
      | TVar \<Rightarrow> Some CatVariable
      | TStackVar \<Rightarrow> Some CatVariable
      | TAttrVar \<Rightarrow> Some CatVariable
      | TAtom \<Rightarrow> Some (if 0 < atom_get_arity w then CatCompound else CatAtom)
      | TLis \<Rightarrow> Some CatCompound
      | TPStrLoc \<Rightarrow> Some CatCompound
      | TStr \<Rightarrow> Some (if snd (functor_at st (cell_val w)) = 0 then CatAtom else CatCompound)
      | _ \<Rightarrow> None)"

section \<open>The iterator\<close>

record ParallelHeapIter =
  ph_stack :: "HeapCellValue list"
  ph_tabu :: "(nat \<times> nat) list"

datatype TermPair =
    Vars nat nat
  | LessPair HeapCellValue HeapCellValue
  | GreaterPair HeapCellValue HeapCellValue
  | Unordered HeapCellValue HeapCellValue

type_synonym iter_result = "(TermPair option \<times> ParallelHeapIter) option"

definition ParallelHeapIter_from :: "HeapCellValue \<Rightarrow> HeapCellValue \<Rightarrow> ParallelHeapIter" where
  "ParallelHeapIter_from h1 h2 = \<lparr>ph_stack = [h1, h2], ph_tabu = []\<rparr>"

text \<open>A round of the loop either returns a pair or goes on, the result \<open>None\<close> within.\<close>

definition go_on :: "ParallelHeapIter \<Rightarrow> iter_result" where
  "go_on it = Some (None, it)"

definition parallel_cmp ::
  "ordering \<Rightarrow> HeapCellValue \<Rightarrow> HeapCellValue \<Rightarrow> (ParallelHeapIter \<Rightarrow> iter_result) \<Rightarrow> ParallelHeapIter \<Rightarrow> iter_result" where
  "parallel_cmp o12 h1 h2 k it =
     (case o12 of
        Greater \<Rightarrow> Some (Some (GreaterPair h1 h2), it\<lparr>ph_stack := []\<rparr>)
      | Less \<Rightarrow> Some (Some (LessPair h1 h2), it\<lparr>ph_stack := []\<rparr>)
      | Equal \<Rightarrow> k it)"

definition unless_tabu :: "nat \<times> nat \<Rightarrow> (ParallelHeapIter \<Rightarrow> iter_result) \<Rightarrow> ParallelHeapIter \<Rightarrow> iter_result" where
  "unless_tabu p k it = (if p \<in> set (ph_tabu it) then go_on it else k it)"

definition tabu_insert :: "nat \<times> nat \<Rightarrow> (ParallelHeapIter \<Rightarrow> iter_result) \<Rightarrow> ParallelHeapIter \<Rightarrow> iter_result" where
  "tabu_insert p k it = k (it\<lparr>ph_tabu := ph_tabu it @ [p]\<rparr>)"

text \<open>Cells pushed one after the other.\<close>

definition push_cells :: "HeapCellValue list \<Rightarrow> ParallelHeapIter \<Rightarrow> iter_result" where
  "push_cells cs it = go_on (it\<lparr>ph_stack := rev cs @ ph_stack it\<rparr>)"

definition push_built :: "HeapCellValue option list \<Rightarrow> ParallelHeapIter \<Rightarrow> iter_result" where
  "push_built cs it = (if None \<in> set cs then None else push_cells (map the cs) it)"

definition heap_loc :: "nat \<Rightarrow> HeapCellValue option" where
  "heap_loc l = cell_build_with TVar l"

fun succ_cell :: "pstr_succ \<Rightarrow> HeapCellValue option" where
  "succ_cell (SuccVar l) = cell_build_with TVar l"
| "succ_cell (SuccPStr l) = cell_build_with TPStrLoc l"

section \<open>Comparing two cells\<close>

definition atom_cmp :: "nat list list \<Rightarrow> MachineState \<Rightarrow> Atom \<Rightarrow> Atom \<Rightarrow> ordering" where
  "atom_cmp strings st a b = cmp_of (as_str strings (ms_atom_tbl st) a) (as_str strings (ms_atom_tbl st) b)"

definition functor_cmp :: "nat list list \<Rightarrow> MachineState \<Rightarrow> Atom \<times> nat \<Rightarrow> Atom \<times> nat \<Rightarrow> ordering" where
  "functor_cmp strings st f g =
     (case cmp_of (snd f) (snd g) of Equal \<Rightarrow> atom_cmp strings st (fst f) (fst g) | o12 \<Rightarrow> o12)"

definition atom_name_of :: "MachineState \<Rightarrow> HeapCellValue \<Rightarrow> Atom option" where
  "atom_name_of st v =
     (case cell_get_tag v of
        TAtom \<Rightarrow> Some (atom_get_name v) | TStr \<Rightarrow> Some (fst (functor_at st (cell_val v))) | _ \<Rightarrow> None)"

definition compare_lists :: "nat list list \<Rightarrow> MachineState \<Rightarrow> HeapCellValue \<Rightarrow> HeapCellValue \<Rightarrow> ParallelHeapIter \<Rightarrow> iter_result" where
  "compare_lists strings st v1 v2 =
     (let h = hcell (ms_heap st); l1 = cell_val v1; l2 = cell_val v2
      in case cell_get_tag v2 of
           TPStrLoc \<Rightarrow> unless_tabu (l1, l2) (tabu_insert (l1, l2) (\<lambda>it.
             case last_str_char_and_tail (ms_heap st) l2 of
               None \<Rightarrow> None
             | Some (c, s) \<Rightarrow> push_built [succ_cell s, heap_loc (l1 + 1), char_as_cell strings c, heap_loc l1] it))
         | TLis \<Rightarrow> unless_tabu (l1, l2) (tabu_insert (l1, l2) (push_cells [h (l2 + 1), h (l1 + 1), h l2, h l1]))
         | TStr \<Rightarrow> unless_tabu (l1, l2) (parallel_cmp (functor_cmp strings st (dot_atom, 2) (functor_at st l2)) v1 v2
             (tabu_insert (l1, l2) (push_cells [h (l2 + 2), h (l1 + 1), h (l2 + 1), h l1])))
         | _ \<Rightarrow> (\<lambda>_. None))"

definition compare_pstrs :: "nat list list \<Rightarrow> MachineState \<Rightarrow> HeapCellValue \<Rightarrow> HeapCellValue \<Rightarrow> ParallelHeapIter \<Rightarrow> iter_result" where
  "compare_pstrs strings st v1 v2 =
     (let l1 = cell_val v1; l2 = cell_val v2
      in case cell_get_tag v2 of
           TPStrLoc \<Rightarrow> unless_tabu (l1, l2) (\<lambda>it.
             case compare_pstr_segments (ms_heap st) l1 l2 of
               Continue c1 c2 \<Rightarrow> tabu_insert (l1, l2) (push_built [succ_cell (offset_by c1 l1), succ_cell (offset_by c2 l2)]) it
             | CmpLess \<Rightarrow> parallel_cmp Less v1 v2 go_on it
             | CmpGreater \<Rightarrow> parallel_cmp Greater v1 v2 go_on it
             | CmpUnreachable \<Rightarrow> None)
         | TLis \<Rightarrow> unless_tabu (l1, l2) (tabu_insert (l1, l2) (\<lambda>it.
             case last_str_char_and_tail (ms_heap st) l1 of
               None \<Rightarrow> None
             | Some (c, s) \<Rightarrow> push_built [succ_cell s, heap_loc (l2 + 1), char_as_cell strings c, heap_loc l2] it))
         | TStr \<Rightarrow> unless_tabu (l1, l2) (tabu_insert (l1, l2)
             (parallel_cmp (functor_cmp strings st (dot_atom, 2) (functor_at st l2)) v1 v2 (\<lambda>it.
               case last_str_char_and_tail (ms_heap st) l1 of
                 None \<Rightarrow> None
               | Some (c, s) \<Rightarrow> push_built [heap_loc (l2 + 2), succ_cell s, heap_loc (l2 + 1), char_as_cell strings c] it)))
         | _ \<Rightarrow> (\<lambda>_. None))"

definition compare_structures :: "nat list list \<Rightarrow> MachineState \<Rightarrow> HeapCellValue \<Rightarrow> HeapCellValue \<Rightarrow> ParallelHeapIter \<Rightarrow> iter_result" where
  "compare_structures strings st v1 v2 =
     (let h = hcell (ms_heap st); s1 = cell_val v1; s2 = cell_val v2; f1 = functor_at st s1
      in case cell_get_tag v2 of
           TStr \<Rightarrow> unless_tabu (s1, s2) (parallel_cmp (functor_cmp strings st f1 (functor_at st s2)) v1 v2
             (tabu_insert (s1, s2) (push_cells (concat (map (\<lambda>i. [h (s2 + i), h (s1 + i)]) (rev [1..<snd f1 + 1]))))))
         | TLis \<Rightarrow> unless_tabu (s1, s2) (parallel_cmp (functor_cmp strings st f1 (dot_atom, 2)) v1 v2
             (push_cells [h s2, h (s1 + 1), h (s2 + 1), h (s1 + 2)]))
         | TPStrLoc \<Rightarrow> unless_tabu (s1, s2) (parallel_cmp (functor_cmp strings st f1 (dot_atom, 2)) v1 v2
             (tabu_insert (s1, s2) (\<lambda>it.
               case last_str_char_and_tail (ms_heap st) s2 of
                 None \<Rightarrow> None
               | Some (c, s) \<Rightarrow> push_built [succ_cell s, heap_loc (s1 + 2), char_as_cell strings c, heap_loc (s1 + 1)] it)))
         | _ \<Rightarrow> (\<lambda>_. None))"

definition compare_cells :: "num_env \<Rightarrow> nat list list \<Rightarrow> MachineState \<Rightarrow> HeapCellValue \<Rightarrow> HeapCellValue \<Rightarrow> ParallelHeapIter \<Rightarrow> iter_result" where
  "compare_cells N strings st v1 v2 =
     (let cat1 = order_category st v1; cat2 = order_category st v2
      in parallel_cmp (cmp_of cat1 cat2) v1 v2
           (case cat1 of
              None \<Rightarrow> (\<lambda>it. Some (Some (Unordered v1 v2), it))
            | Some CatVariable \<Rightarrow> (\<lambda>it. Some (Some (Vars (cell_val v1) (cell_val v2)), it))
            | Some CatFloatingPoint \<Rightarrow> parallel_cmp (of_cmp N (ms_f64_tbl st (cell_val v1)) (ms_f64_tbl st (cell_val v2))) v1 v2 go_on
            | Some CatInteger \<Rightarrow>
                (case (number_of_cell st v1, number_of_cell st v2) of
                   (Some n1, Some n2) \<Rightarrow> parallel_cmp (num_cmp N n1 n2) v1 v2 go_on
                 | _ \<Rightarrow> (\<lambda>_. None))
            | Some CatAtom \<Rightarrow>
                (case (atom_name_of st v1, atom_name_of st v2) of
                   (Some n1, Some n2) \<Rightarrow> parallel_cmp (atom_cmp strings st n1 n2) v1 v2 go_on
                 | _ \<Rightarrow> (\<lambda>_. None))
            | Some CatCompound \<Rightarrow>
                (case cell_get_tag v1 of
                   TLis \<Rightarrow> compare_lists strings st v1 v2
                 | TPStrLoc \<Rightarrow> compare_pstrs strings st v1 v2
                 | TStr \<Rightarrow> compare_structures strings st v1 v2
                 | _ \<Rightarrow> (\<lambda>_. None))))"

definition ph_round :: "num_env \<Rightarrow> nat list list \<Rightarrow> MachineState \<Rightarrow> ParallelHeapIter \<Rightarrow> iter_result" where
  "ph_round N strings st it =
     (case ph_stack it of
        s1 # s2 # stack \<Rightarrow>
          (case (heap_bound_deref (ms_heap st) s1, heap_bound_deref (ms_heap st) s2) of
             (Some s1, Some s2) \<Rightarrow>
               compare_cells N strings st (heap_bound_store (ms_heap st) s1) (heap_bound_store (ms_heap st) s2) (it\<lparr>ph_stack := stack\<rparr>)
           | _ \<Rightarrow> None)
      | _ \<Rightarrow> None)"

partial_function (option) ph_next :: "num_env \<Rightarrow> nat list list \<Rightarrow> MachineState \<Rightarrow> ParallelHeapIter \<Rightarrow> iter_result" where
  [code]: "ph_next N strings st it =
     (if ph_stack it = [] then Some (None, it)
      else
        (case ph_round N strings st it of
           None \<Rightarrow> None
         | Some (r, it') \<Rightarrow> (case r of Some pair \<Rightarrow> Some (Some pair, it') | None \<Rightarrow> ph_next N strings st it')))"

section \<open>Comparing two terms\<close>

text \<open>The loop over the pairs; the result within is \<open>None\<close> for terms that are not ordered.\<close>

partial_function (option) compare_pairs ::
  "num_env \<Rightarrow> nat list list \<Rightarrow> MachineState \<Rightarrow> ParallelHeapIter \<Rightarrow> ordering option option" where
  [code]: "compare_pairs N strings st it =
     (case ph_next N strings st it of
        None \<Rightarrow> None
      | Some (None, it') \<Rightarrow> Some (Some Equal)
      | Some (Some pair, it') \<Rightarrow>
          (case pair of
             Vars v1 v2 \<Rightarrow> if v1 \<noteq> v2 then Some (Some (cmp_of v1 v2)) else compare_pairs N strings st it'
           | LessPair _ _ \<Rightarrow> Some (Some Less)
           | GreaterPair _ _ \<Rightarrow> Some (Some Greater)
           | Unordered c1 c2 \<Rightarrow> if c1 \<noteq> c2 then Some None else compare_pairs N strings st it'))"

definition compare_term_test ::
  "num_env \<Rightarrow> nat list list \<Rightarrow> MachineState \<Rightarrow> HeapCellValue \<Rightarrow> HeapCellValue \<Rightarrow> ordering option option" where
  "compare_term_test N strings st h1 h2 = compare_pairs N strings st (ParallelHeapIter_from h1 h2)"

text \<open>True on failure, as in the source.\<close>

definition eq_test :: "num_env \<Rightarrow> nat list list \<Rightarrow> MachineState \<Rightarrow> HeapCellValue \<Rightarrow> HeapCellValue \<Rightarrow> bool option" where
  "eq_test N strings st h1 h2 =
     (if h1 = h2 then Some False else map_option (\<lambda>r. r \<noteq> Some Equal) (compare_term_test N strings st h1 h2))"

end
