(* ===== verification/TermCompare.thy ===== *)
theory TermCompare
  imports TermOrder Unification
begin

text \<open>
  The comparison of terms is the standard order. Every cell has a key, and on terms without strings the
  iterator compares keys in preorder; it returns on cyclic terms too.
\<close>

section \<open>Keys\<close>

type_synonym sort_key = "TermOrderCategory \<times> nat \<times> rat \<times> nat list"

definition functor_key :: "nat list list \<Rightarrow> MachineState \<Rightarrow> Atom \<times> nat \<Rightarrow> sort_key" where
  "functor_key strings st f =
     (if snd f = 0 then CatAtom else CatCompound, snd f, 0, as_str strings (ms_atom_tbl st) (fst f))"

definition float_key :: "f64 \<Rightarrow> sort_key" where
  "float_key x = (CatFloatingPoint, if is_nan x then 1 else 0, if is_nan x then 0 else of_int (f_units x), [])"

definition rank :: "nat list list \<Rightarrow> MachineState \<Rightarrow> HeapCellValue \<Rightarrow> sort_key" where
  "rank strings st d =
     (case cell_get_tag d of
        TStr \<Rightarrow> functor_key strings st (functor_at st (cell_val d))
      | TLis \<Rightarrow> functor_key strings st (dot_atom, 2)
      | TAtom \<Rightarrow> functor_key strings st (atom_get_name d, 0)
      | TFixnum \<Rightarrow> (CatInteger, 0, of_int (get_num (cell_fixnum d)), [])
      | TCutPoint \<Rightarrow> (CatInteger, 0, of_int (get_num (cell_fixnum d)), [])
      | TF64Offset \<Rightarrow> float_key (ms_f64_tbl st (cell_val d))
      | TCons \<Rightarrow>
          (case ms_arena st (cons_ptr_address d) of
             AInteger n \<Rightarrow> (CatInteger, 0, of_int n, []) | ARational r \<Rightarrow> (CatInteger, 0, r, []) | _ \<Rightarrow> (CatInteger, 0, 0, []))
      | _ \<Rightarrow> (CatVariable, cell_val d, 0, []))"

definition elems :: "MachineState \<Rightarrow> HeapCellValue \<Rightarrow> HeapCellValue list" where
  "elems st d =
     (case cell_get_tag d of
        TStr \<Rightarrow> map (hcell (ms_heap st)) [cell_val d + 1..<cell_val d + 1 + snd (functor_at st (cell_val d))]
      | TLis \<Rightarrow> map (hcell (ms_heap st)) [cell_val d..<cell_val d + 2]
      | _ \<Rightarrow> [])"

definition opens :: "nat list list \<Rightarrow> MachineState \<Rightarrow> HeapCellValue \<Rightarrow> bool" where
  "opens strings st d \<longleftrightarrow> fst (rank strings st d) = CatCompound"

lemma cmp_of_Some [simp]: "cmp_of (Some a) (Some b) = cmp_of a b"
  by (simp add: cmp_of_def)

lemma cmp_of_pair: "cmp_of (a, b) (c, d) = (case cmp_of a c of Equal \<Rightarrow> cmp_of b d | o12 \<Rightarrow> o12)"
  by (auto simp: cmp_of_def less_prod_def')

lemma cmp_of_same [simp]: "cmp_of a a = Equal"
  by (simp add: cmp_of_def)

lemma cmp_of_Equal: "cmp_of a b = Equal \<longleftrightarrow> a = b"
  by (simp add: cmp_of_def)

lemma cmp_of_int_rat: "cmp_of (of_int a :: rat) (of_int b) = cmp_of a b"
  by (simp add: cmp_of_def)

section \<open>Stores whose terms can be compared\<close>

text \<open>The documented order of \<open>OrderedFloat\<close>: that of the numbers, with NaN equal to itself and the greatest.\<close>

definition float_order_ok :: "num_env \<Rightarrow> bool" where
  "float_order_ok N \<longleftrightarrow>
     (\<forall>x y. of_cmp N x y = (if is_nan x then (if is_nan y then Equal else Greater)
        else if is_nan y then Less else cmp_of (f_units x) (f_units y)))"

definition plain :: "nat list list \<Rightarrow> MachineState \<Rightarrow> HeapCellValue \<Rightarrow> bool" where
  "plain strings st c \<longleftrightarrow>
     cell_ok st c \<and> cell_get_tag c \<noteq> TStackVar \<and>
     (cell_get_tag c = TAtom \<longrightarrow> valid_atom strings (ms_atom_tbl st) (atom_get_name c))"

definition comparable :: "nat list list \<Rightarrow> MachineState \<Rightarrow> bool" where
  "comparable strings st \<longleftrightarrow>
     wf_strings strings \<and> wf_table strings (ms_atom_tbl st) \<and> store_ok st \<and>
     (\<forall>i<cell_len (ms_heap st). cell_get_tag (hcell (ms_heap st) i) \<noteq> TStackVar \<and>
        (cell_get_tag (hcell (ms_heap st) i) = TAtom \<longrightarrow>
           valid_atom strings (ms_atom_tbl st) (atom_get_name (hcell (ms_heap st) i))))"

lemma comparableD:
  assumes "comparable strings st"
  shows "wf_strings strings" "wf_table strings (ms_atom_tbl st)" "store_ok st"
  using assms by (simp_all add: comparable_def)

lemma plain_cell:
  assumes "comparable strings st" "i < cell_len (ms_heap st)" "\<not> is_functor (hcell (ms_heap st) i)"
  shows "plain strings st (hcell (ms_heap st) i)"
proof -
  have "is_functor (rd st (HLoc i)) \<or> cell_ok st (rd st (HLoc i))"
  proof -
    have "valid_loc st (HLoc i)" using assms(2) by simp
    then show ?thesis using comparableD(3) [OF assms(1)] unfolding store_ok_def by blast
  qed
  then show ?thesis using assms by (simp add: comparable_def plain_def)
qed

lemma plain_store:
  assumes c: "comparable strings st" and "plain strings st x"
  shows "heap_bound_store (ms_heap st) x = store st x" "plain strings st (store st x)"
proof -
  have x: "cell_ok st x" "cell_get_tag x \<noteq> TStackVar" using assms(2) by (simp_all add: plain_def)
  show "heap_bound_store (ms_heap st) x = store st x"
    using x(2) by (auto simp: heap_bound_store_def var_target_def store_def split: HeapCellValueTag.splits)
  show "plain strings st (store st x)"
  proof (cases "cell_get_tag x \<in> {TVar, TAttrVar}")
    case True
    then have "cell_val x < cell_len (ms_heap st)" "\<not> is_functor (hcell (ms_heap st) (cell_val x))"
      using x(1) by (auto simp: cell_ok_def)
    then show ?thesis using plain_cell [OF c] True by (auto simp: store_def)
  next
    case False
    then have "store st x = x" using x(2) by (auto simp: store_def split: HeapCellValueTag.splits)
    then show ?thesis using assms(2) by simp
  qed
qed

lemma plain_deref:
  assumes c: "comparable strings st" and "plain strings st x"
  obtains r where "heap_bound_deref (ms_heap st) x = Some r" "deref st x = Some r" "plain strings st r"
    "heap_bound_store (ms_heap st) r = look st x" "plain strings st (look st x)"
proof -
  obtain r where r: "deref st x = Some r" using comparableD(3) [OF c] by (auto simp: store_ok_def)
  have "plain strings st x \<longrightarrow> heap_bound_deref (ms_heap st) x = Some r \<and> plain strings st r"
    using r
  proof (induction rule: deref_induct)
    case (found x)
    then show ?case using plain_store [OF c, of x]
      by (subst heap_bound_deref.simps) (auto simp: heap_bound_store_def Let_def)
  next
    case (refers x r)
    then show ?case using plain_store [OF c, of x]
      by (subst heap_bound_deref.simps) (auto simp: heap_bound_store_def Let_def)
  qed
  then show ?thesis using that r assms(2) plain_store [OF c, of r] by (simp add: look_def)
qed

lemma elems_plain:
  assumes c: "comparable strings st" and d: "plain strings st d" and x: "x \<in> set (elems st d)"
  shows "plain strings st x"
proof -
  have ok: "cell_ok st d" using d by (simp add: plain_def)
  have "\<exists>i. x = hcell (ms_heap st) i \<and> i < cell_len (ms_heap st) \<and> \<not> is_functor (hcell (ms_heap st) i)"
    using ok x by (cases "cell_get_tag d") (auto simp: elems_def cell_ok_def args_ok_def)
  then show ?thesis using plain_cell [OF c] by blast
qed

lemma look_elem:
  assumes "store_ok st" "i < cell_len (ms_heap st)"
  shows "look st (loc_cell i) = look st (hcell (ms_heap st) i)"
proof -
  have "i < 2 ^ 56" using assms by (simp add: store_ok_def)
  note r = loc_cell_readings [OF this]
  have s: "store st (loc_cell i) = hcell (ms_heap st) i" using r by (simp add: store_def)
  show ?thesis
  proof (cases "is_var (hcell (ms_heap st) i) \<and> hcell (ms_heap st) i \<noteq> loc_cell i")
    case True
    then have "deref st (loc_cell i) = deref st (hcell (ms_heap st) i)" using s by (subst deref_unfold) simp
    moreover obtain r where "deref st (hcell (ms_heap st) i) = Some r" using assms(1) by (auto simp: store_ok_def)
    ultimately show ?thesis by (simp add: look_def)
  next
    case False
    then have "look st (loc_cell i) = hcell (ms_heap st) i" using s by (auto simp: look_def deref_unfold [of st "loc_cell i"])
    then show ?thesis using False look_not_var [of "hcell (ms_heap st) i" st] by auto
  qed
qed

section \<open>Comparing two values\<close>

lemma plain_tag:
  "plain strings st d \<Longrightarrow> cell_get_tag d \<in> {TStr, TLis, TAtom, TFixnum, TCutPoint, TF64Offset, TCons, TVar, TAttrVar}"
  by (auto simp: plain_def cell_ok_def split: HeapCellValueTag.splits)

lemma plain_atom: "plain strings st d \<Longrightarrow> cell_get_tag d = TAtom \<Longrightarrow> atom_get_arity d = 0"
  by (auto simp: plain_def cell_ok_def atom_as_cell_def dest: atom_cell_readings)

lemma plain_cons:
  "plain strings st d \<Longrightarrow> cell_get_tag d = TCons \<Longrightarrow>
   (\<exists>n. ms_arena st (cons_ptr_address d) = AInteger n) \<or> (\<exists>q. ms_arena st (cons_ptr_address d) = ARational q)"
  using number_labels [of st d] by (auto simp: plain_def)

lemma category_of:
  assumes "plain strings st d"
  shows "order_category st d = Some (fst (rank strings st d))"
  using plain_tag [OF assms] plain_atom [OF assms] plain_cons [OF assms]
  by (auto simp: order_category_def rank_def functor_key_def float_key_def)

lemma float_keys: "float_order_ok N \<Longrightarrow> of_cmp N x y = cmp_of (float_key x) (float_key y)"
  by (auto simp: float_order_ok_def float_key_def cmp_of_pair cmp_of_int_rat split: ordering.split)
     (simp_all add: cmp_of_def)

lemma functor_keys:
  assumes "snd f \<noteq> 0" "snd g \<noteq> 0"
  shows "functor_cmp strings st f g = cmp_of (functor_key strings st f) (functor_key strings st g)"
  using assms by (simp add: functor_cmp_def functor_key_def cmp_of_pair atom_cmp_def split: ordering.split)

lemma atom_keys:
  assumes "snd f = 0" "snd g = 0"
  shows "atom_cmp strings st (fst f) (fst g) = cmp_of (functor_key strings st f) (functor_key strings st g)"
  using assms by (simp add: functor_key_def cmp_of_pair atom_cmp_def)

lemma number_keys:
  assumes "plain strings st d1" "plain strings st d2" "fst (rank strings st d1) = CatInteger" "fst (rank strings st d2) = CatInteger"
  obtains n1 n2 where "number_of_cell st d1 = Some n1" "number_of_cell st d2 = Some n2"
    "num_cmp N n1 n2 = cmp_of (rank strings st d1) (rank strings st d2)"
proof -
  have one: "\<exists>n q. number_of_cell st d = Some n \<and> rank strings st d = (CatInteger, 0, q, []) \<and>
      (case n of NFixnum k \<Rightarrow> q = of_int (get_num k) | NInteger k \<Rightarrow> q = of_int k | NRational p \<Rightarrow> q = p | NFloat _ \<Rightarrow> False)"
    if "plain strings st d" "fst (rank strings st d) = CatInteger" for d
    using plain_tag [OF that(1)] plain_cons [OF that(1)] that(2)
    by (auto simp: rank_def functor_key_def float_key_def number_of_cell_def split: if_splits)
  obtain n1 q1 n2 q2 where n: "number_of_cell st d1 = Some n1" "rank strings st d1 = (CatInteger, 0, q1, [])"
    "case n1 of NFixnum k \<Rightarrow> q1 = of_int (get_num k) | NInteger k \<Rightarrow> q1 = of_int k | NRational p \<Rightarrow> q1 = p | NFloat _ \<Rightarrow> False"
    "number_of_cell st d2 = Some n2" "rank strings st d2 = (CatInteger, 0, q2, [])"
    "case n2 of NFixnum k \<Rightarrow> q2 = of_int (get_num k) | NInteger k \<Rightarrow> q2 = of_int k | NRational p \<Rightarrow> q2 = p | NFloat _ \<Rightarrow> False"
    using one [OF assms(1,3)] one [OF assms(2,4)] by blast
  have "num_cmp N n1 n2 = cmp_of q1 q2" using n(3,6) by (cases n1; cases n2) (simp_all add: cmp_of_int_rat)
  then show ?thesis using that n by (simp add: cmp_of_pair split: ordering.split)
qed

lemma dot_valid: "valid_atom strings t dot_atom"
proof -
  have "inlinable (encode_all (atm ''.''))" "is_bytes (encode_all (atm ''.''))"
    by (simp_all add: atm_def inlinable_def INLINED_ATOM_MAX_LEN_def encode_utf8_def)
  moreover from this have "as_str strings t dot_atom = encode_all (atm ''.'')" by (simp add: as_str_def dot_atom_def as_str_inlined)
  moreover have "odd dot_atom" by (simp add: dot_atom_93)
  ultimately show ?thesis by (simp add: valid_atom_def dot_atom_def)
qed

text \<open>Structures and lists whose keys are the same have the same functor, and no structure is a list.\<close>

lemma plain_functor:
  assumes "comparable strings st" "plain strings st d" "cell_get_tag d = TStr"
  shows "valid_atom strings (ms_atom_tbl st) (fst (functor_at st (cell_val d)))" "functor_at st (cell_val d) \<noteq> (dot_atom, 2)"
proof -
  have ok: "cell_ok st d" using assms(2) by (simp add: plain_def)
  then have "cell_get_tag (hcell (ms_heap st) (cell_val d)) = TAtom" "functor_at st (cell_val d) \<noteq> (dot_atom, 2)"
    using assms(3) by (simp_all add: cell_ok_def)
  moreover have "cell_val d < cell_len (ms_heap st)"
  proof (rule ccontr)
    assume "\<not> cell_val d < cell_len (ms_heap st)"
    then have "hcell (ms_heap st) (cell_val d) = 0"
      using comparableD(3) [OF assms(1)] by (intro hcell_beyond) (auto simp: store_ok_def wf_heap_def index_defs)
    then show False using calculation(1) get_tag_pointer [of 0] by simp
  qed
  ultimately show "valid_atom strings (ms_atom_tbl st) (fst (functor_at st (cell_val d)))" "functor_at st (cell_val d) \<noteq> (dot_atom, 2)"
    using assms(1) by (simp_all add: comparable_def functor_at_def)
qed

lemma functor_key_inject:
  assumes "comparable strings st" "valid_atom strings (ms_atom_tbl st) (fst f)" "valid_atom strings (ms_atom_tbl st) (fst g)"
  shows "functor_key strings st f = functor_key strings st g \<longleftrightarrow> f = g"
  using as_str_injective [OF comparableD(1,2) [OF assms(1)] assms(2,3)] by (auto simp: functor_key_def prod_eq_iff)

text \<open>The arguments of the next round.\<close>

definition open_pair :: "MachineState \<Rightarrow> HeapCellValue \<Rightarrow> HeapCellValue \<Rightarrow> ParallelHeapIter \<Rightarrow> ParallelHeapIter" where
  "open_pair st d1 d2 it =
     (if (cell_val d1, cell_val d2) \<in> set (ph_tabu it) then it
      else it\<lparr>ph_stack := weave (elems st d1) (elems st d2) @ ph_stack it, ph_tabu := ph_tabu it @ [(cell_val d1, cell_val d2)]\<rparr>)"

lemma rev_weave: "rev (concat (map (\<lambda>i. [g i, f i]) (rev is))) = weave (map f is) (map g is)"
  by (induction "is") simp_all

lemma compound_pair:
  assumes c: "comparable strings st" and p: "plain strings st d1" "plain strings st d2"
    and op: "fst (rank strings st d1) = CatCompound" "fst (rank strings st d2) = CatCompound"
  shows "compare_cells N strings st d1 d2 it = parallel_cmp Equal d1 d2
    (\<lambda>it. if (cell_val d1, cell_val d2) \<in> set (ph_tabu it) then go_on it
      else parallel_cmp (cmp_of (rank strings st d1) (rank strings st d2)) d1 d2 (\<lambda>it. go_on (open_pair st d1 d2 it)) it) it"
proof -
  have tag: "cell_get_tag d \<in> {TStr, TLis}" "cell_get_tag d = TStr \<Longrightarrow> 0 < snd (functor_at st (cell_val d))"
    if "plain strings st d" "fst (rank strings st d) = CatCompound" for d
    using plain_tag [OF that(1)] plain_cons [OF that(1)] that(2)
    by (auto simp: rank_def functor_key_def float_key_def split: if_splits)
  note t1 = tag [OF p(1) op(1)] and t2 = tag [OF p(2) op(2)]
  have cat: "order_category st d1 = Some CatCompound" "order_category st d2 = Some CatCompound" using category_of p op by simp_all
  consider "cell_get_tag d1 = TLis" "cell_get_tag d2 = TLis" | "cell_get_tag d1 = TLis" "cell_get_tag d2 = TStr"
    | "cell_get_tag d1 = TStr" "cell_get_tag d2 = TLis" | "cell_get_tag d1 = TStr" "cell_get_tag d2 = TStr" using t1(1) t2(1) by blast
  then show ?thesis
  proof cases
    case 1
    then show ?thesis using cat
      by (simp add: compare_cells_def compare_lists_def unless_tabu_def tabu_insert_def push_cells_def open_pair_def parallel_cmp_def
          rank_def elems_def go_on_def upt_rec Let_def)
  next
    case 2
    have "functor_cmp strings st (dot_atom, 2) (functor_at st (cell_val d2)) = cmp_of (rank strings st d1) (rank strings st d2)"
      using 2 t2(2) functor_keys [of "(dot_atom, 2)" "functor_at st (cell_val d2)"] by (simp add: rank_def)
    moreover have "rank strings st d1 \<noteq> rank strings st d2"
      using functor_key_inject [OF c] plain_functor [OF c p(2) 2(2)] dot_valid 2 by (simp add: rank_def)
    ultimately show ?thesis using 2 cat
      by (auto simp: compare_cells_def compare_lists_def unless_tabu_def parallel_cmp_def cmp_of_Equal Let_def split: ordering.split)
  next
    case 3
    have "functor_cmp strings st (functor_at st (cell_val d1)) (dot_atom, 2) = cmp_of (rank strings st d1) (rank strings st d2)"
      using 3 t1(2) functor_keys [of "functor_at st (cell_val d1)" "(dot_atom, 2)"] by (simp add: rank_def)
    moreover have "rank strings st d1 \<noteq> rank strings st d2"
      using functor_key_inject [OF c] plain_functor [OF c p(1) 3(1)] dot_valid 3 by (simp add: rank_def)
    ultimately show ?thesis using 3 cat
      by (auto simp: compare_cells_def compare_structures_def unless_tabu_def parallel_cmp_def cmp_of_Equal Let_def split: ordering.split)
  next
    case 4
    let ?f = "functor_at st (cell_val d1)" and ?g = "functor_at st (cell_val d2)"
    have "functor_cmp strings st ?f ?g = cmp_of (rank strings st d1) (rank strings st d2)"
      using 4 t1(2) t2(2) functor_keys [of ?f ?g] by (simp add: rank_def)
    moreover have "rank strings st d1 = rank strings st d2 \<longleftrightarrow> ?f = ?g"
      using functor_key_inject [OF c] plain_functor [OF c p(1) 4(1)] plain_functor [OF c p(2) 4(2)] 4 by (simp add: rank_def)
    moreover have "rev (concat (map (\<lambda>i. [hcell (ms_heap st) (cell_val d2 + i), hcell (ms_heap st) (cell_val d1 + i)]) (rev [1..<snd ?f + 1]))) =
        weave (elems st d1) (elems st d2)" if "?f = ?g"
    proof -
      have "map (\<lambda>i. hcell (ms_heap st) (v + i)) [1..<n + 1] = map (hcell (ms_heap st)) [v + 1..<v + 1 + n]" for v n
        by (rule nth_equalityI) (simp_all del: upt_Suc)
      then show ?thesis using that 4 unfolding rev_weave by (simp add: elems_def del: upt_Suc)
    qed
    ultimately show ?thesis using 4 cat
      by (auto simp: compare_cells_def compare_structures_def unless_tabu_def tabu_insert_def push_cells_def open_pair_def
          parallel_cmp_def go_on_def cmp_of_Equal Let_def split: ordering.split simp del: upt_Suc)
  qed
qed

end
