(* ===== verification/TermRuns.thy ===== *)
theory TermRuns
  imports TermCompare
begin

text \<open>
  The runs of the comparison: on a store without strings a round of \<open>compare_pairs\<close> compares the keys of two values
  and, when they are the same and the pair of addresses is new, opens both. \<open>compares\<close> is this as a step relation.
\<close>

section \<open>Runs of the comparison\<close>

definition tabu_ok :: "nat list list \<Rightarrow> MachineState \<Rightarrow> (nat \<times> nat) list \<Rightarrow> bool" where
  "tabu_ok strings st t \<longleftrightarrow>
     (\<forall>(a, b)\<in>set t. \<exists>d1 d2. cell_val d1 = a \<and> cell_val d2 = b \<and> plain strings st d1 \<and> plain strings st d2 \<and>
        opens strings st d1 \<and> rank strings st d1 = rank strings st d2)"

abbreviation pending :: "HeapCellValue list \<Rightarrow> HeapCellValue list \<Rightarrow> (nat \<times> nat) list \<Rightarrow> ParallelHeapIter" where
  "pending xs ys t \<equiv> \<lparr>ph_stack = weave xs ys, ph_tabu = t\<rparr>"

inductive compares :: "nat list list \<Rightarrow> MachineState \<Rightarrow> HeapCellValue list \<Rightarrow> HeapCellValue list \<Rightarrow> (nat \<times> nat) list \<Rightarrow> ordering \<Rightarrow> bool"
  for strings st where
  done_all: "compares strings st [] [] t Equal"
| differ: "cmp_of (rank strings st (look st x)) (rank strings st (look st y)) = o12 \<Longrightarrow> o12 \<noteq> Equal \<Longrightarrow>
    compares strings st (x # xs) (y # ys) t o12"
| skip: "rank strings st (look st x) = rank strings st (look st y) \<Longrightarrow>
    opens strings st (look st x) \<longrightarrow> (cell_val (look st x), cell_val (look st y)) \<in> set t \<Longrightarrow>
    compares strings st xs ys t o12 \<Longrightarrow> compares strings st (x # xs) (y # ys) t o12"
| descend: "rank strings st (look st x) = rank strings st (look st y) \<Longrightarrow> opens strings st (look st x) \<Longrightarrow>
    (cell_val (look st x), cell_val (look st y)) \<notin> set t \<Longrightarrow>
    compares strings st (elems st (look st x) @ xs) (elems st (look st y) @ ys) (t @ [(cell_val (look st x), cell_val (look st y))]) o12 \<Longrightarrow>
    compares strings st (x # xs) (y # ys) t o12"

lemma opens_tag:
  assumes "plain strings st d" "opens strings st d"
  shows "cell_get_tag d = TStr \<and> is_functor (hcell (ms_heap st) (cell_val d)) \<or>
    cell_get_tag d = TLis \<and> \<not> is_functor (hcell (ms_heap st) (cell_val d))"
proof -
  have "cell_get_tag d \<in> {TStr, TLis}" "cell_get_tag d = TStr \<Longrightarrow> 0 < snd (functor_at st (cell_val d))"
    using plain_tag [OF assms(1)] plain_cons [OF assms(1)] assms(2)
    by (auto simp: opens_def rank_def functor_key_def float_key_def split: if_splits)
  then consider "cell_get_tag d = TStr" "0 < snd (functor_at st (cell_val d))" | "cell_get_tag d = TLis"
    unfolding insert_iff empty_iff by metis
  then show ?thesis
  proof cases
    case 1
    then have "cell_get_tag (hcell (ms_heap st) (cell_val d)) = TAtom" using assms(1) by (simp add: plain_def cell_ok_def)
    then show ?thesis using 1 by (simp add: is_functor_def functor_at_def)
  next
    case 2
    then have "args_ok st (cell_val d) 2" using assms(1) by (simp add: plain_def cell_ok_def)
    then have "\<not> is_functor (hcell (ms_heap st) (cell_val d))" unfolding args_ok_def by (auto simp del: upt_Suc)
    then show ?thesis using 2 by simp
  qed
qed

lemma opens_same:
  assumes "plain strings st d" "plain strings st d'" "opens strings st d" "opens strings st d'" "cell_val d = cell_val d'"
  shows "rank strings st d = rank strings st d'" "elems st d = elems st d'"
  using opens_tag [OF assms(1,3)] opens_tag [OF assms(2,4)] assms(5) by (auto simp: rank_def elems_def)

lemma tabu_ranks:
  assumes t: "tabu_ok strings st t" and m: "(cell_val d1, cell_val d2) \<in> set t"
    and p: "plain strings st d1" "plain strings st d2" "opens strings st d1" "opens strings st d2"
  shows "rank strings st d1 = rank strings st d2"
proof -
  obtain e1 e2 where e: "cell_val e1 = cell_val d1" "cell_val e2 = cell_val d2" "plain strings st e1" "plain strings st e2"
      "opens strings st e1" "rank strings st e1 = rank strings st e2"
    using t m by (fastforce simp: tabu_ok_def)
  then have "opens strings st e2" by (simp add: opens_def)
  then show ?thesis using opens_same(1) [OF e(3) p(1) e(5) p(3) e(1)] opens_same(1) [OF e(4) p(2) _ p(4) e(2)] e(6) by simp
qed

lemma elems_length:
  assumes "plain strings st d1" "plain strings st d2" "opens strings st d1" "rank strings st d1 = rank strings st d2"
  shows "length (elems st d1) = length (elems st d2)"
proof -
  have "opens strings st d2" using assms by (simp add: opens_def)
  then show ?thesis using opens_tag [OF assms(1,3)] opens_tag [OF assms(2)] assms(4)
    by (auto simp: elems_def rank_def functor_key_def)
qed

lemma weave_append: "length xs = length ys \<Longrightarrow> weave (xs @ xs') (ys @ ys') = weave xs ys @ weave xs' ys'"
  by (induction xs ys rule: list_induct2) simp_all

text \<open>Values that are not compound.\<close>

lemma leaf_pair:
  assumes p: "plain strings st d1" "plain strings st d2" and F: "float_order_ok N"
    and eq: "fst (rank strings st d1) = fst (rank strings st d2)" and o: "fst (rank strings st d1) \<notin> {CatCompound, CatVariable}"
  shows "compare_cells N strings st d1 d2 it =
    parallel_cmp (cmp_of (rank strings st d1) (rank strings st d2)) d1 d2 go_on it"
proof -
  have cat: "order_category st d1 = Some (fst (rank strings st d1))" "order_category st d2 = Some (fst (rank strings st d1))"
    using category_of p eq by simp_all
  have tags: "cell_get_tag d \<in> {TStr, TLis, TAtom} \<longleftrightarrow> fst (rank strings st d) \<in> {CatAtom, CatCompound}"
    "cell_get_tag d = TF64Offset \<longleftrightarrow> fst (rank strings st d) = CatFloatingPoint" if "plain strings st d" for d
    using plain_tag [OF that] plain_cons [OF that] by (auto simp: rank_def functor_key_def float_key_def split: if_splits)
  consider "fst (rank strings st d1) = CatFloatingPoint" | "fst (rank strings st d1) = CatInteger" | "fst (rank strings st d1) = CatAtom"
    using o by (cases "fst (rank strings st d1)") auto
  then show ?thesis
  proof cases
    case 1
    then show ?thesis using cat eq tags [OF p(1)] tags [OF p(2)] float_keys [OF F]
      by (simp add: compare_cells_def Let_def parallel_cmp_def rank_def)
  next
    case 2
    obtain n1 n2 where "number_of_cell st d1 = Some n1" "number_of_cell st d2 = Some n2"
        "num_cmp N n1 n2 = cmp_of (rank strings st d1) (rank strings st d2)"
      using number_keys [OF p 2] 2 eq by metis
    then show ?thesis using cat 2 by (simp add: compare_cells_def Let_def parallel_cmp_def)
  next
    case 3
    have one: "\<exists>f. atom_name_of st d = Some (fst f) \<and> snd f = 0 \<and> rank strings st d = functor_key strings st f"
      if "plain strings st d" "fst (rank strings st d) = CatAtom" for d
    proof -
      have "cell_get_tag d = TAtom \<or> cell_get_tag d = TStr \<and> snd (functor_at st (cell_val d)) = 0"
        using tags [OF that(1)] that(2) by (auto simp: rank_def functor_key_def split: if_splits)
      then show ?thesis
      proof
        assume "cell_get_tag d = TAtom"
        then show ?thesis by (auto simp: atom_name_of_def rank_def intro!: exI [of _ "(atom_get_name d, 0)"])
      next
        assume "cell_get_tag d = TStr \<and> snd (functor_at st (cell_val d)) = 0"
        then show ?thesis by (intro exI [of _ "functor_at st (cell_val d)"]) (simp add: atom_name_of_def rank_def functor_key_def)
      qed
    qed
    obtain f1 where f1: "atom_name_of st d1 = Some (fst f1)" "snd f1 = 0" "rank strings st d1 = functor_key strings st f1"
      using one [OF p(1) 3] by blast
    obtain f2 where f2: "atom_name_of st d2 = Some (fst f2)" "snd f2 = 0" "rank strings st d2 = functor_key strings st f2"
      using one [OF p(2)] 3 eq by auto
    show ?thesis using cat 3 f1 f2 atom_keys [OF f1(2) f2(2)] by (simp add: compare_cells_def Let_def parallel_cmp_def)
  qed
qed

lemma mixed_pair:
  assumes p: "plain strings st d1" "plain strings st d2" and ne: "fst (rank strings st d1) \<noteq> fst (rank strings st d2)"
  shows "compare_cells N strings st d1 d2 it = parallel_cmp (cmp_of (rank strings st d1) (rank strings st d2)) d1 d2 k it"
    and "cmp_of (rank strings st d1) (rank strings st d2) \<noteq> Equal"
proof -
  have "cmp_of (fst (rank strings st d1)) (fst (rank strings st d2)) \<noteq> Equal" using ne by (simp add: cmp_of_Equal)
  moreover have "cmp_of (rank strings st d1) (rank strings st d2) = (case cmp_of (fst (rank strings st d1)) (fst (rank strings st d2)) of
      Equal \<Rightarrow> cmp_of (snd (rank strings st d1)) (snd (rank strings st d2)) | o12 \<Rightarrow> o12)"
    using cmp_of_pair [of "fst (rank strings st d1)" "snd (rank strings st d1)" "fst (rank strings st d2)" "snd (rank strings st d2)"] by simp
  ultimately show "compare_cells N strings st d1 d2 it = parallel_cmp (cmp_of (rank strings st d1) (rank strings st d2)) d1 d2 k it"
      "cmp_of (rank strings st d1) (rank strings st d2) \<noteq> Equal"
    using category_of [OF p(1)] category_of [OF p(2)]
    by (auto simp: compare_cells_def Let_def parallel_cmp_def split: ordering.splits)
qed

lemma variable_pair:
  assumes p: "plain strings st d1" "plain strings st d2" and v: "fst (rank strings st d1) = CatVariable" "fst (rank strings st d2) = CatVariable"
  shows "compare_cells N strings st d1 d2 it = Some (Some (Vars (cell_val d1) (cell_val d2)), it)"
    and "cmp_of (rank strings st d1) (rank strings st d2) = cmp_of (cell_val d1) (cell_val d2)"
proof -
  have r: "rank strings st d = (CatVariable, cell_val d, 0, [])" if "plain strings st d" "fst (rank strings st d) = CatVariable" for d
    using plain_tag [OF that(1)] plain_cons [OF that(1)] that(2) by (auto simp: rank_def functor_key_def float_key_def split: if_splits)
  show "compare_cells N strings st d1 d2 it = Some (Some (Vars (cell_val d1) (cell_val d2)), it)"
    using category_of p v by (simp add: compare_cells_def Let_def parallel_cmp_def)
  show "cmp_of (rank strings st d1) (rank strings st d2) = cmp_of (cell_val d1) (cell_val d2)"
    using r [OF p(1) v(1)] r [OF p(2) v(2)] by (simp add: cmp_of_pair split: ordering.split)
qed

text \<open>A round of the loop.\<close>

lemma compare_by_round:
  assumes "ph_stack it \<noteq> []" "ph_round N strings st it = Some r"
  shows "compare_pairs N strings st it = (case r of
      (None, it') \<Rightarrow> compare_pairs N strings st it'
    | (Some (Vars v1 v2), it') \<Rightarrow> if v1 \<noteq> v2 then Some (Some (cmp_of v1 v2)) else compare_pairs N strings st it'
    | (Some (LessPair _ _), _) \<Rightarrow> Some (Some Less)
    | (Some (GreaterPair _ _), _) \<Rightarrow> Some (Some Greater)
    | (Some (Unordered c1 c2), it') \<Rightarrow> if c1 \<noteq> c2 then Some None else compare_pairs N strings st it')"
proof (cases r)
  case (Pair a it')
  then have n: "ph_next N strings st it = (case a of Some pair \<Rightarrow> Some (Some pair, it') | None \<Rightarrow> ph_next N strings st it')"
    using assms by (subst ph_next.simps) simp
  show ?thesis
  proof (cases a)
    case None
    then have "compare_pairs N strings st it = compare_pairs N strings st it'"
      using n by (subst (1 2) compare_pairs.simps) simp
    then show ?thesis using Pair None by simp
  next
    case (Some pair)
    then show ?thesis using n Pair by (subst compare_pairs.simps) (simp split: TermPair.split)
  qed
qed

lemma compare_step:
  assumes c: "comparable strings st" and F: "float_order_ok N" and t: "tabu_ok strings st t"
    and p: "plain strings st x" "plain strings st y"
  defines "d1 \<equiv> look st x" and "d2 \<equiv> look st y"
  shows "compare_pairs N strings st (pending (x # xs) (y # ys) t) =
    (case cmp_of (rank strings st d1) (rank strings st d2) of
       Equal \<Rightarrow> compare_pairs N strings st
         (if opens strings st d1 \<and> (cell_val d1, cell_val d2) \<notin> set t
          then pending (elems st d1 @ xs) (elems st d2 @ ys) (t @ [(cell_val d1, cell_val d2)]) else pending xs ys t)
     | o12 \<Rightarrow> Some (Some o12))"
proof -
  obtain r1 where r1: "heap_bound_deref (ms_heap st) x = Some r1" "heap_bound_store (ms_heap st) r1 = d1" "plain strings st d1"
    using plain_deref [OF c p(1)] by (metis d1_def)
  obtain r2 where r2: "heap_bound_deref (ms_heap st) y = Some r2" "heap_bound_store (ms_heap st) r2 = d2" "plain strings st d2"
    using plain_deref [OF c p(2)] by (metis d2_def)
  have round: "ph_round N strings st (pending (x # xs) (y # ys) t) = compare_cells N strings st d1 d2 (pending xs ys t)"
    using r1 r2 by (simp add: ph_round_def)
  note by_round = compare_by_round [of "pending (x # xs) (y # ys) t" N strings st, unfolded round]
  consider "fst (rank strings st d1) \<noteq> fst (rank strings st d2)"
    | "fst (rank strings st d1) = fst (rank strings st d2)" "fst (rank strings st d1) \<notin> {CatCompound, CatVariable}"
    | "fst (rank strings st d1) = CatVariable" "fst (rank strings st d2) = CatVariable"
    | "fst (rank strings st d1) = CatCompound" "fst (rank strings st d2) = CatCompound"
    unfolding insert_iff empty_iff by metis
  then show ?thesis
  proof cases
    case 1
    note m = mixed_pair [OF r1(3) r2(3) 1]
    show ?thesis using m(2) by_round unfolding m(1) [of N _ go_on] by (auto simp: parallel_cmp_def split: ordering.splits)
  next
    case 2
    then have "\<not> opens strings st d1" by (simp add: opens_def)
    then show ?thesis using by_round unfolding leaf_pair [OF r1(3) r2(3) F 2]
      by (auto simp: parallel_cmp_def go_on_def split: ordering.splits)
  next
    case 3
    then have "\<not> opens strings st d1" by (simp add: opens_def)
    then show ?thesis using by_round variable_pair(2) [OF r1(3) r2(3) 3] unfolding variable_pair(1) [OF r1(3) r2(3) 3]
      by (auto simp: cmp_of_Equal split: ordering.splits)
  next
    case 4
    then have o: "opens strings st d1" "opens strings st d2" by (simp_all add: opens_def)
    show ?thesis
    proof (cases "(cell_val d1, cell_val d2) \<in> set t")
      case True
      then have "rank strings st d1 = rank strings st d2" by (rule tabu_ranks [OF t _ r1(3) r2(3) o])
      then show ?thesis using by_round True o unfolding compound_pair [OF c r1(3) r2(3) 4]
        by (simp add: parallel_cmp_def go_on_def)
    next
      case False
      have "weave (elems st d1 @ xs) (elems st d2 @ ys) = weave (elems st d1) (elems st d2) @ weave xs ys"
        if "cmp_of (rank strings st d1) (rank strings st d2) = Equal"
        using elems_length [OF r1(3) r2(3) o(1)] that by (simp add: cmp_of_Equal weave_append)
      then show ?thesis using by_round False o unfolding compound_pair [OF c r1(3) r2(3) 4]
        by (auto simp: parallel_cmp_def go_on_def open_pair_def split: ordering.splits)
    qed
  qed
qed

end
