(* ===== verification/TermStandard.thy ===== *)
theory TermStandard
  imports TermRuns
begin

text \<open>
  Every comparison has a run and ends, and the program computes its result; exchanging the terms reverses it. The keys
  of a finite term in preorder are its word.
\<close>

section \<open>The iterator runs\<close>

definition all_plain :: "nat list list \<Rightarrow> MachineState \<Rightarrow> HeapCellValue list \<Rightarrow> bool" where
  "all_plain strings st xs \<longleftrightarrow> (\<forall>x\<in>set xs. plain strings st x)"

lemma all_plain_simps [simp]:
  "all_plain strings st []"
  "all_plain strings st (x # xs) \<longleftrightarrow> plain strings st x \<and> all_plain strings st xs"
  "all_plain strings st (xs @ ys) \<longleftrightarrow> all_plain strings st xs \<and> all_plain strings st ys"
  by (auto simp: all_plain_def)

lemma plain_look: "comparable strings st \<Longrightarrow> plain strings st x \<Longrightarrow> plain strings st (look st x)"
  using plain_deref by metis

lemma all_plain_elems: "comparable strings st \<Longrightarrow> plain strings st x \<Longrightarrow> all_plain strings st (elems st (look st x))"
  using elems_plain plain_look by (metis all_plain_def)

lemma tabu_ok_snoc:
  assumes "tabu_ok strings st t" "plain strings st d1" "plain strings st d2" "opens strings st d1" "rank strings st d1 = rank strings st d2"
  shows "tabu_ok strings st (t @ [(cell_val d1, cell_val d2)])"
  using assms by (auto simp: tabu_ok_def)

lemma compares_computes:
  assumes "compares strings st xs ys t o12" and c: "comparable strings st" and F: "float_order_ok N"
    and "tabu_ok strings st t" "all_plain strings st xs" "all_plain strings st ys"
  shows "compare_pairs N strings st (pending xs ys t) = Some (Some o12)"
  using assms(1,4-)
proof (induction rule: compares.induct)
  case (done_all t)
  have "ph_next N strings st (pending [] [] t) = Some (None, pending [] [] t)" by (subst ph_next.simps) simp
  then show ?case by (subst compare_pairs.simps) simp
next
  case (differ x y o12 xs ys t)
  then show ?case using compare_step [OF c F, of t x y xs ys] by (simp split: ordering.split)
next
  case (skip x y t xs ys o12)
  then show ?case using compare_step [OF c F, of t x y xs ys] by auto
next
  case (descend x y t xs ys o12)
  then have "tabu_ok strings st (t @ [(cell_val (look st x), cell_val (look st y))])"
    using tabu_ok_snoc plain_look [OF c] by simp
  then show ?case using descend compare_step [OF c F, of t x y xs ys] all_plain_elems [OF c] by simp
qed

lemma opens_inside:
  assumes "comparable strings st" "plain strings st d" "opens strings st d"
  shows "cell_val d < cell_len (ms_heap st)"
proof -
  have "cell_ok st d" using assms(2) by (simp add: plain_def)
  then show ?thesis using opens_tag [OF assms(2,3)] by (auto simp: cell_ok_def args_ok_def)
qed

text \<open>Every pair of addresses is opened at most once, so the run ends, on cyclic terms too.\<close>

lemma compares_total:
  assumes c: "comparable strings st"
    and "length xs = length ys" "tabu_ok strings st t" "all_plain strings st xs" "all_plain strings st ys"
  shows "\<exists>o12. compares strings st xs ys t o12"
  using assms(2-)
proof (induction "card ({..<cell_len (ms_heap st)} \<times> {..<cell_len (ms_heap st)} - set t)" arbitrary: xs ys t rule: less_induct)
  case less
  let ?U = "{..<cell_len (ms_heap st)} \<times> {..<cell_len (ms_heap st)}"
  note rec = less.hyps
  from less.prems show ?case
  proof (induction xs ys rule: list_induct2)
    case Nil
    then show ?case using compares.done_all by blast
  next
    case (Cons x xs y ys)
    let ?d1 = "look st x" and ?d2 = "look st y"
    have p: "plain strings st ?d1" "plain strings st ?d2" using Cons.prems plain_look [OF c] by simp_all
    obtain o12 where o: "compares strings st xs ys t o12" using Cons by auto
    show ?case
    proof (cases "rank strings st ?d1 = rank strings st ?d2")
      case False
      then have "cmp_of (rank strings st ?d1) (rank strings st ?d2) \<noteq> Equal" by (simp add: cmp_of_Equal)
      then show ?thesis using compares.differ by blast
    next
      case True
      note eq = True
      show ?thesis
      proof (cases "opens strings st ?d1 \<and> (cell_val ?d1, cell_val ?d2) \<notin> set t")
        case False
        then show ?thesis using compares.skip [OF eq _ o] by blast
      next
        case True
        let ?p = "(cell_val ?d1, cell_val ?d2)"
        have "opens strings st ?d2" using True eq by (simp add: opens_def)
        then have u: "?p \<in> ?U - set t" using True opens_inside [OF c] p by simp
        have "card (?U - set (t @ [?p])) < card (?U - set t)"
          by (rule psubset_card_mono) (use u in auto)
        moreover have "length (elems st ?d1 @ xs) = length (elems st ?d2 @ ys)"
          using elems_length [OF p] True eq Cons.hyps by simp
        ultimately obtain o13 where "compares strings st (elems st ?d1 @ xs) (elems st ?d2 @ ys) (t @ [?p]) o13"
          using rec [of "t @ [?p]"] tabu_ok_snoc [OF Cons.prems(1) p] True eq all_plain_elems [OF c] Cons.prems by fastforce
        then show ?thesis using compares.descend [OF eq] True by blast
      qed
    qed
  qed
qed

lemma comparison_runs:
  assumes "comparable strings st" "plain strings st h1" "plain strings st h2"
  obtains o12 where "compares strings st [h1] [h2] [] o12"
  using compares_total [OF assms(1), of "[h1]" "[h2]" "[]"] assms(2,3) by (auto simp: tabu_ok_def)

lemma comparison_result:
  assumes "comparable strings st" "float_order_ok N" "plain strings st h1" "plain strings st h2" "compares strings st [h1] [h2] [] o12"
  shows "compare_term_test N strings st h1 h2 = Some (Some o12)"
  using compares_computes [OF assms(5,1,2)] assms(3,4) by (simp add: compare_term_test_def ParallelHeapIter_from_def tabu_ok_def)

section \<open>The result is antisymmetric\<close>

fun opposite :: "ordering \<Rightarrow> ordering" where
  "opposite Less = Greater" | "opposite Equal = Equal" | "opposite Greater = Less"

lemma cmp_of_opposite: "cmp_of b a = opposite (cmp_of a b)"
  by (auto simp: cmp_of_def)

lemma compares_opposite: "compares strings st xs ys t o12 \<Longrightarrow> compares strings st ys xs (map prod.swap t) (opposite o12)"
proof (induction rule: compares.induct)
  case (done_all t)
  then show ?case using compares.done_all by simp
next
  case (differ x y o12 xs ys t)
  then have "cmp_of (rank strings st (look st y)) (rank strings st (look st x)) = opposite o12" by (metis cmp_of_opposite)
  moreover have "opposite o12 \<noteq> Equal" using differ by (cases o12) simp_all
  ultimately show ?case by (rule compares.differ)
next
  case (skip x y t xs ys o12)
  have "opens strings st (look st y) \<longrightarrow> (cell_val (look st y), cell_val (look st x)) \<in> set (map prod.swap t)"
    using skip.hyps(1,2) by (force simp: opens_def)
  then show ?case using compares.skip [OF skip.hyps(1) [symmetric]] skip.IH by blast
next
  case (descend x y t xs ys o12)
  have "opens strings st (look st y)" "(cell_val (look st y), cell_val (look st x)) \<notin> set (map prod.swap t)"
    using descend.hyps(1-3) by (auto simp: opens_def)
  then show ?case using compares.descend [OF descend.hyps(1) [symmetric]] descend.IH by simp
qed

section \<open>Terms that can be written out\<close>

text \<open>The keys of the cells of a finite term in preorder.\<close>

inductive preorder :: "nat list list \<Rightarrow> MachineState \<Rightarrow> HeapCellValue list \<Rightarrow> sort_key list \<Rightarrow> bool" for strings st where
  preorder_none: "preorder strings st [] []"
| preorder_next: "preorder strings st (elems st (look st x) @ xs) ks \<Longrightarrow> preorder strings st (x # xs) (rank strings st (look st x) # ks)"

inductive_cases preorder_ConsE: "preorder strings st (x # xs) ks"
inductive_simps preorder_Nil: "preorder strings st [] ks"

lemma preorder_unique: "preorder strings st xs ks \<Longrightarrow> preorder strings st xs ms \<Longrightarrow> ks = ms"
proof (induction arbitrary: ms rule: preorder.induct)
  case preorder_none
  then show ?case by (simp add: preorder_Nil)
next
  case (preorder_next x xs ks)
  obtain ms' where "preorder strings st (elems st (look st x) @ xs) ms'" "ms = rank strings st (look st x) # ms'"
    using preorder_next.prems by (rule preorder_ConsE)
  then show ?case using preorder_next.IH by blast
qed

lemma preorder_append: "preorder strings st xs ks \<Longrightarrow> preorder strings st ys ms \<Longrightarrow> preorder strings st (xs @ ys) (ks @ ms)"
  by (induction rule: preorder.induct) (auto intro: preorder.intros)

lemma preorder_split:
  assumes "preorder strings st (xs @ ys) ks"
  obtains a b where "preorder strings st xs a" "preorder strings st ys b" "ks = a @ b"
proof -
  have "\<exists>a b. preorder strings st xs a \<and> preorder strings st ys b \<and> ks = a @ b"
    if "preorder strings st zs ks" "zs = xs @ ys" for zs
    using that
  proof (induction arbitrary: xs rule: preorder.induct)
    case preorder_none
    then show ?case using preorder.preorder_none by auto
  next
    case (preorder_next x zs ks)
    show ?case
    proof (cases xs)
      case Nil
      then show ?thesis using preorder_next.hyps preorder_next.prems preorder.intros by (metis append_Nil)
    next
      case (Cons x' xs')
      then have "elems st (look st x) @ zs = (elems st (look st x) @ xs') @ ys" "x' = x" using preorder_next.prems by simp_all
      then obtain a b where "preorder strings st (elems st (look st x) @ xs') a" "preorder strings st ys b" "ks = a @ b"
        using preorder_next.IH by blast
      then show ?thesis using Cons \<open>x' = x\<close> preorder.preorder_next by (metis append_Cons)
    qed
  qed
  then show ?thesis using assms that by blast
qed

lemma preorder_Cons:
  assumes "preorder strings st (x # xs) ks"
  obtains a b where "preorder strings st (elems st (look st x)) a" "preorder strings st xs b" "ks = rank strings st (look st x) # a @ b"
proof -
  obtain ms where m: "preorder strings st (elems st (look st x) @ xs) ms" "ks = rank strings st (look st x) # ms"
    using assms by (rule preorder_ConsE)
  obtain a b where "preorder strings st (elems st (look st x)) a" "preorder strings st xs b" "ms = a @ b"
    using m(1) by (rule preorder_split)
  then show ?thesis using that m(2) by simp
qed

lemma cmp_of_Cons: "cmp_of (a # l) (b # m) = (case cmp_of a b of Equal \<Rightarrow> cmp_of l m | o12 \<Rightarrow> o12)"
  by (auto simp: cmp_of_def)

lemma cmp_of_prefix: "cmp_of (p @ l) (p @ m) = cmp_of l m"
  by (induction p) (simp_all add: cmp_of_Cons)

end
