(* ===== verification/TermPreorder.thy ===== *)
theory TermPreorder
  imports TermStandard
begin

text \<open>The result of a run over finite terms is the comparison of their words.\<close>

section \<open>Finite terms are compared in the standard order\<close>

text \<open>
  Of a pair of cells that was opened, the keys read so far are the same on both sides, and those still to be read
  are those of the first pairs on the stack.
\<close>

definition part_read :: "nat list list \<Rightarrow> MachineState \<Rightarrow> HeapCellValue list \<Rightarrow> HeapCellValue list \<Rightarrow> nat \<times> nat \<Rightarrow> bool" where
  "part_read strings st xs ys p \<longleftrightarrow>
     (\<exists>d1 d2 k l u1 u2. p = (cell_val d1, cell_val d2) \<and> plain strings st d1 \<and> plain strings st d2 \<and> opens strings st d1 \<and>
        rank strings st d1 = rank strings st d2 \<and> preorder strings st (elems st d1) (l @ u1) \<and> preorder strings st (elems st d2) (l @ u2) \<and>
        k \<le> length xs \<and> preorder strings st (take k xs) u1 \<and> preorder strings st (take k ys) u2)"

lemma part_read_opened:
  assumes "plain strings st d1" "plain strings st d2" "opens strings st d1" "rank strings st d1 = rank strings st d2"
    and "preorder strings st (elems st d1) a" "preorder strings st (elems st d2) b"
  shows "part_read strings st (elems st d1 @ xs) (elems st d2 @ ys) (cell_val d1, cell_val d2)"
proof -
  have "length (elems st d1) = length (elems st d2)" by (rule elems_length [OF assms(1-4)])
  then show ?thesis unfolding part_read_def using assms
    by (intro exI [of _ d1] exI [of _ d2] exI [of _ "length (elems st d1)"] exI [of _ "[]"] exI [of _ a] exI [of _ b]) simp
qed

text \<open>Opening the first pair or leaving it behind keeps this.\<close>

lemma part_read_next:
  assumes pr: "part_read strings st (x # xs) (y # ys) p" and eq: "rank strings st (look st x) = rank strings st (look st y)"
    and len: "length (elems st (look st x)) = length (elems st (look st y))"
  shows "part_read strings st (elems st (look st x) @ xs) (elems st (look st y) @ ys) p"
    and "preorder strings st (elems st (look st x)) w \<Longrightarrow> preorder strings st (elems st (look st y)) w \<Longrightarrow> part_read strings st xs ys p"
proof -
  obtain d1 d2 k l u1 u2 where d: "p = (cell_val d1, cell_val d2)" "plain strings st d1" "plain strings st d2" "opens strings st d1"
      "rank strings st d1 = rank strings st d2" and u: "preorder strings st (elems st d1) (l @ u1)" "preorder strings st (elems st d2) (l @ u2)"
    and k: "k \<le> length (x # xs)" "preorder strings st (take k (x # xs)) u1" "preorder strings st (take k (y # ys)) u2"
    using pr unfolding part_read_def by blast
  have both: "part_read strings st (elems st (look st x) @ xs) (elems st (look st y) @ ys) p \<and>
    (\<forall>w. preorder strings st (elems st (look st x)) w \<and> preorder strings st (elems st (look st y)) w \<longrightarrow> part_read strings st xs ys p)"
  proof (cases k)
    case 0
    then have "u1 = []" "u2 = []" using k by (simp_all add: preorder_Nil)
    then have "part_read strings st as bs p" for as bs unfolding part_read_def
      using d u preorder_none by (intro exI [of _ d1] exI [of _ d2] exI [of _ 0] exI [of _ l] exI [of _ "[]"]) simp
    then show ?thesis by blast
  next
    case (Suc j)
    obtain a1 b1 where 1: "preorder strings st (elems st (look st x)) a1" "preorder strings st (take j xs) b1" "u1 = rank strings st (look st x) # a1 @ b1"
      using k(2) Suc by (auto elim: preorder_Cons)
    obtain a2 b2 where 2: "preorder strings st (elems st (look st y)) a2" "preorder strings st (take j ys) b2" "u2 = rank strings st (look st y) # a2 @ b2"
      using k(3) Suc by (auto elim: preorder_Cons)
    let ?r = "rank strings st (look st x)" and ?n = "length (elems st (look st x))"
    have "part_read strings st (elems st (look st x) @ xs) (elems st (look st y) @ ys) p" unfolding part_read_def
      using d u k Suc 1 2 eq len preorder_append [OF 1(1,2)] preorder_append [OF 2(1,2)]
      by (intro exI [of _ d1] exI [of _ d2] exI [of _ "?n + j"] exI [of _ "l @ [?r]"] exI [of _ "a1 @ b1"] exI [of _ "a2 @ b2"]) simp
    moreover have "part_read strings st xs ys p" if "preorder strings st (elems st (look st x)) w" "preorder strings st (elems st (look st y)) w" for w
    proof -
      have "a1 = w" "a2 = w" using preorder_unique that 1(1) 2(1) by blast+
      then show ?thesis unfolding part_read_def using d u k Suc 1 2 eq
        by (intro exI [of _ d1] exI [of _ d2] exI [of _ j] exI [of _ "l @ [?r] @ w"] exI [of _ b1] exI [of _ b2]) simp
    qed
    ultimately show ?thesis by blast
  qed
  then show "part_read strings st (elems st (look st x) @ xs) (elems st (look st y) @ ys) p" by blast
  from both show "preorder strings st (elems st (look st x)) w \<Longrightarrow> preorder strings st (elems st (look st y)) w \<Longrightarrow> part_read strings st xs ys p"
    by blast
qed

text \<open>A pair met again was read completely: a finite term does not contain itself.\<close>

lemma part_read_again:
  assumes pr: "part_read strings st (x # xs) (y # ys) (cell_val (look st x), cell_val (look st y))"
    and p: "plain strings st (look st x)" "plain strings st (look st y)" "opens strings st (look st x)" "opens strings st (look st y)"
    and a: "preorder strings st (elems st (look st x)) a" "preorder strings st (elems st (look st y)) b"
  shows "a = b"
proof -
  obtain d1 d2 k l u1 u2 where d: "cell_val d1 = cell_val (look st x)" "cell_val d2 = cell_val (look st y)" "plain strings st d1" "plain strings st d2"
      "opens strings st d1" "rank strings st d1 = rank strings st d2"
    and u: "preorder strings st (elems st d1) (l @ u1)" "preorder strings st (elems st d2) (l @ u2)"
    and k: "k \<le> length (x # xs)" "preorder strings st (take k (x # xs)) u1" "preorder strings st (take k (y # ys)) u2"
    using pr unfolding part_read_def prod.inject by metis
  have "opens strings st d2" using d(5,6) by (simp add: opens_def)
  then have "elems st d1 = elems st (look st x)" "elems st d2 = elems st (look st y)"
    using opens_same(2) [OF d(3) p(1) d(5) p(3) d(1)] opens_same(2) [OF d(4) p(2) _ p(4) d(2)] by simp_all
  then have ab: "a = l @ u1" "b = l @ u2" using preorder_unique u a by metis+
  show ?thesis
  proof (cases k)
    case 0
    then show ?thesis using ab k by (simp add: preorder_Nil)
  next
    case (Suc j)
    then obtain a1 b1 where "preorder strings st (elems st (look st x)) a1" "u1 = rank strings st (look st x) # a1 @ b1"
      using k(2) by (auto elim: preorder_Cons)
    then have "a1 = l @ rank strings st (look st x) # a1 @ b1" using preorder_unique a(1) ab(1) by blast
    then have "length a1 = length (l @ rank strings st (look st x) # a1 @ b1)" by simp
    then show ?thesis by simp
  qed
qed

lemma elems_leaf: "\<not> opens strings st d \<Longrightarrow> elems st d = []"
  by (auto simp: opens_def rank_def elems_def functor_key_def split: HeapCellValueTag.splits if_splits)

lemma compares_keys:
  assumes "compares strings st xs ys t o12" and c: "comparable strings st"
    and "length xs = length ys" "all_plain strings st xs" "all_plain strings st ys" "\<forall>p\<in>set t. part_read strings st xs ys p"
    and "preorder strings st xs ks" "preorder strings st ys ms"
  shows "o12 = cmp_of ks ms"
  using assms(1,3-)
proof (induction arbitrary: ks ms rule: compares.induct)
  case (done_all t)
  then show ?case by (simp add: preorder_Nil)
next
  case (differ x y o12 xs ys t)
  obtain a b a' b' where "ks = rank strings st (look st x) # a @ b" "ms = rank strings st (look st y) # a' @ b'"
    using differ.prems(5,6) preorder_Cons by metis
  then show ?case using differ.hyps by (simp add: cmp_of_Cons split: ordering.split)
next
  case (skip x y t xs ys o12)
  have p: "plain strings st (look st x)" "plain strings st (look st y)" using skip.prems(2,3) plain_look [OF c] by simp_all
  obtain a b where 1: "preorder strings st (elems st (look st x)) a" "preorder strings st xs b" "ks = rank strings st (look st x) # a @ b"
    using skip.prems(5) preorder_Cons by metis
  obtain a' b' where 2: "preorder strings st (elems st (look st y)) a'" "preorder strings st ys b'" "ms = rank strings st (look st y) # a' @ b'"
    using skip.prems(6) preorder_Cons by metis
  have "a = a' \<and> length (elems st (look st x)) = length (elems st (look st y))"
  proof (cases "opens strings st (look st x)")
    case True
    then have "opens strings st (look st y)" using skip.hyps(1) by (simp add: opens_def)
    moreover have "part_read strings st (x # xs) (y # ys) (cell_val (look st x), cell_val (look st y))"
      using skip.hyps(2) skip.prems(4) True by simp
    ultimately show ?thesis using part_read_again True 1(1) 2(1) elems_length p skip.hyps(1) by metis
  next
    case False
    then have "\<not> opens strings st (look st y)" using skip.hyps(1) by (simp add: opens_def)
    with False have "elems st (look st x) = []" "elems st (look st y) = []" by (simp_all add: elems_leaf)
    then show ?thesis using 1 2 by (simp add: preorder_Nil)
  qed
  then have "\<forall>p\<in>set t. part_read strings st xs ys p"
    using part_read_next(2) [OF _ skip.hyps(1)] skip.prems(4) 1(1) 2(1) by blast
  then have "o12 = cmp_of b b'" using skip.IH skip.prems 1(2) 2(2) by simp
  then show ?case using 1 2 skip.hyps(1) \<open>a = a' \<and> _\<close> by (simp add: cmp_of_Cons cmp_of_prefix)
next
  case (descend x y t xs ys o12)
  have p: "plain strings st (look st x)" "plain strings st (look st y)" using descend.prems(2,3) plain_look [OF c] by simp_all
  obtain a b where 1: "preorder strings st (elems st (look st x)) a" "preorder strings st xs b" "ks = rank strings st (look st x) # a @ b"
    using descend.prems(5) preorder_Cons by metis
  obtain a' b' where 2: "preorder strings st (elems st (look st y)) a'" "preorder strings st ys b'" "ms = rank strings st (look st y) # a' @ b'"
    using descend.prems(6) preorder_Cons by metis
  have len: "length (elems st (look st x)) = length (elems st (look st y))"
    using elems_length [OF p descend.hyps(2,1)] by simp
  have "\<forall>p\<in>set (t @ [(cell_val (look st x), cell_val (look st y))]).
      part_read strings st (elems st (look st x) @ xs) (elems st (look st y) @ ys) p"
    using part_read_next(1) [OF _ descend.hyps(1) len] part_read_opened [OF p descend.hyps(2,1) 1(1) 2(1)] descend.prems(4) by simp
  then have "o12 = cmp_of (a @ b) (a' @ b')"
    using descend.IH len descend.prems all_plain_elems [OF c] preorder_append [OF 1(1,2)] preorder_append [OF 2(1,2)] by simp
  then show ?case using 1 2 descend.hyps(1) by (simp add: cmp_of_Cons)
qed

end
