(* ===== verification/TermEquality.thy ===== *)
theory TermEquality
  imports TermPreorder
begin

text \<open>
  A run that finds no difference leaves a set of pairs of addresses closed under taking arguments, a bisimulation
  between the trees of the terms; a run that finds one has come to cells with different trees.
\<close>

section \<open>Comparison decides equality\<close>

text \<open>Cells with the same key have the same label, and the cells the iterator pushes have the trees of the arguments.\<close>

lemma rank_functor:
  assumes "plain strings st d" "fst (rank strings st d) \<in> {CatAtom, CatCompound}"
  obtains f where "rank strings st d = functor_key strings st f" "label_of E st d = LFun (fst f) (snd f)" "\<not> is_var d"
    "comparable strings st \<Longrightarrow> valid_atom strings (ms_atom_tbl st) (fst f)"
proof -
  consider "cell_get_tag d = TStr" | "cell_get_tag d = TLis" | "cell_get_tag d = TAtom"
    using plain_tag [OF assms(1)] plain_cons [OF assms(1)] assms(2) by (auto simp: rank_def float_key_def)
  then show ?thesis
  proof cases
    case 1
    then show ?thesis using that [of "functor_at st (cell_val d)"] plain_functor(1) [OF _ assms(1)] by (simp add: rank_def label_of_def is_var_def)
  next
    case 2
    then show ?thesis using that [of "(dot_atom, 2)"] dot_valid by (simp add: rank_def label_of_def is_var_def)
  next
    case 3
    then show ?thesis using that [of "(atom_get_name d, 0)"] assms(1) by (simp add: rank_def label_of_def is_var_def plain_def)
  qed
qed

lemma rank_number:
  assumes "plain strings st d" "fst (rank strings st d) = CatInteger"
  obtains q where "rank strings st d = (CatInteger, 0, q, [])" "label_of E st d = LRat q" "\<not> is_var d"
proof -
  have "\<exists>q. rank strings st d = (CatInteger, 0, q, []) \<and> label_of E st d = LRat q \<and> \<not> is_var d"
    using plain_tag [OF assms(1)] plain_cons [OF assms(1)] assms(2)
    by (auto simp: rank_def functor_key_def float_key_def label_of_def number_label_def is_var_def split: if_splits)
  then show ?thesis using that by blast
qed

lemma rank_float:
  assumes "plain strings st d" "fst (rank strings st d) = CatFloatingPoint"
  obtains x where "rank strings st d = float_key x" "label_of E st d = LFloat {y. me_eq E x y}" "\<not> is_var d"
proof -
  have "cell_get_tag d = TF64Offset"
    using plain_tag [OF assms(1)] plain_cons [OF assms(1)] assms(2) by (auto simp: rank_def functor_key_def split: if_splits)
  then show ?thesis using that [of "ms_f64_tbl st (cell_val d)"] by (simp add: rank_def label_of_def is_var_def)
qed

lemma rank_variable:
  assumes "plain strings st d"
  shows "fst (rank strings st d) = CatVariable \<longleftrightarrow> is_var d"
    and "is_var d \<Longrightarrow> rank strings st d = (CatVariable, cell_val d, 0, [])"
  using plain_tag [OF assms] plain_cons [OF assms] by (auto simp: rank_def functor_key_def float_key_def is_var_def split: if_splits)

lemma same_float: "float_order_ok N \<Longrightarrow> me_eq E = of_eq N \<Longrightarrow> {z. me_eq E x z} = {z. me_eq E y z} \<longleftrightarrow> float_key x = float_key y"
  by (auto simp: of_eq_def float_keys cmp_of_Equal)

lemma rank_label:
  assumes c: "comparable strings st" and F: "float_order_ok N" and E: "me_eq E = of_eq N"
    and p: "plain strings st d1" "plain strings st d2" and nv: "\<not> is_var d1" "\<not> is_var d2"
  shows "rank strings st d1 = rank strings st d2 \<longleftrightarrow> label_of E st d1 = label_of E st d2"
proof -
  let ?k = "\<lambda>d. fst (rank strings st d)"
  have cats: "?k d \<in> {CatAtom, CatCompound} \<or> ?k d = CatInteger \<or> ?k d = CatFloatingPoint" if "plain strings st d" "\<not> is_var d" for d
    using rank_variable(1) [OF that(1)] that(2) by (cases "?k d") simp_all
  have 1: thesis if "plain strings st d" "\<not> is_var d"
      "\<And>f. rank strings st d = functor_key strings st f \<Longrightarrow> label_of E st d = LFun (fst f) (snd f) \<Longrightarrow>
        valid_atom strings (ms_atom_tbl st) (fst f) \<Longrightarrow> thesis"
      "\<And>q. rank strings st d = (CatInteger, 0, q, []) \<Longrightarrow> label_of E st d = LRat q \<Longrightarrow> thesis"
      "\<And>x. rank strings st d = float_key x \<Longrightarrow> label_of E st d = LFloat {y. me_eq E x y} \<Longrightarrow> thesis" for d thesis
    using cats [OF that(1,2)] rank_functor [OF that(1), of E thesis] rank_number [OF that(1), of E thesis] rank_float [OF that(1), of E thesis]
      that(3-5) c by blast
  show ?thesis
  proof (rule 1 [OF p(1) nv(1)])
    fix f assume f: "rank strings st d1 = functor_key strings st f" "label_of E st d1 = LFun (fst f) (snd f)" "valid_atom strings (ms_atom_tbl st) (fst f)"
    show ?thesis by (rule 1 [OF p(2) nv(2)])
      (use f functor_key_inject [OF c] in \<open>auto simp: functor_key_def float_key_def prod_eq_iff split: if_splits\<close>)
  next
    fix q assume q: "rank strings st d1 = (CatInteger, 0, q, [])" "label_of E st d1 = LRat q"
    show ?thesis by (rule 1 [OF p(2) nv(2)]) (use q in \<open>auto simp: functor_key_def float_key_def split: if_splits\<close>)
  next
    fix x assume x: "rank strings st d1 = float_key x" "label_of E st d1 = LFloat {y. me_eq E x y}"
    show ?thesis by (rule 1 [OF p(2) nv(2)])
      (use x same_float [OF F E] in \<open>auto simp: functor_key_def float_key_def split: if_splits\<close>)
  qed
qed

lemma kids_elems:
  assumes "comparable strings st" "plain strings st d"
  shows "list_all2 (\<lambda>k e. look st k = look st e) (kids st d) (elems st d)"
proof -
  have ok: "store_ok st" using assms(1) by (rule comparableD)
  have d: "cell_ok st d" using assms(2) by (simp add: plain_def)
  have "list_all2 (\<lambda>k e. look st k = look st e) (map loc_cell [v..<w]) (map (hcell (ms_heap st)) [v..<w])"
    if "w \<le> cell_len (ms_heap st)" for v w
    using look_elem [OF ok] that by (simp add: list_all2_conv_all_nth)
  then show ?thesis using d by (cases "cell_get_tag d") (simp_all add: kids_def elems_def cell_ok_def args_ok_def del: upt_Suc)
qed

section \<open>Equal terms\<close>

definition near :: "nat list list \<Rightarrow> MachineState \<Rightarrow> (nat \<times> nat) set \<Rightarrow> HeapCellValue \<Rightarrow> HeapCellValue \<Rightarrow> bool" where
  "near strings st t x y \<longleftrightarrow>
     plain strings st (look st x) \<and> plain strings st (look st y) \<and> rank strings st (look st x) = rank strings st (look st y) \<and>
     (opens strings st (look st x) \<longrightarrow> (cell_val (look st x), cell_val (look st y)) \<in> t)"

definition expanded :: "nat list list \<Rightarrow> MachineState \<Rightarrow> (nat \<times> nat) set \<Rightarrow> nat \<times> nat \<Rightarrow> bool" where
  "expanded strings st t p \<longleftrightarrow>
     (\<exists>d1 d2. p = (cell_val d1, cell_val d2) \<and> plain strings st d1 \<and> plain strings st d2 \<and> opens strings st d1 \<and>
        rank strings st d1 = rank strings st d2 \<and> list_all2 (near strings st t) (elems st d1) (elems st d2))"

lemma compares_equal:
  assumes "compares strings st xs ys t o12" and c: "comparable strings st" and "o12 = Equal"
    and "all_plain strings st xs" "all_plain strings st ys"
  shows "\<exists>t'. set t \<subseteq> t' \<and> list_all2 (near strings st t') xs ys \<and> (\<forall>p\<in>t' - set t. expanded strings st t' p)"
  using assms(1,3-)
proof (induction rule: compares.induct)
  case (done_all t)
  then show ?case by (intro exI [of _ "set t"]) simp
next
  case (differ x y o12 xs ys t)
  then show ?case by simp
next
  case (skip x y t xs ys o12)
  then obtain t' where t': "set t \<subseteq> t'" "list_all2 (near strings st t') xs ys" "\<forall>p\<in>t' - set t. expanded strings st t' p" by auto
  then have "near strings st t' x y" using skip.hyps(1,2) skip.prems plain_look [OF c] by (auto simp: near_def)
  then show ?case using t' by (intro exI [of _ t']) simp
next
  case (descend x y t xs ys o12)
  let ?d1 = "look st x" and ?d2 = "look st y"
  have p: "plain strings st ?d1" "plain strings st ?d2" using descend.prems plain_look [OF c] by simp_all
  obtain t' where t': "set (t @ [(cell_val ?d1, cell_val ?d2)]) \<subseteq> t'" "list_all2 (near strings st t') (elems st ?d1 @ xs) (elems st ?d2 @ ys)"
      "\<forall>p\<in>t' - set (t @ [(cell_val ?d1, cell_val ?d2)]). expanded strings st t' p"
    using descend all_plain_elems [OF c] by auto
  have l: "list_all2 (near strings st t') (elems st ?d1) (elems st ?d2)" "list_all2 (near strings st t') xs ys"
    using t'(2) elems_length [OF p descend.hyps(2,1)] by (simp_all add: list_all2_append)
  then have "expanded strings st t' (cell_val ?d1, cell_val ?d2)" unfolding expanded_def using p descend.hyps(1,2) by blast
  moreover have "near strings st t' x y" using p descend.hyps(1) t'(1) by (simp add: near_def)
  ultimately show ?case using t' l(2) by (intro exI [of _ t']) auto
qed

lemma equal_trees:
  assumes c: "comparable strings st" and F: "float_order_ok N" and E: "me_eq E = of_eq N"
    and t: "\<forall>p\<in>t. expanded strings st t p" and n: "near strings st t x y"
  shows "tree_of s E st x = tree_of s E st y"
proof (rule tree_of_eqI [where R = "\<lambda>a b. \<exists>x y. near strings st t x y \<and> look st a = look st x \<and> look st b = look st y"])
  let ?R = "\<lambda>a b. \<exists>x y. near strings st t x y \<and> look st a = look st x \<and> look st b = look st y"
  show "?R x y" using n by blast
  fix a b
  assume "?R a b"
  then obtain d1 d2 where d: "look st a = d1" "look st b = d2" "plain strings st d1" "plain strings st d2" "rank strings st d1 = rank strings st d2"
      "opens strings st d1 \<longrightarrow> (cell_val d1, cell_val d2) \<in> t" unfolding near_def by metis
  show "tree_of s E st a = tree_of s E st b \<or>
      (\<exists>l xs ys. tree_of s E st a = Node l (map (tree_of s E st) xs) \<and> tree_of s E st b = Node l (map (tree_of s E st) ys) \<and> list_all2 ?R xs ys)"
  proof (cases "is_var d1")
    case True
    have v: "is_var d2" using rank_variable(1) [OF d(3)] rank_variable(1) [OF d(4)] d(5) True by simp
    have same: "cell_val d1 = cell_val d2" using rank_variable(2) [OF d(3) True] rank_variable(2) [OF d(4) v] d(5) by simp
    have self: "hcell (ms_heap st) (cell_val d) = d" if "look st z = d" "is_var d" "plain strings st d" for z d
    proof -
      have "unbound st d" using look_var [of st z] that comparableD(3) [OF c] by (auto simp: store_ok_def)
      then show ?thesis using that(2,3) by (auto simp: unbound_def loc_of_def plain_def is_var_def split: HeapCellValueTag.splits)
    qed
    have "d1 = d2" using self [OF d(1) True d(3)] self [OF d(2) v d(4)] same by metis
    then show ?thesis using d(1,2) tree_of_look [of st a b s E] by simp
  next
    case False
    then have nv: "\<not> is_var d2" using d rank_variable(1) by metis
    have lab: "label_of E st d1 = label_of E st d2" using rank_label [OF c F E d(3,4) False nv] d(5) by simp
    have nodes: "tree_of s E st a = Node (label_of E st d1) (map (tree_of s E st) (kids st d1))"
        "tree_of s E st b = Node (label_of E st d1) (map (tree_of s E st) (kids st d2))"
      using tree_of_node [of st a] tree_of_node [of st b] d(1,2) False nv lab by simp_all
    have "list_all2 (near strings st t) (elems st d1) (elems st d2)"
    proof (cases "opens strings st d1")
      case True
      then have "expanded strings st t (cell_val d1, cell_val d2)" using t d(6) by blast
      then obtain e1 e2 where e: "cell_val e1 = cell_val d1" "cell_val e2 = cell_val d2" "plain strings st e1" "plain strings st e2"
          "opens strings st e1" "rank strings st e1 = rank strings st e2" "list_all2 (near strings st t) (elems st e1) (elems st e2)"
        unfolding expanded_def prod.inject by metis
      have "opens strings st e2" "opens strings st d2" using e(5,6) True d(5) by (simp_all add: opens_def)
      then show ?thesis using opens_same(2) [OF e(3) d(3) e(5) True e(1)] opens_same(2) [OF e(4) d(4) _ _ e(2)] e(7) by simp
    next
      case False
      then have "\<not> opens strings st d2" using d(5) by (simp add: opens_def)
      then show ?thesis using False by (simp add: elems_leaf)
    qed
    then have "list_all2 ?R (kids st d1) (kids st d2)"
      using kids_elems [OF c d(3)] kids_elems [OF c d(4)] unfolding list_all2_conv_all_nth by metis
    then show ?thesis using nodes by blast
  qed
qed

section \<open>Different terms\<close>

lemma different_trees:
  assumes "compares strings st xs ys t o12" and c: "comparable strings st" and F: "float_order_ok N" and E: "me_eq E = of_eq N"
    and "all_plain strings st xs" "all_plain strings st ys" "list_all2 (\<lambda>x y. \<forall>s. tree_of s E st x = tree_of s E st y) xs ys"
  shows "o12 = Equal"
  using assms(1,5-)
proof (induction rule: compares.induct)
  case (done_all t)
  show ?case by simp
next
  case (differ x y o12 xs ys t)
  let ?d1 = "look st x" and ?d2 = "look st y"
  have p: "plain strings st ?d1" "plain strings st ?d2" using differ.prems plain_look [OF c] by simp_all
  have eq: "tree_of s E st x = tree_of s E st y" for s using differ.prems by simp
  have "rank strings st ?d1 = rank strings st ?d2"
  proof (cases "is_var ?d1 \<or> is_var ?d2")
    case True
    have other: "?d1 = ?d2" if "is_var (look st a)" "tree_of s E st a = tree_of s E st b" "{a, b} = {x, y}"
        "\<And>s. tree_of s E st a = tree_of s E st b" for a b s
    proof -
      let ?s = "\<lambda>l c. if c = look st a then Node l [] else Node (LRat 0) []"
      have "look st b = look st a"
      proof (rule ccontr)
        assume n: "look st b \<noteq> look st a"
        have a: "tree_of (?s l) E st a = Node l []" for l using tree_of_var [OF that(1)] by simp
        have "root (tree_of (?s l) E st b) = (if is_var (look st b) then LRat 0 else label_of E st (look st b))" for l
          using n tree_of_var [of st b "?s l" E] tree_of_node [of st b "?s l" E] by (cases "is_var (look st b)") simp_all
        then have "l = (if is_var (look st b) then LRat 0 else label_of E st (look st b))" for l using that(4) [of "?s l"] a by (metis rtree.sel(1))
        then show False using label.distinct(1) by metis
      qed
      then show ?thesis using that(3) by (auto simp: doubleton_eq_iff)
    qed
    then have "?d1 = ?d2" using True eq other [of x _ y] other [of y _ x] by (metis insert_commute)
    then show ?thesis by simp
  next
    case False
    then have "label_of E st ?d1 = label_of E st ?d2"
      using eq [of "\<lambda>c. Node (LRat 0) []"] tree_of_node [of st x] tree_of_node [of st y] by simp
    then show ?thesis using rank_label [OF c F E p] False by blast
  qed
  then show ?case using differ.hyps by simp
next
  case (skip x y t xs ys o12)
  then show ?case by simp
next
  case (descend x y t xs ys o12)
  let ?d1 = "look st x" and ?d2 = "look st y"
  have p: "plain strings st ?d1" "plain strings st ?d2" using descend.prems plain_look [OF c] by simp_all
  have nv: "\<not> is_var ?d1" "\<not> is_var ?d2" using descend.hyps(1,2) rank_variable(1) [OF p(1)] rank_variable(1) [OF p(2)] by (auto simp: opens_def)
  have "map (tree_of s E st) (kids st ?d1) = map (tree_of s E st) (kids st ?d2)" for s
    using descend.prems(3) tree_of_node [OF nv(1), of s E] tree_of_node [OF nv(2), of s E] by simp
  moreover have "map (tree_of s E st) (kids st d) = map (tree_of s E st) (elems st d)" if "plain strings st d" for s d
  proof (rule nth_equalityI)
    note l = kids_elems [OF c that, unfolded list_all2_conv_all_nth]
    then show "length (map (tree_of s E st) (kids st d)) = length (map (tree_of s E st) (elems st d))" by simp
    fix i
    assume "i < length (map (tree_of s E st) (kids st d))"
    then have "i < length (kids st d)" by simp
    then show "map (tree_of s E st) (kids st d) ! i = map (tree_of s E st) (elems st d) ! i"
      using l tree_of_look [of st "kids st d ! i" "elems st d ! i"] by simp
  qed
  ultimately have m: "map (tree_of s E st) (elems st ?d1) = map (tree_of s E st) (elems st ?d2)" for s using p by metis
  then have "length (elems st ?d1) = length (elems st ?d2)" by (metis length_map)
  then have "list_all2 (\<lambda>x y. \<forall>s. tree_of s E st x = tree_of s E st y) (elems st ?d1) (elems st ?d2)"
    using m by (auto simp: list_all2_conv_all_nth) (metis nth_map)
  then show ?case using descend.IH descend.prems all_plain_elems [OF c] by (simp add: list_all2_appendI)
qed

end
