(* ===== verification/TermComparison.thy ===== *)
theory TermComparison
  imports TermEquality Arithmetic
begin

text \<open>The properties of the comparison of terms, and the stores they are applied to.\<close>

section \<open>A store with lists\<close>

text \<open>The lists \<open>L = [a|L]\<close>, \<open>M = [a,a|M]\<close>, \<open>[a|b]\<close> and \<open>[a|X]\<close> at the cells 0, 2, 6 and 8.\<close>

definition lis_of :: "nat \<Rightarrow> HeapCellValue" where
  "lis_of l = the (cell_build_with TLis l)"

definition list_cells :: "HeapCellValue list" where
  "list_cells = [atom_of 195 0, lis_of 0, atom_of 195 0, lis_of 4, atom_of 195 0, lis_of 2, atom_of 195 0, atom_of 197 0, atom_of 195 0, loc_cell 9]"

definition list_store :: MachineState where
  "list_store = state_of list_cells []"

definition exact_machine :: machine_env where
  "exact_machine = \<lparr>me_strings = [], me_eq = of_eq exact_env\<rparr>"

lemma lis_of_readings:
  assumes "l < 2 ^ 56"
  shows "cell_build_with TLis l = Some (lis_of l)" "cell_get_tag (lis_of l) = TLis" "cell_val (lis_of l) = l"
proof -
  show c: "cell_build_with TLis l = Some (lis_of l)" using assms by (simp add: lis_of_def cell_build_with_def)
  show "cell_get_tag (lis_of l) = TLis" "cell_val (lis_of l) = l" using built_readings [OF c] .
qed

lemmas list_readings = lis_of_readings [of 0, simplified] lis_of_readings [of 2, simplified] lis_of_readings [of 4, simplified]
  lis_of_readings [of 6, simplified] lis_of_readings [of 8, simplified]
  atom_of_readings [of 195 0, simplified] atom_of_readings [of 197 0, simplified] loc_cell_readings [of 9, simplified]

lemma lists_cells: "hcell (ms_heap list_store) i = (if i < 10 then list_cells ! i else 0)" "cell_len (ms_heap list_store) = 10"
  by (simp_all add: list_store_def state_of_def hcell_heap_of heap_of_wf list_cells_def)

lemma exact_order_ok: "float_order_ok exact_env"
  by (simp add: float_order_ok_def exact_env_def)

lemma list_atom_cells: "\<forall>c\<in>set list_cells. \<not> is_functor c \<and> cell_get_tag c \<noteq> TStackVar \<and> (cell_get_tag c = TAtom \<longrightarrow> atom_get_name c \<in> {195, 197})"
  using list_readings by (simp add: list_cells_def is_functor_def)

lemma list_cells_ok: "c \<in> set (list_cells @ [lis_of 6, lis_of 8]) \<Longrightarrow> cell_ok list_store c"
proof -
  have nf: "\<not> is_functor (hcell (ms_heap list_store) i)" if "i < 10" for i
  proof -
    have "list_cells ! i \<in> set list_cells" by (rule nth_mem) (use that in \<open>simp add: list_cells_def\<close>)
    then show ?thesis using list_atom_cells that by (simp add: lists_cells(1))
  qed
  have args: "args_ok list_store l 2" if "l \<le> 8" for l using nf that by (auto simp: args_ok_def lists_cells(2) simp del: upt_Suc)
  assume "c \<in> set (list_cells @ [lis_of 6, lis_of 8])"
  then show ?thesis using list_readings nf [of 9] args
    by (auto simp: list_cells_def cell_ok_def clean_def atom_as_cell_def lists_cells(2))
qed

lemma list_atoms_valid: "a \<in> {195, 197} \<Longrightarrow> valid_atom [] t a"
proof -
  have v: "valid_atom [] t (atom_new_inlined [n])" if "0 < n" "n < 128" for n
  proof -
    have "inlinable [n]" "is_bytes [n]" using that by (simp_all add: inlinable_def INLINED_ATOM_MAX_LEN_def)
    then show ?thesis by (simp add: valid_atom_def as_str_def as_str_inlined Let_def) (simp add: atom_new_inlined_def)
  qed
  have "atom_new_inlined [97] = 195" "atom_new_inlined [98] = 197" by (simp_all add: atom_new_inlined_def)
  then show "a \<in> {195, 197} \<Longrightarrow> valid_atom [] t a" using v [of 97] v [of 98] by auto
qed

lemma lists_comparable: "comparable [] list_store"
proof -
  have "store_ok (state_of list_cells [])"
    using state_of_ok [of list_cells "[]"] list_cells_ok list_store_def list_readings
    by (auto simp: search_ok_def list_cells_def is_var_def loc_of_def less_Suc_eq nth_Cons')
  then have "store_ok list_store" by (simp add: list_store_def)
  moreover have "wf_table [] (ms_atom_tbl list_store)"
    by (simp add: list_store_def state_of_def AtomTable_new_def RawBlock_new_def init_at_size_def wf_table_def wf_block_def)
  moreover have "hcell (ms_heap list_store) i \<in> set list_cells" if "i < 10" for i
    using that nth_mem [of i list_cells] by (simp add: lists_cells(1) list_cells_def del: nth_mem)
  ultimately show ?thesis using list_atom_cells list_atoms_valid by (simp add: comparable_def wf_strings_def lists_cells(2))
qed

lemma listed: "plain [] list_store (lis_of 0)" "plain [] list_store (lis_of 2)" "plain [] list_store (lis_of 6)" "plain [] list_store (lis_of 8)"
  using list_cells_ok list_readings by (auto simp: plain_def list_cells_def)

lemma list_words:
  "preorder [] list_store [lis_of 6] [functor_key [] list_store (dot_atom, 2), functor_key [] list_store (195, 0), functor_key [] list_store (197, 0)]"
  "preorder [] list_store [lis_of 8] [functor_key [] list_store (dot_atom, 2), functor_key [] list_store (195, 0), (CatVariable, 9, 0, [])]"
proof -
  have l: "look list_store x = x" if "\<not> is_var x" for x using look_not_var that .
  have v: "look list_store (loc_cell 9) = loc_cell 9"
    using list_readings by (intro look_unbound) (simp add: unbound_def loc_of_def lists_cells list_cells_def)
  have atoms: "elems list_store (atom_of a 0) = []" "rank [] list_store (atom_of a 0) = functor_key [] list_store (a, 0)" "look list_store (atom_of a 0) = atom_of a 0"
    if "a \<in> {195, 197}" for a using that list_readings l by (auto simp: elems_def rank_def is_var_def)
  have lis: "elems list_store (lis_of k) = [list_cells ! k, list_cells ! Suc k]" "rank [] list_store (lis_of k) = functor_key [] list_store (dot_atom, 2)"
      "look list_store (lis_of k) = lis_of k" if "k \<in> {6, 8}" for k
  proof -
    have r: "cell_get_tag (lis_of k) = TLis" "cell_val (lis_of k) = k" "k < 10" "Suc k < 10" using that list_readings by auto
    have "[k..<k + 2] = [k, Suc k]" by (simp add: upt_rec)
    then show "elems list_store (lis_of k) = [list_cells ! k, list_cells ! Suc k]" using r by (simp add: elems_def lists_cells(1))
    show "rank [] list_store (lis_of k) = functor_key [] list_store (dot_atom, 2)" using r by (simp add: rank_def)
    show "look list_store (lis_of k) = lis_of k" using r by (intro l) (simp add: is_var_def)
  qed
  have var: "elems list_store (loc_cell 9) = []" "rank [] list_store (loc_cell 9) = (CatVariable, 9, 0, [])"
    using list_readings by (simp_all add: elems_def rank_def)
  have atom: "preorder [] list_store (atom_of a 0 # xs) (functor_key [] list_store (a, 0) # ks)" if "a \<in> {195, 197}" "preorder [] list_store xs ks" for a xs ks
    using preorder_next [of "[]" list_store "atom_of a 0" xs ks] atoms [OF that(1)] that(2) by simp
  have "preorder [] list_store [loc_cell 9] [(CatVariable, 9, 0, [])]" using preorder_next [of "[]" list_store "loc_cell 9" "[]" "[]"] preorder_none [of "[]" list_store] by (simp add: v var)
  then have "preorder [] list_store [atom_of 195 0, loc_cell 9] [functor_key [] list_store (195, 0), (CatVariable, 9, 0, [])]" by (intro atom) simp_all
  moreover have "preorder [] list_store [atom_of 195 0, atom_of 197 0] [functor_key [] list_store (195, 0), functor_key [] list_store (197, 0)]"
    by (intro atom preorder_none) simp_all
  ultimately show "preorder [] list_store [lis_of 6] [functor_key [] list_store (dot_atom, 2), functor_key [] list_store (195, 0), functor_key [] list_store (197, 0)]"
      "preorder [] list_store [lis_of 8] [functor_key [] list_store (dot_atom, 2), functor_key [] list_store (195, 0), (CatVariable, 9, 0, [])]"
    using preorder_next [of "[]" list_store "lis_of 6" "[]"] preorder_next [of "[]" list_store "lis_of 8" "[]"] lis [of 6] lis [of 8]
    by (simp_all add: list_cells_def)
qed

section \<open>Strings and lists\<close>

text \<open>The string \<open>"b"\<close> at the cell 0 and the list \<open>[a|a]\<close> at the cell 2.\<close>

definition string_store :: MachineState where
  "string_store = state_of [98, atom_of 93 0, atom_of 195 0, atom_of 195 0] []"

definition string_of :: "nat \<Rightarrow> HeapCellValue" where
  "string_of l = the (cell_build_with TPStrLoc l)"

lemma string_of_readings: "cell_get_tag (string_of 0) = TPStrLoc" "cell_val (string_of 0) = 0"
  using built_readings [of TPStrLoc 0 "string_of 0"] by (simp_all add: string_of_def cell_build_with_def)

lemma string_store_cells: "hcell (ms_heap string_store) 2 = atom_of 195 0"
  by (simp add: string_store_def state_of_def hcell_heap_of)

lemma string_store_char: "last_str_char_and_tail (ms_heap string_store) 0 = Some (98, SuccVar 1)"
proof -
  have b: "cell_bytes 98 = encode_all [98, 0] @ [0, 0, 0, 0, 0, 0]"
  proof -
    have "le_bytes (Suc (Suc (Suc (Suc (Suc (Suc (Suc (Suc 0)))))))) 98 = [98, 0, 0, 0, 0, 0, 0, 0]" by simp
    moreover have "(8 :: nat) = Suc (Suc (Suc (Suc (Suc (Suc (Suc (Suc 0)))))))" by simp
    ultimately have "le_bytes 8 98 = [98, 0, 0, 0, 0, 0, 0, 0]" by metis
    then show ?thesis by (simp add: cell_bytes_def encode_utf8_def)
  qed
  obtain rest where m: "mem (ms_heap string_store) = encode_all [98, 0] @ rest"
    using that by (simp add: string_store_def state_of_def heap_of_def b)
  have "fst (utf8_prefix (mem (ms_heap string_store))) = 98 # 0 # fst (utf8_prefix rest)"
    unfolding m using utf8_prefix_encode [of "[98, 0]" rest] by (simp add: valid_char_def)
  moreover have "until_zero (mem (ms_heap string_store)) = [98]" unfolding m by (simp add: until_zero_def encode_utf8_def)
  ultimately show ?thesis
    by (simp add: last_str_char_and_tail_def scan_slice_def Let_def pstr_sentinel_length_def next_multiple_of_def index_defs)
qed

lemma ends_at: "\<not> is_var c \<Longrightarrow> heap_bound_deref h c = Some c \<and> heap_bound_store h c = c"
  by (subst heap_bound_deref.simps) (auto simp: var_target_def heap_bound_store_def is_var_def)

section \<open>Properties\<close>

text \<open>
  C5: Two finite terms are compared in the standard order: the result is that of comparing, in preorder and
  lexicographically, the keys of their cells, which put variables by address before floats by value, integers and
  rationals by value, atoms by name, and compound terms by arity, then name, then arguments. The store and the terms are \<open>comparable\<close> and
  \<open>plain\<close>: variables of the heap, lists, structures, atoms and numbers, so no strings, no references to the stack
  and no structure \<open>'.'/2\<close> that is not a list cell. Floats are ordered as the ordered-float crate documents.
\<close>
theorem comparison_is_standard_order:
  assumes "comparable strings st" and "float_order_ok N" and "plain strings st h1" and "plain strings st h2"
    and "preorder strings st [h1] ks" and "preorder strings st [h2] ms"
  shows "compare_term_test N strings st h1 h2 = Some (Some (cmp_of ks ms))"
proof -
  obtain o12 where o: "compares strings st [h1] [h2] [] o12" using comparison_runs [OF assms(1,3,4)] .
  then have "o12 = cmp_of ks ms" using compares_keys [OF o assms(1)] assms(3-6) by simp
  then show ?thesis using comparison_result [OF assms(1-4) o] by simp
qed

theorem comparison_is_standard_order_witness:
  "compare_term_test exact_env [] list_store (lis_of 8) (lis_of 6) = Some (Some Less)"
  using comparison_is_standard_order [OF lists_comparable exact_order_ok listed(4,3) list_words(2,1)]
  by (simp add: cmp_of_Cons) (simp add: cmp_of_pair functor_key_def cmp_of_def [of CatVariable] category_order)

text \<open>
  C4: Comparing two terms returns, cyclic terms included, and finds them equal exactly when they are the same, possibly
  infinite, tree under every assignment of trees to the unbound variables; the equality test fails on exactly the
  others. The store and the terms are \<open>comparable\<close> and
  \<open>plain\<close>: variables of the heap, lists, structures, atoms and numbers, so no strings, no references to the stack
  and no structure \<open>'.'/2\<close> that is not a list cell. Floats are ordered as the ordered-float crate documents.
\<close>
theorem comparison_decides_equality:
  assumes "comparable strings st" and "float_order_ok N" and "me_eq E = of_eq N"
    and "plain strings st h1" and "plain strings st h2"
  shows "\<exists>o12. compare_term_test N strings st h1 h2 = Some (Some o12) \<and>
    (o12 = Equal \<longleftrightarrow> (\<forall>s. tree_of s E st h1 = tree_of s E st h2)) \<and> eq_test N strings st h1 h2 = Some (o12 \<noteq> Equal)"
proof -
  obtain o12 where o: "compares strings st [h1] [h2] [] o12" using comparison_runs [OF assms(1,4,5)] .
  have "tree_of s E st h1 = tree_of s E st h2" if e: "o12 = Equal" for s
  proof -
    obtain t where "near strings st t h1 h2" "\<forall>p\<in>t. expanded strings st t p"
      using compares_equal [OF o assms(1) e] assms(4,5) by auto
    then show ?thesis using equal_trees [OF assms(1-3)] by blast
  qed
  moreover have "o12 = Equal" if "\<forall>s. tree_of s E st h1 = tree_of s E st h2"
    using different_trees [OF o assms(1-3)] assms(4,5) that by simp
  ultimately have iff: "o12 = Equal \<longleftrightarrow> (\<forall>s. tree_of s E st h1 = tree_of s E st h2)" by blast
  note r = comparison_result [OF assms(1,2,4,5) o]
  then have "eq_test N strings st h1 h2 = Some (o12 \<noteq> Equal)" using iff by (simp add: eq_test_def)
  then show ?thesis using r iff by blast
qed

theorem comparison_decides_equality_witness:
  "\<exists>o12. compare_term_test exact_env [] list_store (lis_of 0) (lis_of 2) = Some (Some o12) \<and>
    (o12 = Equal \<longleftrightarrow> (\<forall>s. tree_of s exact_machine list_store (lis_of 0) = tree_of s exact_machine list_store (lis_of 2))) \<and>
    eq_test exact_env [] list_store (lis_of 0) (lis_of 2) = Some (o12 \<noteq> Equal)"
  by (rule comparison_decides_equality [OF lists_comparable exact_order_ok _ listed(1,2)]) (simp add: exact_machine_def)

text \<open>
  C35: Exchanging two terms, cyclic or not, reverses the result of comparing them. The store and the terms are \<open>comparable\<close> and
  \<open>plain\<close>: variables of the heap, lists, structures, atoms and numbers, so no strings, no references to the stack
  and no structure \<open>'.'/2\<close> that is not a list cell. Floats are ordered as the ordered-float crate documents.
\<close>
theorem comparison_is_antisymmetric:
  assumes "comparable strings st" and "float_order_ok N" and "plain strings st h1" and "plain strings st h2"
  shows "compare_term_test N strings st h2 h1 = map_option (map_option opposite) (compare_term_test N strings st h1 h2)"
proof -
  obtain o12 where o: "compares strings st [h1] [h2] [] o12" using comparison_runs [OF assms(1,3,4)] .
  then have "compares strings st [h2] [h1] [] (opposite o12)" using compares_opposite [OF o] by simp
  then show ?thesis using comparison_result [OF assms(1,2,4,3)] comparison_result [OF assms o] by simp
qed

theorem comparison_is_antisymmetric_witness:
  "compare_term_test exact_env [] list_store (lis_of 2) (lis_of 8) =
   map_option (map_option opposite) (compare_term_test exact_env [] list_store (lis_of 8) (lis_of 2))"
  by (rule comparison_is_antisymmetric [OF lists_comparable exact_order_ok listed(4,2)])

text \<open>
  The comparison of a string with a list is reversed: \<open>"b"\<close> is found before \<open>[a|a]\<close>, and \<open>[a|a]\<close> before \<open>"b"\<close>.
\<close>
theorem string_is_compared_backwards:
  "compare_term_test exact_env [] string_store (string_of 0) (lis_of 2) = Some (Some Less) \<and>
   compare_term_test exact_env [] string_store (lis_of 2) (string_of 0) = Some (Some Less)"
proof -
  let ?st = string_store
  have b: "char_as_cell [] 98 = Some (atom_of 197 0)"
    using list_readings by (simp add: char_as_cell_def atom_as_cell_def encode_utf8_def atom_new_inlined_def)
  have succ: "succ_cell (SuccVar 1) = Some (loc_cell 1)" "heap_loc 3 = Some (loc_cell 3)" "heap_loc (Suc 2) = Some (loc_cell 3)" "heap_loc 2 = Some (loc_cell 2)"
    using loc_cell_readings(1) by (simp_all add: heap_loc_def)
  have cat: "order_category ?st (string_of 0) = Some CatCompound" "order_category ?st (lis_of 2) = Some CatCompound"
    "order_category ?st (atom_of 195 0) = Some CatAtom" "order_category ?st (atom_of 197 0) = Some CatAtom"
    using list_readings string_of_readings by (simp_all add: order_category_def)
  have nv: "\<not> is_var (string_of 0)" "\<not> is_var (lis_of 2)" "\<not> is_var (atom_of 195 0)" "\<not> is_var (atom_of 197 0)"
    using list_readings string_of_readings by (simp_all add: is_var_def)
  note ends = ends_at [OF nv(1)] ends_at [OF nv(2)] ends_at [OF nv(3)] ends_at [OF nv(4)]
  have two: "heap_bound_deref (ms_heap ?st) (loc_cell 2) = Some (loc_cell 2)" "heap_bound_store (ms_heap ?st) (loc_cell 2) = atom_of 195 0"
    using loc_cell_readings [of 2] string_store_cells nv by (subst heap_bound_deref.simps, auto simp: var_target_def heap_bound_store_def is_var_def)
  have names: "atom_cmp [] ?st 195 197 = Less" 
  proof -
    have "as_str [] (ms_atom_tbl ?st) (atom_new_inlined [n]) = [n]" if "0 < n" "n < 128" for n
      using that as_str_inlined [of "[n]"] by (simp add: inlinable_def INLINED_ATOM_MAX_LEN_def as_str_def)
    from this [of 97] this [of 98] show ?thesis by (simp add: atom_cmp_def cmp_of_def atom_new_inlined_def)
  qed
  have last: "compare_pairs exact_env [] ?st \<lparr>ph_stack = s1 # s2 # rest, ph_tabu = t\<rparr> = Some (Some Less)"
    if "heap_bound_deref (ms_heap ?st) s1 = Some r1" "heap_bound_deref (ms_heap ?st) s2 = Some r2"
      "heap_bound_store (ms_heap ?st) r1 = atom_of 195 0" "heap_bound_store (ms_heap ?st) r2 = atom_of 197 0" for s1 s2 r1 r2 rest t
  proof -
    have "ph_round exact_env [] ?st \<lparr>ph_stack = s1 # s2 # rest, ph_tabu = t\<rparr> =
        Some (Some (LessPair (atom_of 195 0) (atom_of 197 0)), \<lparr>ph_stack = [], ph_tabu = t\<rparr>)"
      using that list_readings names by (simp add: ph_round_def compare_cells_def cat parallel_cmp_def atom_name_of_def Let_def)
    then show ?thesis using compare_by_round [of "\<lparr>ph_stack = s1 # s2 # rest, ph_tabu = t\<rparr>"] by simp
  qed
  have "ph_round exact_env [] ?st (ParallelHeapIter_from (string_of 0) (lis_of 2)) =
      Some (None, \<lparr>ph_stack = [loc_cell 2, atom_of 197 0, loc_cell 3, loc_cell 1], ph_tabu = [(0, 2)]\<rparr>)"
    using ends list_readings string_of_readings string_store_char b succ
    by (simp add: ph_round_def ParallelHeapIter_from_def compare_cells_def cat parallel_cmp_def compare_pstrs_def Let_def unless_tabu_def
        tabu_insert_def push_built_def push_cells_def go_on_def)
  then have 1: "compare_term_test exact_env [] ?st (string_of 0) (lis_of 2) = Some (Some Less)"
    using last [OF two(1) _ two(2)] ends compare_by_round [of "ParallelHeapIter_from (string_of 0) (lis_of 2)"]
    by (simp add: compare_term_test_def ParallelHeapIter_from_def)
  have "ph_round exact_env [] ?st (ParallelHeapIter_from (lis_of 2) (string_of 0)) =
      Some (None, \<lparr>ph_stack = [loc_cell 2, atom_of 197 0, loc_cell 3, loc_cell 1], ph_tabu = [(2, 0)]\<rparr>)"
    using ends list_readings string_of_readings string_store_char b succ
    by (simp add: ph_round_def ParallelHeapIter_from_def compare_cells_def cat parallel_cmp_def compare_lists_def Let_def unless_tabu_def
        tabu_insert_def push_built_def push_cells_def go_on_def)
  then have "compare_term_test exact_env [] ?st (lis_of 2) (string_of 0) = Some (Some Less)"
    using last [OF two(1) _ two(2)] ends compare_by_round [of "ParallelHeapIter_from (lis_of 2) (string_of 0)"]
    by (simp add: compare_term_test_def ParallelHeapIter_from_def)
  with 1 show ?thesis by blast
qed

end
