(* ===== verification/Spec2Isabelle.thy ===== *)
theory Spec2Isabelle
  imports Reader CharReader Arithmetic PStrIter Balls TermComparison
begin

text \<open>
  A verification development of Scryer Prolog: the reader of Prolog text, the numbers it computes with, the
  tagged memory its terms live in, and the unification, the comparison and the copying of these terms.

  \<^bold>\<open>The program.\<close> Scryer Prolog (\<open>src/src/\<close>, in Rust) is a Prolog system built around an abstract
  machine. Text comes in through a buffered character reader (\<open>parser/char_reader.rs\<close>), is cut into
  tokens (\<open>parser/lexer.rs\<close>, with the character classes of \<open>parser/macros.rs\<close>) and parsed by
  operator precedence (\<open>parser/parser.rs\<close>, on the data of \<open>parser/ast.rs\<close>); terms go out through
  \<open>heap_print.rs\<close>. The machine keeps terms as 64-bit tagged cells (\<open>types.rs\<close>) in one growing block
  of memory (\<open>machine/heap.rs\<close>), with atoms as indices into a table of names (\<open>atom_table.rs\<close>,
  \<open>raw_block.rs\<close>) and texts as packed segments in that memory (\<open>machine/partial_string.rs\<close>).
  Variables are bound, trailed and undone by \<open>machine/machine_state_impl.rs\<close> and
  \<open>machine/mod.rs\<close>, unification (\<open>machine/unify.rs\<close>) is built on it, terms are copied by
  \<open>machine/copier.rs\<close> and compared by an iterator of \<open>heap_iter.rs\<close>, and \<open>is/2\<close> evaluates with \<open>arithmetic.rs\<close> and \<open>machine/arithmetic_ops.rs\<close>. Around this core stand the compiler, the
  instruction loop, the loader, streams and foreign interfaces.

  \<^bold>\<open>The reader.\<close> A method \<open>fn f(&mut self, ..) -> Result<T, E>\<close> is a function from the state to a
  result and the new state, kept on the error path too (\<open>Prelude\<close>: \<open>andThen\<close>, \<open>ret\<close>,
  \<open>raise\<close>).
  \<^item> \<open>CharClass\<close>: the macros of \<open>parser/macros.rs\<close>. The Unicode tables of the standard library above
    ASCII and the two third-party number parsers are the record \<open>lex_env\<close>.
  \<^item> \<open>Ast\<close>: \<open>parser/ast.rs\<close>: operator declarations and tables, errors, 56-bit \<open>Fixnum\<close>s, literals,
    terms.
  \<^item> \<open>Lexer\<close>: every method of \<open>Lexer\<close>, on a record of the characters to come, what follows them and
    the position. \<open>LexerProgress\<close> shows that every token consumes input, \<open>LexerReads\<close> is a small
    calculus of what a method reads.
  \<^item> \<open>Parser\<close>: every function of \<open>parser.rs\<close> on a record with the three stacks. \<open>ParserGrammar\<close> is
    the operator grammar as an inductive relation, the specification; \<open>ParserSound\<close> shows that the stacks
    are at every moment a parse of the tokens read, \<open>ParserCanon\<close> that canonical terms are read back.
  \<^item> \<open>Printer\<close>: the text of atoms, strings and numbers in \<open>heap_print.rs\<close>. \<open>RoundTrip\<close> and
    \<open>TermText\<close> show that the lexer reads back what is printed; \<open>Reader\<close> states the properties of lexer,
    parser and printer together and runs them on concrete text.
  \<^item> \<open>Utf8\<close>, \<open>CharReader\<close>: \<open>char_reader.rs\<close> over a script of what the wrapped reader delivers, in
    chunks and failures. The trait \<open>CharRead\<close> is the locale \<open>char_source\<close>, interpreted on this reader and
    on the list of characters the lexer uses, so that what is proved of the list holds of the bytes.

  \<^bold>\<open>Numbers.\<close> \<open>Float64\<close> is binary64 arithmetic on bit patterns, by integers rounded to nearest.
  \<open>Numbers\<close> (\<open>forms.rs\<close>, \<open>arithmetic.rs\<close>) and \<open>ArithOps\<close> (\<open>arithmetic_ops.rs\<close>) are the number
  type and every evaluable functor, machine integers wrapping where Rust's do. The crates for big numbers
  are the record \<open>num_env\<close>; what their documentation promises is the locale \<open>exact_numbers\<close>, inside
  which \<open>Arithmetic\<close> shows each operation exact whatever the representation of its operands.

  \<^bold>\<open>Memory.\<close> \<open>Bytes\<close> and \<open>Cells\<close> are little-endian bytes and cells bit for bit.
  \<^item> \<open>AtomTable\<close>: interning and the block of names; the names fixed at build time are the parameter
    \<open>strings\<close>, what the allocator can provide the parameter \<open>avail\<close>. The contract is the locale
    \<open>interner\<close>.
  \<^item> \<open>HeapMem\<close>, \<open>HeapStrings\<close>: \<open>heap.rs\<close> as the bytes written so far and a capacity; growing, cells,
    string segments with their padding, allocation and comparison of strings.
  \<^item> \<open>ListCycles\<close>, \<open>PStrIter\<close>: Brent's algorithm on lists (\<open>BrentAlgState\<close> of
    \<open>machine/system_calls.rs\<close>) and the iterator over the text of a list (\<open>partial_string.rs\<close>), both from
    one locale, \<open>succession\<close>, of a successor function on finitely many locations.
  \<^item> \<open>Store\<close>: \<open>MachineState\<close> with heap, stack, trail and the bounds of the current choice point;
    \<open>store\<close>, \<open>deref\<close>, \<open>trail\<close>, binding, \<open>unwind_trail\<close>.
  \<^item> \<open>Unify\<close>: \<open>unify.rs\<close>, over any binding operation that keeps the contract \<open>unifier\<close>, interpreted
    on the machine's. \<open>Backtracking\<close> shows that what unification changed is on the trail and that references
    keep their direction. \<open>UnifyTerms\<close> gives cells a meaning as possibly infinite trees (a codatatype) and
    refines the loop by a transition system on pairs of cells; \<open>UnifySearch\<close> shows that this system keeps
    the set of solutions, ends, and ends in a store that solves the equations or in failure;
    \<open>Unification\<close> states the properties.
  \<^item> \<open>Copier\<close>: all of \<open>copier.rs\<close>, with the trait \<open>CopierTarget\<close> as a record of operations and its two
    implementations in \<open>machine_state.rs\<close>, the heap (\<open>CopyTerm\<close>) and the stub of a ball behind the heap
    (\<open>CopyBallTerm\<close>). \<open>CopyWorld\<close> states which cells can be copied (\<open>copyable\<close>) and \<open>CopyInvariant\<close> what
    holds between two cells scanned: an old cell is as it was or leads to its copy, a new cell is the copy of its
    source or still that source, and what has been overwritten is on the trail. \<open>CopySteps\<close> shows on the bare
    cells that every action keeps this, \<open>CopyLoop\<close> that the code does these actions, over any target that
    keeps the contract \<open>copier_target\<close>. \<open>CopyTerms\<close> interprets the locale on both targets;
    \<open>CopyTrees\<close> shows that the copy is the same tree up to a renaming of variables and states the properties.
    \<open>Balls\<close> is the life of a ball: \<open>set_ball\<close> copies a term to a stub, \<open>get_ball\<close> brings it back to a
    heap that may be shorter by then.
  \<^item> \<open>TermOrder\<close>: the comparison of terms: \<open>ParallelHeapIter\<close>, \<open>order_category\<close>,
    \<open>compare_term_test\<close> and \<open>eq_test\<close>. \<open>TermCompare\<close> gives every cell a key and shows that one round
    compares keys, \<open>TermRuns\<close> is the loop as a step relation, \<open>TermStandard\<close> and \<open>TermPreorder\<close> show that
    it ends and that the result on finite terms is the lexicographic comparison of their keys in preorder, the
    standard order; \<open>TermEquality\<close> that on all terms, cyclic ones included, the result is \<open>Equal\<close> exactly
    when the trees are. \<open>TermComparison\<close> states the properties and shows on a concrete store that a string is
    compared with a list the wrong way round.

  \<^bold>\<open>Loops.\<close> Loops are recursive functions with a measure where the code shows why they end: the characters
  left (lexer), the tokens and stack sizes (parser), the space missing (growth of the heap), the operands
  (gcd, powers, radix). Where the state decides (walks through memory, the unification loop) they are
  \<open>partial_function (option)\<close>: \<open>None\<close> is a call that does not return, or a panic, and that the call returns
  is a theorem of its own under the stated condition on memory. The scan of the copier ends because a measure
  (\<open>work\<close>: old cells not yet copied, cells not yet scanned) decreases, which also bounds the size of a copy;
  a comparison ends because every pair of addresses is opened once.
  There is no fuel. Bounds that appear are the
  code's: \<open>2 ^ 56\<close> values in a cell, \<open>2 ^ 48\<close> names and arities below \<open>256\<close> in an atom, eight characters
  of room before the buffer of the character reader.
\<close>

text \<open>
  \<^bold>\<open>Parameters.\<close> Code outside \<open>src/\<close> is an argument: \<open>lex_env\<close> (Unicode tables, number parsers),
  \<open>num_env\<close> (big numbers, elementary functions), \<open>machine_env\<close> (static names and the equality of floats
  of the ordered-float crate), \<open>avail\<close> (the allocator), \<open>strings\<close> (generated names) and the script of a
  reader. Hypotheses on them are named (\<open>integer_parser_ok\<close>, \<open>exact_numbers\<close>, \<open>eq_ok\<close>,
  \<open>float_order_ok\<close>) and witnesses instantiate them.

  \<^bold>\<open>Not modelled.\<close> The instruction loop and the instructions themselves, the compiler with its register
  allocation and indexing, the loader, streams, the arena and the table of big numbers (numbers are kept by
  value), the control stack (the stack is its cells), the other iterators over terms with what is built on them
  (garbage collection, the occurs check, printing of whole terms), the code of attributed variables that runs
  in Prolog, and the interfaces to the outside. Of the copier everything is modelled; its properties are about
  an allocator that always provides, terms without strings and stack variables, with attributed variables only
  where attributes are stripped, and references that do not reach the inside of a list through a second
  variable, where the program copies another term. Sharing of the atom table between threads is the work of a
  crate; one call is one step here. Correctness of unification is stated for stores without strings, streams
  and structures \<open>'.'/2\<close>, where the program deviates; what it leaves for backtracking is stated for all. The
  comparison of terms is stated for the same stores without references to the stack. A variant
  (\<open>variant_copy\<close>) shares no variable with its original.
\<close>

end
